(* ===== verification/Prelude.thy ===== *)
theory Prelude
  imports Main "HOL-Library.Word" "HOL-Library.Multiset"
begin

text \<open>
  Shared vocabulary of the development: bytes, the 64-bit \<open>size_t\<close> arithmetic of
  the target, memory blocks as byte lists with the effect of \<open>memcpy\<close>, the allocator
  as a parameter, and the bit-level and big-endian lemmas the components share.
\<close>

unbundle bit_operations_syntax

section \<open>Collections\<close>

named_theorems size_simps \<open>rewriting of sizes that do not wrap\<close>
named_theorems view_simps \<open>operations on byte strings, through the bytes left to read\<close>

section \<open>Bytes and sizes\<close>

type_synonym byte = "8 word"

text \<open>
  A \<open>size_t\<close> is a \<^typ>\<open>nat\<close>; where the code relies on its wrap-around, the
  operation is written with \<open>size_wrap\<close>.
\<close>

definition size_wrap :: "nat \<Rightarrow> nat" where
  "size_wrap n = n mod 2 ^ 64"

definition SIZE_MAX :: nat where
  "SIZE_MAX = 2 ^ 64 - 1"

definition INT_MAX :: nat where
  "INT_MAX = 2 ^ 31 - 1"

lemma size_wrap_id [size_simps]: "n < 2 ^ 64 \<Longrightarrow> size_wrap n = n"
  by (simp add: size_wrap_def)

lemma size_wrap_less: "size_wrap n < 2 ^ 64"
  by (simp add: size_wrap_def)

lemma size_wrap_le: "size_wrap n \<le> n"
  by (simp add: size_wrap_def)

text \<open>The code's overflow test \<open>a + b < a\<close> on \<open>size_t\<close>.\<close>

lemma size_wrap_add_less:
  assumes "a < 2 ^ 64" "b < 2 ^ 64"
  shows "size_wrap (a + b) < a \<longleftrightarrow> 2 ^ 64 \<le> a + b"
proof (cases "a + b < 2 ^ 64")
  case True
  then show ?thesis by (simp add: size_wrap_def)
next
  case False
  have "a + b - 2 ^ 64 < 2 ^ 64" using assms by simp
  then have "size_wrap (a + b) = a + b - 2 ^ 64"
    using False by (simp add: size_wrap_def le_mod_geq)
  then show ?thesis using False assms by simp
qed

section \<open>Memory\<close>

text \<open>
  A block of memory is the list of its bytes. \<open>mem_write m i bs\<close> is the block after
  the bytes \<open>bs\<close> are stored from offset \<open>i\<close> on. The length of the block changes
  when the store leaves it, so that a lemma saying the length is kept says that the store
  is in bounds.
\<close>

definition mem_write :: "'a list \<Rightarrow> nat \<Rightarrow> 'a list \<Rightarrow> 'a list" where
  "mem_write m i bs = take i m @ bs @ drop (i + length bs) m"

lemma length_mem_write [simp]:
  "i + length bs \<le> length m \<Longrightarrow> length (mem_write m i bs) = length m"
  by (simp add: mem_write_def)

lemma mem_write_Nil [simp]: "mem_write m i [] = m"
  by (simp add: mem_write_def)

lemma take_mem_write [simp]:
  "i + length bs \<le> length m \<Longrightarrow> take (i + length bs) (mem_write m i bs) = take i m @ bs"
  by (simp add: mem_write_def)

lemma take_mem_write_le:
  "n \<le> i \<Longrightarrow> i \<le> length m \<Longrightarrow> take n (mem_write m i bs) = take n m"
  by (simp add: mem_write_def min_def)

lemma mem_write_append:
  assumes "i + length bs + length cs \<le> length m"
  shows "mem_write (mem_write m i bs) (i + length bs) cs = mem_write m i (bs @ cs)"
proof (cases "bs = []")
  case False
  then have "i < length m" using assms by (cases bs) auto
  then show ?thesis using assms by (auto simp: mem_write_def min_def ac_simps)
qed simp

text \<open>
  The allocator and the contents of fresh memory are parameters: \<open>malloc_ok n\<close> says
  whether an allocation of \<open>n\<close> bytes succeeds, \<open>junk i\<close> is the byte found at offset
  \<open>i\<close> of memory that has not been written.
\<close>

record heap_env =
  malloc_ok :: "nat \<Rightarrow> bool"
  junk :: "nat \<Rightarrow> byte"

definition plenty :: heap_env where
  "plenty = \<lparr>malloc_ok = (\<lambda>_. True), junk = (\<lambda>_. 0)\<rparr>"

lemma plenty_simps [simp]: "malloc_ok plenty n" "junk plenty i = 0"
  by (simp_all add: plenty_def)

section \<open>Bits\<close>

lemma bit_mask7_byte: "bit (0x7F :: byte) n \<longleftrightarrow> n < 7"
  using bit_mask_iff [where 'a = "8 word", of 7 n] by (auto simp: mask_eq_exp_minus_1)

lemma and_0x80_eq_0_iff: "(b :: byte) AND 0x80 = 0 \<longleftrightarrow> \<not> bit b 7"
  using and_exp_eq_0_iff_not_bit [of b 7] by simp

lemma unat_and_mask: "unat (w AND mask n :: 'a::len word) = unat w mod 2 ^ n"
  by (metis take_bit_eq_mask take_bit_eq_mod unsigned_take_bit_eq)

lemma drop_bit_less:
  assumes "(v :: 'a::len word) \<noteq> 0" "0 < k"
  shows "unat (drop_bit k v) < unat v"
proof -
  have "0 < unat v" using assms(1) by (simp add: unat_gt_0)
  then have "unat v div 2 ^ k < unat v"
    using assms(2) by (intro div_less_dividend) (simp_all add: one_less_power [of "2 :: nat" k, simplified])
  then show ?thesis by (simp only: unat_drop_bit_eq drop_bit_eq_div [where 'a = nat])
qed

lemma bit_le_unat: "bit (v :: 'a::len word) n \<Longrightarrow> 2 ^ n \<le> unat v"
proof -
  assume "bit v n"
  then have "bit (unat v) n" by (simp add: bit_unsigned_iff)
  then have "unat v div 2 ^ n \<noteq> 0" by (metis bit_iff_odd even_zero)
  then show ?thesis by (simp add: not_less div_eq_0_iff)
qed

lemma unat_less_bit: "unat (v :: 'a::len word) < 2 ^ k \<Longrightarrow> bit v n \<Longrightarrow> n < k"
  using bit_le_unat [of v n] by (meson leD le_less_trans not_less one_le_numeral power_increasing)

lemma unat_ucast_byte: "8 \<le> LENGTH('a) \<Longrightarrow> unat (ucast (b :: byte) :: 'a::len word) = unat b"
proof -
  assume "8 \<le> LENGTH('a)"
  then have "(2 :: nat) ^ 8 \<le> 2 ^ LENGTH('a)" by (rule power_increasing) simp
  then have "unat b < 2 ^ LENGTH('a)" using unsigned_less [of b, where 'a = nat] by simp
  then show ?thesis by (simp add: unsigned_ucast_eq take_bit_nat_eq_self)
qed

lemma unat_of_nat32: "n < 2 ^ 32 \<Longrightarrow> unat (word_of_nat n :: 32 word) = n"
  by (simp add: unat_of_nat)

lemma unat_of_nat64: "n < 2 ^ 64 \<Longrightarrow> unat (word_of_nat n :: 64 word) = n"
  by (simp add: unat_of_nat)

section \<open>Little-endian memory\<close>

text \<open>
  Storing and loading an integer of the target, whose byte order is little-endian.
\<close>

definition le_store :: "nat \<Rightarrow> 'a::len word \<Rightarrow> byte list" where
  "le_store n w = map (\<lambda>i. ucast (drop_bit (8 * i) w)) [0..<n]"

definition le_load :: "byte list \<Rightarrow> 'a::len word" where
  "le_load bs = foldr (\<lambda>b acc. ucast b OR push_bit 8 acc) bs 0"

lemma length_le_store [simp]: "length (le_store n w) = n"
  by (simp add: le_store_def)

lemma le_load_Cons: "le_load (b # bs) = ucast b OR push_bit 8 (le_load bs)"
  by (simp add: le_load_def)

lemma bit_le_load:
  "bit (le_load bs :: 'a::len word) n \<longleftrightarrow>
     n < LENGTH('a) \<and> n div 8 < length bs \<and> bit (bs ! (n div 8)) (n mod 8)"
proof (induction bs arbitrary: n)
  case Nil
  then show ?case by (simp add: le_load_def)
next
  case (Cons b bs)
  show ?case
  proof (cases "n < 8")
    case True
    then show ?thesis
      by (auto simp: le_load_Cons bit_or_iff bit_push_bit_iff bit_ucast_iff)
  next
    case False
    then obtain m where n: "n = m + 8" using le_Suc_ex [of 8 n] by (auto simp: add.commute)
    have "(m + 8) div 8 = Suc (m div 8)" by simp
    then show ?thesis
      using Cons.IH [of m]
      by (auto simp: n le_load_Cons bit_or_iff bit_push_bit_iff bit_ucast_iff
          dest: bit_imp_le_length)
  qed
qed

lemma le_store_load:
  assumes "length bs = n" "8 * n \<le> LENGTH('a)"
  shows "le_store n (le_load bs :: 'a::len word) = bs"
proof (rule nth_equalityI)
  fix i assume "i < length (le_store n (le_load bs :: 'a word))"
  then have i: "i < n" by simp
  have "bit (ucast (drop_bit (8 * i) (le_load bs :: 'a word)) :: byte) k = bit (bs ! i) k"
    if "k < 8" for k
  proof -
    have "(8 * i + k) div 8 = i" "(8 * i + k) mod 8 = k" using that by simp_all
    moreover have "8 * i + k < LENGTH('a)" using i that assms by linarith
    ultimately show ?thesis
      using that i assms(1) by (simp add: bit_ucast_iff bit_drop_bit_eq bit_le_load)
  qed
  then show "le_store n (le_load bs :: 'a word) ! i = bs ! i"
    using i by (auto simp: le_store_def intro: bit_word_eqI)
qed (simp add: assms)

lemma le_load_store:
  assumes "LENGTH('a) = 8 * n"
  shows "le_load (le_store n w) = (w :: 'a::len word)"
proof (rule bit_word_eqI)
  fix k assume "k < LENGTH('a)"
  then have "k div 8 < n" "8 * (k div 8) + k mod 8 = k" using assms by simp_all
  then show "bit (le_load (le_store n w) :: 'a word) k = bit w k"
    using \<open>k < LENGTH('a)\<close>
    by (simp add: bit_le_load le_store_def bit_ucast_iff bit_drop_bit_eq)
qed

end
