(* ===== verification/Pb_Stream.thy ===== *)
theory Pb_Stream
  imports Prelude
begin

text \<open>
  The byte streams of nanopb (\<open>pb_istream_t\<close> and \<open>pb_ostream_t\<close> of
  \<open>pb_decode.h\<close> and \<open>pb_encode.h\<close>, their operations in \<open>pb_decode.c\<close> and
  \<open>pb_encode.c\<close>), as the target builds them: \<open>PB_BUFFER_ONLY\<close> and
  \<open>PB_NO_ERRMSG\<close> unset.

  A stream's \<open>callback\<close> and \<open>state\<close> members are one value, its source or sink:
  \<open>buf_read\<close> and \<open>buf_write\<close> with the memory their state points into, or a
  caller's function, a parameter, with a state of its own type.
\<close>

section \<open>Input streams\<close>

text \<open>
  \<open>Buf_read m\<close>: the callback is \<open>buf_read\<close>, and \<open>m\<close> is the memory from the
  state pointer to the end of its block. \<open>User_read f s\<close>: a caller's callback; it
  fills the buffer it is given, so its result gives the byte at each index.
\<close>

datatype 's pb_source =
    Buf_read "byte list"
  | User_read "'s \<Rightarrow> nat \<Rightarrow> (nat \<Rightarrow> byte) option \<times> 's" 's

record 's pb_istream =
  source :: "'s pb_source"
  bytes_left :: nat
  is_errmsg :: "string option"

text \<open>\<open>PB_SET_ERROR\<close> keeps the first message.\<close>

definition is_set_error :: "string \<Rightarrow> 's pb_istream \<Rightarrow> 's pb_istream" where
  "is_set_error msg st =
     st\<lparr>is_errmsg := (case is_errmsg st of None \<Rightarrow> Some msg | Some m \<Rightarrow> Some m)\<rparr>"

text \<open>
  A call of the callback for \<open>n\<close> bytes. Reading past the block, which C leaves
  undefined, is the failing outcome; \<open>pb_read_ok\<close> below shows that a stream that
  is well formed never gets there.
\<close>

fun call_source :: "'s pb_source \<Rightarrow> nat \<Rightarrow> byte list option \<times> 's pb_source" where
  "call_source (Buf_read m) n =
     (if n \<le> length m then (Some (take n m), Buf_read (drop n m))
      else (None, Buf_read m))"
| "call_source (User_read f s) n =
     (case f s n of (r, s') \<Rightarrow>
        (map_option (\<lambda>g. map g [0..<n]) r, User_read f s'))"

text \<open>\<open>pb_read\<close> with a buffer.\<close>

definition pb_read :: "'s pb_istream \<Rightarrow> nat \<Rightarrow> byte list option \<times> 's pb_istream" where
  "pb_read st n =
     (if bytes_left st < n then (None, is_set_error ''end-of-stream'' st)
      else case call_source (source st) n of
        (None, s') \<Rightarrow> (None, is_set_error ''io error'' (st\<lparr>source := s'\<rparr>))
      | (Some bs, s') \<Rightarrow>
          (Some bs, st\<lparr>source := s', bytes_left := bytes_left st - n\<rparr>))"

text \<open>
  \<open>pb_read\<close> with a null buffer: a caller's callback is asked for pieces of 16 bytes
  that are dropped, the buffer callback moves its pointer only.
\<close>

function pb_read_skip :: "'s pb_istream \<Rightarrow> nat \<Rightarrow> bool \<times> 's pb_istream" where
  "pb_read_skip st n =
     (if n > 16
      then case pb_read st 16 of
        (None, st') \<Rightarrow> (False, st')
      | (Some _, st') \<Rightarrow> pb_read_skip st' (n - 16)
      else case pb_read st n of (r, st') \<Rightarrow> (r \<noteq> None, st'))"
  by pat_completeness auto
termination
  by (relation "measure snd") auto

declare pb_read_skip.simps [simp del]

definition pb_read_null :: "'s pb_istream \<Rightarrow> nat \<Rightarrow> bool \<times> 's pb_istream" where
  "pb_read_null st n =
     (case source st of
        Buf_read _ \<Rightarrow> (case pb_read st n of (r, st') \<Rightarrow> (r \<noteq> None, st'))
      | User_read _ _ \<Rightarrow> pb_read_skip st n)"

definition pb_readbyte :: "'s pb_istream \<Rightarrow> byte option \<times> 's pb_istream" where
  "pb_readbyte st =
     (if bytes_left st = 0 then (None, is_set_error ''end-of-stream'' st)
      else case call_source (source st) 1 of
        (None, s') \<Rightarrow> (None, is_set_error ''io error'' (st\<lparr>source := s'\<rparr>))
      | (Some bs, s') \<Rightarrow>
          (Some (bs ! 0), st\<lparr>source := s', bytes_left := bytes_left st - 1\<rparr>))"

definition pb_istream_from_buffer :: "byte list \<Rightarrow> nat \<Rightarrow> 's pb_istream" where
  "pb_istream_from_buffer buf bufsize =
     \<lparr>source = Buf_read buf, bytes_left = bufsize, is_errmsg = None\<rparr>"

subsection \<open>Well-formed input streams\<close>

text \<open>
  \<open>istream_ok\<close>: a buffer stream's limit stays within its memory. \<open>pending\<close>: the
  bytes a buffer stream has left to deliver.
\<close>

fun source_mem :: "'s pb_source \<Rightarrow> byte list" where
  "source_mem (Buf_read m) = m"
| "source_mem (User_read f s) = []"

definition is_buffer :: "'s pb_istream \<Rightarrow> bool" where
  "is_buffer st \<longleftrightarrow> (case source st of Buf_read _ \<Rightarrow> True | User_read _ _ \<Rightarrow> False)"

definition istream_ok :: "'s pb_istream \<Rightarrow> bool" where
  "istream_ok st \<longleftrightarrow> is_buffer st \<and> bytes_left st \<le> length (source_mem (source st))"

definition pending :: "'s pb_istream \<Rightarrow> byte list" where
  "pending st = take (bytes_left st) (source_mem (source st))"

text \<open>The stream after \<open>n\<close> bytes are consumed.\<close>

definition is_advance :: "nat \<Rightarrow> 's pb_istream \<Rightarrow> 's pb_istream" where
  "is_advance n st =
     st\<lparr>source := Buf_read (drop n (source_mem (source st))),
        bytes_left := bytes_left st - n\<rparr>"

lemma is_set_error_fields [simp]:
  "source (is_set_error m st) = source st"
  "bytes_left (is_set_error m st) = bytes_left st"
  by (simp_all add: is_set_error_def)

lemma is_set_error_ok [simp]: "istream_ok (is_set_error m st) = istream_ok st"
  by (simp add: istream_ok_def is_buffer_def)

lemma is_set_error_pending [simp]: "pending (is_set_error m st) = pending st"
  by (simp add: pending_def)

lemma istream_okE:
  assumes "istream_ok st"
  obtains m where "source st = Buf_read m" "bytes_left st \<le> length m"
  using assms by (auto simp: istream_ok_def is_buffer_def split: pb_source.splits)

lemma length_pending [simp]: "istream_ok st \<Longrightarrow> length (pending st) = bytes_left st"
  by (simp add: istream_ok_def pending_def)

lemma is_advance_ok [simp]: "istream_ok st \<Longrightarrow> istream_ok (is_advance n st)"
  by (auto simp: istream_ok_def is_buffer_def is_advance_def)

lemma pending_is_advance [simp]: "pending (is_advance n st) = drop n (pending st)"
  by (simp add: pending_def is_advance_def drop_take)

lemma is_advance_0 [simp]: "istream_ok st \<Longrightarrow> is_advance 0 st = st"
  by (auto simp: is_advance_def elim!: istream_okE)

lemma is_advance_add [simp]: "is_advance n (is_advance k st) = is_advance (k + n) st"
  by (simp add: is_advance_def add.commute)

lemma bytes_left_is_advance [simp]: "bytes_left (is_advance n st) = bytes_left st - n"
  by (simp add: is_advance_def)

lemma from_buffer_ok [simp]:
  "n \<le> length buf \<Longrightarrow> istream_ok (pb_istream_from_buffer buf n)"
  by (simp add: istream_ok_def is_buffer_def pb_istream_from_buffer_def)

lemma pending_from_buffer [simp]: "pending (pb_istream_from_buffer buf n) = take n buf"
  by (simp add: pending_def pb_istream_from_buffer_def)

text \<open>On a well-formed stream every read is decided by the pending bytes.\<close>

lemma pb_read_ok [view_simps]:
  assumes "istream_ok st"
  shows "pb_read st n =
    (if n \<le> length (pending st) then (Some (take n (pending st)), is_advance n st)
     else (None, is_set_error ''end-of-stream'' st))"
  using assms
  by (auto simp: pb_read_def is_advance_def pending_def min_def elim!: istream_okE)

lemma pb_readbyte_ok [view_simps]:
  assumes "istream_ok st"
  shows "pb_readbyte st =
    (case pending st of
       b # _ \<Rightarrow> (Some b, is_advance 1 st)
     | [] \<Rightarrow> (None, is_set_error ''end-of-stream'' st))"
proof -
  from assms obtain m where m: "source st = Buf_read m" "bytes_left st \<le> length m"
    by (rule istream_okE)
  show ?thesis
  proof (cases "bytes_left st")
    case (Suc k)
    then obtain b m' where "m = b # m'" using m by (cases m) auto
    then show ?thesis using m Suc
      by (simp add: pb_readbyte_def pending_def is_advance_def)
  qed (simp add: pb_readbyte_def pending_def)
qed

lemma pb_read_null_ok [view_simps]:
  assumes "istream_ok st"
  shows "pb_read_null st n =
    (if n \<le> length (pending st) then (True, is_advance n st)
     else (False, is_set_error ''end-of-stream'' st))"
  using assms pb_read_ok [OF assms, of n]
  by (auto simp: pb_read_null_def elim!: istream_okE)

text \<open>A byte that was read is gone from the limit: this is why the loops below stop.\<close>

lemma pb_readbyte_decreases:
  "pb_readbyte st = (Some b, st') \<Longrightarrow> bytes_left st' < bytes_left st"
  by (auto simp: pb_readbyte_def split: if_splits prod.splits option.splits)

lemma pb_read1_decreases:
  "pb_read st (Suc 0) = (Some bs, st') \<Longrightarrow> bytes_left st' < bytes_left st"
  by (auto simp: pb_read_def split: if_splits prod.splits option.splits)

section \<open>Output streams\<close>

text \<open>
  \<open>Sizing\<close>: the callback is null, bytes are counted only. \<open>Buf_write m pos\<close>:
  \<open>buf_write\<close> with its state pointing at offset \<open>pos\<close> of the block \<open>m\<close>.
\<close>

datatype 's pb_sink =
    is_Sizing: Sizing
  | Buf_write "byte list" nat
  | User_write "'s \<Rightarrow> byte list \<Rightarrow> bool \<times> 's" 's

record 's pb_ostream =
  sink :: "'s pb_sink"
  max_size :: nat
  bytes_written :: nat
  os_errmsg :: "string option"

definition os_set_error :: "string \<Rightarrow> 's pb_ostream \<Rightarrow> 's pb_ostream" where
  "os_set_error msg st =
     st\<lparr>os_errmsg := (case os_errmsg st of None \<Rightarrow> Some msg | Some m \<Rightarrow> Some m)\<rparr>"

fun call_sink :: "'s pb_sink \<Rightarrow> byte list \<Rightarrow> bool \<times> 's pb_sink" where
  "call_sink Sizing buf = (True, Sizing)"
| "call_sink (Buf_write m pos) buf =
     (True, Buf_write (mem_write m pos buf) (pos + length buf))"
| "call_sink (User_write f s) buf = (case f s buf of (ok, s') \<Rightarrow> (ok, User_write f s'))"

definition pb_ostream_from_buffer :: "byte list \<Rightarrow> nat \<Rightarrow> 's pb_ostream" where
  "pb_ostream_from_buffer buf bufsize =
     \<lparr>sink = Buf_write buf 0, max_size = bufsize, bytes_written = 0, os_errmsg = None\<rparr>"

definition PB_OSTREAM_SIZING :: "'s pb_ostream" where
  "PB_OSTREAM_SIZING = \<lparr>sink = Sizing, max_size = 0, bytes_written = 0, os_errmsg = None\<rparr>"

definition pb_write :: "'s pb_ostream \<Rightarrow> byte list \<Rightarrow> bool \<times> 's pb_ostream" where
  "pb_write st buf =
     (let n = length buf;
          done = (\<lambda>s'. (True, st\<lparr>sink := s',
                     bytes_written := size_wrap (bytes_written st + n)\<rparr>))
      in if \<not> is_Sizing (sink st)
         then if max_size st < size_wrap (bytes_written st + n)
              then (False, os_set_error ''stream full'' st)
              else (case call_sink (sink st) buf of
                 (False, s') \<Rightarrow> (False, os_set_error ''io error'' (st\<lparr>sink := s'\<rparr>))
               | (True, s') \<Rightarrow> done s')
         else done Sizing)"

text \<open>
  \<open>pb_write (stream, NULL, size)\<close>, which the code uses on sizing streams only: the
  count is the only effect.
\<close>

definition pb_write_null :: "'s pb_ostream \<Rightarrow> nat \<Rightarrow> bool \<times> 's pb_ostream" where
  "pb_write_null st n =
     (True, st\<lparr>bytes_written := size_wrap (bytes_written st + n)\<rparr>)"

subsection \<open>Well-formed output streams\<close>

text \<open>
  \<open>ostream_ok\<close>: what the limit still allows fits behind the write pointer.
  \<open>os_room\<close>: that limit. \<open>os_out\<close>: the memory before the write pointer.
  \<open>os_append\<close>: the stream after some bytes went through the buffer callback.
\<close>

fun sink_mem :: "'s pb_sink \<Rightarrow> byte list" where
  "sink_mem (Buf_write m pos) = m"
| "sink_mem _ = []"

fun sink_pos :: "'s pb_sink \<Rightarrow> nat" where
  "sink_pos (Buf_write m pos) = pos"
| "sink_pos _ = 0"

definition os_is_buffer :: "'s pb_ostream \<Rightarrow> bool" where
  "os_is_buffer st \<longleftrightarrow> (case sink st of Buf_write _ _ \<Rightarrow> True | _ \<Rightarrow> False)"

definition os_room :: "'s pb_ostream \<Rightarrow> nat" where
  "os_room st = max_size st - bytes_written st"

definition os_out :: "'s pb_ostream \<Rightarrow> byte list" where
  "os_out st = take (sink_pos (sink st)) (sink_mem (sink st))"

definition ostream_ok :: "'s pb_ostream \<Rightarrow> bool" where
  "ostream_ok st \<longleftrightarrow>
     os_is_buffer st \<and> bytes_written st \<le> max_size st \<and> max_size st < 2 ^ 64 \<and>
     sink_pos (sink st) + os_room st \<le> length (sink_mem (sink st))"

definition os_append :: "byte list \<Rightarrow> 's pb_ostream \<Rightarrow> 's pb_ostream" where
  "os_append bs st =
     st\<lparr>sink := snd (call_sink (sink st) bs), bytes_written := bytes_written st + length bs\<rparr>"

lemma ostream_okE:
  assumes "ostream_ok st"
  obtains m pos where "sink st = Buf_write m pos" "bytes_written st \<le> max_size st"
    "max_size st < 2 ^ 64" "pos + (max_size st - bytes_written st) \<le> length m"
  using assms by (auto simp: ostream_ok_def os_is_buffer_def os_room_def split: pb_sink.splits)

lemma os_append_simps [simp]:
  assumes "ostream_ok st" "length bs \<le> os_room st"
  shows "ostream_ok (os_append bs st)" "os_out (os_append bs st) = os_out st @ bs"
    "os_room (os_append bs st) = os_room st - length bs"
    "length (sink_mem (sink (os_append bs st))) = length (sink_mem (sink st))"
  using assms
  by (auto simp: ostream_ok_def os_is_buffer_def os_append_def os_room_def os_out_def
      mem_write_def min_def elim!: ostream_okE split: pb_sink.splits)

lemma os_append_append:
  assumes "ostream_ok st" "length bs + length cs \<le> os_room st"
  shows "os_append cs (os_append bs st) = os_append (bs @ cs) st"
proof -
  from assms(1) obtain m pos where s: "sink st = Buf_write m pos"
    and m: "pos + (max_size st - bytes_written st) \<le> length m"
    by (rule ostream_okE)
  have "pos + length bs + length cs \<le> length m"
    using assms(2) m by (simp add: os_room_def)
  then show ?thesis using s mem_write_append [of pos bs cs m]
    by (simp add: os_append_def add.assoc)
qed

lemma os_set_error_fields [simp]:
  "sink (os_set_error m st) = sink st" "bytes_written (os_set_error m st) = bytes_written st"
  "max_size (os_set_error m st) = max_size st"
  by (simp_all add: os_set_error_def)

text \<open>
  \<open>pb_write\<close> on a buffer writes all bytes or none, and decides which by the room left,
  as long as the sum it compares does not wrap.
\<close>

lemma pb_write_ok:
  assumes "ostream_ok st" "bytes_written st + length bs < 2 ^ 64"
  shows "pb_write st bs =
    (if length bs \<le> os_room st then (True, os_append bs st)
     else (False, os_set_error ''stream full'' st))"
  using assms
  by (auto simp: pb_write_def Let_def os_append_def os_room_def size_wrap_id elim!: ostream_okE)

lemma pb_write_fits:
  assumes "ostream_ok st" "length bs \<le> os_room st"
  shows "pb_write st bs = (True, os_append bs st)"
proof -
  have "bytes_written st + length bs < 2 ^ 64"
    using assms by (auto simp: os_room_def ostream_ok_def)
  then show ?thesis using assms by (simp add: pb_write_ok)
qed

lemma pb_write_sizing:
  assumes "sink st = Sizing" "bytes_written st + length bs < 2 ^ 64"
  shows "pb_write st bs = (True, st\<lparr>bytes_written := bytes_written st + length bs\<rparr>)"
  using assms by (simp add: pb_write_def Let_def size_wrap_id)

lemma ostream_from_buffer [simp]:
  assumes "n \<le> length buf" "n < 2 ^ 64"
  shows "ostream_ok (pb_ostream_from_buffer buf n)" "os_room (pb_ostream_from_buffer buf n) = n"
    "os_out (pb_ostream_from_buffer buf n) = []"
  using assms
  by (auto simp: ostream_ok_def os_is_buffer_def os_room_def os_out_def pb_ostream_from_buffer_def)

end
