(* ===== verification/Pb_Varint.thy ===== *)
theory Pb_Varint
  imports Pb_Stream
begin

text \<open>
  The variable-length integers of the protobuf wire format: \<open>pb_encode_varint\<close> and
  \<open>pb_encode_svarint\<close> of \<open>pb_encode.c\<close>, \<open>pb_decode_varint\<close>,
  \<open>pb_decode_varint32_eof\<close> and \<open>pb_decode_svarint\<close> of \<open>pb_decode.c\<close>.
  \<open>uint_fast8_t\<close> is 8 bits wide on the target, and \<open>bitpos\<close> wraps as such.
\<close>

section \<open>Encoding\<close>

text \<open>The loop that fills \<open>buffer\<close>, least significant seven bits first.\<close>

function varint_loop :: "64 word \<Rightarrow> byte list" where
  "varint_loop value =
     (if value = 0 then []
      else (ucast (value AND 0x7F) OR 0x80) # varint_loop (drop_bit 7 value))"
  by pat_completeness auto
termination
  by (relation "measure unat") (auto intro: drop_bit_less)

declare varint_loop.simps [simp del]

definition pb_varint_buffer :: "64 word \<Rightarrow> byte list" where
  "pb_varint_buffer value =
     (if value \<le> 0x7F then [ucast value]
      else let buffer = varint_loop value; i = length buffer
           in buffer[i - 1 := buffer ! (i - 1) AND 0x7F])"

definition pb_encode_varint :: "'s pb_ostream \<Rightarrow> 64 word \<Rightarrow> bool \<times> 's pb_ostream" where
  "pb_encode_varint st value = pb_write st (pb_varint_buffer value)"

text \<open>The signed argument is its two's complement word; \<open>value < 0\<close> is its sign bit.\<close>

definition zigzag :: "64 word \<Rightarrow> 64 word" where
  "zigzag value = (if sint value < 0 then NOT (push_bit 1 value) else push_bit 1 value)"

definition pb_encode_svarint :: "'s pb_ostream \<Rightarrow> 64 word \<Rightarrow> bool \<times> 's pb_ostream" where
  "pb_encode_svarint st value = pb_encode_varint st (zigzag value)"

section \<open>Decoding\<close>

function decode_varint_loop ::
  "'s pb_istream \<Rightarrow> nat \<Rightarrow> 64 word \<Rightarrow> 64 word option \<times> 's pb_istream" where
  "decode_varint_loop st bitpos result =
     (if bitpos \<ge> 64 then (None, is_set_error ''varint overflow'' st)
      else case pb_readbyte st of
        (None, st') \<Rightarrow> (None, st')
      | (Some b, st') \<Rightarrow>
          (let result' = result OR push_bit bitpos (ucast (b AND 0x7F));
               bitpos' = (bitpos + 7) mod 256
           in if b AND 0x80 \<noteq> 0 then decode_varint_loop st' bitpos' result'
              else (Some result', st')))"
  by pat_completeness auto
termination
  by (relation "measure (\<lambda>(st, bitpos, result). 64 - bitpos)") auto

declare decode_varint_loop.simps [simp del]

definition pb_decode_varint :: "'s pb_istream \<Rightarrow> 64 word option \<times> 's pb_istream" where
  "pb_decode_varint st = decode_varint_loop st 0 0"

text \<open>
  The multibyte part of \<open>pb_decode_varint32_eof\<close>, and the check behind its loop.
\<close>

function decode_varint32_loop ::
  "'s pb_istream \<Rightarrow> nat \<Rightarrow> 32 word \<Rightarrow> 32 word option \<times> 's pb_istream" where
  "decode_varint32_loop st bitpos result =
     (case pb_readbyte st of
        (None, st') \<Rightarrow> (None, st')
      | (Some b, st') \<Rightarrow>
          (let sign_extension = (if bitpos < 63 then 0xFF else 0x01 :: byte);
               bitpos' = (bitpos + 7) mod 256;
               result' = (if bitpos \<ge> 32 then result
                          else result OR push_bit bitpos (ucast (b AND 0x7F)))
           in if bitpos \<ge> 32 \<and> b AND 0x7F \<noteq> 0 \<and>
                 (drop_bit 31 result = 0 \<or> b \<noteq> sign_extension)
              then (None, is_set_error ''varint overflow'' st')
              else if b AND 0x80 \<noteq> 0 then decode_varint32_loop st' bitpos' result'
              else if bitpos' = 35 \<and> b AND 0x70 \<noteq> 0
              then (None, is_set_error ''varint overflow'' st')
              else (Some result', st')))"
  by pat_completeness auto
termination
  by (relation "measure (\<lambda>(st, bitpos, result). bytes_left st)")
    (auto dest: pb_readbyte_decreases [OF sym])

declare decode_varint32_loop.simps [simp del]

text \<open>
  The result, the new value of \<open>*eof\<close>, and the stream. A null \<open>eof\<close> drops the
  second component, as \<open>pb_decode_varint32\<close> does.
\<close>

definition pb_decode_varint32_eof ::
  "'s pb_istream \<Rightarrow> bool \<Rightarrow> 32 word option \<times> bool \<times> 's pb_istream" where
  "pb_decode_varint32_eof st eof =
     (case pb_readbyte st of
        (None, st') \<Rightarrow> (None, (if bytes_left st' = 0 then True else eof), st')
      | (Some b, st') \<Rightarrow>
          if b AND 0x80 = 0 then (Some (ucast b), eof, st')
          else (case decode_varint32_loop st' 7 (ucast (b AND 0x7F)) of
                  (r, st'') \<Rightarrow> (r, eof, st'')))"

definition pb_decode_varint32 :: "'s pb_istream \<Rightarrow> 32 word option \<times> 's pb_istream" where
  "pb_decode_varint32 st = (case pb_decode_varint32_eof st False of (r, _, st') \<Rightarrow> (r, st'))"

definition unzigzag :: "64 word \<Rightarrow> 64 word" where
  "unzigzag value = (if value AND 1 \<noteq> 0 then NOT (drop_bit 1 value) else drop_bit 1 value)"

definition pb_decode_svarint :: "'s pb_istream \<Rightarrow> 64 word option \<times> 's pb_istream" where
  "pb_decode_svarint st =
     (case pb_decode_varint st of
        (None, st') \<Rightarrow> (None, st')
      | (Some value, st') \<Rightarrow> (Some (unzigzag value), st'))"

text \<open>\<open>pb_skip_varint\<close> reads up to a byte with a clear top bit.\<close>

function pb_skip_varint :: "'s pb_istream \<Rightarrow> bool \<times> 's pb_istream" where
  "pb_skip_varint st =
     (case pb_read st 1 of
        (None, st') \<Rightarrow> (False, st')
      | (Some bs, st') \<Rightarrow> if bs ! 0 AND 0x80 \<noteq> 0 then pb_skip_varint st' else (True, st'))"
  by pat_completeness auto
termination
  by (relation "measure bytes_left") (auto dest: pb_read1_decreases [OF sym])

declare pb_skip_varint.simps [simp del]

section \<open>The shape of an encoded varint\<close>

lemma le_7F_iff: "(v :: 64 word) \<le> 0x7F \<longleftrightarrow> drop_bit 7 v = 0"
proof -
  have "unat v \<le> 127 \<longleftrightarrow> unat v div 128 = 0" by auto
  also have "\<dots> \<longleftrightarrow> unat (drop_bit 7 v) = 0"
    by (simp only: unat_drop_bit_eq drop_bit_eq_div [where 'a = nat]) simp
  finally show ?thesis by (simp add: word_le_nat_alt unat_eq_zero)
qed

lemma bit_7F_byte: "bit (0x7F :: byte) n \<longleftrightarrow> n < 7"
  using bit_mask_iff [where 'a = byte, of 7 n] by (auto simp: mask_eq_exp_minus_1)

lemma bit_7F_word: "bit (0x7F :: 64 word) n \<longleftrightarrow> n < 7"
  using bit_mask_iff [where 'a = "64 word", of 7 n] by (auto simp: mask_eq_exp_minus_1)

lemma bit_80_byte: "bit (0x80 :: byte) n \<longleftrightarrow> n = 7"
  using bit_exp_iff [where 'a = byte, of 7 n] by auto

lemmas group_bits = bit_and_iff bit_or_iff bit_ucast_iff bit_7F_byte bit_7F_word bit_80_byte

lemma group_and_7F [simp]:
  "(ucast ((v :: 64 word) AND 0x7F) OR 0x80 :: byte) AND 0x7F = ucast (v AND 0x7F)"
  by (rule bit_word_eqI) (unfold group_bits, auto)

lemma group_bit7 [simp]: "bit (ucast ((v :: 64 word) AND 0x7F) OR 0x80 :: byte) 7"
  by (unfold group_bits) simp

lemma drop_bit_7_bits:
  assumes "drop_bit 7 v = 0" "7 \<le> n"
  shows "\<not> bit (v :: 64 word) n"
proof -
  have "bit (drop_bit 7 v) (n - 7) = bit v n"
    using assms(2) by (simp add: bit_drop_bit_eq)
  with assms(1) show ?thesis by simp
qed

lemma small_and_7F: "(v :: 64 word) \<le> 0x7F \<Longrightarrow> v AND 0x7F = v"
  by (rule bit_word_eqI) (unfold group_bits le_7F_iff, use drop_bit_7_bits not_less in blast)

lemma small_ucast_bit7: "(v :: 64 word) \<le> 0x7F \<Longrightarrow> \<not> bit (ucast v :: byte) 7"
  by (unfold group_bits le_7F_iff) (use drop_bit_7_bits in blast)

lemma varint_loop_nonempty: "v \<noteq> 0 \<Longrightarrow> varint_loop v \<noteq> []"
  by (simp add: varint_loop.simps [of v])

lemma pb_varint_buffer_rec:
  "pb_varint_buffer v =
     (if v \<le> 0x7F then [ucast v]
      else (ucast (v AND 0x7F) OR 0x80) # pb_varint_buffer (drop_bit 7 v))"
proof (cases "v \<le> 0x7F")
  case False
  then have nz: "drop_bit 7 v \<noteq> 0" "v \<noteq> 0" by (auto simp: le_7F_iff)
  let ?t = "varint_loop (drop_bit 7 v)"
  have t: "?t \<noteq> []" using nz by (simp add: varint_loop_nonempty)
  have v: "varint_loop v = (ucast (v AND 0x7F) OR 0x80) # ?t"
    using nz by (simp add: varint_loop.simps [of v])
  have "pb_varint_buffer v =
      (ucast (v AND 0x7F) OR 0x80) # ?t[length ?t - 1 := ?t ! (length ?t - 1) AND 0x7F]"
    using False t by (cases ?t) (simp_all add: pb_varint_buffer_def v)
  moreover have "?t[length ?t - 1 := ?t ! (length ?t - 1) AND 0x7F]
      = pb_varint_buffer (drop_bit 7 v)"
  proof (cases "drop_bit 7 v \<le> 0x7F")
    case True
    then have "?t = [ucast (drop_bit 7 v AND 0x7F) OR 0x80]"
      using nz by (simp add: varint_loop.simps [of "drop_bit 7 v"] varint_loop.simps [of 0] le_7F_iff)
    then show ?thesis using True group_and_7F [of "drop_bit 7 v"]
      by (simp add: pb_varint_buffer_def small_and_7F)
  qed (simp add: pb_varint_buffer_def Let_def)
  ultimately show ?thesis using False by simp
qed (simp add: pb_varint_buffer_def)

text \<open>The ten bytes of \<open>buffer\<close> are enough.\<close>

lemma pb_varint_buffer_length:
  "unat v < 2 ^ (7 * Suc k) \<Longrightarrow> length (pb_varint_buffer v) \<le> Suc k"
proof (induction k arbitrary: v)
  case 0
  then have "v \<le> 0x7F" by (simp add: word_le_nat_alt)
  then show ?case by (simp add: pb_varint_buffer_rec [of v])
next
  case (Suc k)
  have "unat (drop_bit 7 v) = unat v div 2 ^ 7"
    by (simp only: unat_drop_bit_eq drop_bit_eq_div [where 'a = nat])
  also have "\<dots> < 2 ^ (7 * Suc k)"
    using Suc.prems by (intro less_mult_imp_div_less) (simp add: power_add)
  finally show ?case using Suc.IH by (simp add: pb_varint_buffer_rec [of v])
qed

lemma pb_varint_buffer_bounds:
  "0 < length (pb_varint_buffer v)" "length (pb_varint_buffer v) \<le> 10"
  using pb_varint_buffer_length [of v 9] unsigned_less [of v, where 'a = nat]
  by (auto simp: pb_varint_buffer_rec [of v])

section \<open>Decoding inverts encoding\<close>

lemma unat_drop_7: "unat (drop_bit 7 v) = unat (v :: 64 word) div 128"
  by (simp only: unat_drop_bit_eq drop_bit_eq_div [where 'a = nat]) simp

lemma group_ucast [simp]:
  "ucast (ucast ((v :: 64 word) AND 0x7F) :: byte) = (v AND 0x7F :: 64 word)"
  by (rule bit_word_eqI) (unfold group_bits, auto)

lemma last_group_ucast: "v \<le> 0x7F \<Longrightarrow> ucast ((ucast v :: byte) AND 0x7F) = (v :: 64 word)"
proof -
  have "ucast ((ucast v :: byte) AND 0x7F) = v AND 0x7F"
    by (rule bit_word_eqI) (unfold group_bits, auto)
  then show "v \<le> 0x7F \<Longrightarrow> ?thesis" by (simp add: small_and_7F)
qed

lemma or_push_bit_group:
  "(r OR push_bit k (v AND 0x7F)) OR push_bit (k + 7) (drop_bit 7 v) = r OR push_bit k (v :: 64 word)"
  (is "?l = ?r")
proof (rule bit_word_eqI)
  fix n assume "n < LENGTH(64)"
  moreover have "k + 7 \<le> n \<Longrightarrow> 7 + (n - (k + 7)) = n - k" by simp
  ultimately show "bit ?l n = bit ?r n"
    by (cases "k + 7 \<le> n")
      (unfold bit_or_iff bit_push_bit_iff bit_drop_bit_eq comp_def bit_and_iff bit_7F_word, auto)
qed

lemma decode_varint_loop_ok:
  assumes "istream_ok st" "pending st = pb_varint_buffer v @ rest" "k < 64"
    "unat v * 2 ^ k < 2 ^ 64"
  shows "decode_varint_loop st k r =
    (Some (r OR push_bit k v), is_advance (length (pb_varint_buffer v)) st)"
  using assms
proof (induction v arbitrary: st k r rule: measure_induct_rule [where f = unat])
  case (less v)
  show ?case
  proof (cases "v \<le> 0x7F")
    case True
    then show ?thesis using less.prems
      by (simp add: decode_varint_loop.simps [of st] pb_readbyte_ok pb_varint_buffer_rec [of v]
          and_0x80_eq_0_iff small_ucast_bit7 last_group_ucast)
  next
    case False
    let ?v = "drop_bit 7 v"
    have nz: "v \<noteq> 0" "?v \<noteq> 0" using False by (auto simp: le_7F_iff)
    have dec: "unat ?v < unat v" using nz(1) by (intro drop_bit_less) auto
    have "unat ?v * 2 ^ (k + 7) = (unat v div 128 * 128) * 2 ^ k"
      by (simp add: unat_drop_7 power_add)
    also have "\<dots> \<le> unat v * 2 ^ k" by (intro mult_right_mono) auto
    finally have fit: "unat ?v * 2 ^ (k + 7) < 2 ^ 64" using less.prems(4) by simp
    have "2 ^ (k + 7) \<le> unat ?v * 2 ^ (k + 7)" using nz(2) by (simp add: Suc_leI unat_gt_0)
    then have "(2 :: nat) ^ (k + 7) < 2 ^ 64" using fit by (rule le_less_trans)
    then have k: "k + 7 < 64" by (rule power_less_imp_less_exp [rotated]) simp
    have "decode_varint_loop (is_advance 1 st) (k + 7) (r OR push_bit k (v AND 0x7F)) =
        (Some ((r OR push_bit k (v AND 0x7F)) OR push_bit (k + 7) ?v),
         is_advance (length (pb_varint_buffer ?v)) (is_advance 1 st))"
      using less.prems False k fit
      by (intro less.IH [OF dec]) (simp_all add: pb_varint_buffer_rec [of v])
    then show ?thesis using less.prems False k
      by (simp add: decode_varint_loop.simps [of st] pb_readbyte_ok pb_varint_buffer_rec [of v]
          and_0x80_eq_0_iff or_push_bit_group del: push_bit_and)
  qed
qed

lemma pb_decode_varint_ok:
  assumes "istream_ok st" "pending st = pb_varint_buffer v @ rest"
  shows "pb_decode_varint st = (Some v, is_advance (length (pb_varint_buffer v)) st)"
  using decode_varint_loop_ok [OF assms, of 0 0] unsigned_less [of v, where 'a = nat]
  by (simp add: pb_decode_varint_def)

lemma unzigzag_zigzag: "unzigzag (zigzag v) = v"
proof -
  have s: "sint v < 0 \<longleftrightarrow> bit v 63" using bit_last_iff [of v] by simp
  have o: "w AND 1 \<noteq> 0 \<longleftrightarrow> bit w 0" for w :: "64 word"
    by (simp add: and_one_eq bit_0 odd_iff_mod_2_eq_one)
  have z: "bit (zigzag v) n \<longleftrightarrow> n < 64 \<and> (if n = 0 then bit v 63 else bit v (n - 1) \<noteq> bit v 63)" for n
    unfolding zigzag_def s
    by (cases "bit v 63"; cases n)
      (auto simp only: if_True if_False bit_not_iff bit_push_bit_iff, auto)
  show ?thesis
  proof (rule bit_word_eqI)
    fix n assume "n < LENGTH(64)"
    then show "bit (unzigzag (zigzag v)) n = bit v n"
      unfolding unzigzag_def o z
      by (cases "n = 63") (auto simp: bit_not_iff bit_drop_bit_eq z simp del: bit_0)
  qed
qed

lemma pb_decode_svarint_ok:
  assumes "istream_ok st" "pending st = pb_varint_buffer (zigzag v) @ rest"
  shows "pb_decode_svarint st = (Some v, is_advance (length (pb_varint_buffer (zigzag v))) st)"
  using pb_decode_varint_ok [OF assms] by (simp add: pb_decode_svarint_def unzigzag_zigzag)

text \<open>The numbers behind the zig-zag code: \<open>0, -1, 1, -2, \<dots>\<close> are \<open>0, 1, 2, 3, \<dots>\<close>.\<close>

lemma zigzag_value:
  "uint (zigzag v) = (if sint v < 0 then - 2 * sint v - 1 else 2 * sint v)"
proof -
  have r: "- (2 ^ 63) \<le> sint v" "sint v < 2 ^ 63" for v :: "64 word"
    using sint_ge [of v] sint_lt [of v] by simp_all
  have p: "push_bit 1 v = word_of_int (2 * sint v)"
    by (simp add: mult.commute)
  then have n: "NOT (push_bit 1 v) = word_of_int (- 2 * sint v - 1)"
    by (simp add: not_eq_complement)
  show ?thesis
  proof (cases "sint v < 0")
    case True
    then have "(- 2 * sint v - 1) mod 2 ^ 64 = - 2 * sint v - 1"
      using r(1) [of v] by (intro mod_pos_pos_trivial) simp_all
    then have "uint (word_of_int (- 2 * sint v - 1) :: 64 word) = - 2 * sint v - 1"
      by (subst uint_word_of_int) simp
    then show ?thesis using True by (simp only: zigzag_def n if_True)
  next
    case False
    then have "(2 * sint v) mod 2 ^ 64 = 2 * sint v"
      using r(2) [of v] by (intro mod_pos_pos_trivial) simp_all
    then have "uint (word_of_int (2 * sint v) :: 64 word) = 2 * sint v"
      by (subst uint_word_of_int) simp
    then show ?thesis using False by (simp only: zigzag_def p if_False)
  qed
qed

section \<open>The 32-bit decoder on canonical encodings\<close>

lemma group_ucast32 [simp]:
  "ucast (ucast ((v :: 64 word) AND 0x7F) :: byte) = (ucast (v AND 0x7F) :: 32 word)"
  by (rule bit_word_eqI) (unfold group_bits, auto)

lemma or_push_bit_group32:
  "(r OR push_bit k (ucast (v AND 0x7F))) OR push_bit (k + 7) (ucast (drop_bit 7 v)) =
     (r OR push_bit k (ucast (v :: 64 word)) :: 32 word)"
  (is "?l = ?r")
proof (rule bit_word_eqI)
  fix n assume "n < LENGTH(32)"
  moreover have "k + 7 \<le> n \<Longrightarrow> 7 + (n - (k + 7)) = n - k" by simp
  ultimately show "bit ?l n = bit ?r n"
    by (cases "k + 7 \<le> n")
      (unfold bit_or_iff bit_push_bit_iff bit_drop_bit_eq comp_def bit_and_iff bit_7F_word
        bit_ucast_iff, auto)
qed

text \<open>One turn of the loop on a group that is not the last, and on the last group.\<close>

lemma decode_varint32_group:
  assumes "istream_ok st" "pending st = pb_varint_buffer v @ rest" "\<not> v \<le> 0x7F" "k < 32"
  shows "decode_varint32_loop st k r =
    decode_varint32_loop (is_advance 1 st) (k + 7) (r OR push_bit k (ucast (v AND 0x7F)))"
  using assms
  by (simp add: decode_varint32_loop.simps [of st] pb_readbyte_ok pb_varint_buffer_rec [of v]
      and_0x80_eq_0_iff del: push_bit_and)

lemma last_group_ucast32:
  "v \<le> 0x7F \<Longrightarrow> ucast ((ucast v :: byte) AND 0x7F) = (ucast (v :: 64 word) :: 32 word)"
proof -
  have "ucast ((ucast v :: byte) AND 0x7F) = (ucast (v AND 0x7F) :: 32 word)"
    by (rule bit_word_eqI) (unfold group_bits, auto)
  then show "v \<le> 0x7F \<Longrightarrow> ?thesis" by (simp add: small_and_7F)
qed

lemma small_ucast32:
  "v \<le> 0x7F \<Longrightarrow> ucast (ucast v :: byte) = (ucast (v :: 64 word) :: 32 word)"
proof -
  assume v: "v \<le> 0x7F"
  have "ucast (ucast (v AND 0x7F) :: byte) = (ucast (v AND 0x7F) :: 32 word)"
    by (rule bit_word_eqI) (unfold group_bits, auto)
  with v show ?thesis by (simp only: small_and_7F)
qed

lemma decode_varint32_loop_ok:
  assumes "istream_ok st" "pending st = pb_varint_buffer v @ rest" "k \<in> {0, 7, 14, 21, 28}"
    "unat v * 2 ^ k < 2 ^ 32"
  shows "decode_varint32_loop st k r =
    (Some (r OR push_bit k (ucast v)), is_advance (length (pb_varint_buffer v)) st)"
  using assms
proof (induction v arbitrary: st k r rule: measure_induct_rule [where f = unat])
  case (less v)
  have k: "k < 32" using less.prems(3) by auto
  show ?case
  proof (cases "v \<le> 0x7F")
    case True
    have "(ucast v :: byte) AND 0x70 = 0" if "k = 28"
    proof -
      have "unat v < 2 ^ 4" using less.prems(4) that by simp
      then have "bit v n \<Longrightarrow> n < 4" for n by (rule unat_less_bit)
      moreover have "bit (0x70 :: byte) n \<Longrightarrow> 4 \<le> n" for n
        using bit_push_bit_iff [of 4 "7 :: byte" n] by simp
      ultimately show ?thesis
        by (intro bit_word_eqI) (metis bit_and_iff bit_ucast_iff bit_0_eq bot_apply bot_bool_def not_less)
    qed
    then show ?thesis using less.prems True k
      by (simp add: decode_varint32_loop.simps [of st] pb_readbyte_ok pb_varint_buffer_rec [of v]
          and_0x80_eq_0_iff small_ucast_bit7 last_group_ucast32 del: push_bit_and)
  next
    case False
    let ?v = "drop_bit 7 v"
    have nz: "v \<noteq> 0" "?v \<noteq> 0" using False by (auto simp: le_7F_iff)
    have dec: "unat ?v < unat v" using nz(1) by (intro drop_bit_less) auto
    have "unat ?v * 2 ^ (k + 7) = (unat v div 128 * 128) * 2 ^ k"
      by (simp add: unat_drop_7 power_add)
    also have "\<dots> \<le> unat v * 2 ^ k" by (intro mult_right_mono) auto
    finally have fit: "unat ?v * 2 ^ (k + 7) < 2 ^ 32" using less.prems(4) by simp
    have "2 ^ (k + 7) \<le> unat ?v * 2 ^ (k + 7)" using nz(2) by (simp add: Suc_leI unat_gt_0)
    then have "(2 :: nat) ^ (k + 7) < 2 ^ 32" using fit by (rule le_less_trans)
    then have "k + 7 < 32" by (rule power_less_imp_less_exp [rotated]) simp
    then have k7: "k + 7 \<in> {0, 7, 14, 21, 28}" using less.prems(3) by auto
    show ?thesis
      using less.IH [OF dec _ _ k7 fit, of "is_advance 1 st" "r OR push_bit k (ucast (v AND 0x7F))"]
        less.prems False decode_varint32_group [OF less.prems(1,2) False k]
      by (simp add: pb_varint_buffer_rec [of v] or_push_bit_group32 del: push_bit_and)
  qed
qed

lemma pb_decode_varint32_eof_ok:
  assumes st: "istream_ok st" "pending st = pb_varint_buffer v @ rest" and v: "unat v < 2 ^ 32"
  shows "pb_decode_varint32_eof st e =
    (Some (ucast v), e, is_advance (length (pb_varint_buffer v)) st)"
proof (cases "v \<le> 0x7F")
  case True
  then show ?thesis using st
    by (simp add: pb_decode_varint32_eof_def pb_readbyte_ok pb_varint_buffer_rec [of v]
        and_0x80_eq_0_iff small_ucast_bit7 small_ucast32)
next
  case False
  have "decode_varint32_loop st 0 0 =
      decode_varint32_loop (is_advance 1 st) 7 (ucast (v AND 0x7F))"
    using decode_varint32_group [OF st False, of 0 0] by simp
  then show ?thesis using st False v decode_varint32_loop_ok [OF st, of 0 0]
    by (simp add: pb_decode_varint32_eof_def pb_readbyte_ok pb_varint_buffer_rec [of v]
        and_0x80_eq_0_iff)
qed

lemma pb_decode_varint32_ok:
  assumes "istream_ok st" "pending st = pb_varint_buffer v @ rest" "unat v < 2 ^ 32"
  shows "pb_decode_varint32 st = (Some (ucast v), is_advance (length (pb_varint_buffer v)) st)"
  using pb_decode_varint32_eof_ok [OF assms] by (simp add: pb_decode_varint32_def)

text \<open>
  A negative 32-bit integer is encoded as its sign extension, in ten bytes: the decoder
  checks the bytes behind the fifth against the sign.
\<close>


lemma varint_tail29:
  "pb_varint_buffer 0x1FFFFFFF = [0xFF, 0xFF, 0xFF, 0xFF, 0x01]"
  by code_simp

lemma decode_varint32_tail:
  assumes "istream_ok st" "pending st = pb_varint_buffer 0x1FFFFFFF @ rest" "bit r 31"
  shows "decode_varint32_loop st 35 r = (Some r, is_advance 5 st)"
proof -
  have "drop_bit 31 r \<noteq> 0"
    using assms(3) by (auto simp: bit_iff_odd_drop_bit)
  moreover have five: "Suc (Suc (Suc (Suc (Suc 0)))) = 5" by simp
  ultimately show ?thesis using assms(1,2)
    by (simp add: varint_tail29 decode_varint32_loop.simps pb_readbyte_ok Let_def numeral_2_eq_2 numeral_3_eq_3 five)
qed

lemma scast_neg_bits:
  assumes "bit (s :: 32 word) 31"
  shows "bit (scast s :: 64 word) n \<longleftrightarrow> n < 64 \<and> (if n < 32 then bit s n else True)"
proof -
  have "min 31 n = (if n < 32 then n else 31)" by simp
  then show ?thesis using assms by (simp add: bit_signed_iff) 
qed

lemma drop_35_scast_neg:
  assumes "bit (s :: 32 word) 31"
  shows "drop_bit 35 (scast s :: 64 word) = 0x1FFFFFFF"
proof (rule bit_word_eqI)
  fix n assume "n < LENGTH(64)"
  have "bit (0x1FFFFFFF :: 64 word) n \<longleftrightarrow> n < 29"
    using bit_mask_iff [where 'a = "64 word", of 29 n] by (auto simp: mask_eq_exp_minus_1)
  then show "bit (drop_bit 35 (scast s :: 64 word)) n = bit (0x1FFFFFFF :: 64 word) n"
    using assms by (auto simp: bit_drop_bit_eq scast_neg_bits)
qed

lemma scast_neg_large:
  assumes "bit (s :: 32 word) 31" "j \<le> 28"
  shows "\<not> drop_bit j (scast s :: 64 word) \<le> 0x7F"
proof -
  have "bit (drop_bit 7 (drop_bit j (scast s :: 64 word))) (56 - j)"
    using assms by (simp add: bit_drop_bit_eq scast_neg_bits)
  then show ?thesis unfolding le_7F_iff by (metis bit_0_eq bot_apply bot_bool_def)
qed

lemma ucast_scast: "(ucast (scast (s :: 32 word) :: 64 word) :: 32 word) = s"
proof (rule bit_word_eqI)
  fix n assume "n < LENGTH(32)"
  then have "min 31 n = n" by simp
  then show "bit (ucast (scast s :: 64 word) :: 32 word) n = bit s n" using \<open>n < LENGTH(32)\<close>
    by (simp add: bit_ucast_iff bit_signed_iff)
qed

lemma decode_varint32_groups:
  assumes "istream_ok st" "pending st = pb_varint_buffer (drop_bit (7 * j) v) @ rest" 
    "\<forall>i\<le>28. \<not> drop_bit i v \<le> 0x7F" "n + j \<le> 5"
  shows "decode_varint32_loop st (7 * j) r =
    decode_varint32_loop (is_advance n st) (7 * (j + n))
       (r OR push_bit (7 * j) (ucast (take_bit (7 * n) (drop_bit (7 * j) v))))"
  using assms
proof (induction n arbitrary: st j r)
  case (Suc n)
  let ?v = "drop_bit (7 * j) v"
  have big: "\<not> ?v \<le> 0x7F" using Suc.prems(3,4) by simp
  have d: "drop_bit 7 ?v = drop_bit (7 * Suc j) v" by (simp add: add.commute)
  have t: "(r OR push_bit (7 * j) (ucast (?v AND 0x7F))) OR
      push_bit (7 * Suc j) (ucast (take_bit (7 * n) (drop_bit (7 * Suc j) v)))
      = r OR push_bit (7 * j) (ucast (take_bit (7 * Suc n) ?v))" (is "?l = ?r")
  proof (rule bit_word_eqI)
    fix i assume "i < LENGTH(32)"
    moreover have "7 + 7 * j \<le> i \<Longrightarrow> 7 + (7 * j + (i - (7 + 7 * j))) = i" by simp
    ultimately show "bit ?l i = bit ?r i"
      by (cases "7 + 7 * j \<le> i")
        (unfold bit_or_iff bit_push_bit_iff bit_drop_bit_eq comp_def bit_and_iff bit_7F_word
          bit_ucast_iff bit_take_bit_iff, auto)
  qed
  show ?case
    using decode_varint32_group [OF Suc.prems(1,2) big, of "7 * j" r] Suc.prems
      Suc.IH [of "is_advance 1 st" "Suc j" "r OR push_bit (7 * j) (ucast (?v AND 0x7F))"]
    by (simp add: pb_varint_buffer_rec [of ?v] d t [simplified] big add.commute del: push_bit_and)
qed simp
lemma pb_decode_varint32_eof_multi:
  assumes "istream_ok st" "pending st = pb_varint_buffer v @ rest" "\<not> v \<le> 0x7F"
  shows "pb_decode_varint32_eof st e =
    (case decode_varint32_loop st 0 0 of (r, st') \<Rightarrow> (r, e, st'))"
  using decode_varint32_group [OF assms, of 0 0] assms
  by (simp add: pb_decode_varint32_eof_def pb_readbyte_ok pb_varint_buffer_rec [of v]
      and_0x80_eq_0_iff)

lemma pb_varint_buffer_drop:
  "\<forall>i\<le>28. \<not> drop_bit i v \<le> 0x7F \<Longrightarrow> n \<le> 5 \<Longrightarrow>
     drop n (pb_varint_buffer v) = pb_varint_buffer (drop_bit (7 * n) v)"
proof (induction n)
  case (Suc n)
  then have "\<not> drop_bit (7 * n) v \<le> 0x7F" by simp
  then have "drop 1 (pb_varint_buffer (drop_bit (7 * n) v)) = pb_varint_buffer (drop_bit (7 * Suc n) v)"
    by (simp add: pb_varint_buffer_rec [of "drop_bit (7 * n) v"] add.commute)
  then show ?case using Suc drop_drop [of 1 n "pb_varint_buffer v"] by simp
qed simp

lemma drop_neg_varint:
  assumes "bit (s :: 32 word) 31"
  shows "drop 5 (pb_varint_buffer (scast s)) = pb_varint_buffer 0x1FFFFFFF"
  using pb_varint_buffer_drop [of "scast s" 5] drop_35_scast_neg [OF assms] scast_neg_large [OF assms]
  by simp

lemma length_neg_varint: "bit (s :: 32 word) 31 \<Longrightarrow> length (pb_varint_buffer (scast s)) = 10"
  using length_drop [of 5 "pb_varint_buffer (scast s)"]
  by (simp only: drop_neg_varint varint_tail29) simp

lemma pb_decode_varint32_eof_neg:
  assumes st: "istream_ok st" "pending st = pb_varint_buffer (scast s) @ rest"
    and neg: "bit (s :: 32 word) 31"
  shows "pb_decode_varint32_eof st e = (Some s, e, is_advance 10 st)"
proof -
  let ?v = "scast s :: 64 word"
  have big: "\<forall>i\<le>28. \<not> drop_bit i ?v \<le> 0x7F" using neg by (simp add: scast_neg_large)
  then have v: "\<not> ?v \<le> 0x7F" by (metis drop_bit_0 id_apply le0)
  have low: "ucast (take_bit 35 ?v) = s"
    using ucast_scast [of s] by (auto intro!: bit_word_eqI simp: bit_ucast_iff bit_take_bit_iff scast_neg_bits [OF neg])
  then have "pending (is_advance 5 st) = pb_varint_buffer 0x1FFFFFFF @ rest"
    using st length_neg_varint [OF neg] drop_neg_varint [OF neg] by simp
  then have "decode_varint32_loop (is_advance 5 st) 35 s = (Some s, is_advance 10 st)"
    using decode_varint32_tail [of "is_advance 5 st" rest s] st(1) neg by simp
  then show ?thesis
    using pb_decode_varint32_eof_multi [OF st v] st big low
      decode_varint32_groups [of st 0 ?v rest 5 0] by simp
qed

lemma pb_encode_varint_ok:
  "ostream_ok st \<Longrightarrow> length (pb_varint_buffer v) \<le> os_room st \<Longrightarrow>
     pb_encode_varint st v = (True, os_append (pb_varint_buffer v) st)"
  by (simp add: pb_encode_varint_def pb_write_fits)

section \<open>The 64-bit decoder on arbitrary bytes\<close>

text \<open>
  \<open>varint_groups\<close> is the number the low seven bits of each byte spell, \<open>varint_tail\<close>
  counts the bytes before the first one with a clear top bit.
\<close>

fun varint_groups :: "byte list \<Rightarrow> nat" where
  "varint_groups [] = 0"
| "varint_groups (b # bs) = unat b mod 128 + 128 * varint_groups bs"

definition varint_more :: "byte list \<Rightarrow> nat" where
  "varint_more bs = length (takeWhile (\<lambda>b. b AND 0x80 \<noteq> 0) bs)"

lemma varint_groups_word:
  "word_of_nat (varint_groups (b # bs)) =
     (ucast (b AND 0x7F) OR push_bit 7 (word_of_nat (varint_groups bs)) :: 'a :: len word)"
proof -
  let ?g = "word_of_nat (varint_groups bs) :: 'a word"
  have "unat b mod 128 = unat (b AND mask 7)" by (simp only: unat_and_mask) simp
  then have "word_of_nat (unat b mod 128) = (ucast (b AND 0x7F) :: 'a word)"
    by (simp add: mask_eq_exp_minus_1)
  moreover have "ucast (b AND 0x7F) + push_bit 7 ?g = ucast (b AND 0x7F) OR push_bit 7 ?g"
    by (rule disjunctive_add) (unfold group_bits bit_push_bit_iff, auto)
  ultimately show ?thesis by (simp add: push_bit_eq_mult mult.commute)
qed

lemma decode_varint_loop_spec:
  assumes "istream_ok st" "j \<le> 10"
  shows "decode_varint_loop st (7 * j) r =
    (let n = varint_more (pending st) in
     if 10 \<le> j + n then (None, is_set_error ''varint overflow'' (is_advance (10 - j) st))
     else if length (pending st) \<le> n
     then (None, is_set_error ''end-of-stream'' (is_advance n st))
     else (Some (r OR push_bit (7 * j) (word_of_nat (varint_groups (take (Suc n) (pending st))))),
           is_advance (Suc n) st))"
  using assms
proof (induction "10 - j" arbitrary: st j r)
  case 0
  then show ?case by (simp add: decode_varint_loop.simps)
next
  case (Suc d)
  then have j: "j \<le> 9" "d = 10 - Suc j" by auto
  show ?case
  proof (cases "pending st")
    case Nil
    then show ?thesis using Suc.prems j
      by (simp add: decode_varint_loop.simps [of st] pb_readbyte_ok varint_more_def)
  next
    case (Cons b bs)
    show ?thesis
    proof (cases "b AND 0x80 = 0")
      case True
      then show ?thesis using Suc.prems j Cons varint_groups_word [where 'a = 64, of b "[]"]
        by (simp add: decode_varint_loop.simps [of st] pb_readbyte_ok varint_more_def
            del: push_bit_and varint_groups.simps(2))
    next
      case False
      have g: "(r OR push_bit (7 * j) (ucast (b AND 0x7F))) OR
          push_bit (7 + 7 * j) (word_of_nat (varint_groups cs)) =
          r OR push_bit (7 * j) (word_of_nat (varint_groups (b # cs)))" for cs
        unfolding varint_groups_word
        by (simp add: push_bit_or add.commute or.assoc del: push_bit_and)
      have "decode_varint_loop st (7 * j) r =
          decode_varint_loop (is_advance 1 st) (7 * Suc j) (r OR push_bit (7 * j) (ucast (b AND 0x7F)))"
        using Suc.prems j Cons False
        by (simp add: decode_varint_loop.simps [of st] pb_readbyte_ok add.commute del: push_bit_and)
      moreover have "Suc (9 - j) = 10 - j" using j by simp
      moreover have "istream_ok (is_advance 1 st)" "Suc j \<le> 10" using Suc.prems j by simp_all
      note Suc.hyps(1) [OF j(2) this, of "r OR push_bit (7 * j) (ucast (b AND 0x7F))"]
      ultimately show ?thesis
        using j Cons False by (simp add: varint_more_def Let_def g del: varint_groups.simps)
    qed
  qed
qed

section \<open>The 32-bit decoder on bytes no encoder writes\<close>

lemma decode_varint32_skip:
  assumes "istream_ok st" "pending st = b # rest" "b AND 0x80 \<noteq> 0" "k < 32 \<or> b AND 0x7F = 0"
  shows "decode_varint32_loop st k r = decode_varint32_loop (is_advance 1 st) ((k + 7) mod 256)
    (if k < 32 then r OR push_bit k (ucast (b AND 0x7F)) else r)"
  using assms by (auto simp: decode_varint32_loop.simps [of st] pb_readbyte_ok Let_def)

text \<open>The groups that fit below the 35th bit are all taken, whatever they hold.\<close>

lemma decode_varint32_five:
  assumes "istream_ok st" "pending st = bs @ rest" "\<forall>b\<in>set bs. b AND 0x80 \<noteq> 0" "j + length bs \<le> 5"
  shows "decode_varint32_loop st (7 * j) r = decode_varint32_loop (is_advance (length bs) st) (7 * (j + length bs))
    (r OR push_bit (7 * j) (word_of_nat (varint_groups bs)))"
  using assms
proof (induction bs arbitrary: st j r)
  case (Cons b bs)
  have g: "(r OR push_bit (7 * j) (ucast (b AND 0x7F))) OR push_bit (7 + 7 * j) (word_of_nat (varint_groups bs)) =
      r OR push_bit (7 * j) (word_of_nat (varint_groups (b # bs)))"
    unfolding varint_groups_word by (simp add: push_bit_or add.commute or.assoc del: push_bit_and)
  have "decode_varint32_loop st (7 * j) r =
      decode_varint32_loop (is_advance 1 st) (7 * Suc j) (r OR push_bit (7 * j) (ucast (b AND 0x7F)))"
    using Cons.prems decode_varint32_skip [of st b "bs @ rest" "7 * j" r] by (simp add: add.commute del: push_bit_and)
  also have "\<dots> = decode_varint32_loop (is_advance (length bs) (is_advance 1 st)) (7 * (Suc j + length bs))
      ((r OR push_bit (7 * j) (ucast (b AND 0x7F))) OR push_bit (7 * Suc j) (word_of_nat (varint_groups bs)))"
    using Cons.prems by (intro Cons.IH) simp_all
  finally show ?case by (simp add: g add.commute del: varint_groups.simps push_bit_and)
qed simp

text \<open>Bytes that carry nothing move only the bit position, and that wraps.\<close>

lemma decode_varint32_idle:
  assumes "istream_ok st" "pending st = replicate n 0x80 @ rest" "k < 256"
  shows "decode_varint32_loop st k r = decode_varint32_loop (is_advance n st) ((k + 7 * n) mod 256) r"
  using assms
proof (induction n arbitrary: st k)
  case (Suc n)
  have "decode_varint32_loop st k r = decode_varint32_loop (is_advance 1 st) ((k + 7) mod 256) r"
    using Suc.prems decode_varint32_skip [of st "0x80" "replicate n 0x80 @ rest" k r] by simp
  also have "\<dots> = decode_varint32_loop (is_advance n (is_advance 1 st)) (((k + 7) mod 256 + 7 * n) mod 256) r"
    using Suc.prems by (intro Suc.IH) simp_all
  also have "((k + 7) mod 256 + 7 * n) mod 256 = (k + 7 * Suc n) mod 256"
    unfolding mod_add_left_eq by (simp add: algebra_simps)
  finally show ?case by simp
qed simp

lemma pb_decode_varint32_loop:
  assumes "istream_ok st" "pending st = b # rest" "b AND 0x80 \<noteq> 0"
  shows "pb_decode_varint32 st = decode_varint32_loop st 0 0"
  using assms decode_varint32_skip [OF assms, of 0 0]
  by (auto simp: pb_decode_varint32_def pb_decode_varint32_eof_def pb_readbyte_ok Let_def split: prod.splits)

lemma varint_groups_append: "varint_groups (bs @ cs) = varint_groups bs + 128 ^ length bs * varint_groups cs"
  by (induction bs) (simp_all add: algebra_simps)

lemma varint_groups_snoc0: "varint_groups (bs @ [0]) = varint_groups bs"
  by (simp add: varint_groups_append)

lemma varint_groups_less: "varint_groups bs < 128 ^ length bs"
proof (induction bs)
  case (Cons b bs)
  have "unat b mod 128 < 128" by simp
  with Cons show ?case by simp
qed simp

lemma decode_varint32_overlong:
  assumes "istream_ok st" "pending st = bs @ 0 # rest" "length bs = 5" "\<forall>b\<in>set bs. b AND 0x80 \<noteq> 0"
  shows "pb_decode_varint32 st = (Some (word_of_nat (varint_groups bs)), is_advance 6 st)"
proof -
  obtain b cs where bs: "bs = b # cs" using assms(3) by (cases bs) auto
  have "pb_decode_varint32 st = decode_varint32_loop st (7 * 0) 0"
    using pb_decode_varint32_loop [OF assms(1), of b "cs @ 0 # rest"] assms(2,4) bs by simp
  also have "\<dots> = decode_varint32_loop (is_advance 5 st) 35 (word_of_nat (varint_groups bs))"
    using decode_varint32_five [OF assms(1,2), of 0 0] assms(3,4) by simp
  also have "\<dots> = (Some (word_of_nat (varint_groups bs)), is_advance 6 st)"
    using assms by (simp add: decode_varint32_loop.simps [of "is_advance 5 st"] pb_readbyte_ok)
  finally show ?thesis .
qed

lemma byte_top_clear:
  assumes "(b :: byte) AND 0x80 = 0"
  shows "b AND 0x7F = b" and "unat b < 128"
proof -
  have n: "\<not> bit b 7" using assms by (simp add: and_0x80_eq_0_iff)
  show "b AND 0x7F = b"
  proof (rule bit_word_eqI)
    fix i assume "i < LENGTH(8)"
    then show "bit (b AND 0x7F) i = bit b i"
      unfolding bit_and_iff bit_7F_byte using n by (cases "i = 7") auto
  qed
  then have "b AND mask 7 = b" by (simp add: mask_eq_exp_minus_1)
  moreover have "unat (b AND mask 7) < 128" by (simp only: unat_and_mask) simp
  ultimately show "unat b < 128" by simp
qed

lemma byte_eq_iff: "(v :: byte) = w \<longleftrightarrow> (\<forall>n<8. bit v n = bit w n)"
  by (auto intro: bit_word_eqI)

lemma and_0x70_eq_0:
  assumes "(b :: byte) AND 0x80 = 0"
  shows "b AND 0x70 = 0 \<longleftrightarrow> unat b < 16"
proof -
  have m: "bit (0x70 :: byte) n \<longleftrightarrow> 4 \<le> n \<and> n < 7" for n
    using bit_push_bit_iff [of 4 "7 :: byte" n] bit_mask_iff [where 'a = byte, of 3 "n - 4"]
    by (auto simp: mask_eq_exp_minus_1)
  have s: "bit b n \<Longrightarrow> n < 7" for n
    using assms bit_imp_le_length [of b n] by (cases "n = 7") (auto simp: and_0x80_eq_0_iff)
  have "take_bit 4 b = b \<longleftrightarrow> (\<forall>n<8. bit b n \<longrightarrow> n < 4)"
    unfolding byte_eq_iff bit_take_bit_iff by auto
  also have "\<dots> \<longleftrightarrow> (\<forall>n<8. \<not> (bit b n \<and> 4 \<le> n \<and> n < 7))"
    using s by (meson not_less)
  also have "\<dots> \<longleftrightarrow> b AND 0x70 = 0"
    unfolding byte_eq_iff bit_and_iff m by simp
  finally have "b AND 0x70 = 0 \<longleftrightarrow> take_bit 4 b = b" by simp
  also have "\<dots> \<longleftrightarrow> unat (take_bit 4 b) = unat b" by (rule word_unat_eq_iff)
  also have "\<dots> \<longleftrightarrow> unat b < 16" unfolding unsigned_take_bit_eq using take_bit_nat_eq_self_iff [of 4 "unat b"] by simp
  finally show ?thesis .
qed

lemma decode_varint32_fifth:
  assumes "istream_ok st" "pending st = bs @ b # rest" "length bs = 4" "\<forall>b\<in>set bs. b AND 0x80 \<noteq> 0" "b AND 0x80 = 0"
  shows "fst (pb_decode_varint32 st) = None \<longleftrightarrow> 2 ^ 32 \<le> varint_groups (bs @ [b])"
proof -
  obtain c cs where bs: "bs = c # cs" using assms(3) by (cases bs) auto
  have "pb_decode_varint32 st = decode_varint32_loop st (7 * 0) 0"
    using pb_decode_varint32_loop [OF assms(1), of c "cs @ b # rest"] assms(2,4) bs by simp
  also have "\<dots> = decode_varint32_loop (is_advance 4 st) 28 (word_of_nat (varint_groups bs))"
    using decode_varint32_five [OF assms(1,2), of 0 0] assms(3,4) by simp
  finally have "fst (pb_decode_varint32 st) = None \<longleftrightarrow> b AND 0x70 \<noteq> 0"
    using assms by (simp add: decode_varint32_loop.simps [of "is_advance 4 st"] pb_readbyte_ok Let_def)
  also have "\<dots> \<longleftrightarrow> 16 \<le> unat b" using and_0x70_eq_0 [OF assms(5)] by auto
  also have "\<dots> \<longleftrightarrow> 2 ^ 32 \<le> varint_groups bs + 2 ^ 28 * unat b"
    using varint_groups_less [of bs] assms(3) by (simp, arith)
  also have "varint_groups bs + 2 ^ 28 * unat b = varint_groups (bs @ [b])"
  proof -
    have "unat b < 128" using assms(5) by (rule byte_top_clear)
    then show ?thesis using assms(3) by (simp add: varint_groups_append)
  qed
  finally show ?thesis .
qed

lemma decode_varint32_wraps:
  assumes "istream_ok st" "pending st = replicate n 0x80 @ b # rest" "10 \<le> n" "7 * n mod 256 < 28" "b AND 0x80 = 0"
  shows "pb_decode_varint32 st = (Some (push_bit (7 * n mod 256) (ucast b)), is_advance (Suc n) st)"
proof -
  obtain m where m: "n = Suc m" using assms(3) by (cases n) auto
  have "pb_decode_varint32 st = decode_varint32_loop st 0 0"
    using pb_decode_varint32_loop [OF assms(1), of "0x80" "replicate m 0x80 @ b # rest"] assms(2) m by simp
  also have "\<dots> = decode_varint32_loop (is_advance n st) (7 * n mod 256) 0"
    using decode_varint32_idle [OF assms(1,2), of 0 0] by simp
  also have "\<dots> = (Some (push_bit (7 * n mod 256) (ucast (b AND 0x7F))), is_advance (Suc n) st)"
    using assms by (simp add: decode_varint32_loop.simps [of "is_advance n st"] pb_readbyte_ok Let_def del: push_bit_and)
  also have "b AND 0x7F = b" using assms(5) by (rule byte_top_clear)
  finally show ?thesis .
qed

end
