(* ===== verification/Pb_Wire.thy ===== *)
theory Pb_Wire
  imports Pb_Varint
begin

text \<open>
  The field values of the protobuf wire format: fixed-width integers, tags, raw strings,
  skipping, substreams, and the encoder and decoder of each scalar field type
  (\<open>pb_enc_*\<close> of \<open>pb_encode.c\<close>, \<open>pb_dec_*\<close> of \<open>pb_decode.c\<close>).

  A field's data is the list of its bytes in memory, little-endian as on the target.
\<close>

section \<open>Descriptors\<close>

text \<open>
  The members of \<open>pb_field_t\<close> that the functions of this theory read. \<open>pb_type_t\<close>
  is a byte; \<open>pb_size_t\<close> is 32 bits wide (\<open>PB_FIELD_32BIT\<close>).
\<close>

record pb_field =
  tag :: "32 word"
  ftype :: "8 word"
  data_size :: nat
  array_size :: nat

definition PB_LTYPE :: "8 word \<Rightarrow> 8 word" where "PB_LTYPE x = x AND 0x0F"
definition PB_HTYPE :: "8 word \<Rightarrow> 8 word" where "PB_HTYPE x = x AND 0x30"
definition PB_ATYPE :: "8 word \<Rightarrow> 8 word" where "PB_ATYPE x = x AND 0xC0"

abbreviation "PB_LTYPE_VARINT \<equiv> 0x00 :: 8 word"
abbreviation "PB_LTYPE_UVARINT \<equiv> 0x01 :: 8 word"
abbreviation "PB_LTYPE_SVARINT \<equiv> 0x02 :: 8 word"
abbreviation "PB_LTYPE_FIXED32 \<equiv> 0x03 :: 8 word"
abbreviation "PB_LTYPE_FIXED64 \<equiv> 0x04 :: 8 word"
abbreviation "PB_LTYPE_LAST_PACKABLE \<equiv> 0x04 :: 8 word"
abbreviation "PB_LTYPE_BYTES \<equiv> 0x05 :: 8 word"
abbreviation "PB_LTYPE_STRING \<equiv> 0x06 :: 8 word"
abbreviation "PB_LTYPE_SUBMESSAGE \<equiv> 0x07 :: 8 word"
abbreviation "PB_LTYPE_FIXED_LENGTH_BYTES \<equiv> 0x09 :: 8 word"

abbreviation "PB_ATYPE_STATIC \<equiv> 0x00 :: 8 word"
abbreviation "PB_ATYPE_POINTER \<equiv> 0x80 :: 8 word"

abbreviation "PB_WT_VARINT \<equiv> 0 :: 32 word"
abbreviation "PB_WT_64BIT \<equiv> 1 :: 32 word"
abbreviation "PB_WT_STRING \<equiv> 2 :: 32 word"
abbreviation "PB_WT_32BIT \<equiv> 5 :: 32 word"

section \<open>Encoders of values\<close>

definition pb_encode_fixed32 :: "'s pb_ostream \<Rightarrow> 32 word \<Rightarrow> bool \<times> 's pb_ostream" where
  "pb_encode_fixed32 st val =
     pb_write st [ucast (val AND 0xFF), ucast (drop_bit 8 val AND 0xFF),
                  ucast (drop_bit 16 val AND 0xFF), ucast (drop_bit 24 val AND 0xFF)]"

definition pb_encode_fixed64 :: "'s pb_ostream \<Rightarrow> 64 word \<Rightarrow> bool \<times> 's pb_ostream" where
  "pb_encode_fixed64 st val =
     pb_write st [ucast (val AND 0xFF), ucast (drop_bit 8 val AND 0xFF),
                  ucast (drop_bit 16 val AND 0xFF), ucast (drop_bit 24 val AND 0xFF),
                  ucast (drop_bit 32 val AND 0xFF), ucast (drop_bit 40 val AND 0xFF),
                  ucast (drop_bit 48 val AND 0xFF), ucast (drop_bit 56 val AND 0xFF)]"

definition pb_encode_tag ::
  "'s pb_ostream \<Rightarrow> 32 word \<Rightarrow> 32 word \<Rightarrow> bool \<times> 's pb_ostream" where
  "pb_encode_tag st wiretype field_number =
     pb_encode_varint st (push_bit 3 (ucast field_number) OR ucast wiretype)"

definition pb_encode_tag_for_field ::
  "'s pb_ostream \<Rightarrow> pb_field \<Rightarrow> bool \<times> 's pb_ostream" where
  "pb_encode_tag_for_field st field =
     (let t = PB_LTYPE (ftype field) in
      if t = PB_LTYPE_VARINT \<or> t = PB_LTYPE_UVARINT \<or> t = PB_LTYPE_SVARINT
      then pb_encode_tag st PB_WT_VARINT (tag field)
      else if t = PB_LTYPE_FIXED32 then pb_encode_tag st PB_WT_32BIT (tag field)
      else if t = PB_LTYPE_FIXED64 then pb_encode_tag st PB_WT_64BIT (tag field)
      else if t = PB_LTYPE_BYTES \<or> t = PB_LTYPE_STRING \<or> t = PB_LTYPE_SUBMESSAGE \<or>
              t = PB_LTYPE_FIXED_LENGTH_BYTES
      then pb_encode_tag st PB_WT_STRING (tag field)
      else (False, os_set_error ''invalid field type'' st))"

definition pb_encode_string :: "'s pb_ostream \<Rightarrow> byte list \<Rightarrow> bool \<times> 's pb_ostream" where
  "pb_encode_string st buffer =
     (case pb_encode_varint st (word_of_nat (length buffer)) of
        (False, st') \<Rightarrow> (False, st')
      | (True, st') \<Rightarrow> pb_write st' buffer)"

section \<open>Decoders of values\<close>

definition pb_decode_fixed32 :: "'s pb_istream \<Rightarrow> 32 word option \<times> 's pb_istream" where
  "pb_decode_fixed32 st =
     (case pb_read st 4 of
        (None, st') \<Rightarrow> (None, st')
      | (Some b, st') \<Rightarrow>
          (Some (push_bit 0 (ucast (b ! 0)) OR push_bit 8 (ucast (b ! 1)) OR
                 push_bit 16 (ucast (b ! 2)) OR push_bit 24 (ucast (b ! 3))), st'))"

definition pb_decode_fixed64 :: "'s pb_istream \<Rightarrow> 64 word option \<times> 's pb_istream" where
  "pb_decode_fixed64 st =
     (case pb_read st 8 of
        (None, st') \<Rightarrow> (None, st')
      | (Some b, st') \<Rightarrow>
          (Some (push_bit 0 (ucast (b ! 0)) OR push_bit 8 (ucast (b ! 1)) OR
                 push_bit 16 (ucast (b ! 2)) OR push_bit 24 (ucast (b ! 3)) OR
                 push_bit 32 (ucast (b ! 4)) OR push_bit 40 (ucast (b ! 5)) OR
                 push_bit 48 (ucast (b ! 6)) OR push_bit 56 (ucast (b ! 7))), st'))"

text \<open>Success, \<open>*wire_type\<close>, \<open>*tag\<close>, \<open>*eof\<close>, and the stream.\<close>

definition pb_decode_tag ::
  "'s pb_istream \<Rightarrow> bool \<times> 32 word \<times> 32 word \<times> bool \<times> 's pb_istream" where
  "pb_decode_tag st =
     (case pb_decode_varint32_eof st False of
        (None, eof, st') \<Rightarrow> (False, 0, 0, eof, st')
      | (Some temp, eof, st') \<Rightarrow>
          if temp = 0 then (False, 0, 0, True, st')
          else (True, temp AND 7, drop_bit 3 temp, eof, st'))"

definition pb_skip_string :: "'s pb_istream \<Rightarrow> bool \<times> 's pb_istream" where
  "pb_skip_string st =
     (case pb_decode_varint32 st of
        (None, st') \<Rightarrow> (False, st')
      | (Some len, st') \<Rightarrow> pb_read_null st' (unat len))"

definition pb_skip_field :: "'s pb_istream \<Rightarrow> 32 word \<Rightarrow> bool \<times> 's pb_istream" where
  "pb_skip_field st wire_type =
     (if wire_type = PB_WT_VARINT then pb_skip_varint st
      else if wire_type = PB_WT_64BIT then pb_read_null st 8
      else if wire_type = PB_WT_STRING then pb_skip_string st
      else if wire_type = PB_WT_32BIT then pb_read_null st 4
      else (False, is_set_error ''invalid wire_type'' st))"

text \<open>
  \<open>read_raw_value\<close>: success, the bytes stored through \<open>buf\<close>, the new \<open>*size\<close>,
  the stream. The loop body runs once for each byte of a varint.
\<close>

function raw_varint_loop ::
  "'s pb_istream \<Rightarrow> nat \<Rightarrow> nat \<Rightarrow> byte list \<Rightarrow>
     bool \<times> byte list \<times> nat \<times> 's pb_istream" where
  "raw_varint_loop st max_len len buf =
     (if Suc len > max_len then (False, buf, Suc len, st)
      else case pb_read st 1 of
        (None, st') \<Rightarrow> (False, buf, Suc len, st')
      | (Some bs, st') \<Rightarrow>
          if bs ! 0 AND 0x80 \<noteq> 0
          then raw_varint_loop st' max_len (Suc len) (buf @ [bs ! 0])
          else (True, buf @ [bs ! 0], Suc len, st'))"
  by pat_completeness auto
termination
  by (relation "measure (\<lambda>(st, _, _, _). bytes_left st)") (auto dest: pb_read1_decreases [OF sym])

declare raw_varint_loop.simps [simp del]

definition read_raw_value ::
  "'s pb_istream \<Rightarrow> 32 word \<Rightarrow> nat \<Rightarrow> bool \<times> byte list \<times> nat \<times> 's pb_istream" where
  "read_raw_value st wire_type len =
     (let fixed = (\<lambda>n. case pb_read st n of
                      (None, st') \<Rightarrow> (False, [], n, st')
                    | (Some bs, st') \<Rightarrow> (True, bs, n, st'))
      in if wire_type = PB_WT_VARINT then raw_varint_loop st len 0 []
         else if wire_type = PB_WT_64BIT then fixed 8
         else if wire_type = PB_WT_32BIT then fixed 4
         else (False, [], len, is_set_error ''invalid wire_type'' st))"

text \<open>The substream, if one is made, and the parent.\<close>

definition pb_make_string_substream ::
  "'s pb_istream \<Rightarrow> 's pb_istream option \<times> 's pb_istream" where
  "pb_make_string_substream st =
     (case pb_decode_varint32 st of
        (None, st') \<Rightarrow> (None, st')
      | (Some len, st') \<Rightarrow>
          if bytes_left st' < unat len
          then (None, is_set_error ''parent stream too short'' st')
          else (Some (st'\<lparr>bytes_left := unat len\<rparr>),
                st'\<lparr>bytes_left := bytes_left st' - unat len\<rparr>))"

definition pb_close_string_substream ::
  "'s pb_istream \<Rightarrow> 's pb_istream \<Rightarrow> bool \<times> 's pb_istream" where
  "pb_close_string_substream st sub =
     (case (if bytes_left sub \<noteq> 0 then pb_read_null sub (bytes_left sub) else (True, sub)) of
        (False, _) \<Rightarrow> (False, st)
      | (True, sub') \<Rightarrow> (True, st\<lparr>source := source sub', is_errmsg := is_errmsg sub'\<rparr>))"

text \<open>\<open>pb_skip_varint\<close> stops behind the first byte with a clear top bit.\<close>

lemma pb_skip_varint_ok:
  assumes "istream_ok st"
  shows "pb_skip_varint st =
    (if varint_more (pending st) < length (pending st)
     then (True, is_advance (Suc (varint_more (pending st))) st)
     else (False, is_set_error ''end-of-stream'' (is_advance (length (pending st)) st)))"
  using assms
proof (induction "length (pending st)" arbitrary: st)
  case 0
  then show ?case by (simp add: pb_skip_varint.simps [of st] pb_read_ok)
next
  case (Suc n)
  then obtain b bs where p: "pending st = b # bs" by (metis length_Suc_conv)
  then have "n = length (pending (is_advance 1 st))" using Suc.hyps(2) Suc.prems 
    by (simp only: pending_is_advance) simp
  note IH = Suc.hyps(1) [OF this is_advance_ok [OF Suc.prems]]
  from p Suc.prems Suc.hyps(2) IH show ?case
    by (simp add: pb_skip_varint.simps [of st] pb_read_ok varint_more_def bytes_left_is_advance flip: length_pending)
qed

lemma varint_more_buffer:
  "varint_more (pb_varint_buffer v @ rest) = length (pb_varint_buffer v) - 1"
proof (induction v rule: measure_induct_rule [where f = unat])
  case (less v)
  show ?case
  proof (cases "v \<le> 0x7F")
    case True
    then show ?thesis
      by (simp add: pb_varint_buffer_rec [of v] varint_more_def and_0x80_eq_0_iff small_ucast_bit7)
  next
    case False
    then have "v \<noteq> 0" by (auto simp: le_7F_iff)
    then have "varint_more (pb_varint_buffer (drop_bit 7 v) @ rest) =
        length (pb_varint_buffer (drop_bit 7 v)) - 1"
      by (intro less drop_bit_less) auto
    then show ?thesis using False pb_varint_buffer_bounds(1) [of "drop_bit 7 v"]
      by (simp add: pb_varint_buffer_rec [of v] varint_more_def and_0x80_eq_0_iff)
  qed
qed

section \<open>Fixed-width integers\<close>

lemma byte_ucast_and_FF: "(ucast (w AND 0xFF) :: byte) = ucast (w :: 'a::len word)"
proof (rule bit_word_eqI)
  fix n assume n: "n < LENGTH(8)"
  have "bit (0xFF :: 'a word) n \<longleftrightarrow> n < LENGTH('a) \<and> n < 8" for n
    using bit_mask_iff [where 'a = "'a word", of 8 n] by (auto simp: mask_eq_exp_minus_1)
  then show "bit (ucast (w AND 0xFF) :: byte) n = bit (ucast w :: byte) n"
    using n by (auto simp: bit_ucast_iff bit_and_iff dest: bit_imp_le_length)
qed

lemma pb_encode_fixed32_le: "pb_encode_fixed32 st v = pb_write st (le_store 4 v)"
  by (simp add: pb_encode_fixed32_def byte_ucast_and_FF le_store_def numeral_eq_Suc upt_rec)

lemma pb_encode_fixed64_le: "pb_encode_fixed64 st v = pb_write st (le_store 8 v)"
  unfolding pb_encode_fixed64_def byte_ucast_and_FF le_store_def
  by (simp add: upt_conv_Cons)

lemma list_of_4:
  assumes "length xs = 4"
  obtains a b c d where "xs = [a, b, c, d]"
  using assms by (auto simp: numeral_eq_Suc length_Suc_conv)

lemma list_of_8:
  assumes "length xs = 8"
  obtains a b c d e f g h where "xs = [a, b, c, d, e, f, g, h]"
  using assms by (auto simp: numeral_eq_Suc length_Suc_conv)

lemma pb_decode_fixed32_le:
  assumes "istream_ok st" "4 \<le> length (pending st)"
  shows "pb_decode_fixed32 st = (Some (le_load (take 4 (pending st))), is_advance 4 st)"
proof -
  have "length (take 4 (pending st)) = 4" using assms by simp
  then obtain a b c d where "take 4 (pending st) = [a, b, c, d]" by (rule list_of_4)
  then show ?thesis using assms
    by (simp add: pb_decode_fixed32_def pb_read_ok le_load_def push_bit_or or.assoc)
qed

lemma pb_decode_fixed64_le:
  assumes "istream_ok st" "8 \<le> length (pending st)"
  shows "pb_decode_fixed64 st = (Some (le_load (take 8 (pending st))), is_advance 8 st)"
proof -
  have "length (take 8 (pending st)) = 8" using assms by simp
  then obtain a b c d e f g h where "take 8 (pending st) = [a, b, c, d, e, f, g, h]"
    by (rule list_of_8)
  then show ?thesis using assms
    by (simp add: pb_decode_fixed64_def pb_read_ok le_load_def push_bit_or or.assoc)
qed

section \<open>Tags\<close>

definition tag_word :: "32 word \<Rightarrow> 32 word \<Rightarrow> 64 word" where
  "tag_word wiretype field_number = push_bit 3 (ucast field_number) OR ucast wiretype"

lemma pb_encode_tag_ok:
  "ostream_ok st \<Longrightarrow> length (pb_varint_buffer (tag_word wt n)) \<le> os_room st \<Longrightarrow>
     pb_encode_tag st wt n = (True, os_append (pb_varint_buffer (tag_word wt n)) st)"
  by (simp add: pb_encode_tag_def tag_word_def pb_encode_varint_ok)

lemma bit_7_32: "bit (7 :: 32 word) n \<longleftrightarrow> n < 3"
  using bit_mask_iff [where 'a = "32 word", of 3 n] by (auto simp: mask_eq_exp_minus_1)

lemma pb_decode_tag_ok:
  assumes "istream_ok st" "pending st = pb_varint_buffer (tag_word wt n) @ rest"
    "unat wt < 8" "0 < unat n" "unat n < 2 ^ 29"
  shows "pb_decode_tag st =
    (True, wt, n, False, is_advance (length (pb_varint_buffer (tag_word wt n))) st)"
proof -
  let ?t = "tag_word wt n" and ?u = "push_bit 3 n OR wt"
  have wt: "bit wt i \<Longrightarrow> i < 3" and n: "bit n i \<Longrightarrow> i < 29" for i
    using unat_less_bit [of wt 3 i] unat_less_bit [of n 29 i] assms by simp_all
  have u: "ucast ?t = ?u"
    by (rule bit_word_eqI)
      (auto simp: tag_word_def bit_ucast_iff bit_or_iff bit_push_bit_iff simp del: push_bit_or)
  have "?t = ucast ?u"
    by (rule bit_word_eqI)
      (auto simp: tag_word_def bit_ucast_iff bit_or_iff bit_push_bit_iff dest: n wt)
  then have "unat ?t \<le> unat ?u" by (simp add: unsigned_ucast_eq take_bit_nat_less_eq_self)
  then have t: "unat ?t < 2 ^ 32" using unsigned_less [of ?u, where 'a = nat] by simp
  have "?u AND 7 = wt"
    by (rule bit_word_eqI) (unfold bit_and_iff bit_or_iff bit_push_bit_iff bit_7_32, auto dest: wt)
  moreover have d: "drop_bit 3 ?u = n"
    by (rule bit_word_eqI) (auto simp: bit_drop_bit_eq bit_or_iff bit_push_bit_iff dest: wt n)
  moreover have "?u \<noteq> 0" using d assms(4) by (metis drop_bit_of_0 unat_0 less_irrefl)
  ultimately show ?thesis
    using pb_decode_varint32_eof_ok [OF assms(1,2) t] by (simp add: pb_decode_tag_def u)
qed

section \<open>Raw strings\<close>

definition string_bytes :: "byte list \<Rightarrow> byte list" where
  "string_bytes s = pb_varint_buffer (word_of_nat (length s)) @ s"

lemma pb_encode_string_ok:
  assumes "ostream_ok st" "length (string_bytes s) \<le> os_room st"
  shows "pb_encode_string st s = (True, os_append (string_bytes s) st)"
  using assms os_append_append [of st "pb_varint_buffer (word_of_nat (length s))" s]
  by (simp add: pb_encode_string_def pb_encode_varint_ok pb_write_fits string_bytes_def)

lemma pb_decode_length:
  assumes "istream_ok st" "pending st = string_bytes s @ rest" "length s < 2 ^ 32"
  shows "pb_decode_varint32 st =
    (Some (word_of_nat (length s)), is_advance (length (string_bytes s) - length s) st)"
proof -
  have "unat (word_of_nat (length s) :: 64 word) = length s"
    using assms(3) by (simp add: unat_of_nat)
  moreover from this have "(ucast (word_of_nat (length s) :: 64 word) :: 32 word) = word_of_nat (length s)"
    by (metis of_nat_unat)
  ultimately show ?thesis
    using pb_decode_varint32_ok [of st "word_of_nat (length s)" "s @ rest"] assms
    by (simp add: string_bytes_def)
qed

lemma pb_skip_string_ok:
  assumes "istream_ok st" "pending st = string_bytes s @ rest" "length s < 2 ^ 32"
  shows "pb_skip_string st = (True, is_advance (length (string_bytes s)) st)"
  using assms pb_decode_length [OF assms]
  by (simp add: pb_skip_string_def pb_read_null_ok unat_of_nat32 string_bytes_def)

lemma pb_make_string_substream_ok:
  assumes "istream_ok st" "pending st = string_bytes s @ rest" "length s < 2 ^ 32"
  shows "\<exists>sub st'. pb_make_string_substream st = (Some sub, st') \<and> istream_ok sub \<and>
    pending sub = s \<and> pb_close_string_substream st' (is_advance (length s) sub) =
      (True, is_advance (length (string_bytes s)) st)"
proof -
  let ?k = "length (string_bytes s) - length s"
  from assms(1) obtain m where m: "source st = Buf_read m" "bytes_left st \<le> length m"
    by (rule istream_okE)
  have k: "?k = length (pb_varint_buffer (word_of_nat (length s)))" by (simp add: string_bytes_def)
  have len: "length (string_bytes s) \<le> bytes_left st"
    using arg_cong [OF assms(2), of length] assms(1) by simp
  have "take (length s) (drop ?k (pending st)) = s" using assms(2) by (simp add: k string_bytes_def)
  then have s: "take (length s) (drop ?k m) = s"
    using m len le_diff_conv2 [of ?k "bytes_left st" "length s"]
    by (simp add: pending_def drop_take min_def string_bytes_def add.commute)
  have "pb_make_string_substream st =
     (Some (is_advance ?k st\<lparr>bytes_left := length s\<rparr>),
      is_advance ?k st\<lparr>bytes_left := bytes_left st - length (string_bytes s)\<rparr>)"
    using len by (simp add: pb_make_string_substream_def pb_decode_length [OF assms] unat_of_nat32 [OF assms(3)]
        string_bytes_def)
  moreover have "istream_ok (is_advance ?k st\<lparr>bytes_left := length s\<rparr>)"
    using m len by (simp add: istream_ok_def is_buffer_def is_advance_def string_bytes_def)
  moreover have "pending (is_advance ?k st\<lparr>bytes_left := length s\<rparr>) = s"
    using m s by (simp add: pending_def is_advance_def)
  moreover have "pb_close_string_substream
      (is_advance ?k st\<lparr>bytes_left := bytes_left st - length (string_bytes s)\<rparr>)
      (is_advance (length s) (is_advance ?k st\<lparr>bytes_left := length s\<rparr>)) =
      (True, is_advance (length (string_bytes s)) st)"
    by (simp add: pb_close_string_substream_def is_advance_def string_bytes_def add.commute)
  ultimately show ?thesis by blast
qed

section \<open>Skipping a value\<close>

text \<open>The encodings of a value of each wire type.\<close>

inductive wire_value :: "32 word \<Rightarrow> byte list \<Rightarrow> bool" where
  wv_varint: "wire_value 0 (pb_varint_buffer v)"
| wv_64bit: "length bs = 8 \<Longrightarrow> wire_value 1 bs"
| wv_string: "length s < 2 ^ 32 \<Longrightarrow> wire_value 2 (string_bytes s)"
| wv_32bit: "length bs = 4 \<Longrightarrow> wire_value 5 bs"

lemma pb_skip_field_ok:
  assumes "wire_value wt bs" "istream_ok st" "pending st = bs @ rest"
  shows "pb_skip_field st wt = (True, is_advance (length bs) st)"
  using assms(1)
proof cases
  case (wv_varint v)
  then show ?thesis
    using assms varint_more_buffer [of v rest]
    by (cases "pb_varint_buffer v") (use pb_varint_buffer_bounds(1) [of v] in
      \<open>auto simp: pb_skip_field_def pb_skip_varint_ok\<close>)
qed (use assms in \<open>auto simp: pb_skip_field_def pb_read_null_ok pb_skip_string_ok\<close>)

end
