(* ===== verification/Pb_Fields.thy ===== *)
theory Pb_Fields
  imports Pb_Wire
begin

text \<open>
  The field encoders \<open>pb_enc_*\<close> and \<open>encode_array\<close> of \<open>pb_encode.c\<close>, and the
  field decoders \<open>pb_dec_*\<close> of \<open>pb_decode.c\<close>, for every field type but
  submessages and extensions. \<open>src\<close> is the memory a non-null source pointer points to.
\<close>

section \<open>Integer fields\<close>

text \<open>
  \<open>pb_enc_varint\<close> reads a signed integer of \<open>data_size\<close> bytes and sign-extends it,
  \<open>pb_enc_uvarint\<close> reads an unsigned one.
\<close>

definition load_signed :: "nat \<Rightarrow> byte list \<Rightarrow> 64 word option" where
  "load_signed n src =
     (if n = 1 then Some (scast (le_load (take 1 src) :: 8 word))
      else if n = 2 then Some (scast (le_load (take 2 src) :: 16 word))
      else if n = 4 then Some (scast (le_load (take 4 src) :: 32 word))
      else if n = 8 then Some (le_load (take 8 src))
      else None)"

definition load_unsigned :: "nat \<Rightarrow> byte list \<Rightarrow> 64 word option" where
  "load_unsigned n src =
     (if n = 1 then Some (ucast (le_load (take 1 src) :: 8 word))
      else if n = 2 then Some (ucast (le_load (take 2 src) :: 16 word))
      else if n = 4 then Some (ucast (le_load (take 4 src) :: 32 word))
      else if n = 8 then Some (le_load (take 8 src))
      else None)"

definition pb_enc_varint ::
  "'s pb_ostream \<Rightarrow> pb_field \<Rightarrow> byte list \<Rightarrow> bool \<times> 's pb_ostream" where
  "pb_enc_varint st field src =
     (case load_signed (data_size field) src of
        None \<Rightarrow> (False, os_set_error ''invalid data_size'' st)
      | Some v \<Rightarrow> pb_encode_varint st v)"

definition pb_enc_uvarint ::
  "'s pb_ostream \<Rightarrow> pb_field \<Rightarrow> byte list \<Rightarrow> bool \<times> 's pb_ostream" where
  "pb_enc_uvarint st field src =
     (case load_unsigned (data_size field) src of
        None \<Rightarrow> (False, os_set_error ''invalid data_size'' st)
      | Some v \<Rightarrow> pb_encode_varint st v)"

definition pb_enc_svarint ::
  "'s pb_ostream \<Rightarrow> pb_field \<Rightarrow> byte list \<Rightarrow> bool \<times> 's pb_ostream" where
  "pb_enc_svarint st field src =
     (case load_signed (data_size field) src of
        None \<Rightarrow> (False, os_set_error ''invalid data_size'' st)
      | Some v \<Rightarrow> pb_encode_svarint st v)"

definition pb_enc_fixed32 ::
  "'s pb_ostream \<Rightarrow> pb_field \<Rightarrow> byte list \<Rightarrow> bool \<times> 's pb_ostream" where
  "pb_enc_fixed32 st field src = pb_encode_fixed32 st (le_load (take 4 src))"

definition pb_enc_fixed64 ::
  "'s pb_ostream \<Rightarrow> pb_field \<Rightarrow> byte list \<Rightarrow> bool \<times> 's pb_ostream" where
  "pb_enc_fixed64 st field src = pb_encode_fixed64 st (le_load (take 8 src))"

text \<open>
  The decoders give success, the bytes stored at \<open>dest\<close> (\<open>None\<close>: nothing was
  stored), and the stream. A value that does not fit is stored truncated before the
  error is raised, as in the code. \<open>store_checked\<close> is the code's assignment through
  a pointer to an integer of \<open>n\<close> bytes followed by its comparison with the original.
\<close>

type_synonym 's dec_result = "bool \<times> byte list option \<times> 's pb_istream"

definition store_checked ::
  "'s pb_istream \<Rightarrow> nat \<Rightarrow> (64 word \<Rightarrow> 64 word) \<Rightarrow> 64 word \<Rightarrow> 's dec_result" where
  "store_checked st n cast v =
     (let clamped = cast v in
      if clamped \<noteq> v
      then (False, Some (le_store n v), is_set_error ''integer too large'' st)
      else (True, Some (le_store n v), st))"

definition pb_dec_varint :: "'s pb_istream \<Rightarrow> pb_field \<Rightarrow> 's dec_result" where
  "pb_dec_varint st field =
     (case pb_decode_varint st of
        (None, st') \<Rightarrow> (False, None, st')
      | (Some v, st') \<Rightarrow>
          (let sv = (if data_size field = 8 then v else scast (ucast v :: 32 word)) in
           if data_size field = 8 then store_checked st' 8 (\<lambda>x. x) sv
           else if data_size field = 4 then store_checked st' 4 (\<lambda>x. scast (ucast x :: 32 word)) sv
           else if data_size field = 2 then store_checked st' 2 (\<lambda>x. scast (ucast x :: 16 word)) sv
           else if data_size field = 1 then store_checked st' 1 (\<lambda>x. scast (ucast x :: 8 word)) sv
           else (False, None, is_set_error ''invalid data_size'' st')))"

definition pb_dec_uvarint :: "'s pb_istream \<Rightarrow> pb_field \<Rightarrow> 's dec_result" where
  "pb_dec_uvarint st field =
     (case pb_decode_varint st of
        (None, st') \<Rightarrow> (False, None, st')
      | (Some v, st') \<Rightarrow>
          if data_size field = 8 then store_checked st' 8 (\<lambda>x. x) v
          else if data_size field = 4 then store_checked st' 4 (\<lambda>x. ucast (ucast x :: 32 word)) v
          else if data_size field = 2 then store_checked st' 2 (\<lambda>x. ucast (ucast x :: 16 word)) v
          else if data_size field = 1 then store_checked st' 1 (\<lambda>x. ucast (ucast x :: 8 word)) v
          else (False, None, is_set_error ''invalid data_size'' st'))"

definition pb_dec_svarint :: "'s pb_istream \<Rightarrow> pb_field \<Rightarrow> 's dec_result" where
  "pb_dec_svarint st field =
     (case pb_decode_svarint st of
        (None, st') \<Rightarrow> (False, None, st')
      | (Some v, st') \<Rightarrow>
          if data_size field = 8 then store_checked st' 8 (\<lambda>x. x) v
          else if data_size field = 4 then store_checked st' 4 (\<lambda>x. scast (ucast x :: 32 word)) v
          else if data_size field = 2 then store_checked st' 2 (\<lambda>x. scast (ucast x :: 16 word)) v
          else if data_size field = 1 then store_checked st' 1 (\<lambda>x. scast (ucast x :: 8 word)) v
          else (False, None, is_set_error ''invalid data_size'' st'))"

definition pb_dec_fixed32 :: "'s pb_istream \<Rightarrow> pb_field \<Rightarrow> 's dec_result" where
  "pb_dec_fixed32 st field =
     (case pb_decode_fixed32 st of
        (None, st') \<Rightarrow> (False, None, st')
      | (Some v, st') \<Rightarrow> (True, Some (le_store 4 v), st'))"

definition pb_dec_fixed64 :: "'s pb_istream \<Rightarrow> pb_field \<Rightarrow> 's dec_result" where
  "pb_dec_fixed64 st field =
     (case pb_decode_fixed64 st of
        (None, st') \<Rightarrow> (False, None, st')
      | (Some v, st') \<Rightarrow> (True, Some (le_store 8 v), st'))"

section \<open>Bytes and strings\<close>

text \<open>
  \<open>src = None\<close> is the null pointer. A \<open>pb_bytes_array_t\<close> is its 32-bit size and
  then its bytes; \<open>PB_BYTES_ARRAY_T_ALLOCSIZE\<close> adds the offset 4 of the latter.
\<close>

definition PB_BYTES_ARRAY_T_ALLOCSIZE :: "nat \<Rightarrow> nat" where
  "PB_BYTES_ARRAY_T_ALLOCSIZE n = size_wrap (n + 4)"

definition pb_enc_bytes ::
  "'s pb_ostream \<Rightarrow> pb_field \<Rightarrow> byte list option \<Rightarrow> bool \<times> 's pb_ostream" where
  "pb_enc_bytes st field src =
     (case src of
        None \<Rightarrow> pb_encode_string st []
      | Some m \<Rightarrow>
          (let len = unat (le_load (take 4 m) :: 32 word) in
           if PB_ATYPE (ftype field) = PB_ATYPE_STATIC \<and>
              PB_BYTES_ARRAY_T_ALLOCSIZE len > data_size field
           then (False, os_set_error ''bytes size exceeded'' st)
           else pb_encode_string st (take len (drop 4 m))))"

text \<open>The \<open>strnlen\<close> loop; the memory past its end is not read.\<close>

fun str_scan :: "nat \<Rightarrow> byte list \<Rightarrow> nat" where
  "str_scan 0 p = 0"
| "str_scan (Suc n) [] = 0"
| "str_scan (Suc n) (c # p) = (if c = 0 then 0 else Suc (str_scan n p))"

definition pb_enc_string ::
  "'s pb_ostream \<Rightarrow> pb_field \<Rightarrow> byte list option \<Rightarrow> bool \<times> 's pb_ostream" where
  "pb_enc_string st field src =
     (let max_len = (if PB_ATYPE (ftype field) = PB_ATYPE_POINTER then SIZE_MAX
                     else data_size field)
      in case src of
           None \<Rightarrow> pb_encode_string st []
         | Some m \<Rightarrow> pb_encode_string st (take (str_scan (min max_len (length m)) m) m))"

definition pb_enc_fixed_length_bytes ::
  "'s pb_ostream \<Rightarrow> pb_field \<Rightarrow> byte list \<Rightarrow> bool \<times> 's pb_ostream" where
  "pb_enc_fixed_length_bytes st field src = pb_encode_string st (take (data_size field) src)"

text \<open>
  The destination of a bytes or string field: the field's own memory, or the pointer
  stored in it with the block it points to.
\<close>

datatype pb_dest = Inline "byte list" | Pointer "byte list option"

text \<open>After the decoder: the field's memory, the pointer as it was, or a new block for it.\<close>

datatype pb_stored = Stored "byte list" | Kept "byte list option" | Block "byte list"

text \<open>
  \<open>allocate_field\<close>: \<open>realloc\<close> keeps the old contents and leaves the rest of the
  new block as the allocator finds it.
\<close>

definition realloc_block :: "heap_env \<Rightarrow> byte list option \<Rightarrow> nat \<Rightarrow> byte list" where
  "realloc_block env old n =
     (let m = (case old of None \<Rightarrow> [] | Some m \<Rightarrow> take n m)
      in m @ map (junk env) [length m..<n])"

definition allocate_field ::
  "heap_env \<Rightarrow> 's pb_istream \<Rightarrow> byte list option \<Rightarrow> nat \<Rightarrow> nat \<Rightarrow>
     bool \<times> byte list option \<times> 's pb_istream" where
  "allocate_field env st ptr dsize asize =
     (if dsize = 0 \<or> asize = 0 then (False, ptr, is_set_error ''invalid size'' st)
      else let check_limit = 2 ^ 32 in
      if (dsize \<ge> check_limit \<or> asize \<ge> check_limit) \<and> SIZE_MAX div asize < dsize
      then (False, ptr, is_set_error ''size too large'' st)
      else let asz = size_wrap (asize * dsize) in
      if \<not> malloc_ok env asz then (False, ptr, is_set_error ''realloc failed'' st)
      else (True, Some (realloc_block env ptr asz), st))"

definition unstored :: "pb_dest \<Rightarrow> pb_stored" where
  "unstored dest = (case dest of Inline m \<Rightarrow> Stored m | Pointer p \<Rightarrow> Kept p)"

text \<open>
  The destination after the decoder, in place of the stored bytes. The test \<open>size > PB_SIZE_MAX\<close>
  never holds of a 32-bit size where \<open>pb_size_t\<close> has 32 bits, and has no branch here. When a read fails the
  memory it was to fill is left as it was.
\<close>

definition pb_dec_bytes ::
  "heap_env \<Rightarrow> 's pb_istream \<Rightarrow> pb_field \<Rightarrow> pb_dest \<Rightarrow> bool \<times> pb_stored \<times> 's pb_istream" where
  "pb_dec_bytes env st field dest =
     (case pb_decode_varint32 st of
        (None, st1) \<Rightarrow> (False, unstored dest, st1)
      | (Some len, st1) \<Rightarrow>
          (let alloc_size = PB_BYTES_ARRAY_T_ALLOCSIZE (unat len);
               fill = (\<lambda>m. let m1 = mem_write m 0 (le_store 4 len) in
                        case pb_read st1 (unat len) of
                          (None, st2) \<Rightarrow> (False, m1, st2)
                        | (Some bs, st2) \<Rightarrow> (True, mem_write m1 4 bs, st2))
           in if unat len > alloc_size then (False, unstored dest, is_set_error ''size too large'' st1)
              else case dest of
                Pointer p \<Rightarrow>
                  (case allocate_field env st1 p alloc_size 1 of
                     (True, Some m, _) \<Rightarrow>
                       (case fill m of (ok, m', st2) \<Rightarrow> (ok, Block m', st2))
                   | (_, p', st2) \<Rightarrow> (False, Kept p', st2))
              | Inline m \<Rightarrow>
                  if alloc_size > data_size field
                  then (False, unstored dest, is_set_error ''bytes overflow'' st1)
                  else (case fill m of (ok, m', st2) \<Rightarrow> (ok, Stored m', st2))))"

text \<open>\<open>size + 1\<close> is computed in 32 bits.\<close>

definition pb_dec_string ::
  "heap_env \<Rightarrow> 's pb_istream \<Rightarrow> pb_field \<Rightarrow> pb_dest \<Rightarrow> bool \<times> pb_stored \<times> 's pb_istream" where
  "pb_dec_string env st field dest =
     (case pb_decode_varint32 st of
        (None, st1) \<Rightarrow> (False, unstored dest, st1)
      | (Some len, st1) \<Rightarrow>
          (let alloc_size = unat (len + 1);
               fill = (\<lambda>m. case pb_read st1 (unat len) of
                          (None, st2) \<Rightarrow> (False, mem_write m (unat len) [0], st2)
                        | (Some bs, st2) \<Rightarrow>
                            (True, mem_write (mem_write m 0 bs) (unat len) [0], st2))
           in if alloc_size < unat len then (False, unstored dest, is_set_error ''size too large'' st1)
              else case dest of
                Pointer p \<Rightarrow>
                  (case allocate_field env st1 p alloc_size 1 of
                     (True, Some m, _) \<Rightarrow>
                       (case fill m of (ok, m', st2) \<Rightarrow> (ok, Block m', st2))
                   | (_, p', st2) \<Rightarrow> (False, Kept p', st2))
              | Inline m \<Rightarrow>
                  if alloc_size > data_size field
                  then (False, unstored dest, is_set_error ''string overflow'' st1)
                  else (case fill m of (ok, m', st2) \<Rightarrow> (ok, Stored m', st2))))"

definition pb_dec_fixed_length_bytes :: "'s pb_istream \<Rightarrow> pb_field \<Rightarrow> 's dec_result" where
  "pb_dec_fixed_length_bytes st field =
     (case pb_decode_varint32 st of
        (None, st1) \<Rightarrow> (False, None, st1)
      | (Some len, st1) \<Rightarrow>
          if len = 0 then (True, Some (replicate (data_size field) 0), st1)
          else if unat len \<noteq> data_size field
          then (False, None, is_set_error ''incorrect fixed length bytes size'' st1)
          else (case pb_read st1 (data_size field) of
                  (None, st2) \<Rightarrow> (False, None, st2)
                | (Some bs, st2) \<Rightarrow> (True, Some bs, st2)))"

section \<open>Arrays\<close>

text \<open>
  \<open>encode_array\<close>: the items are what \<open>func\<close> is given for each array entry, its memory
  or its address; for pointer-type string and bytes fields an entry is itself a pointer, which
  may be null, and \<open>Some\<close> otherwise. The items of a packed array are encoded twice, first
  into a sizing stream.
\<close>

type_synonym ('s, 'p) pb_item_encoder =
  "'s pb_ostream \<Rightarrow> pb_field \<Rightarrow> 'p \<Rightarrow> bool \<times> 's pb_ostream"

type_synonym 's pb_encoder = "('s, byte list option) pb_item_encoder"

fun encode_items ::
  "('s, 'p) pb_item_encoder \<Rightarrow> 's pb_ostream \<Rightarrow> pb_field \<Rightarrow> 'p list \<Rightarrow> bool \<times> 's pb_ostream"
where
  "encode_items func st field [] = (True, st)"
| "encode_items func st field (p # ps) =
     (case func st field p of
        (False, st') \<Rightarrow> (False, st')
      | (True, st') \<Rightarrow> encode_items func st' field ps)"

fun encode_tagged_items ::
  "('s, 'p) pb_item_encoder \<Rightarrow> 's pb_ostream \<Rightarrow> pb_field \<Rightarrow> 'p list \<Rightarrow> bool \<times> 's pb_ostream"
where
  "encode_tagged_items func st field [] = (True, st)"
| "encode_tagged_items func st field (p # ps) =
     (case pb_encode_tag_for_field st field of
        (False, st') \<Rightarrow> (False, st')
      | (True, st') \<Rightarrow>
          (case func st' field p of
             (False, st'') \<Rightarrow> (False, st'')
           | (True, st'') \<Rightarrow> encode_tagged_items func st'' field ps))"

definition packed_size :: "('s, 'p) pb_item_encoder \<Rightarrow> pb_field \<Rightarrow> 'p list \<Rightarrow> nat option" where
  "packed_size func field items =
     (if PB_LTYPE (ftype field) = PB_LTYPE_FIXED32 then Some (size_wrap (4 * length items))
      else if PB_LTYPE (ftype field) = PB_LTYPE_FIXED64 then Some (size_wrap (8 * length items))
      else case encode_items func PB_OSTREAM_SIZING field items of
        (False, _) \<Rightarrow> None
      | (True, sizestream) \<Rightarrow> Some (bytes_written sizestream))"

definition encode_array ::
  "'s pb_ostream \<Rightarrow> pb_field \<Rightarrow> 'p list \<Rightarrow> ('s, 'p) pb_item_encoder \<Rightarrow> bool \<times> 's pb_ostream"
where
  "encode_array st field items func =
     (if items = [] then (True, st)
      else if PB_ATYPE (ftype field) \<noteq> PB_ATYPE_POINTER \<and> length items > array_size field
      then (False, os_set_error ''array max size exceeded'' st)
      else if PB_LTYPE (ftype field) \<le> PB_LTYPE_LAST_PACKABLE
      then (case pb_encode_tag st PB_WT_STRING (tag field) of
              (False, st1) \<Rightarrow> (False, st1)
            | (True, st1) \<Rightarrow>
                (case packed_size func field items of
                   None \<Rightarrow> (False, st1)
                 | Some asz \<Rightarrow>
                     (case pb_encode_varint st1 (word_of_nat asz) of
                        (False, st2) \<Rightarrow> (False, st2)
                      | (True, st2) \<Rightarrow>
                          if is_Sizing (sink st2) then pb_write_null st2 asz
                          else encode_items func st2 field items)))
      else encode_tagged_items func st field items)"

text \<open>
  The packed branch of \<open>decode_static_field\<close> for a repeated field: \<open>*size\<close>
  counts the entries stored, and the items are what \<open>func\<close> stored in each.
\<close>

function decode_packed_loop ::
  "('s pb_istream \<Rightarrow> pb_field \<Rightarrow> 's dec_result) \<Rightarrow> 's pb_istream \<Rightarrow> pb_field \<Rightarrow> nat \<Rightarrow>
     byte list option list \<Rightarrow> bool \<times> nat \<times> byte list option list \<times> 's pb_istream" where
  "decode_packed_loop func sub field n items =
     (if bytes_left sub > 0 \<and> n < array_size field
      then case func sub field of
        (False, d, sub') \<Rightarrow> (False, n, items @ [d], sub')
      | (True, d, sub') \<Rightarrow> decode_packed_loop func sub' field (Suc n) (items @ [d])
      else (True, n, items, sub))"
  by pat_completeness auto
termination
  by (relation "measure (\<lambda>(_, _, field, n, _). array_size field - n)") auto

declare decode_packed_loop.simps [simp del]

definition decode_packed ::
  "('s pb_istream \<Rightarrow> pb_field \<Rightarrow> 's dec_result) \<Rightarrow> 's pb_istream \<Rightarrow> pb_field \<Rightarrow> nat \<Rightarrow>
     bool \<times> nat \<times> byte list option list \<times> 's pb_istream" where
  "decode_packed func st field n =
     (case pb_make_string_substream st of
        (None, st1) \<Rightarrow> (False, n, [], st1)
      | (Some sub, st1) \<Rightarrow>
          (case decode_packed_loop func sub field n [] of
             (status, n', items, sub') \<Rightarrow>
               if bytes_left sub' \<noteq> 0
               then (False, n', items, is_set_error ''array overflow'' st1)
               else (case pb_close_string_substream st1 sub' of
                       (False, st2) \<Rightarrow> (False, n', items, st2)
                     | (True, st2) \<Rightarrow> (status, n', items, st2))))"

end
