(* ===== verification/Pb_Codec.thy ===== *)
theory Pb_Codec
  imports Pb_Fields
begin

text \<open>
  What the field encoders and decoders of nanopb promise each other: the locale
  \<open>item_codec\<close> is the contract of one row of the tables \<open>PB_ENCODERS\<close> and
  \<open>PB_DECODERS\<close>, the packed array code is proved against it, and every packable row is
  an instance. Then byte strings and strings, and what holds of their decoders on any input.
\<close>

section \<open>Items in memory\<close>

lemma le_store_cong:
  assumes "\<And>k. k < 8 * n \<Longrightarrow> bit (a :: 'a::len word) k = bit (b :: 'b::len word) k"
  shows "le_store n a = le_store n b"
proof (rule nth_equalityI)
  fix i assume "i < length (le_store n a)"
  then have i: "i < n" by simp
  have "(ucast (drop_bit (8 * i) a) :: byte) = ucast (drop_bit (8 * i) b)"
    by (rule bit_word_eqI) (use assms i in \<open>auto simp: bit_ucast_iff bit_drop_bit_eq\<close>)
  then show "le_store n a ! i = le_store n b ! i" using i by (simp add: le_store_def)
qed simp

lemma scast_ucast_scast:
  assumes "LENGTH('a) \<le> LENGTH('b)" "LENGTH('b) \<le> LENGTH('c)"
  shows "(scast (ucast (scast (w :: 'a::len word) :: 'c::len word) :: 'b::len word) :: 'c word) = scast w"
proof (rule bit_word_eqI)
  fix n assume n: "n < LENGTH('c)"
  define k where "k = min (LENGTH('b) - Suc 0) n"
  have "min (LENGTH('a) - Suc 0) k = min (LENGTH('a) - Suc 0) n"
    using assms(1) by (auto simp: min_def k_def)
  moreover have "k < LENGTH('b)" "k < LENGTH('c)"
    using n len_gt_0 [where 'a = 'b] unfolding k_def by linarith+
  ultimately show "bit (scast (ucast (scast w :: 'c word) :: 'b word) :: 'c word) n = bit (scast w :: 'c word) n"
    using n unfolding bit_signed_iff bit_ucast_iff k_def [symmetric] by simp
qed

lemma ucast_ucast_ucast:
  assumes "LENGTH('a) \<le> LENGTH('b)" "LENGTH('b) \<le> LENGTH('c)"
  shows "(ucast (ucast (ucast (w :: 'a::len word) :: 'c::len word) :: 'b::len word) :: 'c word) = ucast w"
  by (rule bit_word_eqI) (use assms in \<open>auto simp: bit_ucast_iff dest: bit_imp_le_length\<close>)

lemma le_store_scast:
  assumes "length m = n" "8 * n = LENGTH('a)" "LENGTH('a) \<le> LENGTH('c)"
  shows "le_store n (scast (le_load m :: 'a::len word) :: 'c::len word) = m"
proof -
  have "min (LENGTH('a) - Suc 0) k = k" if "k < LENGTH('a)" for k using that by linarith
  then have "le_store n (scast (le_load m :: 'a word) :: 'c word) = le_store n (le_load m :: 'a word)"
    using assms(2,3) by (intro le_store_cong) (auto simp: bit_signed_iff)
  then show ?thesis using le_store_load [of m n, where 'a = 'a] assms by simp
qed

lemma le_store_ucast:
  assumes "length m = n" "8 * n = LENGTH('a)" "LENGTH('a) \<le> LENGTH('c)"
  shows "le_store n (ucast (le_load m :: 'a::len word) :: 'c::len word) = m"
proof -
  have "le_store n (ucast (le_load m :: 'a word) :: 'c word) = le_store n (le_load m :: 'a word)"
    using assms(2,3) by (intro le_store_cong) (auto simp: bit_ucast_iff)
  then show ?thesis using le_store_load [of m n, where 'a = 'a] assms by simp
qed

text \<open>An integer of one of the widths the code knows, in as many bytes.\<close>

definition int_item :: "pb_field \<Rightarrow> byte list \<Rightarrow> bool" where
  "int_item f m \<longleftrightarrow> length m = data_size f \<and> data_size f \<in> {1, 2, 4, 8}"

lemma int_itemE:
  assumes "int_item f m"
  obtains "data_size f = 1" "length m = 1" | "data_size f = 2" "length m = 2"
  | "data_size f = 4" "length m = 4" | "data_size f = 8" "length m = 8"
  using assms by (auto simp: int_item_def)

definition signed_value :: "pb_field \<Rightarrow> byte list \<Rightarrow> 64 word" where
  "signed_value f m = the (load_signed (data_size f) m)"

definition unsigned_value :: "pb_field \<Rightarrow> byte list \<Rightarrow> 64 word" where
  "unsigned_value f m = the (load_unsigned (data_size f) m)"

lemma load_signed_value: "int_item f m \<Longrightarrow> load_signed (data_size f) m = Some (signed_value f m)"
  by (auto simp: signed_value_def load_signed_def int_item_def)

lemma load_unsigned_value:
  "int_item f m \<Longrightarrow> load_unsigned (data_size f) m = Some (unsigned_value f m)"
  by (auto simp: unsigned_value_def load_unsigned_def int_item_def)

lemma pb_dec_varint_ok:
  assumes "int_item f m" "istream_ok st" "pending st = pb_varint_buffer (signed_value f m) @ rest"
  shows "pb_dec_varint st f = (True, Some m, is_advance (length (pb_varint_buffer (signed_value f m))) st)"
  using assms(1) pb_decode_varint_ok [OF assms(2,3)]
  by (cases rule: int_itemE)
    (simp_all add: pb_dec_varint_def store_checked_def signed_value_def load_signed_def
      scast_ucast_scast le_store_scast le_store_load)

lemma pb_dec_uvarint_ok:
  assumes "int_item f m" "istream_ok st" "pending st = pb_varint_buffer (unsigned_value f m) @ rest"
  shows "pb_dec_uvarint st f = (True, Some m, is_advance (length (pb_varint_buffer (unsigned_value f m))) st)"
  using assms(1) pb_decode_varint_ok [OF assms(2,3)]
  by (cases rule: int_itemE)
    (simp_all add: pb_dec_uvarint_def store_checked_def unsigned_value_def load_unsigned_def
      ucast_ucast_ucast le_store_ucast le_store_load)

lemma pb_dec_svarint_ok:
  assumes "int_item f m" "istream_ok st"
    "pending st = pb_varint_buffer (zigzag (signed_value f m)) @ rest"
  shows "pb_dec_svarint st f =
    (True, Some m, is_advance (length (pb_varint_buffer (zigzag (signed_value f m)))) st)"
  using assms(1) pb_decode_svarint_ok [OF assms(2,3)]
  by (cases rule: int_itemE)
    (simp_all add: pb_dec_svarint_def store_checked_def signed_value_def load_signed_def
      scast_ucast_scast le_store_scast le_store_load)

section \<open>The contract of an item's encoder and decoder\<close>

text \<open>
  \<open>encode_array\<close> and the packed branch of \<open>decode_static_field\<close> call the functions
  of the tables \<open>PB_ENCODERS\<close> and \<open>PB_DECODERS\<close>. What they rely on: an encoder
  writes the same bytes \<open>wire f m\<close> to every stream that has room for them and counts
  them on a sizing stream, and its decoder reads exactly these bytes back.
\<close>

definition sizing_ok :: "'s pb_ostream \<Rightarrow> nat \<Rightarrow> bool" where
  "sizing_ok st n \<longleftrightarrow> sink st = Sizing \<and> bytes_written st + n < 2 ^ 64"

definition os_count :: "nat \<Rightarrow> 's pb_ostream \<Rightarrow> 's pb_ostream" where
  "os_count n st = st\<lparr>bytes_written := bytes_written st + n\<rparr>"

lemma os_count_simps [simp]:
  "bytes_written (os_count n st) = bytes_written st + n" "sink (os_count n st) = sink st"
  "os_count n (os_count k st) = os_count (k + n) st" "os_count 0 st = st"
  by (simp_all add: os_count_def add.assoc)

lemma pb_write_count: "sizing_ok st (length bs) \<Longrightarrow> pb_write st bs = (True, os_count (length bs) st)"
  by (simp add: pb_write_sizing sizing_ok_def os_count_def)

locale item_codec =
  fixes enc :: "'s pb_ostream \<Rightarrow> pb_field \<Rightarrow> byte list option \<Rightarrow> bool \<times> 's pb_ostream"
    and dec :: "'s pb_istream \<Rightarrow> pb_field \<Rightarrow> 's dec_result"
    and ltype :: "8 word"
    and item_ok :: "pb_field \<Rightarrow> byte list \<Rightarrow> bool"
    and wire :: "pb_field \<Rightarrow> byte list \<Rightarrow> byte list"
  assumes enc_buffer: "item_ok f m \<Longrightarrow> ostream_ok ost \<Longrightarrow> length (wire f m) \<le> os_room ost \<Longrightarrow>
      enc ost f (Some m) = (True, os_append (wire f m) ost)"
    and enc_sizing: "item_ok f m \<Longrightarrow> sizing_ok ost (length (wire f m)) \<Longrightarrow>
      enc ost f (Some m) = (True, os_count (length (wire f m)) ost)"
    and dec_wire: "item_ok f m \<Longrightarrow> istream_ok st \<Longrightarrow> pending st = wire f m @ rest \<Longrightarrow>
      dec st f = (True, Some m, is_advance (length (wire f m)) st)"
    and wire_nonempty: "item_ok f m \<Longrightarrow> 0 < length (wire f m)"
    and wire_short: "item_ok f m \<Longrightarrow> length (wire f m) \<le> 10"
    and packable: "ltype \<le> PB_LTYPE_LAST_PACKABLE"
    and wire_fixed: "item_ok f m \<Longrightarrow> ltype = PB_LTYPE_FIXED32 \<Longrightarrow> length (wire f m) = 4"
      "item_ok f m \<Longrightarrow> ltype = PB_LTYPE_FIXED64 \<Longrightarrow> length (wire f m) = 8"
begin

definition wires :: "pb_field \<Rightarrow> byte list list \<Rightarrow> byte list" where
  "wires f ms = concat (map (wire f) ms)"

lemma wires_simps [simp]: "wires f [] = []" "wires f (m # ms) = wire f m @ wires f ms"
  by (simp_all add: wires_def)

lemma length_wires: "\<forall>m\<in>set ms. item_ok f m \<Longrightarrow> length (wires f ms) \<le> 10 * length ms"
  by (induction ms) (use wire_short in \<open>fastforce+\<close>)

lemma encode_items_buffer:
  assumes "\<forall>m\<in>set ms. item_ok f m" "ostream_ok st" "length (wires f ms) \<le> os_room st"
  shows "encode_items enc st f (map Some ms) = (True, os_append (wires f ms) st)"
  using assms
proof (induction ms arbitrary: st)
  case Nil
  then show ?case by (auto simp: os_append_def elim!: ostream_okE)
next
  case (Cons m ms)
  then show ?case by (simp add: enc_buffer os_append_append)
qed

lemma encode_items_sizing:
  assumes "\<forall>m\<in>set ms. item_ok f m" "sizing_ok st (length (wires f ms))"
  shows "encode_items enc st f (map Some ms) = (True, os_count (length (wires f ms)) st)"
  using assms
proof (induction ms arbitrary: st)
  case (Cons m ms)
  then have "sizing_ok st (length (wire f m))"
    "sizing_ok (os_count (length (wire f m)) st) (length (wires f ms))"
    by (simp_all add: sizing_ok_def)
  with Cons show ?case by (simp add: enc_sizing)
qed simp

lemma packed_size_wires:
  assumes "\<forall>m\<in>set ms. item_ok f m" "PB_LTYPE (ftype f) = ltype" "length (wires f ms) < 2 ^ 64"
  shows "packed_size enc f (map Some ms) = Some (length (wires f ms))"
proof -
  have "ltype = PB_LTYPE_FIXED32 \<Longrightarrow> length (wires f ms) = 4 * length ms"
    using assms(1) by (induction ms) (simp_all add: wire_fixed)
  moreover have "ltype = PB_LTYPE_FIXED64 \<Longrightarrow> length (wires f ms) = 8 * length ms"
    using assms(1) by (induction ms) (simp_all add: wire_fixed)
  moreover have "sizing_ok PB_OSTREAM_SIZING (length (wires f ms))"
    using assms(3) by (simp add: sizing_ok_def PB_OSTREAM_SIZING_def)
  note encode_items_sizing [OF assms(1) this]
  ultimately show ?thesis
    using assms(2,3)
    by (cases "ltype = PB_LTYPE_FIXED32"; cases "ltype = PB_LTYPE_FIXED64")
      (simp_all add: packed_size_def size_wrap_id PB_OSTREAM_SIZING_def)
qed

lemma encode_array_packed:
  assumes "\<forall>m\<in>set ms. item_ok f m" "PB_LTYPE (ftype f) = ltype" "ms \<noteq> []"
    "PB_ATYPE (ftype f) = PB_ATYPE_POINTER \<or> length ms \<le> array_size f"
    "ostream_ok st"
    "length (pb_varint_buffer (tag_word PB_WT_STRING (tag f)) @ string_bytes (wires f ms)) \<le> os_room st"
  shows "encode_array st f (map Some ms) enc =
    (True, os_append (pb_varint_buffer (tag_word PB_WT_STRING (tag f)) @
                      string_bytes (wires f ms)) st)"
proof -
  let ?t = "pb_varint_buffer (tag_word PB_WT_STRING (tag f))"
  let ?l = "pb_varint_buffer (word_of_nat (length (wires f ms)))"
  have "os_room st < 2 ^ 64" using assms(5) by (auto simp: os_room_def ostream_ok_def)
  then have w: "length (wires f ms) < 2 ^ 64" using assms(6) by (simp add: string_bytes_def)
  have "\<not> (PB_ATYPE (ftype f) \<noteq> PB_ATYPE_POINTER \<and> length (map Some ms) > array_size f)"
    using assms(4) by auto
  moreover have "\<not> is_Sizing (sink (os_append bs st))" for bs
    using assms(5) by (auto simp: os_append_def elim!: ostream_okE)
  ultimately show ?thesis
    using assms packable packed_size_wires [OF assms(1,2) w]
      encode_items_buffer [OF assms(1), of "os_append (?t @ ?l) st"]
    by (simp add: encode_array_def pb_encode_tag_ok pb_encode_varint_ok string_bytes_def os_append_append)
qed

lemma decode_packed_loop_wires:
  assumes "\<forall>m\<in>set ms. item_ok f m" "istream_ok st" "pending st = wires f ms"
    "n + length ms \<le> array_size f"
  shows "decode_packed_loop dec st f n acc =
    (True, n + length ms, acc @ map Some ms, is_advance (length (wires f ms)) st)"
  using assms
proof (induction ms arbitrary: st n acc)
  case Nil
  then have "bytes_left st = 0" by (metis length_pending list.size(3) wires_simps(1))
  then show ?case using Nil by (simp add: decode_packed_loop.simps [of dec st])
next
  case (Cons m ms)
  have "0 < bytes_left st"
    using Cons.prems wire_nonempty [of f m] by (simp flip: length_pending)
  moreover have "dec st f = (True, Some m, is_advance (length (wire f m)) st)"
    using Cons.prems by (intro dec_wire [of f m st "wires f ms"]) simp_all
  ultimately show ?case using Cons
    by (simp add: decode_packed_loop.simps [of dec st])
qed

lemma decode_packed_wires:
  assumes "\<forall>m\<in>set ms. item_ok f m" "istream_ok st" "pending st = string_bytes (wires f ms) @ rest"
    "length (wires f ms) < 2 ^ 32" "n + length ms \<le> array_size f"
  shows "decode_packed dec st f n =
    (True, n + length ms, map Some ms, is_advance (length (string_bytes (wires f ms))) st)"
proof -
  from pb_make_string_substream_ok [OF assms(2-4)] obtain sub st' where
    sub: "pb_make_string_substream st = (Some sub, st')" "istream_ok sub" "pending sub = wires f ms"
      "pb_close_string_substream st' (is_advance (length (wires f ms)) sub) =
        (True, is_advance (length (string_bytes (wires f ms))) st)"
    by blast
  have "bytes_left sub = length (wires f ms)" using sub(2,3) by (metis length_pending)
  then show ?thesis
    using sub decode_packed_loop_wires [OF assms(1) sub(2,3) assms(5), of "[]"]
    by (simp add: decode_packed_def)
qed

lemma packed_roundtrip:
  assumes "\<forall>m\<in>set ms. item_ok f m" "PB_LTYPE (ftype f) = ltype" "ms \<noteq> []"
    "length ms \<le> array_size f" "0 < unat (tag f)" "unat (tag f) < 2 ^ 29"
    "ostream_ok ost" "20 + 10 * length ms \<le> os_room ost" "10 * length ms < 2 ^ 32"
    "istream_ok st"
    "os_out ost @ pending st = os_out (snd (encode_array ost f (map Some ms) enc)) @ rest"
  shows "fst (encode_array ost f (map Some ms) enc) \<and>
    (\<exists>st1 st2. pb_decode_tag st = (True, PB_WT_STRING, tag f, False, st1) \<and>
      decode_packed dec st1 f 0 = (True, length ms, map Some ms, st2) \<and>
      istream_ok st2 \<and> pending st2 = rest)"
proof -
  let ?t = "pb_varint_buffer (tag_word PB_WT_STRING (tag f))"
  let ?s = "string_bytes (wires f ms)"
  have w: "length (wires f ms) \<le> 10 * length ms" using assms(1) by (rule length_wires)
  have s: "length ?s \<le> 10 + length (wires f ms)"
    by (simp add: string_bytes_def pb_varint_buffer_bounds)
  have "length (?t @ ?s) \<le> os_room ost"
    using pb_varint_buffer_bounds(2) [of "tag_word PB_WT_STRING (tag f)"] w s assms(8)
    by (simp only: length_append)
  note e = encode_array_packed [OF assms(1-3) disjI2 [OF assms(4)] assms(7) this]
  then have p: "pending st = ?t @ ?s @ rest"
    using assms(7,11) \<open>length (?t @ ?s) \<le> os_room ost\<close> by simp
  have t: "pb_decode_tag st = (True, PB_WT_STRING, tag f, False, is_advance (length ?t) st)"
    using assms(5,6,10) p by (intro pb_decode_tag_ok) simp_all
  have "decode_packed dec (is_advance (length ?t) st) f 0 =
      (True, 0 + length ms, map Some ms, is_advance (length ?s) (is_advance (length ?t) st))"
    using assms(1,4,9,10) p w by (intro decode_packed_wires [of ms f _ rest]) simp_all
  then show ?thesis using e t p assms(10) by simp
qed

end

section \<open>The tables\<close>

text \<open>
  The functions for scalar fields go through the pointer they are given; a null pointer,
  which the callers never pass, is not part of the contract. \<open>pb_enc_submessage\<close> is
  a parameter of the table.
\<close>

definition deref ::
  "('s pb_ostream \<Rightarrow> pb_field \<Rightarrow> byte list \<Rightarrow> bool \<times> 's pb_ostream) \<Rightarrow> 's pb_encoder" where
  "deref enc st field src = (case src of None \<Rightarrow> (False, st) | Some m \<Rightarrow> enc st field m)"

definition PB_ENCODERS :: "'s pb_encoder \<Rightarrow> 's pb_encoder option list" where
  "PB_ENCODERS pb_enc_submessage =
     [Some (deref pb_enc_varint), Some (deref pb_enc_uvarint), Some (deref pb_enc_svarint),
      Some (deref pb_enc_fixed32), Some (deref pb_enc_fixed64),
      Some pb_enc_bytes, Some pb_enc_string, Some pb_enc_submessage, None,
      Some (deref pb_enc_fixed_length_bytes)]"

lemma ltype_packable [simp]: "x \<in> {0, 1, 2, 3, 4} \<Longrightarrow> (x :: 8 word) \<le> PB_LTYPE_LAST_PACKABLE"
  by (auto simp: word_le_nat_alt)

lemma pb_enc_write:
  assumes "\<And>st :: 's pb_ostream. enc st f (Some m) = pb_write st bs"
  shows "ostream_ok st \<Longrightarrow> length bs \<le> os_room st \<Longrightarrow> enc st f (Some m) = (True, os_append bs st)"
    and "sizing_ok st (length bs) \<Longrightarrow> enc st f (Some m) = (True, os_count (length bs) st)"
  by (simp_all add: assms pb_write_fits pb_write_count)

definition fixed_item :: "nat \<Rightarrow> pb_field \<Rightarrow> byte list \<Rightarrow> bool" where
  "fixed_item n f m \<longleftrightarrow> length m = n"

lemma item_codecI:
  fixes enc :: "'s pb_ostream \<Rightarrow> pb_field \<Rightarrow> byte list option \<Rightarrow> bool \<times> 's pb_ostream"
  assumes enc: "\<And>f m st. ok f m \<Longrightarrow> enc st f (Some m) = pb_write st (wire f m)"
    and dec: "\<And>f m st rest. ok f m \<Longrightarrow> istream_ok st \<Longrightarrow> pending st = wire f m @ rest \<Longrightarrow>
      dec st f = (True, Some m, is_advance (length (wire f m)) st)"
    and len: "\<And>f m. ok f m \<Longrightarrow> 0 < length (wire f m)"
      "\<And>f m. ok f m \<Longrightarrow> length (wire f m) \<le> 10" "lt \<le> PB_LTYPE_LAST_PACKABLE"
    and fixed: "\<And>f m. ok f m \<Longrightarrow> lt = PB_LTYPE_FIXED32 \<Longrightarrow> length (wire f m) = 4"
      "\<And>f m. ok f m \<Longrightarrow> lt = PB_LTYPE_FIXED64 \<Longrightarrow> length (wire f m) = 8"
  shows "item_codec enc dec lt ok wire"
proof
  fix f m and ost :: "'s pb_ostream"
  assume "ok f m"
  note w = pb_enc_write [of enc f m, OF enc [OF this]]
  show "ostream_ok ost \<Longrightarrow> length (wire f m) \<le> os_room ost \<Longrightarrow>
      enc ost f (Some m) = (True, os_append (wire f m) ost)" by (rule w)
  show "sizing_ok ost (length (wire f m)) \<Longrightarrow>
      enc ost f (Some m) = (True, os_count (length (wire f m)) ost)" by (rule w)
qed (use dec len fixed in \<open>blast\<close>)+

interpretation varint_item: item_codec "deref pb_enc_varint" pb_dec_varint PB_LTYPE_VARINT
  int_item "\<lambda>f m. pb_varint_buffer (signed_value f m)"
  by (rule item_codecI)
    (simp_all add: deref_def pb_enc_varint_def load_signed_value pb_encode_varint_def
      pb_dec_varint_ok pb_varint_buffer_bounds del: length_greater_0_conv)

interpretation uvarint_item: item_codec "deref pb_enc_uvarint" pb_dec_uvarint PB_LTYPE_UVARINT
  int_item "\<lambda>f m. pb_varint_buffer (unsigned_value f m)"
  by (rule item_codecI)
    (simp_all add: deref_def pb_enc_uvarint_def load_unsigned_value pb_encode_varint_def
      pb_dec_uvarint_ok pb_varint_buffer_bounds del: length_greater_0_conv)

interpretation svarint_item: item_codec "deref pb_enc_svarint" pb_dec_svarint PB_LTYPE_SVARINT
  int_item "\<lambda>f m. pb_varint_buffer (zigzag (signed_value f m))"
  by (rule item_codecI)
    (simp_all add: deref_def pb_enc_svarint_def load_signed_value pb_encode_varint_def
      pb_encode_svarint_def pb_dec_svarint_ok pb_varint_buffer_bounds del: length_greater_0_conv)

lemma pb_dec_fixed32_ok:
  assumes "fixed_item 4 f m" "istream_ok st" "pending st = m @ rest"
  shows "pb_dec_fixed32 st f = (True, Some m, is_advance (length m) st)"
  using assms pb_decode_fixed32_le [OF assms(2)] 
  by (simp add: pb_dec_fixed32_def fixed_item_def le_store_load)

lemma pb_dec_fixed64_ok:
  assumes "fixed_item 8 f m" "istream_ok st" "pending st = m @ rest"
  shows "pb_dec_fixed64 st f = (True, Some m, is_advance (length m) st)"
  using assms pb_decode_fixed64_le [OF assms(2)]
  by (simp add: pb_dec_fixed64_def fixed_item_def le_store_load)

interpretation fixed32_item: item_codec "deref pb_enc_fixed32" pb_dec_fixed32 PB_LTYPE_FIXED32
  "fixed_item 4" "\<lambda>f m. m"
  by (rule item_codecI)
    (auto simp add: deref_def pb_enc_fixed32_def pb_encode_fixed32_le pb_dec_fixed32_ok
      fixed_item_def le_store_load)

interpretation fixed64_item: item_codec "deref pb_enc_fixed64" pb_dec_fixed64 PB_LTYPE_FIXED64
  "fixed_item 8" "\<lambda>f m. m"
  by (rule item_codecI)
    (auto simp add: deref_def pb_enc_fixed64_def pb_encode_fixed64_le pb_dec_fixed64_ok
      fixed_item_def le_store_load)

text \<open>Rows 0 to 4 of \<open>PB_DECODERS\<close>, the packable types.\<close>

definition PB_DECODERS :: "('s pb_istream \<Rightarrow> pb_field \<Rightarrow> 's dec_result) list" where
  "PB_DECODERS = [pb_dec_varint, pb_dec_uvarint, pb_dec_svarint, pb_dec_fixed32, pb_dec_fixed64]"

definition scalar_item :: "nat \<Rightarrow> pb_field \<Rightarrow> byte list \<Rightarrow> bool" where
  "scalar_item lt =
     (if lt = 3 then fixed_item 4 else if lt = 4 then fixed_item 8 else int_item)"

lemmas scalar_codecs = varint_item.item_codec_axioms uvarint_item.item_codec_axioms
  svarint_item.item_codec_axioms fixed32_item.item_codec_axioms fixed64_item.item_codec_axioms

lemma scalar_codec:
  assumes "lt < 5" "PB_ENCODERS sub ! lt = Some enc"
  shows "\<exists>wire. item_codec enc (PB_DECODERS ! lt) (word_of_nat lt) (scalar_item lt) wire"
proof -
  consider "lt = 0" | "lt = Suc 0" | "lt = Suc (Suc 0)" | "lt = Suc (Suc (Suc 0))"
    | "lt = Suc (Suc (Suc (Suc 0)))" using assms(1) by linarith
  then show ?thesis using assms(2) scalar_codecs
    by cases (simp_all add: PB_ENCODERS_def PB_DECODERS_def scalar_item_def, blast+)
qed

text \<open>
  C6. A packed array of any scalar type, written by the row of \<open>PB_ENCODERS\<close> of its type,
  is read back by the row of \<open>PB_DECODERS\<close>: the tag, then every item, and nothing behind.
\<close>

theorem packed_array_roundtrip:
  fixes ost :: "'s pb_ostream" and st :: "'s pb_istream"
  assumes "lt < 5" "PB_LTYPE (ftype f) = word_of_nat lt" "PB_ENCODERS sub ! lt = Some enc"
    "\<forall>m\<in>set ms. scalar_item lt f m" "ms \<noteq> []"
    "length ms \<le> array_size f" "0 < unat (tag f)" "unat (tag f) < 2 ^ 29"
    "ostream_ok ost" "20 + 10 * length ms \<le> os_room ost" "10 * length ms < 2 ^ 32"
    "istream_ok st"
    "os_out ost @ pending st = os_out (snd (encode_array ost f (map Some ms) enc)) @ rest"
  shows "fst (encode_array ost f (map Some ms) enc) \<and>
    (\<exists>st1 st2. pb_decode_tag st = (True, PB_WT_STRING, tag f, False, st1) \<and>
      decode_packed (PB_DECODERS ! lt) st1 f 0 = (True, length ms, map Some ms, st2) \<and>
      istream_ok st2 \<and> pending st2 = rest)"
proof -
  from scalar_codec [OF assms(1,3)] obtain wire
    where "item_codec enc (PB_DECODERS ! lt) (word_of_nat lt) (scalar_item lt) wire" by blast
  from item_codec.packed_roundtrip [OF this assms(4,2,5-13)] show ?thesis .
qed

lemma packed_array_roundtrip_witness:
  "\<exists>st1 st2 :: unit pb_istream.
     pb_decode_tag (pb_istream_from_buffer [26, 12, 255, 255, 255, 255, 255, 255, 255, 255, 255, 1, 172, 2, 7] 15) =
       (True, 2, 3, False, st1) \<and>
     decode_packed (PB_DECODERS ! 0) st1 \<lparr>tag = 3, ftype = 0, data_size = 4, array_size = 3\<rparr> 0 =
       (True, 2, [Some [255, 255, 255, 255], Some [44, 1, 0, 0]], st2) \<and>
     istream_ok st2 \<and> pending st2 = [7]"
proof -
  let ?f = "\<lparr>tag = 3, ftype = 0, data_size = 4, array_size = 3\<rparr>"
  let ?ms = "[[255, 255, 255, 255], [44, 1, 0, 0]] :: byte list list"
  let ?o = "pb_ostream_from_buffer (replicate 60 0) 60 :: unit pb_ostream"
  let ?i = "pb_istream_from_buffer [26, 12, 255, 255, 255, 255, 255, 255, 255, 255, 255, 1, 172, 2, 7] 15
    :: unit pb_istream"
  have b: "pb_varint_buffer (tag_word 2 3) = [26]" "pb_varint_buffer 12 = [12]"
    "pb_varint_buffer (signed_value ?f [44, 1, 0, 0]) = [172, 2]" 
    "pb_varint_buffer (signed_value ?f [255, 255, 255, 255]) =
       [255, 255, 255, 255, 255, 255, 255, 255, 255, 1]"
    by code_simp+
  have "os_out (snd (encode_array ?o ?f (map Some ?ms) (deref pb_enc_varint))) =
      [26, 12, 255, 255, 255, 255, 255, 255, 255, 255, 255, 1, 172, 2]"
    by (subst varint_item.encode_array_packed)
      (simp_all add: int_item_def PB_LTYPE_def string_bytes_def b)
  moreover have "ostream_ok ?o" "istream_ok ?i" "os_room ?o = 60" by simp_all
  ultimately have "\<exists>st1 st2. pb_decode_tag ?i = (True, PB_WT_STRING, tag ?f, False, st1) \<and>
      decode_packed (PB_DECODERS ! 0) st1 ?f 0 = (True, length ?ms, map Some ?ms, st2) \<and>
      istream_ok st2 \<and> pending st2 = [7]"
    by (intro packed_array_roundtrip [of 0 ?f "\<lambda>st _ _. (True, st)" "deref pb_enc_varint" ?ms ?o ?i "[7]",
          THEN conjunct2])
      (simp_all add: scalar_item_def int_item_def PB_ENCODERS_def PB_LTYPE_def)
  then show ?thesis by (simp add: numeral_2_eq_2)
qed

section \<open>Byte strings and zero-terminated strings\<close>

lemma mem_write_0: "mem_write m 0 bs = bs @ drop (length bs) m"
  by (simp add: mem_write_def)

lemma mem_write_behind: "length a = n \<Longrightarrow> mem_write (a @ b) n bs = a @ bs @ drop (length bs) b"
  by (simp add: mem_write_def)

text \<open>What a length prefix and its bytes leave to the reader.\<close>

lemma pb_read_string_bytes:
  assumes "istream_ok st" "pending st = string_bytes s @ rest"
  shows "pb_read (is_advance (length (string_bytes s) - length s) st) (length s) =
    (Some s, is_advance (length (string_bytes s)) st)"
  using assms by (simp add: pb_read_ok string_bytes_def)

lemma pb_dec_bytes_inline:
  assumes "istream_ok st" "pending st = string_bytes bs @ rest" "length bs + 4 \<le> data_size f"
    "length m = data_size f" "length bs < 2 ^ 32"
  shows "pb_dec_bytes env st f (Inline m) =
    (True, Stored (le_store 4 (word_of_nat (length bs) :: 32 word) @ bs @ drop (4 + length bs) m),
     is_advance (length (string_bytes bs)) st)"
proof -
  have "size_wrap (length bs + 4) = length bs + 4" using assms(5) by (simp add: size_wrap_id)
  then show ?thesis
    using assms(3,4) pb_decode_length [OF assms(1,2,5)] unat_of_nat32 [OF assms(5)]
      pb_read_string_bytes [OF assms(1,2)]
    by (simp add: pb_dec_bytes_def PB_BYTES_ARRAY_T_ALLOCSIZE_def mem_write_0 mem_write_behind add.commute)
qed

lemma pb_dec_string_inline:
  assumes "istream_ok st" "pending st = string_bytes s @ rest" "length s + 1 \<le> data_size f"
    "length m = data_size f" "length s + 1 < 2 ^ 32"
  shows "pb_dec_string env st f (Inline m) =
    (True, Stored (s @ 0 # drop (1 + length s) m), is_advance (length (string_bytes s)) st)"
proof -
  have len: "length s < 2 ^ 32" using assms(5) by simp
  have "unat (word_of_nat (length s) + 1 :: 32 word) = length s + 1"
    using unat_of_nat32 [OF assms(5)] by (simp add: add.commute)
  then show ?thesis
    using assms(3,4) pb_decode_length [OF assms(1,2) len] unat_of_nat32 [OF len]
      pb_read_string_bytes [OF assms(1,2)]
    by (simp add: pb_dec_string_def mem_write_0 mem_write_behind Let_def)
qed



lemma allocsize_word [simp]: "PB_BYTES_ARRAY_T_ALLOCSIZE (unat (w :: 32 word)) = unat w + 4"
  using unsigned_less [of w, where 'a = nat]
  by (simp add: PB_BYTES_ARRAY_T_ALLOCSIZE_def size_wrap_id)






section \<open>Properties of the wire format\<close>

lemma bytes_written_os_append [simp]: "bytes_written (os_append bs st) = bytes_written st + length bs"
  by (simp add: os_append_def)


text \<open>
  C7. \<open>pb_decode_varint\<close> on any input: with \<open>n\<close> continuation bytes in front, it
  fails with an overflow when \<open>n\<close> is ten or more, having read ten bytes, with the end of the
  stream when the input ends first, and otherwise consumes \<open>n + 1\<close> bytes and returns the
  number their low seven bits spell, modulo \<open>2^64\<close>.
\<close>

theorem pb_decode_varint_total:
  assumes "istream_ok st"
  shows "pb_decode_varint st =
    (let n = varint_more (pending st) in
     if 10 \<le> n then (None, is_set_error ''varint overflow'' (is_advance 10 st))
     else if length (pending st) \<le> n
     then (None, is_set_error ''end-of-stream'' (is_advance n st))
     else (Some (word_of_nat (varint_groups (take (Suc n) (pending st)))), is_advance (Suc n) st))"
  using decode_varint_loop_spec [OF assms, of 0 0] by (simp add: pb_decode_varint_def Let_def)

lemma pb_decode_varint_total_witness:
  "fst (pb_decode_varint (pb_istream_from_buffer [0xAC, 0x02, 0x07] 3 :: unit pb_istream)) = Some 300 \<and>
   pending (snd (pb_decode_varint (pb_istream_from_buffer [0xAC, 0x02, 0x07] 3 :: unit pb_istream))) = [7]"
  using pb_decode_varint_total [of "pb_istream_from_buffer [0xAC, 0x02, 0x07] 3 :: unit pb_istream"]
  by (simp add: varint_more_def Let_def)

text \<open>
  C29. Every 64-bit value survives the wire: what \<open>pb_encode_varint\<close> and
  \<open>pb_encode_svarint\<close> write is read back by their decoders, which leave exactly what
  follows; and a value takes one to ten bytes.
\<close>

theorem varint_roundtrip:
  assumes "ostream_ok ost" "10 \<le> os_room ost" "istream_ok st"
    "(enc, dec) \<in> {(pb_encode_varint, pb_decode_varint), (pb_encode_svarint, pb_decode_svarint)}"
    "os_out ost @ pending st = os_out (snd (enc ost v)) @ rest"
  shows "fst (enc ost v) \<and> fst (dec st) = Some v \<and> pending (snd (dec st)) = rest \<and>
    istream_ok (snd (dec st)) \<and>
    bytes_written (snd (enc ost v)) - bytes_written ost \<in> {1..10}"
proof -
  have b: "0 < length (pb_varint_buffer x)" "length (pb_varint_buffer x) \<le> 10"
    "length (pb_varint_buffer x) \<le> os_room ost" for x
    using pb_varint_buffer_bounds [of x] assms(2) by linarith+
  show ?thesis
    using assms b pb_decode_varint_ok [OF assms(3), of v rest]
      pb_decode_svarint_ok [OF assms(3), of v rest]
    by (auto simp: pb_encode_svarint_def pb_encode_varint_ok Suc_le_eq
        simp flip: length_greater_0_conv)
qed


lemma varint_roundtrip_witness:
  "pb_decode_svarint (pb_istream_from_buffer [3, 9] 2 :: unit pb_istream) =
     (Some (- 2), snd (pb_decode_svarint (pb_istream_from_buffer [3, 9] 2 :: unit pb_istream))) \<and>
   pending (snd (pb_decode_svarint (pb_istream_from_buffer [3, 9] 2 :: unit pb_istream))) = [9]"
proof -
  let ?o = "pb_ostream_from_buffer (replicate 10 0) 10 :: unit pb_ostream"
  let ?i = "pb_istream_from_buffer [3, 9] 2 :: unit pb_istream"
  have "pb_varint_buffer (zigzag (- 2)) = [3]" by code_simp
  then have "os_out ?o @ pending ?i = os_out (snd (pb_encode_svarint ?o (- 2))) @ [9]"
    by (simp add: pb_encode_svarint_def pb_encode_varint_ok)
  then show ?thesis
    using varint_roundtrip [of ?o ?i pb_encode_svarint pb_decode_svarint "- 2" "[9]"]
    by (auto intro: prod_eqI)
qed

text \<open>
  The 32-bit decoder reads every 32-bit integer back, in both encodings the format has
  for it: zero-extended, for \<open>uint32\<close>, and sign-extended to 64 bits, for \<open>int32\<close>.
\<close>

theorem pb_decode_varint32_canonical:
  assumes "istream_ok st" "v = ucast x \<or> v = scast x"
    "pending st = pb_varint_buffer v @ rest"
  shows "pb_decode_varint32 st = (Some x, is_advance (length (pb_varint_buffer v)) st)"
proof (cases "v = ucast x")
  case True
  then have "unat v < 2 ^ 32"
    using unsigned_less [of x, where 'a = nat] by (simp add: unsigned_ucast_eq take_bit_nat_eq_self)
  moreover have "ucast v = x" by (rule bit_word_eqI) (auto simp: True bit_ucast_iff)
  ultimately show ?thesis using pb_decode_varint32_ok [OF assms(1,3)] by simp
next
  case False
  then have v: "v = scast x" using assms(2) by simp
  have "bit x 31"
  proof (rule ccontr)
    assume n: "\<not> bit x 31"
    have "min 31 n = (if n < 32 then n else 31)" for n :: nat by simp
    moreover have "bit x n \<Longrightarrow> n < 32" for n using bit_imp_le_length [of x n] by simp
    ultimately have "scast x = (ucast x :: 64 word)"
      using n by (auto intro!: bit_word_eqI simp: bit_signed_iff bit_ucast_iff split: if_splits)
    with False v show False by simp
  qed
  then have "pb_decode_varint32_eof st False = (Some x, False, is_advance 10 st)"
    "length (pb_varint_buffer v) = 10"
    using pb_decode_varint32_eof_neg [of st x rest] assms v length_neg_varint by simp_all
  then show ?thesis by (simp add: pb_decode_varint32_def)
qed

lemma pb_decode_varint32_canonical_witness:
  "fst (pb_decode_varint32 (pb_istream_from_buffer
      [0xFE, 0xFF, 0xFF, 0xFF, 0xFF, 0xFF, 0xFF, 0xFF, 0xFF, 0x01] 10 :: unit pb_istream)) = Some (- 2)"
proof -
  have b: "pb_varint_buffer (scast (- 2 :: 32 word)) =
      [0xFE, 0xFF, 0xFF, 0xFF, 0xFF, 0xFF, 0xFF, 0xFF, 0xFF, 0x01]" by code_simp
  show ?thesis
    using pb_decode_varint32_canonical [of "pb_istream_from_buffer
      [0xFE, 0xFF, 0xFF, 0xFF, 0xFF, 0xFF, 0xFF, 0xFF, 0xFF, 0x01] 10 :: unit pb_istream"
      "scast (- 2 :: 32 word)" "- 2" "[]"] unfolding b by simp
qed



text \<open>
  A field is framed by its tag alone: for every field number below \<open>2^29\<close> and every
  wire type, the tag \<open>pb_encode_tag\<close> writes is read back, and \<open>pb_skip_field\<close> then
  steps over any encoded value of that type, neither more nor less.
\<close>

theorem pb_skip_field_exact:
  assumes "wire_value wt value" "0 < unat n" "unat n < 2 ^ 29" "ostream_ok ost" "10 \<le> os_room ost"
    "istream_ok st" "os_out ost @ pending st = os_out (snd (pb_encode_tag ost wt n)) @ value @ rest"
  shows "\<exists>st1 st2. pb_decode_tag st = (True, wt, n, False, st1) \<and>
    pb_skip_field st1 wt = (True, st2) \<and> istream_ok st2 \<and> pending st2 = rest"
proof -
  let ?t = "pb_varint_buffer (tag_word wt n)"
  have t: "length ?t \<le> os_room ost"
    using pb_varint_buffer_bounds(2) [of "tag_word wt n"] assms(5) by linarith
  then have p: "pending st = ?t @ value @ rest"
    using assms(4,7) by (simp add: pb_encode_tag_ok)
  have "unat wt < 8" using assms(1) by cases simp_all
  then have "pb_decode_tag st = (True, wt, n, False, is_advance (length ?t) st)"
    using assms(2,3,6) p by (intro pb_decode_tag_ok) simp_all
  moreover have "pb_skip_field (is_advance (length ?t) st) wt =
      (True, is_advance (length value) (is_advance (length ?t) st))"
    using assms(1,6) p by (intro pb_skip_field_ok) simp_all
  ultimately show ?thesis using p assms(6) by simp
qed

lemma pb_skip_field_exact_witness:
  "\<exists>st1 st2 :: unit pb_istream.
     pb_decode_tag (pb_istream_from_buffer [42, 3, 97, 98, 99, 1] 6) = (True, 2, 5, False, st1) \<and>
     pb_skip_field st1 2 = (True, st2) \<and> istream_ok st2 \<and> pending st2 = [1]"
proof -
  let ?o = "pb_ostream_from_buffer (replicate 10 0) 10 :: unit pb_ostream"
  let ?i = "pb_istream_from_buffer [42, 3, 97, 98, 99, 1] 6 :: unit pb_istream"
  have b: "pb_varint_buffer (tag_word 2 5) = [42]" "string_bytes [97, 98, 99] = [3, 97, 98, 99]"
    by code_simp+
  have "wire_value 2 [3, 97, 98, 99]"
    using wv_string [of "[97, 98, 99]"] by (simp add: b)
  moreover have "os_out ?o @ pending ?i = os_out (snd (pb_encode_tag ?o 2 5)) @ [3, 97, 98, 99] @ [1]"
    by (simp add: pb_encode_tag_ok b)
  ultimately show ?thesis
    by (intro pb_skip_field_exact [of 2 "[3, 97, 98, 99]" 5 ?o ?i "[1]"]) simp_all
qed



lemma str_scan_prefix:
  "0 \<notin> set s \<Longrightarrow> length s < n \<Longrightarrow> str_scan n (s @ 0 # pad) = length s"
  by (induction s arbitrary: n) (auto simp: less_Suc_eq_0_disj gr0_conv_Suc Suc_less_eq2)



text \<open>
  A bytes field and a string field come back as they were: the encoder reads them from
  the field's memory, the decoder stores them in memory of the same size, whatever that
  held before.
\<close>

theorem bytes_string_roundtrip:
  assumes "ostream_ok ost" "10 + length s \<le> os_room ost" "istream_ok st"
    "PB_ATYPE (ftype f) = PB_ATYPE_STATIC" "data_size f < 2 ^ 32" "length old = data_size f"
    "(enc, dec, src) \<in>
      {(pb_enc_bytes, pb_dec_bytes, le_store 4 (word_of_nat (length s) :: 32 word) @ s),
       (pb_enc_string, pb_dec_string, s @ [0])}"
    "0 \<notin> set s" "length src \<le> data_size f"
    "os_out ost @ pending st = os_out (snd (enc ost f (Some (src @ pad)))) @ rest"
  shows "fst (enc ost f (Some (src @ pad))) \<and>
    (\<exists>st'. dec env st f (Inline old) = (True, Stored (src @ drop (length src) old), st') \<and>
       istream_ok st' \<and> pending st' = rest)"
proof -
  have fits: "length (string_bytes s) \<le> os_room ost"
    using pb_varint_buffer_bounds(2) [of "word_of_nat (length s)"] assms(2)
    by (simp add: string_bytes_def)
  have len: "length s < 2 ^ 32" using assms(5,7,9) by auto
  have e: "enc ost f (Some (src @ pad)) = (True, os_append (string_bytes s) ost)"
    using assms(7)
  proof (elim insertE emptyE)
    assume "(enc, dec, src) = (pb_enc_bytes, pb_dec_bytes, le_store 4 (word_of_nat (length s) :: 32 word) @ s)"
    then show ?thesis using assms(1,4,5,9) fits unat_of_nat32 [OF len]
        allocsize_word [of "word_of_nat (length s)"]
      by (simp add: pb_enc_bytes_def le_load_store pb_encode_string_ok Let_def)
  next
    assume "(enc, dec, src) = (pb_enc_string, pb_dec_string, s @ [0])"
    moreover have "str_scan (min (data_size f) (Suc (length s + length pad))) (s @ 0 # pad) = length s"
      using assms(8,9) calculation by (intro str_scan_prefix) auto
    ultimately show ?thesis using assms(1,4) fits
      by (simp add: pb_enc_string_def pb_encode_string_ok)
  qed
  then have p: "pending st = string_bytes s @ rest" using assms(1,10) fits by simp
  show ?thesis
    using assms(7)
  proof (elim insertE emptyE)
    assume "(enc, dec, src) = (pb_enc_bytes, pb_dec_bytes, le_store 4 (word_of_nat (length s) :: 32 word) @ s)"
    then show ?thesis using assms(3,6,9) len e p pb_dec_bytes_inline [OF assms(3) p _ assms(6) len, of env]
      by simp
  next
    assume d: "(enc, dec, src) = (pb_enc_string, pb_dec_string, s @ [0])"
    then have "length s + 1 \<le> data_size f" "length s + 1 < 2 ^ 32" using assms(5,9) by simp_all
    from d pb_dec_string_inline [OF assms(3) p this(1) assms(6) this(2), of env] e p assms(3)
    show ?thesis by simp
  qed
qed


lemma bytes_string_roundtrip_witness:
  "\<exists>st' :: unit pb_istream.
     pb_dec_string plenty (pb_istream_from_buffer [2, 65, 66, 9] 4)
       \<lparr>tag = 1, ftype = 6, data_size = 4, array_size = 0\<rparr> (Inline [1, 1, 1, 1]) =
       (True, Stored [65, 66, 0, 1], st') \<and> pending st' = [9]"
proof -
  let ?o = "pb_ostream_from_buffer (replicate 20 0) 20 :: unit pb_ostream"
  let ?i = "pb_istream_from_buffer [2, 65, 66, 9] 4 :: unit pb_istream"
  let ?f = "\<lparr>tag = 1, ftype = 6, data_size = 4, array_size = 0\<rparr>"
  have b: "string_bytes [65, 66] = [2, 65, 66]" by code_simp
  have "os_out ?o @ pending ?i = os_out (snd (pb_enc_string ?o ?f (Some ([65, 66, 0] @ [5])))) @ [9]"
    by (simp add: pb_enc_string_def PB_ATYPE_def b pb_encode_string_ok str_scan_prefix [of "[65, 66]" 4 "[5]", simplified])
  then show ?thesis
    using bytes_string_roundtrip [of ?o "[65, 66]" ?i ?f "[1, 1, 1, 1]" pb_enc_string pb_dec_string
      "[65, 66, 0]" "[5]" "[9]" plenty]
    by (auto simp: PB_ATYPE_def)
qed

lemma os_set_error_view [simp]:
  "ostream_ok (os_set_error m st) = ostream_ok st" "os_out (os_set_error m st) = os_out st"
  by (simp_all add: ostream_ok_def os_is_buffer_def os_room_def os_out_def)

lemma bytes_written_from_buffer: "bytes_written (pb_ostream_from_buffer buf n) = 0"
  by (simp add: pb_ostream_from_buffer_def)

text \<open>
  C32. A write to a buffer stream stores all its bytes directly behind the earlier ones, or
  none of them and fails; it fails exactly when they do not fit in what the stream's limit
  leaves, and never changes the length of the memory or the bytes behind what it wrote.
\<close>

theorem pb_write_all_or_nothing:
  assumes "ostream_ok st" "bytes_written st + length bs < 2 ^ 64"
  shows "fst (pb_write st bs) = (length bs \<le> os_room st) \<and>
    ostream_ok (snd (pb_write st bs)) \<and>
    os_out (snd (pb_write st bs)) = os_out st @ (if length bs \<le> os_room st then bs else []) \<and>
    (\<forall>k. sink_pos (sink st) + (if length bs \<le> os_room st then length bs else 0) \<le> k \<longrightarrow>
       drop k (sink_mem (sink (snd (pb_write st bs)))) = drop k (sink_mem (sink st)))"
proof -
  have "drop k (sink_mem (sink (os_append bs st))) = drop k (sink_mem (sink st))"
    if "length bs \<le> os_room st" "sink_pos (sink st) + length bs \<le> k" for k
  proof -
    from assms(1) obtain m pos where s: "sink st = Buf_write m pos"
      and m: "pos + (max_size st - bytes_written st) \<le> length m" by (rule ostream_okE)
    have "pos + length bs \<le> length m" using m that(1) by (simp add: os_room_def)
    then show ?thesis using s that(2)
      by (simp add: os_append_def mem_write_def)
  qed
  then show ?thesis using assms pb_write_ok [OF assms]
    by (cases "length bs \<le> os_room st") simp_all
qed

lemma pb_write_all_or_nothing_witness:
  "os_out (snd (pb_write (pb_ostream_from_buffer [0, 0, 0] 2 :: unit pb_ostream) [5, 6])) = [5, 6] \<and>
   os_out (snd (pb_write (pb_ostream_from_buffer [0, 0, 0] 2 :: unit pb_ostream) [5, 6, 7])) = []"
  using pb_write_all_or_nothing [of "pb_ostream_from_buffer [0, 0, 0] 2 :: unit pb_ostream" "[5, 6]"]
    pb_write_all_or_nothing [of "pb_ostream_from_buffer [0, 0, 0] 2 :: unit pb_ostream" "[5, 6, 7]"]
  by (simp add: bytes_written_from_buffer)

end
