(* ===== verification/Pb_Iter.thy ===== *)
theory Pb_Iter
  imports Pb_Codec
begin

text \<open>
  Message structures of nanopb in memory, and the iterator over their field descriptors
  (\<open>pb_common.c\<close>). The memory is flat: a structure, an extension or an allocated block is
  a range of addresses, and pointers are stored in it as eight bytes.
\<close>

section \<open>Memory\<close>

text \<open>
  The bytes, the size of each block that \<open>pb_realloc\<close> gave out and that has not been freed,
  and whether the code has done what C leaves undefined: freed or reallocated a pointer that is
  not such a block, or called a null function.
\<close>

type_synonym addr = nat

record heap =
  hp_mem :: "addr \<Rightarrow> byte"
  hp_live :: "addr \<Rightarrow> nat option"
  hp_fault :: bool

definition hp_load :: "heap \<Rightarrow> addr \<Rightarrow> nat \<Rightarrow> byte list" where
  "hp_load h a n = map (hp_mem h) [a..<a + n]"

definition hp_store :: "heap \<Rightarrow> addr \<Rightarrow> byte list \<Rightarrow> heap" where
  "hp_store h a bs =
     h\<lparr>hp_mem := \<lambda>x. if a \<le> x \<and> x < a + length bs then bs ! (x - a) else hp_mem h x\<rparr>"

definition load_ptr :: "heap \<Rightarrow> addr \<Rightarrow> addr" where
  "load_ptr h a = unat (le_load (hp_load h a 8) :: 64 word)"

definition store_ptr :: "heap \<Rightarrow> addr \<Rightarrow> addr \<Rightarrow> heap" where
  "store_ptr h a p = hp_store h a (le_store 8 (word_of_nat p :: 64 word))"

text \<open>A \<open>pb_size_t\<close> and a \<open>bool\<close>.\<close>

definition load_size :: "heap \<Rightarrow> addr \<Rightarrow> nat" where
  "load_size h a = unat (le_load (hp_load h a 4) :: 32 word)"

definition store_size :: "heap \<Rightarrow> addr \<Rightarrow> nat \<Rightarrow> heap" where
  "store_size h a n = hp_store h a (le_store 4 (word_of_nat n :: 32 word))"

definition load_bool :: "heap \<Rightarrow> addr \<Rightarrow> bool" where
  "load_bool h a \<longleftrightarrow> hp_mem h a \<noteq> 0"

definition store_bool :: "heap \<Rightarrow> addr \<Rightarrow> bool \<Rightarrow> heap" where
  "store_bool h a b = hp_store h a [if b then 1 else 0]"

definition fault :: "heap \<Rightarrow> heap" where
  "fault h = h\<lparr>hp_fault := True\<rparr>"


section \<open>Descriptors\<close>

text \<open>
  The members of \<open>pb_field_t\<close> beyond those of \<open>pb_field\<close>. \<open>fptr\<close> is the address
  of a submessage's fields or of a default value. An array of descriptors is given up to its
  terminator, which is what is found behind its end.
\<close>

record pb_msg_field = pb_field +
  data_offset :: nat
  size_offset :: int
  fptr :: addr

definition PB_LAST_FIELD :: pb_msg_field where
  "PB_LAST_FIELD = \<lparr>tag = 0, ftype = 0, data_size = 0, array_size = 0, data_offset = 0, size_offset = 0, fptr = 0\<rparr>"

definition PB_SIZE_MAX :: nat where "PB_SIZE_MAX = 2 ^ 32 - 1"

abbreviation "PB_LTYPE_EXTENSION \<equiv> 0x08 :: 8 word"

abbreviation "PB_HTYPE_REQUIRED \<equiv> 0x00 :: 8 word"
abbreviation "PB_HTYPE_OPTIONAL \<equiv> 0x10 :: 8 word"
abbreviation "PB_HTYPE_REPEATED \<equiv> 0x20 :: 8 word"
abbreviation "PB_HTYPE_ONEOF \<equiv> 0x30 :: 8 word"

abbreviation "PB_ATYPE_CALLBACK \<equiv> 0x40 :: 8 word"

abbreviation f_ltype :: "pb_msg_field \<Rightarrow> 8 word" where "f_ltype f \<equiv> PB_LTYPE (ftype f)"
abbreviation f_htype :: "pb_msg_field \<Rightarrow> 8 word" where "f_htype f \<equiv> PB_HTYPE (ftype f)"
abbreviation f_atype :: "pb_msg_field \<Rightarrow> 8 word" where "f_atype f \<equiv> PB_ATYPE (ftype f)"

definition field_at :: "pb_msg_field list \<Rightarrow> nat \<Rightarrow> pb_msg_field" where
  "field_at fs i = (if i < length fs then fs ! i else PB_LAST_FIELD)"


section \<open>The iterator\<close>

text \<open>
  \<open>pSize\<close> points into memory, or to the variable \<open>fixed_count_size\<close> of
  \<open>pb_decode_noinit\<close>, whose value it is then given with.
\<close>

datatype size_ptr = At addr | Fixed_count nat

record pb_field_iter =
  it_start :: "pb_msg_field list"
  it_pos :: nat
  it_required_field_index :: nat
  it_dest_struct :: addr
  it_pData :: addr
  it_pSize :: size_ptr

definition it_field :: "pb_field_iter \<Rightarrow> pb_msg_field" where
  "it_field it = field_at (it_start it) (it_pos it)"

definition size_addr :: "addr \<Rightarrow> pb_msg_field \<Rightarrow> addr" where
  "size_addr pData f = nat (int pData + size_offset f)"

definition pb_field_iter_begin :: "pb_msg_field list \<Rightarrow> addr \<Rightarrow> bool \<times> pb_field_iter" where
  "pb_field_iter_begin fs dest_struct =
     (let f = field_at fs 0;
          pData = dest_struct + data_offset f
      in (tag f \<noteq> 0,
          \<lparr>it_start = fs, it_pos = 0, it_required_field_index = 0, it_dest_struct = dest_struct,
           it_pData = pData, it_pSize = At (size_addr pData f)\<rparr>))"

definition pb_field_iter_next :: "pb_field_iter \<Rightarrow> bool \<times> pb_field_iter" where
  "pb_field_iter_next it =
     (let prev_field = it_field it in
      if tag prev_field = 0 then (False, it)
      else let it1 = it\<lparr>it_pos := it_pos it + 1\<rparr>;
               f = it_field it1
      in if tag f = 0
         then (False, snd (pb_field_iter_begin (it_start it) (it_dest_struct it)))
         else let prev_size = data_size prev_field in
         if f_htype prev_field = PB_HTYPE_ONEOF \<and> f_htype f = PB_HTYPE_ONEOF \<and> data_offset f = PB_SIZE_MAX
         then (True, it1)
         else let prev_size = (if f_atype prev_field = PB_ATYPE_STATIC \<and> f_htype prev_field = PB_HTYPE_REPEATED
                               then prev_size * array_size prev_field
                               else if f_atype prev_field = PB_ATYPE_POINTER then 8 else prev_size);
                  required = (if f_htype prev_field = PB_HTYPE_REQUIRED then it_required_field_index it + 1
                              else it_required_field_index it);
                  pData = it_pData it + prev_size + data_offset f
         in (True, it1\<lparr>it_required_field_index := required, it_pData := pData,
                        it_pSize := At (size_addr pData f)\<rparr>))"

text \<open>
  The loop of \<open>pb_field_iter_find\<close> and \<open>find_extension_field\<close>: up to the field that is
  wanted, or once around to where it started. The first argument bounds the number of steps.
\<close>

fun iter_search :: "nat \<Rightarrow> (pb_msg_field \<Rightarrow> bool) \<Rightarrow> nat \<Rightarrow> pb_field_iter \<Rightarrow> bool \<times> pb_field_iter" where
  "iter_search 0 wanted start it = (False, it)"
| "iter_search (Suc n) wanted start it =
     (if wanted (it_field it) then (True, it)
      else let it' = snd (pb_field_iter_next it) in
      if it_pos it' \<noteq> start then iter_search n wanted start it' else (False, it'))"

definition pb_field_iter_find :: "pb_field_iter \<Rightarrow> 32 word \<Rightarrow> bool \<times> pb_field_iter" where
  "pb_field_iter_find it tg =
     iter_search (Suc (length (it_start it)))
       (\<lambda>f. tag f = tg \<and> f_ltype f \<noteq> PB_LTYPE_EXTENSION) (it_pos it) it"

definition find_extension_field :: "pb_field_iter \<Rightarrow> bool \<times> pb_field_iter" where
  "find_extension_field it =
     iter_search (Suc (length (it_start it))) (\<lambda>f. f_ltype f = PB_LTYPE_EXTENSION) (it_pos it) it"

text \<open>
  The loops \<open>do body while (pb_field_iter_next (iter))\<close> of the functions that visit every
  field; \<open>None\<close> when the bound on the steps does not suffice.
\<close>

fun fields_loop :: "nat \<Rightarrow> (pb_field_iter \<Rightarrow> 'st \<Rightarrow> 'st option) \<Rightarrow> pb_field_iter \<Rightarrow> 'st \<Rightarrow> 'st option" where
  "fields_loop 0 body it st = None"
| "fields_loop (Suc n) body it st =
     (case body it st of
        None \<Rightarrow> None
      | Some st' \<Rightarrow>
          (case pb_field_iter_next it of
             (True, it') \<Rightarrow> fields_loop n body it' st'
           | (False, _) \<Rightarrow> Some st'))"


section \<open>Where the iterator gets\<close>

text \<open>A message type: the descriptors in front of the terminator, none of them one.\<close>

definition fields_ok :: "pb_msg_field list \<Rightarrow> bool" where
  "fields_ok fs \<longleftrightarrow> (\<forall>f\<in>set fs. tag f \<noteq> 0)"

text \<open>The iterator at each field of a structure.\<close>

fun iter_at :: "pb_msg_field list \<Rightarrow> addr \<Rightarrow> nat \<Rightarrow> pb_field_iter" where
  "iter_at fs dest 0 = snd (pb_field_iter_begin fs dest)"
| "iter_at fs dest (Suc i) = snd (pb_field_iter_next (iter_at fs dest i))"

lemma tag_field_at: "fields_ok fs \<Longrightarrow> tag (field_at fs i) = 0 \<longleftrightarrow> length fs \<le> i"
  by (auto simp: fields_ok_def field_at_def PB_LAST_FIELD_def)

lemma iter_next_simps:
  "it_start (snd (pb_field_iter_next it)) = it_start it"
  "it_dest_struct (snd (pb_field_iter_next it)) = it_dest_struct it"
  "fields_ok (it_start it) \<Longrightarrow> Suc (it_pos it) < length (it_start it) \<Longrightarrow>
     fst (pb_field_iter_next it) \<and> it_pos (snd (pb_field_iter_next it)) = Suc (it_pos it)"
  by (auto simp: pb_field_iter_next_def Let_def pb_field_iter_begin_def it_field_def tag_field_at)

lemma iter_next_wrap:
  "fields_ok (it_start it) \<Longrightarrow> Suc (it_pos it) = length (it_start it) \<Longrightarrow>
     pb_field_iter_next it = (False, iter_at (it_start it) (it_dest_struct it) 0)"
  by (auto simp: pb_field_iter_next_def Let_def it_field_def tag_field_at)

lemma iter_at_simps [simp]:
  assumes "fields_ok fs"
  shows "i < length fs \<Longrightarrow> it_pos (iter_at fs dest i) = i"
    and "it_start (iter_at fs dest i) = fs" "it_dest_struct (iter_at fs dest i) = dest"
proof -
  show st: "it_start (iter_at fs dest i) = fs" for i
    by (induction i) (simp_all add: iter_next_simps pb_field_iter_begin_def Let_def)
  show "it_dest_struct (iter_at fs dest i) = dest"
    by (induction i) (simp_all add: iter_next_simps pb_field_iter_begin_def Let_def)
  show "i < length fs \<Longrightarrow> it_pos (iter_at fs dest i) = i"
    by (induction i) (simp_all add: iter_next_simps assms st pb_field_iter_begin_def Let_def)
qed

lemma it_field_iter_at [simp]: "fields_ok fs \<Longrightarrow> i < length fs \<Longrightarrow> it_field (iter_at fs dest i) = fs ! i"
  by (simp add: it_field_def field_at_def)

lemma iter_next_at:
  assumes "fields_ok fs" "i < length fs"
  shows "pb_field_iter_next (iter_at fs dest i) =
    (Suc i < length fs, iter_at fs dest (if Suc i < length fs then Suc i else 0))"
proof (cases "Suc i < length fs")
  case True
  then show ?thesis using iter_next_simps(3) [of "iter_at fs dest i"] assms by (simp add: prod_eq_iff)
next
  case False
  then show ?thesis using iter_next_wrap [of "iter_at fs dest i"] assms by simp
qed

declare iter_at.simps(2) [simp del]

text \<open>Every field is visited once, in order, and then the loop ends.\<close>

definition fold_fields ::
  "pb_msg_field list \<Rightarrow> addr \<Rightarrow> (pb_field_iter \<Rightarrow> 'st \<Rightarrow> 'st option) \<Rightarrow> nat list \<Rightarrow> 'st \<Rightarrow> 'st option" where
  "fold_fields fs dest body is st = foldl (\<lambda>r i. Option.bind r (body (iter_at fs dest i))) (Some st) is"

lemma fold_fields_None: "foldl (\<lambda>r i. Option.bind r (body i)) None is = None"
  by (induction "is") auto

lemma fields_loop_at:
  assumes "fields_ok fs" "i < length fs" "length fs - i \<le> n"
  shows "fields_loop n body (iter_at fs dest i) st = fold_fields fs dest body [i..<length fs] st"
  using assms(2,3)
proof (induction n arbitrary: i st)
  case (Suc n)
  have e: "[i..<length fs] = i # [Suc i..<length fs]" using Suc.prems(1) by (rule upt_conv_Cons)
  note nx = iter_next_at [OF assms(1) Suc.prems(1), of dest]
  show ?case
  proof (cases "body (iter_at fs dest i) st")
    case None
    then show ?thesis unfolding fold_fields_def e by (simp add: fold_fields_None)
  next
    case (Some st')
    show ?thesis
    proof (cases "Suc i < length fs")
      case True
      then have "fields_loop n body (iter_at fs dest (Suc i)) st' = fold_fields fs dest body [Suc i..<length fs] st'"
        using Suc.prems by (intro Suc.IH) simp_all
      then show ?thesis using Some True unfolding fold_fields_def e by (simp add: nx)
    next
      case False
      then have "[Suc i..<length fs] = []" by simp
      with Some False show ?thesis unfolding fold_fields_def e by (simp add: nx)
    qed
  qed
qed simp

text \<open>
  The fields that are compared, from field \<open>i\<close> on, when the search ends at \<open>start\<close>.
\<close>

definition searched :: "pb_msg_field list \<Rightarrow> nat \<Rightarrow> nat \<Rightarrow> nat list" where
  "searched fs start i = (if start \<le> i then [i..<length fs] @ [0..<start] else [i..<start])"

lemma searched_step:
  assumes "i < length fs" "start < length fs"
  defines "k \<equiv> (if Suc i < length fs then Suc i else 0)"
  shows "searched fs start i = i # (if k = start then [] else searched fs start k)"
proof (cases "start \<le> i")
  case True
  have e: "[i..<length fs] = i # [Suc i..<length fs]" using assms(1) by (rule upt_conv_Cons)
  show ?thesis
  proof (cases "Suc i < length fs")
    case f: False
    then have "[Suc i..<length fs] = []" by simp
    with f True e show ?thesis by (simp add: searched_def k_def)
  qed (use True e in \<open>simp add: searched_def k_def\<close>)
next
  case False
  then have "[i..<start] = i # [Suc i..<start]" by (intro upt_conv_Cons) simp
  moreover have "Suc i < length fs" using False assms(2) by simp
  moreover have "[Suc i..<start] = []" if "Suc i = start" using that by simp
  ultimately show ?thesis using False by (simp add: searched_def k_def)
qed

lemma iter_search_at:
  assumes "fields_ok fs" "i < length fs" "start < length fs" "length (searched fs start i) \<le> n"
  shows "iter_search n wanted start (iter_at fs dest i) =
    (case find (\<lambda>j. wanted (fs ! j)) (searched fs start i) of
       Some j \<Rightarrow> (True, iter_at fs dest j) | None \<Rightarrow> (False, iter_at fs dest start))"
  using assms(2,4)
proof (induction n arbitrary: i)
  case 0
  then show ?case using searched_step [OF 0(1) assms(3)] by simp
next
  case (Suc n)
  define k where "k = (if Suc i < length fs then Suc i else 0)"
  have nx: "pb_field_iter_next (iter_at fs dest i) = (Suc i < length fs, iter_at fs dest k)"
    unfolding k_def using assms(1) Suc.prems(1) by (rule iter_next_at)
  have k: "k < length fs" using Suc.prems(1) by (auto simp: k_def)
  have pos: "it_pos (iter_at fs dest k) = k" using assms(1) k by (rule iter_at_simps)
  have e: "searched fs start i = i # (if k = start then [] else searched fs start k)"
    unfolding k_def by (rule searched_step [OF Suc.prems(1) assms(3)])
  have f: "it_field (iter_at fs dest i) = fs ! i" using assms(1) Suc.prems(1) by simp
  consider "wanted (fs ! i)" | "\<not> wanted (fs ! i)" "k = start" | "\<not> wanted (fs ! i)" "k \<noteq> start" by blast
  then show ?case
  proof cases
    case 1
    then show ?thesis unfolding e by (simp add: f)
  next
    case 2
    then show ?thesis using pos unfolding e by (simp add: f nx Let_def)
  next
    case 3
    then have "length (searched fs start k) \<le> n" using Suc.prems(2) unfolding e by simp
    from Suc.IH [OF k this] 3 show ?thesis unfolding e by (simp add: f nx pos Let_def)
  qed
qed

lemma iter_search_all:
  assumes "fields_ok fs" "i < length fs"
  shows "iter_search (Suc (length fs)) wanted i (iter_at fs dest i) =
    (case find (\<lambda>j. wanted (fs ! j)) ([i..<length fs] @ [0..<i]) of
       Some j \<Rightarrow> (True, iter_at fs dest j) | None \<Rightarrow> (False, iter_at fs dest i))"
  using iter_search_at [OF assms(1,2,2), of "Suc (length fs)" wanted dest] assms(2)
  by (simp add: searched_def)

text \<open>
  C26. From any field of a message the iterator finds the first field, in cyclic order, that has
  the tag and is not the extension placeholder, with the pointers and the index it would have
  reached from the beginning; if there is none it comes back to where it started. The bound on
  its steps is never reached.
\<close>

theorem pb_field_iter_find_exact:
  assumes "fields_ok fs" "i < length fs"
  shows "pb_field_iter_find (iter_at fs dest i) tg =
    (case find (\<lambda>j. tag (fs ! j) = tg \<and> f_ltype (fs ! j) \<noteq> PB_LTYPE_EXTENSION) ([i..<length fs] @ [0..<i]) of
       Some j \<Rightarrow> (True, iter_at fs dest j) | None \<Rightarrow> (False, iter_at fs dest i))"
  using iter_search_all [OF assms, of "\<lambda>f. tag f = tg \<and> f_ltype f \<noteq> PB_LTYPE_EXTENSION" dest] assms
  by (simp add: pb_field_iter_find_def)

lemma pb_field_iter_find_exact_witness:
  "pb_field_iter_find (iter_at [PB_LAST_FIELD\<lparr>tag := 7\<rparr>, PB_LAST_FIELD\<lparr>tag := 9, data_size := 4\<rparr>] 100 1) 7 =
     (True, iter_at [PB_LAST_FIELD\<lparr>tag := 7\<rparr>, PB_LAST_FIELD\<lparr>tag := 9, data_size := 4\<rparr>] 100 0)"
proof -
  let ?fs = "[PB_LAST_FIELD\<lparr>tag := 7\<rparr>, PB_LAST_FIELD\<lparr>tag := 9, data_size := 4\<rparr>]"
  have "find (\<lambda>j. tag (?fs ! j) = 7 \<and> f_ltype (?fs ! j) \<noteq> PB_LTYPE_EXTENSION) ([1..<length ?fs] @ [0..<1]) = Some 0"
    by (simp add: PB_LAST_FIELD_def PB_LTYPE_def)
  then show ?thesis using pb_field_iter_find_exact [of ?fs 1 100 7] by (simp add: fields_ok_def)
qed

end
