(* ===== verification/Pb_Message.thy ===== *)
theory Pb_Message
  imports Pb_Iter "HOL-Library.Monad_Syntax"
begin

text \<open>
  Whole messages: \<open>pb_decode\<close> and what it calls for a field (static, pointer and callback
  fields, oneofs, extensions, default values, \<open>pb_release\<close>), in \<open>pb_decode.c\<close> as the
  target builds it, with \<open>PB_ENABLE_MALLOC\<close>. A function is \<open>None\<close> when the bound on the
  depth and the steps of its loops, its first argument, does not suffice.
\<close>

section \<open>What is not in the sources\<close>

text \<open>
  \<open>fields_at\<close>: the descriptors at an address. \<open>place\<close> and \<open>scribble\<close>: where
  \<open>pb_realloc\<close> puts a block of a size, if it does, and what it finds there. \<open>call_decode\<close>:
  a caller's decoding function, by its address. \<open>ext_type_at\<close>: the \<open>pb_extension_type_t\<close> at
  an address. The functions are given the address of their \<open>arg\<close> or their extension.
\<close>

type_synonym 'i decode_result = "bool \<times> 'i pb_istream \<times> heap"

record 'i pb_ext_type =
  et_decode :: "('i pb_istream \<Rightarrow> addr \<Rightarrow> 32 word \<Rightarrow> 32 word \<Rightarrow> heap \<Rightarrow> 'i decode_result) option"
  et_arg :: "pb_msg_field list"

record 'i pb_env =
  fields_at :: "addr \<Rightarrow> pb_msg_field list"
  place :: "heap \<Rightarrow> nat \<Rightarrow> addr option"
  scribble :: "heap \<Rightarrow> nat \<Rightarrow> byte"
  call_decode :: "addr \<Rightarrow> 'i pb_istream \<Rightarrow> pb_msg_field \<Rightarrow> addr \<Rightarrow> heap \<Rightarrow> 'i decode_result"
  ext_type_at :: "addr \<Rightarrow> 'i pb_ext_type"


section \<open>Allocated memory\<close>

definition env_heap :: "'i pb_env \<Rightarrow> heap \<Rightarrow> heap_env" where
  "env_heap env h = \<lparr>malloc_ok = (\<lambda>n. place env h n \<noteq> None), junk = scribble env h\<rparr>"

text \<open>The contents of the block a pointer is to, \<open>None\<close> for a null pointer.\<close>

definition block_at :: "heap \<Rightarrow> addr \<Rightarrow> byte list option" where
  "block_at h p =
     (if p = 0 then None
      else Some (case hp_live h p of None \<Rightarrow> [] | Some n \<Rightarrow> hp_load h p n))"

text \<open>
  What a successful \<open>pb_realloc\<close> and the store of its result do: the block of the pointer at
  \<open>pData\<close> is gone, the block \<open>m\<close> is where the allocator put it.
\<close>

definition install_block :: "'i pb_env \<Rightarrow> heap \<Rightarrow> addr \<Rightarrow> byte list \<Rightarrow> heap" where
  "install_block env h pData m =
     (let p = load_ptr h pData;
          a = (case place env h (length m) of None \<Rightarrow> 0 | Some a \<Rightarrow> a);
          h1 = (if p \<noteq> 0 \<and> hp_live h p = None then fault h else h)
      in store_ptr (hp_store (h1\<lparr>hp_live := (hp_live h)(p := None, a \<mapsto> length m)\<rparr>) a m) pData a)"

definition allocate_field_at ::
  "'i pb_env \<Rightarrow> 'i pb_istream \<Rightarrow> addr \<Rightarrow> nat \<Rightarrow> nat \<Rightarrow> heap \<Rightarrow> 'i decode_result" where
  "allocate_field_at env st pData dsize asize h =
     (case allocate_field (env_heap env h) st (block_at h (load_ptr h pData)) dsize asize of
        (True, Some m, st') \<Rightarrow> (True, st', install_block env h pData m)
      | (_, _, st') \<Rightarrow> (False, st', h))"

definition pb_free :: "heap \<Rightarrow> addr \<Rightarrow> heap" where
  "pb_free h p =
     (if p = 0 then h
      else case hp_live h p of None \<Rightarrow> fault h | Some _ \<Rightarrow> h\<lparr>hp_live := (hp_live h)(p := None)\<rparr>)"

text \<open>\<open>*size\<close> for \<open>pSize\<close>.\<close>

definition it_load_size :: "heap \<Rightarrow> pb_field_iter \<Rightarrow> nat" where
  "it_load_size h it = (case it_pSize it of At a \<Rightarrow> load_size h a | Fixed_count n \<Rightarrow> n)"

definition it_store_size :: "nat \<Rightarrow> pb_field_iter \<times> heap \<Rightarrow> pb_field_iter \<times> heap" where
  "it_store_size n s =
     (case it_pSize (fst s) of
        At a \<Rightarrow> (fst s, store_size (snd s) a n)
      | Fixed_count _ \<Rightarrow> ((fst s)\<lparr>it_pSize := Fixed_count (n mod 2 ^ 32)\<rparr>, snd s))"


section \<open>Extensions\<close>

text \<open>A \<open>pb_extension_t\<close> holds \<open>type\<close>, \<open>dest\<close>, \<open>next\<close> and \<open>found\<close>.\<close>

abbreviation "EXT_DEST \<equiv> 8 :: nat"
abbreviation "EXT_NEXT \<equiv> 16 :: nat"
abbreviation "EXT_FOUND \<equiv> 24 :: nat"

definition iter_from_extension :: "'i pb_env \<Rightarrow> heap \<Rightarrow> addr \<Rightarrow> pb_field_iter" where
  "iter_from_extension env h ext =
     (let fs = et_arg (ext_type_at env (load_ptr h ext));
          dest = load_ptr h (ext + EXT_DEST)
      in (snd (pb_field_iter_begin fs dest))
           \<lparr>it_pData := (if f_atype (field_at fs 0) = PB_ATYPE_POINTER then ext + EXT_DEST else dest),
            it_pSize := At (ext + EXT_FOUND)\<rparr>)"


text \<open>The loop over a list of extensions. The first argument bounds its length.\<close>

fun ext_loop :: "nat \<Rightarrow> (addr \<Rightarrow> heap \<Rightarrow> heap option) \<Rightarrow> addr \<Rightarrow> heap \<Rightarrow> heap option" where
  "ext_loop 0 body ext h = None"
| "ext_loop (Suc n) body ext h =
     (if ext = 0 then Some h
      else case body ext h of
        None \<Rightarrow> None
      | Some h1 \<Rightarrow> ext_loop n body (load_ptr h1 (ext + EXT_NEXT)) h1)"


section \<open>Default values\<close>

text \<open>
  The functions that walk over messages recursively are given the function for the fields of the
  level below as \<open>field_fn\<close>.
\<close>

definition message_defaults_with ::
  "(pb_field_iter \<Rightarrow> heap \<Rightarrow> heap option) \<Rightarrow> pb_msg_field list \<Rightarrow> addr \<Rightarrow> heap \<Rightarrow> heap option" where
  "message_defaults_with field_fn fs dest h =
     (case pb_field_iter_begin fs dest of
        (False, _) \<Rightarrow> Some h
      | (True, it) \<Rightarrow> fields_loop (Suc (length fs)) field_fn it h)"

definition field_default_with ::
  "nat \<Rightarrow> 'i pb_env \<Rightarrow> (pb_field_iter \<Rightarrow> heap \<Rightarrow> heap option) \<Rightarrow> pb_field_iter \<Rightarrow> heap \<Rightarrow> heap option" where
  "field_default_with n env field_fn it h =
     (let f = it_field it in
      if f_ltype f = PB_LTYPE_EXTENSION
      then ext_loop n (\<lambda>ext h. let h1 = store_bool h (ext + EXT_FOUND) False
                               in field_fn (iter_from_extension env h1 ext) h1)
             (load_ptr h (it_pData it)) h
      else if f_atype f = PB_ATYPE_STATIC
      then let opt = (f_htype f = PB_HTYPE_OPTIONAL \<and> it_pSize it \<noteq> At (it_pData it));
               cnt = (f_htype f = PB_HTYPE_REPEATED \<or> f_htype f = PB_HTYPE_ONEOF);
               h1 = (case it_pSize it of
                       At a \<Rightarrow> if opt then store_bool h a False else if cnt then store_size h a 0 else h
                     | Fixed_count _ \<Rightarrow> h)
           in if cnt then Some h1
              else if f_ltype f = PB_LTYPE_SUBMESSAGE
              then message_defaults_with field_fn (fields_at env (fptr f)) (it_pData it) h1
              else if fptr f \<noteq> 0
              then Some (hp_store h1 (it_pData it) (hp_load h1 (fptr f) (data_size f)))
              else Some (hp_store h1 (it_pData it) (replicate (data_size f) 0))
      else if f_atype f = PB_ATYPE_POINTER
      then let h1 = store_ptr h (it_pData it) 0
           in if f_htype f = PB_HTYPE_REPEATED \<or> f_htype f = PB_HTYPE_ONEOF
              then Some (snd (it_store_size 0 (it, h1))) else Some h1
      else Some h)"

primrec pb_field_set_to_default :: "nat \<Rightarrow> 'i pb_env \<Rightarrow> pb_field_iter \<Rightarrow> heap \<Rightarrow> heap option" where
  "pb_field_set_to_default 0 env it h = None"
| "pb_field_set_to_default (Suc n) env it h = field_default_with n env (pb_field_set_to_default n env) it h"

definition pb_message_set_to_defaults ::
  "nat \<Rightarrow> 'i pb_env \<Rightarrow> pb_msg_field list \<Rightarrow> addr \<Rightarrow> heap \<Rightarrow> heap option" where
  "pb_message_set_to_defaults n env = message_defaults_with (pb_field_set_to_default n env)"


section \<open>Release\<close>

text \<open>The entries of a repeated string or bytes array; the array may be a null pointer.\<close>

fun free_items :: "nat \<Rightarrow> addr \<Rightarrow> heap \<Rightarrow> heap" where
  "free_items 0 p h = h"
| "free_items (Suc k) p h =
     (let h1 = (if p = 0 then fault h else h)
      in free_items k (p + 8) (store_ptr (pb_free h1 (load_ptr h1 p)) p 0))"

fun release_items :: "(addr \<Rightarrow> heap \<Rightarrow> heap option) \<Rightarrow> nat \<Rightarrow> nat \<Rightarrow> addr \<Rightarrow> heap \<Rightarrow> heap option" where
  "release_items release dsize 0 pItem h = Some h"
| "release_items release dsize (Suc k) pItem h =
     (case release pItem h of
        None \<Rightarrow> None
      | Some h1 \<Rightarrow> release_items release dsize k (pItem + dsize) h1)"

definition release_with ::
  "(pb_field_iter \<Rightarrow> heap \<Rightarrow> heap option) \<Rightarrow> pb_msg_field list \<Rightarrow> addr \<Rightarrow> heap \<Rightarrow> heap option" where
  "release_with field_fn fs dest h =
     (if dest = 0 then Some h
      else case pb_field_iter_begin fs dest of
        (False, _) \<Rightarrow> Some h
      | (True, it) \<Rightarrow> fields_loop (Suc (length fs)) field_fn it h)"

text \<open>The number of items of a submessage field.\<close>

definition release_count :: "pb_field_iter \<Rightarrow> heap \<Rightarrow> nat" where
  "release_count it h =
     (let f = it_field it in
      if f_htype f = PB_HTYPE_REPEATED
      then let c = (if f_atype f = PB_ATYPE_STATIC \<and> it_pSize it = At (it_pData it) then array_size f
                    else it_load_size h it)
           in if f_atype f = PB_ATYPE_STATIC \<and> c > array_size f then array_size f else c
      else 1)"

definition release_contents ::
  "nat \<Rightarrow> 'i pb_env \<Rightarrow> (pb_field_iter \<Rightarrow> heap \<Rightarrow> heap option) \<Rightarrow> pb_field_iter \<Rightarrow> heap \<Rightarrow> heap option" where
  "release_contents n env field_fn it h =
     (let f = it_field it in
      if f_ltype f = PB_LTYPE_EXTENSION
      then ext_loop n (\<lambda>ext h. field_fn (iter_from_extension env h ext) h) (load_ptr h (it_pData it)) h
      else if f_ltype f = PB_LTYPE_SUBMESSAGE
      then let pItem = (if f_atype f = PB_ATYPE_POINTER then load_ptr h (it_pData it) else it_pData it)
           in if pItem \<noteq> 0
              then release_items (release_with field_fn (fields_at env (fptr f))) (data_size f)
                     (release_count it h) pItem h
              else Some h
      else Some h)"

definition release_pointer :: "pb_field_iter \<Rightarrow> heap \<Rightarrow> heap" where
  "release_pointer it h =
     (let f = it_field it;
          h2 = (if f_htype f = PB_HTYPE_REPEATED \<and> (f_ltype f = PB_LTYPE_STRING \<or> f_ltype f = PB_LTYPE_BYTES)
                then free_items (it_load_size h it) (load_ptr h (it_pData it)) h else h);
          h3 = (if f_htype f = PB_HTYPE_REPEATED then snd (it_store_size 0 (it, h2)) else h2)
      in store_ptr (pb_free h3 (load_ptr h3 (it_pData it))) (it_pData it) 0)"

primrec pb_release_single_field :: "nat \<Rightarrow> 'i pb_env \<Rightarrow> pb_field_iter \<Rightarrow> heap \<Rightarrow> heap option" where
  "pb_release_single_field 0 env it h = None"
| "pb_release_single_field (Suc n) env it h =
     (let f = it_field it in
      if f_htype f = PB_HTYPE_ONEOF \<and> it_load_size h it \<noteq> unat (tag f) then Some h
      else case release_contents n env (pb_release_single_field n env) it h of
        None \<Rightarrow> None
      | Some h1 \<Rightarrow> Some (if f_atype f = PB_ATYPE_POINTER then release_pointer it h1 else h1))"

definition pb_release :: "nat \<Rightarrow> 'i pb_env \<Rightarrow> pb_msg_field list \<Rightarrow> addr \<Rightarrow> heap \<Rightarrow> heap option" where
  "pb_release n env = release_with (pb_release_single_field n env)"

text \<open>
  \<open>pb_release_union_field\<close>: success, the stream and the iterator, which is moved to the old
  field and back.
\<close>

definition pb_release_union_field ::
  "nat \<Rightarrow> 'i pb_env \<Rightarrow> 'i pb_istream \<Rightarrow> pb_field_iter \<Rightarrow> heap \<Rightarrow>
     (bool \<times> 'i pb_istream \<times> pb_field_iter \<times> heap) option" where
  "pb_release_union_field n env st it h =
     (let old_tag = it_load_size h it;
          new_tag = tag (it_field it)
      in if old_tag = 0 \<or> old_tag = unat new_tag then Some (True, st, it, h)
         else case pb_field_iter_find it (word_of_nat old_tag) of
           (False, it1) \<Rightarrow> Some (False, is_set_error ''invalid union tag'' st, it1, h)
         | (True, it1) \<Rightarrow>
             (case pb_release_single_field n env it1 h of
                None \<Rightarrow> None
              | Some h1 \<Rightarrow>
                  (case pb_field_iter_find it1 new_tag of
                     (False, it2) \<Rightarrow> Some (False, is_set_error ''iterator error'' st, it2, h1)
                   | (True, it2) \<Rightarrow> Some (True, st, it2, h1))))"



section \<open>Decoding a value\<close>

text \<open>The destination of a bytes or string field.\<close>

definition dec_string_at ::
  "('i pb_istream \<Rightarrow> pb_field \<Rightarrow> pb_dest \<Rightarrow> bool \<times> pb_stored \<times> 'i pb_istream) \<Rightarrow>
     'i pb_env \<Rightarrow> 'i pb_istream \<Rightarrow> pb_msg_field \<Rightarrow> addr \<Rightarrow> heap \<Rightarrow> 'i decode_result" where
  "dec_string_at func env st f dest h =
     (case func st (pb_field.truncate f)
             (if f_atype f = PB_ATYPE_POINTER then Pointer (block_at h (load_ptr h dest))
              else Inline (hp_load h dest (data_size f))) of
        (ok, Stored m, st') \<Rightarrow> (ok, st', hp_store h dest m)
      | (ok, Kept _, st') \<Rightarrow> (ok, st', h)
      | (ok, Block m, st') \<Rightarrow> (ok, st', install_block env h dest m))"

definition store_result :: "heap \<Rightarrow> addr \<Rightarrow> 'i dec_result \<Rightarrow> 'i decode_result" where
  "store_result h dest r =
     (case r of (ok, d, st') \<Rightarrow> (ok, st', case d of None \<Rightarrow> h | Some bs \<Rightarrow> hp_store h dest bs))"

type_synonym 'i noinit_fn =
  "'i pb_istream \<Rightarrow> pb_msg_field list \<Rightarrow> addr \<Rightarrow> heap \<Rightarrow> 'i decode_result option"

text \<open>\<open>pb_decode\<close>, given \<open>pb_decode_noinit\<close>.\<close>

definition decode_with ::
  "nat \<Rightarrow> 'i pb_env \<Rightarrow> 'i noinit_fn \<Rightarrow> 'i noinit_fn" where
  "decode_with n env noinit st fs dest h =
     do {
       h1 \<leftarrow> pb_message_set_to_defaults n env fs dest h;
       (status, st', h2) \<leftarrow> noinit st fs dest h1;
       if status then Some (True, st', h2)
       else do {
         h3 \<leftarrow> pb_release n env fs dest h2;
         Some (False, st', h3)
       }
     }"

definition pb_dec_submessage ::
  "nat \<Rightarrow> 'i pb_env \<Rightarrow> 'i noinit_fn \<Rightarrow> 'i pb_istream \<Rightarrow> pb_msg_field \<Rightarrow> addr \<Rightarrow> heap \<Rightarrow> 'i decode_result option" where
  "pb_dec_submessage n env noinit st f dest h =
     (case pb_make_string_substream st of
        (None, st1) \<Rightarrow> Some (False, st1, h)
      | (Some substream, st1) \<Rightarrow>
          if fptr f = 0 then Some (False, is_set_error ''invalid field descriptor'' st1, h)
          else do {
            (status, sub', h1) \<leftarrow>
              (if f_htype f = PB_HTYPE_REPEATED
               then decode_with n env noinit substream (fields_at env (fptr f)) dest h
               else noinit substream (fields_at env (fptr f)) dest h);
            case pb_close_string_substream st1 sub' of
              (False, st2) \<Rightarrow> Some (False, st2, h1)
            | (True, st2) \<Rightarrow> Some (status, st2, h1)
          })"

text \<open>
  A call of a row of \<open>PB_DECODERS\<close>. The row for extensions is a null pointer.
\<close>

definition call_decoder ::
  "nat \<Rightarrow> 'i pb_env \<Rightarrow> 'i noinit_fn \<Rightarrow> 'i pb_istream \<Rightarrow> pb_msg_field \<Rightarrow> addr \<Rightarrow> heap \<Rightarrow> 'i decode_result option" where
  "call_decoder n env noinit st f dest h =
     (let t = f_ltype f in
      if t \<le> PB_LTYPE_LAST_PACKABLE
      then Some (store_result h dest ((PB_DECODERS ! unat t) st (pb_field.truncate f)))
      else if t = PB_LTYPE_BYTES then Some (dec_string_at (pb_dec_bytes (env_heap env h)) env st f dest h)
      else if t = PB_LTYPE_STRING then Some (dec_string_at (pb_dec_string (env_heap env h)) env st f dest h)
      else if t = PB_LTYPE_SUBMESSAGE then pb_dec_submessage n env noinit st f dest h
      else if t = PB_LTYPE_FIXED_LENGTH_BYTES
      then Some (store_result h dest (pb_dec_fixed_length_bytes st (pb_field.truncate f)))
      else Some (False, st, fault h))"


section \<open>Decoding a field\<close>

fun store_items :: "heap \<Rightarrow> addr \<Rightarrow> nat \<Rightarrow> byte list option list \<Rightarrow> heap" where
  "store_items h a dsize [] = h"
| "store_items h a dsize (d # ds) =
     store_items (case d of None \<Rightarrow> h | Some bs \<Rightarrow> hp_store h a bs) (a + dsize) dsize ds"

text \<open>The functions for fields also give the iterator, which holds \<open>*pSize\<close> if that is a variable.\<close>

type_synonym 'i field_result = "(bool \<times> 'i pb_istream \<times> pb_field_iter \<times> heap) option"

definition with_iter :: "pb_field_iter \<Rightarrow> 'i decode_result option \<Rightarrow> 'i field_result" where
  "with_iter it r = map_option (\<lambda>(ok, st, h). (ok, st, it, h)) r"

definition decode_static_field ::
  "nat \<Rightarrow> 'i pb_env \<Rightarrow> 'i noinit_fn \<Rightarrow> 'i pb_istream \<Rightarrow> 32 word \<Rightarrow> pb_field_iter \<Rightarrow> heap \<Rightarrow> 'i field_result" where
  "decode_static_field n env noinit st wire_type it h =
     (let f = it_field it; pData = it_pData it in
      if f_htype f = PB_HTYPE_REQUIRED then with_iter it (call_decoder n env noinit st f pData h)
      else if f_htype f = PB_HTYPE_OPTIONAL
      then let h1 = (case it_pSize it of
                       At a \<Rightarrow> if a \<noteq> pData then store_bool h a True else h
                     | Fixed_count _ \<Rightarrow> h)
           in with_iter it (call_decoder n env noinit st f pData h1)
      else if f_htype f = PB_HTYPE_REPEATED
      then let size = it_load_size h it in
           if wire_type = PB_WT_STRING \<and> f_ltype f \<le> PB_LTYPE_LAST_PACKABLE
           then (case decode_packed (PB_DECODERS ! unat (f_ltype f)) st (pb_field.truncate f) size of
                   (status, size', items, st1) \<Rightarrow>
                     let h1 = store_items h (pData + data_size f * size) (data_size f) items;
                         (it2, h2) = it_store_size size' (it, h1)
                     in Some (status, st1, it2, h2))
           else let (it1, h1) = it_store_size (size + 1) (it, h) in
                if size \<ge> array_size f then Some (False, is_set_error ''array overflow'' st, it1, h1)
                else with_iter it1 (call_decoder n env noinit st f (pData + data_size f * size) h1)
      else let (it1, h1) = it_store_size (unat (tag f)) (it, h) in
           if f_ltype f = PB_LTYPE_SUBMESSAGE
           then do {
             h2 \<leftarrow> pb_message_set_to_defaults n env (fields_at env (fptr f)) pData
                     (hp_store h1 pData (replicate (data_size f) 0));
             with_iter it1 (call_decoder n env noinit st f pData h2)
           }
           else with_iter it1 (call_decoder n env noinit st f pData h1))"

definition initialize_pointer_field ::
  "nat \<Rightarrow> 'i pb_env \<Rightarrow> addr \<Rightarrow> pb_field_iter \<Rightarrow> heap \<Rightarrow> heap option" where
  "initialize_pointer_field n env pItem it h =
     (let f = it_field it in
      if f_ltype f = PB_LTYPE_STRING \<or> f_ltype f = PB_LTYPE_BYTES then Some (store_ptr h pItem 0)
      else if f_ltype f = PB_LTYPE_SUBMESSAGE
      then pb_message_set_to_defaults n env (fields_at env (fptr f)) pItem
             (hp_store h pItem (replicate (data_size f) 0))
      else Some h)"

text \<open>
  The loop over a packed array: \<open>allocated_size\<close> entries are there. Its result has the
  parent stream as well, whose message one of the errors sets.
\<close>

fun packed_pointer_loop ::
  "nat \<Rightarrow> 'i pb_env \<Rightarrow> 'i noinit_fn \<Rightarrow> 'i pb_istream \<Rightarrow> 'i pb_istream \<Rightarrow> nat \<Rightarrow> pb_field_iter \<Rightarrow> heap \<Rightarrow>
     (bool \<times> 'i pb_istream \<times> 'i pb_istream \<times> pb_field_iter \<times> heap) option" where
  "packed_pointer_loop 0 env noinit st sub allocated it h = None"
| "packed_pointer_loop (Suc n) env noinit st sub allocated it h =
     (if bytes_left sub = 0 then Some (True, st, sub, it, h)
      else let f = it_field it; size = it_load_size h it;
               grow = size + 1 > allocated;
               allocated' = (if grow then size_wrap (allocated + (bytes_left sub - 1) div data_size f + 1) else allocated);
               (ok, sub1, h1) = (if grow then allocate_field_at env sub (it_pData it) (data_size f) allocated' h
                                 else (True, sub, h))
      in if \<not> ok then Some (False, st, sub1, it, h1)
         else let pItem = load_ptr h1 (it_pData it) + data_size f * size in
         case initialize_pointer_field n env pItem it h1 of
           None \<Rightarrow> None
         | Some h2 \<Rightarrow>
             (case call_decoder n env noinit sub1 f pItem h2 of
                None \<Rightarrow> None
              | Some (False, sub2, h3) \<Rightarrow> Some (False, st, sub2, it, h3)
              | Some (True, sub2, h3) \<Rightarrow>
                  if it_load_size h3 it = PB_SIZE_MAX
                  then Some (False, st\<lparr>is_errmsg := Some ''too many array entries''\<rparr>, sub2, it, h3)
                  else let (it4, h4) = it_store_size (it_load_size h3 it + 1) (it, h3)
                       in packed_pointer_loop n env noinit st sub2 allocated' it4 h4))"

definition decode_pointer_field ::
  "nat \<Rightarrow> 'i pb_env \<Rightarrow> 'i noinit_fn \<Rightarrow> 'i pb_istream \<Rightarrow> 32 word \<Rightarrow> pb_field_iter \<Rightarrow> heap \<Rightarrow> 'i field_result" where
  "decode_pointer_field n env noinit st wire_type it h =
     (let f = it_field it; pData = it_pData it in
      if f_htype f \<noteq> PB_HTYPE_REPEATED
      then do {
        h1 \<leftarrow> (if f_ltype f = PB_LTYPE_SUBMESSAGE \<and> load_ptr h pData \<noteq> 0
                then pb_release_single_field n env it h else Some h);
        let (it2, h2) = (if f_htype f = PB_HTYPE_ONEOF then it_store_size (unat (tag f)) (it, h1) else (it, h1));
        if f_ltype f = PB_LTYPE_STRING \<or> f_ltype f = PB_LTYPE_BYTES
        then with_iter it2 (call_decoder n env noinit st f pData h2)
        else case allocate_field_at env st pData (data_size f) 1 h2 of
          (False, st3, h3) \<Rightarrow> Some (False, st3, it2, h3)
        | (True, st3, h3) \<Rightarrow> do {
            h4 \<leftarrow> initialize_pointer_field n env (load_ptr h3 pData) it2 h3;
            with_iter it2 (call_decoder n env noinit st3 f (load_ptr h4 pData) h4)
          }
      }
      else if wire_type = PB_WT_STRING \<and> f_ltype f \<le> PB_LTYPE_LAST_PACKABLE
      then (case pb_make_string_substream st of
              (None, st1) \<Rightarrow> Some (False, st1, it, h)
            | (Some substream, st1) \<Rightarrow> do {
                (status, st2, sub2, it2, h2) \<leftarrow>
                  packed_pointer_loop n env noinit st1 substream (it_load_size h it) it h;
                case pb_close_string_substream st2 sub2 of
                  (False, st3) \<Rightarrow> Some (False, st3, it2, h2)
                | (True, st3) \<Rightarrow> Some (status, st3, it2, h2)
              })
      else let size = it_load_size h it in
           if size = PB_SIZE_MAX then Some (False, is_set_error ''too many array entries'' st, it, h)
           else let (it1, h1) = it_store_size (size + 1) (it, h) in
           case allocate_field_at env st pData (data_size f) (size + 1) h1 of
             (False, st2, h2) \<Rightarrow> Some (False, st2, it1, h2)
           | (True, st2, h2) \<Rightarrow>
               (let pItem = load_ptr h2 pData + data_size f * size
                in do {
                  h3 \<leftarrow> initialize_pointer_field n env pItem it1 h2;
                  with_iter it1 (call_decoder n env noinit st2 f pItem h3)
                }))"

text \<open>The call of a decoding callback until it has read the substream.\<close>

fun callback_loop ::
  "nat \<Rightarrow> ('i pb_istream \<Rightarrow> heap \<Rightarrow> 'i decode_result) \<Rightarrow> 'i pb_istream \<Rightarrow> heap \<Rightarrow> 'i decode_result option" where
  "callback_loop 0 func sub h = None"
| "callback_loop (Suc n) func sub h =
     (case func sub h of
        (False, sub', h') \<Rightarrow> Some (False, sub', h')
      | (True, sub', h') \<Rightarrow> if bytes_left sub' \<noteq> 0 then callback_loop n func sub' h' else Some (True, sub', h'))"

text \<open>A \<open>pb_callback_t\<close> holds the function and \<open>arg\<close>.\<close>

definition decode_callback_field ::
  "nat \<Rightarrow> 'i pb_env \<Rightarrow> 'i pb_istream \<Rightarrow> 32 word \<Rightarrow> pb_field_iter \<Rightarrow> heap \<Rightarrow> 'i field_result" where
  "decode_callback_field n env st wire_type it h =
     (let pCallback = it_pData it; func = load_ptr h pCallback; f = it_field it in
      if pCallback = 0 \<or> func = 0
      then (case pb_skip_field st wire_type of (ok, st1) \<Rightarrow> Some (ok, st1, it, h))
      else if wire_type = PB_WT_STRING
      then (case pb_make_string_substream st of
              (None, st1) \<Rightarrow> Some (False, st1, it, h)
            | (Some substream, st1) \<Rightarrow> do {
                (ok, sub2, h2) \<leftarrow> callback_loop n (\<lambda>sub h. call_decode env func sub f (pCallback + 8) h) substream h;
                if \<not> ok then Some (False, is_set_error ''callback failed'' st1, it, h2)
                else case pb_close_string_substream st1 sub2 of (ok, st2) \<Rightarrow> Some (ok, st2, it, h2)
              })
      else case read_raw_value st wire_type 10 of
        (False, _, _, st1) \<Rightarrow> Some (False, st1, it, h)
      | (True, buffer, len, st1) \<Rightarrow>
          (case call_decode env func (pb_istream_from_buffer buffer len) f (pCallback + 8) h of
             (ok, _, h2) \<Rightarrow> Some (ok, st1, it, h2)))"

definition decode_field ::
  "nat \<Rightarrow> 'i pb_env \<Rightarrow> 'i noinit_fn \<Rightarrow> 'i pb_istream \<Rightarrow> 32 word \<Rightarrow> pb_field_iter \<Rightarrow> heap \<Rightarrow> 'i field_result" where
  "decode_field n env noinit st wire_type it h =
     do {
       (ok, st1, it1, h1) \<leftarrow> (if f_htype (it_field it) = PB_HTYPE_ONEOF then pb_release_union_field n env st it h
                              else Some (True, st, it, h));
       let t = f_atype (it_field it1);
       if \<not> ok then Some (False, st1, it1, h1)
       else if t = PB_ATYPE_STATIC then decode_static_field n env noinit st1 wire_type it1 h1
       else if t = PB_ATYPE_POINTER then decode_pointer_field n env noinit st1 wire_type it1 h1
       else if t = PB_ATYPE_CALLBACK then decode_callback_field n env st1 wire_type it1 h1
       else Some (False, is_set_error ''invalid field type'' st1, it1, h1)
     }"



section \<open>Extension fields\<close>

definition default_extension_decoder ::
  "nat \<Rightarrow> 'i pb_env \<Rightarrow> 'i noinit_fn \<Rightarrow> 'i pb_istream \<Rightarrow> addr \<Rightarrow> 32 word \<Rightarrow> 32 word \<Rightarrow> heap \<Rightarrow>
     'i decode_result option" where
  "default_extension_decoder n env noinit st ext tg wire_type h =
     (let field = field_at (et_arg (ext_type_at env (load_ptr h ext))) 0 in
      if tag field \<noteq> tg then Some (True, st, h)
      else do {
        (ok, st1, _, h1) \<leftarrow> decode_field n env noinit st wire_type (iter_from_extension env h ext)
                              (store_bool h (ext + EXT_FOUND) True);
        Some (ok, st1, h1)
      })"

fun decode_extension_loop ::
  "nat \<Rightarrow> nat \<Rightarrow> 'i pb_env \<Rightarrow> 'i noinit_fn \<Rightarrow> nat \<Rightarrow> 'i pb_istream \<Rightarrow> 32 word \<Rightarrow> 32 word \<Rightarrow> addr \<Rightarrow> heap \<Rightarrow>
     'i decode_result option" where
  "decode_extension_loop n 0 env noinit pos st tg wire_type ext h = None"
| "decode_extension_loop n (Suc k) env noinit pos st tg wire_type ext h =
     (if ext = 0 \<or> pos \<noteq> bytes_left st then Some (True, st, h)
      else case (case et_decode (ext_type_at env (load_ptr h ext)) of
                   Some func \<Rightarrow> Some (func st ext tg wire_type h)
                 | None \<Rightarrow> default_extension_decoder n env noinit st ext tg wire_type h) of
        None \<Rightarrow> None
      | Some (False, st1, h1) \<Rightarrow> Some (False, st1, h1)
      | Some (True, st1, h1) \<Rightarrow>
          decode_extension_loop n k env noinit pos st1 tg wire_type (load_ptr h1 (ext + EXT_NEXT)) h1)"

definition decode_extension ::
  "nat \<Rightarrow> 'i pb_env \<Rightarrow> 'i noinit_fn \<Rightarrow> 'i pb_istream \<Rightarrow> 32 word \<Rightarrow> 32 word \<Rightarrow> pb_field_iter \<Rightarrow> heap \<Rightarrow>
     'i decode_result option" where
  "decode_extension n env noinit st tg wire_type it h =
     decode_extension_loop n n env noinit (bytes_left st) st tg wire_type (load_ptr h (it_pData it)) h"


section \<open>Decoding a message\<close>

definition PB_MAX_REQUIRED_FIELDS :: nat where "PB_MAX_REQUIRED_FIELDS = 64"

text \<open>The variables of \<open>pb_decode_noinit\<close>.\<close>

record noinit_vars =
  nv_fields_seen :: "32 word list"
  nv_extension_range_start :: "32 word"
  nv_fixed_count_field :: "nat option"
  nv_fixed_count_size :: nat
  nv_iter :: pb_field_iter

definition noinit_init :: "pb_msg_field list \<Rightarrow> addr \<Rightarrow> noinit_vars" where
  "noinit_init fs dest =
     \<lparr>nv_fields_seen = [0, 0], nv_extension_range_start = 0, nv_fixed_count_field = None,
      nv_fixed_count_size = 0, nv_iter = snd (pb_field_iter_begin fs dest)\<rparr>"

text \<open>A field with an unknown tag: an extension, or skipped.\<close>

definition decode_unknown ::
  "nat \<Rightarrow> 'i pb_env \<Rightarrow> 'i noinit_fn \<Rightarrow> 'i pb_istream \<Rightarrow> 32 word \<Rightarrow> 32 word \<Rightarrow> noinit_vars \<Rightarrow> heap \<Rightarrow>
     (bool \<times> 'i pb_istream \<times> noinit_vars \<times> heap) option" where
  "decode_unknown n env noinit st tg wire_type v h =
     (let skip = (\<lambda>st v h. case pb_skip_field st wire_type of (ok, st') \<Rightarrow> Some (ok, st', v, h)) in
      if tg < nv_extension_range_start v then skip st v h
      else case find_extension_field (nv_iter v) of
        (found, it) \<Rightarrow>
          (let start = (if found then tag (it_field it) else - 1);
               v1 = v\<lparr>nv_iter := it, nv_extension_range_start := start\<rparr>
           in if tg < start then skip st v1 h
              else case decode_extension n env noinit st tg wire_type it h of
                None \<Rightarrow> None
              | Some (False, st1, h1) \<Rightarrow> Some (False, st1, v1, h1)
              | Some (True, st1, h1) \<Rightarrow>
                  if bytes_left st \<noteq> bytes_left st1 then Some (True, st1, v1, h1) else skip st1 v1 h1))"

text \<open>The size of a fixed count field that has ended.\<close>

definition fixed_count_wrong :: "noinit_vars \<Rightarrow> bool" where
  "fixed_count_wrong v =
     (case nv_fixed_count_field v of
        None \<Rightarrow> False
      | Some pos \<Rightarrow> nv_fixed_count_size v \<noteq> array_size (field_at (it_start (nv_iter v)) pos))"

definition decode_known ::
  "nat \<Rightarrow> 'i pb_env \<Rightarrow> 'i noinit_fn \<Rightarrow> 'i pb_istream \<Rightarrow> 32 word \<Rightarrow> noinit_vars \<Rightarrow> heap \<Rightarrow>
     (bool \<times> 'i pb_istream \<times> noinit_vars \<times> heap) option" where
  "decode_known n env noinit st wire_type v h =
     (let it = nv_iter v; f = it_field it;
          fixed = (f_htype f = PB_HTYPE_REPEATED \<and> it_pSize it = At (it_pData it));
          other = (nv_fixed_count_field v \<noteq> Some (it_pos it))
      in if fixed \<and> other \<and> fixed_count_wrong v
         then Some (False, is_set_error ''wrong size for fixed count field'' st, v, h)
         else let v1 = (if fixed \<and> other
                        then v\<lparr>nv_fixed_count_field := Some (it_pos it), nv_fixed_count_size := 0\<rparr> else v);
                  it1 = (if fixed then it\<lparr>it_pSize := Fixed_count (nv_fixed_count_size v1)\<rparr> else it);
                  i = it_required_field_index it1;
                  seen = nv_fields_seen v1;
                  v2 = (if f_htype f = PB_HTYPE_REQUIRED \<and> i < PB_MAX_REQUIRED_FIELDS
                        then v1\<lparr>nv_fields_seen := seen[i div 32 := seen ! (i div 32) OR push_bit (i mod 32) 1]\<rparr> else v1)
              in case decode_field n env noinit st wire_type it1 h of
                None \<Rightarrow> None
              | Some (ok, st1, it2, h1) \<Rightarrow>
                  Some (ok, st1,
                        v2\<lparr>nv_iter := it2,
                           nv_fixed_count_size :=
                             (case it_pSize it2 of Fixed_count k \<Rightarrow> k | At _ \<Rightarrow> nv_fixed_count_size v2)\<rparr>, h1))"

fun noinit_loop ::
  "nat \<Rightarrow> nat \<Rightarrow> 'i pb_env \<Rightarrow> 'i noinit_fn \<Rightarrow> 'i pb_istream \<Rightarrow> noinit_vars \<Rightarrow> heap \<Rightarrow>
     (bool \<times> 'i pb_istream \<times> noinit_vars \<times> heap) option" where
  "noinit_loop n 0 env noinit st v h = None"
| "noinit_loop n (Suc k) env noinit st v h =
     (if bytes_left st = 0 then Some (True, st, v, h)
      else case pb_decode_tag st of
        (False, _, _, eof, st1) \<Rightarrow> Some (eof, st1, v, h)
      | (True, wire_type, tg, _, st1) \<Rightarrow>
          (case pb_field_iter_find (nv_iter v) tg of
             (found, it) \<Rightarrow>
               (case (if found then decode_known n env noinit st1 wire_type (v\<lparr>nv_iter := it\<rparr>) h
                      else decode_unknown n env noinit st1 tg wire_type (v\<lparr>nv_iter := it\<rparr>) h) of
                  None \<Rightarrow> None
                | Some (False, st2, v2, h2) \<Rightarrow> Some (False, st2, v2, h2)
                | Some (True, st2, v2, h2) \<Rightarrow> noinit_loop n k env noinit st2 v2 h2)))"

text \<open>
  The number of required fields: the iterator is moved to the end. The loop gives the index and
  the type at the last field, and the iterator behind it.
\<close>

fun last_field_loop :: "nat \<Rightarrow> pb_field_iter \<Rightarrow> nat \<times> 8 word \<times> pb_field_iter" where
  "last_field_loop 0 it = (it_required_field_index it, ftype (it_field it), it)"
| "last_field_loop (Suc k) it =
     (case pb_field_iter_next it of
        (True, it') \<Rightarrow> last_field_loop k it'
      | (False, it') \<Rightarrow> (it_required_field_index it, ftype (it_field it), it'))"

definition required_count :: "pb_field_iter \<Rightarrow> nat" where
  "required_count it =
     (case last_field_loop (length (it_start it)) it of
        (req, last_type, it') \<Rightarrow>
          min PB_MAX_REQUIRED_FIELDS
            (if PB_HTYPE last_type = PB_HTYPE_REQUIRED \<and> tag (it_field it') \<noteq> 0 then req + 1 else req))"

definition required_seen :: "32 word list \<Rightarrow> nat \<Rightarrow> bool" where
  "required_seen seen req \<longleftrightarrow>
     (\<forall>i<req div 32. seen ! i = - 1) \<and>
     (req mod 32 \<noteq> 0 \<longrightarrow> seen ! (req div 32) = drop_bit (32 - req mod 32) (- 1))"

definition noinit_body ::
  "nat \<Rightarrow> 'i pb_env \<Rightarrow> 'i noinit_fn \<Rightarrow> 'i noinit_fn" where
  "noinit_body n env noinit st fs dest h =
     do {
       (ok, st1, v, h1) \<leftarrow> noinit_loop n n env noinit st (noinit_init fs dest) h;
       if \<not> ok then Some (False, st1, h1)
       else if fixed_count_wrong v then Some (False, is_set_error ''wrong size for fixed count field'' st1, h1)
       else if \<not> required_seen (nv_fields_seen v) (required_count (nv_iter v))
       then Some (False, is_set_error ''missing required field'' st1, h1)
       else Some (True, st1, h1)
     }"

primrec pb_decode_noinit :: "nat \<Rightarrow> 'i pb_env \<Rightarrow> 'i noinit_fn" where
  "pb_decode_noinit 0 env st fs dest h = None"
| "pb_decode_noinit (Suc n) env st fs dest h = noinit_body n env (pb_decode_noinit n env) st fs dest h"

definition pb_decode :: "nat \<Rightarrow> 'i pb_env \<Rightarrow> 'i noinit_fn" where
  "pb_decode n env = decode_with n env (pb_decode_noinit n env)"

text \<open>\<open>pb_decode_delimited_noinit\<close> and \<open>pb_decode_delimited\<close>.\<close>

definition decode_delimited_with :: "'i noinit_fn \<Rightarrow> 'i noinit_fn" where
  "decode_delimited_with dec st fs dest h =
     (case pb_make_string_substream st of
        (None, st1) \<Rightarrow> Some (False, st1, h)
      | (Some substream, st1) \<Rightarrow> do {
          (status, sub', h1) \<leftarrow> dec substream fs dest h;
          case pb_close_string_substream st1 sub' of
            (False, st2) \<Rightarrow> Some (False, st2, h1)
          | (True, st2) \<Rightarrow> Some (status, st2, h1)
        })"

definition pb_decode_delimited_noinit :: "nat \<Rightarrow> 'i pb_env \<Rightarrow> 'i noinit_fn" where
  "pb_decode_delimited_noinit n env = decode_delimited_with (pb_decode_noinit n env)"

definition pb_decode_delimited :: "nat \<Rightarrow> 'i pb_env \<Rightarrow> 'i noinit_fn" where
  "pb_decode_delimited n env = decode_delimited_with (pb_decode n env)"

definition pb_decode_nullterminated :: "nat \<Rightarrow> 'i pb_env \<Rightarrow> 'i noinit_fn" where
  "pb_decode_nullterminated n env = pb_decode n env"

end
