(* ===== verification/Pb_Msg_Encode.thy ===== *)
theory Pb_Msg_Encode
  imports Pb_Message
begin

text \<open>
  Encoding whole messages: \<open>pb_encode\<close> and what it calls for a field, in \<open>pb_encode.c\<close>.
  \<open>call_encode\<close> and the encoding function of an extension type are the caller's; the memory is
  only read. A message nested more deeply than the first argument of \<open>pb_encode\<close> fails.
\<close>

section \<open>Messages inside messages\<close>

record 'o pb_enc_ext_type =
  ee_encode :: "('o pb_ostream \<Rightarrow> addr \<Rightarrow> heap \<Rightarrow> bool \<times> 'o pb_ostream) option"
  ee_arg :: "pb_msg_field list"

record 'o pb_enc_env =
  enc_fields_at :: "addr \<Rightarrow> pb_msg_field list"
  call_encode :: "addr \<Rightarrow> 'o pb_ostream \<Rightarrow> pb_msg_field \<Rightarrow> addr \<Rightarrow> heap \<Rightarrow> bool \<times> 'o pb_ostream"
  enc_ext_type_at :: "addr \<Rightarrow> 'o pb_enc_ext_type"

text \<open>\<open>pb_encode\<close> for the messages of the level below.\<close>

type_synonym 'o encode_fn =
  "'o pb_ostream \<Rightarrow> pb_msg_field list \<Rightarrow> addr \<Rightarrow> heap \<Rightarrow> bool \<times> 'o pb_ostream"

text \<open>A field nested more deeply than the first argument is not found to be empty, so that its encoder is called, and fails.\<close>

primrec pb_check_proto3_default_value ::
  "nat \<Rightarrow> (addr \<Rightarrow> pb_msg_field list) \<Rightarrow> heap \<Rightarrow> pb_msg_field \<Rightarrow> addr \<Rightarrow> bool" where
  "pb_check_proto3_default_value 0 fields_of h f pData = False"
| "pb_check_proto3_default_value (Suc n) fields_of h f pData =
     (let pSize = size_addr pData f;
          zero = (\<forall>b\<in>set (hp_load h pData (data_size f)). b = 0)
      in if f_htype f = PB_HTYPE_REQUIRED then False
         else if f_htype f = PB_HTYPE_REPEATED then load_size h pSize = 0
         else if f_htype f = PB_HTYPE_ONEOF then load_size h pSize = 0
         else if f_htype f = PB_HTYPE_OPTIONAL \<and> size_offset f \<noteq> 0 then \<not> load_bool h pSize
         else if f_atype f = PB_ATYPE_STATIC
         then if f_ltype f = PB_LTYPE_BYTES then load_size h pData = 0
              else if f_ltype f = PB_LTYPE_STRING then hp_mem h pData = 0
              else if f_ltype f = PB_LTYPE_FIXED_LENGTH_BYTES then data_size f = 0
              else if f_ltype f = PB_LTYPE_SUBMESSAGE
              then case pb_field_iter_begin (fields_of (fptr f)) pData of
                     (False, _) \<Rightarrow> True
                   | (True, it) \<Rightarrow>
                       fields_loop (Suc (length (fields_of (fptr f))))
                         (\<lambda>it _. if pb_check_proto3_default_value n fields_of h (it_field it) (it_pData it)
                                 then Some () else None) it () = Some ()
              else zero
         else zero)"

definition pb_encode_submessage ::
  "'o encode_fn \<Rightarrow> 'o pb_ostream \<Rightarrow> pb_msg_field list \<Rightarrow> addr \<Rightarrow> heap \<Rightarrow> bool \<times> 'o pb_ostream" where
  "pb_encode_submessage enc st fs src h =
     (case enc PB_OSTREAM_SIZING fs src h of
        (False, sub) \<Rightarrow> (False, st\<lparr>os_errmsg := os_errmsg sub\<rparr>)
      | (True, sub) \<Rightarrow>
          (let len = bytes_written sub in
           case pb_encode_varint st (word_of_nat len) of
             (False, st1) \<Rightarrow> (False, st1)
           | (True, st1) \<Rightarrow>
               if is_Sizing (sink st1) then pb_write_null st1 len
               else if size_wrap (bytes_written st1 + len) > max_size st1
               then (False, os_set_error ''stream full'' st1)
               else case enc \<lparr>sink = sink st1, max_size = len, bytes_written = 0, os_errmsg = None\<rparr> fs src h of
                 (status, sub1) \<Rightarrow>
                   let st2 = st1\<lparr>bytes_written := size_wrap (bytes_written st1 + bytes_written sub1),
                                 sink := sink sub1, os_errmsg := os_errmsg sub1\<rparr>
                   in if bytes_written sub1 \<noteq> len then (False, os_set_error ''submsg size changed'' st2)
                      else (status, st2)))"

definition pb_enc_submessage ::
  "'o pb_enc_env \<Rightarrow> 'o encode_fn \<Rightarrow> 'o pb_ostream \<Rightarrow> pb_msg_field \<Rightarrow> addr \<Rightarrow> heap \<Rightarrow> bool \<times> 'o pb_ostream" where
  "pb_enc_submessage env enc st f src h =
     (if fptr f = 0 then (False, os_set_error ''invalid field descriptor'' st)
      else pb_encode_submessage enc st (enc_fields_at env (fptr f)) src h)"

text \<open>
  The memory behind a source pointer, as far as the encoders look at it: the array of a bytes
  field, a string up to its terminator, wherever in memory that is, or the value. The scan ends if there is
  a terminator anywhere; nothing is read if there is none.
\<close>

partial_function (option) str_end :: "heap \<Rightarrow> addr \<Rightarrow> nat option" where
  "str_end h p = (if hp_mem h p = 0 then Some 0 else Option.bind (str_end h (p + 1)) (\<lambda>n. Some (Suc n)))"

definition src_length :: "heap \<Rightarrow> pb_msg_field \<Rightarrow> addr \<Rightarrow> nat" where
  "src_length h f p =
     (if f_ltype f = PB_LTYPE_BYTES then 4 + load_size h p
      else if f_ltype f = PB_LTYPE_STRING \<and> f_atype f = PB_ATYPE_POINTER
      then (case str_end h p of None \<Rightarrow> 0 | Some n \<Rightarrow> Suc n)
      else if f_ltype f = PB_LTYPE_FIXED32 then 4
      else if f_ltype f = PB_LTYPE_FIXED64 then 8
      else data_size f)"

definition src_view :: "heap \<Rightarrow> pb_msg_field \<Rightarrow> addr \<Rightarrow> byte list option" where
  "src_view h f p = (if p = 0 then None else Some (hp_load h p (src_length h f p)))"

text \<open>A call of a row of \<open>PB_ENCODERS\<close>; the row for extensions is a null pointer.\<close>

definition call_encoder ::
  "'o pb_enc_env \<Rightarrow> 'o encode_fn \<Rightarrow> heap \<Rightarrow> 'o pb_ostream \<Rightarrow> pb_msg_field \<Rightarrow> addr \<Rightarrow> bool \<times> 'o pb_ostream" where
  "call_encoder env enc h st f src =
     (if f_ltype f = PB_LTYPE_SUBMESSAGE then pb_enc_submessage env enc st f src h
      else if f_ltype f \<le> PB_LTYPE_FIXED_LENGTH_BYTES
      then case PB_ENCODERS (\<lambda>st _ _. (False, st)) ! unat (f_ltype f) of
             Some func \<Rightarrow> func st (pb_field.truncate f) (src_view h f src)
           | None \<Rightarrow> (False, st)
      else (False, st))"

text \<open>What \<open>encode_array\<close> gives the encoder for each entry.\<close>

definition array_items :: "heap \<Rightarrow> pb_msg_field \<Rightarrow> addr \<Rightarrow> nat \<Rightarrow> addr list" where
  "array_items h f pData n =
     map (\<lambda>i. let p = pData + data_size f * i
              in if f_atype f = PB_ATYPE_POINTER \<and> (f_ltype f = PB_LTYPE_STRING \<or> f_ltype f = PB_LTYPE_BYTES)
                 then load_ptr h p else p) [0..<n]"

definition encode_basic_field ::
  "nat \<Rightarrow> 'o pb_enc_env \<Rightarrow> 'o encode_fn \<Rightarrow> 'o pb_ostream \<Rightarrow> pb_msg_field \<Rightarrow> addr \<Rightarrow> heap \<Rightarrow> bool \<times> 'o pb_ostream" where
  "encode_basic_field n env enc st f pData h =
     (let pSize = size_addr pData f;
          src = (if f_atype f = PB_ATYPE_POINTER then load_ptr h pData else pData);
          implicit_has = (if f_atype f = PB_ATYPE_POINTER then src \<noteq> 0
                          else if f_htype f = PB_HTYPE_OPTIONAL
                          then \<not> pb_check_proto3_default_value n (enc_fields_at env) h f pData
                          else True);
          tagged = (case pb_encode_tag_for_field st (pb_field.truncate f) of
                      (False, st1) \<Rightarrow> (False, st1)
                    | (True, st1) \<Rightarrow> call_encoder env enc h st1 f src)
      in if f_htype f = PB_HTYPE_REQUIRED
         then if src = 0 then (False, os_set_error ''missing required field'' st) else tagged
         else if f_htype f = PB_HTYPE_OPTIONAL
         then if (if size_offset f \<noteq> 0 then load_bool h pSize else implicit_has) then tagged else (True, st)
         else if f_htype f = PB_HTYPE_REPEATED
         then encode_array st (pb_field.truncate f)
                (array_items h f src (if size_offset f \<noteq> 0 then load_size h pSize else array_size f))
                (\<lambda>st _ p. call_encoder env enc h st f p)
         else if (if size_offset f \<noteq> 0 then load_size h pSize else of_bool implicit_has) = unat (tag f)
         then tagged else (True, st))"

definition encode_callback_field ::
  "'o pb_enc_env \<Rightarrow> 'o pb_ostream \<Rightarrow> pb_msg_field \<Rightarrow> addr \<Rightarrow> heap \<Rightarrow> bool \<times> 'o pb_ostream" where
  "encode_callback_field env st f pData h =
     (let func = load_ptr h pData in
      if func \<noteq> 0
      then case call_encode env func st f (pData + 8) h of
             (False, st1) \<Rightarrow> (False, os_set_error ''callback error'' st1)
           | (True, st1) \<Rightarrow> (True, st1)
      else (True, st))"

definition encode_field ::
  "nat \<Rightarrow> 'o pb_enc_env \<Rightarrow> 'o encode_fn \<Rightarrow> 'o pb_ostream \<Rightarrow> pb_msg_field \<Rightarrow> addr \<Rightarrow> heap \<Rightarrow> bool \<times> 'o pb_ostream" where
  "encode_field n env enc st f pData h =
     (if f_atype f = PB_ATYPE_STATIC \<or> f_atype f = PB_ATYPE_POINTER
      then encode_basic_field n env enc st f pData h
      else if f_atype f = PB_ATYPE_CALLBACK then encode_callback_field env st f pData h
      else (False, os_set_error ''invalid field type'' st))"

definition default_extension_encoder ::
  "nat \<Rightarrow> 'o pb_enc_env \<Rightarrow> 'o encode_fn \<Rightarrow> 'o pb_ostream \<Rightarrow> addr \<Rightarrow> heap \<Rightarrow> bool \<times> 'o pb_ostream" where
  "default_extension_encoder n env enc st ext h =
     (let f = field_at (ee_arg (enc_ext_type_at env (load_ptr h ext))) 0
      in encode_field n env enc st f
           (if f_atype f = PB_ATYPE_POINTER then ext + EXT_DEST else load_ptr h (ext + EXT_DEST)) h)"

fun encode_extension_field ::
  "nat \<Rightarrow> nat \<Rightarrow> 'o pb_enc_env \<Rightarrow> 'o encode_fn \<Rightarrow> 'o pb_ostream \<Rightarrow> addr \<Rightarrow> heap \<Rightarrow> bool \<times> 'o pb_ostream" where
  "encode_extension_field n 0 env enc st ext h = (False, st)"
| "encode_extension_field n (Suc k) env enc st ext h =
     (if ext = 0 then (True, st)
      else case (case ee_encode (enc_ext_type_at env (load_ptr h ext)) of
                   Some func \<Rightarrow> func st ext h
                 | None \<Rightarrow> default_extension_encoder n env enc st ext h) of
        (False, st1) \<Rightarrow> (False, st1)
      | (True, st1) \<Rightarrow> encode_extension_field n k env enc st1 (load_ptr h (ext + EXT_NEXT)) h)"

definition encode_any_field ::
  "nat \<Rightarrow> 'o pb_enc_env \<Rightarrow> 'o encode_fn \<Rightarrow> 'o pb_ostream \<Rightarrow> pb_field_iter \<Rightarrow> heap \<Rightarrow> bool \<times> 'o pb_ostream" where
  "encode_any_field n env enc st it h =
     (let f = it_field it in
      if f_ltype f = PB_LTYPE_EXTENSION
      then encode_extension_field n n env enc st (load_ptr h (it_pData it)) h
      else encode_field n env enc st f (it_pData it) h)"

definition encode_body :: "nat \<Rightarrow> 'o pb_enc_env \<Rightarrow> 'o encode_fn \<Rightarrow> 'o encode_fn" where
  "encode_body n env enc st fs src h =
     (case pb_field_iter_begin fs src of
        (False, _) \<Rightarrow> (True, st)
      | (True, it) \<Rightarrow>
          (case fields_loop (Suc (length fs))
                  (\<lambda>it (ok, st). Some (if ok then encode_any_field n env enc st it h else (False, st))) it (True, st) of
             None \<Rightarrow> (False, st)
           | Some r \<Rightarrow> r))"

primrec pb_encode :: "nat \<Rightarrow> 'o pb_enc_env \<Rightarrow> 'o encode_fn" where
  "pb_encode 0 env st fs src h = (False, st)"
| "pb_encode (Suc n) env st fs src h = encode_body n env (pb_encode n env) st fs src h"

definition pb_encode_delimited :: "nat \<Rightarrow> 'o pb_enc_env \<Rightarrow> 'o encode_fn" where
  "pb_encode_delimited n env = pb_encode_submessage (pb_encode n env)"

definition pb_encode_nullterminated :: "nat \<Rightarrow> 'o pb_enc_env \<Rightarrow> 'o encode_fn" where
  "pb_encode_nullterminated n env st fs src h =
     (case pb_encode n env st fs src h of
        (False, st1) \<Rightarrow> (False, st1)
      | (True, st1) \<Rightarrow> pb_write st1 [0])"

definition pb_get_encoded_size ::
  "nat \<Rightarrow> 'o pb_enc_env \<Rightarrow> pb_msg_field list \<Rightarrow> addr \<Rightarrow> heap \<Rightarrow> nat option" where
  "pb_get_encoded_size n env fs src h =
     (case pb_encode n env PB_OSTREAM_SIZING fs src h of
        (False, _) \<Rightarrow> None
      | (True, st) \<Rightarrow> Some (bytes_written st))"

end
