(* ===== verification/Pb_Msg_Values.thy ===== *)
theory Pb_Msg_Values
  imports Pb_Msg_Encode
begin

text \<open>
  What \<open>pb_encode\<close> and \<open>pb_decode_noinit\<close> do with the value of a static field: the memory a field
  owns, when two messages in memory hold the same values, what an encoder appends to its stream, and that
  the decoder stores the value again and nothing else. Whole messages are in \<open>Pb_Roundtrip\<close>.
\<close>



section \<open>Loads and stores\<close>

lemma length_hp_load [simp]: "length (hp_load h a n) = n"
  by (simp add: hp_load_def)

lemma hp_load_nth [simp]: "i < n \<Longrightarrow> hp_load h a n ! i = hp_mem h (a + i)"
  by (simp add: hp_load_def)

lemma hp_load_store_same [simp]: "length bs = n \<Longrightarrow> hp_load (hp_store h a bs) a n = bs"
  by (rule nth_equalityI) (simp_all add: hp_store_def)

lemma hp_mem_store_other: "x < a \<or> a + length bs \<le> x \<Longrightarrow> hp_mem (hp_store h a bs) x = hp_mem h x"
  by (auto simp: hp_store_def)

lemma hp_store_simps [simp]:
  "hp_live (hp_store h a bs) = hp_live h" "hp_fault (hp_store h a bs) = hp_fault h"
  by (simp_all add: hp_store_def)

text \<open>Memory that agrees outside a set of addresses, with the same blocks.\<close>

definition only :: "addr set \<Rightarrow> heap \<Rightarrow> heap \<Rightarrow> bool" where
  "only A h h' \<longleftrightarrow> (\<forall>x. x \<notin> A \<longrightarrow> hp_mem h' x = hp_mem h x) \<and> hp_live h' = hp_live h \<and> hp_fault h' = hp_fault h"

lemma only_refl [simp]: "only A h h"
  by (simp add: only_def)

lemma only_trans: "only A h h1 \<Longrightarrow> only B h1 h2 \<Longrightarrow> A \<subseteq> C \<Longrightarrow> B \<subseteq> C \<Longrightarrow> only C h h2"
  by (simp add: only_def subset_iff) metis

lemma only_mono: "only A h h1 \<Longrightarrow> A \<subseteq> C \<Longrightarrow> only C h h1"
  by (auto simp: only_def)

lemma only_store: "length bs = n \<Longrightarrow> only {a..<a + n} h (hp_store h a bs)"
  by (auto simp: only_def hp_mem_store_other)

lemma only_load: "only A h h' \<Longrightarrow> A \<inter> {a..<a + n} = {} \<Longrightarrow> hp_load h' a n = hp_load h a n"
  by (rule nth_equalityI) (auto simp: only_def disjoint_iff)

lemma only_load_size: "only A h h' \<Longrightarrow> A \<inter> {a..<a + 4} = {} \<Longrightarrow> load_size h' a = load_size h a"
  by (simp add: load_size_def only_load)

lemma only_load_bool: "only A h h' \<Longrightarrow> a \<notin> A \<Longrightarrow> load_bool h' a = load_bool h a"
  by (simp add: load_bool_def only_def)

lemma only_load_ptr: "only A h h' \<Longrightarrow> A \<inter> {a..<a + 8} = {} \<Longrightarrow> load_ptr h' a = load_ptr h a"
  by (simp add: load_ptr_def only_load)

lemma store_size_only: "only {a..<a + 4} h (store_size h a n)"
  unfolding store_size_def by (rule only_store) simp

lemma store_bool_only: "only {a} h (store_bool h a b)"
  using only_store [of "[if b then 1 else 0]" 1 a h] by (simp add: store_bool_def)

lemma store_ptr_only: "only {a..<a + 8} h (store_ptr h a p)"
  unfolding store_ptr_def by (rule only_store) simp

lemma load_store_size [simp]: "n < 2 ^ 32 \<Longrightarrow> load_size (store_size h a n) a = n"
  by (simp add: load_size_def store_size_def le_load_store unat_of_nat32)

lemma load_store_bool [simp]: "load_bool (store_bool h a b) a = b"
  by (simp add: load_bool_def store_bool_def hp_store_def)

lemma load_store_ptr [simp]: "p < 2 ^ 64 \<Longrightarrow> load_ptr (store_ptr h a p) a = p"
  by (simp add: load_ptr_def store_ptr_def le_load_store unat_of_nat64)


section \<open>What an encoder emits\<close>

text \<open>
  An action on output streams that appends \<open>bs\<close> to every stream that has room for them and no
  error message, and counts them on a sizing stream.
\<close>

definition emits :: "('o pb_ostream \<Rightarrow> bool \<times> 'o pb_ostream) \<Rightarrow> byte list \<Rightarrow> bool" where
  "emits act bs \<longleftrightarrow>
     (\<forall>st. ostream_ok st \<longrightarrow> os_errmsg st = None \<longrightarrow> length bs \<le> os_room st \<longrightarrow>
        act st = (True, os_append bs st)) \<and>
     (\<forall>st. sizing_ok st (length bs) \<longrightarrow> act st = (True, os_count (length bs) st))"

lemma emits_sizing: "emits act bs \<Longrightarrow> sizing_ok st (length bs) \<Longrightarrow> act st = (True, os_count (length bs) st)"
  by (simp add: emits_def)

lemma emits_buffer:
  "emits act bs \<Longrightarrow> ostream_ok st \<Longrightarrow> os_errmsg st = None \<Longrightarrow> length bs \<le> os_room st \<Longrightarrow> act st = (True, os_append bs st)"
  by (simp add: emits_def)

lemma os_append_Nil [simp]: "ostream_ok st \<Longrightarrow> os_append [] st = st"
  by (auto simp: os_append_def elim!: ostream_okE)

lemma os_errmsg_append [simp]: "os_errmsg (os_append bs st) = os_errmsg st"
  by (simp add: os_append_def)

lemma emits_nothing: "emits (\<lambda>st. (True, st)) []"
  by (simp add: emits_def)

lemma emits_write: "emits (\<lambda>st. pb_write st bs) bs"
  by (simp add: emits_def pb_write_fits pb_write_count)

lemma emits_cong: "(\<And>st. act st = act' st) \<Longrightarrow> emits act' bs \<Longrightarrow> emits act bs"
  by (simp add: emits_def)

lemma emits_seq:
  assumes "emits f as" "emits g bs"
  shows "emits (\<lambda>st. case f st of (False, st1) \<Rightarrow> (False, st1) | (True, st1) \<Rightarrow> g st1) (as @ bs)"
  using assms by (auto simp: emits_def os_append_append sizing_ok_def)

lemma emits_varint: "emits (\<lambda>st. pb_encode_varint st v) (pb_varint_buffer v)"
proof -
  have e: "pb_encode_varint st v = pb_write st (pb_varint_buffer v)" for st :: "'a pb_ostream"
    by (simp add: pb_encode_varint_def pb_varint_buffer_def)
  show ?thesis unfolding e by (rule emits_write)
qed

lemma emits_string: "emits (\<lambda>st. pb_encode_string st s) (string_bytes s)"
  unfolding pb_encode_string_def string_bytes_def by (intro emits_seq emits_varint emits_write)

lemma emits_tag: "emits (\<lambda>st. pb_encode_tag st wt n) (pb_varint_buffer (tag_word wt n))"
  unfolding pb_encode_tag_def tag_word_def by (rule emits_varint)

context item_codec
begin

lemma emits_item: "item_ok f m \<Longrightarrow> emits (\<lambda>st. enc st f (Some m)) (wire f m)"
  by (simp add: emits_def enc_buffer enc_sizing)

lemma emits_array:
  assumes "\<forall>m\<in>set ms. item_ok f m" "PB_LTYPE (ftype f) = ltype" "ms \<noteq> []"
    "PB_ATYPE (ftype f) = PB_ATYPE_POINTER \<or> length ms \<le> array_size f"
  shows "emits (\<lambda>st. encode_array st f (map Some ms) enc)
    (pb_varint_buffer (tag_word PB_WT_STRING (tag f)) @ string_bytes (wires f ms))"
proof -
  let ?t = "pb_varint_buffer (tag_word PB_WT_STRING (tag f))"
  let ?l = "pb_varint_buffer (word_of_nat (length (wires f ms)))"
  have sz: "encode_array st f (map Some ms) enc = (True, os_count (length (?t @ string_bytes (wires f ms))) st)"
    if "sizing_ok st (length (?t @ string_bytes (wires f ms)))" for st
  proof -
    have w: "length (wires f ms) < 2 ^ 64" using that by (simp add: sizing_ok_def string_bytes_def)
    have 1: "pb_encode_tag st PB_WT_STRING (tag f) = (True, os_count (length ?t) st)"
      by (rule emits_sizing [OF emits_tag]) (use that in \<open>simp add: sizing_ok_def\<close>)
    have 2: "pb_encode_varint (os_count (length ?t) st) (word_of_nat (length (wires f ms))) =
        (True, os_count (length ?l) (os_count (length ?t) st))"
      by (rule emits_sizing [OF emits_varint]) (use that in \<open>simp add: sizing_ok_def string_bytes_def\<close>)
    have "\<not> (PB_ATYPE (ftype f) \<noteq> PB_ATYPE_POINTER \<and> length (map Some ms) > array_size f)"
      using assms(4) by auto
    then show ?thesis
      using assms(2,3) that packable packed_size_wires [OF assms(1,2) w] 1 2
      by (simp add: encode_array_def sizing_ok_def string_bytes_def pb_write_null_def size_wrap_id os_count_def)
  qed
  show ?thesis
    unfolding emits_def using encode_array_packed [OF assms] sz by blast
qed

end


section \<open>Messages of static fields\<close>

text \<open>
  The addresses of a field's value and of its \<open>has_\<close> or count member, at \<open>p\<close>.
\<close>

abbreviation f_plain :: "pb_msg_field \<Rightarrow> pb_field" where "f_plain f \<equiv> pb_field.truncate f"

definition data_cells :: "pb_msg_field \<Rightarrow> addr \<Rightarrow> addr set" where
  "data_cells f p = {p..<p + data_size f * (if f_htype f = PB_HTYPE_REPEATED then array_size f else 1)}"

definition field_cells :: "pb_msg_field \<Rightarrow> addr \<Rightarrow> addr set" where
  "field_cells f p = data_cells f p \<union>
     (if f_htype f = PB_HTYPE_OPTIONAL then {size_addr p f}
      else if f_htype f = PB_HTYPE_REPEATED then {size_addr p f..<size_addr p f + 4} else {})"

definition p_at :: "pb_msg_field list \<Rightarrow> addr \<Rightarrow> nat \<Rightarrow> addr" where
  "p_at fs a i = it_pData (iter_at fs a i)"

text \<open>
  What is assumed of the descriptors: \<open>D\<close> gives those of submessages, \<open>M\<close> is the same property
  of a submessage's fields, address and size.
\<close>

definition val_type ::
  "(pb_msg_field list \<Rightarrow> addr \<Rightarrow> nat \<Rightarrow> bool) \<Rightarrow> (addr \<Rightarrow> pb_msg_field list) \<Rightarrow> pb_msg_field \<Rightarrow> addr \<Rightarrow> bool" where
  "val_type M D f q \<longleftrightarrow> data_size f < 2 ^ 32 \<and>
     (f_ltype f \<le> PB_LTYPE_LAST_PACKABLE \<or> f_ltype f = PB_LTYPE_BYTES \<or> f_ltype f = PB_LTYPE_STRING \<or>
      f_ltype f = PB_LTYPE_FIXED_LENGTH_BYTES \<and> 0 < data_size f \<or>
      f_ltype f = PB_LTYPE_SUBMESSAGE \<and> fptr f \<noteq> 0 \<and> M (D (fptr f)) q (data_size f))"

definition field_type ::
  "(pb_msg_field list \<Rightarrow> addr \<Rightarrow> nat \<Rightarrow> bool) \<Rightarrow> (addr \<Rightarrow> pb_msg_field list) \<Rightarrow> pb_msg_field \<Rightarrow> addr \<Rightarrow> bool" where
  "field_type M D f q \<longleftrightarrow> f_atype f = PB_ATYPE_STATIC \<and>
     (f_htype f = PB_HTYPE_REQUIRED \<and> val_type M D f q \<or>
      f_htype f = PB_HTYPE_OPTIONAL \<and> size_offset f \<noteq> 0 \<and> val_type M D f q \<and>
        size_addr q f \<noteq> q \<and> size_addr q f \<notin> data_cells f q \<or>
      f_htype f = PB_HTYPE_REPEATED \<and> size_offset f \<noteq> 0 \<and> f_ltype f \<le> PB_LTYPE_LAST_PACKABLE \<and>
        10 * array_size f < 2 ^ 32 \<and> size_addr q f \<noteq> q \<and>
        {size_addr q f..<size_addr q f + 4} \<inter> data_cells f q = {})"

primrec static_msg ::
  "nat \<Rightarrow> (addr \<Rightarrow> pb_msg_field list) \<Rightarrow> pb_msg_field list \<Rightarrow> addr \<Rightarrow> nat \<Rightarrow> bool" where
  "static_msg 0 D fs q sz \<longleftrightarrow> False"
| "static_msg (Suc n) D fs q sz \<longleftrightarrow>
     fields_ok fs \<and> distinct (map tag fs) \<and> (\<forall>f\<in>set fs. unat (tag f) < 2 ^ 29) \<and>
     (\<forall>i<length fs. field_type (static_msg n D) D (fs ! i) (p_at fs q i) \<and>
        field_cells (fs ! i) (p_at fs q i) \<subseteq> {q..<q + sz} \<and>
        (\<forall>j<i. field_cells (fs ! i) (p_at fs q i) \<inter> field_cells (fs ! j) (p_at fs q j) = {}))"

text \<open>What is assumed of the message that is encoded.\<close>

definition valid_val ::
  "(pb_msg_field list \<Rightarrow> addr \<Rightarrow> bool) \<Rightarrow> (addr \<Rightarrow> pb_msg_field list) \<Rightarrow> heap \<Rightarrow> pb_msg_field \<Rightarrow> addr \<Rightarrow> bool" where
  "valid_val V D h f p \<longleftrightarrow>
     (f_ltype f \<le> PB_LTYPE_LAST_PACKABLE \<longrightarrow> scalar_item (unat (f_ltype f)) (f_plain f) (hp_load h p (data_size f))) \<and>
     (f_ltype f = PB_LTYPE_BYTES \<longrightarrow> 4 + load_size h p \<le> data_size f) \<and>
     (f_ltype f = PB_LTYPE_STRING \<longrightarrow> 0 \<in> set (hp_load h p (data_size f))) \<and>
     (f_ltype f = PB_LTYPE_SUBMESSAGE \<longrightarrow> V (D (fptr f)) p)"

definition valid_field ::
  "(pb_msg_field list \<Rightarrow> addr \<Rightarrow> bool) \<Rightarrow> (addr \<Rightarrow> pb_msg_field list) \<Rightarrow> heap \<Rightarrow> pb_msg_field \<Rightarrow> addr \<Rightarrow> bool" where
  "valid_field V D h f p \<longleftrightarrow>
     (if f_htype f = PB_HTYPE_REPEATED
      then load_size h (size_addr p f) \<le> array_size f \<and>
           (\<forall>k<load_size h (size_addr p f).
              scalar_item (unat (f_ltype f)) (f_plain f) (hp_load h (p + data_size f * k) (data_size f)))
      else f_htype f = PB_HTYPE_OPTIONAL \<and> \<not> load_bool h (size_addr p f) \<or> valid_val V D h f p)"

primrec valid_msg :: "nat \<Rightarrow> (addr \<Rightarrow> pb_msg_field list) \<Rightarrow> heap \<Rightarrow> pb_msg_field list \<Rightarrow> addr \<Rightarrow> bool" where
  "valid_msg 0 D h fs p \<longleftrightarrow> False"
| "valid_msg (Suc n) D h fs p \<longleftrightarrow>
     p \<noteq> 0 \<and> (\<forall>i<length fs. valid_field (valid_msg n D h) D h (fs ! i) (p_at fs p i))"

text \<open>
  When the message at \<open>q\<close> in \<open>h'\<close> is the message at \<open>p\<close> in \<open>h\<close>: the same optional fields are
  present, arrays have the same number of entries, and the values are the same, up to what is behind
  the bytes of a byte string and behind the terminator of a string.
\<close>

definition c_str :: "byte list \<Rightarrow> byte list" where
  "c_str m = takeWhile (\<lambda>c. c \<noteq> 0) m"

definition same_val ::
  "(pb_msg_field list \<Rightarrow> addr \<Rightarrow> addr \<Rightarrow> bool) \<Rightarrow> (addr \<Rightarrow> pb_msg_field list) \<Rightarrow> heap \<Rightarrow> heap \<Rightarrow> pb_msg_field \<Rightarrow>
     addr \<Rightarrow> addr \<Rightarrow> bool" where
  "same_val S D h h' f p q \<longleftrightarrow>
     (if f_ltype f = PB_LTYPE_BYTES
      then load_size h' q = load_size h p \<and>
           hp_load h' (q + 4) (load_size h p) = hp_load h (p + 4) (load_size h p)
      else if f_ltype f = PB_LTYPE_STRING
      then c_str (hp_load h' q (data_size f)) = c_str (hp_load h p (data_size f)) \<and>
           0 \<in> set (hp_load h' q (data_size f))
      else if f_ltype f = PB_LTYPE_SUBMESSAGE then S (D (fptr f)) p q
      else hp_load h' q (data_size f) = hp_load h p (data_size f))"

definition same_field ::
  "(pb_msg_field list \<Rightarrow> addr \<Rightarrow> addr \<Rightarrow> bool) \<Rightarrow> (addr \<Rightarrow> pb_msg_field list) \<Rightarrow> heap \<Rightarrow> heap \<Rightarrow> pb_msg_field \<Rightarrow>
     addr \<Rightarrow> addr \<Rightarrow> bool" where
  "same_field S D h h' f p q \<longleftrightarrow>
     (if f_htype f = PB_HTYPE_REPEATED
      then load_size h' (size_addr q f) = load_size h (size_addr p f) \<and>
           hp_load h' q (data_size f * load_size h (size_addr p f)) =
             hp_load h p (data_size f * load_size h (size_addr p f))
      else if f_htype f = PB_HTYPE_OPTIONAL
      then load_bool h' (size_addr q f) = load_bool h (size_addr p f) \<and>
           (load_bool h (size_addr p f) \<longrightarrow> same_val S D h h' f p q)
      else same_val S D h h' f p q)"

primrec same_msg ::
  "nat \<Rightarrow> (addr \<Rightarrow> pb_msg_field list) \<Rightarrow> heap \<Rightarrow> heap \<Rightarrow> pb_msg_field list \<Rightarrow> addr \<Rightarrow> addr \<Rightarrow> bool" where
  "same_msg 0 D h h' fs p q \<longleftrightarrow> False"
| "same_msg (Suc n) D h h' fs p q \<longleftrightarrow>
     (\<forall>i<length fs. same_field (same_msg n D h h') D h h' (fs ! i) (p_at fs p i) (p_at fs q i))"

text \<open>Memory that has been set to default values: nothing is present.\<close>

definition fresh_field ::
  "(pb_msg_field list \<Rightarrow> addr \<Rightarrow> bool) \<Rightarrow> (addr \<Rightarrow> pb_msg_field list) \<Rightarrow> heap \<Rightarrow> pb_msg_field \<Rightarrow> addr \<Rightarrow> bool" where
  "fresh_field F D h f q \<longleftrightarrow>
     (if f_htype f = PB_HTYPE_REPEATED then load_size h (size_addr q f) = 0
      else (f_htype f = PB_HTYPE_OPTIONAL \<longrightarrow> \<not> load_bool h (size_addr q f)) \<and>
           (f_ltype f = PB_LTYPE_SUBMESSAGE \<longrightarrow> F (D (fptr f)) q))"

primrec fresh_msg :: "nat \<Rightarrow> (addr \<Rightarrow> pb_msg_field list) \<Rightarrow> heap \<Rightarrow> pb_msg_field list \<Rightarrow> addr \<Rightarrow> bool" where
  "fresh_msg 0 D h fs q \<longleftrightarrow> False"
| "fresh_msg (Suc n) D h fs q \<longleftrightarrow>
     (\<forall>i<length fs. fresh_field (fresh_msg n D h) D h (fs ! i) (p_at fs q i))"


section \<open>Values\<close>

lemma scalar_rows:
  assumes "f_ltype f \<le> PB_LTYPE_LAST_PACKABLE"
  obtains enc wire where "PB_ENCODERS sub ! unat (f_ltype f) = Some enc"
    "item_codec enc (PB_DECODERS ! unat (f_ltype f)) (f_ltype f) (scalar_item (unat (f_ltype f))) wire"
proof -
  have lt: "unat (f_ltype f) < 5" using assms by (simp add: word_le_nat_alt)
  then consider "unat (f_ltype f) = 0" | "unat (f_ltype f) = Suc 0" | "unat (f_ltype f) = Suc (Suc 0)"
    | "unat (f_ltype f) = Suc (Suc (Suc 0))" | "unat (f_ltype f) = Suc (Suc (Suc (Suc 0)))" by linarith
  then have "\<exists>enc. PB_ENCODERS sub ! unat (f_ltype f) = Some enc" by cases (simp_all add: PB_ENCODERS_def)
  then obtain enc where e: "PB_ENCODERS sub ! unat (f_ltype f) = Some enc" by blast
  from scalar_codec [OF lt e] that [OF e] show thesis by auto
qed

lemma fixed_size:
  "scalar_item (unat (f_ltype f)) (f_plain f) (hp_load h p (data_size f)) \<Longrightarrow>
     f_ltype f \<le> PB_LTYPE_LAST_PACKABLE \<Longrightarrow> src_length h f p = data_size f"
  by (auto simp: scalar_item_def fixed_item_def src_length_def word_le_nat_alt unat_arith_simps)


lemma hp_load_store_part:
  "k + n \<le> length m \<Longrightarrow> hp_load (hp_store h q m) (q + k) n = take n (drop k m)"
  by (rule nth_equalityI) (auto simp: hp_store_def add.assoc)

lemma load_size_store: "4 \<le> length m \<Longrightarrow> load_size (hp_store h q m) q = unat (le_load (take 4 m) :: 32 word)"
  using hp_load_store_part [of 0 4 m h q] by (simp add: load_size_def)

definition decodes_val ::
  "(heap \<Rightarrow> bool) \<Rightarrow> (heap \<Rightarrow> bool) \<Rightarrow> nat \<Rightarrow> 'i pb_env \<Rightarrow> pb_msg_field \<Rightarrow> addr \<Rightarrow> byte list \<Rightarrow> bool" where
  "decodes_val fresh same n env f q bs \<longleftrightarrow>
     (\<forall>M N st rest h'. length bs + n < N \<longrightarrow> length bs < 2 ^ 32 \<longrightarrow> istream_ok st \<longrightarrow> pending st = bs @ rest \<longrightarrow>
        fresh h' \<longrightarrow>
        (\<exists>h''. call_decoder M env (pb_decode_noinit N env) st f q h' = Some (True, is_advance (length bs) st, h'') \<and>
           same h'' \<and> only {q..<q + data_size f} h' h''))"

definition val_codec ::
  "(heap \<Rightarrow> bool) \<Rightarrow> (heap \<Rightarrow> bool) \<Rightarrow> nat \<Rightarrow> 's pb_enc_env \<Rightarrow> 's encode_fn \<Rightarrow> 's pb_env \<Rightarrow> heap \<Rightarrow> pb_msg_field \<Rightarrow>
     addr \<Rightarrow> addr \<Rightarrow> bool" where
  "val_codec fresh same n eenv enc env h f p q \<longleftrightarrow>
     (\<exists>bs. emits (\<lambda>st. call_encoder eenv enc h st f p) bs \<and> decodes_val fresh same n env f q bs)"

lemma scalar_val_codec:
  fixes env :: "'s pb_env"
  assumes "f_ltype f \<le> PB_LTYPE_LAST_PACKABLE" "valid_val V D h f p" "p \<noteq> 0"
  shows "val_codec fresh (\<lambda>h''. same_val S D h h'' f p q) n eenv enc env h f p q"
proof -
  let ?m = "hp_load h p (data_size f)"
  obtain func and wire where e: "PB_ENCODERS (\<lambda>(st :: 's pb_ostream) _ _. (False, st)) ! unat (f_ltype f) = Some func"
    and codec: "item_codec func (PB_DECODERS ! unat (f_ltype f)) (f_ltype f) (scalar_item (unat (f_ltype f))) wire"
    by (rule scalar_rows [OF assms(1)])
  have ok: "scalar_item (unat (f_ltype f)) (f_plain f) ?m" using assms(1,2) by (simp add: valid_val_def)
  have lt: "f_ltype f \<noteq> PB_LTYPE_SUBMESSAGE" "f_ltype f \<le> PB_LTYPE_FIXED_LENGTH_BYTES" "f_ltype f \<noteq> PB_LTYPE_BYTES"
    "f_ltype f \<noteq> PB_LTYPE_STRING" using assms(1) by (auto simp: word_le_nat_alt)
  have "call_encoder eenv enc h st f p = func st (f_plain f) (Some ?m)" for st :: "'s pb_ostream"
    using lt e assms(3) fixed_size [OF ok assms(1)] by (simp add: call_encoder_def src_view_def)
  then have "emits (\<lambda>st. call_encoder eenv enc h st f p) (wire (f_plain f) ?m)"
    using item_codec.emits_item [OF codec ok] by simp
  moreover have "decodes_val fresh (\<lambda>h''. same_val S D h h'' f p q) n env f q (wire (f_plain f) ?m)"
    unfolding decodes_val_def
  proof (intro allI impI)
    fix M N and st :: "'s pb_istream" and rest h' assume st: "istream_ok st" "pending st = wire (f_plain f) ?m @ rest"
    have "call_decoder M env (pb_decode_noinit N env) st f q h' =
        Some (True, is_advance (length (wire (f_plain f) ?m)) st, hp_store h' q ?m)"
      using item_codec.dec_wire [OF codec ok st] assms(1) by (simp add: call_decoder_def store_result_def)
    moreover have "same_val S D h (hp_store h' q ?m) f p q" using lt by (simp add: same_val_def)
    ultimately show "\<exists>h''. call_decoder M env (pb_decode_noinit N env) st f q h' =
        Some (True, is_advance (length (wire (f_plain f) ?m)) st, h'') \<and>
        same_val S D h h'' f p q \<and> only {q..<q + data_size f} h' h''"
      using only_store [of ?m "data_size f" q h'] by auto
  qed
  ultimately show ?thesis by (auto simp: val_codec_def)
qed

lemma bytes_val_codec:
  fixes env :: "'s pb_env"
  assumes "f_ltype f = PB_LTYPE_BYTES" "f_atype f = PB_ATYPE_STATIC" "data_size f < 2 ^ 32"
    "valid_val V D h f p" "p \<noteq> 0"
  shows "val_codec fresh (\<lambda>h''. same_val S D h h'' f p q) n eenv enc env h f p q"
proof -
  let ?n = "load_size h p" and ?bs = "hp_load h (p + 4) (load_size h p)"
  have n: "4 + ?n \<le> data_size f" using assms(1,4) by (simp add: valid_val_def)
  have n32: "?n < 2 ^ 32" using unsigned_less [of "le_load (hp_load h p 4) :: 32 word", where 'a = nat] by (simp add: load_size_def)
  have v: "src_view h f p = Some (hp_load h p (4 + ?n))" using assms(1,5) by (simp add: src_view_def src_length_def)
  have m: "take 4 (hp_load h p (4 + ?n)) = hp_load h p 4" "take ?n (drop 4 (hp_load h p (4 + ?n))) = ?bs"
    by (auto intro!: nth_equalityI simp: add.assoc)
  have "call_encoder eenv enc h st f p = pb_encode_string st ?bs" for st
  proof -
    have "PB_BYTES_ARRAY_T_ALLOCSIZE ?n = ?n + 4" using n32 by (simp add: PB_BYTES_ARRAY_T_ALLOCSIZE_def size_wrap_id)
    then show ?thesis using assms(1,2) v m n
      by (simp add: call_encoder_def PB_ENCODERS_def pb_enc_bytes_def pb_field.truncate_def load_size_def [symmetric] Let_def)
  qed
  then have "emits (\<lambda>st. call_encoder eenv enc h st f p) (string_bytes ?bs)" by (simp add: emits_string)
  moreover have "decodes_val fresh (\<lambda>h''. same_val S D h h'' f p q) n env f q (string_bytes ?bs)"
    unfolding decodes_val_def
  proof (intro allI impI)
    fix M N and st :: "'s pb_istream" and rest h' assume st: "istream_ok st" "pending st = string_bytes ?bs @ rest"
    let ?m = "le_store 4 (word_of_nat ?n :: 32 word) @ ?bs @ drop (4 + ?n) (hp_load h' q (data_size f))"
    have d: "pb_dec_bytes (env_heap env h') st (f_plain f) (Inline (hp_load h' q (data_size f))) =
        (True, Stored ?m, is_advance (length (string_bytes ?bs)) st)"
      using pb_dec_bytes_inline [OF st, of "f_plain f" "hp_load h' q (data_size f)" "env_heap env h'"] n n32
      by (simp add: pb_field.truncate_def)
    have "call_decoder M env (pb_decode_noinit N env) st f q h' =
        Some (True, is_advance (length (string_bytes ?bs)) st, hp_store h' q ?m)"
      using assms(1,2) d by (simp add: call_decoder_def dec_string_at_def word_le_nat_alt)
    moreover have "same_val S D h (hp_store h' q ?m) f p q"
      using assms(1) n n32 hp_load_store_part [of 4 ?n ?m h' q] load_size_store [of ?m h' q]
      by (simp add: same_val_def le_load_store unat_of_nat32)
    moreover have "length ?m = data_size f" using n by simp
    ultimately show "\<exists>h''. call_decoder M env (pb_decode_noinit N env) st f q h' =
        Some (True, is_advance (length (string_bytes ?bs)) st, h'') \<and>
        same_val S D h h'' f p q \<and> only {q..<q + data_size f} h' h''"
      using only_store [of ?m "data_size f" q h'] by blast
  qed
  ultimately show ?thesis by (auto simp: val_codec_def)
qed

lemma string_val_codec:
  fixes env :: "'s pb_env"
  assumes "f_ltype f = PB_LTYPE_STRING" "f_atype f = PB_ATYPE_STATIC" "data_size f < 2 ^ 32"
    "valid_val V D h f p" "p \<noteq> 0"
  shows "val_codec fresh (\<lambda>h''. same_val S D h h'' f p q) n eenv enc env h f p q"
proof -
  let ?src = "hp_load h p (data_size f)" and ?s = "c_str (hp_load h p (data_size f))"
  have z: "0 \<in> set ?src" using assms(1,4) by (simp add: valid_val_def)
  then obtain pad where src: "?src = ?s @ 0 # pad"
    unfolding c_str_def by (metis (mono_tags, lifting) dropWhile_eq_Cons_conv dropWhile_eq_Nil_conv list.exhaust takeWhile_dropWhile_id)
  have nz: "0 \<notin> set ?s" by (auto simp: c_str_def dest: set_takeWhileD)
  have len: "length ?s + 1 \<le> data_size f" using arg_cong [OF src, of length] by simp
  have v: "src_view h f p = Some ?src" using assms(1,2,5) by (simp add: src_view_def src_length_def)
  have "call_encoder eenv enc h st f p = pb_encode_string st ?s" for st
  proof -
    have "str_scan (data_size f) ?src = length ?s"
      using str_scan_prefix [OF nz, of "data_size f" pad] len src by simp
    moreover have "take (length ?s) ?src = ?s" by (subst (2) src) simp
    ultimately show ?thesis using assms(1,2) v
      by (simp add: call_encoder_def PB_ENCODERS_def pb_enc_string_def pb_field.truncate_def)
  qed
  then have "emits (\<lambda>st. call_encoder eenv enc h st f p) (string_bytes ?s)" by (simp add: emits_string)
  moreover have "decodes_val fresh (\<lambda>h''. same_val S D h h'' f p q) n env f q (string_bytes ?s)"
    unfolding decodes_val_def
  proof (intro allI impI)
    fix M N and st :: "'s pb_istream" and rest h' assume st: "istream_ok st" "pending st = string_bytes ?s @ rest"
    let ?m = "?s @ 0 # drop (1 + length ?s) (hp_load h' q (data_size f))"
    have "pb_dec_string (env_heap env h') st (f_plain f) (Inline (hp_load h' q (data_size f))) =
        (True, Stored ?m, is_advance (length (string_bytes ?s)) st)"
      using len assms(3) by (intro pb_dec_string_inline [OF st]) (simp_all add: pb_field.truncate_def)
    then have "call_decoder M env (pb_decode_noinit N env) st f q h' =
        Some (True, is_advance (length (string_bytes ?s)) st, hp_store h' q ?m)"
      using assms(1,2) by (simp add: call_decoder_def dec_string_at_def word_le_nat_alt)
    moreover have lm: "length ?m = data_size f" using len by simp
    moreover have "c_str ?m = ?s" using nz by (simp add: c_str_def takeWhile_append)
    then have "same_val S D h (hp_store h' q ?m) f p q"
      using assms(1) unfolding same_val_def hp_load_store_same [OF lm] by simp
    ultimately show "\<exists>h''. call_decoder M env (pb_decode_noinit N env) st f q h' =
        Some (True, is_advance (length (string_bytes ?s)) st, h'') \<and>
        same_val S D h h'' f p q \<and> only {q..<q + data_size f} h' h''"
      using only_store [of ?m "data_size f" q h'] by blast
  qed
  ultimately show ?thesis by (auto simp: val_codec_def)
qed

lemma fixed_bytes_val_codec:
  fixes env :: "'s pb_env"
  assumes "f_ltype f = PB_LTYPE_FIXED_LENGTH_BYTES" "0 < data_size f" "data_size f < 2 ^ 32" "p \<noteq> 0"
  shows "val_codec fresh (\<lambda>h''. same_val S D h h'' f p q) n eenv enc env h f p q"
proof -
  let ?m = "hp_load h p (data_size f)"
  have v: "src_view h f p = Some ?m" using assms(1,4) by (simp add: src_view_def src_length_def)
  have "call_encoder eenv enc h st f p = pb_encode_string st ?m" for st
    using assms(1) v
    by (simp add: call_encoder_def PB_ENCODERS_def deref_def pb_enc_fixed_length_bytes_def pb_field.truncate_def)
  then have "emits (\<lambda>st. call_encoder eenv enc h st f p) (string_bytes ?m)" by (simp add: emits_string)
  moreover have "decodes_val fresh (\<lambda>h''. same_val S D h h'' f p q) n env f q (string_bytes ?m)"
    unfolding decodes_val_def
  proof (intro allI impI)
    fix M N and st :: "'s pb_istream" and rest h' assume st: "istream_ok st" "pending st = string_bytes ?m @ rest"
    have u: "unat (word_of_nat (data_size f) :: 32 word) = data_size f" by (rule unat_of_nat32 [OF assms(3)])
    then have "(word_of_nat (data_size f) :: 32 word) \<noteq> 0" using assms(2) by (metis unat_0 less_numeral_extra(3))
    then have "pb_dec_fixed_length_bytes st (f_plain f) = (True, Some ?m, is_advance (length (string_bytes ?m)) st)"
      using pb_decode_length [OF st] pb_read_string_bytes [OF st] u assms(3)
      by (simp add: pb_dec_fixed_length_bytes_def pb_field.truncate_def)
    then have "call_decoder M env (pb_decode_noinit N env) st f q h' =
        Some (True, is_advance (length (string_bytes ?m)) st, hp_store h' q ?m)"
      using assms(1) by (simp add: call_decoder_def store_result_def word_le_nat_alt)
    moreover have "same_val S D h (hp_store h' q ?m) f p q" using assms(1) by (simp add: same_val_def)
    ultimately show "\<exists>h''. call_decoder M env (pb_decode_noinit N env) st f q h' =
        Some (True, is_advance (length (string_bytes ?m)) st, h'') \<and>
        same_val S D h h'' f p q \<and> only {q..<q + data_size f} h' h''"
      using only_store [of ?m "data_size f" q h'] by auto
  qed
  ultimately show ?thesis by (auto simp: val_codec_def)
qed


lemma emits_submessage:
  fixes enc :: "'o encode_fn"
  assumes "emits (\<lambda>st. enc st fs p h) bs"
  shows "emits (\<lambda>st. pb_encode_submessage enc st fs p h) (string_bytes bs)"
  unfolding emits_def
proof (intro conjI allI impI)
  let ?l = "pb_varint_buffer (word_of_nat (length bs))"
  have sz: "enc PB_OSTREAM_SIZING fs p h = (True, os_count (length bs) PB_OSTREAM_SIZING)"
    if "length bs < 2 ^ 64"
    by (rule emits_sizing [OF assms]) (use that in \<open>simp add: sizing_ok_def PB_OSTREAM_SIZING_def\<close>)
  fix st :: "'o pb_ostream"
  {
    assume st: "ostream_ok st" "os_errmsg st = None" "length (string_bytes bs) \<le> os_room st"
    then have "length bs < 2 ^ 64" by (auto simp: string_bytes_def os_room_def ostream_ok_def)
    note sz = sz [OF this]
    let ?st1 = "os_append ?l st"
    have v: "pb_encode_varint st (word_of_nat (length bs)) = (True, ?st1)"
      by (rule emits_buffer [OF emits_varint]) (use st in \<open>simp_all add: string_bytes_def\<close>)
    have ok1: "ostream_ok ?st1" "length bs \<le> os_room ?st1" using st by (simp_all add: string_bytes_def)
    from ok1(1) obtain m pos where m: "sink ?st1 = Buf_write m pos" "bytes_written ?st1 \<le> max_size ?st1"
      "max_size ?st1 < 2 ^ 64" "pos + (max_size ?st1 - bytes_written ?st1) \<le> length m" by (rule ostream_okE)
    let ?sub = "\<lparr>sink = sink ?st1, max_size = length bs, bytes_written = 0, os_errmsg = None\<rparr>"
    have "ostream_ok ?sub" "length bs \<le> os_room ?sub"
      using m ok1(2) by (auto simp: ostream_ok_def os_is_buffer_def os_room_def)
    then have s: "enc ?sub fs p h = (True, os_append bs ?sub)" by (intro emits_buffer [OF assms]) simp_all
    have wrap: "size_wrap (bytes_written ?st1 + length bs) = bytes_written ?st1 + length bs"
      using m ok1(2) by (intro size_wrap_id) (simp add: os_room_def)
    have fits: "bytes_written ?st1 + length bs \<le> max_size ?st1" using m(2) ok1(2) by (simp add: os_room_def)
    have "\<not> is_Sizing (sink ?st1)" using m(1) by simp
    then have "pb_encode_submessage enc st fs p h =
        (True, ?st1\<lparr>bytes_written := bytes_written ?st1 + length bs, sink := snd (call_sink (sink ?st1) bs), os_errmsg := None\<rparr>)"
      using sz v s wrap fits by (simp add: pb_encode_submessage_def Let_def os_append_def PB_OSTREAM_SIZING_def)
    also have "\<dots> = (True, os_append bs ?st1)" using st(2) by (simp add: os_append_def)
    also have "\<dots> = (True, os_append (string_bytes bs) st)"
      using st(1,3) by (simp add: os_append_append string_bytes_def)
    finally show "pb_encode_submessage enc st fs p h = (True, os_append (string_bytes bs) st)" .
  }
  {
    assume st: "sizing_ok st (length (string_bytes bs))"
    then have "length bs < 2 ^ 64" by (simp add: string_bytes_def sizing_ok_def)
    note sz = sz [OF this]
    have v: "pb_encode_varint st (word_of_nat (length bs)) = (True, os_count (length ?l) st)"
      by (rule emits_sizing [OF emits_varint]) (use st in \<open>simp add: sizing_ok_def string_bytes_def\<close>)
    show "pb_encode_submessage enc st fs p h = (True, os_count (length (string_bytes bs)) st)"
      using st sz v
      by (simp add: pb_encode_submessage_def Let_def sizing_ok_def string_bytes_def pb_write_null_def
          size_wrap_id PB_OSTREAM_SIZING_def os_count_def)
  }
qed

definition decodes_msg ::
  "(heap \<Rightarrow> bool) \<Rightarrow> (heap \<Rightarrow> bool) \<Rightarrow> nat \<Rightarrow> 'i pb_env \<Rightarrow> pb_msg_field list \<Rightarrow> addr \<Rightarrow> nat \<Rightarrow> byte list \<Rightarrow> bool" where
  "decodes_msg fresh same n env fs q sz bs \<longleftrightarrow>
     (\<forall>N st h'. length bs + n < N \<longrightarrow> length bs < 2 ^ 32 \<longrightarrow> istream_ok st \<longrightarrow> pending st = bs \<longrightarrow> fresh h' \<longrightarrow>
        (\<exists>h''. pb_decode_noinit N env st fs q h' = Some (True, is_advance (length bs) st, h'') \<and>
           same h'' \<and> only {q..<q + sz} h' h''))"

definition msg_codec ::
  "(heap \<Rightarrow> bool) \<Rightarrow> (heap \<Rightarrow> bool) \<Rightarrow> nat \<Rightarrow> 's encode_fn \<Rightarrow> 's pb_env \<Rightarrow> heap \<Rightarrow> pb_msg_field list \<Rightarrow>
     addr \<Rightarrow> addr \<Rightarrow> nat \<Rightarrow> bool" where
  "msg_codec fresh same n enc env h fs p q sz \<longleftrightarrow>
     (\<exists>bs. emits (\<lambda>st. enc st fs p h) bs \<and> decodes_msg fresh same n env fs q sz bs)"

lemma submessage_val_codec:
  fixes env :: "'s pb_env"
  assumes lt: "f_ltype f = PB_LTYPE_SUBMESSAGE" "f_htype f \<noteq> PB_HTYPE_REPEATED" "fptr f \<noteq> 0"
    and D: "enc_fields_at eenv = D" "fields_at env = D"
    and msg: "msg_codec (\<lambda>h'. F h' (D (fptr f)) q) (\<lambda>h''. S h'' (D (fptr f)) p q) n enc env h (D (fptr f)) p q (data_size f)"
  shows "val_codec (\<lambda>h'. F h' (D (fptr f)) q) (\<lambda>h''. same_val (S h'') D h h'' f p q) (Suc n) eenv enc env h f p q"
proof -
  obtain bs where bs: "emits (\<lambda>st. enc st (D (fptr f)) p h) bs"
    "decodes_msg (\<lambda>h'. F h' (D (fptr f)) q) (\<lambda>h''. S h'' (D (fptr f)) p q) n env (D (fptr f)) q (data_size f) bs"
    using msg by (auto simp: msg_codec_def)
  have "call_encoder eenv enc h st f p = pb_encode_submessage enc st (D (fptr f)) p h" for st
    using lt D(1) by (simp add: call_encoder_def pb_enc_submessage_def)
  then have "emits (\<lambda>st. call_encoder eenv enc h st f p) (string_bytes bs)"
    using emits_submessage [of enc "D (fptr f)" p h bs, OF bs(1)] by simp
  moreover have "decodes_val (\<lambda>h'. F h' (D (fptr f)) q) (\<lambda>h''. same_val (S h'') D h h'' f p q) (Suc n) env f q (string_bytes bs)"
    unfolding decodes_val_def
  proof (intro allI impI)
    fix M N and st :: "'s pb_istream" and rest h'
    assume N: "length (string_bytes bs) + Suc n < N" and len: "length (string_bytes bs) < 2 ^ 32"
      and st: "istream_ok st" "pending st = string_bytes bs @ rest" and fresh: "F h' (D (fptr f)) q"
    have l: "length bs < 2 ^ 32" "length bs + n < N" using len N by (simp_all add: string_bytes_def)
    from pb_make_string_substream_ok [OF st l(1)] obtain sub st' where
      sub: "pb_make_string_substream st = (Some sub, st')" "istream_ok sub" "pending sub = bs"
        "pb_close_string_substream st' (is_advance (length bs) sub) = (True, is_advance (length (string_bytes bs)) st)"
      by blast
    obtain h'' where "pb_decode_noinit N env sub (D (fptr f)) q h' = Some (True, is_advance (length bs) sub, h'')"
      "S h'' (D (fptr f)) p q" "only {q..<q + data_size f} h' h''"
      using bs(2) l sub(2,3) fresh unfolding decodes_msg_def by blast
    then show "\<exists>h''. call_decoder M env (pb_decode_noinit N env) st f q h' =
        Some (True, is_advance (length (string_bytes bs)) st, h'') \<and>
        same_val (S h'') D h h'' f p q \<and> only {q..<q + data_size f} h' h''"
      using lt D(2) sub
      by (simp add: call_decoder_def pb_dec_submessage_def same_val_def word_le_nat_alt)
  qed
  ultimately show ?thesis by (auto simp: val_codec_def)
qed


section \<open>Frames\<close>

lemma same_val_only:
  assumes "val_type M D f q" "same_val (S h1) D h h1 f p q" "only A h1 h2" "A \<inter> {q..<q + data_size f} = {}"
    and sub: "f_ltype f = PB_LTYPE_SUBMESSAGE \<Longrightarrow> M (D (fptr f)) q (data_size f) \<Longrightarrow>
      S h1 (D (fptr f)) p q \<Longrightarrow> S h2 (D (fptr f)) p q"
    and b: "f_ltype f = PB_LTYPE_BYTES \<Longrightarrow> 4 + load_size h p \<le> data_size f"
  shows "same_val (S h2) D h h2 f p q"
proof (cases "f_ltype f = PB_LTYPE_BYTES")
  case True
  have "A \<inter> {q..<q + 4} = {}" "A \<inter> {q + 4..<q + 4 + load_size h p} = {}"
    using assms(4) b [OF True] by auto
  then show ?thesis
    using True assms(2,3) by (simp add: same_val_def only_load_size only_load)
next
  case False
  moreover have "hp_load h2 q (data_size f) = hp_load h1 q (data_size f)" using assms(3,4) by (rule only_load)
  moreover have "f_ltype f = PB_LTYPE_SUBMESSAGE \<Longrightarrow> M (D (fptr f)) q (data_size f)"
    using assms(1) by (auto simp: val_type_def word_le_nat_alt)
  ultimately show ?thesis using assms(2) sub by (auto simp: same_val_def)
qed

lemma field_cells_data: "f_htype f \<noteq> PB_HTYPE_REPEATED \<Longrightarrow> {q..<q + data_size f} \<subseteq> field_cells f q"
  by (auto simp: field_cells_def data_cells_def)

lemma field_cells_size:
  "f_htype f = PB_HTYPE_OPTIONAL \<Longrightarrow> size_addr q f \<in> field_cells f q"
  "f_htype f = PB_HTYPE_REPEATED \<Longrightarrow> {size_addr q f..<size_addr q f + 4} \<subseteq> field_cells f q"
  by (auto simp: field_cells_def)

lemma field_cells_items:
  assumes "f_htype f = PB_HTYPE_REPEATED" "n \<le> array_size f"
  shows "{q..<q + data_size f * n} \<subseteq> field_cells f q"
proof -
  have "x < q + data_size f * array_size f" if "x < q + data_size f * n" for x
    using that mult_le_mono2 [OF assms(2), of "data_size f"] by linarith
  then show ?thesis using assms(1) by (auto simp: field_cells_def data_cells_def)
qed

lemma same_field_only:
  assumes "field_type M D f q" "valid_field V D h f p" "same_field (S h1) D h h1 f p q" "only A h1 h2"
    "A \<inter> field_cells f q = {}"
    and sub: "M (D (fptr f)) q (data_size f) \<Longrightarrow> A \<inter> {q..<q + data_size f} = {} \<Longrightarrow> V (D (fptr f)) p \<Longrightarrow>
      S h1 (D (fptr f)) p q \<Longrightarrow> S h2 (D (fptr f)) p q"
  shows "same_field (S h2) D h h2 f p q"
proof (cases "f_htype f = PB_HTYPE_REPEATED")
  case True
  then have n: "load_size h (size_addr p f) \<le> array_size f" using assms(2) by (simp add: valid_field_def)
  have "load_size h2 (size_addr q f) = load_size h1 (size_addr q f)"
    using assms(4) field_cells_size(2) [OF True] assms(5) by (intro only_load_size) blast+
  moreover have "hp_load h2 q (data_size f * load_size h (size_addr p f)) = hp_load h1 q (data_size f * load_size h (size_addr p f))"
    using assms(4) field_cells_items [OF True n, of q] assms(5) by (intro only_load) blast+
  ultimately show ?thesis using True assms(3) by (simp add: same_field_def)
next
  case False
  have d: "A \<inter> {q..<q + data_size f} = {}" using field_cells_data [OF False] assms(5) by blast
  have vt: "val_type M D f q" using assms(1) False by (auto simp: field_type_def)
  have s: "same_val (S h2) D h h2 f p q"
    if "same_val (S h1) D h h1 f p q" "valid_val V D h f p"
  proof (rule same_val_only [where S = S, OF vt that(1) assms(4) d])
    show "f_ltype f = PB_LTYPE_SUBMESSAGE \<Longrightarrow> M (D (fptr f)) q (data_size f) \<Longrightarrow>
        S h1 (D (fptr f)) p q \<Longrightarrow> S h2 (D (fptr f)) p q"
      using sub d that(2) by (simp add: valid_val_def)
    show "f_ltype f = PB_LTYPE_BYTES \<Longrightarrow> 4 + load_size h p \<le> data_size f" using that(2) by (simp add: valid_val_def)
  qed
  have "load_bool h2 (size_addr q f) = load_bool h1 (size_addr q f)" if "f_htype f = PB_HTYPE_OPTIONAL"
    using assms(4) field_cells_size(1) [OF that, of q] assms(5) by (intro only_load_bool) blast+
  then show ?thesis using False s assms(2,3) by (auto simp: same_field_def valid_field_def)
qed

lemma same_msg_only:
  "static_msg n D fs q sz \<Longrightarrow> valid_msg n D h fs p \<Longrightarrow> same_msg n D h h1 fs p q \<Longrightarrow> only A h1 h2 \<Longrightarrow>
     A \<inter> {q..<q + sz} = {} \<Longrightarrow> same_msg n D h h2 fs p q"
proof (induction n arbitrary: fs p q sz)
  case (Suc n)
  show ?case
  proof (simp, intro allI impI)
    fix i assume i: "i < length fs"
    let ?q = "p_at fs q i" and ?p = "p_at fs p i"
    have t: "field_type (static_msg n D) D (fs ! i) ?q" "field_cells (fs ! i) ?q \<subseteq> {q..<q + sz}"
      using Suc.prems(1) i by simp_all
    show "same_field (same_msg n D h h2) D h h2 (fs ! i) ?p ?q"
    proof (rule same_field_only [where S = "same_msg n D h", OF t(1) _ _ Suc.prems(4)])
      show "valid_field (valid_msg n D h) D h (fs ! i) ?p" "same_field (same_msg n D h h1) D h h1 (fs ! i) ?p ?q"
        using Suc.prems(2,3) i by simp_all
      show "A \<inter> field_cells (fs ! i) ?q = {}" using t(2) Suc.prems(5) by blast
    qed (rule Suc.IH [OF _ _ _ Suc.prems(4)])
  qed
qed simp

lemma fresh_field_only:
  assumes "field_type M D f q" "fresh_field (F h1) D h1 f q" "only A h1 h2" "A \<inter> field_cells f q = {}"
    and sub: "M (D (fptr f)) q (data_size f) \<Longrightarrow> A \<inter> {q..<q + data_size f} = {} \<Longrightarrow>
      F h1 (D (fptr f)) q \<Longrightarrow> F h2 (D (fptr f)) q"
  shows "fresh_field (F h2) D h2 f q"
proof (cases "f_htype f = PB_HTYPE_REPEATED")
  case True
  then have "load_size h2 (size_addr q f) = load_size h1 (size_addr q f)"
    using assms(3) field_cells_size(2) [OF True, of q] assms(4) by (intro only_load_size) blast+
  then show ?thesis using True assms(2) by (simp add: fresh_field_def)
next
  case False
  have d: "A \<inter> {q..<q + data_size f} = {}" using field_cells_data [OF False] assms(4) by blast
  have "f_ltype f = PB_LTYPE_SUBMESSAGE \<Longrightarrow> M (D (fptr f)) q (data_size f)"
    using assms(1) False by (auto simp: field_type_def val_type_def word_le_nat_alt)
  moreover have "load_bool h2 (size_addr q f) = load_bool h1 (size_addr q f)" if "f_htype f = PB_HTYPE_OPTIONAL"
    using assms(3) field_cells_size(1) [OF that, of q] assms(4) by (intro only_load_bool) blast+
  ultimately show ?thesis using False assms(2) sub d by (auto simp: fresh_field_def)
qed

lemma fresh_msg_only:
  "static_msg n D fs q sz \<Longrightarrow> fresh_msg n D h1 fs q \<Longrightarrow> only A h1 h2 \<Longrightarrow>
     A \<inter> {q..<q + sz} = {} \<Longrightarrow> fresh_msg n D h2 fs q"
proof (induction n arbitrary: fs q sz)
  case (Suc n)
  show ?case
  proof (simp, intro allI impI)
    fix i assume i: "i < length fs"
    let ?q = "p_at fs q i"
    have t: "field_type (static_msg n D) D (fs ! i) ?q" "field_cells (fs ! i) ?q \<subseteq> {q..<q + sz}"
      using Suc.prems(1) i by simp_all
    show "fresh_field (fresh_msg n D h2) D h2 (fs ! i) ?q"
    proof (rule fresh_field_only [where F = "fresh_msg n D", OF t(1) _ Suc.prems(3)])
      show "fresh_field (fresh_msg n D h1) D h1 (fs ! i) ?q" using Suc.prems(2) i by simp
      show "A \<inter> field_cells (fs ! i) ?q = {}" using t(2) Suc.prems(4) by blast
    qed (rule Suc.IH [OF _ _ Suc.prems(3)])
  qed
qed simp

end
