(* ===== verification/Pb_Roundtrip.thy ===== *)
theory Pb_Roundtrip
  imports Pb_Msg_Values
begin

text \<open>
  Encoding a message of static fields (required, optional, packed arrays, strings, byte arrays, nested
  messages) and decoding it gives the message back: field by field from \<open>Pb_Msg_Values\<close>, through the
  iterator, the loop of \<open>pb_decode_noinit\<close> with its bitmap of required fields, the default values, and
  by induction on the depth of nesting.
\<close>



lemma same_val_cong:
  "f_ltype f \<noteq> PB_LTYPE_SUBMESSAGE \<Longrightarrow>
     (\<lambda>h''. same_val (S h'') D h h'' f p q) = (\<lambda>h''. same_val (\<lambda>_ _ _. True) D h h'' f p q)"
  by (rule ext) (simp add: same_val_def)

lemma value_codec:
  fixes env :: "'s pb_env"
  assumes type: "val_type (static_msg n D) D f q" "f_atype f = PB_ATYPE_STATIC" "f_htype f \<noteq> PB_HTYPE_REPEATED"
    and valid: "valid_val (valid_msg n D h) D h f p" "p \<noteq> 0"
    and D: "enc_fields_at eenv = D" "fields_at env = D"
    and msg: "\<And>fs sz. static_msg n D fs q sz \<Longrightarrow> valid_msg n D h fs p \<Longrightarrow>
      msg_codec (\<lambda>h'. fresh_msg n D h' fs q) (\<lambda>h''. same_msg n D h h'' fs p q) n enc env h fs p q sz"
  shows "val_codec (\<lambda>h'. f_ltype f = PB_LTYPE_SUBMESSAGE \<longrightarrow> fresh_msg n D h' (D (fptr f)) q)
    (\<lambda>h''. same_val (same_msg n D h h'') D h h'' f p q) (Suc n) eenv enc env h f p q"
proof (cases "f_ltype f = PB_LTYPE_SUBMESSAGE")
  case True
  then have t: "fptr f \<noteq> 0" "static_msg n D (D (fptr f)) q (data_size f)" "valid_msg n D h (D (fptr f)) p"
    using type(1) valid(1) by (auto simp: val_type_def valid_val_def word_le_nat_alt)
  show ?thesis
    using submessage_val_codec [where F = "\<lambda>h'. fresh_msg n D h'" and S = "\<lambda>h''. same_msg n D h h''",
        OF True type(3) t(1) D msg [OF t(2,3)]] True by simp
next
  case False
  have s: "data_size f < 2 ^ 32" using type(1) by (simp add: val_type_def)
  consider "f_ltype f \<le> PB_LTYPE_LAST_PACKABLE" | "f_ltype f = PB_LTYPE_BYTES" | "f_ltype f = PB_LTYPE_STRING"
    | "f_ltype f = PB_LTYPE_FIXED_LENGTH_BYTES" "0 < data_size f"
    using type(1) False by (auto simp: val_type_def)
  then show ?thesis unfolding same_val_cong [where S = "\<lambda>h''. same_msg n D h h''", OF False]
    using scalar_val_codec [OF _ valid] bytes_val_codec [OF _ type(2) s valid]
      string_val_codec [OF _ type(2) s valid] fixed_bytes_val_codec [OF _ _ s valid(2)]
    by cases blast+
qed


section \<open>Records\<close>

text \<open>The wire type of a field's value on its own.\<close>

definition wire_type :: "pb_msg_field \<Rightarrow> 32 word" where
  "wire_type f =
     (if f_ltype f = PB_LTYPE_VARINT \<or> f_ltype f = PB_LTYPE_UVARINT \<or> f_ltype f = PB_LTYPE_SVARINT then PB_WT_VARINT
      else if f_ltype f = PB_LTYPE_FIXED32 then PB_WT_32BIT
      else if f_ltype f = PB_LTYPE_FIXED64 then PB_WT_64BIT else PB_WT_STRING)"

definition tag_bytes :: "32 word \<Rightarrow> pb_msg_field \<Rightarrow> byte list" where
  "tag_bytes wt f = pb_varint_buffer (tag_word wt (tag f))"

lemma ltype_cases: "(x :: 8 word) \<le> 4 \<Longrightarrow> x = 0 \<or> x = 1 \<or> x = 2 \<or> x = 3 \<or> x = 4"
proof -
  assume "x \<le> 4"
  then have "unat x \<le> 4" by (simp add: word_le_nat_alt)
  then have "unat x = 0 \<or> unat x = 1 \<or> unat x = 2 \<or> unat x = 3 \<or> unat x = 4" by linarith
  then show ?thesis by (simp add: word_unat_eq_iff)
qed

lemma emits_field_tag:
  assumes "val_type M D f q"
  shows "emits (\<lambda>st. pb_encode_tag_for_field st (f_plain f)) (tag_bytes (wire_type f) f)"
proof -
  have "f_ltype f = 0 \<or> f_ltype f = 1 \<or> f_ltype f = 2 \<or> f_ltype f = 3 \<or> f_ltype f = 4 \<or> f_ltype f = 5 \<or>
      f_ltype f = 6 \<or> f_ltype f = 9 \<or> f_ltype f = 7"
    using assms ltype_cases [of "f_ltype f"] by (auto simp: val_type_def)
  then have "pb_encode_tag_for_field st (f_plain f) = pb_encode_tag st (wire_type f) (tag f)" for st :: "'a pb_ostream"
    by (auto simp: pb_encode_tag_for_field_def wire_type_def pb_field.truncate_def Let_def)
  then show ?thesis using emits_tag by (simp add: tag_bytes_def)
qed

lemma wire_type_small: "unat (wire_type f) < 8"
  by (simp add: wire_type_def)

text \<open>The variables of the decoder between two fields.\<close>

primrec seen_after :: "nat \<Rightarrow> 32 word list" where
  "seen_after 0 = [0, 0]"
| "seen_after (Suc r) =
     (if r < PB_MAX_REQUIRED_FIELDS
      then (seen_after r)[r div 32 := seen_after r ! (r div 32) OR push_bit (r mod 32) 1] else seen_after r)"

definition vars_at :: "pb_msg_field list \<Rightarrow> addr \<Rightarrow> nat \<Rightarrow> nat \<Rightarrow> noinit_vars" where
  "vars_at fs q r j =
     \<lparr>nv_fields_seen = seen_after r, nv_extension_range_start = 0, nv_fixed_count_field = None,
      nv_fixed_count_size = 0, nv_iter = iter_at fs q j\<rparr>"

definition req_before :: "pb_msg_field list \<Rightarrow> nat \<Rightarrow> nat" where
  "req_before fs i = length (filter (\<lambda>f. f_htype f = PB_HTYPE_REQUIRED) (take i fs))"

lemma req_before_Suc:
  "i < length fs \<Longrightarrow> req_before fs (Suc i) = (if f_htype (fs ! i) = PB_HTYPE_REQUIRED then Suc (req_before fs i) else req_before fs i)"
  by (simp add: req_before_def take_Suc_conv_app_nth)

text \<open>Without oneofs, the index and the pointers of the iterator are those of its field.\<close>

definition no_oneof :: "pb_msg_field list \<Rightarrow> bool" where
  "no_oneof fs \<longleftrightarrow> (\<forall>f\<in>set fs. f_htype f \<noteq> PB_HTYPE_ONEOF)"

lemma iter_at_Suc:
  assumes "fields_ok fs" "Suc i < length fs" "no_oneof fs"
  shows "\<exists>s. iter_at fs q (Suc i) = (iter_at fs q i)
    \<lparr>it_pos := Suc i, it_required_field_index := (if f_htype (fs ! i) = PB_HTYPE_REQUIRED
       then it_required_field_index (iter_at fs q i) + 1 else it_required_field_index (iter_at fs q i)),
     it_pData := it_pData (iter_at fs q i) + s + data_offset (fs ! Suc i),
     it_pSize := At (size_addr (it_pData (iter_at fs q i) + s + data_offset (fs ! Suc i)) (fs ! Suc i))\<rparr>"
proof -
  let ?it = "iter_at fs q i"
  have i: "i < length fs" using assms(2) by simp
  have h: "f_htype (fs ! i) \<noteq> PB_HTYPE_ONEOF" using assms(3) i by (auto simp: no_oneof_def)
  have t: "tag (fs ! i) \<noteq> 0" "tag (fs ! Suc i) \<noteq> 0" using assms(1,2) i by (auto simp: fields_ok_def)
  have f: "it_field ?it = fs ! i" "it_field (?it\<lparr>it_pos := i + 1\<rparr>) = fs ! Suc i" "it_pos ?it = i"
    using assms i by (simp_all add: it_field_def field_at_def)
  let ?s = "if f_atype (fs ! i) = PB_ATYPE_STATIC \<and> f_htype (fs ! i) = PB_HTYPE_REPEATED
           then data_size (fs ! i) * array_size (fs ! i) else if f_atype (fs ! i) = PB_ATYPE_POINTER then 8
           else data_size (fs ! i)"
  have "snd (pb_field_iter_next ?it) = (?it\<lparr>it_pos := i + 1\<rparr>)
      \<lparr>it_required_field_index := (if f_htype (fs ! i) = PB_HTYPE_REQUIRED
         then it_required_field_index ?it + 1 else it_required_field_index ?it),
       it_pData := it_pData ?it + ?s + data_offset (fs ! Suc i),
       it_pSize := At (size_addr (it_pData ?it + ?s + data_offset (fs ! Suc i)) (fs ! Suc i))\<rparr>"
    unfolding pb_field_iter_next_def Let_def f using t h by (simp only: f) simp
  then show ?thesis unfolding iter_at.simps(2) by (intro exI [of _ ?s]) simp
qed

lemma iter_at_facts:
  assumes "fields_ok fs" "i < length fs" "no_oneof fs"
  shows "it_required_field_index (iter_at fs q i) = req_before fs i \<and>
    it_pSize (iter_at fs q i) = At (size_addr (p_at fs q i) (fs ! i)) \<and> q \<le> p_at fs q i"
  using assms(2)
proof (induction i)
  case 0
  then show ?case by (simp add: pb_field_iter_begin_def Let_def req_before_def p_at_def field_at_def)
next
  case (Suc i)
  obtain s where "iter_at fs q (Suc i) = (iter_at fs q i)
    \<lparr>it_pos := Suc i, it_required_field_index := (if f_htype (fs ! i) = PB_HTYPE_REQUIRED
       then it_required_field_index (iter_at fs q i) + 1 else it_required_field_index (iter_at fs q i)),
     it_pData := it_pData (iter_at fs q i) + s + data_offset (fs ! Suc i),
     it_pSize := At (size_addr (it_pData (iter_at fs q i) + s + data_offset (fs ! Suc i)) (fs ! Suc i))\<rparr>"
    using iter_at_Suc [OF assms(1) Suc.prems assms(3)] by blast
  then show ?case using Suc req_before_Suc [of i fs] by (auto simp: p_at_def)
qed


section \<open>One field\<close>

lemma find_only: "i \<in> set xs \<Longrightarrow> P i \<Longrightarrow> (\<And>x. x \<in> set xs \<Longrightarrow> P x \<Longrightarrow> x = i) \<Longrightarrow> find P xs = Some i"
proof (induction xs)
  case (Cons a xs)
  show ?case
  proof (cases "P a")
    case True
    then have "a = i" by (rule Cons.prems(3) [rotated]) simp
    with True show ?thesis by simp
  next
    case False
    then have "i \<in> set xs" using Cons.prems(1,2) by auto
    then have "find P xs = Some i" by (rule Cons.IH [OF _ Cons.prems(2)]) (rule Cons.prems(3), simp_all)
    then show ?thesis using False by simp
  qed
qed simp

lemma find_tag:
  assumes "fields_ok fs" "distinct (map tag fs)" "i < length fs" "j < length fs" "f_ltype (fs ! i) \<noteq> PB_LTYPE_EXTENSION"
  shows "pb_field_iter_find (iter_at fs q j) (tag (fs ! i)) = (True, iter_at fs q i)"
proof -
  have "find (\<lambda>x. tag (fs ! x) = tag (fs ! i) \<and> f_ltype (fs ! x) \<noteq> PB_LTYPE_EXTENSION) ([j..<length fs] @ [0..<j]) = Some i"
  proof (rule find_only)
    show "i \<in> set ([j..<length fs] @ [0..<j])" using assms(3,4) by auto
    fix x assume "x \<in> set ([j..<length fs] @ [0..<j])" "tag (fs ! x) = tag (fs ! i) \<and> f_ltype (fs ! x) \<noteq> PB_LTYPE_EXTENSION"
    then have "x < length fs" "map tag fs ! x = map tag fs ! i" using assms(3,4) by auto
    then show "x = i" using assms(2,3) by (simp only: nth_eq_iff_index_eq length_map)
  qed (use assms(5) in simp)
  then show ?thesis
    using iter_search_all [OF assms(1,4), of "\<lambda>f. tag f = tag (fs ! i) \<and> f_ltype f \<noteq> PB_LTYPE_EXTENSION" q] assms(1,4)
    by (simp add: pb_field_iter_find_def)
qed

lemma decode_known_static:
  assumes "fields_ok fs" "i < length fs" "no_oneof fs" "f_atype (fs ! i) = PB_ATYPE_STATIC"
    "f_htype (fs ! i) = PB_HTYPE_REPEATED \<Longrightarrow> size_addr (p_at fs q i) (fs ! i) \<noteq> p_at fs q i"
    "decode_static_field n env noinit st wt (iter_at fs q i) h = Some (ok, st1, iter_at fs q i, h1)"
  shows "decode_known n env noinit st wt ((vars_at fs q (req_before fs i) j)\<lparr>nv_iter := iter_at fs q i\<rparr>) h =
    Some (ok, st1, vars_at fs q (req_before fs (Suc i)) i, h1)"
proof -
  let ?it = "iter_at fs q i"
  note f = iter_at_facts [OF assms(1-3), of q]
  have p: "it_pSize ?it = At (size_addr (p_at fs q i) (fs ! i))" "it_pData ?it = p_at fs q i"
    "it_required_field_index ?it = req_before fs i"
    using f by (simp_all add: p_at_def)
  have h: "f_htype (fs ! i) \<noteq> PB_HTYPE_ONEOF" using assms(2,3) by (auto simp: no_oneof_def)
  have d: "decode_field n env noinit st wt ?it h = Some (ok, st1, ?it, h1)"
    using assms(1,2,4,6) h by (simp add: decode_field_def)
  show ?thesis
    using assms(1,2,5) p d unfolding decode_known_def Let_def
    by (cases "f_htype (fs ! i) = PB_HTYPE_REPEATED") (simp_all add: vars_at_def req_before_Suc)
qed

lemma noinit_loop_field:
  assumes "fields_ok fs" "i < length fs" "no_oneof fs" "distinct (map tag fs)" "unat (tag (fs ! i)) < 2 ^ 29"
    and f: "f_atype (fs ! i) = PB_ATYPE_STATIC" "f_ltype (fs ! i) \<noteq> PB_LTYPE_EXTENSION"
    "f_htype (fs ! i) = PB_HTYPE_REPEATED \<Longrightarrow> size_addr (p_at fs q i) (fs ! i) \<noteq> p_at fs q i"
    and st: "istream_ok st" "pending st = tag_bytes wt (fs ! i) @ bs @ rest" "unat wt < 8" "j < length fs"
    and dec: "decode_static_field n env noinit (is_advance (length (tag_bytes wt (fs ! i))) st) wt (iter_at fs q i) h =
      Some (True, is_advance (length bs) (is_advance (length (tag_bytes wt (fs ! i))) st), iter_at fs q i, h1)"
  shows "noinit_loop n (Suc k) env noinit st (vars_at fs q (req_before fs i) j) h =
    noinit_loop n k env noinit (is_advance (length (tag_bytes wt (fs ! i) @ bs)) st)
      (vars_at fs q (req_before fs (Suc i)) i) h1"
proof -
  let ?t = "tag_bytes wt (fs ! i)"
  have t0: "0 < unat (tag (fs ! i))" using assms(1,2) by (simp add: fields_ok_def unat_gt_0)
  have t: "pb_decode_tag st = (True, wt, tag (fs ! i), False, is_advance (length ?t) st)"
    using pb_decode_tag_ok [OF st(1) _ st(3) t0 assms(5)] st(2) by (simp add: tag_bytes_def)
  have "0 < length (pending st)"
    using pb_varint_buffer_bounds(1) [of "tag_word wt (tag (fs ! i))"] st(2)
    by (simp only: tag_bytes_def length_append trans_less_add1)
  then have b: "bytes_left st \<noteq> 0" using length_pending [OF st(1)] by simp
  have "pb_field_iter_find (nv_iter (vars_at fs q (req_before fs i) j)) (tag (fs ! i)) = (True, iter_at fs q i)"
    using find_tag [OF assms(1,4,2) st(4) f(2)] by (simp add: vars_at_def)
  then show ?thesis
    using b t decode_known_static [OF assms(1,2,3) f(1,3) dec, of j] by simp
qed


section \<open>Arrays\<close>

lemma encode_items_rel:
  "list_all2 (\<lambda>x y. \<forall>st. func st f x = func' st f y) xs ys \<Longrightarrow> encode_items func st f xs = encode_items func' st f ys"
  by (induction arbitrary: st rule: list_all2_induct) (simp_all split: prod.split bool.split)

lemma encode_tagged_items_rel:
  "list_all2 (\<lambda>x y. \<forall>st. func st f x = func' st f y) xs ys \<Longrightarrow>
     encode_tagged_items func st f xs = encode_tagged_items func' st f ys"
  by (induction arbitrary: st rule: list_all2_induct) (simp_all split: prod.split bool.split)

lemma encode_array_rel:
  assumes "list_all2 (\<lambda>x y. \<forall>st. func st f x = func' st f y) xs ys"
  shows "encode_array st f xs func = encode_array st f ys func'"
proof -
  have e: "length xs = length ys" "xs = [] \<longleftrightarrow> ys = []" using list_all2_lengthD [OF assms] by auto
  show ?thesis
    unfolding encode_array_def packed_size_def e encode_items_rel [where func = func and func' = func' and f = f, OF assms] encode_tagged_items_rel [where func = func and func' = func' and f = f, OF assms] ..
qed

lemma length_concat_same: "\<forall>m\<in>set ms. length m = d \<Longrightarrow> length (concat ms) = d * length ms"
  by (induction ms) simp_all

lemma hp_load_append: "hp_load h a (k + n) = hp_load h a k @ hp_load h (a + k) n"
  using upt_add_eq_append [of a "a + k" n] by (simp add: hp_load_def add.assoc)

lemma concat_loads: "concat (map (\<lambda>k. hp_load h (p + d * k) d) [0..<n]) = hp_load h p (d * n)"
proof (induction n)
  case (Suc n)
  then show ?case using hp_load_append [of h p "d * n" d] by (simp add: add.commute)
qed (simp add: hp_load_def)

lemma store_items_concat:
  "\<forall>m\<in>set ms. length m = d \<Longrightarrow>
     hp_load (store_items h a d (map Some ms)) a (d * length ms) = concat ms \<and>
     only {a..<a + d * length ms} h (store_items h a d (map Some ms))"
proof (induction ms arbitrary: h a)
  case Nil
  then show ?case by (simp add: hp_load_def)
next
  case (Cons m ms)
  let ?h = "hp_store h a m"
  have m: "length m = d" using Cons.prems by simp
  have ih: "hp_load (store_items ?h (a + d) d (map Some ms)) (a + d) (d * length ms) = concat ms"
    "only {a + d..<a + d + d * length ms} ?h (store_items ?h (a + d) d (map Some ms))"
    using Cons.IH [of ?h "a + d"] Cons.prems by simp_all
  have "hp_load (store_items ?h (a + d) d (map Some ms)) a d = hp_load ?h a d"
    by (rule only_load [OF ih(2)]) auto
  moreover have "only {a..<a + d * length (m # ms)} h (store_items ?h (a + d) d (map Some ms))"
    by (rule only_trans [OF only_store [OF m] ih(2)]) auto
  ultimately show ?case using m ih(1) hp_load_append [of _ a d "d * length ms"] by simp
qed

text \<open>The entries of an array in memory.\<close>

definition array_mem :: "heap \<Rightarrow> pb_msg_field \<Rightarrow> addr \<Rightarrow> nat \<Rightarrow> byte list list" where
  "array_mem h f p n = map (\<lambda>k. hp_load h (p + data_size f * k) (data_size f)) [0..<n]"

lemma emits_array_field:
  fixes eenv :: "'s pb_enc_env"
  assumes "f_ltype f \<le> PB_LTYPE_LAST_PACKABLE" "f_atype f = PB_ATYPE_STATIC" "p \<noteq> 0" "0 < n" "n \<le> array_size f"
    and ok: "\<forall>m\<in>set (array_mem h f p n). scalar_item (unat (f_ltype f)) (f_plain f) m"
    and codec: "PB_ENCODERS (\<lambda>(st :: 's pb_ostream) _ _. (False, st)) ! unat (f_ltype f) = Some func"
      "item_codec func (PB_DECODERS ! unat (f_ltype f)) (f_ltype f) (scalar_item (unat (f_ltype f))) wire"
  shows "emits (\<lambda>st. encode_array st (f_plain f) (array_items h f p n) (\<lambda>st _ p. call_encoder eenv enc h st f p))
    (tag_bytes PB_WT_STRING f @ string_bytes (concat (map (wire (f_plain f)) (array_mem h f p n))))"
proof -
  have call: "call_encoder eenv enc h st f (p + data_size f * k) =
      func st (f_plain f) (Some (hp_load h (p + data_size f * k) (data_size f)))" if "k < n" for st k
  proof -
    have "scalar_item (unat (f_ltype f)) (f_plain f) (hp_load h (p + data_size f * k) (data_size f))"
      using ok that by (simp add: array_mem_def)
    from fixed_size [OF this assms(1)] show ?thesis
      using assms(1,3) codec(1) by (auto simp: call_encoder_def src_view_def word_le_nat_alt)
  qed
  have "list_all2 (\<lambda>x y. \<forall>st. call_encoder eenv enc h st f x = func st (f_plain f) y)
      (array_items h f p n) (map Some (array_mem h f p n))"
    using assms(2) call by (simp add: list_all2_conv_all_nth array_items_def array_mem_def Let_def)
  note rel = encode_array_rel [where func = "\<lambda>st _ p. call_encoder eenv enc h st f p" and func' = func and f = "f_plain f", OF this]
  have e: "encode_array st (f_plain f) (array_items h f p n) (\<lambda>st _ p. call_encoder eenv enc h st f p) =
      encode_array st (f_plain f) (map Some (array_mem h f p n)) func" for st
    by (rule rel)
  have "array_mem h f p n \<noteq> []" using assms(4) by (simp add: array_mem_def)
  from item_codec.emits_array [OF codec(2) ok _ this] assms(5)
  show ?thesis unfolding e
    by (simp add: tag_bytes_def pb_field.truncate_def item_codec.wires_def [OF codec(2)] array_mem_def)
qed


section \<open>The codec of a field\<close>

text \<open>
  What the decoder's loop does with the bytes of field \<open>i\<close>: at most one turn, and the field at \<open>q\<close> is
  set.
\<close>

definition decodes_field ::
  "(heap \<Rightarrow> bool) \<Rightarrow> (heap \<Rightarrow> bool) \<Rightarrow> nat \<Rightarrow> 's pb_env \<Rightarrow> pb_msg_field list \<Rightarrow> addr \<Rightarrow> nat \<Rightarrow> byte list \<Rightarrow> bool" where
  "decodes_field fresh same n env fs q i bs \<longleftrightarrow>
     (\<forall>N M st rest j h'. length bs + n < N \<longrightarrow> length bs < 2 ^ 32 \<longrightarrow> istream_ok st \<longrightarrow> pending st = bs @ rest \<longrightarrow>
        j < length fs \<longrightarrow> fresh h' \<longrightarrow>
        (\<exists>m j' h''. m \<le> length bs \<and> j' < length fs \<and> same h'' \<and> only (field_cells (fs ! i) (p_at fs q i)) h' h'' \<and>
           (\<forall>k. noinit_loop M (m + k) env (pb_decode_noinit N env) st (vars_at fs q (req_before fs i) j) h' =
              noinit_loop M k env (pb_decode_noinit N env) (is_advance (length bs) st)
                (vars_at fs q (req_before fs (Suc i)) j') h'')))"

definition field_codec ::
  "(heap \<Rightarrow> bool) \<Rightarrow> (heap \<Rightarrow> bool) \<Rightarrow> nat \<Rightarrow> 's pb_enc_env \<Rightarrow> 's encode_fn \<Rightarrow> 's pb_env \<Rightarrow> heap \<Rightarrow> pb_msg_field list \<Rightarrow>
     addr \<Rightarrow> addr \<Rightarrow> nat \<Rightarrow> bool" where
  "field_codec fresh same n eenv enc env h fs p q i \<longleftrightarrow>
     (\<exists>bs. (\<forall>m. emits (\<lambda>st. encode_any_field m eenv enc st (iter_at fs p i) h) bs) \<and>
       decodes_field fresh same n env fs q i bs)"

lemma decodes_nothing:
  fixes env :: "'s pb_env"
  assumes "f_htype (fs ! i) \<noteq> PB_HTYPE_REQUIRED" "i < length fs" "\<And>h'. fresh h' \<Longrightarrow> same h'"
  shows "decodes_field fresh same n env fs q i []"
  unfolding decodes_field_def
proof (intro allI impI)
  fix N M and st :: "'s pb_istream" and rest j h' assume st: "istream_ok st" "j < length fs" "fresh h'"
  then show "\<exists>m j' h''. m \<le> length [] \<and> j' < length fs \<and> same h'' \<and> only (field_cells (fs ! i) (p_at fs q i)) h' h'' \<and>
    (\<forall>k. noinit_loop M (m + k) env (pb_decode_noinit N env) st (vars_at fs q (req_before fs i) j) h' =
       noinit_loop M k env (pb_decode_noinit N env) (is_advance (length []) st) (vars_at fs q (req_before fs (Suc i)) j') h'')"
    using assms by (intro exI [of _ 0] exI [of _ j] exI [of _ h']) (simp add: req_before_Suc)
qed

text \<open>The assumptions on a type, for one of its fields.\<close>

lemma decodes_tagged:
  fixes env :: "'s pb_env"
  assumes fs: "fields_ok fs" "i < length fs" "no_oneof fs" "distinct (map tag fs)" "unat (tag (fs ! i)) < 2 ^ 29"
    and f: "f_atype (fs ! i) = PB_ATYPE_STATIC" "f_ltype (fs ! i) \<noteq> PB_LTYPE_EXTENSION"
    "f_htype (fs ! i) = PB_HTYPE_REPEATED \<Longrightarrow> size_addr (p_at fs q i) (fs ! i) \<noteq> p_at fs q i"
    and wt: "unat wt < 8"
    and dec: "\<And>N M st rest h'. length bs + Suc n < N \<Longrightarrow> length bs < 2 ^ 32 \<Longrightarrow> istream_ok st \<Longrightarrow>
      pending st = bs @ rest \<Longrightarrow> fresh h' \<Longrightarrow>
      \<exists>h''. decode_static_field M env (pb_decode_noinit N env) st wt (iter_at fs q i) h' =
        Some (True, is_advance (length bs) st, iter_at fs q i, h'') \<and> same h'' \<and>
        only (field_cells (fs ! i) (p_at fs q i)) h' h''"
  shows "decodes_field fresh same n env fs q i (tag_bytes wt (fs ! i) @ bs)"
  unfolding decodes_field_def
proof (intro allI impI)
  let ?t = "tag_bytes wt (fs ! i)"
  fix N M and st :: "'s pb_istream" and rest j h'
  assume a: "length (?t @ bs) + n < N" "length (?t @ bs) < 2 ^ 32" "istream_ok st" "pending st = (?t @ bs) @ rest"
    "j < length fs" "fresh h'"
  have t: "0 < length ?t" by (simp only: tag_bytes_def pb_varint_buffer_bounds)
  have l: "length bs + Suc n < N" using a(1) t unfolding length_append by linarith
  obtain h'' where h: "decode_static_field M env (pb_decode_noinit N env) (is_advance (length ?t) st) wt (iter_at fs q i) h' =
        Some (True, is_advance (length bs) (is_advance (length ?t) st), iter_at fs q i, h'')" "same h''"
        "only (field_cells (fs ! i) (p_at fs q i)) h' h''"
    using dec [of N "is_advance (length ?t) st" rest h' M, OF l] a(2-6) by auto
  have p: "pending st = ?t @ bs @ rest" using a(4) by simp
  have "noinit_loop M (1 + k) env (pb_decode_noinit N env) st (vars_at fs q (req_before fs i) j) h' =
      noinit_loop M k env (pb_decode_noinit N env) (is_advance (length (?t @ bs)) st)
        (vars_at fs q (req_before fs (Suc i)) i) h''" for k
    using noinit_loop_field [OF fs f a(3) p wt a(5) h(1), of k] by simp
  moreover have "1 \<le> length (?t @ bs)" using t by (simp add: Suc_le_eq)
  ultimately show "\<exists>m j' h''. m \<le> length (?t @ bs) \<and> j' < length fs \<and> same h'' \<and>
      only (field_cells (fs ! i) (p_at fs q i)) h' h'' \<and>
      (\<forall>k. noinit_loop M (m + k) env (pb_decode_noinit N env) st (vars_at fs q (req_before fs i) j) h' =
         noinit_loop M k env (pb_decode_noinit N env) (is_advance (length (?t @ bs)) st)
           (vars_at fs q (req_before fs (Suc i)) j') h'')"
    using h(2,3) fs(2) by blast
qed


lemma static_msgD:
  assumes "static_msg (Suc n) D fs q sz"
  shows "fields_ok fs" "no_oneof fs" "distinct (map tag fs)"
    and "i < length fs \<Longrightarrow> unat (tag (fs ! i)) < 2 ^ 29"
    and "i < length fs \<Longrightarrow> field_type (static_msg n D) D (fs ! i) (p_at fs q i)"
    and "i < length fs \<Longrightarrow> f_atype (fs ! i) = PB_ATYPE_STATIC"
    and "i < length fs \<Longrightarrow> f_ltype (fs ! i) \<noteq> PB_LTYPE_EXTENSION"
    and "i < length fs \<Longrightarrow> f_htype (fs ! i) = PB_HTYPE_REPEATED \<Longrightarrow> size_addr (p_at fs q i) (fs ! i) \<noteq> p_at fs q i"
proof -
  show "fields_ok fs" "distinct (map tag fs)" using assms by simp_all
  show "no_oneof fs"
    unfolding no_oneof_def
  proof
    fix f assume "f \<in> set fs"
    then obtain i where "i < length fs" "f = fs ! i" by (auto simp: in_set_conv_nth)
    then have "field_type (static_msg n D) D f (p_at fs q i)" using assms by simp
    then show "f_htype f \<noteq> PB_HTYPE_ONEOF" by (auto simp: field_type_def)
  qed
  assume i: "i < length fs"
  show "unat (tag (fs ! i)) < 2 ^ 29" "field_type (static_msg n D) D (fs ! i) (p_at fs q i)" using assms i by simp_all
  then show "f_atype (fs ! i) = PB_ATYPE_STATIC" "f_ltype (fs ! i) \<noteq> PB_LTYPE_EXTENSION"
    "f_htype (fs ! i) = PB_HTYPE_REPEATED \<Longrightarrow> size_addr (p_at fs q i) (fs ! i) \<noteq> p_at fs q i"
    by (auto simp: field_type_def val_type_def word_le_nat_alt)
qed

lemma static_msg_disjoint:
  assumes "static_msg (Suc n) D fs q sz" "k < length fs" "l < length fs" "k \<noteq> l"
  shows "field_cells (fs ! k) (p_at fs q k) \<inter> field_cells (fs ! l) (p_at fs q l) = {}"
proof -
  have dis: "field_cells (fs ! k) (p_at fs q k) \<inter> field_cells (fs ! l) (p_at fs q l) = {}" if "l < k" "k < length fs" for k l
    using assms(1) that by simp
  show ?thesis using dis [of l k] dis [of k l] assms(2-4) by (cases "l < k") (simp_all add: Int_commute)
qed

lemma static_decodes_tagged:
  fixes env :: "'s pb_env"
  assumes "static_msg (Suc n) D fs q sz" "i < length fs" "unat wt < 8"
    and dec: "\<And>N M st rest h'. length bs + Suc n < N \<Longrightarrow> length bs < 2 ^ 32 \<Longrightarrow> istream_ok st \<Longrightarrow>
      pending st = bs @ rest \<Longrightarrow> fresh h' \<Longrightarrow>
      \<exists>h''. decode_static_field M env (pb_decode_noinit N env) st wt (iter_at fs q i) h' =
        Some (True, is_advance (length bs) st, iter_at fs q i, h'') \<and> same h'' \<and>
        only (field_cells (fs ! i) (p_at fs q i)) h' h''"
  shows "decodes_field fresh same n env fs q i (tag_bytes wt (fs ! i) @ bs)"
  using static_msgD [OF assms(1)] assms(2)
  by (intro decodes_tagged [OF _ _ _ _ _ _ _ _ assms(3) dec]) blast+

lemma iter_static:
  assumes "static_msg (Suc n) D fs q sz" "i < length fs"
  shows "it_field (iter_at fs a i) = fs ! i" "it_pData (iter_at fs a i) = p_at fs a i"
    "it_pSize (iter_at fs a i) = At (size_addr (p_at fs a i) (fs ! i))" "a \<le> p_at fs a i"
  using static_msgD [OF assms(1)] assms(2) iter_at_facts [of fs i a] by (simp_all add: p_at_def)

lemma encode_any_static:
  assumes "static_msg (Suc n) D fs q sz" "i < length fs"
  shows "encode_any_field m eenv enc st (iter_at fs p i) h = encode_basic_field m eenv enc st (fs ! i) (p_at fs p i) h"
  using static_msgD(6,7) [OF assms] iter_static [OF assms, of p] by (simp add: encode_any_field_def encode_field_def)

lemma emits_tagged:
  assumes "val_type M D f q" "emits (\<lambda>st. call_encoder eenv enc h st f a) bs"
  shows "emits (\<lambda>st. case pb_encode_tag_for_field st (f_plain f) of
      (False, st1) \<Rightarrow> (False, st1) | (True, st1) \<Rightarrow> call_encoder eenv enc h st1 f a) (tag_bytes (wire_type f) f @ bs)"
  by (rule emits_seq [OF emits_field_tag [OF assms(1)] assms(2)])

lemma required_field_codec:
  fixes env :: "'s pb_env"
  assumes t: "static_msg (Suc n) D fs q sz" "i < length fs" "f_htype (fs ! i) = PB_HTYPE_REQUIRED"
    and p: "p \<noteq> 0"
    and val: "val_codec F S (Suc n) eenv enc env h (fs ! i) (p_at fs p i) (p_at fs q i)"
    and fresh: "\<And>h'. fresh_field (fresh_msg n D h') D h' (fs ! i) (p_at fs q i) \<Longrightarrow> F h'"
    and same: "\<And>h''. S h'' \<Longrightarrow> same_field (same_msg n D h h'') D h h'' (fs ! i) (p_at fs p i) (p_at fs q i)"
  shows "field_codec (\<lambda>h'. fresh_field (fresh_msg n D h') D h' (fs ! i) (p_at fs q i))
    (\<lambda>h''. same_field (same_msg n D h h'') D h h'' (fs ! i) (p_at fs p i) (p_at fs q i)) n eenv enc env h fs p q i"
proof -
  let ?f = "fs ! i" and ?q = "p_at fs q i" and ?p = "p_at fs p i"
  have vt: "val_type (static_msg n D) D ?f ?q" using static_msgD(5) [OF t(1,2)] t(3) by (auto simp: field_type_def)
  have at: "f_atype ?f = PB_ATYPE_STATIC" using static_msgD(6) [OF t(1,2)] .
  have p0: "?p \<noteq> 0" using iter_static(4) [OF t(1,2), of p] p by simp
  obtain bs where bs: "emits (\<lambda>st. call_encoder eenv enc h st ?f ?p) bs" "decodes_val F S (Suc n) env ?f ?q bs"
    using val by (auto simp: val_codec_def)
  have "emits (\<lambda>st. encode_any_field m eenv enc st (iter_at fs p i) h) (tag_bytes (wire_type ?f) ?f @ bs)" for m
    using emits_tagged [OF vt bs(1)] t(3) at p0
    unfolding encode_any_static [OF t(1,2)] encode_basic_field_def Let_def by simp
  moreover have "decodes_field (\<lambda>h'. fresh_field (fresh_msg n D h') D h' ?f ?q)
    (\<lambda>h''. same_field (same_msg n D h h'') D h h'' ?f ?p ?q) n env fs q i (tag_bytes (wire_type ?f) ?f @ bs)"
  proof (rule static_decodes_tagged [OF t(1,2) wire_type_small])
    fix N M and st :: "'s pb_istream" and rest h'
    assume a: "length bs + Suc n < N" "length bs < 2 ^ 32" "istream_ok st" "pending st = bs @ rest"
      "fresh_field (fresh_msg n D h') D h' ?f ?q"
    obtain h'' where h: "call_decoder M env (pb_decode_noinit N env) st ?f ?q h' = Some (True, is_advance (length bs) st, h'')"
      "S h''" "only {?q..<?q + data_size ?f} h' h''"
      using bs(2) a(1-4) fresh [OF a(5)] unfolding decodes_val_def by blast
    have "only (field_cells ?f ?q) h' h''"
      by (rule only_mono [OF h(3) field_cells_data]) (simp add: t(3))
    moreover have "decode_static_field M env (pb_decode_noinit N env) st (wire_type ?f) (iter_at fs q i) h' =
        Some (True, is_advance (length bs) st, iter_at fs q i, h'')"
      using t(3) h(1) iter_static [OF t(1,2), of q] by (simp add: decode_static_field_def with_iter_def)
    ultimately show "\<exists>h''. decode_static_field M env (pb_decode_noinit N env) st (wire_type ?f) (iter_at fs q i) h' =
        Some (True, is_advance (length bs) st, iter_at fs q i, h'') \<and>
        same_field (same_msg n D h h'') D h h'' ?f ?p ?q \<and> only (field_cells ?f ?q) h' h''"
      using same [OF h(2)] by blast
  qed
  ultimately show ?thesis unfolding field_codec_def by blast
qed


lemma absent_field_codec:
  fixes env :: "'s pb_env"
  assumes t: "static_msg (Suc n) D fs q sz" "i < length fs" "f_htype (fs ! i) = PB_HTYPE_OPTIONAL"
    and no: "\<not> load_bool h (size_addr (p_at fs p i) (fs ! i))"
  shows "field_codec (\<lambda>h'. fresh_field (fresh_msg n D h') D h' (fs ! i) (p_at fs q i))
    (\<lambda>h''. same_field (same_msg n D h h'') D h h'' (fs ! i) (p_at fs p i) (p_at fs q i)) n eenv enc env h fs p q i"
proof -
  have so: "size_offset (fs ! i) \<noteq> 0" using static_msgD(5) [OF t(1,2)] t(3) by (auto simp: field_type_def)
  have e: "encode_any_field m eenv enc st (iter_at fs p i) h = (True, st)" for m st
    using t(3) no so static_msgD(6) [OF t(1,2)]
    unfolding encode_any_static [OF t(1,2)] encode_basic_field_def Let_def by simp
  have "emits (\<lambda>st. encode_any_field m eenv enc st (iter_at fs p i) h) []" for m
    unfolding e by (rule emits_nothing)
  moreover have "decodes_field (\<lambda>h'. fresh_field (fresh_msg n D h') D h' (fs ! i) (p_at fs q i))
      (\<lambda>h''. same_field (same_msg n D h h'') D h h'' (fs ! i) (p_at fs p i) (p_at fs q i)) n env fs q i []"
    using t(2,3) no by (intro decodes_nothing) (simp_all add: fresh_field_def same_field_def)
  ultimately show ?thesis unfolding field_codec_def by blast
qed

lemma optional_field_codec:
  fixes env :: "'s pb_env"
  assumes t: "static_msg (Suc n) D fs q sz" "i < length fs" "f_htype (fs ! i) = PB_HTYPE_OPTIONAL"
    and p: "p \<noteq> 0" and yes: "load_bool h (size_addr (p_at fs p i) (fs ! i))"
    and val: "val_codec (\<lambda>h'. f_ltype (fs ! i) = PB_LTYPE_SUBMESSAGE \<longrightarrow> fresh_msg n D h' (D (fptr (fs ! i))) (p_at fs q i))
      (\<lambda>h''. same_val (same_msg n D h h'') D h h'' (fs ! i) (p_at fs p i) (p_at fs q i))
      (Suc n) eenv enc env h (fs ! i) (p_at fs p i) (p_at fs q i)"
  shows "field_codec (\<lambda>h'. fresh_field (fresh_msg n D h') D h' (fs ! i) (p_at fs q i))
    (\<lambda>h''. same_field (same_msg n D h h'') D h h'' (fs ! i) (p_at fs p i) (p_at fs q i)) n eenv enc env h fs p q i"
proof -
  let ?f = "fs ! i" and ?q = "p_at fs q i" and ?p = "p_at fs p i"
  let ?s = "size_addr ?q ?f"
  have ft: "val_type (static_msg n D) D ?f ?q" "size_offset ?f \<noteq> 0" "?s \<noteq> ?q" "?s \<notin> data_cells ?f ?q"
    using static_msgD(5) [OF t(1,2)] t(3) by (auto simp: field_type_def)
  have out: "?s \<notin> {?q..<?q + data_size ?f}" using ft(4) t(3) by (simp add: data_cells_def)
  have at: "f_atype ?f = PB_ATYPE_STATIC" using static_msgD(6) [OF t(1,2)] .
  obtain bs where bs: "emits (\<lambda>st. call_encoder eenv enc h st ?f ?p) bs"
    "decodes_val (\<lambda>h'. f_ltype ?f = PB_LTYPE_SUBMESSAGE \<longrightarrow> fresh_msg n D h' (D (fptr ?f)) ?q)
       (\<lambda>h''. same_val (same_msg n D h h'') D h h'' ?f ?p ?q) (Suc n) env ?f ?q bs"
    using val by (auto simp: val_codec_def)
  have "emits (\<lambda>st. encode_any_field m eenv enc st (iter_at fs p i) h) (tag_bytes (wire_type ?f) ?f @ bs)" for m
    using emits_tagged [OF ft(1) bs(1)] t(3) at ft(2) yes
    unfolding encode_any_static [OF t(1,2)] encode_basic_field_def Let_def by simp
  moreover have "decodes_field (\<lambda>h'. fresh_field (fresh_msg n D h') D h' ?f ?q)
    (\<lambda>h''. same_field (same_msg n D h h'') D h h'' ?f ?p ?q) n env fs q i (tag_bytes (wire_type ?f) ?f @ bs)"
  proof (rule static_decodes_tagged [OF t(1,2) wire_type_small])
    fix N M and st :: "'s pb_istream" and rest h'
    assume a: "length bs + Suc n < N" "length bs < 2 ^ 32" "istream_ok st" "pending st = bs @ rest"
      "fresh_field (fresh_msg n D h') D h' ?f ?q"
    let ?h = "store_bool h' ?s True"
    have o: "only {?s} h' ?h" by (rule store_bool_only)
    have "f_ltype ?f = PB_LTYPE_SUBMESSAGE \<longrightarrow> fresh_msg n D ?h (D (fptr ?f)) ?q"
    proof
      assume s: "f_ltype ?f = PB_LTYPE_SUBMESSAGE"
      then have m: "static_msg n D (D (fptr ?f)) ?q (data_size ?f)" using ft(1) by (auto simp: val_type_def word_le_nat_alt)
      have "fresh_msg n D h' (D (fptr ?f)) ?q" using a(5) s t(3) by (simp add: fresh_field_def)
      then show "fresh_msg n D ?h (D (fptr ?f)) ?q" by (rule fresh_msg_only [OF m _ o]) (use out in auto)
    qed
    then obtain h'' where h: "call_decoder M env (pb_decode_noinit N env) st ?f ?q ?h = Some (True, is_advance (length bs) st, h'')"
      "same_val (same_msg n D h h'') D h h'' ?f ?p ?q" "only {?q..<?q + data_size ?f} ?h h''"
      using bs(2) a(1-4) unfolding decodes_val_def by blast
    have "load_bool h'' ?s" using only_load_bool [OF h(3) out] by simp
    then have "same_field (same_msg n D h h'') D h h'' ?f ?p ?q" using t(3) yes h(2) by (simp add: same_field_def)
    moreover have "only (field_cells ?f ?q) h' h''"
      using field_cells_data [of ?f ?q] field_cells_size(1) [OF t(3), of ?q] t(3)
      by (intro only_trans [OF o h(3)]) simp_all
    moreover have "decode_static_field M env (pb_decode_noinit N env) st (wire_type ?f) (iter_at fs q i) h' =
        Some (True, is_advance (length bs) st, iter_at fs q i, h'')"
      using t(3) h(1) ft(3) iter_static [OF t(1,2), of q] by (simp add: decode_static_field_def with_iter_def)
    ultimately show "\<exists>h''. decode_static_field M env (pb_decode_noinit N env) st (wire_type ?f) (iter_at fs q i) h' =
        Some (True, is_advance (length bs) st, iter_at fs q i, h'') \<and>
        same_field (same_msg n D h h'') D h h'' ?f ?p ?q \<and> only (field_cells ?f ?q) h' h''"
      by blast
  qed
  ultimately show ?thesis unfolding field_codec_def by blast
qed

lemma repeated_field_codec:
  fixes env :: "'s pb_env"
  assumes t: "static_msg (Suc n) D fs q sz" "i < length fs" "f_htype (fs ! i) = PB_HTYPE_REPEATED"
    and p: "p \<noteq> 0" and valid: "valid_field V D h (fs ! i) (p_at fs p i)"
  shows "field_codec (\<lambda>h'. fresh_field (fresh_msg n D h') D h' (fs ! i) (p_at fs q i))
    (\<lambda>h''. same_field (same_msg n D h h'') D h h'' (fs ! i) (p_at fs p i) (p_at fs q i)) n eenv enc env h fs p q i"
proof -
  let ?f = "fs ! i" and ?q = "p_at fs q i" and ?p = "p_at fs p i"
  let ?s = "size_addr ?q ?f" and ?d = "data_size ?f"
  have ft: "f_ltype ?f \<le> PB_LTYPE_LAST_PACKABLE" "size_offset ?f \<noteq> 0" "10 * array_size ?f < 2 ^ 32"
    "{?s..<?s + 4} \<inter> data_cells ?f ?q = {}"
    using static_msgD(5) [OF t(1,2)] t(3) by (auto simp: field_type_def)
  have at: "f_atype ?f = PB_ATYPE_STATIC" using static_msgD(6) [OF t(1,2)] .
  define c where "c = load_size h (size_addr ?p ?f)"
  define ms where "ms = array_mem h ?f ?p c"
  have c: "c \<le> array_size ?f" "\<forall>m\<in>set ms. scalar_item (unat (f_ltype ?f)) (f_plain ?f) m" "length ms = c"
    "\<forall>m\<in>set ms. length m = ?d"
    using valid t(3) by (auto simp: valid_field_def c_def ms_def array_mem_def)
  have p0: "?p \<noteq> 0" using iter_static(4) [OF t(1,2), of p] p by simp
  have e: "encode_any_field m eenv enc st (iter_at fs p i) h =
      encode_array st (f_plain ?f) (array_items h ?f ?p c) (\<lambda>st _ p. call_encoder eenv enc h st ?f p)" for m st
    using t(3) ft(2) at
    unfolding encode_any_static [OF t(1,2)] encode_basic_field_def Let_def by (simp add: c_def)
  show ?thesis
  proof (cases "c = 0")
    case True
    have "emits (\<lambda>st. encode_any_field m eenv enc st (iter_at fs p i) h) []" for m
      unfolding e using True by (simp add: array_items_def encode_array_def emits_nothing)
    moreover have "decodes_field (\<lambda>h'. fresh_field (fresh_msg n D h') D h' ?f ?q)
        (\<lambda>h''. same_field (same_msg n D h h'') D h h'' ?f ?p ?q) n env fs q i []"
      using t(2,3) True
      by (intro decodes_nothing) (simp_all add: fresh_field_def same_field_def hp_load_def flip: c_def)
    ultimately show ?thesis unfolding field_codec_def by blast
  next
    case False
    obtain func and wire where codec: "PB_ENCODERS (\<lambda>(st :: 's pb_ostream) _ _. (False, st)) ! unat (f_ltype ?f) = Some func"
      "item_codec func (PB_DECODERS ! unat (f_ltype ?f)) (f_ltype ?f) (scalar_item (unat (f_ltype ?f))) wire"
      by (rule scalar_rows [OF ft(1)])
    let ?ws = "concat (map (wire (f_plain ?f)) ms)"
    have ws: "?ws = item_codec.wires wire (f_plain ?f) ms" by (simp add: item_codec.wires_def [OF codec(2)])
    have em: "emits (\<lambda>st. encode_any_field m eenv enc st (iter_at fs p i) h)
        (tag_bytes PB_WT_STRING ?f @ string_bytes ?ws)" for m
      unfolding e using emits_array_field [OF ft(1) at p0 _ c(1) _ codec] False c(2) by (simp add: ms_def)
    have wl: "length ?ws < 2 ^ 32"
      using item_codec.length_wires [OF codec(2) c(2)] c(1,3) ft(3) unfolding ws by linarith
    have "decodes_field (\<lambda>h'. fresh_field (fresh_msg n D h') D h' ?f ?q)
      (\<lambda>h''. same_field (same_msg n D h h'') D h h'' ?f ?p ?q) n env fs q i (tag_bytes PB_WT_STRING ?f @ string_bytes ?ws)"
    proof (rule static_decodes_tagged [OF t(1,2)])
      fix N M and st :: "'s pb_istream" and rest h'
      assume a: "istream_ok st" "pending st = string_bytes ?ws @ rest" "fresh_field (fresh_msg n D h') D h' ?f ?q"
      have z: "load_size h' ?s = 0" using a(3) t(3) by (simp add: fresh_field_def)
      let ?h1 = "store_items h' ?q ?d (map Some ms)"
      let ?h2 = "store_size ?h1 ?s c"
      have o: "only {?q..<?q + ?d * c} h' ?h1" "hp_load ?h1 ?q (?d * c) = concat ms"
        using store_items_concat [OF c(4), of h' ?q] c(3) by simp_all
      have o2: "only {?s..<?s + 4} ?h1 ?h2" by (rule store_size_only)
      have i: "{?q..<?q + ?d * c} \<subseteq> field_cells ?f ?q" by (rule field_cells_items [OF t(3) c(1)])
      have cells: "{?q..<?q + ?d * c} \<subseteq> data_cells ?f ?q"
        using t(3) mult_le_mono2 [OF c(1), of ?d] by (auto simp: data_cells_def intro: less_le_trans)
      have d: "decode_packed (PB_DECODERS ! unat (f_ltype ?f)) st (f_plain ?f) 0 =
          (True, c, map Some ms, is_advance (length (string_bytes ?ws)) st)"
        using item_codec.decode_packed_wires [OF codec(2) c(2) a(1), of rest 0] a(2) wl c(1,3)
        unfolding ws by (simp add: pb_field.truncate_def)
      have "decode_static_field M env (pb_decode_noinit N env) st PB_WT_STRING (iter_at fs q i) h' =
          Some (True, is_advance (length (string_bytes ?ws)) st, iter_at fs q i, ?h2)"
        using t(3) d z ft(1) iter_static [OF t(1,2), of q]
        by (simp add: decode_static_field_def Let_def it_load_size_def it_store_size_def)
      moreover have "same_field (same_msg n D h ?h2) D h ?h2 ?f ?p ?q"
      proof -
        have "hp_load ?h2 ?q (?d * c) = hp_load ?h1 ?q (?d * c)" using cells ft(4) by (intro only_load [OF o2]) blast
        moreover have "concat ms = hp_load h ?p (?d * c)" by (simp add: ms_def array_mem_def concat_loads)
        moreover have "c < 2 ^ 32" using c(1) ft(3) by simp
        ultimately show ?thesis using t(3) o(2) by (simp add: same_field_def flip: c_def)
      qed
      moreover have "only (field_cells ?f ?q) h' ?h2"
        by (rule only_trans [OF o(1) o2 i field_cells_size(2) [OF t(3)]])
      ultimately show "\<exists>h''. decode_static_field M env (pb_decode_noinit N env) st PB_WT_STRING (iter_at fs q i) h' =
          Some (True, is_advance (length (string_bytes ?ws)) st, iter_at fs q i, h'') \<and>
          same_field (same_msg n D h h'') D h h'' ?f ?p ?q \<and> only (field_cells ?f ?q) h' h''"
        by blast
    qed simp
    with em show ?thesis unfolding field_codec_def by blast
  qed
qed


lemma static_field_codec:
  fixes env :: "'s pb_env"
  assumes t: "static_msg (Suc n) D fs q sz" "i < length fs" and valid: "valid_msg (Suc n) D h fs p"
    and D: "enc_fields_at eenv = D" "fields_at env = D"
    and msg: "\<And>fs p q sz. static_msg n D fs q sz \<Longrightarrow> valid_msg n D h fs p \<Longrightarrow>
      msg_codec (\<lambda>h'. fresh_msg n D h' fs q) (\<lambda>h''. same_msg n D h h'' fs p q) n enc env h fs p q sz"
  shows "field_codec (\<lambda>h'. fresh_field (fresh_msg n D h') D h' (fs ! i) (p_at fs q i))
    (\<lambda>h''. same_field (same_msg n D h h'') D h h'' (fs ! i) (p_at fs p i) (p_at fs q i)) n eenv enc env h fs p q i"
proof -
  let ?f = "fs ! i" and ?q = "p_at fs q i" and ?p = "p_at fs p i"
  have p: "p \<noteq> 0" and v: "valid_field (valid_msg n D h) D h ?f ?p" using valid t(2) by simp_all
  have p0: "?p \<noteq> 0" using iter_static(4) [OF t, of p] p by simp
  have at: "f_atype ?f = PB_ATYPE_STATIC" by (rule static_msgD(6) [OF t])
  have val: "val_codec (\<lambda>h'. f_ltype ?f = PB_LTYPE_SUBMESSAGE \<longrightarrow> fresh_msg n D h' (D (fptr ?f)) ?q)
      (\<lambda>h''. same_val (same_msg n D h h'') D h h'' ?f ?p ?q) (Suc n) eenv enc env h ?f ?p ?q"
    if "val_type (static_msg n D) D ?f ?q" "f_htype ?f \<noteq> PB_HTYPE_REPEATED" "valid_val (valid_msg n D h) D h ?f ?p"
    by (rule value_codec [OF that(1) at that(2,3) p0 D msg])
  consider "f_htype ?f = PB_HTYPE_REQUIRED" | "f_htype ?f = PB_HTYPE_OPTIONAL" | "f_htype ?f = PB_HTYPE_REPEATED"
    using static_msgD(5) [OF t] by (auto simp: field_type_def)
  then show ?thesis
  proof cases
    case 1
    then have "val_type (static_msg n D) D ?f ?q" "valid_val (valid_msg n D h) D h ?f ?p"
      using static_msgD(5) [OF t] v by (auto simp: field_type_def valid_field_def)
    from required_field_codec [OF t 1 p val [OF this(1) _ this(2)]] 1 show ?thesis
      by (simp add: fresh_field_def same_field_def)
  next
    case 2
    then have vt: "val_type (static_msg n D) D ?f ?q" using static_msgD(5) [OF t] by (auto simp: field_type_def)
    show ?thesis
    proof (cases "load_bool h (size_addr ?p ?f)")
      case True
      then have "valid_val (valid_msg n D h) D h ?f ?p" using v 2 by (simp add: valid_field_def)
      from optional_field_codec [OF t 2 p True val [OF vt _ this]] 2 show ?thesis by simp
    next
      case False
      show ?thesis by (rule absent_field_codec [OF t 2 False])
    qed
  next
    case 3
    show ?thesis by (rule repeated_field_codec [OF t 3 p v])
  qed
qed


section \<open>All fields\<close>

primrec encode_upto ::
  "nat \<Rightarrow> 's pb_enc_env \<Rightarrow> 's encode_fn \<Rightarrow> pb_msg_field list \<Rightarrow> addr \<Rightarrow> heap \<Rightarrow> nat \<Rightarrow> 's pb_ostream \<Rightarrow> bool \<times> 's pb_ostream" where
  "encode_upto n eenv enc fs p h 0 st = (True, st)"
| "encode_upto n eenv enc fs p h (Suc i) st =
     (case encode_upto n eenv enc fs p h i st of
        (False, st1) \<Rightarrow> (False, st1)
      | (True, st1) \<Rightarrow> encode_any_field n eenv enc st1 (iter_at fs p i) h)"

lemma encode_body_upto:
  assumes "fields_ok fs"
  shows "encode_body n eenv enc st fs p h = encode_upto n eenv enc fs p h (length fs) st"
proof (cases "fs = []")
  case True
  then show ?thesis by (simp add: encode_body_def pb_field_iter_begin_def Let_def field_at_def PB_LAST_FIELD_def)
next
  case False
  let ?body = "\<lambda>it (ok, st). Some (if ok then encode_any_field n eenv enc st it h else (False, st))"
  have "fold_fields fs p ?body [0..<i] (True, st) = Some (encode_upto n eenv enc fs p h i st)" for i
    by (induction i) (auto simp: fold_fields_def split: prod.split bool.split)
  then have "fields_loop (Suc (length fs)) ?body (iter_at fs p 0) (True, st) =
      Some (encode_upto n eenv enc fs p h (length fs) st)"
    using fields_loop_at [OF assms, of 0 "Suc (length fs)" ?body p "(True, st)"] False by simp
  moreover have "fst (pb_field_iter_begin fs p)"
    using False assms by (simp add: pb_field_iter_begin_def Let_def tag_field_at)
  ultimately show ?thesis by (simp add: encode_body_def prod.case_eq_if)
qed

lemma seen_after_mask: "seen_after r = [mask (min r 32), mask (min (r - 32) 32)]"
proof (induction r)
  case 0
  then show ?case by simp
next
  case (Suc r)
  have m: "mask (Suc k) = (mask k OR push_bit k 1 :: 32 word)" for k
    by (simp add: mask_Suc_exp or.commute push_bit_of_1)
  consider "r < 32" | "32 \<le> r" "r < 64" | "64 \<le> r" by linarith
  then show ?case
  proof cases
    case 1
    then show ?thesis using Suc m [of r] by (simp add: PB_MAX_REQUIRED_FIELDS_def min_def)
  next
    case 2
    then obtain k where k: "r = 32 + k" "k < 32" by (metis le_add_diff_inverse nat_add_left_cancel_less numeral_Bit0)
    then have "r div 32 = 1" "r mod 32 = k" "r < PB_MAX_REQUIRED_FIELDS" by (simp_all add: PB_MAX_REQUIRED_FIELDS_def)
    moreover have "seen_after r = [mask 32, mask k]" using Suc k by (simp add: min_def)
    ultimately have "seen_after (Suc r) = [mask 32, mask k OR push_bit k 1]"
      by (simp only: seen_after.simps if_True) (simp del: push_bit_of_1)
    then show ?thesis using k m [of k] by (simp add: min_def del: push_bit_of_1)
  next
    case 3
    then have "min (r - 32) 32 = 32" "min r 32 = 32" "min (Suc r - 32) 32 = 32" "min (Suc r) 32 = 32" by simp_all
    then show ?thesis using Suc 3 by (simp only: seen_after.simps PB_MAX_REQUIRED_FIELDS_def) simp
  qed
qed

lemma drop_bit_minus_1: "k \<le> 32 \<Longrightarrow> drop_bit (32 - k) (- 1 :: 32 word) = mask k"
  by (rule bit_word_eqI) (auto simp: bit_drop_bit_eq bit_mask_iff bit_minus_1_iff)

lemma required_seen_after: "required_seen (seen_after r) (min PB_MAX_REQUIRED_FIELDS r)"
proof -
  let ?k = "min 64 r"
  have full: "mask 32 = (- 1 :: 32 word)" by (simp add: mask_eq_exp_minus_1)
  have d: "?k mod 32 \<noteq> 0 \<Longrightarrow> drop_bit (32 - ?k mod 32) (- 1 :: 32 word) = mask (?k mod 32)"
    by (rule drop_bit_minus_1) simp
  consider "r < 32" | "32 \<le> r" "r < 64" | "64 \<le> r" by linarith
  then show ?thesis
  proof cases
    case 1
    then show ?thesis using d by (simp add: required_seen_def seen_after_mask PB_MAX_REQUIRED_FIELDS_def min_def)
  next
    case 2
    then obtain k where k: "r = 32 + k" "k < 32" by (metis le_add_diff_inverse nat_add_left_cancel_less numeral_Bit0)
    then have "r div 32 = 1" "r mod 32 = k" by simp_all
    then show ?thesis using k d full
      by (simp add: required_seen_def seen_after_mask PB_MAX_REQUIRED_FIELDS_def min_def)
  next
    case 3
    then have "min (r - 32) 32 = 32" "min r 32 = 32" "?k = 64" by simp_all
    then show ?thesis using full
      by (auto simp: required_seen_def seen_after_mask PB_MAX_REQUIRED_FIELDS_def less_Suc_eq numeral_2_eq_2)
  qed
qed


lemma last_field_loop_at:
  assumes "fields_ok fs" "i < length fs" "length fs - i \<le> k"
  shows "last_field_loop k (iter_at fs q i) =
    (it_required_field_index (iter_at fs q (length fs - 1)), ftype (fs ! (length fs - 1)), iter_at fs q 0)"
  using assms(2,3)
proof (induction k arbitrary: i)
  case (Suc k)
  show ?case
  proof (cases "Suc i < length fs")
    case True
    then show ?thesis using Suc iter_next_at [OF assms(1) Suc.prems(1), of q] by simp
  next
    case False
    then have i: "length fs - 1 = i" using Suc.prems(1) by linarith
    show ?thesis using False Suc.prems(1) iter_next_at [OF assms(1) Suc.prems(1), of q] assms(1) unfolding i by simp
  qed
qed simp

lemma required_count_at:
  assumes "fields_ok fs" "no_oneof fs" "i < length fs"
  shows "required_count (iter_at fs q i) = min PB_MAX_REQUIRED_FIELDS (req_before fs (length fs))"
proof -
  have n: "length fs - 1 < length fs" "Suc (length fs - 1) = length fs" "0 < length fs" using assms(3) by linarith+
  have "it_required_field_index (iter_at fs q (length fs - 1)) = req_before fs (length fs - 1)"
    using iter_at_facts [OF assms(1) n(1) assms(2), of q] by blast
  moreover have "tag (it_field (iter_at fs q 0)) \<noteq> 0" using assms(1) n(3)
    unfolding it_field_iter_at [OF assms(1) n(3)] by (simp add: fields_ok_def)
  moreover have "req_before fs (length fs) =
      (if f_htype (fs ! (length fs - 1)) = PB_HTYPE_REQUIRED then req_before fs (length fs - 1) + 1
       else req_before fs (length fs - 1))"
    using req_before_Suc [OF n(1)] n(2) by simp
  ultimately show ?thesis
    using last_field_loop_at [OF assms(1,3), of "length fs" q] assms(1) by (simp add: required_count_def)
qed

lemma noinit_init_at: "noinit_init fs q = vars_at fs q 0 0"
  by (simp add: noinit_init_def vars_at_def)

text \<open>The fields in front of field \<open>i\<close>.\<close>

definition decodes_upto ::
  "nat \<Rightarrow> (addr \<Rightarrow> pb_msg_field list) \<Rightarrow> heap \<Rightarrow> 's pb_env \<Rightarrow> pb_msg_field list \<Rightarrow> addr \<Rightarrow> addr \<Rightarrow> nat \<Rightarrow> nat \<Rightarrow>
     byte list \<Rightarrow> bool" where
  "decodes_upto n D h env fs p q sz i bs \<longleftrightarrow>
     (\<forall>N M st rest h'. length bs + n < N \<longrightarrow> length bs < 2 ^ 32 \<longrightarrow> istream_ok st \<longrightarrow> pending st = bs @ rest \<longrightarrow>
        fresh_msg (Suc n) D h' fs q \<longrightarrow>
        (\<exists>m j h''. m \<le> length bs \<and> j < length fs \<and> only {q..<q + sz} h' h'' \<and>
           (\<forall>l<i. same_field (same_msg n D h h'') D h h'' (fs ! l) (p_at fs p l) (p_at fs q l)) \<and>
           (\<forall>l. i \<le> l \<longrightarrow> l < length fs \<longrightarrow> fresh_field (fresh_msg n D h'') D h'' (fs ! l) (p_at fs q l)) \<and>
           (\<forall>k. noinit_loop M (m + k) env (pb_decode_noinit N env) st (vars_at fs q 0 0) h' =
              noinit_loop M k env (pb_decode_noinit N env) (is_advance (length bs) st)
                (vars_at fs q (req_before fs i) j) h'')))"

lemma decodes_upto_step:
  fixes env :: "'s pb_env"
  assumes t: "static_msg (Suc n) D fs q sz" "i < length fs" and valid: "valid_msg (Suc n) D h fs p"
    and upto: "decodes_upto n D h env fs p q sz i bs"
    and field: "decodes_field (\<lambda>h'. fresh_field (fresh_msg n D h') D h' (fs ! i) (p_at fs q i))
      (\<lambda>h''. same_field (same_msg n D h h'') D h h'' (fs ! i) (p_at fs p i) (p_at fs q i)) n env fs q i bs'"
  shows "decodes_upto n D h env fs p q sz (Suc i) (bs @ bs')"
  unfolding decodes_upto_def
proof (intro allI impI)
  fix N M and st :: "'s pb_istream" and rest h'
  assume a: "length (bs @ bs') + n < N" "length (bs @ bs') < 2 ^ 32" "istream_ok st" "pending st = (bs @ bs') @ rest"
    "fresh_msg (Suc n) D h' fs q"
  let ?dec = "pb_decode_noinit N env" and ?st1 = "is_advance (length bs) st"
  have a1: "length bs + n < N" "length bs < 2 ^ 32" "pending st = bs @ bs' @ rest"
    "length bs' + n < N" "length bs' < 2 ^ 32" "istream_ok ?st1" "pending ?st1 = bs' @ rest"
    using a by simp_all
  obtain m j h1 where u: "m \<le> length bs" "j < length fs" "only {q..<q + sz} h' h1"
    "\<And>l. l < i \<Longrightarrow> same_field (same_msg n D h h1) D h h1 (fs ! l) (p_at fs p l) (p_at fs q l)"
    "\<And>l. i \<le> l \<Longrightarrow> l < length fs \<Longrightarrow> fresh_field (fresh_msg n D h1) D h1 (fs ! l) (p_at fs q l)"
    "\<And>k. noinit_loop M (m + k) env ?dec st (vars_at fs q 0 0) h' =
       noinit_loop M k env ?dec ?st1 (vars_at fs q (req_before fs i) j) h1"
    using upto [unfolded decodes_upto_def, rule_format, OF a1(1,2) a(3) a1(3) a(5), of M] by blast
  obtain m' j' h2 where f: "m' \<le> length bs'" "j' < length fs"
    "same_field (same_msg n D h h2) D h h2 (fs ! i) (p_at fs p i) (p_at fs q i)"
    "only (field_cells (fs ! i) (p_at fs q i)) h1 h2"
    "\<And>k. noinit_loop M (m' + k) env ?dec ?st1 (vars_at fs q (req_before fs i) j) h1 =
       noinit_loop M k env ?dec (is_advance (length bs') ?st1) (vars_at fs q (req_before fs (Suc i)) j') h2"
    using field [unfolded decodes_field_def, rule_format, OF a1(4-7) u(2) u(5) [OF order_refl t(2)], of M] by blast
  have sub: "field_cells (fs ! l) (p_at fs q l) \<subseteq> {q..<q + sz}" if "l < length fs" for l using t(1) that by simp
  have disj: "field_cells (fs ! i) (p_at fs q i) \<inter> field_cells (fs ! l) (p_at fs q l) = {}"
    if "l < length fs" "l \<noteq> i" for l
    by (rule static_msg_disjoint [OF t that(1)]) (use that(2) in simp)
  have "same_field (same_msg n D h h2) D h h2 (fs ! l) (p_at fs p l) (p_at fs q l)" if "l < Suc i" for l
  proof (cases "l = i")
    case True
    then show ?thesis using f(3) by simp
  next
    case False
    then have l: "l < i" "l < length fs" "l \<noteq> i" using that t(2) by simp_all
    show ?thesis
    proof (rule same_field_only [where S = "same_msg n D h" and V = "valid_msg n D h"])
      show "same_msg n D h h2 (D (fptr (fs ! l))) (p_at fs p l) (p_at fs q l)"
        if "static_msg n D (D (fptr (fs ! l))) (p_at fs q l) (data_size (fs ! l))"
          "field_cells (fs ! i) (p_at fs q i) \<inter> {p_at fs q l..<p_at fs q l + data_size (fs ! l)} = {}"
          "valid_msg n D h (D (fptr (fs ! l))) (p_at fs p l)"
          "same_msg n D h h1 (D (fptr (fs ! l))) (p_at fs p l) (p_at fs q l)"
        using that by (intro same_msg_only [OF that(1,3,4) f(4) that(2)])
      show "valid_field (valid_msg n D h) D h (fs ! l) (p_at fs p l)" using valid l(2) by simp
    qed (rule static_msgD(5) [OF t(1) l(2)] u(4) [OF l(1)] f(4) disj [OF l(2,3)])+
  qed
  moreover have "fresh_field (fresh_msg n D h2) D h2 (fs ! l) (p_at fs q l)" if "Suc i \<le> l" "l < length fs" for l
  proof (rule fresh_field_only [where F = "fresh_msg n D"])
    show "fresh_msg n D h2 (D (fptr (fs ! l))) (p_at fs q l)"
      if "static_msg n D (D (fptr (fs ! l))) (p_at fs q l) (data_size (fs ! l))"
        "field_cells (fs ! i) (p_at fs q i) \<inter> {p_at fs q l..<p_at fs q l + data_size (fs ! l)} = {}"
        "fresh_msg n D h1 (D (fptr (fs ! l))) (p_at fs q l)"
      using that by (intro fresh_msg_only [OF that(1,3) f(4) that(2)])
    show "fresh_field (fresh_msg n D h1) D h1 (fs ! l) (p_at fs q l)" using u(5) that by simp
    show "field_cells (fs ! i) (p_at fs q i) \<inter> field_cells (fs ! l) (p_at fs q l) = {}" using disj that by simp
  qed (rule static_msgD(5) [OF t(1) that(2)] f(4))+
  moreover have "only {q..<q + sz} h' h2" by (rule only_trans [OF u(3) f(4) order_refl sub [OF t(2)]])
  moreover have "noinit_loop M (m + m' + k) env ?dec st (vars_at fs q 0 0) h' =
      noinit_loop M k env ?dec (is_advance (length (bs @ bs')) st) (vars_at fs q (req_before fs (Suc i)) j') h2" for k
    using u(6) [of "m' + k"] f(5) [of k] by (simp add: add.assoc)
  moreover have "m + m' \<le> length (bs @ bs')" using u(1) f(1) by simp
  ultimately show "\<exists>m j h''. m \<le> length (bs @ bs') \<and> j < length fs \<and> only {q..<q + sz} h' h'' \<and>
      (\<forall>l<Suc i. same_field (same_msg n D h h'') D h h'' (fs ! l) (p_at fs p l) (p_at fs q l)) \<and>
      (\<forall>l. Suc i \<le> l \<longrightarrow> l < length fs \<longrightarrow> fresh_field (fresh_msg n D h'') D h'' (fs ! l) (p_at fs q l)) \<and>
      (\<forall>k. noinit_loop M (m + k) env ?dec st (vars_at fs q 0 0) h' =
         noinit_loop M k env ?dec (is_advance (length (bs @ bs')) st)
           (vars_at fs q (req_before fs (Suc i)) j) h'')"
    using f(2) by blast
qed


section \<open>Messages\<close>

lemma fields_codec:
  fixes env :: "'s pb_env"
  assumes t: "static_msg (Suc n) D fs q sz" and valid: "valid_msg (Suc n) D h fs p"
    and D: "enc_fields_at eenv = D" "fields_at env = D"
    and msg: "\<And>fs p q sz. static_msg n D fs q sz \<Longrightarrow> valid_msg n D h fs p \<Longrightarrow>
      msg_codec (\<lambda>h'. fresh_msg n D h' fs q) (\<lambda>h''. same_msg n D h h'' fs p q) n enc env h fs p q sz"
    and "fs \<noteq> []"
  shows "i \<le> length fs \<Longrightarrow> \<exists>bs. emits (encode_upto n eenv enc fs p h i) bs \<and> decodes_upto n D h env fs p q sz i bs"
proof (induction i)
  case 0
  have "decodes_upto n D h env fs p q sz 0 []"
    unfolding decodes_upto_def
  proof (intro allI impI)
    fix N M and st :: "'s pb_istream" and rest h'
    assume "istream_ok st" "fresh_msg (Suc n) D h' fs q"
    with assms(6) show "\<exists>m j h''. m \<le> length [] \<and> j < length fs \<and> only {q..<q + sz} h' h'' \<and>
        (\<forall>l<0. same_field (same_msg n D h h'') D h h'' (fs ! l) (p_at fs p l) (p_at fs q l)) \<and>
        (\<forall>l. 0 \<le> l \<longrightarrow> l < length fs \<longrightarrow> fresh_field (fresh_msg n D h'') D h'' (fs ! l) (p_at fs q l)) \<and>
        (\<forall>k. noinit_loop M (m + k) env (pb_decode_noinit N env) st (vars_at fs q 0 0) h' =
           noinit_loop M k env (pb_decode_noinit N env) (is_advance (length []) st) (vars_at fs q (req_before fs 0) j) h'')"
      by (intro exI [of _ 0] exI [of _ h']) (simp add: req_before_def)
  qed
  moreover have "emits (encode_upto n eenv enc fs p h 0) []" by (simp add: emits_def)
  ultimately show ?case by blast
next
  case (Suc i)
  then have i: "i < length fs" by simp
  from Suc obtain bs where bs: "emits (encode_upto n eenv enc fs p h i) bs" "decodes_upto n D h env fs p q sz i bs"
    by auto
  obtain bs' where bs': "emits (\<lambda>st. encode_any_field n eenv enc st (iter_at fs p i) h) bs'"
    "decodes_field (\<lambda>h'. fresh_field (fresh_msg n D h') D h' (fs ! i) (p_at fs q i))
      (\<lambda>h''. same_field (same_msg n D h h'') D h h'' (fs ! i) (p_at fs p i) (p_at fs q i)) n env fs q i bs'"
    using static_field_codec [OF t i valid D msg] by (auto simp: field_codec_def)
  have "emits (encode_upto n eenv enc fs p h (Suc i)) (bs @ bs')"
    by (rule emits_cong [OF _ emits_seq [OF bs(1) bs'(1)]]) simp
  with decodes_upto_step [OF t i valid bs(2) bs'(2)] show ?case by blast
qed

lemma decodes_msg_upto:
  fixes env :: "'s pb_env"
  assumes t: "static_msg (Suc n) D fs q sz" and upto: "decodes_upto n D h env fs p q sz (length fs) bs"
  shows "decodes_msg (\<lambda>h'. fresh_msg (Suc n) D h' fs q) (\<lambda>h''. same_msg (Suc n) D h h'' fs p q) (Suc n) env fs q sz bs"
  unfolding decodes_msg_def
proof (intro allI impI)
  fix N and st :: "'s pb_istream" and h'
  assume a: "length bs + Suc n < N" "length bs < 2 ^ 32" "istream_ok st" "pending st = bs" "fresh_msg (Suc n) D h' fs q"
  then obtain N' where N: "N = Suc N'" "length bs + n < N'" by (cases N) simp_all
  let ?dec = "pb_decode_noinit N' env"
  have "pending st = bs @ []" using a(4) by simp
  then obtain m j h'' where u: "m \<le> length bs" "j < length fs" "only {q..<q + sz} h' h''"
    "\<forall>l<length fs. same_field (same_msg n D h h'') D h h'' (fs ! l) (p_at fs p l) (p_at fs q l)"
    "\<And>k. noinit_loop N' (m + k) env ?dec st (vars_at fs q 0 0) h' =
       noinit_loop N' k env ?dec (is_advance (length bs) st) (vars_at fs q (req_before fs (length fs)) j) h''"
    using upto [unfolded decodes_upto_def, rule_format, OF N(2) a(2,3) _ a(5), of "[]" N'] by blast
  have "N' = m + Suc (N' - m - 1)" using u(1) N(2) by simp
  then obtain k where k: "N' = m + Suc k" by blast
  have "bytes_left st = length bs" using a(3,4) by (metis length_pending)
  then have loop: "noinit_loop N' N' env ?dec st (noinit_init fs q) h' =
      Some (True, is_advance (length bs) st, vars_at fs q (req_before fs (length fs)) j, h'')"
    using u(5) [of "Suc k"] k by (simp add: noinit_init_at)
  have "required_count (iter_at fs q j) = min PB_MAX_REQUIRED_FIELDS (req_before fs (length fs))"
    using static_msgD(1,2) [OF t] u(2) by (rule required_count_at)
  then have "pb_decode_noinit N env st fs q h' = Some (True, is_advance (length bs) st, h'')"
    using loop required_seen_after [of "req_before fs (length fs)"]
    by (simp add: N(1) noinit_body_def fixed_count_wrong_def vars_at_def)
  then show "\<exists>h''. pb_decode_noinit N env st fs q h' = Some (True, is_advance (length bs) st, h'') \<and>
      same_msg (Suc n) D h h'' fs p q \<and> only {q..<q + sz} h' h''"
    using u(3,4) by simp
qed

lemma decodes_msg_empty:
  fixes env :: "'s pb_env"
  shows "decodes_msg fresh (\<lambda>h''. same_msg (Suc n) D h h'' [] p q) (Suc n) env [] q sz []"
  unfolding decodes_msg_def
proof (intro allI impI)
  fix N and st :: "'s pb_istream" and h'
  assume a: "length [] + Suc n < N" "istream_ok st" "pending st = []"
  then have "N = Suc (Suc (N - 2))" by simp
  then obtain k where N: "N = Suc (Suc k)" by blast
  have "bytes_left st = 0" using a(2,3) by (metis length_pending list.size(3))
  moreover have "required_count (iter_at [] q 0) = 0"
    by (simp add: required_count_def pb_field_iter_begin_def Let_def it_field_def field_at_def PB_LAST_FIELD_def)
  ultimately have "pb_decode_noinit N env st [] q h' = Some (True, is_advance (length []) st, h')"
    using a(2) unfolding N
    by (simp add: noinit_body_def noinit_init_at fixed_count_wrong_def vars_at_def required_seen_def)
  then show "\<exists>h''. pb_decode_noinit N env st [] q h' = Some (True, is_advance (length []) st, h'') \<and>
      same_msg (Suc n) D h h'' [] p q \<and> only {q..<q + sz} h' h''"
    by simp
qed

lemma static_msg_codec:
  fixes env :: "'s pb_env"
  assumes D: "enc_fields_at eenv = D" "fields_at env = D"
  shows "static_msg n D fs q sz \<Longrightarrow> valid_msg n D h fs p \<Longrightarrow>
    msg_codec (\<lambda>h'. fresh_msg n D h' fs q) (\<lambda>h''. same_msg n D h h'' fs p q) n (pb_encode n eenv) env h fs p q sz"
proof (induction n arbitrary: fs p q sz)
  case (Suc n)
  have e: "pb_encode (Suc n) eenv st fs p h = encode_upto n eenv (pb_encode n eenv) fs p h (length fs) st" for st
    using encode_body_upto [OF static_msgD(1) [OF Suc.prems(1)]] by simp
  show ?case
  proof (cases "fs = []")
    case True
    then have "emits (\<lambda>st. pb_encode (Suc n) eenv st fs p h) []" unfolding e by (simp add: emits_nothing)
    then show ?thesis using decodes_msg_empty True unfolding msg_codec_def by blast
  next
    case False
    obtain bs where bs: "emits (encode_upto n eenv (pb_encode n eenv) fs p h (length fs)) bs"
      "decodes_upto n D h env fs p q sz (length fs) bs"
      using fields_codec [OF Suc.prems D Suc.IH False, of "length fs"] by blast
    have "emits (\<lambda>st. pb_encode (Suc n) eenv st fs p h) bs" unfolding e by (rule bs(1))
    then show ?thesis using decodes_msg_upto [OF Suc.prems(1) bs(2)] unfolding msg_codec_def by blast
  qed
qed simp


section \<open>Default values\<close>

lemma field_default:
  assumes t: "static_msg (Suc n) D fs q sz" "i < length fs" and D: "fields_at env = D"
    and sub: "\<And>fs q sz h. static_msg n D fs q sz \<Longrightarrow>
      \<exists>h1. pb_message_set_to_defaults N env fs q h = Some h1 \<and> fresh_msg n D h1 fs q \<and> only {q..<q + sz} h h1"
  shows "\<exists>h1. pb_field_set_to_default (Suc N) env (iter_at fs q i) h = Some h1 \<and>
    fresh_field (fresh_msg n D h1) D h1 (fs ! i) (p_at fs q i) \<and> only (field_cells (fs ! i) (p_at fs q i)) h h1"
proof -
  let ?f = "fs ! i" and ?q = "p_at fs q i"
  let ?s = "size_addr ?q ?f" and ?d = "data_size ?f"
  note it = iter_static [OF t, of q] and at = static_msgD(6,7) [OF t]
  have ft: "field_type (static_msg n D) D ?f ?q" by (rule static_msgD(5) [OF t])
  have val: "\<exists>h2. (if f_ltype ?f = PB_LTYPE_SUBMESSAGE then pb_message_set_to_defaults N env (D (fptr ?f)) ?q h1
        else Some (hp_store h1 ?q (if fptr ?f \<noteq> 0 then hp_load h1 (fptr ?f) ?d else replicate ?d 0))) = Some h2 \<and>
      (f_ltype ?f = PB_LTYPE_SUBMESSAGE \<longrightarrow> fresh_msg n D h2 (D (fptr ?f)) ?q) \<and> only {?q..<?q + ?d} h1 h2"
    if "val_type (static_msg n D) D ?f ?q" for h1
  proof (cases "f_ltype ?f = PB_LTYPE_SUBMESSAGE")
    case True
    then have "static_msg n D (D (fptr ?f)) ?q ?d" using that by (auto simp: val_type_def word_le_nat_alt)
    from sub [OF this, of h1] True show ?thesis by auto
  next
    case False
    have "only {?q..<?q + ?d} h1 (hp_store h1 ?q (if fptr ?f \<noteq> 0 then hp_load h1 (fptr ?f) ?d else replicate ?d 0))"
      by (rule only_store) simp
    with False show ?thesis by auto
  qed
  consider "f_htype ?f = PB_HTYPE_REQUIRED" | "f_htype ?f = PB_HTYPE_OPTIONAL" | "f_htype ?f = PB_HTYPE_REPEATED"
    using ft by (auto simp: field_type_def)
  then show ?thesis
  proof cases
    case 1
    then have "val_type (static_msg n D) D ?f ?q" using ft by (auto simp: field_type_def)
    from val [OF this, of h] obtain h2 where h2:
      "(if f_ltype ?f = PB_LTYPE_SUBMESSAGE then pb_message_set_to_defaults N env (D (fptr ?f)) ?q h
        else Some (hp_store h ?q (if fptr ?f \<noteq> 0 then hp_load h (fptr ?f) ?d else replicate ?d 0))) = Some h2"
      "f_ltype ?f = PB_LTYPE_SUBMESSAGE \<longrightarrow> fresh_msg n D h2 (D (fptr ?f)) ?q" "only {?q..<?q + ?d} h h2" by blast
    have "pb_field_set_to_default (Suc N) env (iter_at fs q i) h = Some h2"
      using 1 it at D h2(1)
      by (cases "fptr ?f = 0") (simp_all add: field_default_with_def Let_def pb_message_set_to_defaults_def split: if_splits)
    moreover have "only (field_cells ?f ?q) h h2" by (rule only_mono [OF h2(3) field_cells_data]) (simp add: 1)
    ultimately show ?thesis using 1 h2(2) by (simp add: fresh_field_def)
  next
    case 2
    then have v: "val_type (static_msg n D) D ?f ?q" "?s \<noteq> ?q" "?s \<notin> {?q..<?q + ?d}"
      using ft by (auto simp: field_type_def data_cells_def)
    let ?h = "store_bool h ?s False"
    from val [OF v(1), of ?h] obtain h2 where h2:
      "(if f_ltype ?f = PB_LTYPE_SUBMESSAGE then pb_message_set_to_defaults N env (D (fptr ?f)) ?q ?h
        else Some (hp_store ?h ?q (if fptr ?f \<noteq> 0 then hp_load ?h (fptr ?f) ?d else replicate ?d 0))) = Some h2"
      "f_ltype ?f = PB_LTYPE_SUBMESSAGE \<longrightarrow> fresh_msg n D h2 (D (fptr ?f)) ?q" "only {?q..<?q + ?d} ?h h2" by blast
    have "pb_field_set_to_default (Suc N) env (iter_at fs q i) h = Some h2"
      using 2 it at D v(2) h2(1)
      by (cases "fptr ?f = 0") (simp_all add: field_default_with_def Let_def pb_message_set_to_defaults_def split: if_splits)
    moreover have "only (field_cells ?f ?q) h h2"
      using field_cells_data [of ?f ?q] field_cells_size(1) [OF 2, of ?q] 2
      by (intro only_trans [OF store_bool_only h2(3)]) simp_all
    moreover have "\<not> load_bool h2 ?s" using only_load_bool [OF h2(3) v(3)] by simp
    ultimately show ?thesis using 2 h2(2) by (simp add: fresh_field_def)
  next
    case 3
    have "only (field_cells ?f ?q) h (store_size h ?s 0)"
      by (rule only_mono [OF store_size_only field_cells_size(2) [OF 3]])
    then show ?thesis using 3 it at by (simp add: field_default_with_def Let_def fresh_field_def)
  qed
qed

lemma message_defaults:
  assumes D: "fields_at env = D"
  shows "static_msg n D fs q sz \<Longrightarrow> n \<le> N \<Longrightarrow>
    \<exists>h1. pb_message_set_to_defaults N env fs q h = Some h1 \<and> fresh_msg n D h1 fs q \<and> only {q..<q + sz} h h1"
proof (induction n arbitrary: N fs q sz h)
  case (Suc n)
  note t = Suc.prems(1)
  obtain N' where N: "N = Suc N'" "n \<le> N'" using Suc.prems(2) by (cases N) simp_all
  let ?fn = "pb_field_set_to_default N env"
  note ok = static_msgD(1) [OF t]
  have sub: "\<exists>h1. pb_message_set_to_defaults N' env fs q h = Some h1 \<and> fresh_msg n D h1 fs q \<and> only {q..<q + sz} h h1"
    if "static_msg n D fs q sz" for fs q sz h using Suc.IH [OF that N(2)] .
  have "\<exists>h1. fold_fields fs q ?fn [0..<i] h = Some h1 \<and> only {q..<q + sz} h h1 \<and>
      (\<forall>l<i. fresh_field (fresh_msg n D h1) D h1 (fs ! l) (p_at fs q l))" if "i \<le> length fs" for i
    using that
  proof (induction i)
    case 0
    then show ?case by (simp add: fold_fields_def)
  next
    case (Suc i)
    then have i: "i < length fs" by simp
    obtain h1 where h1: "fold_fields fs q ?fn [0..<i] h = Some h1" "only {q..<q + sz} h h1"
      "\<And>l. l < i \<Longrightarrow> fresh_field (fresh_msg n D h1) D h1 (fs ! l) (p_at fs q l)" using Suc by auto
    obtain h2 where h2: "?fn (iter_at fs q i) h1 = Some h2"
      "fresh_field (fresh_msg n D h2) D h2 (fs ! i) (p_at fs q i)" "only (field_cells (fs ! i) (p_at fs q i)) h1 h2"
      using field_default [OF t i D sub, of h1] N(1) by auto
    have "fold_fields fs q ?fn [0..<Suc i] h = Some h2" using h1(1) h2(1) by (simp add: fold_fields_def)
    moreover have "only {q..<q + sz} h h2"
      by (rule only_trans [OF h1(2) h2(3) order_refl]) (use t i in simp)
    moreover have "fresh_field (fresh_msg n D h2) D h2 (fs ! l) (p_at fs q l)" if "l < Suc i" for l
    proof (cases "l = i")
      case False
      then have l: "l < i" "l < length fs" using that i by simp_all
      show ?thesis
      proof (rule fresh_field_only [where F = "fresh_msg n D"])
        show "fresh_msg n D h2 (D (fptr (fs ! l))) (p_at fs q l)"
          if "static_msg n D (D (fptr (fs ! l))) (p_at fs q l) (data_size (fs ! l))"
            "field_cells (fs ! i) (p_at fs q i) \<inter> {p_at fs q l..<p_at fs q l + data_size (fs ! l)} = {}"
            "fresh_msg n D h1 (D (fptr (fs ! l))) (p_at fs q l)"
          using that by (intro fresh_msg_only [OF that(1,3) h2(3) that(2)])
        show "field_cells (fs ! i) (p_at fs q i) \<inter> field_cells (fs ! l) (p_at fs q l) = {}"
          by (rule static_msg_disjoint [OF t i l(2)]) (use l(1) in simp)
      qed (rule static_msgD(5) [OF t l(2)] h1(3) [OF l(1)] h2(3))+
    qed (use h2(2) in simp)
    ultimately show ?case by blast
  qed
  then obtain h1 where h1: "fold_fields fs q ?fn [0..<length fs] h = Some h1" "only {q..<q + sz} h h1"
    "\<forall>l<length fs. fresh_field (fresh_msg n D h1) D h1 (fs ! l) (p_at fs q l)" by blast
  have "pb_message_set_to_defaults N env fs q h = Some h1"
  proof (cases "fs = []")
    case True
    then show ?thesis
      using h1(1) by (simp add: pb_message_set_to_defaults_def message_defaults_with_def pb_field_iter_begin_def Let_def
          field_at_def PB_LAST_FIELD_def fold_fields_def)
  next
    case False
    then have "fields_loop (Suc (length fs)) ?fn (iter_at fs q 0) h = Some h1"
      using fields_loop_at [OF ok, of 0 "Suc (length fs)" ?fn q h] h1(1) by simp
    moreover have "fst (pb_field_iter_begin fs q)"
      using False ok by (simp add: pb_field_iter_begin_def Let_def tag_field_at)
    ultimately show ?thesis
      by (simp add: pb_message_set_to_defaults_def message_defaults_with_def prod.case_eq_if)
  qed
  then show ?case using h1(2,3) by auto
qed simp


section \<open>The round trip\<close>

lemma pb_decode_static:
  fixes env :: "'s pb_env"
  assumes "static_msg n (fields_at env) fs q sz"
    and dec: "decodes_msg (\<lambda>h'. fresh_msg n (fields_at env) h' fs q) (\<lambda>h''. same_msg n (fields_at env) h h'' fs p q) n env fs q sz bs"
    and st: "length bs + n < N" "length bs < 2 ^ 32" "istream_ok st" "pending st = bs"
  shows "\<exists>h''. pb_decode N env st fs q h' = Some (True, is_advance (length bs) st, h'') \<and>
    same_msg n (fields_at env) h h'' fs p q \<and> only {q..<q + sz} h' h''"
proof -
  obtain h1 where h1: "pb_message_set_to_defaults N env fs q h' = Some h1" "fresh_msg n (fields_at env) h1 fs q"
    "only {q..<q + sz} h' h1"
    using message_defaults [OF refl assms(1), of N h'] st(1) by auto
  obtain h'' where h2: "pb_decode_noinit N env st fs q h1 = Some (True, is_advance (length bs) st, h'')"
    "same_msg n (fields_at env) h h'' fs p q" "only {q..<q + sz} h1 h''"
    using dec st h1(2) unfolding decodes_msg_def by blast
  have "pb_decode N env st fs q h' = Some (True, is_advance (length bs) st, h'')"
    using h1(1) h2(1) by (simp add: pb_decode_def decode_with_def)
  then show ?thesis using h2(2) only_trans [OF h1(3) h2(3) order_refl order_refl] by blast
qed

text \<open>
  C1. A valid message is encoded as bytes that depend on it only: \<open>pb_encode\<close> appends them to every
  stream that has room, \<open>pb_get_encoded_size\<close> is their number, and \<open>pb_decode\<close> of them gives the
  same message at the destination, with every optional field, array and submessage, whatever was in
  the memory there, and stores nothing elsewhere. The bound given to \<open>pb_decode\<close> has to be larger than
  the number of bytes and the depth together.
\<close>

theorem pb_message_roundtrip:
  fixes env :: "'s pb_env" and eenv :: "'s pb_enc_env"
  assumes "static_msg n (fields_at env) fs q sz" "valid_msg n (fields_at env) h fs p" "enc_fields_at eenv = fields_at env"
  shows "\<exists>bs.
    (\<forall>ost. ostream_ok ost \<and> os_errmsg ost = None \<and> length bs \<le> os_room ost \<longrightarrow>
       pb_encode n eenv ost fs p h = (True, os_append bs ost)) \<and>
    (length bs < 2 ^ 64 \<longrightarrow> pb_get_encoded_size n eenv fs p h = Some (length bs)) \<and>
    (\<forall>N st h'. length bs + n < N \<and> length bs < 2 ^ 32 \<and> istream_ok st \<and> pending st = bs \<longrightarrow>
       (\<exists>h''. pb_decode N env st fs q h' = Some (True, is_advance (length bs) st, h'') \<and>
          same_msg n (fields_at env) h h'' fs p q \<and> only {q..<q + sz} h' h''))"
proof -
  obtain bs where bs: "emits (\<lambda>st. pb_encode n eenv st fs p h) bs"
    "decodes_msg (\<lambda>h'. fresh_msg n (fields_at env) h' fs q) (\<lambda>h''. same_msg n (fields_at env) h h'' fs p q) n env fs q sz bs"
    using static_msg_codec [OF assms(3) refl assms(1,2)] by (auto simp: msg_codec_def)
  have "pb_get_encoded_size n eenv fs p h = Some (length bs)" if "length bs < 2 ^ 64"
    using emits_sizing [OF bs(1), of PB_OSTREAM_SIZING] that
    by (simp add: pb_get_encoded_size_def sizing_ok_def PB_OSTREAM_SIZING_def os_count_def)
  then show ?thesis
    using emits_buffer [OF bs(1)] pb_decode_static [OF assms(1) bs(2)] by (intro exI [of _ bs]) blast
qed

text \<open>
  C2. The same with a length in front: \<open>pb_encode_delimited\<close> and \<open>pb_decode_delimited\<close>, which leaves
  what follows the message on the stream.
\<close>

theorem pb_delimited_roundtrip:
  fixes env :: "'s pb_env" and eenv :: "'s pb_enc_env"
  assumes "static_msg n (fields_at env) fs q sz" "valid_msg n (fields_at env) h fs p" "enc_fields_at eenv = fields_at env"
  shows "\<exists>bs.
    (\<forall>ost. ostream_ok ost \<and> os_errmsg ost = None \<and> length (string_bytes bs) \<le> os_room ost \<longrightarrow>
       pb_encode_delimited n eenv ost fs p h = (True, os_append (string_bytes bs) ost)) \<and>
    (\<forall>N st rest h'. length bs + n < N \<and> length bs < 2 ^ 32 \<and> istream_ok st \<and> pending st = string_bytes bs @ rest \<longrightarrow>
       (\<exists>st' h''. pb_decode_delimited N env st fs q h' = Some (True, st', h'') \<and> istream_ok st' \<and> pending st' = rest \<and>
          same_msg n (fields_at env) h h'' fs p q \<and> only {q..<q + sz} h' h''))"
proof -
  obtain bs where bs: "emits (\<lambda>st. pb_encode n eenv st fs p h) bs"
    "decodes_msg (\<lambda>h'. fresh_msg n (fields_at env) h' fs q) (\<lambda>h''. same_msg n (fields_at env) h h'' fs p q) n env fs q sz bs"
    using static_msg_codec [OF assms(3) refl assms(1,2)] by (auto simp: msg_codec_def)
  have enc: "emits (\<lambda>st. pb_encode_delimited n eenv st fs p h) (string_bytes bs)"
    using emits_submessage [of "pb_encode n eenv" fs p h bs, OF bs(1)] by (simp add: pb_encode_delimited_def)
  have "\<exists>st' h''. pb_decode_delimited N env st fs q h' = Some (True, st', h'') \<and> istream_ok st' \<and> pending st' = rest \<and>
      same_msg n (fields_at env) h h'' fs p q \<and> only {q..<q + sz} h' h''"
    if st: "length bs + n < N" "length bs < 2 ^ 32" "istream_ok st" "pending st = string_bytes bs @ rest" for N st rest h'
  proof -
    from pb_make_string_substream_ok [OF st(3,4,2)] obtain sub st' where
      sub: "pb_make_string_substream st = (Some sub, st')" "istream_ok sub" "pending sub = bs"
        "pb_close_string_substream st' (is_advance (length bs) sub) = (True, is_advance (length (string_bytes bs)) st)"
      by blast
    obtain h'' where h2: "pb_decode N env sub fs q h' = Some (True, is_advance (length bs) sub, h'')"
      "same_msg n (fields_at env) h h'' fs p q" "only {q..<q + sz} h' h''"
      using pb_decode_static [OF assms(1) bs(2) st(1,2) sub(2,3)] by blast
    have "pb_decode_delimited N env st fs q h' = Some (True, is_advance (length (string_bytes bs)) st, h'')"
      using sub h2(1) by (simp add: pb_decode_delimited_def decode_delimited_with_def)
    then show ?thesis using h2(2,3) st(3,4) by auto
  qed
  then show ?thesis using emits_buffer [OF enc] by (intro exI [of _ bs]) blast
qed

text \<open>
  A concrete type: \<open>{required int32 a = 1; repeated uint32 b = 2 [packed, max 3]; optional Sub c = 3}\<close>
  with \<open>Sub {optional string s = 1 [max 8]}\<close>, laid out the way the generator does.
\<close>

definition SUB_FIELDS :: "pb_msg_field list" where
  "SUB_FIELDS = [\<lparr>tag = 1, ftype = 0x16, data_size = 8, array_size = 0, data_offset = 1, size_offset = - 1, fptr = 0\<rparr>]"

definition MSG_FIELDS :: "pb_msg_field list" where
  "MSG_FIELDS =
     [\<lparr>tag = 1, ftype = 0x00, data_size = 4, array_size = 0, data_offset = 0, size_offset = 0, fptr = 0\<rparr>,
      \<lparr>tag = 2, ftype = 0x21, data_size = 4, array_size = 3, data_offset = 4, size_offset = - 4, fptr = 0\<rparr>,
      \<lparr>tag = 3, ftype = 0x17, data_size = 9, array_size = 0, data_offset = 1, size_offset = - 1, fptr = 8\<rparr>]"


definition demo_mem :: "addr \<Rightarrow> byte" where
  "demo_mem x =
     (if 100 \<le> x \<and> x < 130
      then [254, 255, 255, 255, 2, 0, 0, 0, 5, 0, 0, 0, 44, 1, 0, 0, 0, 0, 0, 0, 1, 1, 104, 105, 0, 0, 0, 0, 0, 0] ! (x - 100)
      else 0)"

abbreviation "demo_heap \<equiv> \<lparr>hp_mem = demo_mem, hp_live = (\<lambda>_. None), hp_fault = False\<rparr>"

definition demo_fields :: "addr \<Rightarrow> pb_msg_field list" where
  "demo_fields a = (if a = 8 then SUB_FIELDS else [])"

definition demo_env :: "unit pb_env" where
  "demo_env = \<lparr>fields_at = demo_fields, place = \<lambda>_ _. None, scribble = \<lambda>_ _. 0,
     call_decode = \<lambda>_ st _ _ h. (False, st, h), ext_type_at = \<lambda>_. \<lparr>et_decode = None, et_arg = []\<rparr>\<rparr>"

definition demo_enc_env :: "unit pb_enc_env" where
  "demo_enc_env = \<lparr>enc_fields_at = demo_fields, call_encode = \<lambda>_ st _ _ _. (False, st),
     enc_ext_type_at = \<lambda>_. \<lparr>ee_encode = None, ee_arg = []\<rparr>\<rparr>"

lemma p_at_demo:
  "p_at MSG_FIELDS a 0 = a" "p_at MSG_FIELDS a (Suc 0) = a + 8" "p_at MSG_FIELDS a (Suc (Suc 0)) = a + 21"
  "p_at SUB_FIELDS a 0 = a + 1"
  by (simp_all add: p_at_def iter_at.simps(2) pb_field_iter_begin_def pb_field_iter_next_def Let_def it_field_def field_at_def
      MSG_FIELDS_def SUB_FIELDS_def PB_HTYPE_def PB_ATYPE_def PB_SIZE_MAX_def)

lemma all_demo:
  "(\<forall>i<length MSG_FIELDS. P i) \<longleftrightarrow> P 0 \<and> P (Suc 0) \<and> P (Suc (Suc 0))"
  "(\<forall>i<length SUB_FIELDS. P i) \<longleftrightarrow> P 0"
  by (auto simp: MSG_FIELDS_def SUB_FIELDS_def All_less_Suc)

lemmas demo_field_simps =
  MSG_FIELDS_def SUB_FIELDS_def PB_LTYPE_def PB_HTYPE_def PB_ATYPE_def size_addr_def word_le_nat_alt

lemma demo_basics:
  "fields_ok MSG_FIELDS" "distinct (map tag MSG_FIELDS)" "\<forall>f\<in>set MSG_FIELDS. unat (tag f) < 2 ^ 29"
  "fields_ok SUB_FIELDS" "distinct (map tag SUB_FIELDS)" "\<forall>f\<in>set SUB_FIELDS. unat (tag f) < 2 ^ 29"
  by (simp_all add: fields_ok_def MSG_FIELDS_def SUB_FIELDS_def)

lemma demo_cells:
  "field_cells (MSG_FIELDS ! 0) a = {a..<a + 4}"
  "4 \<le> a \<Longrightarrow> field_cells (MSG_FIELDS ! Suc 0) a = {a..<a + 12} \<union> {a - 4..<a}"
  "1 \<le> a \<Longrightarrow> field_cells (MSG_FIELDS ! Suc (Suc 0)) a = {a..<a + 9} \<union> {a - 1}"
  "1 \<le> a \<Longrightarrow> field_cells (SUB_FIELDS ! 0) a = {a..<a + 8} \<union> {a - 1}"
  by (auto simp: field_cells_def data_cells_def demo_field_simps)

lemma demo_sub_static: "1 \<le> q \<Longrightarrow> static_msg (Suc 0) demo_fields SUB_FIELDS q 9"
  using demo_basics(4-6)
  by (auto simp: all_demo p_at_demo demo_cells)
    (simp_all add: field_type_def val_type_def data_cells_def demo_field_simps)

lemma demo_static: "static_msg (Suc (Suc 0)) demo_fields MSG_FIELDS 500 30"
proof -
  have f: "field_type (static_msg (Suc 0) demo_fields) demo_fields (MSG_FIELDS ! 0) 500"
    "field_type (static_msg (Suc 0) demo_fields) demo_fields (MSG_FIELDS ! Suc 0) 508"
    by (simp_all add: field_type_def val_type_def data_cells_def demo_field_simps del: static_msg.simps)
  have "field_type (static_msg (Suc 0) demo_fields) demo_fields (MSG_FIELDS ! Suc (Suc 0)) 521"
    using demo_sub_static [of 521]
    by (simp add: field_type_def val_type_def data_cells_def demo_field_simps demo_fields_def del: static_msg.simps)
  with f demo_basics(1-3) show ?thesis
    unfolding static_msg.simps(2) [of "Suc 0"]
    by (simp add: all_demo p_at_demo demo_cells All_less_Suc del: static_msg.simps) auto
qed


lemma demo_valid_sub: "valid_msg (Suc 0) demo_fields demo_heap SUB_FIELDS 121"
  by (simp add: all_demo p_at_demo)
    (simp add: valid_field_def valid_val_def demo_field_simps load_bool_def hp_load_def demo_mem_def upt_rec)

lemma demo_valid: "valid_msg (Suc (Suc 0)) demo_fields demo_heap MSG_FIELDS 100"
proof -
  have f: "valid_field (valid_msg (Suc 0) demo_fields demo_heap) demo_fields demo_heap (MSG_FIELDS ! 0) 100"
    by (simp add: valid_field_def valid_val_def demo_field_simps scalar_item_def int_item_def pb_field.truncate_def
        hp_load_def upt_rec demo_mem_def del: valid_msg.simps)
  have "load_size demo_heap 104 = 2"
    by (simp add: load_size_def hp_load_def demo_mem_def upt_rec le_load_def)
  then have g: "valid_field (valid_msg (Suc 0) demo_fields demo_heap) demo_fields demo_heap (MSG_FIELDS ! Suc 0) 108"
    by (simp add: valid_field_def valid_val_def demo_field_simps scalar_item_def int_item_def pb_field.truncate_def
        del: valid_msg.simps)
  have "valid_field (valid_msg (Suc 0) demo_fields demo_heap) demo_fields demo_heap (MSG_FIELDS ! Suc (Suc 0)) 121"
    using demo_valid_sub
    by (simp add: valid_field_def valid_val_def demo_field_simps demo_fields_def del: valid_msg.simps)
  with f g show ?thesis unfolding valid_msg.simps(2) [of "Suc 0"] by (simp add: all_demo p_at_demo del: valid_msg.simps)
qed

lemma pb_message_roundtrip_witness:
  "\<exists>bs.
    (\<forall>ost. ostream_ok ost \<and> os_errmsg ost = None \<and> length bs \<le> os_room ost \<longrightarrow>
       pb_encode (Suc (Suc 0)) demo_enc_env ost MSG_FIELDS 100 demo_heap = (True, os_append bs ost)) \<and>
    (length bs < 2 ^ 64 \<longrightarrow> pb_get_encoded_size (Suc (Suc 0)) demo_enc_env MSG_FIELDS 100 demo_heap = Some (length bs)) \<and>
    (\<forall>N st h'. length bs + Suc (Suc 0) < N \<and> length bs < 2 ^ 32 \<and> istream_ok st \<and> pending st = bs \<longrightarrow>
       (\<exists>h''. pb_decode N demo_env st MSG_FIELDS 500 h' = Some (True, is_advance (length bs) st, h'') \<and>
          same_msg (Suc (Suc 0)) demo_fields demo_heap h'' MSG_FIELDS 100 500 \<and> only {500..<500 + 30} h' h''))"
  using pb_message_roundtrip [of "Suc (Suc 0)" demo_env MSG_FIELDS 500 30 demo_heap 100 demo_enc_env] demo_static demo_valid
  by (simp only: demo_env_def demo_enc_env_def pb_env.simps pb_enc_env.simps)

lemma pb_delimited_roundtrip_witness:
  "\<exists>bs.
    (\<forall>ost. ostream_ok ost \<and> os_errmsg ost = None \<and> length (string_bytes bs) \<le> os_room ost \<longrightarrow>
       pb_encode_delimited (Suc (Suc 0)) demo_enc_env ost MSG_FIELDS 100 demo_heap = (True, os_append (string_bytes bs) ost)) \<and>
    (\<forall>N st rest h'. length bs + Suc (Suc 0) < N \<and> length bs < 2 ^ 32 \<and> istream_ok st \<and>
         pending st = string_bytes bs @ rest \<longrightarrow>
       (\<exists>st' h''. pb_decode_delimited N demo_env st MSG_FIELDS 500 h' = Some (True, st', h'') \<and>
          istream_ok st' \<and> pending st' = rest \<and>
          same_msg (Suc (Suc 0)) demo_fields demo_heap h'' MSG_FIELDS 100 500 \<and> only {500..<500 + 30} h' h''))"
  using pb_delimited_roundtrip [of "Suc (Suc 0)" demo_env MSG_FIELDS 500 30 demo_heap 100 demo_enc_env] demo_static demo_valid
  by (simp only: demo_env_def demo_enc_env_def pb_env.simps pb_enc_env.simps)

end
