(* ===== verification/Pb_Alloc.thy ===== *)
theory Pb_Alloc
  imports Pb_Roundtrip
begin

text \<open>
  Two ways in which nanopb with \<open>PB_ENABLE_MALLOC\<close> does not manage the memory of pointer fields as
  it means to: after an allocation that fails, and when a oneof is set again to the submessage it holds.
\<close>



section \<open>An allocation that fails\<close>

lemma hp_fault_simps [simp]:
  "hp_fault (fault h)" "hp_fault (store_ptr h a p) = hp_fault h" "hp_fault (store_size h a n) = hp_fault h"
  "hp_fault h \<Longrightarrow> hp_fault (pb_free h p)"
  by (auto simp: fault_def store_ptr_def store_size_def pb_free_def split: option.split)

lemma allocate_field_at_fails:
  assumes "\<forall>k. place env h k = None"
  shows "\<exists>msg. allocate_field_at env st pData d a h = (False, is_set_error msg st, h)"
  using assms by (auto simp: allocate_field_at_def allocate_field_def Let_def env_heap_def)

lemma first_entry_fails:
  assumes "it_pSize it = At s" "f_htype (it_field it) = PB_HTYPE_REPEATED"
    "f_ltype (it_field it) = PB_LTYPE_STRING \<or> f_ltype (it_field it) = PB_LTYPE_BYTES"
    "load_size h s = 0" "\<forall>h k. place env h k = None"
  shows "\<exists>msg. decode_pointer_field n env noinit st wt it h = Some (False, is_set_error msg st, it, store_size h s 1)"
proof -
  have lt: "\<not> f_ltype (it_field it) \<le> PB_LTYPE_LAST_PACKABLE" using assms(3) by (auto simp: word_le_nat_alt)
  obtain msg where
    "allocate_field_at env st (it_pData it) (data_size (it_field it)) 1 (store_size h s 1) = (False, is_set_error msg st, store_size h s 1)"
    using allocate_field_at_fails [of env "store_size h s 1"] assms(5) by blast
  then show ?thesis
    using assms(1,2,4) lt by (intro exI [of _ msg]) (simp add: decode_pointer_field_def it_load_size_def it_store_size_def Let_def PB_SIZE_MAX_def)
qed

lemma release_null_array_faults:
  assumes "it_pSize it = At s" "f_htype (it_field it) = PB_HTYPE_REPEATED" "f_atype (it_field it) = PB_ATYPE_POINTER"
    "f_ltype (it_field it) = PB_LTYPE_STRING \<or> f_ltype (it_field it) = PB_LTYPE_BYTES"
    "load_size h s = 1" "load_ptr h (it_pData it) = 0"
  shows "\<exists>h'. pb_release_single_field (Suc n) env it h = Some h' \<and> hp_fault h'"
  using assms
  by (auto simp: Let_def release_contents_def release_pointer_def it_load_size_def it_store_size_def)

text \<open>
  C24. \<open>decode_pointer_field\<close> counts a new entry of an array of strings or byte strings before it asks
  for memory. When the allocation for the first entry of a message fails, \<open>pb_decode\<close> is left with a
  count of one and no array, and goes through the null pointer when it releases the message.
\<close>

theorem pointer_array_failed_alloc_faults:
  fixes env :: "'s pb_env"
  assumes f: "f_htype f = PB_HTYPE_REPEATED" "f_atype f = PB_ATYPE_POINTER"
    "f_ltype f = PB_LTYPE_STRING \<or> f_ltype f = PB_LTYPE_BYTES" "tag f \<noteq> 0" "unat (tag f) < 2 ^ 29"
    "{size_addr p f..<size_addr p f + 4} \<inter> {p..<p + 8} = {}" "p = q + data_offset f" "q \<noteq> 0"
    and env: "\<forall>h k. place env h k = None"
    and st: "istream_ok st" "pending st = tag_bytes PB_WT_STRING f @ rest"
  shows "\<exists>st' h'. pb_decode (Suc (Suc n)) env st [f] q h = Some (False, st', h') \<and> hp_fault h'"
proof -
  let ?N = "Suc (Suc n)" and ?s = "size_addr p f"
  define it where "it = iter_at [f] q 0"
  have lt: "f_ltype f \<noteq> PB_LTYPE_EXTENSION" using f(3) by auto
  have iter0: "iter_at [f] q 0 = it" "snd (pb_field_iter_begin [f] q) = it" by (simp_all add: it_def)
  have it: "it_field it = f" "it_pData it = p" "it_pSize it = At ?s" "fst (pb_field_iter_begin [f] q)"
    using f(4,7) by (simp_all add: it_def pb_field_iter_begin_def Let_def it_field_def field_at_def)
  have ok: "fields_ok [f]" using f(4) by (simp add: fields_ok_def)
  have nx: "pb_field_iter_next it = (False, it)" using iter_next_at [OF ok, of 0 q] iter0 by simp
  have begin_eq: "pb_field_iter_begin [f] q = (True, it)" using it(4) iter0(2) by (simp add: prod_eq_iff)
  let ?h1 = "store_size (store_ptr h p 0) ?s 0"
  have d: "pb_message_set_to_defaults ?N env [f] q h = Some ?h1"
    using begin_eq nx it(1-3) f(1,2) lt
    by (simp add: pb_message_set_to_defaults_def message_defaults_with_def field_default_with_def Let_def it_store_size_def)
  have sp: "?s \<noteq> p"
  proof
    assume "?s = p"
    then have "p \<in> {?s..<?s + 4} \<inter> {p..<p + 8}" by simp
    then show False using f(6) by blast
  qed
  have h1: "load_size ?h1 ?s = 0" by simp
  let ?h2 = "store_size ?h1 ?s 1"
  have p0: "load_ptr ?h2 p = 0"
    using only_load_ptr [OF store_size_only f(6), of ?h1 1] only_load_ptr [OF store_size_only f(6), of "store_ptr h p 0" 0]
    by simp
  obtain r where r: "pb_release_single_field ?N env it ?h2 = Some r" "hp_fault r"
    using release_null_array_faults [of it ?s ?h2 "Suc n" env] it(1-3) f(1-3) p0 by auto
  have rel: "pb_release ?N env [f] q ?h2 = Some r"
    using begin_eq nx r(1) f(8) by (simp add: pb_release_def release_with_def del: pb_release_single_field.simps)
  let ?st1 = "is_advance (length (tag_bytes PB_WT_STRING f)) st"
  have "0 < unat (tag f)" using f(4) by (simp add: unat_gt_0)
  then have t: "pb_decode_tag st = (True, PB_WT_STRING, tag f, False, ?st1)"
    using pb_decode_tag_ok [OF st(1), of PB_WT_STRING "tag f" rest] st(2) f(5) by (simp add: tag_bytes_def)
  have "0 < length (pending st)"
    using pb_varint_buffer_bounds(1) [of "tag_word PB_WT_STRING (tag f)"] st(2)
    by (simp only: tag_bytes_def length_append trans_less_add1)
  then have b: "bytes_left st \<noteq> 0" using length_pending [OF st(1)] by simp
  have find: "pb_field_iter_find it (tag f) = (True, it)"
    using find_tag [OF ok, of 0 0 q] lt iter0 by simp
  let ?noinit = "pb_decode_noinit (Suc n) env"
  obtain msg where "decode_pointer_field (Suc n) env ?noinit ?st1 PB_WT_STRING it ?h1 =
      Some (False, is_set_error msg ?st1, it, ?h2)"
    using first_entry_fails [of it ?s ?h1 env "Suc n" ?noinit ?st1 PB_WT_STRING] it(1,3) f(1,3) h1 env by auto
  then have "decode_field (Suc n) env ?noinit ?st1 PB_WT_STRING it ?h1 = Some (False, is_set_error msg ?st1, it, ?h2)"
    using it(1) f(1,2) by (simp add: decode_field_def)
  then have "pb_decode_noinit (Suc (Suc n)) env st [f] q ?h1 = Some (False, is_set_error msg ?st1, ?h2)"
    using b t find it f(1) iter0(2) sp
    by (simp add: noinit_body_def noinit_init_at vars_at_def decode_known_def Let_def)
  then show ?thesis using d rel r(2)
    by (simp add: pb_decode_def decode_with_def)
qed

lemma pointer_array_failed_alloc_faults_witness:
  "\<exists>st' h'. pb_decode 2 \<lparr>fields_at = \<lambda>_. [], place = \<lambda>_ _. None, scribble = \<lambda>_ _. 0,
       call_decode = \<lambda>_ st _ _ h. (False, st, h), ext_type_at = \<lambda>_. \<lparr>et_decode = None, et_arg = []\<rparr>\<rparr>
     (pb_istream_from_buffer [10, 1, 65] 3 :: unit pb_istream)
     [\<lparr>tag = 1, ftype = 0xA6, data_size = 8, array_size = 0, data_offset = 8, size_offset = - 8, fptr = 0\<rparr>]
     100 \<lparr>hp_mem = \<lambda>_. 0, hp_live = \<lambda>_. None, hp_fault = False\<rparr> = Some (False, st', h') \<and> hp_fault h'"
proof -
  let ?f = "\<lparr>tag = 1, ftype = 0xA6, data_size = 8, array_size = 0, data_offset = 8, size_offset = - 8, fptr = 0\<rparr>"
  have t: "tag_bytes PB_WT_STRING ?f = [10]"
    by (simp add: tag_bytes_def tag_word_def pb_varint_buffer_rec)
  show ?thesis
    unfolding numeral_2_eq_2
    by (rule pointer_array_failed_alloc_faults [where p = 108 and rest = "[1, 65]"])
      (simp_all add: t PB_HTYPE_def PB_ATYPE_def PB_LTYPE_def size_addr_def)
qed


section \<open>A submessage of a oneof that comes twice\<close>

lemma le_load_zeros [simp]: "le_load (replicate n 0) = 0"
  by (induction n) (simp_all add: le_load_def)

text \<open>
  C25. When a oneof holds a submessage and the same member comes again, \<open>pb_release_union_field\<close> releases
  nothing, since the tag is the same, and \<open>decode_static_field\<close> clears the structure: a block that the
  old submessage pointed to is still allocated and nothing in the structure points to it any more.
\<close>

theorem oneof_submessage_leaks:
  fixes env :: "'s pb_env"
  assumes f: "it_field it = f" "f_htype f = PB_HTYPE_ONEOF" "f_atype f = PB_ATYPE_STATIC" "f_ltype f = PB_LTYPE_SUBMESSAGE"
    "fptr f \<noteq> 0" "it_pSize it = At s" "it_pData it = q" "{s..<s + 4} \<inter> {q..<q + data_size f} = {}"
    and g: "fields_at env (fptr f) = [g]" "f_atype g = PB_ATYPE_POINTER" "f_htype g = PB_HTYPE_OPTIONAL"
    "f_ltype g \<noteq> PB_LTYPE_EXTENSION" "tag g \<noteq> 0" "data_offset g + 8 \<le> data_size f"
    and before: "load_size h s = unat (tag f)" "load_ptr h (q + data_offset g) = p" "p \<noteq> 0" "hp_live h p = Some k"
    and st: "istream_ok st" "pending st = 0 # rest"
  shows "\<exists>h'. decode_field (Suc n) env (pb_decode_noinit (Suc (Suc n)) env) st PB_WT_STRING it h =
      Some (True, is_advance 1 st, it, h') \<and>
    load_size h' s = unat (tag f) \<and> hp_live h' p = Some k \<and>
    (\<forall>a. q \<le> a \<and> a + 8 \<le> q + data_size f \<longrightarrow> load_ptr h' a = 0)"
proof -
  define i where "i = iter_at [g] q 0"
  let ?h1 = "store_size h s (unat (tag f))"
  let ?h2 = "hp_store ?h1 q (replicate (data_size f) 0)"
  let ?h3 = "store_ptr ?h2 (q + data_offset g) 0"
  have ok: "fields_ok [g]" using g(5) by (simp add: fields_ok_def)
  have i: "snd (pb_field_iter_begin [g] q) = i" "it_field i = g" "it_pData i = q + data_offset g" "it_start i = [g]"
    "it_required_field_index i = 0"
    using g(5) by (simp_all add: i_def pb_field_iter_begin_def Let_def it_field_def field_at_def)
  have begin_eq: "pb_field_iter_begin [g] q = (True, i)"
    using i(1) g(5) by (simp add: prod_eq_iff) (simp add: pb_field_iter_begin_def Let_def field_at_def)
  have nx: "pb_field_iter_next i = (False, i)" using iter_next_at [OF ok, of 0 q] by (simp add: i_def)
  have d: "pb_message_set_to_defaults (Suc n) env [g] q ?h2 = Some ?h3"
    using begin_eq nx i g(2-4)
    by (simp add: pb_message_set_to_defaults_def message_defaults_with_def field_default_with_def Let_def)
  have sb: "string_bytes [] = [0]" by (simp add: string_bytes_def pb_varint_buffer_rec)
  obtain sub st' where sub: "pb_make_string_substream st = (Some sub, st')" "istream_ok sub" "pending sub = []"
    "pb_close_string_substream st' (is_advance 0 sub) = (True, is_advance 1 st)"
    using pb_make_string_substream_ok [OF st(1), of "[]" rest] st(2) sb by auto
  have "bytes_left sub = 0" using sub(2,3) by (metis length_pending list.size(3))
  moreover have "required_count i = 0"
    using i nx g(3) by (simp add: required_count_def)
  ultimately have n: "pb_decode_noinit (Suc (Suc n)) env sub [g] q ?h3 = Some (True, sub, ?h3)"
    using i(1) by (simp add: noinit_body_def noinit_init_def fixed_count_wrong_def required_seen_def)
  have w: "(word_of_nat (load_size h s) :: 32 word) = tag f" using before(1) by simp
  have "is_advance 0 sub = sub" using sub(2) by simp
  then have "decode_field (Suc n) env (pb_decode_noinit (Suc (Suc n)) env) st PB_WT_STRING it h =
      Some (True, is_advance 1 st, it, ?h3)"
    using f(1-7) g(1) before(1) sub(1,4) d n
    by (simp add: decode_field_def pb_release_union_field_def it_load_size_def it_store_size_def decode_static_field_def
        Let_def with_iter_def call_decoder_def pb_dec_submessage_def word_le_nat_alt
        del: pb_decode_noinit.simps)
  moreover have zero: "hp_mem ?h3 x = 0" if "q \<le> x" "x < q + data_size f" for x
    using that by (auto simp: store_ptr_def hp_store_def nth_append le_store_def)
  have "load_ptr ?h3 a = 0" if "q \<le> a" "a + 8 \<le> q + data_size f" for a
  proof -
    have "hp_load ?h3 a 8 = replicate 8 0" using that by (intro nth_equalityI) (simp_all add: zero)
    then show ?thesis by (simp only: load_ptr_def le_load_zeros unsigned_0)
  qed
  moreover have "load_size ?h3 s = unat (tag f)"
  proof -
    have "only {q..<q + data_size f} ?h1 ?h2" by (rule only_store) simp
    from only_trans [OF this store_ptr_only order_refl, of "q + data_offset g" 0] g(6)
    have o: "only {q..<q + data_size f} ?h1 ?h3" by (simp add: add.assoc)
    have "load_size ?h3 s = load_size ?h1 s" using f(8) by (intro only_load_size [OF o]) (simp add: Int_commute)
    then show ?thesis using unsigned_less [of "tag f", where 'a = nat] by simp
  qed
  ultimately show ?thesis using before(4) by (intro exI [of _ ?h3]) (simp add: store_ptr_def store_size_def)
qed

text \<open>\<open>oneof { Sub c = 2 }\<close> with \<open>Sub {optional string s = 1}\<close>, where \<open>s\<close> is a pointer.\<close>

definition oneof_field :: pb_msg_field where
  "oneof_field = \<lparr>tag = 2, ftype = 0x37, data_size = 8, array_size = 0, data_offset = 4, size_offset = - 4, fptr = 9\<rparr>"

definition pointer_field :: pb_msg_field where
  "pointer_field = \<lparr>tag = 1, ftype = 0x96, data_size = 8, array_size = 0, data_offset = 0, size_offset = 0, fptr = 0\<rparr>"

definition oneof_env :: "unit pb_env" where
  "oneof_env = \<lparr>fields_at = (\<lambda>_. [pointer_field]), place = \<lambda>_ _. None, scribble = \<lambda>_ _. 0,
     call_decode = \<lambda>_ st _ _ h. (False, st, h), ext_type_at = \<lambda>_. \<lparr>et_decode = None, et_arg = []\<rparr>\<rparr>"

definition oneof_heap :: heap where
  "oneof_heap = \<lparr>hp_mem = (\<lambda>x. if x = 100 then 2 else if x = 104 then 200 else 0), hp_live = [200 \<mapsto> 5], hp_fault = False\<rparr>"

lemma oneof_submessage_leaks_witness:
  "\<exists>h'. decode_field (Suc 0) oneof_env (pb_decode_noinit (Suc (Suc 0)) oneof_env) (pb_istream_from_buffer [0] 1) PB_WT_STRING
      (iter_at [oneof_field] 100 0) oneof_heap =
      Some (True, is_advance 1 (pb_istream_from_buffer [0] 1), iter_at [oneof_field] 100 0, h') \<and>
    load_ptr oneof_heap 104 = 200 \<and> load_size h' 100 = 2 \<and> hp_live h' 200 = Some 5 \<and>
    (\<forall>a. 104 \<le> a \<and> a + 8 \<le> 112 \<longrightarrow> load_ptr h' a = 0)"
proof -
  let ?it = "iter_at [oneof_field] 100 0"
  have it: "it_field ?it = oneof_field" "it_pSize ?it = At 100" "it_pData ?it = 104"
    by (simp_all add: pb_field_iter_begin_def Let_def it_field_def field_at_def size_addr_def oneof_field_def)
  have h: "load_ptr oneof_heap 104 = 200" "load_size oneof_heap 100 = 2"
    by (simp_all add: load_ptr_def load_size_def hp_load_def oneof_heap_def upt_rec le_load_def)
  have "\<exists>h'. decode_field (Suc 0) oneof_env (pb_decode_noinit (Suc (Suc 0)) oneof_env) (pb_istream_from_buffer [0] 1)
      PB_WT_STRING ?it oneof_heap = Some (True, is_advance 1 (pb_istream_from_buffer [0] 1), ?it, h') \<and>
    load_size h' 100 = unat (tag oneof_field) \<and> hp_live h' 200 = Some 5 \<and>
    (\<forall>a. 104 \<le> a \<and> a + 8 \<le> 104 + data_size oneof_field \<longrightarrow> load_ptr h' a = 0)"
    by (rule oneof_submessage_leaks [where f = oneof_field and g = pointer_field and rest = "[]", OF it(1) _ _ _ _ it(2,3)])
      (use h in \<open>simp_all add: PB_HTYPE_def PB_ATYPE_def PB_LTYPE_def oneof_field_def pointer_field_def oneof_env_def
         oneof_heap_def\<close>)
  moreover have "unat (tag oneof_field) = 2" "104 + data_size oneof_field = 112" by (simp_all add: oneof_field_def)
  ultimately show ?thesis using h(1) by (simp only:) simp
qed

end
