(* ===== verification/Mem_Buf.thy ===== *)
theory Mem_Buf
  imports Prelude
begin

text \<open>
  BoringSSL's allocation and memory helpers (\<open>crypto/mem.c\<close>) and growable buffers
  (\<open>crypto/buf/buf.c\<close>). \<open>malloc\<close>, what it leaves in fresh memory and when it fails
  are the parameter \<open>heap_env\<close>; error-queue entries (\<open>OPENSSL_PUT_ERROR\<close>) are not
  modelled.
\<close>

section \<open>Allocation\<close>

text \<open>
  A block: the size stored in the eight bytes in front of the pointer, and the memory that
  is really behind the pointer.
\<close>

record block =
  blk_size :: nat
  blk_mem :: "byte list"

definition OPENSSL_malloc :: "heap_env \<Rightarrow> nat \<Rightarrow> block option" where
  "OPENSSL_malloc env sz =
     (let n = size_wrap (sz + 8) in
      if malloc_ok env n then Some \<lparr>blk_size = sz, blk_mem = map (junk env) [8..<n]\<rparr> else None)"

text \<open>The bytes the allocator gets back: prefix and contents, both cleansed.\<close>

definition OPENSSL_free :: "block option \<Rightarrow> byte list option" where
  "OPENSSL_free p =
     (case p of None \<Rightarrow> None | Some b \<Rightarrow> Some (replicate (size_wrap (blk_size b + 8)) 0))"

definition OPENSSL_realloc :: "heap_env \<Rightarrow> block option \<Rightarrow> nat \<Rightarrow> block option" where
  "OPENSSL_realloc env p new_size =
     (case p of
        None \<Rightarrow> OPENSSL_malloc env new_size
      | Some old \<Rightarrow>
          (case OPENSSL_malloc env new_size of
             None \<Rightarrow> None
           | Some ret \<Rightarrow>
               let to_copy = (if blk_size old < new_size then blk_size old else new_size)
               in Some (ret\<lparr>blk_mem := mem_write (blk_mem ret) 0 (take to_copy (blk_mem old))\<rparr>)))"

section \<open>Memory and strings\<close>

definition CRYPTO_memcmp :: "byte list \<Rightarrow> byte list \<Rightarrow> nat \<Rightarrow> byte" where
  "CRYPTO_memcmp a b len = foldl (\<lambda>x i. x OR (a ! i XOR b ! i)) 0 [0..<len]"

definition OPENSSL_hash32 :: "byte list \<Rightarrow> 32 word" where
  "OPENSSL_hash32 ptr = foldl (\<lambda>h c. (h XOR ucast c) * 16777619) 2166136261 ptr"

fun OPENSSL_strnlen :: "byte list \<Rightarrow> nat \<Rightarrow> nat" where
  "OPENSSL_strnlen s 0 = 0"
| "OPENSSL_strnlen [] (Suc len) = 0"
| "OPENSSL_strnlen (c # s) (Suc len) = (if c = 0 then 0 else Suc (OPENSSL_strnlen s len))"

definition OPENSSL_tolower :: "int \<Rightarrow> int" where
  "OPENSSL_tolower c = (if 65 \<le> c \<and> c \<le> 90 then c + (97 - 65) else c)"

text \<open>
  A \<open>char\<close> is signed on the target. The loops stop at the first terminator or
  difference; running out of memory, which a terminated string rules out, is \<open>None\<close>.
\<close>

fun OPENSSL_strcasecmp :: "byte list \<Rightarrow> byte list \<Rightarrow> int option" where
  "OPENSSL_strcasecmp (x # a) (y # b) =
     (let aa = OPENSSL_tolower (sint x); bb = OPENSSL_tolower (sint y) in
      if aa < bb then Some (- 1)
      else if aa > bb then Some 1
      else if aa = 0 then Some 0
      else OPENSSL_strcasecmp a b)"
| "OPENSSL_strcasecmp _ _ = None"

fun OPENSSL_strncasecmp :: "byte list \<Rightarrow> byte list \<Rightarrow> nat \<Rightarrow> int option" where
  "OPENSSL_strncasecmp a b 0 = Some 0"
| "OPENSSL_strncasecmp (x # a) (y # b) (Suc n) =
     (let aa = OPENSSL_tolower (sint x); bb = OPENSSL_tolower (sint y) in
      if aa < bb then Some (- 1)
      else if aa > bb then Some 1
      else if aa = 0 then Some 0
      else OPENSSL_strncasecmp a b n)"
| "OPENSSL_strncasecmp _ _ _ = None"

text \<open>\<open>strlen\<close> of the C library, on memory that holds a terminator.\<close>

definition c_strlen :: "byte list \<Rightarrow> nat" where
  "c_strlen s = length (takeWhile (\<lambda>c. c \<noteq> 0) s)"

definition OPENSSL_strdup :: "heap_env \<Rightarrow> byte list \<Rightarrow> block option" where
  "OPENSSL_strdup env s =
     (let len = c_strlen s + 1 in
      map_option (\<lambda>ret. ret\<lparr>blk_mem := mem_write (blk_mem ret) 0 (take len s)\<rparr>)
        (OPENSSL_malloc env len))"

fun BUF_strnlen :: "byte list \<Rightarrow> nat \<Rightarrow> nat" where
  "BUF_strnlen str 0 = 0"
| "BUF_strnlen [] (Suc max_len) = 0"
| "BUF_strnlen (c # str) (Suc max_len) = (if c = 0 then 0 else Suc (BUF_strnlen str max_len))"

definition BUF_strndup :: "heap_env \<Rightarrow> byte list option \<Rightarrow> nat \<Rightarrow> block option" where
  "BUF_strndup env str max_size =
     (case str of
        None \<Rightarrow> None
      | Some s \<Rightarrow>
          let sz = BUF_strnlen s max_size; alloc_size = size_wrap (sz + 1) in
          if alloc_size < sz then None
          else map_option (\<lambda>ret. ret\<lparr>blk_mem :=
                   mem_write (mem_write (blk_mem ret) 0 (take sz s)) sz [0]\<rparr>)
                 (OPENSSL_malloc env alloc_size))"

definition BUF_strdup :: "heap_env \<Rightarrow> byte list option \<Rightarrow> block option" where
  "BUF_strdup env str =
     (case str of None \<Rightarrow> None | Some s \<Rightarrow> BUF_strndup env str (c_strlen s))"

definition BUF_memdup :: "heap_env \<Rightarrow> byte list \<Rightarrow> nat \<Rightarrow> block option" where
  "BUF_memdup env data sz =
     (if sz = 0 then None
      else map_option (\<lambda>ret. ret\<lparr>blk_mem := mem_write (blk_mem ret) 0 (take sz data)\<rparr>)
             (OPENSSL_malloc env sz))"

text \<open>The bytes the loop of \<open>BUF_strlcpy\<close> copies.\<close>

fun strlcpy_loop :: "byte list \<Rightarrow> nat \<Rightarrow> byte list" where
  "strlcpy_loop (c # src) (Suc (Suc n)) = (if c = 0 then [] else c # strlcpy_loop src (Suc n))"
| "strlcpy_loop _ _ = []"

definition BUF_strlcpy :: "byte list \<Rightarrow> byte list \<Rightarrow> nat \<Rightarrow> nat \<times> byte list" where
  "BUF_strlcpy dst src dst_size =
     (let copied = strlcpy_loop src dst_size; l = length copied in
      (l + c_strlen (drop l src),
       mem_write dst 0 (copied @ (if dst_size - l > 0 then [0] else []))))"

definition BUF_strlcat :: "byte list \<Rightarrow> byte list \<Rightarrow> nat \<Rightarrow> nat \<times> byte list" where
  "BUF_strlcat dst src dst_size =
     (let l = OPENSSL_strnlen dst dst_size in
      case BUF_strlcpy (drop l dst) src (dst_size - l) of
        (n, dst') \<Rightarrow> (l + n, take l dst @ dst'))"

section \<open>Growable buffers\<close>

record BUF_MEM =
  bm_length :: nat
  bm_data :: "block option"
  bm_max :: nat

definition BUF_MEM_new :: "heap_env \<Rightarrow> BUF_MEM option" where
  "BUF_MEM_new env =
     (case OPENSSL_malloc env 24 of
        None \<Rightarrow> None
      | Some _ \<Rightarrow> Some \<lparr>bm_length = 0, bm_data = None, bm_max = 0\<rparr>)"

text \<open>What \<open>BUF_MEM_free\<close> hands back to the allocator: the data, then the struct itself.\<close>

definition BUF_MEM_free :: "BUF_MEM option \<Rightarrow> block \<Rightarrow> byte list list" where
  "BUF_MEM_free buf self =
     (case buf of
        None \<Rightarrow> []
      | Some b \<Rightarrow> List.map_filter id [OPENSSL_free (bm_data b), OPENSSL_free (Some self)])"

text \<open>Success and the buffer; the \<open>size_t\<close> arithmetic wraps.\<close>

definition BUF_MEM_reserve :: "heap_env \<Rightarrow> BUF_MEM \<Rightarrow> nat \<Rightarrow> bool \<times> BUF_MEM" where
  "BUF_MEM_reserve env buf cap =
     (if bm_max buf \<ge> cap then (True, buf)
      else let n = size_wrap (cap + 3) in
      if n < cap then (False, buf)
      else let n = n div 3; alloc_size = size_wrap (n * 4) in
      if alloc_size div 4 \<noteq> n then (False, buf)
      else case OPENSSL_realloc env (bm_data buf) alloc_size of
        None \<Rightarrow> (False, buf)
      | Some new_buf \<Rightarrow> (True, buf\<lparr>bm_data := Some new_buf, bm_max := alloc_size\<rparr>))"

definition bm_write :: "BUF_MEM \<Rightarrow> nat \<Rightarrow> byte list \<Rightarrow> BUF_MEM" where
  "bm_write buf i bs =
     buf\<lparr>bm_data := map_option (\<lambda>b. b\<lparr>blk_mem := mem_write (blk_mem b) i bs\<rparr>) (bm_data buf)\<rparr>"

definition BUF_MEM_grow :: "heap_env \<Rightarrow> BUF_MEM \<Rightarrow> nat \<Rightarrow> nat \<times> BUF_MEM" where
  "BUF_MEM_grow env buf len =
     (case BUF_MEM_reserve env buf len of
        (False, buf) \<Rightarrow> (0, buf)
      | (True, buf) \<Rightarrow>
          let buf = (if bm_length buf < len
                     then bm_write buf (bm_length buf) (replicate (len - bm_length buf) 0)
                     else buf)
          in (len, buf\<lparr>bm_length := len\<rparr>))"

definition BUF_MEM_grow_clean :: "heap_env \<Rightarrow> BUF_MEM \<Rightarrow> nat \<Rightarrow> nat \<times> BUF_MEM" where
  "BUF_MEM_grow_clean env buf len = BUF_MEM_grow env buf len"

definition BUF_MEM_append :: "heap_env \<Rightarrow> BUF_MEM \<Rightarrow> byte list \<Rightarrow> bool \<times> BUF_MEM" where
  "BUF_MEM_append env buf input =
     (let len = length input; new_len = size_wrap (bm_length buf + len) in
      if new_len < len then (False, buf)
      else case BUF_MEM_reserve env buf new_len of
        (False, buf) \<Rightarrow> (False, buf)
      | (True, buf) \<Rightarrow>
          (True, (bm_write buf (bm_length buf) input)\<lparr>bm_length := new_len\<rparr>))"


section \<open>Blocks and buffers that are what they say\<close>

definition blk_ok :: "block \<Rightarrow> bool" where
  "blk_ok b \<longleftrightarrow> length (blk_mem b) = blk_size b"

lemma OPENSSL_malloc_ok:
  "OPENSSL_malloc env n = Some b \<Longrightarrow> n + 8 < 2 ^ 64 \<Longrightarrow> blk_ok b \<and> blk_size b = n"
  by (auto simp: OPENSSL_malloc_def blk_ok_def size_wrap_id Let_def split: if_splits)

lemma OPENSSL_realloc_ok:
  assumes "OPENSSL_realloc env p n = Some b" "n + 8 < 2 ^ 64" "\<forall>old. p = Some old \<longrightarrow> blk_ok old"
  shows "blk_ok b \<and> blk_size b = n \<and>
    (\<forall>old. p = Some old \<longrightarrow> (\<forall>k\<le>n. k \<le> blk_size old \<longrightarrow> take k (blk_mem b) = take k (blk_mem old)))"
proof (cases p)
  case None
  then show ?thesis using assms by (simp add: OPENSSL_realloc_def OPENSSL_malloc_ok)
next
  case (Some old)
  then obtain r where r: "OPENSSL_malloc env n = Some r"
    and b: "b = r\<lparr>blk_mem := mem_write (blk_mem r) 0 (take (min (blk_size old) n) (blk_mem old))\<rparr>"
    using assms(1) by (auto simp: OPENSSL_realloc_def min_def Let_def split: option.splits if_splits)
  have "blk_ok r" "blk_size r = n" using OPENSSL_malloc_ok [OF r assms(2)] by auto
  moreover have "blk_ok old" using assms(3) Some by simp
  ultimately show ?thesis using Some b
    by (auto simp: blk_ok_def mem_write_def min_def)
qed

definition bm_ok :: "BUF_MEM \<Rightarrow> bool" where
  "bm_ok buf \<longleftrightarrow> bm_length buf \<le> bm_max buf \<and> bm_max buf < 2 ^ 63 \<and>
     (case bm_data buf of None \<Rightarrow> bm_max buf = 0 | Some b \<Rightarrow> blk_ok b \<and> blk_size b = bm_max buf)"

definition bm_view :: "BUF_MEM \<Rightarrow> byte list" where
  "bm_view buf = (case bm_data buf of None \<Rightarrow> [] | Some b \<Rightarrow> take (bm_length buf) (blk_mem b))"

lemma BUF_MEM_reserve_ok:
  assumes "bm_ok buf" "cap < 2 ^ 62" "BUF_MEM_reserve env buf cap = (ok, buf')"
  shows "bm_ok buf' \<and> bm_view buf' = bm_view buf \<and> bm_length buf' = bm_length buf \<and>
    (ok \<longrightarrow> cap \<le> bm_max buf')"
proof (cases "cap \<le> bm_max buf")
  case True
  then show ?thesis using assms by (auto simp: BUF_MEM_reserve_def)
next
  case False
  let ?a = "(cap + 3) div 3 * 4"
  have p: "(2 :: nat) ^ 62 = 4611686018427387904" "(2 :: nat) ^ 63 = 9223372036854775808"
    "(2 :: nat) ^ 64 = 18446744073709551616" by simp_all
  have a: "?a + 8 < 2 ^ 64" "cap \<le> ?a" "?a < 2 ^ 63"
    using assms(2) unfolding p by arith+
  have w: "size_wrap (cap + 3) = cap + 3" "size_wrap ?a = ?a"
    using assms(2) a by (auto intro: size_wrap_id)
  show ?thesis
  proof (cases "OPENSSL_realloc env (bm_data buf) ?a")
    case None
    then show ?thesis using False assms(1,3) w by (auto simp: BUF_MEM_reserve_def Let_def)
  next
    case (Some b)
    then have "buf' = buf\<lparr>bm_data := Some b, bm_max := ?a\<rparr>"
      using False assms(3) w by (auto simp: BUF_MEM_reserve_def Let_def)
    moreover have "\<forall>old. bm_data buf = Some old \<longrightarrow> blk_ok old"
      using assms(1) by (auto simp: bm_ok_def)
    note OPENSSL_realloc_ok [OF Some a(1) this]
    ultimately show ?thesis using assms(1) a False
      by (cases "bm_data buf") (auto simp: bm_ok_def bm_view_def)
  qed
qed

lemma bm_write_view:
  assumes "bm_ok buf" "bm_length buf + length bs \<le> bm_max buf"
  shows "bm_ok ((bm_write buf (bm_length buf) bs)\<lparr>bm_length := bm_length buf + length bs\<rparr>)"
    and "bm_view ((bm_write buf (bm_length buf) bs)\<lparr>bm_length := bm_length buf + length bs\<rparr>) =
      bm_view buf @ bs"
  using assms by (auto simp: bm_ok_def bm_view_def bm_write_def blk_ok_def split: option.splits)

text \<open>
  Whether a buffer holds \<open>cap\<close> bytes, or can be made to: the allocator is asked for four thirds of that, and
  the prefix.
\<close>

definition bm_room :: "heap_env \<Rightarrow> BUF_MEM \<Rightarrow> nat \<Rightarrow> bool" where
  "bm_room env buf cap \<longleftrightarrow> cap \<le> bm_max buf \<or> malloc_ok env ((cap + 3) div 3 * 4 + 8)"

lemma BUF_MEM_reserve_iff:
  assumes "cap < 2 ^ 62"
  shows "fst (BUF_MEM_reserve env buf cap) \<longleftrightarrow> bm_room env buf cap"
proof -
  let ?a = "(cap + 3) div 3 * 4"
  have p: "(2 :: nat) ^ 62 = 4611686018427387904" "(2 :: nat) ^ 64 = 18446744073709551616" by simp_all
  have a: "?a + 8 < 2 ^ 64" "cap + 3 < 2 ^ 64" using assms unfolding p by arith+
  then have w: "size_wrap (cap + 3) = cap + 3" "size_wrap ?a = ?a" "size_wrap (?a + 8) = ?a + 8"
    by (auto intro: size_wrap_id)
  have "OPENSSL_realloc env (bm_data buf) ?a \<noteq> None \<longleftrightarrow> malloc_ok env (?a + 8)"
    using w(3) by (auto simp: OPENSSL_realloc_def OPENSSL_malloc_def Let_def split: option.splits if_splits)
  then show ?thesis using w(1,2) by (auto simp: BUF_MEM_reserve_def bm_room_def Let_def split: option.splits)
qed

text \<open>
  C28. A \<open>BUF_MEM\<close> is a growable byte string: appending appends, growing pads with zeros or truncates, each
  exactly when there is room or the allocator grants it, and otherwise the call fails and the contents stay;
  throughout, the recorded sizes are those of the memory really allocated.
\<close>

theorem BUF_MEM_refines:
  assumes "bm_ok buf" "bm_length buf + length input < 2 ^ 62" "len < 2 ^ 62"
  shows "(case BUF_MEM_append env buf input of (ok, buf') \<Rightarrow>
      bm_ok buf' \<and> ok = bm_room env buf (bm_length buf + length input) \<and>
      bm_view buf' = bm_view buf @ (if ok then input else [])) \<and>
    (case BUF_MEM_grow env buf len of (n, buf') \<Rightarrow>
      bm_ok buf' \<and>
      (if bm_room env buf len
       then n = len \<and> bm_view buf' = take len (bm_view buf) @ replicate (len - bm_length buf) 0
       else n = 0 \<and> bm_view buf' = bm_view buf))"
proof (rule conjI)
  have w: "size_wrap (bm_length buf + length input) = bm_length buf + length input"
    using assms(2) by (auto intro: size_wrap_id)
  obtain ok buf1 where r: "BUF_MEM_reserve env buf (bm_length buf + length input) = (ok, buf1)"
    by force
  note r1 = BUF_MEM_reserve_ok [OF assms(1,2) r]
  have "ok = bm_room env buf (bm_length buf + length input)" using BUF_MEM_reserve_iff [OF assms(2), of env buf] r by simp
  then show "case BUF_MEM_append env buf input of (ok, buf') \<Rightarrow>
      bm_ok buf' \<and> ok = bm_room env buf (bm_length buf + length input) \<and> bm_view buf' = bm_view buf @ (if ok then input else [])"
    using r r1 w bm_write_view [of buf1 input]
    by (cases ok) (simp_all add: BUF_MEM_append_def Let_def)
  obtain ok' buf2 where g: "BUF_MEM_reserve env buf len = (ok', buf2)" by force
  note g1 = BUF_MEM_reserve_ok [OF assms(1,3) g]
  have room: "ok' = bm_room env buf len" using BUF_MEM_reserve_iff [OF assms(3), of env buf] g by simp
  have l: "length (bm_view buf) = bm_length buf"
    using assms(1) by (auto simp: bm_ok_def bm_view_def blk_ok_def split: option.splits)
  have t: "len \<le> bm_length buf2 \<Longrightarrow> bm_ok (buf2\<lparr>bm_length := len\<rparr>) \<and>
      bm_view (buf2\<lparr>bm_length := len\<rparr>) = take len (bm_view buf2)"
    using g1 [THEN conjunct1] by (auto simp: bm_ok_def bm_view_def min_def split: option.splits)
  show "case BUF_MEM_grow env buf len of (n, buf') \<Rightarrow>
      bm_ok buf' \<and>
      (if bm_room env buf len
       then n = len \<and> bm_view buf' = take len (bm_view buf) @ replicate (len - bm_length buf) 0
       else n = 0 \<and> bm_view buf' = bm_view buf)"
    using g g1 t l bm_write_view [of buf2 "replicate (len - bm_length buf) 0"] unfolding room [symmetric]
    by (cases ok'; cases "bm_length buf < len") (auto simp: BUF_MEM_grow_def Let_def)
qed

lemma BUF_MEM_refines_witness:
  "bm_view (snd (BUF_MEM_append plenty \<lparr>bm_length = 0, bm_data = None, bm_max = 0\<rparr> [1, 2])) = [1, 2] \<and>
   fst (BUF_MEM_grow plenty \<lparr>bm_length = 0, bm_data = None, bm_max = 0\<rparr> 1) = 1"
proof -
  let ?b = "\<lparr>bm_length = 0, bm_data = None, bm_max = 0\<rparr>"
  have "bm_ok ?b" by (simp add: bm_ok_def)
  then show ?thesis
    using BUF_MEM_refines [of ?b "[1, 2]" 1 plenty]
    by (auto simp: bm_view_def [of ?b] bm_room_def split: prod.splits)
qed

text \<open>
  \<open>OPENSSL_malloc\<close> adds its prefix without testing for overflow: a request for
  \<open>SIZE_MAX\<close> bytes is passed on as one for seven, and what comes back records a size
  of \<open>SIZE_MAX\<close> while there is no memory behind the pointer.
\<close>

theorem OPENSSL_malloc_wraps:
  "OPENSSL_malloc plenty SIZE_MAX = Some \<lparr>blk_size = SIZE_MAX, blk_mem = []\<rparr>"
  by (simp add: OPENSSL_malloc_def size_wrap_def SIZE_MAX_def)

section \<open>Strings\<close>

lemma c_strlen_prefix: "0 \<notin> set s \<Longrightarrow> c_strlen (s @ 0 # pad) = length s"
  by (induction s) (auto simp: c_strlen_def)

lemma strlcpy_loop_prefix:
  "0 \<notin> set s \<Longrightarrow> strlcpy_loop (s @ 0 # pad) n = take (n - 1) s"
proof (induction s arbitrary: n)
  case Nil
  then show ?case by (cases n; cases "n - 1") (auto simp: gr0_conv_Suc)
next
  case (Cons c s)
  consider "n = 0" | "n = 1" | k where "n = Suc (Suc k)"
    by (metis One_nat_def not0_implies_Suc)
  then show ?case using Cons by cases auto
qed

lemma BUF_strlcpy_ok:
  assumes "0 \<notin> set s" "dst_size \<le> length dst"
  shows "BUF_strlcpy dst (s @ 0 # pad) dst_size =
    (length s, (if dst_size = 0 then dst
                else take (dst_size - 1) s @ 0 # drop (min dst_size (length s + 1)) dst))"
proof (cases dst_size)
  case 0
  then show ?thesis using assms
    by (simp add: BUF_strlcpy_def strlcpy_loop_prefix c_strlen_prefix)
next
  case (Suc n)
  have "0 \<notin> set (drop n s)" using assms(1) by (auto dest: in_set_dropD)
  then have "n \<le> length s \<Longrightarrow> c_strlen (drop n s @ 0 # pad) = length s - n"
    using c_strlen_prefix [of "drop n s" pad] by simp
  moreover have "c_strlen (0 # pad) = 0" by (simp add: c_strlen_def)
  ultimately show ?thesis using assms Suc
    by (cases "n \<le> length s")
      (simp_all add: BUF_strlcpy_def Let_def strlcpy_loop_prefix mem_write_def min_def)
qed

lemma strnlen_prefix: "0 \<notin> set s \<Longrightarrow> length s < n \<Longrightarrow> OPENSSL_strnlen (s @ 0 # pad) n = length s"
proof (induction s arbitrary: n)
  case Nil
  then show ?case by (cases n) auto
next
  case (Cons c s)
  then show ?case by (cases n) auto
qed

text \<open>
  \<open>BUF_strlcpy\<close> and \<open>BUF_strlcat\<close>: the destination becomes the longest prefix of
  the string, or of both strings together, that fits with its terminator, bytes behind that
  are left alone, and the result is the length the whole would have had.
\<close>

theorem BUF_strl_result:
  assumes "0 \<notin> set s" "0 \<notin> set d" "length d < dst_size" "dst_size \<le> length (d @ 0 # rest)"
  shows "BUF_strlcpy (d @ 0 # rest) (s @ 0 # pad) dst_size =
      (length s, take (dst_size - 1) s @ 0 # drop (min dst_size (length s + 1)) (d @ 0 # rest)) \<and>
    BUF_strlcat (d @ 0 # rest) (s @ 0 # pad) dst_size =
      (length (d @ s), take (dst_size - 1) (d @ s) @
         0 # drop (min dst_size (length (d @ s) + 1)) (d @ 0 # rest))"
proof
  show "BUF_strlcpy (d @ 0 # rest) (s @ 0 # pad) dst_size =
      (length s, take (dst_size - 1) s @ 0 # drop (min dst_size (length s + 1)) (d @ 0 # rest))"
    using BUF_strlcpy_ok [OF assms(1,4)] assms(3) by simp
  obtain k where k: "dst_size = Suc (length d + k)"
    using assms(3) less_imp_Suc_add by blast
  have "BUF_strlcpy (0 # rest) (s @ 0 # pad) (Suc k) =
      (length s, take k s @ 0 # drop (min k (length s)) rest)"
    using BUF_strlcpy_ok [of s "Suc k" "0 # rest" pad] assms(1,4) k by simp
  then show "BUF_strlcat (d @ 0 # rest) (s @ 0 # pad) dst_size =
      (length (d @ s), take (dst_size - 1) (d @ s) @
         0 # drop (min dst_size (length (d @ s) + 1)) (d @ 0 # rest))"
    using k assms(2) strnlen_prefix [of d dst_size rest]
    by (simp add: BUF_strlcat_def Suc_diff_le min_def)
qed

lemma BUF_strl_result_witness:
  "BUF_strlcat [65, 0, 7, 7, 7] [66, 67, 68, 0] 4 = (4, [65, 66, 67, 0, 7])"
  using BUF_strl_result [of "[66, 67, 68]" "[65]" 4 "[7, 7, 7]" "[]"] by simp

text \<open>
  \<open>CRYPTO_memcmp\<close>, which looks at every byte whatever it finds, is zero exactly on
  equal memory.
\<close>

lemma memcmp_fold:
  "foldl (\<lambda>x i. x OR (a ! i XOR b ! i)) x is = 0 \<longleftrightarrow>
     x = (0 :: byte) \<and> (\<forall>i\<in>set is. a ! i = b ! i)"
proof (induction "is" arbitrary: x)
  case (Cons i js)
  have "x OR (a ! i XOR b ! i) = 0 \<longleftrightarrow> x = 0 \<and> a ! i = b ! i"
    by (auto simp: bit_eq_iff bit_or_iff bit_xor_iff)
  then show ?case using Cons by auto
qed simp

theorem CRYPTO_memcmp_equal:
  assumes "n \<le> length a" "n \<le> length b"
  shows "CRYPTO_memcmp a b n = 0 \<longleftrightarrow> take n a = take n b"
  using assms by (auto simp: CRYPTO_memcmp_def memcmp_fold list_eq_iff_nth_eq)

lemma CRYPTO_memcmp_equal_witness: "CRYPTO_memcmp [1, 2, 3] [1, 2, 4] 3 \<noteq> 0"
  using CRYPTO_memcmp_equal [of 3 "[1, 2, 3]" "[1, 2, 4]"] by simp

lemma tolower_0: "OPENSSL_tolower (sint (x :: byte)) = 0 \<longleftrightarrow> x = 0"
  using signed_eq_0_iff [of x] by (auto simp: OPENSSL_tolower_def)

lemma tolower_zero [simp]: "OPENSSL_tolower 0 = 0"
  by (simp add: OPENSSL_tolower_def)

text \<open>
  \<open>OPENSSL_strcasecmp\<close> returns on all terminated strings, is antisymmetric, and is
  zero exactly when the strings agree up to the case of ASCII letters.
\<close>

theorem OPENSSL_strcasecmp_order:
  assumes "0 \<notin> set a" "0 \<notin> set b"
  shows "\<exists>r. OPENSSL_strcasecmp (a @ 0 # p) (b @ 0 # q) = Some r \<and>
    OPENSSL_strcasecmp (b @ 0 # q) (a @ 0 # p) = Some (- r) \<and> r \<in> {- 1, 0, 1} \<and>
    (r = 0 \<longleftrightarrow> map (\<lambda>c. OPENSSL_tolower (sint c)) a = map (\<lambda>c. OPENSSL_tolower (sint c)) b)"
  using assms
proof (induction a arbitrary: b)
  case Nil
  then show ?case by (cases b) (auto simp: Let_def tolower_0 dest: sym)
next
  case (Cons x a)
  show ?case
  proof (cases b)
    case Nil
    then show ?thesis using Cons.prems by (auto simp: Let_def tolower_0)
  next
    case (Cons y b')
    then show ?thesis using Cons.IH [of b'] Cons.prems
      by (auto simp: Let_def tolower_0)
  qed
qed

lemma OPENSSL_strcasecmp_order_witness:
  "\<exists>r. OPENSSL_strcasecmp [65, 98, 0] [97, 67, 0] = Some r \<and> r \<noteq> 0"
  using OPENSSL_strcasecmp_order [of "[65, 98]" "[97, 67]" "[]" "[]"] by (auto simp: OPENSSL_tolower_def)

end
