(* ===== verification/Cbs.thy ===== *)
theory Cbs
  imports Mem_Buf
begin

text \<open>
  BoringSSL's parser for byte strings and DER (\<open>crypto/bytestring/cbs.c\<close>). A \<open>CBS\<close>
  is a pointer and a length; its model holds the memory from the pointer to the end of its
  block. An operation gives its out-parameter, \<open>None\<close> for failure, and the \<open>CBS\<close>
  it was called on, which a failing operation may leave advanced. What a failing call has
  stored through other out-parameters is not part of the model.
\<close>

section \<open>Byte strings\<close>

record cbs =
  cbs_mem :: "byte list"
  cbs_len :: nat

definition CBS_init :: "byte list \<Rightarrow> nat \<Rightarrow> cbs" where
  "CBS_init data len = \<lparr>cbs_mem = data, cbs_len = len\<rparr>"

text \<open>The pointer returned by \<open>cbs_get\<close> is the memory it points to.\<close>

definition cbs_get :: "cbs \<Rightarrow> nat \<Rightarrow> byte list option \<times> cbs" where
  "cbs_get c n =
     (if cbs_len c < n then (None, c)
      else (Some (cbs_mem c), \<lparr>cbs_mem = drop n (cbs_mem c), cbs_len = cbs_len c - n\<rparr>))"

definition CBS_skip :: "cbs \<Rightarrow> nat \<Rightarrow> bool \<times> cbs" where
  "CBS_skip c len = (case cbs_get c len of (r, c') \<Rightarrow> (r \<noteq> None, c'))"

definition CBS_data :: "cbs \<Rightarrow> byte list" where "CBS_data c = cbs_mem c"
definition CBS_len :: "cbs \<Rightarrow> nat" where "CBS_len c = cbs_len c"

text \<open>Success, \<open>*out_ptr\<close> and \<open>*out_len\<close>, and what freeing the old block erased.\<close>

definition CBS_stow ::
  "heap_env \<Rightarrow> cbs \<Rightarrow> block option \<Rightarrow> bool \<times> block option \<times> nat \<times> byte list option" where
  "CBS_stow env c out_ptr =
     (let freed = OPENSSL_free out_ptr in
      if cbs_len c = 0 then (True, None, 0, freed)
      else case BUF_memdup env (cbs_mem c) (cbs_len c) of
        None \<Rightarrow> (False, None, 0, freed)
      | Some b \<Rightarrow> (True, Some b, cbs_len c, freed))"

definition CBS_strdup :: "heap_env \<Rightarrow> cbs \<Rightarrow> block option \<Rightarrow> bool \<times> block option \<times> byte list option" where
  "CBS_strdup env c out_ptr =
     (let freed = (if out_ptr \<noteq> None then OPENSSL_free out_ptr else None);
          p = BUF_strndup env (Some (cbs_mem c)) (cbs_len c)
      in (p \<noteq> None, p, freed))"

definition CBS_contains_zero_byte :: "cbs \<Rightarrow> bool" where
  "CBS_contains_zero_byte c \<longleftrightarrow> 0 \<in> set (take (cbs_len c) (cbs_mem c))"

definition CBS_mem_equal :: "cbs \<Rightarrow> byte list \<Rightarrow> nat \<Rightarrow> bool" where
  "CBS_mem_equal c data len \<longleftrightarrow>
     (if len \<noteq> cbs_len c then False else CRYPTO_memcmp (cbs_mem c) data len = 0)"

section \<open>Integers\<close>

definition cbs_get_u :: "cbs \<Rightarrow> nat \<Rightarrow> 32 word option \<times> cbs" where
  "cbs_get_u c len =
     (case cbs_get c len of
        (None, c') \<Rightarrow> (None, c')
      | (Some data, c') \<Rightarrow>
          (Some (foldl (\<lambda>result i. push_bit 8 result OR ucast (data ! i)) 0 [0..<len]), c'))"

definition CBS_get_u8 :: "cbs \<Rightarrow> byte option \<times> cbs" where
  "CBS_get_u8 c = (case cbs_get c 1 of (None, c') \<Rightarrow> (None, c') | (Some v, c') \<Rightarrow> (Some (v ! 0), c'))"

definition CBS_get_u16 :: "cbs \<Rightarrow> 16 word option \<times> cbs" where
  "CBS_get_u16 c =
     (case cbs_get_u c 2 of (None, c') \<Rightarrow> (None, c') | (Some v, c') \<Rightarrow> (Some (ucast v), c'))"

definition CBS_get_u24 :: "cbs \<Rightarrow> 32 word option \<times> cbs" where
  "CBS_get_u24 c = cbs_get_u c 3"

definition CBS_get_u32 :: "cbs \<Rightarrow> 32 word option \<times> cbs" where
  "CBS_get_u32 c = cbs_get_u c 4"

definition CBS_get_last_u8 :: "cbs \<Rightarrow> byte option \<times> cbs" where
  "CBS_get_last_u8 c =
     (if cbs_len c = 0 then (None, c)
      else (Some (cbs_mem c ! (cbs_len c - 1)), c\<lparr>cbs_len := cbs_len c - 1\<rparr>))"

section \<open>Strings with a length\<close>

definition CBS_get_bytes :: "cbs \<Rightarrow> nat \<Rightarrow> cbs option \<times> cbs" where
  "CBS_get_bytes c len =
     (case cbs_get c len of
        (None, c') \<Rightarrow> (None, c')
      | (Some v, c') \<Rightarrow> (Some (CBS_init v len), c'))"

text \<open>The bytes written to \<open>out\<close>.\<close>

definition CBS_copy_bytes :: "cbs \<Rightarrow> nat \<Rightarrow> byte list option \<times> cbs" where
  "CBS_copy_bytes c len =
     (case cbs_get c len of
        (None, c') \<Rightarrow> (None, c')
      | (Some v, c') \<Rightarrow> (Some (take len v), c'))"

definition cbs_get_length_prefixed :: "cbs \<Rightarrow> nat \<Rightarrow> cbs option \<times> cbs" where
  "cbs_get_length_prefixed c len_len =
     (case cbs_get_u c len_len of
        (None, c') \<Rightarrow> (None, c')
      | (Some len, c') \<Rightarrow> CBS_get_bytes c' (unat len))"

definition CBS_get_u8_length_prefixed :: "cbs \<Rightarrow> cbs option \<times> cbs" where
  "CBS_get_u8_length_prefixed c = cbs_get_length_prefixed c 1"

definition CBS_get_u16_length_prefixed :: "cbs \<Rightarrow> cbs option \<times> cbs" where
  "CBS_get_u16_length_prefixed c = cbs_get_length_prefixed c 2"

definition CBS_get_u24_length_prefixed :: "cbs \<Rightarrow> cbs option \<times> cbs" where
  "CBS_get_u24_length_prefixed c = cbs_get_length_prefixed c 3"

section \<open>Tags and elements\<close>

abbreviation "CBS_ASN1_BOOLEAN \<equiv> 0x1 :: 32 word"
abbreviation "CBS_ASN1_INTEGER \<equiv> 0x2 :: 32 word"
abbreviation "CBS_ASN1_OCTETSTRING \<equiv> 0x4 :: 32 word"

definition CBS_ASN1_CONSTRUCTED :: "32 word" where "CBS_ASN1_CONSTRUCTED = push_bit 24 0x20"
definition CBS_ASN1_TAG_NUMBER_MASK :: "32 word" where "CBS_ASN1_TAG_NUMBER_MASK = push_bit 29 1 - 1"

lemma CBS_get_u8_decreases: "CBS_get_u8 c = (Some b, c') \<Longrightarrow> cbs_len c' < cbs_len c"
  by (auto simp: CBS_get_u8_def cbs_get_def split: if_splits)

function parse_base128_loop :: "cbs \<Rightarrow> 64 word \<Rightarrow> 64 word option \<times> cbs" where
  "parse_base128_loop c v =
     (case CBS_get_u8 c of
        (None, c') \<Rightarrow> (None, c')
      | (Some b, c') \<Rightarrow>
          if drop_bit (64 - 7) v \<noteq> 0 then (None, c')
          else if v = 0 \<and> b = 0x80 then (None, c')
          else let v' = push_bit 7 v OR ucast (b AND 0x7f) in
          if b AND 0x80 \<noteq> 0 then parse_base128_loop c' v'
          else (Some v', c'))"
  by pat_completeness auto
termination
  by (relation "measure (\<lambda>(c, _). cbs_len c)") (auto dest: CBS_get_u8_decreases [OF sym])

declare parse_base128_loop.simps [simp del]

definition parse_base128_integer :: "cbs \<Rightarrow> 64 word option \<times> cbs" where
  "parse_base128_integer c = parse_base128_loop c 0"

definition parse_asn1_tag :: "cbs \<Rightarrow> 32 word option \<times> cbs" where
  "parse_asn1_tag c =
     (case CBS_get_u8 c of
        (None, c') \<Rightarrow> (None, c')
      | (Some tag_byte, c') \<Rightarrow>
          (let tag = push_bit 24 (ucast tag_byte AND 0xe0);
               tag_number = ucast (tag_byte AND 0x1f)
           in if tag_number = 0x1f
              then (case parse_base128_integer c' of
                      (None, c'') \<Rightarrow> (None, c'')
                    | (Some v, c'') \<Rightarrow>
                        if v > ucast CBS_ASN1_TAG_NUMBER_MASK \<or> v < 0x1f then (None, c'')
                        else (Some (tag OR ucast v), c''))
              else (Some (tag OR tag_number), c')))"

text \<open>\<open>out\<close>, \<open>*out_tag\<close> and \<open>*out_header_len\<close>; on failure \<open>cbs\<close> is as it was.\<close>

definition cbs_get_any_asn1_element :: "cbs \<Rightarrow> bool \<Rightarrow> (cbs \<times> 32 word \<times> nat) option \<times> cbs" where
  "cbs_get_any_asn1_element c ber_ok =
     (case parse_asn1_tag c of
        (None, _) \<Rightarrow> (None, c)
      | (Some tag, header) \<Rightarrow>
     (case CBS_get_u8 header of
        (None, _) \<Rightarrow> (None, c)
      | (Some length_byte, header) \<Rightarrow>
          (let header_len = CBS_len c - CBS_len header;
               result = (\<lambda>len hl. case CBS_get_bytes c len of
                            (None, c') \<Rightarrow> (None, c')
                          | (Some out, c') \<Rightarrow> (Some (out, tag, hl), c'))
           in if length_byte AND 0x80 = 0
              then result (unat length_byte + header_len) header_len
              else let num_bytes = unat (length_byte AND 0x7f) in
              if ber_ok \<and> tag AND CBS_ASN1_CONSTRUCTED \<noteq> 0 \<and> num_bytes = 0
              then result header_len header_len
              else if num_bytes = 0 \<or> num_bytes > 4 then (None, c)
              else case cbs_get_u header num_bytes of
                (None, _) \<Rightarrow> (None, c)
              | (Some len32, header) \<Rightarrow>
                  if len32 < 128 then (None, c)
                  else if drop_bit ((num_bytes - 1) * 8) len32 = 0 then (None, c)
                  else let len = unat len32 in
                  if size_wrap (len + header_len + num_bytes) < len then (None, c)
                  else result (size_wrap (len + header_len + num_bytes)) (header_len + num_bytes))))"

definition CBS_get_any_asn1_element :: "cbs \<Rightarrow> (cbs \<times> 32 word \<times> nat) option \<times> cbs" where
  "CBS_get_any_asn1_element c = cbs_get_any_asn1_element c False"

definition CBS_get_any_ber_asn1_element :: "cbs \<Rightarrow> (cbs \<times> 32 word \<times> nat) option \<times> cbs" where
  "CBS_get_any_ber_asn1_element c = cbs_get_any_asn1_element c True"

text \<open>A \<open>CBS_skip\<close> that fails runs into \<open>assert (0)\<close>, which is compiled out, and \<open>return 0\<close>.\<close>

definition CBS_get_any_asn1 :: "cbs \<Rightarrow> (cbs \<times> 32 word) option \<times> cbs" where
  "CBS_get_any_asn1 c =
     (case CBS_get_any_asn1_element c of
        (None, c') \<Rightarrow> (None, c')
      | (Some (out, tag, header_len), c') \<Rightarrow>
          (case CBS_skip out header_len of
             (False, _) \<Rightarrow> (None, c')
           | (True, out') \<Rightarrow> (Some (out', tag), c')))"

definition cbs_get_asn1 :: "cbs \<Rightarrow> 32 word \<Rightarrow> bool \<Rightarrow> cbs option \<times> cbs" where
  "cbs_get_asn1 c tag_value skip_header =
     (case CBS_get_any_asn1_element c of
        (None, c') \<Rightarrow> (None, c')
      | (Some (out, tag, header_len), c') \<Rightarrow>
          if tag \<noteq> tag_value then (None, c')
          else if skip_header
          then (case CBS_skip out header_len of
                  (False, _) \<Rightarrow> (None, c')
                | (True, out') \<Rightarrow> (Some out', c'))
          else (Some out, c'))"

definition CBS_get_asn1 :: "cbs \<Rightarrow> 32 word \<Rightarrow> cbs option \<times> cbs" where
  "CBS_get_asn1 c tag_value = cbs_get_asn1 c tag_value True"

definition CBS_get_asn1_element :: "cbs \<Rightarrow> 32 word \<Rightarrow> cbs option \<times> cbs" where
  "CBS_get_asn1_element c tag_value = cbs_get_asn1 c tag_value False"

definition CBS_peek_asn1_tag :: "cbs \<Rightarrow> 32 word \<Rightarrow> bool" where
  "CBS_peek_asn1_tag c tag_value \<longleftrightarrow>
     (if CBS_len c < 1 then False
      else case parse_asn1_tag c of
        (None, _) \<Rightarrow> False
      | (Some actual_tag, _) \<Rightarrow> tag_value = actual_tag)"

section \<open>Values\<close>

text \<open>The loop of \<open>CBS_get_asn1_uint64\<close> over the contents octets.\<close>

fun asn1_uint64_loop :: "byte list \<Rightarrow> 64 word \<Rightarrow> 64 word option" where
  "asn1_uint64_loop [] out = Some out"
| "asn1_uint64_loop (b # data) out =
     (if drop_bit 56 out \<noteq> 0 then None
      else asn1_uint64_loop data (push_bit 8 out OR ucast b))"

definition CBS_get_asn1_uint64 :: "cbs \<Rightarrow> 64 word option \<times> cbs" where
  "CBS_get_asn1_uint64 c =
     (case CBS_get_asn1 c CBS_ASN1_INTEGER of
        (None, c') \<Rightarrow> (None, c')
      | (Some bytes, c') \<Rightarrow>
          (let data = CBS_data bytes; len = CBS_len bytes in
           if len = 0 then (None, c')
           else if data ! 0 AND 0x80 \<noteq> 0 then (None, c')
           else if data ! 0 = 0 \<and> len > 1 \<and> data ! 1 AND 0x80 = 0 then (None, c')
           else (asn1_uint64_loop (take len data) 0, c')))"

definition CBS_get_asn1_bool :: "cbs \<Rightarrow> bool option \<times> cbs" where
  "CBS_get_asn1_bool c =
     (case CBS_get_asn1 c CBS_ASN1_BOOLEAN of
        (None, c') \<Rightarrow> (None, c')
      | (Some bytes, c') \<Rightarrow>
          if CBS_len bytes \<noteq> 1 then (None, c')
          else let value = CBS_data bytes ! 0 in
          if value \<noteq> 0 \<and> value \<noteq> 0xff then (None, c')
          else (Some (value \<noteq> 0), c'))"

text \<open>\<open>Some None\<close>: the element is absent and \<open>out\<close> is untouched.\<close>

definition CBS_get_optional_asn1 :: "cbs \<Rightarrow> 32 word \<Rightarrow> cbs option option \<times> cbs" where
  "CBS_get_optional_asn1 c tag =
     (if CBS_peek_asn1_tag c tag
      then (case CBS_get_asn1 c tag of
              (None, c') \<Rightarrow> (None, c')
            | (Some out, c') \<Rightarrow> (Some (Some out), c'))
      else (Some None, c))"

text \<open>\<open>out\<close> and \<open>*out_present\<close>.\<close>

definition CBS_get_optional_asn1_octet_string :: "cbs \<Rightarrow> 32 word \<Rightarrow> (cbs \<times> bool) option \<times> cbs" where
  "CBS_get_optional_asn1_octet_string c tag =
     (case CBS_get_optional_asn1 c tag of
        (None, c') \<Rightarrow> (None, c')
      | (Some None, c') \<Rightarrow> (Some (CBS_init [] 0, False), c')
      | (Some (Some child), c') \<Rightarrow>
          (case CBS_get_asn1 child CBS_ASN1_OCTETSTRING of
             (None, _) \<Rightarrow> (None, c')
           | (Some out, child') \<Rightarrow>
               if CBS_len child' \<noteq> 0 then (None, c') else (Some (out, True), c')))"

definition CBS_get_optional_asn1_uint64 :: "cbs \<Rightarrow> 32 word \<Rightarrow> 64 word \<Rightarrow> 64 word option \<times> cbs" where
  "CBS_get_optional_asn1_uint64 c tag default_value =
     (case CBS_get_optional_asn1 c tag of
        (None, c') \<Rightarrow> (None, c')
      | (Some None, c') \<Rightarrow> (Some default_value, c')
      | (Some (Some child), c') \<Rightarrow>
          (case CBS_get_asn1_uint64 child of
             (None, _) \<Rightarrow> (None, c')
           | (Some v, child') \<Rightarrow> if CBS_len child' \<noteq> 0 then (None, c') else (Some v, c')))"

definition CBS_get_optional_asn1_bool :: "cbs \<Rightarrow> 32 word \<Rightarrow> int \<Rightarrow> int option \<times> cbs" where
  "CBS_get_optional_asn1_bool c tag default_value =
     (case CBS_get_optional_asn1 c tag of
        (None, c') \<Rightarrow> (None, c')
      | (Some None, c') \<Rightarrow> (Some default_value, c')
      | (Some (Some child), c') \<Rightarrow>
          (case CBS_get_asn1 child CBS_ASN1_BOOLEAN of
             (None, _) \<Rightarrow> (None, c')
           | (Some child2, child') \<Rightarrow>
               if CBS_len child2 \<noteq> 1 \<or> CBS_len child' \<noteq> 0 then (None, c')
               else let boolean = CBS_data child2 ! 0 in
               if boolean = 0 then (Some 0, c')
               else if boolean = 0xff then (Some 1, c')
               else (None, c')))"

definition CBS_is_valid_asn1_bitstring :: "cbs \<Rightarrow> bool" where
  "CBS_is_valid_asn1_bitstring c \<longleftrightarrow>
     (case CBS_get_u8 c of
        (None, _) \<Rightarrow> False
      | (Some num_unused_bits, input) \<Rightarrow>
          if num_unused_bits > 7 then False
          else if num_unused_bits = 0 then True
          else (case CBS_get_last_u8 input of
                  (None, _) \<Rightarrow> False
                | (Some lst, _) \<Rightarrow>
                    \<not> (ucast lst AND ((push_bit (unat num_unused_bits) 1 :: 32 word) - 1) \<noteq> 0)))"

definition CBS_asn1_bitstring_has_bit :: "cbs \<Rightarrow> 32 word \<Rightarrow> bool" where
  "CBS_asn1_bitstring_has_bit c b \<longleftrightarrow>
     (if \<not> CBS_is_valid_asn1_bitstring c then False
      else let byte_num = drop_bit 3 b + 1; bit_num = 7 - (b AND 7) in
           unat byte_num < CBS_len c \<and>
           ucast (CBS_data c ! unat byte_num) AND (push_bit (unat bit_num) 1 :: 32 word) \<noteq> 0)"

section \<open>What is left to read\<close>

definition cbs_ok :: "cbs \<Rightarrow> bool" where
  "cbs_ok c \<longleftrightarrow> cbs_len c \<le> length (cbs_mem c)"

definition cbs_view :: "cbs \<Rightarrow> byte list" where
  "cbs_view c = take (cbs_len c) (cbs_mem c)"

definition cbs_adv :: "nat \<Rightarrow> cbs \<Rightarrow> cbs" where
  "cbs_adv n c = \<lparr>cbs_mem = drop n (cbs_mem c), cbs_len = cbs_len c - n\<rparr>"

lemma length_cbs_view [simp]: "cbs_ok c \<Longrightarrow> length (cbs_view c) = cbs_len c"
  by (simp add: cbs_ok_def cbs_view_def)

lemma cbs_adv_simps [simp]:
  "cbs_ok c \<Longrightarrow> cbs_ok (cbs_adv n c)" "cbs_view (cbs_adv n c) = drop n (cbs_view c)"
  "cbs_len (cbs_adv n c) = cbs_len c - n" "cbs_adv n (cbs_adv k c) = cbs_adv (k + n) c"
  "cbs_adv 0 c = c"
  by (auto simp: cbs_ok_def cbs_view_def cbs_adv_def drop_take add.commute)

lemma CBS_init_simps [simp]:
  "n \<le> length bs \<Longrightarrow> cbs_ok (CBS_init bs n)" "cbs_view (CBS_init bs n) = take n bs"
  "cbs_len (CBS_init bs n) = n" "cbs_mem (CBS_init bs n) = bs"
  by (auto simp: cbs_ok_def cbs_view_def CBS_init_def)

lemma cbs_get_view [view_simps]:
  "cbs_get c n = (if cbs_len c < n then (None, c) else (Some (cbs_mem c), cbs_adv n c))"
  by (simp add: cbs_get_def cbs_adv_def)

lemma cbs_mem_view: "n \<le> cbs_len c \<Longrightarrow> take n (cbs_mem c) = take n (cbs_view c)"
  by (simp add: cbs_view_def)

lemma cbs_nth_view: "i < cbs_len c \<Longrightarrow> cbs_mem c ! i = cbs_view c ! i"
  by (simp add: cbs_view_def)

lemma CBS_get_bytes_view [view_simps]:
  "CBS_get_bytes c n =
     (if cbs_len c < n then (None, c) else (Some (CBS_init (cbs_mem c) n), cbs_adv n c))"
  by (simp add: CBS_get_bytes_def cbs_get_view)

lemma CBS_skip_view [view_simps]:
  "CBS_skip c n = (if cbs_len c < n then (False, c) else (True, cbs_adv n c))"
  by (simp add: CBS_skip_def cbs_get_view)

lemma CBS_get_u8_view [view_simps]:
  assumes "cbs_ok c"
  shows "CBS_get_u8 c = (case cbs_view c of [] \<Rightarrow> (None, c) | b # _ \<Rightarrow> (Some b, cbs_adv 1 c))"
proof (cases "cbs_view c")
  case Nil
  then have "cbs_len c = 0" using assms by (metis length_cbs_view list.size(3))
  then show ?thesis using Nil by (simp add: CBS_get_u8_def cbs_get_view)
next
  case (Cons b bs)
  then have "0 < cbs_len c" using assms by (metis length_cbs_view length_greater_0_conv list.discI)
  then show ?thesis using Cons by (simp add: CBS_get_u8_def cbs_get_view cbs_nth_view)
qed

section \<open>Big-endian numbers\<close>

definition be_nat :: "byte list \<Rightarrow> nat" where
  "be_nat bs = foldl (\<lambda>n b. 256 * n + unat b) 0 bs"

lemma be_nat_simps [simp]: "be_nat [] = 0" "be_nat (bs @ [b]) = 256 * be_nat bs + unat b"
  by (simp_all add: be_nat_def)

lemma be_nat_less: "be_nat bs < 256 ^ length bs"
proof (induction bs rule: rev_induct)
  case (snoc b bs)
  then show ?case using unsigned_less [of b, where 'a = nat] by simp
qed simp

lemma or_byte_word: "8 \<le> LENGTH('a) \<Longrightarrow>
    push_bit 8 (word_of_nat n) OR ucast (b :: byte) = (word_of_nat (256 * n + unat b) :: 'a::len word)"
proof -
  assume "8 \<le> LENGTH('a)"
  have "push_bit 8 (word_of_nat n) + ucast b = (push_bit 8 (word_of_nat n) OR ucast b :: 'a word)"
    by (rule disjunctive_add) (auto simp: bit_push_bit_iff bit_ucast_iff dest: bit_imp_le_length)
  moreover have "(ucast b :: 'a word) = word_of_nat (unat b)" by simp
  moreover have "push_bit 8 (word_of_nat n) = 256 * (word_of_nat n :: 'a word)"
    by (simp add: push_bit_eq_mult)
  ultimately show ?thesis by (simp del: of_nat_unat)
qed

lemma be_nat_foldl:
  "8 \<le> LENGTH('a) \<Longrightarrow>
    foldl (\<lambda>r b. push_bit 8 r OR ucast b) 0 bs = (word_of_nat (be_nat bs) :: 'a::len word)"
proof (induction bs rule: rev_induct)
  case (snoc b bs)
  then show ?case using or_byte_word [where 'a = 'a, of "be_nat bs" b] by (simp del: of_nat_add of_nat_mult)
qed simp

lemma cbs_get_u_view [view_simps]:
  assumes "cbs_ok c"
  shows "cbs_get_u c n =
    (if cbs_len c < n then (None, c)
     else (Some (word_of_nat (be_nat (take n (cbs_view c)))), cbs_adv n c))"
proof -
  have "foldl (\<lambda>r i. push_bit 8 r OR ucast (cbs_mem c ! i)) (0 :: 32 word) [0..<n] =
      foldl (\<lambda>r b. push_bit 8 r OR ucast b) 0 (map ((!) (cbs_mem c)) [0..<n])"
    by (simp add: foldl_map)
  moreover have "map ((!) (cbs_mem c)) [0..<n] = take n (cbs_view c)" if "n \<le> cbs_len c"
    using that assms by (auto simp: cbs_ok_def cbs_view_def intro!: nth_equalityI)
  ultimately show ?thesis by (simp add: cbs_get_u_def cbs_get_view be_nat_foldl)
qed

text \<open>The shortest big-endian form of a number.\<close>

fun be_min :: "nat \<Rightarrow> byte list" where
  "be_min n = (if n = 0 then [] else be_min (n div 256) @ [word_of_nat n])"

declare be_min.simps [simp del]

lemma be_min_0 [simp]: "be_min 0 = []"
  by (simp add: be_min.simps)

lemma be_nat_be_min [simp]: "be_nat (be_min n) = n"
  by (induction n rule: be_min.induct) (subst be_min.simps, simp add: unat_of_nat)

lemma be_min_step: "0 < n \<Longrightarrow> n div 256 = m \<Longrightarrow> n mod 256 = unat b \<Longrightarrow> be_min n = be_min m @ [b]"
proof -
  assume n: "0 < n" "n div 256 = m" "n mod 256 = unat b"
  have "(word_of_nat n :: byte) = word_of_nat (n mod 256)"
    by (simp add: of_nat_mod unat_of_nat word_unat_eq_iff)
  with n show ?thesis by (subst be_min.simps) simp
qed

lemma be_min_be_nat: "bs \<noteq> [] \<Longrightarrow> hd bs \<noteq> 0 \<Longrightarrow> be_min (be_nat bs) = bs"
proof (induction bs rule: rev_induct)
  case (snoc b bs)
  have u: "unat b < 256" using unsigned_less [of b, where 'a = nat] by simp
  show ?case
  proof (cases "bs = []")
    case True
    then show ?thesis using snoc.prems u be_min_step [of "unat b" 0 b] be_nat_simps(2) [of "[]" b]
      by (simp add: unat_gt_0)
  next
    case False
    then have "be_min (be_nat bs) = bs" using snoc by simp
    moreover from this False have "be_nat bs \<noteq> 0" by (metis be_min_0)
    ultimately show ?thesis using u by (subst be_min_step [of _ "be_nat bs" b]) simp_all
  qed
qed simp

lemma length_be_min: "length (be_min n) \<le> k \<longleftrightarrow> n < 256 ^ k"
proof (induction k arbitrary: n)
  case 0
  then show ?case by (auto simp: be_min.simps [of n])
next
  case (Suc k)
  have "n div 256 < 256 ^ k \<longleftrightarrow> n < 256 * 256 ^ k"
    by (simp add: div_less_iff_less_mult mult.commute)
  then show ?case using Suc [of "n div 256"] by (auto simp: be_min.simps [of n])
qed

lemma hd_be_min: "0 < n \<Longrightarrow> hd (be_min n) \<noteq> 0"
proof (induction n rule: be_min.induct)
  case (1 n)
  show ?case
  proof (cases "n div 256 = 0")
    case True
    then have "be_min n = [word_of_nat n]" using 1 by (simp add: be_min.simps [of n])
    moreover have "unat (word_of_nat n :: byte) = n" using True by (simp add: unat_of_nat)
    ultimately show ?thesis using 1(2) by (auto simp flip: unat_eq_zero)
  next
    case False
    then have "be_min (n div 256) \<noteq> []" by (subst be_min.simps) simp
    then show ?thesis using 1 False by (subst be_min.simps) simp
  qed
qed

section \<open>Base-128 integers\<close>

text \<open>
  The minimal base-128 form: \<open>b128_hi\<close> are the groups with the continuation bit.
\<close>

fun b128_hi :: "nat \<Rightarrow> byte list" where
  "b128_hi n = (if n = 0 then [] else b128_hi (n div 128) @ [word_of_nat (n mod 128) OR 0x80])"

declare b128_hi.simps [simp del]

definition b128 :: "nat \<Rightarrow> byte list" where
  "b128 n = b128_hi (n div 128) @ [word_of_nat (n mod 128)]"

lemma b128_hi_0 [simp]: "b128_hi 0 = []"
  by (simp add: b128_hi.simps)

lemma unat_and_7F: "unat ((b :: byte) AND 0x7f) = unat b mod 128"
  using unat_and_mask [of b 7] by (simp add: mask_eq_exp_minus_1)

lemma byte_split_80: "(b :: byte) AND 0x80 \<noteq> 0 \<Longrightarrow> word_of_nat (unat b mod 128) OR 0x80 = b"
proof -
  assume "b AND 0x80 \<noteq> 0"
  then have b: "bit b 7" by (simp add: and_0x80_eq_0_iff)
  have m: "word_of_nat (unat b mod 128) = b AND 0x7f" by (simp flip: unat_and_7F)
  have x80: "bit (0x80 :: byte) n \<longleftrightarrow> n = 7" for n
    using bit_exp_iff [where 'a = byte, of 7 n] by auto
  show ?thesis
  proof (rule bit_word_eqI)
    fix n assume "n < LENGTH(8)"
    then have "n < 7 \<or> n = 7" by simp linarith
    then show "bit (word_of_nat (unat b mod 128) OR 0x80 :: byte) n = bit b n"
      unfolding m bit_or_iff bit_and_iff bit_mask7_byte x80 using b by auto
  qed
qed

lemma group_word:
  assumes "m < 2 ^ 57"
  shows "push_bit 7 (word_of_nat m) OR ucast ((b :: byte) AND 0x7f) =
    (word_of_nat (128 * m + unat b mod 128) :: 64 word)"
proof -
  have "push_bit 7 (word_of_nat m) + ucast (b AND 0x7f) =
      (push_bit 7 (word_of_nat m) OR ucast (b AND 0x7f) :: 64 word)"
    by (rule disjunctive_add) (unfold bit_push_bit_iff bit_ucast_iff bit_and_iff bit_mask7_byte, auto)
  moreover have "push_bit 7 (word_of_nat m) = 128 * (word_of_nat m :: 64 word)"
    by (simp add: push_bit_eq_mult)
  moreover have "ucast (b AND 0x7f) = (word_of_nat (unat b mod 128) :: 64 word)"
    by (simp flip: unat_and_7F)
  ultimately show ?thesis by simp
qed

lemma b128_hi_step:
  assumes "0 < 128 * m + unat b mod 128" "b AND 0x80 \<noteq> 0"
  shows "b128_hi (128 * m + unat b mod 128) = b128_hi m @ [b]"
  using assms by (subst b128_hi.simps) (simp add: byte_split_80)

lemma byte_small: "(b :: byte) AND 0x80 = 0 \<Longrightarrow> unat b mod 128 = unat b"
proof -
  assume "b AND 0x80 = 0"
  then have "\<not> bit b 7" by (simp add: and_0x80_eq_0_iff)
  have "b AND 0x7f = b"
  proof (rule bit_word_eqI)
    fix n assume "n < LENGTH(8)"
    then have "n < 7 \<or> n = 7" by simp linarith
    then show "bit (b AND 0x7f) n = bit b n"
      unfolding bit_and_iff bit_mask7_byte using \<open>\<not> bit b 7\<close> by auto
  qed
  then show ?thesis using unat_and_7F [of b] by simp
qed

lemma b128_step: "b AND 0x80 = 0 \<Longrightarrow> b128 (128 * m + unat b) = b128_hi m @ [b]"
proof -
  assume "b AND 0x80 = 0"
  then have "unat b < 128" by (metis byte_small mod_less_divisor zero_less_numeral)
  then show ?thesis by (simp add: b128_def)
qed

lemma group_byte:
  assumes "g < 128"
  shows "(word_of_nat g OR 0x80 :: byte) AND 0x80 \<noteq> 0"
    "unat (word_of_nat g OR 0x80 :: byte) mod 128 = g"
    "unat (word_of_nat g :: byte) = g" "(word_of_nat g :: byte) AND 0x80 = 0"
proof -
  have x80: "bit (0x80 :: byte) n \<longleftrightarrow> n = 7" for n
    using bit_exp_iff [where 'a = byte, of 7 n] by auto
  have u: "unat (word_of_nat g :: byte) = g" using assms by (simp add: unat_of_nat)
  then have n: "\<not> bit (word_of_nat g :: byte) 7"
    using bit_le_unat [of "word_of_nat g :: byte" 7] assms by auto
  have "bit (word_of_nat g :: byte) n \<longleftrightarrow> n < 7 \<and> bit (word_of_nat g :: byte) n" for n
    using n bit_imp_le_length [of "word_of_nat g :: byte" n] by (cases "n = 7") auto
  then have "(word_of_nat g OR 0x80 :: byte) AND 0x7f = word_of_nat g"
    by (intro bit_word_eqI) (unfold bit_and_iff bit_or_iff x80 bit_mask7_byte, auto)
  then show "unat (word_of_nat g OR 0x80 :: byte) mod 128 = g"
    using unat_and_7F [of "word_of_nat g OR 0x80"] u by simp
  show "(word_of_nat g OR 0x80 :: byte) AND 0x80 \<noteq> 0" "(word_of_nat g :: byte) AND 0x80 = 0"
    unfolding and_0x80_eq_0_iff bit_or_iff x80 using n by simp_all
  show "unat (word_of_nat g :: byte) = g" by (rule u)
qed

lemma drop_bit_57: "m < 2 ^ 64 \<Longrightarrow> drop_bit 57 (word_of_nat m :: 64 word) = 0 \<longleftrightarrow> m < 2 ^ 57"
proof -
  assume "m < 2 ^ 64"
  then have "unat (drop_bit 57 (word_of_nat m :: 64 word)) = m div 2 ^ 57"
    by (simp only: unat_drop_bit_eq drop_bit_eq_div [where 'a = nat]) (simp add: unat_of_nat)
  then have "drop_bit 57 (word_of_nat m :: 64 word) = 0 \<longleftrightarrow> m div 2 ^ 57 = 0"
    by (metis unat_eq_zero)
  then show ?thesis by (simp add: div_eq_0_iff)
qed

text \<open>What the parser accepts is minimal, and its value is the number it spells.\<close>

lemma parse_base128_sound:
  assumes "parse_base128_loop c (word_of_nat m) = (Some v, c')" "cbs_ok c" "m < 2 ^ 64"
  shows "\<exists>k\<le>cbs_len c. c' = cbs_adv k c \<and> b128_hi m @ take k (cbs_view c) = b128 (unat v)"
  using assms
proof (induction "cbs_len c" arbitrary: c m rule: less_induct)
  case less
  note step = parse_base128_loop.simps [of c "word_of_nat m"]
  obtain b bs where c: "cbs_view c = b # bs"
    using less.prems(1,2) by (cases "cbs_view c") (simp_all add: step CBS_get_u8_view)
  then have l: "0 < cbs_len c" using less.prems(2) by (metis length_cbs_view length_greater_0_conv list.discI)
  have m: "m < 2 ^ 57" and nz: "\<not> (m = 0 \<and> b = 0x80)"
    using less.prems c drop_bit_57 [OF less.prems(3)]
    by (auto simp: step CBS_get_u8_view split: if_splits)
  let ?m = "128 * m + unat b mod 128"
  have m': "?m < 2 ^ 64" using m by simp
  show ?case
  proof (cases "b AND 0x80 = 0")
    case True
    then have r: "v = word_of_nat ?m" "c' = cbs_adv 1 c"
      using less.prems c m nz drop_bit_57 [OF less.prems(3)]
      by (auto simp: step CBS_get_u8_view group_word Let_def split: if_splits)
    have "b128 (unat v) = b128_hi m @ [b]"
      using b128_step [OF True, of m] m' unfolding r(1) byte_small [OF True] by (simp only: unat_of_nat64)
    then show ?thesis using r(2) l c by (intro exI [of _ 1]) simp
  next
    case False
    have "?m \<noteq> 0"
    proof
      assume "?m = 0"
      then have "m = 0" "unat b mod 128 = 0" by simp_all
      with byte_split_80 [OF False] nz show False by simp
    qed
    then have hi: "b128_hi ?m = b128_hi m @ [b]" using False by (intro b128_hi_step) simp_all
    have "parse_base128_loop (cbs_adv 1 c) (word_of_nat ?m) = (Some v, c')"
      using less.prems c m nz False drop_bit_57 [OF less.prems(3)]
      by (auto simp: step CBS_get_u8_view group_word Let_def split: if_splits)
    from less.hyps [OF _ this _ m'] l less.prems(2) obtain k where
      k: "k \<le> cbs_len c - 1" "c' = cbs_adv k (cbs_adv 1 c)"
        "b128_hi ?m @ take k (drop 1 (cbs_view c)) = b128 (unat v)" by auto
    then show ?thesis using c l hi by (intro exI [of _ "Suc k"]) (simp add: add.commute)
  qed
qed


text \<open>And every number below \<open>2^64\<close> is read back from its minimal form.\<close>

lemma parse_base128_hi:
  assumes "cbs_ok c" "cbs_view c = b128_hi m @ r" "m < 2 ^ 57"
  shows "parse_base128_loop c 0 =
    parse_base128_loop (cbs_adv (length (b128_hi m)) c) (word_of_nat m)"
  using assms
proof (induction m arbitrary: r rule: b128_hi.induct)
  case (1 m)
  show ?case
  proof (cases "m = 0")
    case False
    let ?b = "word_of_nat (m mod 128) OR 0x80 :: byte" and ?q = "m div 128"
    let ?c = "cbs_adv (length (b128_hi ?q)) c"
    have hi: "b128_hi m = b128_hi ?q @ [?b]" using False by (simp add: b128_hi.simps [of m])
    have IH: "parse_base128_loop c 0 = parse_base128_loop ?c (word_of_nat ?q)"
      using False 1(2-4) by (intro 1(1) [of "?b # r"]) (simp_all add: hi)
    have q: "?q < 2 ^ 57" "?q < 2 ^ 64" using 1(4) by simp_all
    have b: "?b AND 0x80 \<noteq> 0" "unat ?b mod 128 = m mod 128"
      using group_byte [of "m mod 128"] by simp_all
    have "\<not> (?q = 0 \<and> ?b = 0x80)"
    proof
      assume a: "?q = 0 \<and> ?b = 0x80"
      then have "m mod 128 = 0" using b(2) by simp
      moreover from a have "m div 128 = 0" by blast
      ultimately show False using False by (simp add: div_eq_0_iff)
    qed
    moreover have "word_of_nat ?q = (0 :: 64 word) \<longleftrightarrow> ?q = 0"
      using unat_of_nat64 [OF q(2)] unat_eq_zero [of "word_of_nat ?q :: 64 word"] by simp
    moreover have "128 * ?q + m mod 128 = m" by simp
    moreover have "cbs_view ?c = ?b # r" using 1(3) by (simp add: hi)
    ultimately have "parse_base128_loop ?c (word_of_nat ?q) =
        parse_base128_loop (cbs_adv 1 ?c) (word_of_nat m)"
      using 1(2) b q drop_bit_57 [OF q(2)] group_word [OF q(1), of ?b]
      by (auto simp: parse_base128_loop.simps [of ?c] CBS_get_u8_view Let_def)
    then show ?thesis using IH by (simp add: hi)
  qed simp
qed


lemma parse_base128_complete:
  assumes "cbs_ok c" "cbs_view c = b128 n @ rest" "n < 2 ^ 64"
  shows "parse_base128_integer c = (Some (word_of_nat n), cbs_adv (length (b128 n)) c)"
proof -
  let ?q = "n div 128" and ?b = "word_of_nat (n mod 128) :: byte"
  let ?c = "cbs_adv (length (b128_hi ?q)) c"
  have q: "?q < 2 ^ 57" "?q < 2 ^ 64" using assms(3) by simp_all
  have b: "?b AND 0x80 = 0" "unat ?b = n mod 128" using group_byte [of "n mod 128"] by simp_all
  then have "?b \<noteq> 0x80" by auto
  moreover have "128 * ?q + n mod 128 = n" by simp
  moreover have "cbs_view ?c = ?b # rest" using assms(2) by (simp add: b128_def)
  ultimately have "parse_base128_loop ?c (word_of_nat ?q) = (Some (word_of_nat n), cbs_adv 1 ?c)"
    using assms(1) b q drop_bit_57 [OF q(2)] group_word [OF q(1), of ?b]
    by (simp add: parse_base128_loop.simps [of ?c] CBS_get_u8_view Let_def)
  moreover have "parse_base128_loop c 0 = parse_base128_loop ?c (word_of_nat ?q)"
    using assms q by (intro parse_base128_hi [of _ _ "?b # rest"]) (simp_all add: b128_def)
  ultimately show ?thesis by (simp add: parse_base128_integer_def b128_def)
qed

section \<open>Tags\<close>

text \<open>The DER identifier octets of a tag.\<close>

definition der_tag :: "32 word \<Rightarrow> byte list" where
  "der_tag t =
     (let top = ucast (drop_bit 24 t) AND 0xe0; num = unat (t AND CBS_ASN1_TAG_NUMBER_MASK)
      in if num < 0x1f then [top OR word_of_nat num] else (top OR 0x1f) # b128 num)"

lemma bit_e0: "bit (0xe0 :: byte) n \<longleftrightarrow> 5 \<le> n \<and> n < 8"
proof -
  have "(0xe0 :: byte) = push_bit 5 (mask 3)" by (simp add: mask_eq_exp_minus_1)
  then show ?thesis by (simp only: bit_push_bit_iff bit_mask_iff) auto
qed

lemma bit_e0_32: "bit (0xe0 :: 32 word) n \<longleftrightarrow> 5 \<le> n \<and> n < 8"
proof -
  have "(0xe0 :: 32 word) = push_bit 5 (mask 3)" by (simp add: mask_eq_exp_minus_1)
  then show ?thesis by (simp only: bit_push_bit_iff bit_mask_iff) auto
qed

lemma bit_1f: "bit (0x1f :: byte) n \<longleftrightarrow> n < 5" 
  using bit_mask_iff [where 'a = byte, of 5 n] by (auto simp: mask_eq_exp_minus_1)

lemma bit_tag_mask: "bit CBS_ASN1_TAG_NUMBER_MASK n \<longleftrightarrow> n < 29"
  using bit_mask_iff [where 'a = "32 word", of 29 n]
  by (auto simp: mask_eq_exp_minus_1 CBS_ASN1_TAG_NUMBER_MASK_def)

lemma unat_tag_mask: "unat CBS_ASN1_TAG_NUMBER_MASK = 2 ^ 29 - 1"
  by (simp add: CBS_ASN1_TAG_NUMBER_MASK_def)

lemmas tag_bits = bit_or_iff bit_and_iff bit_push_bit_iff bit_drop_bit_eq comp_def bit_ucast_iff
  bit_e0 bit_e0_32 bit_1f bit_tag_mask

lemma tag_parts:
  assumes "unat num < 2 ^ 29" "t = push_bit 24 (ucast b AND 0xe0) OR num"
  shows "ucast (drop_bit 24 t) AND 0xe0 = (b :: byte) AND 0xe0"
    "t AND CBS_ASN1_TAG_NUMBER_MASK = num"
proof -
  have num: "bit num n \<Longrightarrow> n < 29" for n using unat_less_bit [OF assms(1)] by simp
  show "ucast (drop_bit 24 t) AND 0xe0 = b AND 0xe0"
  proof (rule bit_word_eqI)
    fix n assume "n < LENGTH(8)"
    then show "bit (ucast (drop_bit 24 t) AND 0xe0 :: byte) n = bit (b AND 0xe0) n"
      unfolding assms(2) tag_bits using num [of "24 + n"] by auto
  qed
  show "t AND CBS_ASN1_TAG_NUMBER_MASK = num"
  proof (rule bit_word_eqI)
    fix n assume "n < LENGTH(32)"
    then show "bit (t AND CBS_ASN1_TAG_NUMBER_MASK) n = bit num n"
      unfolding assms(2) tag_bits using num [of n] by auto
  qed
qed

lemma byte_e0_1f: "(b AND 0xe0) OR (b AND 0x1f) = (b :: byte)"
proof (rule bit_word_eqI)
  fix n assume "n < LENGTH(8)"
  then show "bit ((b AND 0xe0) OR (b AND 0x1f)) n = bit b n"
    unfolding tag_bits by auto
qed

lemma unat_1f: "unat ((b :: byte) AND 0x1f) = unat b mod 32"
  using unat_and_mask [of b 5] by (simp add: mask_eq_exp_minus_1)

lemma parse_asn1_tag_sound:
  assumes "parse_asn1_tag c = (Some t, c')" "cbs_ok c"
  shows "\<exists>k. 0 < k \<and> k \<le> cbs_len c \<and> c' = cbs_adv k c \<and> take k (cbs_view c) = der_tag t"
proof -
  obtain b bs where c: "cbs_view c = b # bs"
    using assms by (cases "cbs_view c") (simp_all add: parse_asn1_tag_def CBS_get_u8_view)
  then have l: "0 < cbs_len c" using assms(2) by (metis length_cbs_view length_greater_0_conv list.discI)
  let ?n = "ucast (b AND 0x1f) :: 32 word"
  have n: "unat ?n = unat b mod 32" by (simp add: unsigned_ucast_eq unat_1f take_bit_nat_eq_self)
  show ?thesis
  proof (cases "?n = 0x1f")
    case True
    then obtain v c2 where p: "parse_base128_integer (cbs_adv 1 c) = (Some v, c2)"
      using assms c by (auto simp: parse_asn1_tag_def CBS_get_u8_view Let_def split: option.splits prod.splits)
    then have r: "c' = c2" "t = push_bit 24 (ucast b AND 0xe0) OR ucast v"
        "v \<le> ucast CBS_ASN1_TAG_NUMBER_MASK" "0x1f \<le> v"
      using assms c True
      by (auto simp: parse_asn1_tag_def CBS_get_u8_view Let_def not_less split: if_splits simp del: push_bit_and)
    from p parse_base128_sound [of "cbs_adv 1 c" 0 v c2] assms(2) obtain k where
      k: "k \<le> cbs_len c - 1" "c2 = cbs_adv (Suc k) c" "take k bs = b128 (unat v)"
      using c by (auto simp: parse_base128_integer_def add.commute)
    have "unat (ucast CBS_ASN1_TAG_NUMBER_MASK :: 64 word) = 2 ^ 29 - 1"
      by (simp add: unsigned_ucast_eq unat_tag_mask take_bit_nat_eq_self)
    then have v: "unat v < 2 ^ 29" "31 \<le> unat v" using r(3,4) by (simp_all add: word_le_nat_alt)
    then have u: "unat (ucast v :: 32 word) = unat v"
      by (simp add: unsigned_ucast_eq take_bit_nat_eq_self)
    have "b AND 0x1f = 0x1f"
      using arg_cong [OF True, of unat] n unat_1f [of b] by (simp add: word_unat_eq_iff)
    then have "der_tag t = b # b128 (unat v)"
      using tag_parts [OF _ r(2)] u v byte_e0_1f [of b] by (simp add: der_tag_def)
    then show ?thesis using k c l r(1) by (intro exI [of _ "Suc k"]) simp
  next
    case False
    then have r: "c' = cbs_adv 1 c" "t = push_bit 24 (ucast b AND 0xe0) OR ?n"
      using assms c by (auto simp: parse_asn1_tag_def CBS_get_u8_view Let_def split: if_splits simp del: push_bit_and)
    have "unat ?n \<noteq> 31" using False by (simp add: word_unat_eq_iff)
    then have lt: "unat ?n < 31" "unat ?n < 2 ^ 29" using n by auto
    have "word_of_nat (unat ?n) = b AND 0x1f"
      by (simp add: n flip: unat_1f)
    then have "der_tag t = [b]"
      using tag_parts [OF lt(2) r(2)] lt byte_e0_1f [of b] by (simp add: der_tag_def)
    then show ?thesis using c l r(1) by (intro exI [of _ 1]) simp
  qed
qed

lemma tag_join:
  "push_bit 24 (ucast ((ucast (drop_bit 24 t) :: byte) AND 0xe0) AND 0xe0) OR (t AND CBS_ASN1_TAG_NUMBER_MASK) = t"
  (is "?l = t")
proof (rule bit_word_eqI)
  fix n assume "n < LENGTH(32)"
  then have "n < 29 \<or> 24 + (n - 24) = n \<and> 5 \<le> n - 24 \<and> n - 24 < 8" by simp linarith
  then show "bit ?l n = bit t n" unfolding tag_bits using \<open>n < LENGTH(32)\<close> by auto
qed

lemma top_or_low:
  fixes top low :: byte
  assumes "top = x AND 0xe0" "low = low AND 0x1f"
  shows "(top OR low) AND 0xe0 = top" "(top OR low) AND 0x1f = low"
proof -
  have t: "bit top n \<Longrightarrow> 5 \<le> n \<and> n < 8" for n unfolding assms(1) tag_bits by auto
  have l: "bit low n \<Longrightarrow> n < 5" for n by (subst (asm) assms(2)) (simp only: bit_and_iff bit_1f)
  show "(top OR low) AND 0xe0 = top"
  proof (rule bit_word_eqI)
    fix n assume "n < LENGTH(8)"
    show "bit ((top OR low) AND 0xe0) n = bit top n" unfolding tag_bits using t [of n] l [of n] by linarith
  qed
  show "(top OR low) AND 0x1f = low"
  proof (rule bit_word_eqI)
    fix n assume "n < LENGTH(8)"
    show "bit ((top OR low) AND 0x1f) n = bit low n" unfolding tag_bits using t [of n] l [of n] by linarith
  qed
qed

lemma ucast_and_e0: "ucast b AND 0xe0 = (ucast ((b :: byte) AND 0xe0) :: 32 word)"
proof (rule bit_word_eqI)
  fix n assume "n < LENGTH(32)"
  then show "bit (ucast b AND 0xe0 :: 32 word) n = bit (ucast (b AND 0xe0) :: 32 word) n"
    unfolding tag_bits by auto
qed

declare unat_ucast_byte [simp]

lemma parse_asn1_tag_long:
  assumes "cbs_ok c" "cbs_view c = b # bs" "b AND 0x1f = 0x1f"
    "parse_base128_integer (cbs_adv 1 c) = (Some v, c2)"
    "\<not> (ucast CBS_ASN1_TAG_NUMBER_MASK < v \<or> v < 0x1f)"
  shows "parse_asn1_tag c = (Some (push_bit 24 (ucast b AND 0xe0) OR ucast v), c2)"
  using assms by (simp add: parse_asn1_tag_def CBS_get_u8_view Let_def del: push_bit_and)

lemma parse_asn1_tag_short:
  assumes "cbs_ok c" "cbs_view c = b # bs" "ucast (b AND 0x1f) = num" "num \<noteq> 0x1f"
  shows "parse_asn1_tag c = (Some (push_bit 24 (ucast b AND 0xe0) OR num), cbs_adv 1 c)"
  using assms by (simp add: parse_asn1_tag_def CBS_get_u8_view Let_def del: push_bit_and)

lemma parse_asn1_tag_complete:
  assumes "cbs_view c = der_tag t @ rest" "cbs_ok c"
  shows "parse_asn1_tag c = (Some t, cbs_adv (length (der_tag t)) c)"
proof -
  define top where "top = (ucast (drop_bit 24 t) AND 0xe0 :: byte)"
  define num where "num = t AND CBS_ASN1_TAG_NUMBER_MASK"
  have join: "push_bit 24 (ucast top AND 0xe0) OR num = t"
    unfolding top_def num_def by (rule tag_join)
  have num: "unat num < 2 ^ 29"
    using unat_and_mask [of t 29] by (simp add: num_def CBS_ASN1_TAG_NUMBER_MASK_def mask_eq_exp_minus_1)
  have e0: "ucast (top OR x) AND 0xe0 = (ucast top AND 0xe0 :: 32 word)" if "x = x AND 0x1f" for x
    unfolding ucast_and_e0 using top_or_low [OF top_def that] by (metis top_def and.assoc and.idem)
  have "parse_asn1_tag c = (Some t, cbs_adv (length (der_tag t)) c)" if d: "der_tag t = [top OR l]"
    "unat l < 31" "unat l = unat num" for l
  proof -
    have "unat (l AND 0x1f) = unat l" using d(2) by (simp add: unat_1f)
    then have low: "l = l AND 0x1f" by (simp add: word_unat_eq_iff)
    have n: "ucast l = num" using d(3) by (simp add: word_unat_eq_iff)
    have "num \<noteq> 0x1f" using d(2,3) by auto
    have "cbs_view c = (top OR l) # rest" using assms(1) d(1) by simp
    note parse_asn1_tag_short [OF assms(2) this, of num, unfolded top_or_low(2) [OF top_def low] e0 [OF low] join]
    from this [OF n \<open>num \<noteq> 0x1f\<close>] show ?thesis using d(1) by simp
  qed
  moreover have "unat (word_of_nat (unat num) :: byte) = unat num" if "unat num < 31"
    using that by (simp add: unat_of_nat del: of_nat_unat)
  moreover have ?thesis if d: "der_tag t = (top OR 0x1f) # b128 (unat num)" "31 \<le> unat num"
  proof -
    have "cbs_view (cbs_adv 1 c) = b128 (unat num) @ rest" using assms(1) d(1) by simp
    then have p: "parse_base128_integer (cbs_adv 1 c) =
        (Some (word_of_nat (unat num)), cbs_adv (length (b128 (unat num))) (cbs_adv 1 c))"
      using assms(2) num by (intro parse_base128_complete) simp_all
    define v where "v = (word_of_nat (unat num) :: 64 word)"
    have v: "unat v = unat num" using num unat_of_nat64 [of "unat num"] by (simp add: v_def)
    have "unat (ucast CBS_ASN1_TAG_NUMBER_MASK :: 64 word) = 2 ^ 29 - 1"
      by (simp add: unsigned_ucast_eq unat_tag_mask take_bit_nat_eq_self)
    then have "\<not> (ucast CBS_ASN1_TAG_NUMBER_MASK < v \<or> v < 0x1f)"
      using v d(2) num by (simp add: word_less_nat_alt)
    moreover have "ucast v = num"
      using v num by (simp add: word_unat_eq_iff unsigned_ucast_eq take_bit_nat_eq_self)
    moreover have "(0x1f :: byte) = 0x1f AND 0x1f" by simp
    note low = top_or_low(2) [OF top_def this] e0 [OF this]
    have "cbs_view c = (top OR 0x1f) # b128 (unat num) @ rest" using assms(1) d(1) by simp
    note parse_asn1_tag_long [OF assms(2) this low(1) p [folded v_def], unfolded low(2)]
    ultimately show ?thesis using d(1) join by (simp add: add.commute)
  qed
  ultimately show ?thesis
    by (cases "unat num < 31") (simp_all add: der_tag_def Let_def flip: top_def num_def)
qed

section \<open>Elements\<close>

text \<open>The DER length octets of a number below \<open>2^32\<close>, and the DER form of an element.\<close>

definition der_len :: "nat \<Rightarrow> byte list" where
  "der_len n = (if n < 128 then [word_of_nat n] else (word_of_nat (length (be_min n)) OR 0x80) # be_min n)"

definition der_header :: "32 word \<Rightarrow> nat \<Rightarrow> byte list" where
  "der_header t n = der_tag t @ der_len n"

definition der :: "32 word \<Rightarrow> byte list \<Rightarrow> byte list" where
  "der t body = der_header t (length body) @ body"

lemma be_nat_Cons_0: "be_nat (0 # bs) = be_nat bs"
  by (induction bs rule: rev_induct) (simp_all add: be_nat_def)

lemma be_nat_hd:
  assumes "\<not> be_nat bs < 256 ^ (length bs - 1)" "bs \<noteq> []"
  shows "hd bs \<noteq> 0"
proof
  assume "hd bs = 0"
  then obtain cs where "bs = 0 # cs" using assms(2) by (cases bs) auto
  then show False using assms(1) be_nat_less [of cs] by (simp add: be_nat_Cons_0)
qed

lemma drop_bit_len32:
  "n < 2 ^ 32 \<Longrightarrow> drop_bit (k * 8) (word_of_nat n :: 32 word) = 0 \<longleftrightarrow> n < 256 ^ k"
proof -
  assume n: "n < 2 ^ 32"
  have "unat (drop_bit (k * 8) (word_of_nat n :: 32 word)) = n div 2 ^ (k * 8)"
    using n by (simp only: unat_drop_bit_eq drop_bit_eq_div [where 'a = nat] unat_of_nat32)
  moreover have "(2 :: nat) ^ (k * 8) = (2 ^ 8) ^ k" by (simp only: power_mult [symmetric] mult.commute)
  then have "(2 :: nat) ^ (k * 8) = 256 ^ k" by simp
  ultimately show ?thesis by (metis div_eq_0_iff unat_eq_zero power_eq_0_iff zero_neq_numeral)
qed


text \<open>The end of the element parser.\<close>

definition element_get :: "cbs \<Rightarrow> 32 word \<Rightarrow> nat \<Rightarrow> nat \<Rightarrow> (cbs \<times> 32 word \<times> nat) option \<times> cbs" where
  "element_get c tag len hl =
     (if cbs_len c < len then (None, c)
      else (Some (CBS_init (cbs_mem c) len, tag, hl), cbs_adv len c))"

lemma element_short:
  assumes "parse_asn1_tag c = (Some tag, cbs_adv k c)" "cbs_ok c" "drop k (cbs_view c) = b # bs"
    "b AND 0x80 = 0" "k < cbs_len c"
  shows "cbs_get_any_asn1_element c ber = element_get c tag (k + 1 + unat b) (k + 1)"
  using assms
  by (simp add: cbs_get_any_asn1_element_def CBS_get_u8_view CBS_len_def CBS_get_bytes_view
      element_get_def Let_def ac_simps)

lemma element_indefinite:
  assumes "parse_asn1_tag c = (Some tag, cbs_adv k c)" "cbs_ok c" "drop k (cbs_view c) = b # bs"
    "b = 0x80" "k < cbs_len c"
  shows "cbs_get_any_asn1_element c ber =
    (if ber \<and> tag AND CBS_ASN1_CONSTRUCTED \<noteq> 0 then element_get c tag (k + 1) (k + 1) else (None, c))"
  using assms
  by (simp add: cbs_get_any_asn1_element_def CBS_get_u8_view CBS_len_def CBS_get_bytes_view
      element_get_def Let_def)

lemma element_long:
  assumes "parse_asn1_tag c = (Some tag, cbs_adv k c)" "cbs_ok c" "drop k (cbs_view c) = b # bs"
    "b AND 0x80 \<noteq> 0" "k < cbs_len c" "nb = unat (b AND 0x7f)" "0 < nb" "cbs_len c < 2 ^ 63"
  shows "cbs_get_any_asn1_element c ber =
    (let n = be_nat (take nb bs) in
     if nb > 4 \<or> length bs < nb \<or> n < 128 \<or> n < 256 ^ (nb - 1) then (None, c)
     else element_get c tag (k + 1 + nb + n) (k + 1 + nb))"
proof (cases "nb > 4 \<or> length bs < nb")
  case True
  have bl: "length bs = cbs_len c - (k + 1)"
    using arg_cong [OF assms(3), of length] assms(2,5) by simp
  then show ?thesis using assms True
    by (auto simp: cbs_get_any_asn1_element_def CBS_get_u8_view CBS_len_def cbs_get_u_view
        Let_def)
next
  case False
  let ?n = "be_nat (take nb bs)"
  have bl: "length bs = cbs_len c - (k + 1)"
    using arg_cong [OF assms(3), of length] assms(2,5) by simp
  have bs: "drop (k + 1) (cbs_view c) = bs"
    using arg_cong [OF assms(3), of tl] by (simp add: drop_Suc tl_drop)
  have "?n < 256 ^ nb" using be_nat_less [of "take nb bs"] False by simp
  also have "\<dots> \<le> 256 ^ 4" using False by (intro power_increasing) auto
  finally have n: "?n < 2 ^ 32" by simp
  have u: "unat (word_of_nat ?n :: 32 word) = ?n" using n by (rule unat_of_nat32)
  then have lt: "(word_of_nat ?n :: 32 word) < 128 \<longleftrightarrow> ?n < 128" by (simp add: word_less_nat_alt)
  have g: "cbs_get_u (cbs_adv (k + 1) c) nb = (Some (word_of_nat ?n), cbs_adv (k + 1 + nb) c)"
    using assms(2) False bl bs by (simp add: cbs_get_u_view)
  have w: "size_wrap (?n + (k + 1) + nb) = k + 1 + nb + ?n"
    using n assms(5,8) False by (simp add: size_wrap_id)
  have h: "CBS_get_u8 (cbs_adv k c) = (Some b, cbs_adv (k + 1) c)"
    using assms(2,3) by (simp add: CBS_get_u8_view)
  have l: "CBS_len c - CBS_len (cbs_adv (k + 1) c) = k + 1" using assms(5) by (simp add: CBS_len_def)
  note d = drop_bit_len32 [OF n, of "nb - 1"]
  show ?thesis
    using assms(1,4,7) False
    unfolding cbs_get_any_asn1_element_def assms(1) prod.case option.case h Let_def
      assms(6) [symmetric] l g lt d u w CBS_get_bytes_view element_get_def
    by simp
qed

definition element_of :: "cbs \<Rightarrow> cbs \<Rightarrow> 32 word \<Rightarrow> nat \<Rightarrow> cbs \<Rightarrow> bool" where
  "element_of c out tag hl c' \<longleftrightarrow>
     (\<exists>body rest. cbs_view c = der tag body @ rest \<and> length body < 2 ^ 32 \<and>
        hl = length (der_header tag (length body)) \<and>
        out = CBS_init (cbs_mem c) (length (der tag body)) \<and>
        c' = cbs_adv (length (der tag body)) c)"

lemma element_ofI:
  assumes "take hl (cbs_view c) = der_header tag n" "n < 2 ^ 32" "hl + n \<le> cbs_len c" "cbs_ok c"
  shows "element_of c (CBS_init (cbs_mem c) (hl + n)) tag hl (cbs_adv (hl + n) c)"
proof -
  let ?body = "take n (drop hl (cbs_view c))"
  have b: "length ?body = n" using assms(3,4) by simp
  have h: "hl = length (der_header tag n)" using arg_cong [OF assms(1), of length] assms(3,4) by simp
  have "cbs_view c = der tag ?body @ drop (hl + n) (cbs_view c)"
    unfolding der_def b using assms(1) by (metis append.assoc append_take_drop_id drop_drop add.commute)
  moreover have "length (der tag ?body) = hl + n" using h b by (simp add: der_def)
  ultimately show ?thesis using assms(2) h b unfolding element_of_def by metis
qed

lemma parse_tag_byte:
  assumes "cbs_get_any_asn1_element c ber = (Some r, c')" "cbs_ok c"
  obtains tag k b bs where "parse_asn1_tag c = (Some tag, cbs_adv k c)" "0 < k" "k < cbs_len c"
    "drop k (cbs_view c) = b # bs" "take k (cbs_view c) = der_tag tag"
proof -
  obtain tag h where p: "parse_asn1_tag c = (Some tag, h)"
    using assms(1) by (cases "parse_asn1_tag c") (auto simp: cbs_get_any_asn1_element_def split: option.splits)
  from parse_asn1_tag_sound [OF this assms(2)] obtain k where
    k: "0 < k" "k \<le> cbs_len c" "h = cbs_adv k c" "take k (cbs_view c) = der_tag tag" by blast
  obtain b bs where b: "drop k (cbs_view c) = b # bs"
    using assms k(3) p by (cases "drop k (cbs_view c)")
      (simp_all add: cbs_get_any_asn1_element_def CBS_get_u8_view)
  then have "k < cbs_len c" using assms(2) k(2) by (metis drop_all length_cbs_view list.discI not_less)
  then show ?thesis using that p k b by simp
qed

lemma element_get_sound:
  "element_get c t len hl = (Some (out, tag, hl'), c') \<Longrightarrow>
     len \<le> cbs_len c \<and> out = CBS_init (cbs_mem c) len \<and> tag = t \<and> hl' = hl \<and> c' = cbs_adv len c"
  by (auto simp: element_get_def split: if_splits)

lemma CBS_get_any_asn1_element_sound:
  assumes "CBS_get_any_asn1_element c = (Some (out, tag, hl), c')" "cbs_ok c" "cbs_len c < 2 ^ 63"
  shows "element_of c out tag hl c'"
proof -
  have e: "cbs_get_any_asn1_element c False = (Some (out, tag, hl), c')"
    using assms(1) by (simp add: CBS_get_any_asn1_element_def)
  from parse_tag_byte [OF e assms(2)] obtain t k b bs where
    p: "parse_asn1_tag c = (Some t, cbs_adv k c)" and k: "0 < k" "k < cbs_len c"
      and b: "drop k (cbs_view c) = b # bs" and tk: "take k (cbs_view c) = der_tag t" by metis
  show ?thesis
  proof (cases "b AND 0x80 = 0")
    case True
    have u: "unat b < 128" using byte_small [OF True] by (metis mod_less_divisor zero_less_numeral)
    have "take (k + 1) (cbs_view c) = der_tag t @ [b]"
      using b tk take_add [of k 1 "cbs_view c"] by simp
    then have "take (k + 1) (cbs_view c) = der_header t (unat b)"
      using u by (simp add: der_header_def der_len_def)
    with element_get_sound [OF e [unfolded element_short [OF p assms(2) b True k(2)]]]
    show ?thesis using assms(2) u element_ofI [of "k + 1" c t "unat b"] by simp
  next
    case False
    define nb where "nb = unat (b AND 0x7f)"
    have "0 < nb"
    proof (rule ccontr)
      assume "\<not> 0 < nb"
      then have "unat b mod 128 = 0" by (simp add: nb_def unat_and_7F)
      then have "b = 0x80" using byte_split_80 [OF False] by simp
      from element_indefinite [OF p assms(2) b this k(2), of False] e show False by simp
    qed
    note l = e [unfolded element_long [OF p assms(2) b False k(2) nb_def this assms(3)]]
    define n where "n = be_nat (take nb bs)"
    have c: "nb \<le> 4" "nb \<le> length bs" "128 \<le> n" "\<not> n < 256 ^ (nb - 1)"
      and g: "element_get c t (k + 1 + nb + n) (k + 1 + nb) = (Some (out, tag, hl), c')"
      using l unfolding n_def [symmetric] Let_def by (auto split: if_splits)
    have "n < 256 ^ nb" using be_nat_less [of "take nb bs"] c by (simp add: n_def)
    also have "\<dots> \<le> 256 ^ 4" using c by (intro power_increasing) auto
    finally have n: "n < 2 ^ 32" by simp
    have "hd (take nb bs) \<noteq> 0"
      using c \<open>0 < nb\<close> by (intro be_nat_hd) (auto simp: n_def)
    then have m: "be_min n = take nb bs"
      using c \<open>0 < nb\<close> unfolding n_def by (intro be_min_be_nat) auto
    have "word_of_nat nb OR 0x80 = b" using byte_split_80 [OF False] by (simp add: nb_def unat_and_7F)
    then have dl: "der_len n = b # take nb bs" using c m by (simp add: der_len_def min_def)
    have "take (k + (1 + nb)) (cbs_view c) = der_header t n"
      unfolding take_add tk b der_header_def dl by simp
    with element_get_sound [OF g] n
    show ?thesis using assms(2) element_ofI [of "k + 1 + nb" c t n] by (simp add: add.assoc)
  qed
qed

lemma CBS_get_any_asn1_element_complete:
  assumes "element_of c out tag hl c'" "cbs_ok c" "cbs_len c < 2 ^ 63"
  shows "cbs_get_any_asn1_element c ber = (Some (out, tag, hl), c')"
proof -
  from assms(1) obtain body rest where v: "cbs_view c = der tag body @ rest" "length body < 2 ^ 32"
    and r: "hl = length (der_header tag (length body))"
      "out = CBS_init (cbs_mem c) (length (der tag body))" "c' = cbs_adv (length (der tag body)) c"
    by (auto simp: element_of_def)
  define k n where "k = length (der_tag tag)" and "n = length body"
  have len: "cbs_len c = k + length (der_len n) + n + length rest"
    using arg_cong [OF v(1), of length] assms(2) by (simp add: der_def der_header_def k_def n_def)
  have p: "parse_asn1_tag c = (Some tag, cbs_adv k c)"
    unfolding k_def using v(1) assms(2)
    by (intro parse_asn1_tag_complete) (simp_all add: der_def der_header_def)
  have d: "drop k (cbs_view c) = der_len n @ body @ rest"
    using v(1) by (simp add: der_def der_header_def k_def n_def)
  have total: "length (der tag body) = k + length (der_len n) + n" "hl = k + length (der_len n)"
    using r(1) by (simp_all add: der_def der_header_def k_def n_def)
  show ?thesis
  proof (cases "n < 128")
    case True
    let ?b = "word_of_nat n :: byte"
    have b: "unat ?b = n" "?b AND 0x80 = 0" using group_byte [OF True] by simp_all
    have dl: "der_len n = [?b]" using True by (simp add: der_len_def)
    have "k < cbs_len c" using len dl by simp
    from element_short [OF p assms(2) d [unfolded dl append_Cons append_Nil] b(2) this, of ber]
    show ?thesis
      using b(1) len dl unfolding r(2,3) total by (simp add: element_get_def add.commute)
  next
    case False
    define nb where "nb = length (be_min n)"
    let ?b = "word_of_nat nb OR 0x80 :: byte"
    have nb: "nb \<le> 4" "\<not> n < 256 ^ (nb - 1)" "0 < nb"
      using v(2) length_be_min [of n 4] length_be_min [of n "nb - 1"] length_be_min [of n 0] False
      by (auto simp: nb_def n_def)
    have b: "?b AND 0x80 \<noteq> 0" "unat (?b AND 0x7f) = nb"
      using group_byte [of nb] nb(1) by (simp_all add: unat_and_7F)
    have dl: "der_len n = ?b # be_min n" using False by (simp add: der_len_def nb_def)
    have "k < cbs_len c" using len dl by simp
    note e = element_long [OF p assms(2) d [unfolded dl append_Cons] b(1) this b(2) [symmetric] nb(3) assms(3), of ber]
    have "take nb (be_min n @ body @ rest) = be_min n" by (simp add: nb_def)
    then show ?thesis unfolding e r(2,3) total using nb False len dl
      by (simp add: element_get_def nb_def Let_def)
  qed
qed

lemma CBS_element_iff:
  assumes "cbs_ok c" "cbs_len c < 2 ^ 63"
  shows "CBS_get_any_asn1_element c = (Some (out, tag, hl), c') \<longleftrightarrow>
    (\<exists>body rest. cbs_view c = der tag body @ rest \<and> length body < 2 ^ 32 \<and>
       hl = length (der_header tag (length body)) \<and>
       out = CBS_init (cbs_mem c) (length (der tag body)) \<and>
       c' = cbs_adv (length (der tag body)) c)"
  using CBS_get_any_asn1_element_sound [OF _ assms] CBS_get_any_asn1_element_complete [OF _ assms]
  unfolding element_of_def CBS_get_any_asn1_element_def by blast

text \<open>
  C3. The DER element parser accepts exactly the DER encodings of elements shorter than
  \<open>2^32\<close> bytes, for every tag, and gives the tag, the length of the header and the element
  that it steps over: no second encoding of anything is accepted.
\<close>

theorem CBS_get_any_asn1_element_der:
  assumes "cbs_ok c" "cbs_len c < 2 ^ 63"
  shows "CBS_get_any_asn1_element c = (Some (out, tag, hl), c') \<longleftrightarrow>
    (\<exists>body rest. cbs_view c = der tag body @ rest \<and> length body < 2 ^ 32 \<and>
       hl = length (der_header tag (length body)) \<and>
       out = CBS_init (cbs_mem c) (length (der tag body)) \<and>
       c' = cbs_adv (length (der tag body)) c)"
  by (rule CBS_element_iff [OF assms])


lemma CBS_get_any_asn1_element_der_witness:
  "CBS_get_any_asn1_element (CBS_init [0x30, 2, 5, 0, 9] 5) =
     (Some (CBS_init [0x30, 2, 5, 0, 9] 4, push_bit 24 0x20 OR 0x10, 2), cbs_adv 4 (CBS_init [0x30, 2, 5, 0, 9] 5))"
proof -
  have d: "der (push_bit 24 0x20 OR 0x10) [5, 0] = [0x30, 2, 5, 0]"
    "der_header (push_bit 24 0x20 OR 0x10) 2 = [0x30, 2]" by code_simp+
  show ?thesis
    using CBS_get_any_asn1_element_der [of "CBS_init [0x30, 2, 5, 0, 9] 5"
      "CBS_init [0x30, 2, 5, 0, 9] 4" "push_bit 24 0x20 OR 0x10" 2]
    by (intro iffD2 [OF CBS_get_any_asn1_element_der] exI [of _ "[5, 0]"] exI [of _ "[9]"])
      (simp_all add: d [simplified] flip: numeral_2_eq_2)
qed

section \<open>Integers in DER\<close>

lemma CBS_get_asn1_iff:
  assumes "cbs_ok c" "cbs_len c < 2 ^ 63"
  shows "CBS_get_asn1 c t = (Some out, c') \<longleftrightarrow>
    (\<exists>body rest. cbs_view c = der t body @ rest \<and> length body < 2 ^ 32 \<and>
       out = cbs_adv (length (der_header t (length body))) (CBS_init (cbs_mem c) (length (der t body))) \<and>
       c' = cbs_adv (length (der t body)) c)" (is "?l \<longleftrightarrow> ?r")
proof
  assume ?l
  then obtain e hl where e: "CBS_get_any_asn1_element c = (Some (e, t, hl), c')"
    and out: "CBS_skip e hl = (True, out)"
    by (auto simp: CBS_get_asn1_def cbs_get_asn1_def split: option.splits prod.splits if_splits bool.splits)
  from e [unfolded CBS_element_iff [OF assms]] out show ?r
    by (fastforce simp: CBS_skip_view split: if_splits)
next
  assume ?r
  then obtain body rest where r: "cbs_view c = der t body @ rest" "length body < 2 ^ 32"
    "out = cbs_adv (length (der_header t (length body))) (CBS_init (cbs_mem c) (length (der t body)))"
    "c' = cbs_adv (length (der t body)) c" by blast
  then have "CBS_get_any_asn1_element c = (Some (CBS_init (cbs_mem c) (length (der t body)), t,
      length (der_header t (length body))), c')"
    unfolding CBS_element_iff [OF assms] by blast
  then show ?l using r(3)
    by (simp add: CBS_get_asn1_def cbs_get_asn1_def CBS_skip_view der_def)
qed

lemma cbs_view_body:
  assumes "cbs_view c = der t body @ rest" "cbs_ok c"
  shows "cbs_view (cbs_adv (length (der_header t (length body))) (CBS_init (cbs_mem c) (length (der t body)))) = body"
    "cbs_len (cbs_adv (length (der_header t (length body))) (CBS_init (cbs_mem c) (length (der t body)))) = length body"
    "cbs_ok (cbs_adv (length (der_header t (length body))) (CBS_init (cbs_mem c) (length (der t body))))"
proof -
  have l: "length (der t body) \<le> cbs_len c"
    using arg_cong [OF assms(1), of length] assms(2) by simp
  have "take (length (der t body)) (cbs_mem c) = der t body"
    using cbs_mem_view [OF l] assms(1) by simp
  then show "cbs_view (cbs_adv (length (der_header t (length body))) (CBS_init (cbs_mem c) (length (der t body)))) = body"
    by (simp add: der_def)
  show "cbs_len (cbs_adv (length (der_header t (length body))) (CBS_init (cbs_mem c) (length (der t body)))) = length body"
    by (simp add: der_def)
  show "cbs_ok (cbs_adv (length (der_header t (length body))) (CBS_init (cbs_mem c) (length (der t body))))"
    using l assms(2) by (intro cbs_adv_simps CBS_init_simps) (simp add: cbs_ok_def)
qed

text \<open>The contents octets of a non-negative INTEGER.\<close>

definition der_uint :: "nat \<Rightarrow> byte list" where
  "der_uint n =
     (if n = 0 then [0] else if hd (be_min n) AND 0x80 = 0 then be_min n else 0 # be_min n)"

definition be_from :: "nat \<Rightarrow> byte list \<Rightarrow> nat" where
  "be_from m bs = foldl (\<lambda>n b. 256 * n + unat b) m bs"

lemma be_from_simps [simp]: "be_from m [] = m" "be_from m (b # bs) = be_from (256 * m + unat b) bs"
  by (simp_all add: be_from_def)

lemma be_from_ge: "m \<le> be_from m bs"
proof (induction bs arbitrary: m)
  case (Cons b bs)
  have "m \<le> 256 * m + unat b" by simp
  also have "\<dots> \<le> be_from (256 * m + unat b) bs" by (rule Cons)
  finally show ?case by simp
qed simp

lemma drop_bit_56: "m < 2 ^ 64 \<Longrightarrow> drop_bit 56 (word_of_nat m :: 64 word) = 0 \<longleftrightarrow> m < 2 ^ 56"
proof -
  assume "m < 2 ^ 64"
  then have "unat (drop_bit 56 (word_of_nat m :: 64 word)) = m div 2 ^ 56"
    by (simp only: unat_drop_bit_eq drop_bit_eq_div [where 'a = nat] unat_of_nat64)
  then have "drop_bit 56 (word_of_nat m :: 64 word) = 0 \<longleftrightarrow> m div 2 ^ 56 = 0"
    by (metis unat_eq_zero)
  then show ?thesis by (simp add: div_eq_0_iff)
qed

lemma asn1_uint64_loop_value:
  assumes "m < 2 ^ 64"
  shows "asn1_uint64_loop bs (word_of_nat m) =
    (if be_from m bs < 2 ^ 64 then Some (word_of_nat (be_from m bs)) else None)"
  using assms
proof (induction bs arbitrary: m)
  case (Cons b bs)
  show ?case
  proof (cases "m < 2 ^ 56")
    case True
    then have "256 * m + unat b < 2 ^ 64" using unsigned_less [of b, where 'a = nat] by simp
    then show ?thesis
      using Cons True drop_bit_56 [OF Cons.prems] or_byte_word [where 'a = 64, of m b]
      by (simp del: of_nat_add of_nat_mult)
  next
    case False
    have "2 ^ 64 \<le> 256 * m + unat b" using False by simp
    also have "\<dots> \<le> be_from (256 * m + unat b) bs" by (rule be_from_ge)
    finally show ?thesis using False drop_bit_56 [OF Cons.prems] by simp
  qed
qed simp

lemma der_uint_iff:
  assumes "bs \<noteq> []"
  shows "(bs ! 0 AND 0x80 = 0 \<and> \<not> (bs ! 0 = 0 \<and> length bs > 1 \<and> bs ! 1 AND 0x80 = 0)) \<longleftrightarrow>
    bs = der_uint (be_nat bs)"
proof -
  obtain b cs where bs: "bs = b # cs" using assms by (cases bs) auto
  show ?thesis
  proof (cases "b = 0")
    case False
    then have "be_min (be_nat bs) = bs" using bs by (intro be_min_be_nat) auto
    moreover from this have "be_nat bs \<noteq> 0" using bs by (metis be_min_0 list.discI)
    ultimately show ?thesis using bs False by (auto simp: der_uint_def)
  next
    case True
    then have z: "be_nat bs = be_nat cs" using bs by (simp add: be_nat_Cons_0)
    show ?thesis
    proof (cases cs)
      case Nil
      then show ?thesis using bs True z by (simp add: der_uint_def)
    next
      case (Cons d ds)
      show ?thesis
      proof (cases "d = 0")
        case True': True
        have "der_uint (be_nat cs) \<noteq> bs"
        proof
          assume e: "der_uint (be_nat cs) = bs"
          then have "be_nat cs \<noteq> 0" using bs Cons by (cases "be_nat cs = 0") (auto simp: der_uint_def)
          then have "hd (be_min (be_nat cs)) \<noteq> 0" by (intro hd_be_min) simp
          with e bs Cons True True' \<open>be_nat cs \<noteq> 0\<close> show False
            by (auto simp: der_uint_def split: if_splits)
        qed
        then show ?thesis using bs Cons True True' z by auto
      next
        case False
        then have m: "be_min (be_nat cs) = cs" using Cons by (intro be_min_be_nat) auto
        moreover from this have "be_nat cs \<noteq> 0" using Cons by (metis be_min_0 list.discI)
        ultimately show ?thesis using bs True Cons z by (auto simp: der_uint_def)
      qed
    qed
  qed
qed

lemma CBS_uint64_iff:
  assumes "cbs_ok c" "cbs_len c < 2 ^ 63"
  shows "CBS_get_asn1_uint64 c = (Some v, c') \<longleftrightarrow>
    (\<exists>rest. cbs_view c = der CBS_ASN1_INTEGER (der_uint (unat v)) @ rest \<and>
       c' = cbs_adv (length (der CBS_ASN1_INTEGER (der_uint (unat v)))) c)" (is "?l \<longleftrightarrow> ?r")
proof -
  have z: "asn1_uint64_loop bs 0 = (if be_nat bs < 2 ^ 64 then Some (word_of_nat (be_nat bs)) else None)" for bs
    using asn1_uint64_loop_value [of 0 bs] by (simp add: be_from_def be_nat_def)
  have step: "CBS_get_asn1_uint64 c = (Some v, c') \<longleftrightarrow>
      (bs \<noteq> [] \<and> bs = der_uint (be_nat bs) \<and> be_nat bs < 2 ^ 64 \<and> v = word_of_nat (be_nat bs) \<and> c' = c2)"
    if "CBS_get_asn1 c CBS_ASN1_INTEGER = (Some b, c2)" "cbs_view b = bs" "cbs_len b = length bs" "cbs_ok b"
    for b bs c2
  proof (cases "bs = []")
    case False
    have "i < length bs \<Longrightarrow> cbs_mem b ! i = bs ! i" for i using that(2,3) cbs_nth_view [of i b] by simp
    moreover have "take (length bs) (cbs_mem b) = bs" using that(2,3) by (simp add: cbs_view_def)
    moreover define p where "p \<longleftrightarrow> bs = der_uint (be_nat bs)"
    note der_uint_iff [OF False, folded p_def]
    ultimately have "CBS_get_asn1_uint64 c = (if p then (asn1_uint64_loop bs 0, c2) else (None, c2))"
      using that(1,3) False by (auto simp: CBS_get_asn1_uint64_def Let_def CBS_data_def CBS_len_def)
    then show ?thesis using False unfolding p_def [symmetric] z by auto
  qed (use that in \<open>simp add: CBS_get_asn1_uint64_def CBS_len_def Let_def\<close>)
  have u: "unat (word_of_nat n :: 64 word) = n" if "n < 2 ^ 64" for n using that by (rule unat_of_nat64)
  show ?thesis
  proof
    assume ?l
    then obtain b c2 where g: "CBS_get_asn1 c CBS_ASN1_INTEGER = (Some b, c2)"
      by (cases "CBS_get_asn1 c CBS_ASN1_INTEGER") (auto simp: CBS_get_asn1_uint64_def split: option.splits)
    from g [unfolded CBS_get_asn1_iff [OF assms]] obtain body rest where
      v: "cbs_view c = der CBS_ASN1_INTEGER body @ rest" and c2: "c2 = cbs_adv (length (der CBS_ASN1_INTEGER body)) c"
        and b: "cbs_view b = body" "cbs_len b = length body" "cbs_ok b"
      using cbs_view_body [OF _ assms(1)] by metis
    from \<open>?l\<close> [unfolded step [OF g b]] show ?r using v c2 u by metis
  next
    assume ?r
    then obtain rest where v: "cbs_view c = der CBS_ASN1_INTEGER (der_uint (unat v)) @ rest"
      and c': "c' = cbs_adv (length (der CBS_ASN1_INTEGER (der_uint (unat v)))) c" by blast
    let ?bs = "der_uint (unat v)"
    have "length (be_min (unat v)) \<le> 8"
      using unsigned_less [of v, where 'a = nat] by (simp add: length_be_min)
    then have l: "length ?bs < 2 ^ 32" by (simp add: der_uint_def)
    have n: "be_nat ?bs = unat v" by (auto simp: der_uint_def be_nat_Cons_0 be_nat_def [of "[0]"])
    have "?bs \<noteq> []" by (auto simp: der_uint_def be_min.simps [of "unat v"])
    moreover note cbs_view_body [OF v assms(1)]
    moreover have "CBS_get_asn1 c CBS_ASN1_INTEGER =
        (Some (cbs_adv (length (der_header CBS_ASN1_INTEGER (length ?bs)))
            (CBS_init (cbs_mem c) (length (der CBS_ASN1_INTEGER ?bs)))), c')"
      unfolding CBS_get_asn1_iff [OF assms] using v l c' by blast
    ultimately show ?l
      using step [of "cbs_adv (length (der_header CBS_ASN1_INTEGER (length ?bs)))
            (CBS_init (cbs_mem c) (length (der CBS_ASN1_INTEGER ?bs)))" c' ?bs]
        unsigned_less [of v, where 'a = nat] n by simp
  qed
qed

text \<open>
  \<open>CBS_get_asn1_uint64\<close> reads exactly the DER INTEGERs from 0 to \<open>2^64 - 1\<close>, each
  in its one encoding.
\<close>

theorem CBS_get_asn1_uint64_der:
  assumes "cbs_ok c" "cbs_len c < 2 ^ 63"
  shows "CBS_get_asn1_uint64 c = (Some v, c') \<longleftrightarrow>
    (\<exists>rest. cbs_view c = der CBS_ASN1_INTEGER (der_uint (unat v)) @ rest \<and>
       c' = cbs_adv (length (der CBS_ASN1_INTEGER (der_uint (unat v)))) c)"
  by (rule CBS_uint64_iff [OF assms])


lemma CBS_get_asn1_uint64_der_witness:
  "CBS_get_asn1_uint64 (CBS_init [2, 2, 0, 200, 7] 5) = (Some 200, cbs_adv 4 (CBS_init [2, 2, 0, 200, 7] 5))"
proof -
  have d: "der CBS_ASN1_INTEGER (der_uint 200) = [2, 2, 0, 200]" by code_simp
  show ?thesis
    by (rule iffD2 [OF CBS_get_asn1_uint64_der], simp, simp, simp add: d)
      (simp add: numeral_eq_Suc)
qed

lemma parse_base128_iff:
  assumes "cbs_ok c"
  shows "parse_base128_integer c = (Some v, c') \<longleftrightarrow>
    (\<exists>rest. cbs_view c = b128 (unat v) @ rest \<and> c' = cbs_adv (length (b128 (unat v))) c)"
    (is "?l \<longleftrightarrow> ?r")
proof
  assume ?l
  then obtain k where k: "k \<le> cbs_len c" "c' = cbs_adv k c" "take k (cbs_view c) = b128 (unat v)"
    using parse_base128_sound [of c 0 v c'] assms by (auto simp: parse_base128_integer_def)
  then have "k = length (b128 (unat v))" using assms by (metis length_take length_cbs_view min_absorb2)
  moreover have "cbs_view c = b128 (unat v) @ drop k (cbs_view c)" using k(3) by (metis append_take_drop_id)
  ultimately show ?r using k(2) by blast
next
  assume ?r
  then show ?l using parse_base128_complete [OF assms, of "unat v"] unsigned_less [of v, where 'a = nat]
    by auto
qed

text \<open>
  The base-128 parser, used for high tag numbers and object identifiers, reads exactly
  the minimal encodings of the numbers below \<open>2^64\<close>.
\<close>

theorem parse_base128_minimal:
  assumes "cbs_ok c"
  shows "parse_base128_integer c = (Some v, c') \<longleftrightarrow>
    (\<exists>rest. cbs_view c = b128 (unat v) @ rest \<and> c' = cbs_adv (length (b128 (unat v))) c)"
  by (rule parse_base128_iff [OF assms])


lemma parse_base128_minimal_witness:
  "parse_base128_integer (CBS_init [0x86, 0x48, 1] 3) = (Some 840, cbs_adv 2 (CBS_init [0x86, 0x48, 1] 3))"
proof -
  have d: "b128 840 = [0x86, 0x48]" by code_simp
  show ?thesis
    by (rule iffD2 [OF parse_base128_minimal], simp, simp add: d) (simp add: numeral_2_eq_2)
qed

end
