(* ===== verification/Cbb.thy ===== *)
theory Cbb
  imports Cbs
begin

text \<open>
  BoringSSL's builder for byte strings and DER (\<open>crypto/bytestring/cbb.c\<close>). A top-level
  \<open>CBB\<close>, its pending child, that child's child and so on share one buffer. The model
  keeps them together: the buffer and the chain of children. A \<open>CBB\<close> is named by its
  depth in the chain, 0 for the top-level one; a depth beyond the chain is a \<open>CBB\<close> that
  has been flushed, whose \<open>base\<close> is null.
\<close>

section \<open>The shared buffer\<close>

record cbb_buffer =
  cb_buf :: "block option"
  cb_len :: nat
  cb_cap :: nat
  cb_can_resize :: bool
  cb_error :: bool

record cbb_frame =
  fr_offset :: nat
  fr_pending_len_len :: nat
  fr_is_asn1 :: bool

record cbb =
  cbb_base :: "cbb_buffer option"
  cbb_children :: "cbb_frame list"

definition CBB_zero :: cbb where
  "CBB_zero = \<lparr>cbb_base = None, cbb_children = []\<rparr>"

definition cbb_init :: "heap_env \<Rightarrow> block option \<Rightarrow> nat \<Rightarrow> bool \<Rightarrow> bool \<times> cbb" where
  "cbb_init env buf cap can_resize =
     (case OPENSSL_malloc env 32 of
        None \<Rightarrow> (False, CBB_zero)
      | Some _ \<Rightarrow>
          (True, \<lparr>cbb_base = Some \<lparr>cb_buf = buf, cb_len = 0, cb_cap = cap,
                                  cb_can_resize = can_resize, cb_error = False\<rparr>,
                  cbb_children = []\<rparr>))"

definition CBB_init :: "heap_env \<Rightarrow> nat \<Rightarrow> bool \<times> cbb" where
  "CBB_init env initial_capacity =
     (let buf = OPENSSL_malloc env initial_capacity in
      if initial_capacity > 0 \<and> buf = None then (False, CBB_zero)
      else cbb_init env buf initial_capacity True)"

text \<open>\<open>buf\<close> is the caller's memory.\<close>

definition CBB_init_fixed :: "heap_env \<Rightarrow> byte list \<Rightarrow> nat \<Rightarrow> bool \<times> cbb" where
  "CBB_init_fixed env buf len =
     cbb_init env (Some \<lparr>blk_size = length buf, blk_mem = buf\<rparr>) len False"

text \<open>What is handed back to the allocator, and the zeroed \<open>CBB\<close>.\<close>

definition CBB_cleanup :: "cbb \<Rightarrow> byte list option \<times> cbb" where
  "CBB_cleanup c =
     ((case cbb_base c of
         None \<Rightarrow> None
       | Some b \<Rightarrow> if cb_can_resize b then OPENSSL_free (cb_buf b) else None),
      c\<lparr>cbb_base := None\<rparr>)"

definition cbb_buffer_reserve :: "heap_env \<Rightarrow> cbb_buffer \<Rightarrow> nat \<Rightarrow> bool \<times> cbb_buffer" where
  "cbb_buffer_reserve env b len =
     (let newlen = size_wrap (cb_len b + len); err = (False, b\<lparr>cb_error := True\<rparr>) in
      if newlen < cb_len b then err
      else if newlen > cb_cap b
      then (let newcap = size_wrap (cb_cap b * 2) in
            if \<not> cb_can_resize b then err
            else let newcap = (if newcap < cb_cap b \<or> newcap < newlen then newlen else newcap) in
            case OPENSSL_realloc env (cb_buf b) newcap of
              None \<Rightarrow> err
            | Some newbuf \<Rightarrow> (True, b\<lparr>cb_buf := Some newbuf, cb_cap := newcap\<rparr>))
      else (True, b))"

definition cbb_buffer_add :: "heap_env \<Rightarrow> cbb_buffer \<Rightarrow> nat \<Rightarrow> bool \<times> cbb_buffer" where
  "cbb_buffer_add env b len =
     (case cbb_buffer_reserve env b len of
        (False, b') \<Rightarrow> (False, b')
      | (True, b') \<Rightarrow> (True, b'\<lparr>cb_len := cb_len b' + len\<rparr>))"

text \<open>A store at \<open>buf[i]\<close> and the following bytes.\<close>

definition cb_write :: "cbb_buffer \<Rightarrow> nat \<Rightarrow> byte list \<Rightarrow> cbb_buffer" where
  "cb_write b i bs =
     b\<lparr>cb_buf := map_option (\<lambda>m. m\<lparr>blk_mem := mem_write (blk_mem m) i bs\<rparr>) (cb_buf b)\<rparr>"

definition cb_mem :: "cbb_buffer \<Rightarrow> byte list" where
  "cb_mem b = (case cb_buf b of None \<Rightarrow> [] | Some m \<Rightarrow> blk_mem m)"

text \<open>
  The loops that store a length big-endian from the last byte to the first; the second
  component is what does not fit.
\<close>

fun put_be :: "cbb_buffer \<Rightarrow> nat \<Rightarrow> nat \<Rightarrow> nat \<Rightarrow> cbb_buffer \<times> nat" where
  "put_be b off 0 v = (b, v)"
| "put_be b off (Suc i) v = put_be (cb_write b (off + i) [word_of_nat v]) off i (v div 256)"

definition cbb_buffer_add_u :: "heap_env \<Rightarrow> cbb_buffer \<Rightarrow> 32 word \<Rightarrow> nat \<Rightarrow> bool \<times> cbb_buffer" where
  "cbb_buffer_add_u env b v len_len =
     (if len_len = 0 then (True, b)
      else case cbb_buffer_add env b len_len of
        (False, b') \<Rightarrow> (False, b')
      | (True, b') \<Rightarrow>
          (case put_be b' (cb_len b' - len_len) len_len (unat v) of
             (b'', v') \<Rightarrow>
               if v' \<noteq> 0 then (False, b''\<lparr>cb_error := True\<rparr>) else (True, b'')))"

section \<open>Flushing\<close>

text \<open>
  \<open>asn1_len_len\<close>: the number of length octets, the first of them, and the value left to
  store in the others.
\<close>

definition asn1_len_len :: "nat \<Rightarrow> nat \<times> byte \<times> nat" where
  "asn1_len_len len =
     (if len > 0xffffff then (5, 0x84, len)
      else if len > 0xffff then (4, 0x83, len)
      else if len > 0xff then (3, 0x82, len)
      else if len > 0x7f then (2, 0x81, len)
      else (1, word_of_nat len, 0))"

text \<open>
  The part of \<open>CBB_flush\<close> behind the recursive call, for the child \<open>f\<close>: success, the
  buffer, and the child as it is left when the function fails.
\<close>

definition flush_prefix ::
  "heap_env \<Rightarrow> cbb_buffer \<Rightarrow> cbb_frame \<Rightarrow> bool \<times> cbb_buffer \<times> cbb_frame" where
  "flush_prefix env b f =
     (let child_start = size_wrap (fr_offset f + fr_pending_len_len f);
          err = (\<lambda>b f. (False, b\<lparr>cb_error := True\<rparr>, f));
          finish = (\<lambda>b f len.
            case put_be b (fr_offset f) (fr_pending_len_len f) len of
              (b', len') \<Rightarrow> if len' \<noteq> 0 then err b' f else (True, b', f))
      in if child_start < fr_offset f \<or> cb_len b < child_start then err b f
         else let len = cb_len b - child_start in
         if fr_is_asn1 f
         then if len > 0xfffffffe then err b f
              else (case asn1_len_len len of (len_len, initial_length_byte, len') \<Rightarrow>
                let (ok, b1) =
                  (if len_len \<noteq> 1
                   then let extra_bytes = len_len - 1 in
                     (case cbb_buffer_add env b extra_bytes of
                        (False, b') \<Rightarrow> (False, b')
                      | (True, b') \<Rightarrow>
                          (True, cb_write b' (child_start + extra_bytes)
                                   (take len (drop child_start (cb_mem b')))))
                   else (True, b))
                in if \<not> ok then err b1 f
                   else finish (cb_write b1 (fr_offset f) [initial_length_byte])
                          (f\<lparr>fr_offset := fr_offset f + 1, fr_pending_len_len := len_len - 1\<rparr>) len')
         else finish b f len)"

text \<open>\<open>CBB_flush\<close> of the \<open>CBB\<close> whose chain of children is the list.\<close>

fun flush_frames ::
  "heap_env \<Rightarrow> cbb_buffer \<Rightarrow> cbb_frame list \<Rightarrow> bool \<times> cbb_buffer \<times> cbb_frame list" where
  "flush_frames env b [] = (if cb_error b then (False, b, []) else (True, b, []))"
| "flush_frames env b (f # fs) =
     (if cb_error b then (False, b, f # fs)
      else if fr_pending_len_len f = 0 then (True, b, f # fs)
      else case flush_frames env b fs of
        (False, b', fs') \<Rightarrow> (False, b'\<lparr>cb_error := True\<rparr>, f # fs')
      | (True, b', fs') \<Rightarrow>
          (case flush_prefix env b' f of
             (False, b'', f') \<Rightarrow> (False, b'', f' # fs')
           | (True, b'', _) \<Rightarrow> (True, b'', [])))"

definition CBB_flush :: "heap_env \<Rightarrow> cbb \<Rightarrow> nat \<Rightarrow> bool \<times> cbb" where
  "CBB_flush env c d =
     (case cbb_base c of
        None \<Rightarrow> (False, c)
      | Some b \<Rightarrow>
          if d > length (cbb_children c) then (False, c)
          else (case flush_frames env b (drop d (cbb_children c)) of
                  (ok, b', fs') \<Rightarrow>
                    (ok, \<lparr>cbb_base = Some b', cbb_children = take d (cbb_children c) @ fs'\<rparr>)))"

text \<open>An operation on the buffer once \<open>CBB_flush\<close> has succeeded.\<close>

definition after_flush ::
  "heap_env \<Rightarrow> cbb \<Rightarrow> nat \<Rightarrow> (cbb_buffer \<Rightarrow> bool \<times> cbb_buffer) \<Rightarrow> bool \<times> cbb" where
  "after_flush env c d op =
     (case CBB_flush env c d of
        (False, c') \<Rightarrow> (False, c')
      | (True, c') \<Rightarrow>
          (case cbb_base c' of
             None \<Rightarrow> (False, c')
           | Some b \<Rightarrow> (case op b of (ok, b') \<Rightarrow> (ok, c'\<lparr>cbb_base := Some b'\<rparr>))))"

text \<open>
  The outputs of \<open>CBB_finish\<close> are the buffer and its length; \<open>want\<close> says that both
  out-pointers are there.
\<close>

definition CBB_finish ::
  "heap_env \<Rightarrow> cbb \<Rightarrow> nat \<Rightarrow> bool \<Rightarrow> (block option \<times> nat) option \<times> cbb" where
  "CBB_finish env c d want =
     (if d \<noteq> 0 then (None, c)
      else case CBB_flush env c d of
        (False, c') \<Rightarrow> (None, c')
      | (True, c') \<Rightarrow>
          (case cbb_base c' of
             None \<Rightarrow> (None, c')
           | Some b \<Rightarrow>
               if cb_can_resize b \<and> \<not> want then (None, c')
               else (Some (cb_buf b, cb_len b), snd (CBB_cleanup c'))))"

definition frame_at :: "cbb \<Rightarrow> nat \<Rightarrow> nat \<times> nat" where
  "frame_at c d =
     (if d = 0 then (0, 0)
      else (fr_offset (cbb_children c ! (d - 1)), fr_pending_len_len (cbb_children c ! (d - 1))))"

definition CBB_data :: "cbb \<Rightarrow> nat \<Rightarrow> byte list" where
  "CBB_data c d =
     (case frame_at c d of (off, pend) \<Rightarrow>
        (case cbb_base c of None \<Rightarrow> [] | Some b \<Rightarrow> drop (off + pend) (cb_mem b)))"

definition CBB_len :: "cbb \<Rightarrow> nat \<Rightarrow> nat" where
  "CBB_len c d =
     (case frame_at c d of (off, pend) \<Rightarrow>
        (case cbb_base c of None \<Rightarrow> 0 | Some b \<Rightarrow> cb_len b - off - pend))"

section \<open>Adding\<close>

definition open_child :: "cbb \<Rightarrow> nat \<Rightarrow> nat \<Rightarrow> nat \<Rightarrow> bool \<Rightarrow> cbb" where
  "open_child c d offset len_len is_asn1 =
     c\<lparr>cbb_children := take d (cbb_children c) @
         [\<lparr>fr_offset = offset, fr_pending_len_len = len_len, fr_is_asn1 = is_asn1\<rparr>]\<rparr>"

definition cbb_len_of :: "cbb \<Rightarrow> nat" where
  "cbb_len_of c = (case cbb_base c of None \<Rightarrow> 0 | Some b \<Rightarrow> cb_len b)"

definition cbb_add_length_prefixed :: "heap_env \<Rightarrow> cbb \<Rightarrow> nat \<Rightarrow> nat \<Rightarrow> bool \<times> cbb" where
  "cbb_add_length_prefixed env c d len_len =
     (case after_flush env c d (\<lambda>b. case cbb_buffer_add env b len_len of
             (False, b') \<Rightarrow> (False, b')
           | (True, b') \<Rightarrow> (True, cb_write b' (cb_len b' - len_len) (replicate len_len 0))) of
        (False, c') \<Rightarrow> (False, c')
      | (True, c') \<Rightarrow> (True, open_child c' d (cbb_len_of c' - len_len) len_len False))"

definition CBB_add_u8_length_prefixed :: "heap_env \<Rightarrow> cbb \<Rightarrow> nat \<Rightarrow> bool \<times> cbb" where
  "CBB_add_u8_length_prefixed env c d = cbb_add_length_prefixed env c d 1"

definition CBB_add_u16_length_prefixed :: "heap_env \<Rightarrow> cbb \<Rightarrow> nat \<Rightarrow> bool \<times> cbb" where
  "CBB_add_u16_length_prefixed env c d = cbb_add_length_prefixed env c d 2"

definition CBB_add_u24_length_prefixed :: "heap_env \<Rightarrow> cbb \<Rightarrow> nat \<Rightarrow> bool \<times> cbb" where
  "CBB_add_u24_length_prefixed env c d = cbb_add_length_prefixed env c d 3"

definition CBB_add_bytes :: "heap_env \<Rightarrow> cbb \<Rightarrow> nat \<Rightarrow> byte list \<Rightarrow> bool \<times> cbb" where
  "CBB_add_bytes env c d data =
     after_flush env c d (\<lambda>b. case cbb_buffer_add env b (length data) of
         (False, b') \<Rightarrow> (False, b')
       | (True, b') \<Rightarrow> (True, cb_write b' (cb_len b' - length data) data))"

definition CBB_add_space :: "heap_env \<Rightarrow> cbb \<Rightarrow> nat \<Rightarrow> nat \<Rightarrow> bool \<times> cbb" where
  "CBB_add_space env c d len = after_flush env c d (\<lambda>b. cbb_buffer_add env b len)"

definition CBB_reserve :: "heap_env \<Rightarrow> cbb \<Rightarrow> nat \<Rightarrow> nat \<Rightarrow> bool \<times> cbb" where
  "CBB_reserve env c d len = after_flush env c d (\<lambda>b. cbb_buffer_reserve env b len)"

definition CBB_did_write :: "cbb \<Rightarrow> nat \<Rightarrow> nat \<Rightarrow> bool \<times> cbb" where
  "CBB_did_write c d len =
     (case cbb_base c of
        None \<Rightarrow> (False, c)
      | Some b \<Rightarrow>
          (let newlen = size_wrap (cb_len b + len) in
           if d < length (cbb_children c) \<or> newlen < cb_len b \<or> newlen > cb_cap b then (False, c)
           else (True, c\<lparr>cbb_base := Some (b\<lparr>cb_len := newlen\<rparr>)\<rparr>)))"

definition cbb_add_u :: "heap_env \<Rightarrow> cbb \<Rightarrow> nat \<Rightarrow> 32 word \<Rightarrow> nat \<Rightarrow> bool \<times> cbb" where
  "cbb_add_u env c d v len_len = after_flush env c d (\<lambda>b. cbb_buffer_add_u env b v len_len)"

definition CBB_add_u8 :: "heap_env \<Rightarrow> cbb \<Rightarrow> nat \<Rightarrow> 8 word \<Rightarrow> bool \<times> cbb" where
  "CBB_add_u8 env c d v = cbb_add_u env c d (ucast v) 1"

definition CBB_add_u16 :: "heap_env \<Rightarrow> cbb \<Rightarrow> nat \<Rightarrow> 16 word \<Rightarrow> bool \<times> cbb" where
  "CBB_add_u16 env c d v = cbb_add_u env c d (ucast v) 2"

definition CBB_add_u24 :: "heap_env \<Rightarrow> cbb \<Rightarrow> nat \<Rightarrow> 32 word \<Rightarrow> bool \<times> cbb" where
  "CBB_add_u24 env c d v = cbb_add_u env c d v 3"

definition CBB_add_u32 :: "heap_env \<Rightarrow> cbb \<Rightarrow> nat \<Rightarrow> 32 word \<Rightarrow> bool \<times> cbb" where
  "CBB_add_u32 env c d v = cbb_add_u env c d v 4"

definition CBB_discard_child :: "cbb \<Rightarrow> nat \<Rightarrow> cbb" where
  "CBB_discard_child c d =
     (if d < length (cbb_children c)
      then c\<lparr>cbb_base := map_option (\<lambda>b. b\<lparr>cb_len := fr_offset (cbb_children c ! d)\<rparr>) (cbb_base c),
             cbb_children := take d (cbb_children c)\<rparr>
      else c)"

text \<open>A sequence of \<open>CBB_add_u8\<close> calls that stops at the first failure.\<close>

fun add_u8s :: "heap_env \<Rightarrow> cbb \<Rightarrow> nat \<Rightarrow> byte list \<Rightarrow> bool \<times> cbb" where
  "add_u8s env c d [] = (True, c)"
| "add_u8s env c d (b # bs) =
     (case CBB_add_u8 env c d b of
        (False, c') \<Rightarrow> (False, c')
      | (True, c') \<Rightarrow> add_u8s env c' d bs)"

text \<open>
  \<open>add_base128_integer\<close>: the loop that counts the groups of seven bits, and the bytes
  the second loop adds, from the highest group down.
\<close>

function base128_len :: "64 word \<Rightarrow> nat" where
  "base128_len copy = (if copy > 0 then Suc (base128_len (drop_bit 7 copy)) else 0)"
  by pat_completeness auto
termination
  by (relation "measure unat") (auto simp: word_greater_zero_iff intro: drop_bit_less)

declare base128_len.simps [simp del]

definition base128_byte :: "64 word \<Rightarrow> nat \<Rightarrow> byte" where
  "base128_byte v i =
     (let byte = ucast (drop_bit (7 * i) v AND 0x7f) in if i \<noteq> 0 then byte OR 0x80 else byte)"

definition add_base128_integer :: "heap_env \<Rightarrow> cbb \<Rightarrow> nat \<Rightarrow> 64 word \<Rightarrow> bool \<times> cbb" where
  "add_base128_integer env c d v =
     (let len_len = (if base128_len v = 0 then 1 else base128_len v)
      in add_u8s env c d (map (base128_byte v) (rev [0..<len_len])))"

definition CBB_add_asn1 :: "heap_env \<Rightarrow> cbb \<Rightarrow> nat \<Rightarrow> 32 word \<Rightarrow> bool \<times> cbb" where
  "CBB_add_asn1 env c d tag =
     (case CBB_flush env c d of
        (False, c0) \<Rightarrow> (False, c0)
      | (True, c0) \<Rightarrow>
          (let tag_bits = ucast (drop_bit 24 tag) AND 0xe0 :: byte;
               tag_number = tag AND CBS_ASN1_TAG_NUMBER_MASK
           in case (if tag_number \<ge> 0x1f
                    then (case CBB_add_u8 env c0 d (tag_bits OR 0x1f) of
                            (False, c1) \<Rightarrow> (False, c1)
                          | (True, c1) \<Rightarrow> add_base128_integer env c1 d (ucast tag_number))
                    else CBB_add_u8 env c0 d (tag_bits OR ucast tag_number)) of
                (False, c2) \<Rightarrow> (False, c2)
              | (True, c2) \<Rightarrow>
                  let offset = cbb_len_of c2 in
                  case CBB_add_u8 env c2 d 0 of
                    (False, c3) \<Rightarrow> (False, c3)
                  | (True, c3) \<Rightarrow> (True, open_child c3 d offset 1 True)))"

text \<open>The bytes \<open>CBB_add_asn1_uint64\<close> adds to its child, in order.\<close>

fun uint64_bytes :: "64 word \<Rightarrow> nat list \<Rightarrow> bool \<Rightarrow> byte list" where
  "uint64_bytes v [] started = (if \<not> started then [0] else [])"
| "uint64_bytes v (i # js) started =
     (let byte = ucast (drop_bit (8 * (7 - i)) v AND 0xff) in
      if \<not> started \<and> byte = 0 then uint64_bytes v js False
      else (if \<not> started \<and> byte AND 0x80 \<noteq> 0 then [0] else []) @ byte # uint64_bytes v js True)"

definition CBB_add_asn1_uint64 :: "heap_env \<Rightarrow> cbb \<Rightarrow> nat \<Rightarrow> 64 word \<Rightarrow> bool \<times> cbb" where
  "CBB_add_asn1_uint64 env c d v =
     (case CBB_add_asn1 env c d CBS_ASN1_INTEGER of
        (False, c1) \<Rightarrow> (False, c1)
      | (True, c1) \<Rightarrow>
          (case add_u8s env c1 (Suc d) (uint64_bytes v [0..<8] False) of
             (False, c2) \<Rightarrow> (False, c2)
           | (True, c2) \<Rightarrow> CBB_flush env c2 d))"

definition CBB_add_asn1_octet_string :: "heap_env \<Rightarrow> cbb \<Rightarrow> nat \<Rightarrow> byte list \<Rightarrow> bool \<times> cbb" where
  "CBB_add_asn1_octet_string env c d data =
     (case CBB_add_asn1 env c d CBS_ASN1_OCTETSTRING of
        (False, c1) \<Rightarrow> (False, c1)
      | (True, c1) \<Rightarrow>
          (case CBB_add_bytes env c1 (Suc d) data of
             (False, c2) \<Rightarrow> (False, c2)
           | (True, c2) \<Rightarrow> CBB_flush env c2 d))"

definition CBB_add_asn1_bool :: "heap_env \<Rightarrow> cbb \<Rightarrow> nat \<Rightarrow> int \<Rightarrow> bool \<times> cbb" where
  "CBB_add_asn1_bool env c d v =
     (case CBB_add_asn1 env c d CBS_ASN1_BOOLEAN of
        (False, c1) \<Rightarrow> (False, c1)
      | (True, c1) \<Rightarrow>
          (case CBB_add_u8 env c1 (Suc d) (if v \<noteq> 0 then 0xff else 0) of
             (False, c2) \<Rightarrow> (False, c2)
           | (True, c2) \<Rightarrow> CBB_flush env c2 d))"

section \<open>The buffer as a byte string\<close>

text \<open>
  \<open>cb_ok\<close>: the recorded sizes are those of the memory. \<open>cb_out\<close>: the bytes written.
  \<open>env_bounded\<close>: \<open>malloc\<close> does not hand out blocks of \<open>2^62\<close> bytes, as no
  allocator of a 64-bit target does; \<open>roomy\<close>: what is needed for \<open>n\<close> more bytes can
  be had.
\<close>

definition env_bounded :: "heap_env \<Rightarrow> bool" where
  "env_bounded env \<longleftrightarrow> (\<forall>n. malloc_ok env n \<longrightarrow> n < 2 ^ 62)"

definition cb_ok :: "cbb_buffer \<Rightarrow> bool" where
  "cb_ok b \<longleftrightarrow> cb_len b \<le> cb_cap b \<and> cb_cap b < 2 ^ 62 \<and> cb_cap b \<le> length (cb_mem b) \<and>
     (cb_can_resize b \<longrightarrow> (\<forall>m. cb_buf b = Some m \<longrightarrow> blk_ok m \<and> blk_size m = cb_cap b))"

definition cb_out :: "cbb_buffer \<Rightarrow> byte list" where
  "cb_out b = take (cb_len b) (cb_mem b)"

definition roomy :: "heap_env \<Rightarrow> cbb_buffer \<Rightarrow> nat \<Rightarrow> bool" where
  "roomy env b n \<longleftrightarrow> (\<forall>k<2 ^ 62. malloc_ok env k) \<and> cb_can_resize b \<and>
     cb_cap b < 2 ^ 60 \<and> cb_len b + n < 2 ^ 59"

lemma length_cb_out [simp]: "cb_ok b \<Longrightarrow> length (cb_out b) = cb_len b"
  by (auto simp: cb_ok_def cb_out_def)

lemma cb_error_update [simp]:
  "cb_ok (b\<lparr>cb_error := e\<rparr>) = cb_ok b" "cb_out (b\<lparr>cb_error := e\<rparr>) = cb_out b"
  "cb_mem (b\<lparr>cb_error := e\<rparr>) = cb_mem b"
  by (simp_all add: cb_ok_def cb_out_def cb_mem_def)

text \<open>\<open>b'\<close> holds the same bytes as \<open>b\<close>, perhaps in a larger block.\<close>

definition same_out :: "cbb_buffer \<Rightarrow> cbb_buffer \<Rightarrow> bool" where
  "same_out b b' \<longleftrightarrow> cb_ok b' \<and> cb_out b' = cb_out b \<and> cb_len b' = cb_len b \<and>
     cb_can_resize b' = cb_can_resize b"

lemma powers: "(2 :: nat) ^ 59 = 576460752303423488" "(2 :: nat) ^ 60 = 1152921504606846976"
  "(2 :: nat) ^ 62 = 4611686018427387904" "(2 :: nat) ^ 63 = 9223372036854775808"
  "(2 :: nat) ^ 64 = 18446744073709551616"
  by simp_all

lemma cbb_buffer_reserve_ok:
  assumes "cbb_buffer_reserve env b n = (ok, b')" "env_bounded env" "cb_ok b" "n < 2 ^ 62"
  shows "same_out b b' \<and> (ok \<longrightarrow> cb_len b + n \<le> cb_cap b' \<and> cb_error b' = cb_error b) \<and>
    (\<not> ok \<longrightarrow> cb_error b') \<and> (roomy env b n \<longrightarrow> ok \<and> cb_cap b' < 2 ^ 60)"
proof -
  have l: "cb_len b + n < 2 ^ 63" "cb_len b \<le> cb_cap b" "cb_cap b < 2 ^ 62"
    using assms(3,4) unfolding cb_ok_def powers by linarith+
  have w: "size_wrap (cb_len b + n) = cb_len b + n" "size_wrap (cb_cap b * 2) = cb_cap b * 2"
    using l unfolding powers by (intro size_wrap_id; simp)+
  have same: "same_out b b" using assms(3) by (simp add: same_out_def)
  define cap where "cap = (if cb_cap b * 2 < cb_len b + n then cb_len b + n else cb_cap b * 2)"
  show ?thesis
  proof (cases "cb_len b + n \<le> cb_cap b")
    case True
    then show ?thesis using assms(1) w same
      by (auto simp: cbb_buffer_reserve_def Let_def roomy_def)
  next
    case grow: False
    show ?thesis
    proof (cases "cb_can_resize b")
      case False
      then show ?thesis using assms(1) w grow same assms(3)
        by (auto simp: cbb_buffer_reserve_def Let_def roomy_def same_out_def)
    next
      case True
      then have r: "cbb_buffer_reserve env b n = (case OPENSSL_realloc env (cb_buf b) cap of
          None \<Rightarrow> (False, b\<lparr>cb_error := True\<rparr>)
        | Some m \<Rightarrow> (True, b\<lparr>cb_buf := Some m, cb_cap := cap\<rparr>))"
        using w grow by (simp add: cbb_buffer_reserve_def Let_def cap_def split: option.splits)
      have old: "\<forall>m. cb_buf b = Some m \<longrightarrow> blk_ok m \<and> blk_size m = cb_cap b"
        using True assms(3) by (simp add: cb_ok_def)
      have cap: "cap + 8 < 2 ^ 64" "cb_len b + n \<le> cap" "cb_cap b \<le> cap"
        using l grow unfolding cap_def powers by auto
      have sm: "cb_len b + n < 2 ^ 59 \<Longrightarrow> cap + 8 < 2 ^ 62 \<and> cap < 2 ^ 60"
        using l grow unfolding cap_def powers by auto
      show ?thesis
      proof (cases "OPENSSL_realloc env (cb_buf b) cap")
        case None
        have "\<not> roomy env b n"
        proof
          assume "roomy env b n"
          then have "malloc_ok env (size_wrap (cap + 8))"
            using sm cap by (auto simp: roomy_def size_wrap_id)
          with None show False
            by (auto simp: OPENSSL_realloc_def OPENSSL_malloc_def Let_def split: option.splits)
        qed
        then show ?thesis using assms(1,3) r None by (auto simp: same_out_def)
      next
        case (Some m)
        have m: "blk_ok m" "blk_size m = cap"
          "\<forall>old. cb_buf b = Some old \<longrightarrow> (\<forall>k\<le>cap. k \<le> blk_size old \<longrightarrow> take k (blk_mem m) = take k (blk_mem old))"
          using OPENSSL_realloc_ok [OF Some cap(1)] old by auto
        have "malloc_ok env (cap + 8)"
          using Some cap(1) by (auto simp: OPENSSL_realloc_def OPENSSL_malloc_def size_wrap_id Let_def
              split: option.splits if_splits)
        then have c62: "cap + 8 < 2 ^ 62" using assms(2) by (simp add: env_bounded_def)
        have b': "b' = b\<lparr>cb_buf := Some m, cb_cap := cap\<rparr>" "ok" using assms(1) r Some by auto
        have "cb_out b' = cb_out b"
        proof (cases "cb_buf b")
          case None
          then have "cb_len b = 0" using assms(3) by (simp add: cb_ok_def cb_mem_def)
          then show ?thesis by (simp add: b' cb_out_def)
        next
          case old': (Some old)
          then show ?thesis using m(3) old l cap by (simp add: b' cb_out_def cb_mem_def)
        qed
        then show ?thesis using m(1,2) b' c62 cap l sm
          by (auto simp: same_out_def cb_ok_def cb_mem_def blk_ok_def roomy_def)
      qed
    qed
  qed
qed


text \<open>Adding bytes at the end.\<close>

definition appended :: "byte list \<Rightarrow> cbb_buffer \<Rightarrow> cbb_buffer \<Rightarrow> bool" where
  "appended bs b b' \<longleftrightarrow> cb_ok b' \<and> cb_out b' = cb_out b @ bs \<and> cb_len b' = cb_len b + length bs \<and>
     cb_can_resize b' = cb_can_resize b \<and> cb_error b' = cb_error b"

lemma cb_write_simps [simp]:
  "cb_len (cb_write b i bs) = cb_len b" "cb_cap (cb_write b i bs) = cb_cap b"
  "cb_can_resize (cb_write b i bs) = cb_can_resize b" "cb_error (cb_write b i bs) = cb_error b"
  by (simp_all add: cb_write_def)

lemma cb_mem_write:
  "i + length bs \<le> length (cb_mem b) \<Longrightarrow> cb_mem (cb_write b i bs) = mem_write (cb_mem b) i bs"
  by (cases "cb_buf b") (simp_all add: cb_write_def cb_mem_def mem_write_def)

lemma cb_ok_write [simp]:
  assumes "cb_ok b" "i + length bs \<le> length (cb_mem b)"
  shows "cb_ok (cb_write b i bs)"
  using assms by (cases "cb_buf b") (auto simp: cb_ok_def cb_mem_write cb_write_def cb_mem_def blk_ok_def)

lemma cb_write_write:
  assumes "i + length bs = j" "j + length cs \<le> length (cb_mem b)"
  shows "cb_write (cb_write b j cs) i bs = cb_write b i (bs @ cs)"
proof -
  have "mem_write (mem_write m j cs) i bs = mem_write m i (bs @ cs)" if "j + length cs \<le> length m" for m
    using that assms(1) by (auto simp: mem_write_def min_def add.assoc)
  then show ?thesis using assms(2)
    by (cases "cb_buf b") (simp_all add: cb_write_def cb_mem_def)
qed

lemma cbb_buffer_add_ok:
  assumes "cbb_buffer_add env b n = (ok, b')" "env_bounded env" "cb_ok b" "n < 2 ^ 62"
  shows "(ok \<longrightarrow> cb_ok b' \<and> cb_len b' = cb_len b + n \<and> take (cb_len b) (cb_mem b') = cb_out b \<and>
      cb_can_resize b' = cb_can_resize b \<and> cb_error b' = cb_error b) \<and>
    (\<not> ok \<longrightarrow> same_out b b' \<and> cb_error b') \<and> (roomy env b n \<longrightarrow> ok \<and> cb_cap b' < 2 ^ 60)"
proof -
  obtain ok1 b1 where r: "cbb_buffer_reserve env b n = (ok1, b1)" by force
  from cbb_buffer_reserve_ok [OF r assms(2-4)] assms(1) r show ?thesis
    by (cases ok1) (auto simp: cbb_buffer_add_def same_out_def cb_ok_def cb_out_def cb_mem_def)
qed

lemma append_write:
  assumes "cbb_buffer_add env b (length bs) = (True, b')" "env_bounded env" "cb_ok b" "length bs < 2 ^ 62"
  shows "appended bs b (cb_write b' (cb_len b' - length bs) bs)"
proof -
  note a = cbb_buffer_add_ok [OF assms(1-4)]
  then have l: "cb_len b + length bs \<le> length (cb_mem b')" by (simp add: cb_ok_def)
  then have "cb_out (cb_write b' (cb_len b) bs) = cb_out b @ bs"
    using a by (simp add: cb_out_def cb_mem_write)
  then show ?thesis using a l by (simp add: appended_def)
qed

text \<open>A number in a fixed number of bytes, and the loops that store it.\<close>

fun be_bytes :: "nat \<Rightarrow> nat \<Rightarrow> byte list" where
  "be_bytes 0 v = []"
| "be_bytes (Suc n) v = be_bytes n (v div 256) @ [word_of_nat v]"

lemma length_be_bytes [simp]: "length (be_bytes n v) = n"
  by (induction n arbitrary: v) simp_all

lemma cb_write_Nil [simp]: "cb_write b i [] = b"
  by (cases "cb_buf b") (simp_all add: cb_write_def)

lemma put_be_write:
  "off + n \<le> length (cb_mem b) \<Longrightarrow> put_be b off n v = (cb_write b off (be_bytes n v), v div 256 ^ n)"
proof (induction n arbitrary: b v)
  case (Suc n)
  have "length (cb_mem (cb_write b (off + n) [word_of_nat v])) = length (cb_mem b)"
    using Suc.prems by (simp add: cb_mem_write)
  then show ?case using Suc
    by (simp add: cb_write_write div_mult2_eq)
qed simp

lemma be_bytes_be_min: "n < 256 ^ k \<Longrightarrow> length (be_min n) = k \<Longrightarrow> be_bytes k n = be_min n"
proof (induction k arbitrary: n)
  case (Suc k)
  have "n \<noteq> 0" using Suc.prems(2) by (cases "n = 0") auto
  then have m: "be_min n = be_min (n div 256) @ [word_of_nat n]" by (simp add: be_min.simps [of n])
  moreover have "n div 256 < 256 ^ k" using Suc.prems(1) by (simp add: less_mult_imp_div_less mult.commute)
  ultimately show ?case using Suc by simp
qed simp

lemma be_nat_be_bytes: "be_nat (be_bytes n v) = v mod 256 ^ n"
proof (induction n arbitrary: v)
  case (Suc n)
  have "unat (word_of_nat v :: byte) = v mod 256" by (simp add: unat_of_nat)
  then show ?case using Suc [of "v div 256"]
    by (simp add: mod_mult2_eq add.commute)
qed simp

section \<open>Flushing seals the children\<close>

text \<open>
  \<open>prefix_bytes\<close>: the length prefix a child gets, if its contents are short enough.
  \<open>sealed1\<close> and \<open>sealed\<close>: what becomes of the bytes written when one child, or a
  chain of them, is closed.
\<close>

definition prefix_bytes :: "cbb_frame \<Rightarrow> nat \<Rightarrow> byte list option" where
  "prefix_bytes f n =
     (if fr_is_asn1 f then if n > 0xfffffffe then None else Some (der_len n)
      else if n < 256 ^ fr_pending_len_len f then Some (be_bytes (fr_pending_len_len f) n) else None)"

definition sealed1 :: "cbb_frame \<Rightarrow> byte list \<Rightarrow> byte list option" where
  "sealed1 f out =
     (let content = drop (fr_offset f + fr_pending_len_len f) out in
      map_option (\<lambda>p. take (fr_offset f) out @ p @ content) (prefix_bytes f (length content)))"

fun sealed :: "byte list \<Rightarrow> cbb_frame list \<Rightarrow> byte list option" where
  "sealed out [] = Some out"
| "sealed out (f # fs) = Option.bind (sealed out fs) (sealed1 f)"

fun frames_ok :: "nat \<Rightarrow> cbb_frame list \<Rightarrow> nat \<Rightarrow> bool" where
  "frames_ok lo [] len = (lo \<le> len)"
| "frames_ok lo (f # fs) len =
     (lo \<le> fr_offset f \<and> 0 < fr_pending_len_len f \<and> fr_pending_len_len f \<le> 4 \<and>
      (fr_is_asn1 f \<longrightarrow> fr_pending_len_len f = 1) \<and>
      frames_ok (fr_offset f + fr_pending_len_len f) fs len)"

lemma asn1_len_len_der:
  assumes "n \<le> 0xfffffffe" "asn1_len_len n = (k, b, n')"
  shows "der_len n = b # be_bytes (k - 1) n'" "n' div 256 ^ (k - 1) = 0" "1 \<le> k" "k \<le> 5"
    "k \<noteq> 1 \<Longrightarrow> n' = n"
proof -
  have l: "length (be_min n) = j" if "n < 256 ^ j" "\<not> n < 256 ^ (j - 1)" "0 < j" for j
    using that length_be_min [of n j] length_be_min [of n "j - 1"] by linarith
  have d: "der_len n = (word_of_nat j OR 0x80) # be_bytes j n"
    if "n < 256 ^ j" "\<not> n < 256 ^ (j - 1)" "\<not> n < 128" "0 < j" for j
    using that l [of j] be_bytes_be_min [of n j] by (simp add: der_len_def)
  have "(n > 0xffffff \<and> k = 5 \<and> b = 0x84 \<and> n' = n) \<or> (\<not> n > 0xffffff \<and> n > 0xffff \<and> k = 4 \<and> b = 0x83 \<and> n' = n) \<or>
      (\<not> n > 0xffff \<and> n > 0xff \<and> k = 3 \<and> b = 0x82 \<and> n' = n) \<or>
      (\<not> n > 0xff \<and> n > 0x7f \<and> k = 2 \<and> b = 0x81 \<and> n' = n) \<or>
      (\<not> n > 0x7f \<and> k = 1 \<and> b = word_of_nat n \<and> n' = 0)"
    using assms(2) by (auto simp: asn1_len_len_def split: if_splits)
  then have "der_len n = b # be_bytes (k - 1) n' \<and> n' div 256 ^ (k - 1) = 0 \<and> 1 \<le> k \<and> k \<le> 5 \<and>
      (k \<noteq> 1 \<longrightarrow> n' = n)"
    using assms(1) d [of 4] d [of 3] d [of 2] d [of 1]
    by (elim disjE conjE) (simp_all add: der_len_def)
  then show "der_len n = b # be_bytes (k - 1) n'" "n' div 256 ^ (k - 1) = 0" "1 \<le> k" "k \<le> 5"
    "k \<noteq> 1 \<Longrightarrow> n' = n" by blast+
qed


text \<open>The two halves of \<open>flush_prefix\<close>: making room for the length octets, and storing them.\<close>

lemma flush_store:
  assumes "cb_ok b" "off + k \<le> cb_len b"
  shows "cb_ok (cb_write b off (be_bytes k n))"
    "cb_out (cb_write b off (be_bytes k n)) = take off (cb_out b) @ be_bytes k n @ drop (off + k) (cb_out b)"
proof -
  have l: "off + k \<le> length (cb_mem b)" "cb_len b \<le> length (cb_mem b)"
    using assms by (auto simp: cb_ok_def)
  then show "cb_ok (cb_write b off (be_bytes k n))" using assms(1) by simp
  show "cb_out (cb_write b off (be_bytes k n)) = take off (cb_out b) @ be_bytes k n @ drop (off + k) (cb_out b)"
    using l assms(2) add_leD1 [OF assms(2)]
    by (simp add: cb_out_def cb_mem_write mem_write_def drop_take)
qed

lemma flush_prefix_fixed:
  assumes "cb_ok b" "\<not> fr_is_asn1 f" "fr_offset f + fr_pending_len_len f \<le> cb_len b"
  shows "case flush_prefix env b f of (ok, b', f') \<Rightarrow>
    cb_ok b' \<and> cb_can_resize b' = cb_can_resize b \<and> cb_cap b' = cb_cap b \<and>
    (if ok then sealed1 f (cb_out b) = Some (cb_out b') \<and> cb_error b' = cb_error b
     else cb_error b' \<and> sealed1 f (cb_out b) = None)"
proof -
  let ?off = "fr_offset f" and ?k = "fr_pending_len_len f"
  let ?n = "cb_len b - (?off + ?k)"
  have w: "size_wrap (?off + ?k) = ?off + ?k"
    using assms(1,3) by (intro size_wrap_id) (simp add: cb_ok_def)
  have "?off + ?k \<le> length (cb_mem b)" using assms by (simp add: cb_ok_def)
  note p = put_be_write [OF this, of ?n]
  have z: "?n div 256 ^ ?k = 0 \<longleftrightarrow> ?n < 256 ^ ?k" by (simp add: div_eq_0_iff)
  show ?thesis
    using assms flush_store [OF assms(1,3)] w p z
    by (simp add: flush_prefix_def Let_def sealed1_def prefix_bytes_def drop_drop)
qed

lemma flush_prefix_asn1:
  assumes "cb_ok b" "fr_is_asn1 f" "fr_pending_len_len f = 1" "fr_offset f + 1 \<le> cb_len b"
    "env_bounded env"
  shows "case flush_prefix env b f of (ok, b', f') \<Rightarrow>
    cb_ok b' \<and> cb_can_resize b' = cb_can_resize b \<and>
    (if ok then sealed1 f (cb_out b) = Some (cb_out b') \<and> cb_error b' = cb_error b
     else cb_error b' \<and> (roomy env b 4 \<longrightarrow> sealed1 f (cb_out b) = None)) \<and>
    (roomy env b 4 \<longrightarrow> cb_cap b' < 2 ^ 60)"
proof -
  define off where "off = fr_offset f"
  define n where "n = cb_len b - (off + 1)"
  have w: "size_wrap (off + 1) = off + 1"
    using assms(1,4) by (intro size_wrap_id) (simp add: cb_ok_def off_def)
  have out: "length (cb_out b) = cb_len b" using assms(1) by simp
  have seal: "sealed1 f (cb_out b) = (if n > 0xfffffffe then None
      else Some (take off (cb_out b) @ der_len n @ drop (off + 1) (cb_out b)))"
    using assms(2,3) out by (simp add: sealed1_def prefix_bytes_def Let_def n_def off_def)
  obtain k x n' where a: "asn1_len_len n = (k, x, n')" by (cases "asn1_len_len n")
  define fin where "fin b1 = (case put_be (cb_write b1 off [x]) (off + 1) (k - 1) n' of
      (b', len') \<Rightarrow> if len' \<noteq> 0
        then (False, b'\<lparr>cb_error := True\<rparr>, f\<lparr>fr_offset := off + 1, fr_pending_len_len := k - 1\<rparr>)
        else (True, b', f\<lparr>fr_offset := off + 1, fr_pending_len_len := k - 1\<rparr>))" for b1
  have flush: "flush_prefix env b f =
      (if n > 0xfffffffe then (False, b\<lparr>cb_error := True\<rparr>, f)
       else if k = 1 then fin b
       else case cbb_buffer_add env b (k - 1) of
         (False, b') \<Rightarrow> (False, b'\<lparr>cb_error := True\<rparr>, f)
       | (True, b') \<Rightarrow> fin (cb_write b' (off + 1 + (k - 1)) (take n (drop (off + 1) (cb_mem b')))))"
    using assms(2-4) w a
    by (auto simp: flush_prefix_def Let_def off_def n_def fin_def split: prod.splits bool.splits)
  show ?thesis
  proof (cases "n > 0xfffffffe")
    case True
    then show ?thesis using flush seal assms(1) by (simp add: roomy_def)
  next
    case False
    then have le: "n \<le> 0xfffffffe" by simp
    note d = asn1_len_len_der [OF le a]
    have fin: "\<exists>b'. fin b1 = (True, b', f\<lparr>fr_offset := off + 1, fr_pending_len_len := k - 1\<rparr>) \<and>
        cb_ok b' \<and> cb_can_resize b' = cb_can_resize b1 \<and> cb_cap b' = cb_cap b1 \<and> cb_error b' = cb_error b1 \<and>
        cb_out b' = take off (cb_out b1) @ der_len n @ drop (off + k) (cb_out b1)"
      if "cb_ok b1" "off + k \<le> cb_len b1" for b1
    proof -
      have l: "off + k \<le> length (cb_mem b1)" using that by (simp add: cb_ok_def)
      have m: "length (cb_mem (cb_write b1 off [x])) = length (cb_mem b1)"
        using l d(3) by (simp add: cb_mem_write)
      have ok1: "cb_ok (cb_write b1 off [x])" using that l d(3) by simp
      have "off + 1 + (k - 1) \<le> cb_len (cb_write b1 off [x])" using that d(3) by simp
      note s = flush_store [OF ok1 this, of n']
      have "take (off + 1) (cb_out (cb_write b1 off [x])) = take off (cb_out b1) @ [x]"
        "drop (off + k) (cb_out (cb_write b1 off [x])) = drop (off + k) (cb_out b1)"
        using that l d(3) by (cases k; auto simp: cb_out_def cb_mem_write mem_write_def min_def drop_take add.commute)+
      then show ?thesis
        using s l m d put_be_write [of "off + 1" "k - 1" "cb_write b1 off [x]" n']
        by (simp add: fin_def)
    qed
    show ?thesis
    proof (cases "k = 1")
      case True
      then have "off + k \<le> cb_len b" using assms(4) by (simp add: off_def)
      from fin [OF assms(1) this] show ?thesis
        using flush seal False True by (auto simp: roomy_def)
    next
      case k: False
      obtain ok1 b1 where r: "cbb_buffer_add env b (k - 1) = (ok1, b1)" by force
      have "k - 1 < 2 ^ 62" using d(4) by simp
      note a1 = cbb_buffer_add_ok [OF r assms(5,1) this]
      have room: "roomy env b 4 \<Longrightarrow> roomy env b (k - 1)" using d(4) by (auto simp: roomy_def)
      show ?thesis
      proof (cases ok1)
        case False
        then show ?thesis using flush r k a1 room le by (auto simp: same_out_def)
      next
        case True
        define bs where "bs = take n (drop (off + 1) (cb_mem b1))"
        have n: "off + 1 + n = cb_len b" using assms(4) by (simp add: n_def off_def)
        have b1: "cb_ok b1" "cb_len b1 = cb_len b + (k - 1)" "take (cb_len b) (cb_mem b1) = cb_out b"
          using a1 True by auto
        have bs: "bs = drop (off + 1) (cb_out b)"
          using b1(3) n unfolding bs_def by (metis add_diff_cancel_left' drop_take)
        then have lb: "length bs = n" using out n by simp
        have l1: "cb_len b1 \<le> length (cb_mem b1)" using b1(1) by (simp add: cb_ok_def)
        define b2 where "b2 = cb_write b1 (off + k) bs"
        have fits: "off + k + length bs \<le> length (cb_mem b1)" using l1 b1(2) n lb d(3) by simp
        have b2: "cb_ok b2" "cb_len b2 = cb_len b + (k - 1)"
          using b1 fits by (simp_all add: b2_def)
        have o2: "take off (cb_out b2) = take off (cb_out b)" "drop (off + k) (cb_out b2) = bs"
        proof -
          have "cb_len b1 = off + k + length bs" using b1(2) n lb d(3) by simp
          then have "cb_out b2 = take (off + k) (cb_mem b1) @ bs"
            using fits by (simp add: b2_def cb_out_def cb_mem_write)
          moreover have "take off (cb_mem b1) = take off (cb_out b)"
            using b1(3) n by (metis add_leD1 le_add1 min.absorb1 take_take add.assoc)
          ultimately show "take off (cb_out b2) = take off (cb_out b)" "drop (off + k) (cb_out b2) = bs"
            using fits by simp_all
        qed
        have "off + k \<le> cb_len b2" using b2(2) n d(3) by simp
        from fin [OF b2(1) this] obtain b' where b': "fin b2 = (True, b', f\<lparr>fr_offset := off + 1, fr_pending_len_len := k - 1\<rparr>)"
          "cb_ok b'" "cb_can_resize b' = cb_can_resize b2" "cb_cap b' = cb_cap b2" "cb_error b' = cb_error b2"
          "cb_out b' = take off (cb_out b2) @ der_len n @ drop (off + k) (cb_out b2)" by blast
        have "flush_prefix env b f = fin b2"
          using flush r True k le d(3) by (simp add: b2_def bs_def)
        then show ?thesis using b' o2 bs seal le a1 True room
          by (simp add: b2_def)
      qed
    qed
  qed
qed

lemma frames_ok_le: "frames_ok lo fs len \<Longrightarrow> lo \<le> len"
proof (induction fs arbitrary: lo)
  case (Cons f fs)
  have "fr_offset f + fr_pending_len_len f \<le> len" using Cons.prems by (intro Cons.IH) simp
  then show ?case using Cons.prems by simp
qed simp

lemma sealed1_length:
  assumes "sealed1 f out = Some out'" "fr_offset f + fr_pending_len_len f \<le> length out"
    "fr_is_asn1 f \<longrightarrow> fr_pending_len_len f = 1"
  shows "length out' \<le> length out + 4" "fr_offset f \<le> length out'"
    "take (fr_offset f) out' = take (fr_offset f) out"
proof -
  obtain p where p: "prefix_bytes f (length out - (fr_offset f + fr_pending_len_len f)) = Some p"
    and out': "out' = take (fr_offset f) out @ p @ drop (fr_offset f + fr_pending_len_len f) out"
    using assms(1) by (auto simp: sealed1_def Let_def)
  have "length (der_len n) \<le> 5" if "n \<le> 0xfffffffe" for n
    using length_be_min [of n 4] that by (simp add: der_len_def)
  then have "length p \<le> fr_pending_len_len f + 4"
    using p assms(3) by (auto simp: prefix_bytes_def split: if_splits)
  then show "length out' \<le> length out + 4" using out' assms(2) by simp
  show "fr_offset f \<le> length out'" "take (fr_offset f) out' = take (fr_offset f) out"
    using out' assms(2) by simp_all
qed

lemma flush_frames_ok:
  assumes "flush_frames env b fs = (ok, b', fs')" "env_bounded env" "cb_ok b" "\<not> cb_error b"
    "frames_ok lo fs (cb_len b)"
  shows "cb_ok b' \<and> cb_can_resize b' = cb_can_resize b \<and>
    (if ok then fs' = [] \<and> \<not> cb_error b' \<and> sealed (cb_out b) fs = Some (cb_out b') \<and>
       lo \<le> cb_len b' \<and> take lo (cb_out b') = take lo (cb_out b) else cb_error b') \<and>
    (roomy env b (4 * length fs) \<longrightarrow> cb_cap b' < 2 ^ 60 \<and> (ok \<longleftrightarrow> sealed (cb_out b) fs \<noteq> None) \<and>
       (ok \<longrightarrow> cb_len b' \<le> cb_len b + 4 * length fs))"
  using assms
proof (induction fs arbitrary: lo ok b' fs')
  case Nil
  then show ?case by (auto simp: roomy_def)
next
  case (Cons f fs)
  obtain ok1 b1 fs1 where r: "flush_frames env b fs = (ok1, b1, fs1)" by (metis prod_cases3)
  have f: "lo \<le> fr_offset f" "0 < fr_pending_len_len f" "fr_is_asn1 f \<longrightarrow> fr_pending_len_len f = 1"
    "frames_ok (fr_offset f + fr_pending_len_len f) fs (cb_len b)"
    using Cons.prems(5) by auto
  note IH = Cons.IH [OF r Cons.prems(2-4) f(4)]
  have room: "roomy env b (4 * length (f # fs)) \<Longrightarrow> roomy env b (4 * length fs)" by (simp add: roomy_def)
  have unf: "flush_frames env b (f # fs) = (case (ok1, b1, fs1) of
        (False, b', fs') \<Rightarrow> (False, b'\<lparr>cb_error := True\<rparr>, f # fs')
      | (True, b', fs') \<Rightarrow>
          (case flush_prefix env b' f of
             (False, b'', f') \<Rightarrow> (False, b'', f' # fs')
           | (True, b'', _) \<Rightarrow> (True, b'', [])))"
    using Cons.prems(4) f(2) r by simp
  show ?case
  proof (cases ok1)
    case False
    then show ?thesis using IH unf Cons.prems(1) room by auto
  next
    case True
    then have b1: "cb_ok b1" "cb_can_resize b1 = cb_can_resize b" "\<not> cb_error b1"
      "sealed (cb_out b) fs = Some (cb_out b1)" "fr_offset f + fr_pending_len_len f \<le> cb_len b1"
      "take (fr_offset f + fr_pending_len_len f) (cb_out b1) = take (fr_offset f + fr_pending_len_len f) (cb_out b)"
      using IH by auto
    have room1: "roomy env b1 4" if "roomy env b (4 * length (f # fs))"
      using that IH room [OF that] True by (auto simp: roomy_def)
    have lo: "take lo (cb_out b1) = take lo (cb_out b)"
      using arg_cong [OF b1(6), of "take lo"] f(1) by (simp add: min_def split: if_splits)
    obtain ok2 b2 f2 where p: "flush_prefix env b1 f = (ok2, b2, f2)" by (metis prod_cases3)
    have P: "cb_ok b2 \<and> cb_can_resize b2 = cb_can_resize b1 \<and>
      (if ok2 then sealed1 f (cb_out b1) = Some (cb_out b2) \<and> cb_error b2 = cb_error b1
       else cb_error b2 \<and> (roomy env b1 4 \<longrightarrow> sealed1 f (cb_out b1) = None)) \<and>
      (roomy env b1 4 \<longrightarrow> cb_cap b2 < 2 ^ 60)"
    proof (cases "fr_is_asn1 f")
      case True
      then show ?thesis using flush_prefix_asn1 [OF b1(1) True, of env] f(3) b1(5) Cons.prems(2) p by auto
    next
      case False
      then show ?thesis using flush_prefix_fixed [OF b1(1) False b1(5), of env] p
        by (auto simp: roomy_def split: if_splits)
    qed
    have res: "ok = ok2" "b' = b2" "ok2 \<Longrightarrow> fs' = []"
      using unf True p Cons.prems(1) by (auto split: bool.splits)
    have s1: "sealed (cb_out b) (f # fs) = sealed1 f (cb_out b1)" using b1(4) by simp
    show ?thesis
    proof (cases ok2)
      case False
      then show ?thesis using P res s1 room1 b1(2) by auto
    next
      case ok2: True
      then have s: "sealed1 f (cb_out b1) = Some (cb_out b2)" using P by simp
      have "fr_offset f + fr_pending_len_len f \<le> length (cb_out b1)" using b1(1,5) by simp
      note l = sealed1_length [OF s this f(3)]
      have "take lo (cb_out b2) = take lo (cb_out b1)"
        using arg_cong [OF l(3), of "take lo"] f(1) by (simp add: min_def split: if_splits)
      then show ?thesis
        using P res s s1 ok2 room1 lo l(1,2) b1 f(1) room IH by auto
    qed
  qed
qed

text \<open>A \<open>CBB\<close> and its view: the bytes of the buffer, with the open children unsealed.\<close>

definition cbb_ok :: "cbb \<Rightarrow> bool" where
  "cbb_ok c \<longleftrightarrow> (\<exists>b. cbb_base c = Some b \<and> cb_ok b \<and> \<not> cb_error b \<and>
     frames_ok 0 (cbb_children c) (cb_len b))"

definition cbb_out :: "cbb \<Rightarrow> byte list" where
  "cbb_out c = (case cbb_base c of None \<Rightarrow> [] | Some b \<Rightarrow> cb_out b)"

definition cbb_failed :: "cbb \<Rightarrow> bool" where
  "cbb_failed c \<longleftrightarrow> (case cbb_base c of None \<Rightarrow> True | Some b \<Rightarrow> cb_error b)"

definition cbb_roomy :: "heap_env \<Rightarrow> cbb \<Rightarrow> nat \<Rightarrow> bool" where
  "cbb_roomy env c n \<longleftrightarrow> (\<exists>b. cbb_base c = Some b \<and> roomy env b n)"

lemma frames_ok_append:
  "frames_ok lo (fs @ gs) len \<longleftrightarrow>
     frames_ok lo fs (case gs of [] \<Rightarrow> len | g # _ \<Rightarrow> fr_offset g) \<and>
     frames_ok (if fs = [] then lo else fr_offset (last fs) + fr_pending_len_len (last fs)) gs len"
  by (induction fs arbitrary: lo) (auto split: list.splits dest: frames_ok_le)

definition frames_end :: "nat \<Rightarrow> cbb_frame list \<Rightarrow> nat" where
  "frames_end lo fs = (if fs = [] then lo else fr_offset (last fs) + fr_pending_len_len (last fs))"

lemma frames_ok_end: "frames_ok lo fs len \<Longrightarrow> frames_end lo fs \<le> len' \<Longrightarrow> frames_ok lo fs len'"
proof (induction fs arbitrary: lo)
  case (Cons f fs)
  then show ?case
    by (cases "fs = []") (simp_all add: frames_end_def)
qed (simp add: frames_end_def)

lemma frames_ok_split:
  assumes "frames_ok lo (fs @ gs) len"
  shows "frames_ok (frames_end lo fs) gs len" "frames_end lo fs \<le> len' \<Longrightarrow> frames_ok lo fs len'"
proof -
  note s = assms [unfolded frames_ok_append]
  show "frames_ok (frames_end lo fs) gs len" using s by (simp add: frames_end_def)
  show "frames_end lo fs \<le> len' \<Longrightarrow> frames_ok lo fs len'" using s frames_ok_end by blast
qed

text \<open>
  C4. \<open>CBB_flush\<close> closes the open children of a \<open>CBB\<close>, the innermost first: the bytes in
  front of each child stay, the reserved octets become the length of its contents (in DER
  form for an ASN.1 child, making room for it), and the contents follow. It fails exactly
  when a length does not fit its prefix, as long as memory can be had, and then the buffer is
  marked as failed.
\<close>

theorem CBB_flush_seals:
  assumes "cbb_ok c" "d \<le> length (cbb_children c)" "env_bounded env"
    "CBB_flush env c d = (ok, c')"
  shows "(ok \<longrightarrow> cbb_ok c' \<and> cbb_children c' = take d (cbb_children c) \<and>
      sealed (cbb_out c) (drop d (cbb_children c)) = Some (cbb_out c')) \<and>
    (\<not> ok \<longrightarrow> cbb_failed c') \<and>
    (cbb_roomy env c (4 * (length (cbb_children c) - d)) \<longrightarrow>
       (ok \<longleftrightarrow> sealed (cbb_out c) (drop d (cbb_children c)) \<noteq> None))"
proof -
  obtain b where b: "cbb_base c = Some b" "cb_ok b" "\<not> cb_error b"
    "frames_ok 0 (cbb_children c) (cb_len b)"
    using assms(1) by (auto simp: cbb_ok_def)
  obtain ok1 b1 fs1 where r: "flush_frames env b (drop d (cbb_children c)) = (ok1, b1, fs1)"
    by (metis prod_cases3)
  have "frames_ok 0 (take d (cbb_children c) @ drop d (cbb_children c)) (cb_len b)" using b(4) by simp
  note s = frames_ok_split [OF this]
  note f = flush_frames_ok [OF r assms(3) b(2,3) s(1)]
  have "ok = ok1" "c' = \<lparr>cbb_base = Some b1, cbb_children = take d (cbb_children c) @ fs1\<rparr>"
    using assms(2,4) b(1) r by (auto simp: CBB_flush_def)
  then show ?thesis using f s(2) [of "cb_len b1"] b(1)
    by (auto simp: cbb_ok_def cbb_out_def cbb_failed_def cbb_roomy_def split: if_splits)
qed

text \<open>An allocator that serves every request a 64-bit target can.\<close>

definition ample :: heap_env where
  "ample = \<lparr>malloc_ok = (\<lambda>n. n < 2 ^ 62), junk = (\<lambda>_. 0)\<rparr>"

lemma ample_simps [simp]: "env_bounded ample" "malloc_ok ample n \<longleftrightarrow> n < 2 ^ 62"
  by (simp_all add: env_bounded_def ample_def)

lemma CBB_flush_seals_witness:
  "\<exists>c'. CBB_flush ample \<lparr>cbb_base = Some \<lparr>cb_buf = Some \<lparr>blk_size = 8, blk_mem = [9, 4, 0, 7, 7, 0, 0, 0]\<rparr>,
      cb_len = 5, cb_cap = 8, cb_can_resize = True, cb_error = False\<rparr>,
      cbb_children = [\<lparr>fr_offset = 2, fr_pending_len_len = 1, fr_is_asn1 = True\<rparr>]\<rparr> 0 = (True, c') \<and>
    cbb_out c' = [9, 4, 2, 7, 7]"
proof -
  let ?b = "\<lparr>cb_buf = Some \<lparr>blk_size = 8, blk_mem = [9, 4, 0, 7, 7, 0, 0, 0]\<rparr>,
      cb_len = 5, cb_cap = 8, cb_can_resize = True, cb_error = False\<rparr>"
  let ?f = "\<lparr>fr_offset = 2, fr_pending_len_len = 1, fr_is_asn1 = True\<rparr>"
  let ?c = "\<lparr>cbb_base = Some ?b, cbb_children = [?f]\<rparr>"
  have c: "cbb_ok ?c" "cbb_roomy ample ?c 4"
    by (simp_all add: cbb_ok_def cb_ok_def cb_mem_def blk_ok_def cbb_roomy_def roomy_def)
  have o: "cbb_out ?c = [9, 4, 0, 7, 7]" by (simp add: cbb_out_def cb_out_def cb_mem_def)
  have s: "sealed [9, 4, 0, 7, 7] [?f] = Some [9, 4, 2, 7, 7]"
    by (simp add: sealed1_def prefix_bytes_def der_len_def numeral_2_eq_2)
  obtain ok c' where r: "CBB_flush ample ?c 0 = (ok, c')" by force
  from CBB_flush_seals [OF c(1) _ _ r] show ?thesis using c(2) o s r by auto
qed

section \<open>Adding\<close>

text \<open>
  What an addition of the bytes \<open>bs\<close> to a \<open>CBB\<close> with no open child gives: the bytes
  follow those written, or the buffer is marked; and it succeeds when there is room, a little
  more than the bytes take.
\<close>

definition extends :: "heap_env \<Rightarrow> cbb \<Rightarrow> byte list \<Rightarrow> bool \<times> cbb \<Rightarrow> bool" where
  "extends env c bs r \<longleftrightarrow>
     (case r of (ok, c') \<Rightarrow>
        (if ok then cbb_ok c' \<and> cbb_children c' = cbb_children c \<and> cbb_out c' = cbb_out c @ bs
         else cbb_failed c') \<and>
        (\<forall>m\<ge>8. cbb_roomy env c (length bs + m) \<longrightarrow> ok \<and> cbb_roomy env c' m))"

definition appends :: "heap_env \<Rightarrow> (cbb_buffer \<Rightarrow> bool \<times> cbb_buffer) \<Rightarrow> byte list \<Rightarrow> bool" where
  "appends env op bs \<longleftrightarrow>
     (\<forall>b. cb_ok b \<longrightarrow> \<not> cb_error b \<longrightarrow>
        (case op b of (ok, b') \<Rightarrow>
           (if ok then appended bs b b' else cb_error b') \<and>
           (roomy env b (length bs) \<longrightarrow> ok \<and> cb_cap b' < 2 ^ 60)))"

lemma CBB_flush_nothing:
  assumes "cbb_ok c" "d = length (cbb_children c)"
  shows "CBB_flush env c d = (True, c)"
  using assms by (auto simp: CBB_flush_def cbb_ok_def)

lemma extends_op:
  assumes "cbb_ok c" "d = length (cbb_children c)" "appends env op bs"
  shows "extends env c bs (after_flush env c d op)"
proof -
  obtain b where b: "cbb_base c = Some b" "cb_ok b" "\<not> cb_error b"
    "frames_ok 0 (cbb_children c) (cb_len b)"
    using assms(1) by (auto simp: cbb_ok_def)
  obtain ok b' where r: "op b = (ok, b')" by force
  have a: "(if ok then appended bs b b' else cb_error b') \<and> (roomy env b (length bs) \<longrightarrow> ok \<and> cb_cap b' < 2 ^ 60)"
    using assms(3) b r unfolding appends_def by fastforce
  have "ok \<Longrightarrow> frames_ok 0 (cbb_children c) (cb_len b')"
    using a frames_ok_end [OF b(4)] frames_ok_split(1) [of 0 "cbb_children c" "[]" "cb_len b"] b(4)
      frames_ok_le by (fastforce simp: appended_def)
  then show ?thesis using a b r assms(1)
    by (auto simp: extends_def after_flush_def CBB_flush_nothing [OF assms(1,2)] cbb_ok_def cbb_out_def
        cbb_failed_def cbb_roomy_def appended_def roomy_def)
qed

lemma appends_bytes:
  assumes "env_bounded env" "length bs < 2 ^ 62"
  shows "appends env (\<lambda>b. case cbb_buffer_add env b (length bs) of (False, b') \<Rightarrow> (False, b')
      | (True, b') \<Rightarrow> (True, cb_write b' (cb_len b' - length bs) bs)) bs"
proof -
  have "case (case cbb_buffer_add env b (length bs) of (False, b') \<Rightarrow> (False, b')
      | (True, b') \<Rightarrow> (True, cb_write b' (cb_len b' - length bs) bs)) of (ok, b') \<Rightarrow>
        (if ok then appended bs b b' else cb_error b') \<and>
        (roomy env b (length bs) \<longrightarrow> ok \<and> cb_cap b' < 2 ^ 60)" if "cb_ok b" for b
  proof -
    obtain ok b' where r: "cbb_buffer_add env b (length bs) = (ok, b')" by force
    show ?thesis
      using cbb_buffer_add_ok [OF r assms(1) that assms(2)] append_write [OF _ assms(1) that assms(2), of b'] r
      by (cases ok) auto
  qed
  then show ?thesis by (simp add: appends_def)
qed

lemma appends_u:
  assumes "env_bounded env" "unat v < 256 ^ n" "0 < n" "n \<le> 4"
  shows "appends env (\<lambda>b. cbb_buffer_add_u env b v n) (be_bytes n (unat v))"
proof -
  have "case cbb_buffer_add_u env b v n of (ok, b') \<Rightarrow>
        (if ok then appended (be_bytes n (unat v)) b b' else cb_error b') \<and>
        (roomy env b n \<longrightarrow> ok \<and> cb_cap b' < 2 ^ 60)" if "cb_ok b" for b
  proof -
    obtain ok b' where r: "cbb_buffer_add env b n = (ok, b')" by force
    have n: "n < 2 ^ 62" using assms(4) by simp
    note a = cbb_buffer_add_ok [OF r assms(1) that n]
    have w: "ok \<Longrightarrow> appended (be_bytes n (unat v)) b (cb_write b' (cb_len b' - n) (be_bytes n (unat v)))"
      using append_write [of env b "be_bytes n (unat v)" b'] assms(1) that n r by simp
    have "ok \<Longrightarrow> put_be b' (cb_len b' - n) n (unat v) = (cb_write b' (cb_len b' - n) (be_bytes n (unat v)), 0)"
      using a assms(2) by (subst put_be_write) (auto simp: cb_ok_def)
    then show ?thesis using a w r assms(3)
      by (cases ok) (auto simp: cbb_buffer_add_u_def)
  qed
  then show ?thesis by (simp add: appends_def)
qed

lemma CBB_add_bytes_ext:
  assumes "cbb_ok c" "d = length (cbb_children c)" "env_bounded env" "length bs < 2 ^ 62"
  shows "extends env c bs (CBB_add_bytes env c d bs)"
  unfolding CBB_add_bytes_def by (rule extends_op [OF assms(1,2) appends_bytes [OF assms(3,4)]])

lemma CBB_add_u8_ext:
  assumes "cbb_ok c" "d = length (cbb_children c)" "env_bounded env"
  shows "extends env c [v] (CBB_add_u8 env c d v)"
proof -
  have "unat (ucast v :: 32 word) < 256 ^ 1" using unsigned_less [of v, where 'a = nat] by simp
  from extends_op [OF assms(1,2) appends_u [OF assms(3) this]] show ?thesis
    by (simp add: CBB_add_u8_def cbb_add_u_def)
qed

lemma extends_seq:
  assumes "extends env c bs (ok, c1)" "cbb_ok c1 \<Longrightarrow> cbb_children c1 = cbb_children c \<Longrightarrow> extends env c1 cs r"
  shows "extends env c (bs @ cs) (if ok then r else (False, c1))"
proof (cases ok)
  case False
  then show ?thesis using assms(1) 
    by (auto simp: extends_def add.assoc dest: spec [of _ "length cs + _"])
next
  case True
  then have "extends env c1 cs r" using assms by (simp add: extends_def)
  then show ?thesis using assms(1) True
    by (auto simp: extends_def add.assoc split: prod.splits if_splits)
qed

lemma extends_refl: "cbb_ok c \<Longrightarrow> extends env c [] (True, c)"
  by (auto simp: extends_def cbb_roomy_def)

lemma add_u8s_ext:
  assumes "cbb_ok c" "d = length (cbb_children c)" "env_bounded env"
  shows "extends env c bs (add_u8s env c d bs)"
  using assms(1,2)
proof (induction bs arbitrary: c)
  case Nil
  then show ?case by (simp add: extends_refl)
next
  case (Cons b bs)
  obtain ok c1 where r: "CBB_add_u8 env c d b = (ok, c1)" by force
  have "extends env c [b] (ok, c1)" using CBB_add_u8_ext [OF Cons.prems assms(3), of b] r by simp
  from extends_seq [OF this Cons.IH] Cons.prems r show ?case by (cases ok) auto
qed

lemma group_of_nat: "(ucast ((w :: 64 word) AND 0x7f) :: byte) = word_of_nat (unat w mod 128)"
proof -
  have "unat w mod 128 = unat (w AND 0x7f)"
    using unat_and_mask [of w 7] by (simp add: mask_eq_exp_minus_1)
  then show ?thesis by simp
qed

lemma base128_groups:
  "map (base128_byte v) (rev [Suc 0..<Suc (base128_len (drop_bit 7 v))]) = b128_hi (unat (drop_bit 7 v))"
proof (induction v rule: measure_induct_rule [where f = unat])
  case (less v)
  let ?w = "drop_bit 7 v"
  show ?case
  proof (cases "?w = 0")
    case True
    then show ?thesis by (simp add: base128_len.simps [of 0])
  next
    case False
    then have "v \<noteq> 0" by auto
    then have IH: "map (base128_byte ?w) (rev [Suc 0..<Suc (base128_len (drop_bit 7 ?w))]) =
        b128_hi (unat (drop_bit 7 ?w))"
      using False by (intro less drop_bit_less) auto
    have len: "base128_len ?w = Suc (base128_len (drop_bit 7 ?w))"
      using False by (simp add: base128_len.simps [of ?w] word_greater_zero_iff)
    have shift: "base128_byte v (Suc i) = base128_byte ?w i" if "0 < i" for i
      using that by (simp add: base128_byte_def Let_def add.commute)
    have "rev [Suc 0..<Suc (base128_len ?w)] = map Suc (rev [Suc 0..<Suc (base128_len (drop_bit 7 ?w))]) @ [Suc 0]"
      unfolding len by (simp add: rev_map [symmetric] map_Suc_upt del: upt_Suc) (simp add: upt_conv_Cons del: upt_Suc)
    then have "map (base128_byte v) (rev [Suc 0..<Suc (base128_len ?w)]) =
        map (base128_byte ?w) (rev [Suc 0..<Suc (base128_len (drop_bit 7 ?w))]) @ [base128_byte v (Suc 0)]"
      using shift by (simp del: upt_Suc)
    moreover have "unat (drop_bit 7 ?w) = unat ?w div 128"
      by (simp only: unat_drop_bit_eq [of 7 ?w] drop_bit_eq_div [where 'a = nat]) simp
    moreover have "base128_byte v (Suc 0) = word_of_nat (unat ?w mod 128) OR 0x80"
      by (simp add: base128_byte_def group_of_nat)
    moreover have "unat ?w \<noteq> 0" using False by (simp add: unat_eq_zero)
    ultimately show ?thesis using IH by (simp add: b128_hi.simps [of "unat ?w"] del: upt_Suc)
  qed
qed


text \<open>The bytes \<open>add_base128_integer\<close> adds are the minimal base-128 form.\<close>

lemma base128_bytes:
  "map (base128_byte v) (rev [0..<(if base128_len v = 0 then 1 else base128_len v)]) = b128 (unat v)"
proof -
  have u: "unat (drop_bit 7 v) = unat v div 128"
    by (simp only: unat_drop_bit_eq [of 7 v] drop_bit_eq_div [where 'a = nat]) simp
  have z: "base128_byte v 0 = word_of_nat (unat v mod 128)"
    by (simp add: base128_byte_def group_of_nat)
  show ?thesis
  proof (cases "v = 0")
    case True
    then show ?thesis using z by (simp add: base128_len.simps [of 0] b128_def)
  next
    case False
    then have len: "base128_len v = Suc (base128_len (drop_bit 7 v))"
      by (simp add: base128_len.simps [of v] word_greater_zero_iff)
    have "rev [0..<Suc n] = rev [Suc 0..<Suc n] @ [0]" for n by (simp add: upt_conv_Cons del: upt_Suc)
    then show ?thesis
      using base128_groups [of v] z u by (simp add: len b128_def del: upt_Suc)
  qed
qed

lemma add_base128_integer_ext:
  assumes "cbb_ok c" "d = length (cbb_children c)" "env_bounded env"
  shows "extends env c (b128 (unat v)) (add_base128_integer env c d v)"
  using add_u8s_ext [OF assms, of "b128 (unat v)"]
  by (simp add: add_base128_integer_def base128_bytes Let_def)

text \<open>Identifier octets, and the octet reserved for the length.\<close>

definition add_tag :: "heap_env \<Rightarrow> cbb \<Rightarrow> nat \<Rightarrow> 32 word \<Rightarrow> bool \<times> cbb" where
  "add_tag env c d tag =
     (let tag_bits = ucast (drop_bit 24 tag) AND 0xe0 :: byte;
          tag_number = tag AND CBS_ASN1_TAG_NUMBER_MASK
      in if tag_number \<ge> 0x1f
         then (case CBB_add_u8 env c d (tag_bits OR 0x1f) of
                 (False, c1) \<Rightarrow> (False, c1)
               | (True, c1) \<Rightarrow> add_base128_integer env c1 d (ucast tag_number))
         else CBB_add_u8 env c d (tag_bits OR ucast tag_number))"

lemma add_tag_ext:
  assumes "cbb_ok c" "d = length (cbb_children c)" "env_bounded env"
  shows "extends env c (der_tag t) (add_tag env c d t)"
proof -
  define top where "top = (ucast (drop_bit 24 t) AND 0xe0 :: byte)"
  define num where "num = t AND CBS_ASN1_TAG_NUMBER_MASK"
  have le: "num \<ge> 0x1f \<longleftrightarrow> \<not> unat num < 31" by (simp add: word_le_nat_alt not_less)
  show ?thesis
  proof (cases "unat num < 31")
    case True
    have "ucast num = (word_of_nat (unat num) :: byte)" by simp
    then show ?thesis using True CBB_add_u8_ext [OF assms, of "top OR ucast num"] le
      by (simp add: add_tag_def der_tag_def flip: top_def num_def)
  next
    case False
    obtain ok c1 where r: "CBB_add_u8 env c d (top OR 0x1f) = (ok, c1)" by force
    have e: "extends env c [top OR 0x1f] (ok, c1)" using CBB_add_u8_ext [OF assms] r by metis
    have u: "unat (ucast num :: 64 word) = unat num"
      using unsigned_less [of num, where 'a = nat] by (simp add: unsigned_ucast_eq take_bit_nat_eq_self)
    have "extends env c ([top OR 0x1f] @ b128 (unat num))
        (if ok then add_base128_integer env c1 d (ucast num) else (False, c1))"
      using add_base128_integer_ext [OF _ _ assms(3), of c1 d "ucast num"] assms(2) u
      by (intro extends_seq [OF e]) simp
    then show ?thesis using False r le
      by (cases ok) (simp_all add: add_tag_def der_tag_def flip: top_def num_def)
  qed
qed

lemma CBB_add_asn1_eq:
  assumes "cbb_ok c" "d = length (cbb_children c)"
  shows "CBB_add_asn1 env c d t =
    (case add_tag env c d t of
       (False, c2) \<Rightarrow> (False, c2)
     | (True, c2) \<Rightarrow> (case CBB_add_u8 env c2 d 0 of
         (False, c3) \<Rightarrow> (False, c3)
       | (True, c3) \<Rightarrow> (True, open_child c3 d (cbb_len_of c2) 1 True)))"
  unfolding CBB_add_asn1_def add_tag_def CBB_flush_nothing [OF assms] Let_def by (simp split: bool.splits prod.splits)

section \<open>Whole elements\<close>

text \<open>The common shape of the ASN.1 writers: open the child, write into it, flush the parent.\<close>

definition asn1_child ::
  "heap_env \<Rightarrow> cbb \<Rightarrow> nat \<Rightarrow> 32 word \<Rightarrow> (cbb \<Rightarrow> bool \<times> cbb) \<Rightarrow> bool \<times> cbb" where
  "asn1_child env c d t body =
     (case CBB_add_asn1 env c d t of
        (False, c1) \<Rightarrow> (False, c1)
      | (True, c1) \<Rightarrow>
          (case body c1 of
             (False, c2) \<Rightarrow> (False, c2)
           | (True, c2) \<Rightarrow> CBB_flush env c2 d))"

lemma asn1_child_simps:
  "CBB_add_asn1_uint64 env c d v =
     asn1_child env c d CBS_ASN1_INTEGER (\<lambda>c. add_u8s env c (Suc d) (uint64_bytes v [0..<8] False))"
  "CBB_add_asn1_octet_string env c d data =
     asn1_child env c d CBS_ASN1_OCTETSTRING (\<lambda>c. CBB_add_bytes env c (Suc d) data)"
  "CBB_add_asn1_bool env c d b =
     asn1_child env c d CBS_ASN1_BOOLEAN (\<lambda>c. CBB_add_u8 env c (Suc d) (if b \<noteq> 0 then 0xff else 0))"
  by (simp_all add: asn1_child_def CBB_add_asn1_uint64_def CBB_add_asn1_octet_string_def
      CBB_add_asn1_bool_def)

lemma frames_ok_snoc:
  assumes "frames_ok 0 fs len" "len \<le> off" "off + 1 \<le> len'"
  shows "frames_ok 0 (fs @ [\<lparr>fr_offset = off, fr_pending_len_len = 1, fr_is_asn1 = True\<rparr>]) len'"
  using frames_ok_end [OF assms(1), of off] frames_ok_split(1) [of 0 fs "[]" len] assms frames_ok_le
  by (fastforce simp: frames_ok_append frames_end_def)

text \<open>Closing one child that was opened at \<open>off\<close> and holds \<open>bs\<close>.\<close>

lemma CBB_flush_one:
  assumes "cbb_ok c" "cbb_children c = fs @ [\<lparr>fr_offset = length pre, fr_pending_len_len = 1, fr_is_asn1 = True\<rparr>]"
    "cbb_out c = pre @ [0] @ bs" "env_bounded env" "length bs \<le> 0xfffffffe"
    "CBB_flush env c (length fs) = (ok, c')"
  shows "(if ok then cbb_ok c' \<and> cbb_children c' = fs \<and> cbb_out c' = pre @ der_len (length bs) @ bs
     else cbb_failed c') \<and>
    (8 \<le> m \<longrightarrow> cbb_roomy env c (length (der_len (length bs)) - 1 + m) \<longrightarrow> ok \<and> cbb_roomy env c' m)"
proof -
  let ?f = "\<lparr>fr_offset = length pre, fr_pending_len_len = 1, fr_is_asn1 = True\<rparr>"
  obtain b where b: "cbb_base c = Some b" "cb_ok b" "\<not> cb_error b"
    "frames_ok 0 (cbb_children c) (cb_len b)"
    using assms(1) by (auto simp: cbb_ok_def)
  obtain ok1 b1 fs1 where r: "flush_frames env b [?f] = (ok1, b1, fs1)" by (metis prod_cases3)
  have fs: "frames_ok (frames_end 0 fs) [?f] (cb_len b)" "frames_end 0 fs \<le> len \<Longrightarrow> frames_ok 0 fs len" for len
    using frames_ok_split [of 0 fs "[?f]"] b(4) assms(2) by metis+
  have out: "cb_out b = pre @ [0] @ bs" using assms(3) b(1) by (simp add: cbb_out_def)
  have lb: "cb_len b = length pre + 1 + length bs" using length_cb_out [OF b(2)] out by simp
  have s: "sealed (cb_out b) [?f] = Some (pre @ der_len (length bs) @ bs)"
    using assms(5) out by (simp add: sealed1_def prefix_bytes_def)
  note f = flush_frames_ok [OF r assms(4) b(2,3) fs(1)]
  have e: "ok = ok1" "c' = \<lparr>cbb_base = Some b1, cbb_children = fs @ fs1\<rparr>"
    using assms(2,6) b(1) r by (auto simp: CBB_flush_def simp del: flush_frames.simps)
  have "1 \<le> length (der_len (length bs))" by (simp add: der_len_def)
  then have "ok1 \<Longrightarrow> cb_len b1 = cb_len b + (length (der_len (length bs)) - 1)"
    using f s lb length_cb_out [of b1] by auto
  moreover have "8 \<le> m \<Longrightarrow> roomy env b (length (der_len (length bs)) - 1 + m) \<Longrightarrow> roomy env b 4"
    by (auto simp: roomy_def)
  ultimately show ?thesis using f s e b(1) fs(2) [of "cb_len b1"]
    by (auto simp: cbb_ok_def cbb_out_def cbb_failed_def cbb_roomy_def roomy_def split: if_splits)
qed

lemma cbb_len_of_out: "cbb_ok c \<Longrightarrow> cbb_len_of c = length (cbb_out c)"
  by (auto simp: cbb_len_of_def cbb_ok_def cbb_out_def)

lemma extends_room:
  "extends env c bs (ok, c') \<Longrightarrow> cbb_roomy env c (length bs + m) \<Longrightarrow> 8 \<le> m \<Longrightarrow> ok \<and> cbb_roomy env c' m"
  by (simp add: extends_def)

lemma CBB_add_asn1_open:
  assumes "cbb_ok c" "d = length (cbb_children c)" "env_bounded env" "CBB_add_asn1 env c d t = (True, c')"
  shows "cbb_ok c'" "cbb_out c' = cbb_out c @ der_tag t @ [0]"
    "cbb_children c' = cbb_children c @
       [\<lparr>fr_offset = length (cbb_out c @ der_tag t), fr_pending_len_len = 1, fr_is_asn1 = True\<rparr>]"
proof -
  obtain c2 c3 where r2: "add_tag env c d t = (True, c2)" and r3: "CBB_add_u8 env c2 d 0 = (True, c3)"
    and c': "c' = open_child c3 d (cbb_len_of c2) 1 True"
    using assms(4) by (auto simp: CBB_add_asn1_eq [OF assms(1,2)] split: prod.splits bool.splits)
  have "extends env c (der_tag t) (True, c2)" using add_tag_ext [OF assms(1-3), of t] r2 by simp
  then have c2: "cbb_ok c2" "cbb_children c2 = cbb_children c" "cbb_out c2 = cbb_out c @ der_tag t"
    by (simp_all add: extends_def)
  have "extends env c2 [0] (True, c3)"
    using CBB_add_u8_ext [of c2 d env 0] c2 assms(2,3) r3 by simp
  then have c3: "cbb_ok c3" "cbb_children c3 = cbb_children c" "cbb_out c3 = cbb_out c @ der_tag t @ [0]"
    using c2 by (simp_all add: extends_def)
  let ?pre = "cbb_out c @ der_tag t"
  let ?f = "\<lparr>fr_offset = length ?pre, fr_pending_len_len = 1, fr_is_asn1 = True\<rparr>"
  have lo: "cbb_len_of c2 = length ?pre" using c2 by (simp add: cbb_len_of_out)
  show "cbb_children c' = cbb_children c @ [?f]" "cbb_out c' = cbb_out c @ der_tag t @ [0]"
    using c3 lo assms(2) by (simp_all add: c' open_child_def cbb_out_def)
  obtain b where b: "cbb_base c3 = Some b" "cb_ok b" "\<not> cb_error b"
    using c3(1) by (auto simp: cbb_ok_def)
  have "cb_len b = length ?pre + 1" using c3(3) b length_cb_out [OF b(2)] by (simp add: cbb_out_def)
  moreover obtain b0 where b0: "cbb_base c = Some b0" "cb_ok b0" "frames_ok 0 (cbb_children c) (cb_len b0)"
    using assms(1) by (auto simp: cbb_ok_def)
  moreover have "cb_len b0 \<le> length ?pre" using b0 by (simp add: cbb_out_def)
  ultimately have "frames_ok 0 (cbb_children c @ [?f]) (cb_len b)"
    by (intro frames_ok_snoc [where len = "cb_len b0"]) simp_all
  then show "cbb_ok c'" using b c3 lo assms(2) by (simp add: c' open_child_def cbb_ok_def)
qed

lemma asn1_child_ext:
  assumes "cbb_ok c" "d = length (cbb_children c)" "env_bounded env" "length bs \<le> 0xfffffffe"
    "\<And>c1. cbb_ok c1 \<Longrightarrow> Suc d = length (cbb_children c1) \<Longrightarrow> extends env c1 bs (body c1)"
  shows "extends env c (der t bs) (asn1_child env c d t body)"
proof -
  obtain ok2 c2 where r2: "add_tag env c d t = (ok2, c2)" by force
  have e2: "extends env c (der_tag t) (ok2, c2)" using add_tag_ext [OF assms(1-3)] r2 by metis
  obtain ok3 c3 where r3: "CBB_add_u8 env c2 d 0 = (ok3, c3)" by force
  have e3: "extends env c2 [0] (ok3, c3)" if ok2
    using CBB_add_u8_ext [of c2 d env 0] e2 that assms(2,3) r3 by (simp add: extends_def)
  define c4 where "c4 = open_child c3 d (cbb_len_of c2) 1 True"
  obtain ok5 c5 where r5: "body c4 = (ok5, c5)" by force
  obtain ok6 c6 where r6: "CBB_flush env c5 d = (ok6, c6)" by force
  have res: "asn1_child env c d t body = (if \<not> ok2 then (False, c2) else if \<not> ok3 then (False, c3)
      else if \<not> ok5 then (False, c5) else (ok6, c6))"
    using r2 r3 r5 [unfolded c4_def] r6
    by (simp add: asn1_child_def CBB_add_asn1_eq [OF assms(1,2)] split: bool.splits)
  have c2: "cbb_ok c2" "cbb_children c2 = cbb_children c" "cbb_out c2 = cbb_out c @ der_tag t" if ok2
    using e2 that by (simp_all add: extends_def)
  have c3: "cbb_ok c3" "cbb_children c3 = cbb_children c" "cbb_out c3 = cbb_out c @ der_tag t @ [0]"
    if ok2 ok3
    using e3 that c2 by (simp_all add: extends_def)
  let ?pre = "cbb_out c @ der_tag t"
  let ?f = "\<lparr>fr_offset = length ?pre, fr_pending_len_len = 1, fr_is_asn1 = True\<rparr>"
  have c4: "cbb_children c4 = cbb_children c @ [?f]" "cbb_out c4 = ?pre @ [0]" "cbb_ok c4"
    "cbb_roomy env c4 = cbb_roomy env c3" if o: ok2 ok3
  proof -
    have "CBB_add_asn1 env c d t = (True, c4)"
      using r2 r3 o by (simp add: CBB_add_asn1_eq [OF assms(1,2)] c4_def)
    from CBB_add_asn1_open [OF assms(1-3) this]
    show "cbb_children c4 = cbb_children c @ [?f]" "cbb_out c4 = ?pre @ [0]" "cbb_ok c4" by simp_all
    show "cbb_roomy env c4 = cbb_roomy env c3"
      by (simp add: c4_def open_child_def cbb_roomy_def fun_eq_iff)
  qed
  have e5: "extends env c4 bs (ok5, c5)" if ok2 ok3
    using assms(5) [of c4] c4 [OF that] assms(2) r5 by simp
  have c5: "cbb_ok c5" "cbb_children c5 = cbb_children c @ [?f]" "cbb_out c5 = ?pre @ [0] @ bs"
    if ok2 ok3 ok5
    using e5 c4 that by (simp_all add: extends_def)
  note f = CBB_flush_one [OF c5 assms(3,4) r6 [unfolded assms(2)]]
  have d: "der t bs = der_tag t @ der_len (length bs) @ bs" by (simp add: der_def der_header_def)
  have l1: "1 \<le> length (der_len (length bs))" by (simp add: der_len_def)
  have part: "if ok6 then cbb_ok c6 \<and> cbb_children c6 = cbb_children c \<and> cbb_out c6 = cbb_out c @ der t bs
      else cbb_failed c6" if ok2 ok3 ok5
    using f [OF that that that, of 0] that by (simp add: d)
  have room: "ok2 \<and> ok3 \<and> ok5 \<and> ok6 \<and> cbb_roomy env c6 m"
    if "8 \<le> m" "cbb_roomy env c (length (der t bs) + m)" for m
  proof -
    define k where "k = length (der_len (length bs)) - 1"
    have "length (der t bs) + m = length (der_tag t) + (1 + (length bs + (k + m)))"
      using l1 by (simp add: d k_def)
    with that(2) have r: "cbb_roomy env c (length (der_tag t) + (1 + (length bs + (k + m))))" by simp
    have 2: ok2 "cbb_roomy env c2 (1 + (length bs + (k + m)))"
      using extends_room [OF e2 r] that(1) by simp_all
    have 3: ok3 "cbb_roomy env c3 (length bs + (k + m))"
      using extends_room [OF e3 [OF 2(1)], of "length bs + (k + m)"] 2(2) that(1) by simp_all
    have 5: ok5 "cbb_roomy env c5 (k + m)"
      using extends_room [OF e5 [OF 2(1) 3(1)], of "k + m"] 3 c4(4) [OF 2(1) 3(1)] that(1) by simp_all
    from f [OF 2(1) 3(1) 5(1), of m] 5(2) that(1) show ?thesis
      using 2(1) 3(1) 5(1) by (simp add: k_def)
  qed
  show ?thesis
  proof (cases "ok2 \<and> ok3 \<and> ok5")
    case True
    then show ?thesis using part room by (simp add: extends_def res)
  next
    case False
    have "\<not> ok2 \<Longrightarrow> cbb_failed c2" "ok2 \<Longrightarrow> \<not> ok3 \<Longrightarrow> cbb_failed c3"
      "ok2 \<Longrightarrow> ok3 \<Longrightarrow> \<not> ok5 \<Longrightarrow> cbb_failed c5"
      using e2 e3 e5 by (simp_all add: extends_def)
    then show ?thesis using False room by (auto simp: extends_def res)
  qed
qed

text \<open>The contents octets of an unsigned INTEGER.\<close>

lemma be_bytes_Cons: "be_bytes (Suc n) v = word_of_nat (v div 256 ^ n) # be_bytes n v"
proof (induction n arbitrary: v)
  case (Suc n)
  have "be_bytes (Suc (Suc n)) v = be_bytes (Suc n) (v div 256) @ [word_of_nat v]"
    by (rule be_bytes.simps(2))
  also have "\<dots> = (word_of_nat (v div 256 div 256 ^ n) # be_bytes n (v div 256)) @ [word_of_nat v]"
    by (simp only: Suc)
  finally show ?case by (simp add: div_mult2_eq [symmetric])
qed simp

lemma uint64_byte:
  assumes "n < 8"
  shows "(ucast (drop_bit (8 * (7 - (7 - n))) (v :: 64 word) AND 0xff) :: byte) = word_of_nat (unat v div 256 ^ n)"
proof -
  have p: "(2 :: nat) ^ (8 * n) = 256 ^ n" by (simp add: power_mult)
  have "ucast (w AND 0xff) = (ucast w :: byte)" for w :: "64 word"
  proof (rule bit_word_eqI)
    fix i assume "i < LENGTH(8)"
    have "bit (0xff :: 64 word) i \<longleftrightarrow> i < 8"
      using bit_mask_iff [where 'a = "64 word", of 8 i] by (auto simp: mask_eq_exp_minus_1)
    then show "bit (ucast (w AND 0xff) :: byte) i = bit (ucast w :: byte) i"
      using \<open>i < LENGTH(8)\<close> by (simp add: bit_ucast_iff bit_and_iff)
  qed
  moreover have "(ucast (drop_bit (8 * n) v) :: byte) = word_of_nat (unat (drop_bit (8 * n) v))" by simp
  moreover have "unat (drop_bit (8 * n) v) = unat v div 256 ^ n"
    by (simp only: unat_drop_bit_eq drop_bit_eq_div [where 'a = nat] p)
  ultimately show ?thesis using assms by simp
qed

lemma upt_8: "n < 8 \<Longrightarrow> [8 - Suc n..<8] = (7 - n) # [8 - n..<8]"
  using upt_conv_Cons [of "7 - n" 8] by (simp add: Suc_diff_le [symmetric])

lemma uint64_bytes_started:
  "n \<le> 8 \<Longrightarrow> uint64_bytes v [8 - n..<8] True = be_bytes n (unat v)"
proof (induction n)
  case (Suc n)
  have "[8 - Suc n..<8] = (7 - n) # [8 - n..<8]"
    using Suc.prems upt_8 by simp
  then show ?case using Suc uint64_byte [of n v] by (simp add: be_bytes_Cons del: be_bytes.simps(2))
qed simp

lemma of_nat_byte_mod: "(word_of_nat v :: byte) = word_of_nat (v mod 256)"
  by (rule word_unat_eq_iff [THEN iffD2]) (simp add: unat_of_nat)

lemma be_bytes_mod: "be_bytes n (v mod 256 ^ n) = be_bytes n v"
proof -
  have "be_bytes n (v mod 256 ^ (n + k)) = be_bytes n v" for k
  proof (induction n arbitrary: v k)
    case (Suc n)
    have "v mod 256 ^ (Suc n + k) div 256 = (v div 256) mod 256 ^ (n + k)"
      using mod_mult2_eq [of v 256 "256 ^ (n + k)"] by simp
    moreover have "(word_of_nat (v mod 256 ^ (Suc n + k)) :: byte) = word_of_nat v"
      by (subst (1 2) of_nat_byte_mod) (simp only: power_Suc add_Suc
          mod_mult_right_eq mod_mod_cancel [OF dvd_triv_left])
    ultimately show ?case using Suc [of "v div 256" k] by simp
  qed simp
  from this [of 0] show ?thesis by simp
qed

lemma uint64_bytes_fresh:
  "n \<le> 8 \<Longrightarrow> uint64_bytes v [8 - n..<8] False = der_uint (unat v mod 256 ^ n)"
proof (induction n)
  case 0
  then show ?case by (simp add: der_uint_def)
next
  case (Suc n)
  let ?b = "word_of_nat (unat v div 256 ^ n) :: byte" and ?m = "unat v mod 256 ^ Suc n"
  have u: "[8 - Suc n..<8] = (7 - n) # [8 - n..<8]"
    using Suc.prems upt_8 by simp
  have m: "?m = unat v mod 256 ^ n + 256 ^ n * (unat v div 256 ^ n mod 256)"
    using mod_mult2_eq [of "unat v" "256 ^ n" 256] by (simp add: mult.commute)
  have ub: "unat ?b = unat v div 256 ^ n mod 256" by (simp add: unat_of_nat)
  show ?case
  proof (cases "?b = 0")
    case True
    then have "?m = unat v mod 256 ^ n" using ub m by simp
    then show ?thesis using Suc True u uint64_byte [of n v] by simp
  next
    case False
    then have "unat ?b \<noteq> 0" by (simp add: unat_eq_zero)
    then have "256 ^ n * 1 \<le> 256 ^ n * unat ?b" by (intro mult_le_mono2) simp
    also have "\<dots> \<le> ?m" unfolding m ub by (rule le_add2)
    finally have ge: "256 ^ n \<le> ?m" by simp
    have "length (be_min ?m) \<le> Suc n" by (subst length_be_min) simp
    moreover have "\<not> length (be_min ?m) \<le> n" using ge by (simp only: length_be_min not_less)
    ultimately have "be_min ?m = be_bytes (Suc n) ?m"
      by (intro be_bytes_be_min [symmetric]) simp_all
    then have "be_min ?m = ?b # be_bytes n (unat v)"
      by (simp only: be_bytes_mod) (simp add: be_bytes_Cons del: be_bytes.simps(2))
    moreover have "?m \<noteq> 0" using ge by (metis le_zero_eq power_not_zero zero_neq_numeral)
    ultimately show ?thesis using False Suc.prems u uint64_byte [of n v] uint64_bytes_started [of n v]
      by (simp add: der_uint_def)
  qed
qed

lemma uint64_bytes_der: "uint64_bytes v [0..<8] False = der_uint (unat v)"
  using uint64_bytes_fresh [of 8 v] unsigned_less [of v, where 'a = nat] by simp

lemma length_der_uint: "length (der_uint (unat (v :: 64 word))) \<le> 9"
  using length_be_min [of "unat v" 8] unsigned_less [of v, where 'a = nat]
  by (simp add: der_uint_def)

lemma CBB_add_asn1_uint64_ext:
  assumes "cbb_ok c" "d = length (cbb_children c)" "env_bounded env"
  shows "extends env c (der CBS_ASN1_INTEGER (der_uint (unat v))) (CBB_add_asn1_uint64 env c d v)"
  using length_der_uint [of v] assms unfolding asn1_child_simps uint64_bytes_der
  by (intro asn1_child_ext) (auto intro: add_u8s_ext)

lemma CBB_add_asn1_octet_string_ext:
  assumes "cbb_ok c" "d = length (cbb_children c)" "env_bounded env" "length bs \<le> 0xfffffffe"
  shows "extends env c (der CBS_ASN1_OCTETSTRING bs) (CBB_add_asn1_octet_string env c d bs)"
  using assms unfolding asn1_child_simps
  by (intro asn1_child_ext CBB_add_bytes_ext) auto

lemma CBB_add_asn1_bool_ext:
  assumes "cbb_ok c" "d = length (cbb_children c)" "env_bounded env"
  shows "extends env c (der CBS_ASN1_BOOLEAN [if b \<noteq> 0 then 0xff else 0]) (CBB_add_asn1_bool env c d b)"
  using assms unfolding asn1_child_simps
  by (intro asn1_child_ext CBB_add_u8_ext) auto


text \<open>A \<open>CBB\<close> that has just been set up, and one that is finished.\<close>

lemma CBB_init_ok:
  assumes "CBB_init env cap = (True, c)" "env_bounded env" "cap + 8 < 2 ^ 64"
  shows "cbb_ok c" "cbb_children c = []" "cbb_out c = []" "cbb_base c = Some b \<Longrightarrow> cb_can_resize b"
proof -
  define m where "m = OPENSSL_malloc env cap"
  have c: "c = \<lparr>cbb_base = Some \<lparr>cb_buf = m, cb_len = 0, cb_cap = cap, cb_can_resize = True,
      cb_error = False\<rparr>, cbb_children = []\<rparr>" "0 < cap \<Longrightarrow> m \<noteq> None"
    using assms(1) by (auto simp: CBB_init_def cbb_init_def m_def Let_def split: option.splits if_splits)
  have ok: "blk_ok x" "blk_size x = cap" "cap < 2 ^ 62" if "m = Some x" for x
  proof -
    show "blk_ok x" "blk_size x = cap" using OPENSSL_malloc_ok [of env cap x] that assms(3) by (simp_all add: m_def)
    have "malloc_ok env (cap + 8)"
      using that assms(3) by (auto simp: m_def OPENSSL_malloc_def size_wrap_id Let_def split: if_splits)
    then show "cap < 2 ^ 62" using assms(2) by (fastforce simp: env_bounded_def)
  qed
  show "cbb_children c = []" "cbb_out c = []" "cbb_base c = Some b \<Longrightarrow> cb_can_resize b"
    using c by (auto simp: cbb_out_def cb_out_def)
  show "cbb_ok c"
  proof (cases m)
    case None
    then have "cap = 0" using c(2) by auto
    then show ?thesis using c None by (simp add: cbb_ok_def cb_ok_def cb_mem_def)
  next
    case (Some x)
    from ok [OF this] show ?thesis using c Some by (simp add: cbb_ok_def cb_ok_def cb_mem_def blk_ok_def)
  qed
qed

lemma CBB_finish_out:
  assumes "CBB_finish env c 0 True = (Some (buf, len), c')" "cbb_ok c" "cbb_children c = []"
  shows "len = length (cbb_out c)" "(case buf of None \<Rightarrow> [] | Some m \<Rightarrow> take len (blk_mem m)) = cbb_out c"
    "len \<le> length (case buf of None \<Rightarrow> [] | Some m \<Rightarrow> blk_mem m)" "len < 2 ^ 62" "cbb_base c' = None"
  using assms by (auto simp: CBB_finish_def CBB_flush_nothing cbb_ok_def cbb_out_def cb_out_def cb_mem_def
      cb_ok_def CBB_cleanup_def split: option.splits)

text \<open>Reading an element that was just added.\<close>

lemma get_added:
  assumes "cbs_ok s" "cbs_len s < 2 ^ 63" "cbs_view s = der t body @ rest" "length body < 2 ^ 32"
  shows "\<exists>b. CBS_get_asn1 s t = (Some b, cbs_adv (length (der t body)) s) \<and> cbs_view b = body"
  using CBS_get_asn1_iff [OF assms(1,2)] assms(3,4) cbs_view_body(1) [OF assms(3,1)] by blast

text \<open>
  What \<open>CBB_add_asn1_uint64\<close> writes into a fresh \<open>CBB\<close> and \<open>CBB_finish\<close> hands out,
  \<open>CBS_get_asn1_uint64\<close> reads back as the same number, to the last byte.
\<close>

theorem CBB_asn1_uint64_roundtrip:
  assumes "env_bounded env" "cap + 8 < 2 ^ 64" "CBB_init env cap = (True, c)"
    "CBB_add_asn1_uint64 env c 0 v = (True, c1)" "CBB_finish env c1 0 True = (Some (Some buf, len), c2)"
  shows "CBS_get_asn1_uint64 (CBS_init (blk_mem buf) len) =
    (Some v, \<lparr>cbs_mem = drop len (blk_mem buf), cbs_len = 0\<rparr>)"
proof -
  note i = CBB_init_ok [OF assms(3,1,2)]
  have "extends env c (der CBS_ASN1_INTEGER (der_uint (unat v))) (True, c1)"
    using CBB_add_asn1_uint64_ext [of c 0 env v] i assms(1,4) by simp
  then have c1: "cbb_ok c1" "cbb_children c1 = []" "cbb_out c1 = der CBS_ASN1_INTEGER (der_uint (unat v))"
    using i by (simp_all add: extends_def)
  note f = CBB_finish_out [OF assms(5) c1(1,2)]
  have s: "cbs_ok (CBS_init (blk_mem buf) len)" "cbs_len (CBS_init (blk_mem buf) len) < 2 ^ 63"
    "cbs_view (CBS_init (blk_mem buf) len) = der CBS_ASN1_INTEGER (der_uint (unat v)) @ []"
    "len = length (der CBS_ASN1_INTEGER (der_uint (unat v)))"
    using f c1(3) by (simp_all add: cbs_ok_def cbs_view_def CBS_init_def)
  show ?thesis
    unfolding CBS_uint64_iff [OF s(1,2)] using s(3,4) by (auto simp: cbs_adv_def CBS_init_def)
qed

text \<open>The start of a \<open>CBB\<close> when memory can be had.\<close>

lemma CBB_init_ample:
  assumes "cap < 2 ^ 60"
  shows "\<exists>c. CBB_init ample cap = (True, c) \<and> (n < 2 ^ 59 \<longrightarrow> cbb_roomy ample c n)"
  using assms
  by (auto simp: CBB_init_def cbb_init_def OPENSSL_malloc_def size_wrap_id cbb_roomy_def roomy_def)

lemma CBB_finish_some:
  assumes "cbb_ok c" "cbb_children c = []" "cbb_out c \<noteq> []"
  shows "\<exists>m len c'. CBB_finish env c 0 True = (Some (Some m, len), c')"
  using assms by (auto simp: CBB_finish_def CBB_flush_nothing cbb_ok_def cbb_out_def cb_out_def cb_mem_def
      split: option.splits)

lemma CBB_asn1_uint64_roundtrip_witness:
  "\<exists>c c1 c2 buf len. CBB_init ample 0 = (True, c) \<and> CBB_add_asn1_uint64 ample c 0 300 = (True, c1) \<and>
     CBB_finish ample c1 0 True = (Some (Some buf, len), c2) \<and>
     CBS_get_asn1_uint64 (CBS_init (blk_mem buf) len) =
       (Some 300, \<lparr>cbs_mem = drop len (blk_mem buf), cbs_len = 0\<rparr>)"
proof -
  let ?e = "der CBS_ASN1_INTEGER (der_uint (unat (300 :: 64 word)))"
  have d: "?e = [2, 2, 1, 44]" by code_simp
  obtain c where c: "CBB_init ample 0 = (True, c)" "cbb_roomy ample c (length ?e + 8)"
    using CBB_init_ample [of 0 "length ?e + 8"] d by auto
  have i: "cbb_ok c" "cbb_children c = []" using CBB_init_ok [OF c(1)] by simp_all
  obtain ok c1 where r: "CBB_add_asn1_uint64 ample c 0 300 = (ok, c1)" by force
  have e: "extends ample c ?e (ok, c1)" using CBB_add_asn1_uint64_ext [of c 0 ample 300] i r by simp
  then have ok unfolding extends_def using c(2) by blast
  then have c1: "cbb_ok c1" "cbb_children c1 = []" "cbb_out c1 \<noteq> []" using e i d by (simp_all add: extends_def)
  obtain m len c2 where "CBB_finish ample c1 0 True = (Some (Some m, len), c2)"
    using CBB_finish_some [OF c1] by blast
  from CBB_asn1_uint64_roundtrip [OF _ _ c(1) r [unfolded \<open>ok\<close> [THEN eqTrueI]] this] show ?thesis
    using c(1) r \<open>ok\<close> \<open>CBB_finish ample c1 0 True = (Some (Some m, len), c2)\<close> by auto
qed

text \<open>
  Wherever it stands in a message, an octet string added by
  \<open>CBB_add_asn1_octet_string\<close> leaves the earlier bytes alone, and \<open>CBS_get_asn1\<close> at
  that place finds it with the same contents and nothing behind it.
\<close>

theorem CBB_octet_string_roundtrip:
  assumes "cbb_ok c" "d = length (cbb_children c)" "env_bounded env" "length data \<le> 0xfffffffe"
    "CBB_add_asn1_octet_string env c d data = (True, c')"
  shows "cbb_ok c' \<and> cbb_children c' = cbb_children c \<and>
    take (length (cbb_out c)) (cbb_out c') = cbb_out c \<and>
    (\<exists>s r. CBS_get_asn1 (CBS_init (drop (length (cbb_out c)) (cbb_out c'))
           (length (cbb_out c') - length (cbb_out c))) CBS_ASN1_OCTETSTRING = (Some s, r) \<and>
       cbs_view s = data \<and> cbs_len r = 0)"
proof -
  let ?e = "der CBS_ASN1_OCTETSTRING data"
  have "extends env c ?e (True, c')"
    using CBB_add_asn1_octet_string_ext [OF assms(1-4)] assms(5) by simp
  then have c': "cbb_ok c'" "cbb_children c' = cbb_children c" "cbb_out c' = cbb_out c @ ?e"
    by (simp_all add: extends_def)
  obtain b where b: "cbb_base c' = Some b" "cb_ok b" using c'(1) by (auto simp: cbb_ok_def)
  then have "length (cbb_out c') < 2 ^ 63" by (simp add: cbb_out_def) (simp add: cb_ok_def)
  then have "length ?e < 2 ^ 63" using c'(3) by simp
  with get_added [of "CBS_init ?e (length ?e)" CBS_ASN1_OCTETSTRING data "[]"] assms(4) c' show ?thesis
    by (auto simp: cbs_ok_def cbs_view_def CBS_init_def cbs_adv_def)
qed

lemma CBB_octet_string_roundtrip_witness:
  "\<exists>c c'. CBB_init ample 4 = (True, c) \<and>
     CBB_add_asn1_octet_string ample c 0 [1, 2, 3] = (True, c') \<and> cbb_ok c' \<and>
     (\<exists>s r. CBS_get_asn1 (CBS_init (cbb_out c') (length (cbb_out c'))) CBS_ASN1_OCTETSTRING = (Some s, r) \<and>
       cbs_view s = [1, 2, 3] \<and> cbs_len r = 0)"
proof -
  let ?e = "der CBS_ASN1_OCTETSTRING [1, 2, 3]"
  have d: "?e = [4, 3, 1, 2, 3]" by code_simp
  obtain c where c: "CBB_init ample 4 = (True, c)" "cbb_roomy ample c (length ?e + 8)"
    using CBB_init_ample [of 4 "length ?e + 8"] d by auto
  have i: "cbb_ok c" "cbb_children c = []" "cbb_out c = []" using CBB_init_ok [OF c(1)] by simp_all
  obtain ok c' where r: "CBB_add_asn1_octet_string ample c 0 [1, 2, 3] = (ok, c')" by force
  have "extends ample c ?e (ok, c')"
    using CBB_add_asn1_octet_string_ext [of c 0 ample "[1, 2, 3]"] i r by simp
  then have ok unfolding extends_def using c(2) by blast
  from CBB_octet_string_roundtrip [OF i(1) _ _ _ r [unfolded \<open>ok\<close> [THEN eqTrueI]]] show ?thesis
    using c(1) r \<open>ok\<close> i by auto
qed

lemma flush_frames_error: "cb_error b \<Longrightarrow> flush_frames env b fs = (False, b, fs)"
  by (cases fs) simp_all

text \<open>
  An error sticks: once a \<open>CBB\<close> is marked, every call on it or on a child of it
  fails, changes nothing, and \<open>CBB_finish\<close> never hands out its bytes.
\<close>

theorem CBB_error_sticky:
  assumes "cbb_base c = Some b" "cb_error b"
  shows "CBB_flush env c d = (False, c) \<and> CBB_finish env c d want = (None, c) \<and>
    CBB_add_bytes env c d data = (False, c) \<and> CBB_add_space env c d n = (False, c) \<and>
    CBB_reserve env c d n = (False, c) \<and> cbb_add_u env c d v n = (False, c) \<and>
    CBB_add_u8 env c d x = (False, c) \<and> CBB_add_u16 env c d x2 = (False, c) \<and>
    CBB_add_u24 env c d v = (False, c) \<and> CBB_add_u32 env c d v = (False, c) \<and>
    CBB_add_u8_length_prefixed env c d = (False, c) \<and>
    CBB_add_u16_length_prefixed env c d = (False, c) \<and>
    CBB_add_u24_length_prefixed env c d = (False, c) \<and> CBB_add_asn1 env c d t = (False, c) \<and>
    CBB_add_asn1_uint64 env c d u = (False, c) \<and>
    CBB_add_asn1_octet_string env c d data = (False, c) \<and>
    CBB_add_asn1_bool env c d z = (False, c)"
proof -
  have f: "CBB_flush env c d = (False, c)" for d
    using assms flush_frames_error [OF assms(2)] by (cases c) (simp add: CBB_flush_def)
  then have "after_flush env c d op = (False, c)" "CBB_add_asn1 env c d t = (False, c)" for op t
    by (simp_all add: after_flush_def CBB_add_asn1_def)
  with f show ?thesis
    by (simp add: CBB_finish_def CBB_add_bytes_def CBB_add_space_def CBB_reserve_def cbb_add_u_def
        CBB_add_u8_def CBB_add_u16_def CBB_add_u24_def CBB_add_u32_def CBB_add_u8_length_prefixed_def
        CBB_add_u16_length_prefixed_def CBB_add_u24_length_prefixed_def cbb_add_length_prefixed_def
        asn1_child_simps asn1_child_def)
qed

lemma CBB_error_sticky_witness:
  "CBB_add_u8 ample \<lparr>cbb_base = Some \<lparr>cb_buf = Some \<lparr>blk_size = 2, blk_mem = [7, 0]\<rparr>, cb_len = 1, cb_cap = 2,
       cb_can_resize = False, cb_error = True\<rparr>, cbb_children = []\<rparr> 0 5 =
     (False, \<lparr>cbb_base = Some \<lparr>cb_buf = Some \<lparr>blk_size = 2, blk_mem = [7, 0]\<rparr>, cb_len = 1, cb_cap = 2,
       cb_can_resize = False, cb_error = True\<rparr>, cbb_children = []\<rparr>)"
  using CBB_error_sticky by simp

end
