(* ===== verification/Oid.thy ===== *)
theory Oid
  imports Cbb
begin

text \<open>
  Object identifiers in text form: \<open>CBS_asn1_oid_to_text\<close> of \<open>crypto/bytestring/cbs.c\<close>
  and \<open>CBB_add_asn1_oid_from_text\<close> of \<open>cbb.c\<close>, with the decimal numbers they print and
  parse, and the proof that the two are inverse to each other.
\<close>

section \<open>The operations\<close>

text \<open>What \<open>%lu\<close> prints.\<close>

fun decimal :: "nat \<Rightarrow> byte list" where
  "decimal n = (if n < 10 then [word_of_nat (48 + n)] else decimal (n div 10) @ [word_of_nat (48 + n mod 10)])"

declare decimal.simps [simp del]

definition DECIMAL_SIZE :: "nat \<Rightarrow> nat" where
  "DECIMAL_SIZE sz = (sz * 8 + 2) div 3 + 1"

text \<open>\<open>BIO_snprintf\<close> leaves room for the terminator in \<open>DECIMAL_SIZE(uint64_t) + 1\<close> bytes.\<close>

definition add_decimal :: "heap_env \<Rightarrow> cbb \<Rightarrow> nat \<Rightarrow> 64 word \<Rightarrow> bool \<times> cbb" where
  "add_decimal env out d v =
     (let buf = take (DECIMAL_SIZE 8 + 1 - 1) (decimal (unat v)) in CBB_add_bytes env out d buf)"

text \<open>Calls in sequence, up to the first that fails.\<close>

definition and_then :: "bool \<times> cbb \<Rightarrow> (cbb \<Rightarrow> bool \<times> cbb) \<Rightarrow> bool \<times> cbb" where
  "and_then r f = (case r of (False, c) \<Rightarrow> (False, c) | (True, c) \<Rightarrow> f c)"

lemma parse_base128_loop_decreases:
  "parse_base128_loop c v = (Some x, c') \<Longrightarrow> cbs_len c' < cbs_len c"
proof (induction c v rule: parse_base128_loop.induct)
  case (1 c v)
  obtain r c1 where g: "CBS_get_u8 c = (r, c1)" by force
  then obtain b where r: "r = Some b"
    using 1(2) by (cases r) (auto simp: parse_base128_loop.simps [of c])
  have d: "cbs_len c1 < cbs_len c" using CBS_get_u8_decreases g r by metis
  show ?case using 1(1) [OF g [symmetric] r _ _ refl] 1(2) d g r
    by (auto simp: parse_base128_loop.simps [of c] Let_def split: if_splits)
qed

function oid_to_text_loop :: "heap_env \<Rightarrow> cbb \<Rightarrow> cbs \<Rightarrow> bool \<times> cbb" where
  "oid_to_text_loop env c copy =
     (if CBS_len copy \<noteq> 0
      then (case parse_base128_integer copy of
              (None, _) \<Rightarrow> (False, c)
            | (Some v, copy') \<Rightarrow>
                (case CBB_add_u8 env c 0 46 of
                   (False, c1) \<Rightarrow> (False, c1)
                 | (True, c1) \<Rightarrow>
                     (case add_decimal env c1 0 v of
                        (False, c2) \<Rightarrow> (False, c2)
                      | (True, c2) \<Rightarrow> oid_to_text_loop env c2 copy')))
      else (True, c))"
  by pat_completeness auto
termination
  by (relation "measure (\<lambda>(_, _, copy). cbs_len copy)")
    (auto simp: parse_base128_integer_def dest: parse_base128_loop_decreases [OF sym])

declare oid_to_text_loop.simps [simp del]

text \<open>The terminated string, in a block of its own, or null.\<close>

definition CBS_asn1_oid_to_text :: "heap_env \<Rightarrow> cbs \<Rightarrow> block option" where
  "CBS_asn1_oid_to_text env cbs0 =
     (case CBB_init env 32 of
        (False, _) \<Rightarrow> None
      | (True, c) \<Rightarrow>
          (case parse_base128_integer cbs0 of
             (None, _) \<Rightarrow> None
           | (Some v, copy) \<Rightarrow>
               (case and_then
                   (and_then
                     (if v \<ge> 80
                      then and_then (CBB_add_bytes env c 0 [50, 46]) (\<lambda>c. add_decimal env c 0 (v - 80))
                      else and_then
                             (and_then (add_decimal env c 0 (v div 40)) (\<lambda>c. CBB_add_u8 env c 0 46))
                             (\<lambda>c. add_decimal env c 0 (v mod 40)))
                     (\<lambda>c. oid_to_text_loop env c copy))
                   (\<lambda>c. CBB_add_u8 env c 0 0) of
                  (False, _) \<Rightarrow> None
                | (True, c) \<Rightarrow>
                    (case CBB_finish env c 0 True of
                       (None, _) \<Rightarrow> None
                     | (Some (txt, txt_len), _) \<Rightarrow> txt))))"

definition UINT64_MAX :: "64 word" where "UINT64_MAX = 0xFFFFFFFFFFFFFFFF"

text \<open>\<open>parse_dotted_decimal\<close>: the loop, with \<open>*out\<close> and \<open>seen_digit\<close>.\<close>

function parse_dotted_loop :: "cbs \<Rightarrow> 64 word \<Rightarrow> bool \<Rightarrow> 64 word option \<times> cbs" where
  "parse_dotted_loop c out seen_digit =
     (case CBS_get_u8 c of
        (None, c') \<Rightarrow> (if seen_digit then Some out else None, c')
      | (Some u, c') \<Rightarrow>
          if u = 46 \<and> CBS_len c' > 0 then (if seen_digit then Some out else None, c')
          else if u < 48 \<or> u > 57 \<or> (seen_digit \<and> out = 0) \<or> out > UINT64_MAX div 10 \<or>
                  out * 10 > UINT64_MAX - (ucast u - 48)
          then (None, c')
          else parse_dotted_loop c' (out * 10 + (ucast u - 48)) True)"
  by pat_completeness auto
termination
  by (relation "measure (\<lambda>(c, _). cbs_len c)") (auto dest: CBS_get_u8_decreases [OF sym])

declare parse_dotted_loop.simps [simp del]

definition parse_dotted_decimal :: "cbs \<Rightarrow> 64 word option \<times> cbs" where
  "parse_dotted_decimal c = parse_dotted_loop c 0 False"

lemma parse_dotted_loop_decreases:
  "parse_dotted_loop c v s = (Some x, c') \<Longrightarrow> cbs_len c' < cbs_len c \<or> (cbs_len c' \<le> cbs_len c \<and> s)"
proof (induction c v s rule: parse_dotted_loop.induct)
  case (1 c v s)
  show ?case
  proof (cases "CBS_get_u8 c")
    case (Pair r c1)
    show ?thesis
    proof (cases r)
      case None
      then have "c1 = c" using Pair by (auto simp: CBS_get_u8_def cbs_get_def split: if_splits)
      then show ?thesis using 1(2) None Pair
        by (simp add: parse_dotted_loop.simps [of c] split: if_splits)
    next
      case (Some u)
      note d = CBS_get_u8_decreases [OF Pair [unfolded Some]]
      show ?thesis using 1(1) [OF Pair [symmetric] Some] 1(2) Pair Some d
        by (auto simp: parse_dotted_loop.simps [of c] split: if_splits)
    qed
  qed
qed

function oid_from_text_loop :: "heap_env \<Rightarrow> cbb \<Rightarrow> nat \<Rightarrow> cbs \<Rightarrow> bool \<times> cbb" where
  "oid_from_text_loop env c d s =
     (if CBS_len s > 0
      then (case parse_dotted_decimal s of
              (None, _) \<Rightarrow> (False, c)
            | (Some a, s') \<Rightarrow>
                (case add_base128_integer env c d a of
                   (False, c') \<Rightarrow> (False, c')
                 | (True, c') \<Rightarrow> oid_from_text_loop env c' d s'))
      else (True, c))"
  by pat_completeness auto
termination
  by (relation "measure (\<lambda>(_, _, _, s). cbs_len s)")
    (auto simp: parse_dotted_decimal_def dest: parse_dotted_loop_decreases [OF sym])

declare oid_from_text_loop.simps [simp del]

definition CBB_add_asn1_oid_from_text :: "heap_env \<Rightarrow> cbb \<Rightarrow> nat \<Rightarrow> byte list \<Rightarrow> nat \<Rightarrow> bool \<times> cbb" where
  "CBB_add_asn1_oid_from_text env c d text len =
     (case CBB_flush env c d of
        (False, c0) \<Rightarrow> (False, c0)
      | (True, c0) \<Rightarrow>
          (case parse_dotted_decimal (CBS_init text len) of
             (None, _) \<Rightarrow> (False, c0)
           | (Some a, s1) \<Rightarrow>
               (case parse_dotted_decimal s1 of
                  (None, _) \<Rightarrow> (False, c0)
                | (Some b, s2) \<Rightarrow>
                    if a > 2 \<or> (a < 2 \<and> b > 39) \<or> b > UINT64_MAX - 80 then (False, c0)
                    else (case add_base128_integer env c0 d (40 * a + b) of
                            (False, c1) \<Rightarrow> (False, c1)
                          | (True, c1) \<Rightarrow> oid_from_text_loop env c1 d s2))))"

section \<open>Decimal numbers\<close>

definition dec_value :: "byte list \<Rightarrow> nat" where
  "dec_value = foldl (\<lambda>a d. 10 * a + (unat d - 48)) 0"

lemma unat_digit: "k < 10 \<Longrightarrow> unat (word_of_nat (48 + k) :: byte) = 48 + k"
  by (simp add: unat_of_nat del: of_nat_add)

lemma dec_value_decimal [simp]: "dec_value (decimal n) = n"
proof (induction n rule: decimal.induct)
  case (1 n)
  have k: "unat (word_of_nat (48 + n mod 10) :: byte) = 48 + n mod 10" by (rule unat_digit) simp
  show ?case
  proof (cases "n < 10")
    case True
    then show ?thesis using unat_digit [of n] by (simp add: decimal.simps [of n] dec_value_def del: of_nat_add)
  next
    case False
    then show ?thesis using 1 k by (simp add: decimal.simps [of n] dec_value_def del: of_nat_add)
  qed
qed

lemma decimal_inject [simp]: "decimal m = decimal n \<longleftrightarrow> m = n"
  by (metis dec_value_decimal)

lemma decimal_not_Nil [simp]: "decimal n \<noteq> []" "[] \<noteq> decimal n"
  by (simp_all add: decimal.simps [of n])

lemma length_decimal: "n < 10 ^ k \<Longrightarrow> 0 < k \<Longrightarrow> length (decimal n) \<le> k"
proof (induction k arbitrary: n)
  case (Suc k)
  show ?case
  proof (cases "n < 10")
    case False
    then have "0 < k" using Suc.prems(1) by (cases k) auto
    moreover have "n div 10 < 10 ^ k" using Suc.prems(1) by (simp add: less_mult_imp_div_less mult.commute)
    ultimately show ?thesis using Suc.IH [of "n div 10"] False by (simp add: decimal.simps [of n])
  qed (simp add: decimal.simps [of n])
qed simp

lemma length_decimal64: "length (decimal (unat (v :: 64 word))) \<le> 20"
proof -
  have "unat v < 2 ^ 64" using unsigned_less [of v, where 'a = nat] by simp
  then have "unat v < 10 ^ 20" by simp
  then show ?thesis by (rule length_decimal) simp
qed

lemma decimal_snoc: "0 < m \<Longrightarrow> k < 10 \<Longrightarrow> decimal (10 * m + k) = decimal m @ [word_of_nat (48 + k)]"
  by (simp add: decimal.simps [of "10 * m + k"])

lemma take_decimal:
  "0 < j \<Longrightarrow> j \<le> length (decimal n) \<Longrightarrow> \<exists>m\<le>n. take j (decimal n) = decimal m"
proof (induction n arbitrary: j rule: decimal.induct)
  case (1 n)
  show ?case
  proof (cases "j = length (decimal n)")
    case False
    have "\<not> n < 10" using 1(2,3) False by (cases "n < 10") (auto simp: decimal.simps [of n])
    then have d: "decimal n = decimal (n div 10) @ [word_of_nat (48 + n mod 10)]" by (simp add: decimal.simps [of n])
    obtain m where "m \<le> n div 10" "take j (decimal (n div 10)) = decimal m"
      using 1(1) [OF \<open>\<not> n < 10\<close> 1(2)] 1(3) False d by auto
    then show ?thesis using 1(3) False d by (intro exI [of _ m]) auto
  qed auto
qed

text \<open>The next digit of a number of which some have been read.\<close>

lemma decimal_next:
  assumes "(if seen then decimal m else []) @ d # ds = decimal n" "\<not> seen \<longrightarrow> m = 0"
  shows "\<exists>k<10. d = word_of_nat (48 + k) \<and> 10 * m + k \<le> n \<and> decimal (10 * m + k) @ ds = decimal n \<and>
    (seen \<longrightarrow> 0 < m)"
proof -
  let ?p = "if seen then decimal m else []"
  have "take (Suc (length ?p)) (decimal n) = ?p @ [d]"
    unfolding assms(1) [symmetric] by simp
  moreover have "Suc (length ?p) \<le> length (decimal n)" unfolding assms(1) [symmetric] by simp
  ultimately obtain m' where m': "m' \<le> n" "?p @ [d] = decimal m'"
    using take_decimal [of "Suc (length ?p)" n] by auto
  show ?thesis
  proof (cases "m' < 10")
    case True
    then have "?p = [] \<and> d = word_of_nat (48 + m')" using m'(2) by (simp add: decimal.simps [of m'] split: if_splits)
    then have "\<not> seen \<and> d = word_of_nat (48 + m')" by (simp split: if_splits)
    moreover from this have "decimal m' @ ds = decimal n"
      using m'(2) assms(1) by (metis append.assoc append_Cons append_Nil)
    ultimately show ?thesis using m'(1) assms(2) True by (intro exI [of _ m']) auto
  next
    case False
    then have e: "?p = decimal (m' div 10)" "d = word_of_nat (48 + m' mod 10)"
      using m'(2) by (simp_all add: decimal.simps [of m'])
    then have "seen" "m = m' div 10" by (auto split: if_splits)
    then have "10 * m + m' mod 10 = m'" by simp
    moreover from this have "decimal (10 * m + m' mod 10) @ ds = decimal n"
      using m'(2) assms(1) by (metis append.assoc append_Cons append_Nil)
    moreover have "0 < m" using False \<open>m = m' div 10\<close> by simp
    ultimately show ?thesis using e(2) m'(1) \<open>seen\<close> by (intro exI [of _ "m' mod 10"]) auto
  qed
qed

text \<open>The overflow checks.\<close>

lemma dotted_overflow:
  assumes "k < 10"
  shows "(out > UINT64_MAX div 10 \<or> out * 10 > UINT64_MAX - (ucast (word_of_nat (48 + k) :: byte) - 48)) \<longleftrightarrow>
      \<not> 10 * unat out + k < 2 ^ 64"
    and "10 * unat out + k < 2 ^ 64 \<Longrightarrow>
      unat (out * 10 + (ucast (word_of_nat (48 + k) :: byte) - 48)) = 10 * unat out + k"
proof -
  have "unat (ucast (word_of_nat (48 + k) :: byte) :: 64 word) = 48 + k"
    using assms unat_digit [OF assms] unsigned_less [of "word_of_nat (48 + k) :: byte", where 'a = nat]
    by (simp add: unsigned_ucast_eq take_bit_nat_eq_self del: of_nat_add)
  then have d: "(ucast (word_of_nat (48 + k) :: byte) - 48 :: 64 word) = word_of_nat k"
    using word_unat_eq_iff [of "ucast (word_of_nat (48 + k) :: byte)" "48 + word_of_nat k :: 64 word"] assms
    by (simp add: unat_word_ariths unat_of_nat del: of_nat_add)
  have k: "unat (word_of_nat k :: 64 word) = k" using assms by (intro unat_of_nat64) simp
  have M: "unat UINT64_MAX = 2 ^ 64 - 1" by (simp add: UINT64_MAX_def)
  have q: "unat (UINT64_MAX div 10) = 1844674407370955161" by (simp add: UINT64_MAX_def unat_div_distrib)
  have s: "unat (UINT64_MAX - word_of_nat k) = 2 ^ 64 - 1 - k"
    using assms by (subst unat_sub) (simp_all add: word_le_nat_alt M k)
  show "(out > UINT64_MAX div 10 \<or> out * 10 > UINT64_MAX - (ucast (word_of_nat (48 + k) :: byte) - 48)) \<longleftrightarrow>
      \<not> 10 * unat out + k < 2 ^ 64"
  proof (cases "out > UINT64_MAX div 10")
    case True
    then show ?thesis by (simp add: word_less_nat_alt q)
  next
    case False
    then have "unat out \<le> 1844674407370955161" by (simp add: word_less_nat_alt q not_less)
    then have "unat (out * 10) = unat out * 10" by (simp add: unat_word_ariths)
    then show ?thesis using False assms unfolding d
      by (simp add: word_less_nat_alt [of _ "out * 10"] s) arith
  qed
  show "unat (out * 10 + (ucast (word_of_nat (48 + k) :: byte) - 48)) = 10 * unat out + k"
    if "10 * unat out + k < 2 ^ 64"
    unfolding d using that k by (simp add: unat_word_ariths mult.commute)
qed

section \<open>Parsing a component\<close>

lemma cbs_len_view: "cbs_ok c \<Longrightarrow> cbs_len c = length (cbs_view c)"
  by simp

lemma parse_dotted_complete:
  assumes "(if seen then decimal (unat out) else []) @ ds = decimal n" "\<not> seen \<longrightarrow> out = 0" "n < 2 ^ 64"
    "cbs_ok s" "cbs_view s = ds @ tail" "tail = [] \<or> (\<exists>t. tail = 46 # t \<and> t \<noteq> [])"
  shows "parse_dotted_loop s out seen =
    (Some (word_of_nat n), cbs_adv (length ds + (if tail = [] then 0 else 1)) s)"
  using assms
proof (induction ds arbitrary: s out seen)
  case Nil
  then have o: seen "unat out = n" by (auto split: if_splits)
  show ?case
  proof (cases tail)
    case Nil
    then show ?thesis using Nil.prems o
      by (auto simp: parse_dotted_loop.simps [of s] CBS_get_u8_view)
  next
    case (Cons x t)
    then show ?thesis using Nil.prems o
      by (auto simp: parse_dotted_loop.simps [of s] CBS_get_u8_view CBS_len_def cbs_len_view
          simp del: length_cbs_view)
  qed
next
  case (Cons d ds)
  obtain k where k: "k < 10" "d = word_of_nat (48 + k)" "10 * unat out + k \<le> n"
    "decimal (10 * unat out + k) @ ds = decimal n" "seen \<longrightarrow> 0 < unat out"
    using decimal_next [OF Cons.prems(1)] Cons.prems(2) by auto
  have fits: "10 * unat out + k < 2 ^ 64" using k(3) Cons.prems(3) by simp
  note o = dotted_overflow [OF k(1), of out]
  have u: "unat d = 48 + k" unfolding k(2) using k(1) by (rule unat_digit)
  then have d: "\<not> d < 48" "\<not> d > 57" "d \<noteq> 46" using k(1) by (auto simp: word_less_nat_alt)
  have "\<not> (seen \<and> out = 0)" using k(5) by auto
  moreover have "\<not> (out > UINT64_MAX div 10 \<or> out * 10 > UINT64_MAX - (ucast d - 48))"
    using o(1) fits k(2) by blast
  ultimately have "parse_dotted_loop s out seen = parse_dotted_loop (cbs_adv 1 s) (out * 10 + (ucast d - 48)) True"
    using d Cons.prems(4,5) by (auto simp: parse_dotted_loop.simps [of s] CBS_get_u8_view)
  moreover have "unat (out * 10 + (ucast d - 48)) = 10 * unat out + k" using o(2) [OF fits] k(2) by simp
  ultimately show ?case
    using Cons.IH [of True "out * 10 + (ucast d - 48)" "cbs_adv 1 s"] k(4) Cons.prems(3-6) by simp
qed

lemma parse_dotted_sound:
  assumes "parse_dotted_loop s out seen = (Some v, s')" "\<not> seen \<longrightarrow> out = 0" "cbs_ok s"
  shows "\<exists>ds. (if seen then decimal (unat out) else []) @ ds = decimal (unat v) \<and> cbs_ok s' \<and>
    (cbs_view s = ds \<and> cbs_view s' = [] \<or> cbs_view s = ds @ 46 # cbs_view s' \<and> cbs_view s' \<noteq> [])"
  using assms
proof (induction s out seen rule: parse_dotted_loop.induct)
  case (1 s out seen)
  show ?case
  proof (cases "cbs_view s")
    case Nil
    then show ?thesis using 1(2-4)
      by (auto simp: parse_dotted_loop.simps [of s] CBS_get_u8_view split: if_splits)
  next
    case (Cons u rest)
    then have g: "CBS_get_u8 s = (Some u, cbs_adv 1 s)" using 1(4) by (simp add: CBS_get_u8_view)
    have l: "CBS_len (cbs_adv 1 s) = length rest"
      using Cons 1(4) length_cbs_view [of s] by (simp add: CBS_len_def)
    show ?thesis
    proof (cases "u = 46 \<and> rest \<noteq> []")
      case True
      then show ?thesis using 1(2-4) Cons l
        by (auto simp: parse_dotted_loop.simps [of s] g split: if_splits)
    next
      case False
      let ?out = "out * 10 + (ucast u - 48)"
      have c: "\<not> u < 48" "\<not> u > 57" "\<not> (seen \<and> out = 0)"
        "\<not> (out > UINT64_MAX div 10 \<or> out * 10 > UINT64_MAX - (ucast u - 48))"
        "parse_dotted_loop (cbs_adv 1 s) ?out True = (Some v, s')"
        using 1(2) False l by (auto simp: parse_dotted_loop.simps [of s] g split: if_splits)
      define k where "k = unat u - 48"
      have k: "k < 10" "unat u = 48 + k" using c(1,2) by (auto simp: k_def word_less_nat_alt)
      then have u: "u = word_of_nat (48 + k)" by (metis unat_digit word_unat_eq_iff)
      have fits: "10 * unat out + k < 2 ^ 64" using c(4) dotted_overflow(1) [OF k(1), of out] u by blast
      have o: "unat ?out = 10 * unat out + k" using dotted_overflow(2) [OF k(1) fits] u by simp
      obtain ds where ds: "decimal (unat ?out) @ ds = decimal (unat v)" "cbs_ok s'"
        "cbs_view (cbs_adv 1 s) = ds \<and> cbs_view s' = [] \<or>
         cbs_view (cbs_adv 1 s) = ds @ 46 # cbs_view s' \<and> cbs_view s' \<noteq> []"
        using 1(1) [OF g [symmetric] refl] False l c 1(4) by (auto simp del: of_nat_add)
      have "(if seen then decimal (unat out) else []) @ [u] = decimal (unat ?out)"
      proof (cases seen)
        case True
        then have "0 < unat out" using c(3) by (simp add: unat_gt_0)
        then show ?thesis using decimal_snoc [OF _ k(1)] True o u by simp
      next
        case False
        then show ?thesis using 1(3) o u k(1) by (simp add: decimal.simps [of k])
      qed
      then have "(if seen then decimal (unat out) else []) @ u # ds = decimal (unat v)"
        using ds(1) by (metis append.assoc append_Cons append_Nil)
      then show ?thesis using ds Cons 1(4) by (intro exI [of _ "u # ds"]) auto
    qed
  qed
qed

section \<open>Object identifiers\<close>

text \<open>
  The object identifiers that have an encoding the code accepts: components below \<open>2^64\<close>,
  the first 0, 1 or 2, the second below 40 unless the first is 2. Their text form, and the
  contents octets.
\<close>

fun valid_oid :: "nat list \<Rightarrow> bool" where
  "valid_oid (a # b # ns) \<longleftrightarrow>
     a \<le> 2 \<and> (a < 2 \<longrightarrow> b \<le> 39) \<and> b + 80 < 2 ^ 64 \<and> (\<forall>n\<in>set ns. n < 2 ^ 64)"
| "valid_oid _ \<longleftrightarrow> False"

fun oid_text :: "nat list \<Rightarrow> byte list" where
  "oid_text [] = []"
| "oid_text [n] = decimal n"
| "oid_text (n # ns) = decimal n @ 46 # oid_text ns"

fun oid_octets :: "nat list \<Rightarrow> byte list" where
  "oid_octets (a # b # ns) = b128 (40 * a + b) @ concat (map b128 ns)"
| "oid_octets _ = []"

lemma oid_text_Cons: "oid_text (n # ns) = decimal n @ (if ns = [] then [] else 46 # oid_text ns)"
  by (cases ns) simp_all

lemma oid_text_Nil [simp]: "oid_text ns = [] \<longleftrightarrow> ns = []"
  by (cases ns) (simp_all add: oid_text_Cons)

lemma b128_not_Nil [simp]: "b128 n \<noteq> []"
  by (simp add: b128_def)

lemma cbs_view_Nil: "cbs_ok c \<Longrightarrow> cbs_view c = [] \<longleftrightarrow> CBS_len c = 0"
  by (simp add: CBS_len_def cbs_len_view del: length_cbs_view)

lemma parse_dotted_oid:
  assumes "cbs_ok s" "cbs_view s = oid_text (n # ns)" "n < 2 ^ 64"
  shows "\<exists>s'. parse_dotted_decimal s = (Some (word_of_nat n), s') \<and> cbs_ok s' \<and> cbs_view s' = oid_text ns"
  using parse_dotted_complete [of False 0 "decimal n" n s "if ns = [] then [] else 46 # oid_text ns"] assms
  by (simp add: parse_dotted_decimal_def oid_text_Cons split: if_splits)

lemma parse_dotted_oid_sound:
  assumes "parse_dotted_decimal s = (Some v, s')" "cbs_ok s"
  shows "cbs_ok s' \<and> (cbs_view s' = oid_text ns \<longrightarrow> cbs_view s = oid_text (unat v # ns))"
  using parse_dotted_sound [of s 0 False v s'] assms
  by (auto simp: parse_dotted_decimal_def oid_text_Cons)

section \<open>From text\<close>

lemma and_then_ext:
  assumes "extends env c bs r" "\<And>c1. cbb_ok c1 \<Longrightarrow> cbb_children c1 = cbb_children c \<Longrightarrow> extends env c1 cs (f c1)"
  shows "extends env c (bs @ cs) (and_then r f)"
proof -
  obtain ok c1 where r: "r = (ok, c1)" by force
  show ?thesis using extends_seq [of env c bs ok c1 cs "f c1"] assms r
    by (cases ok) (simp_all add: and_then_def)
qed

lemma and_then_fst: "fst (and_then r f) \<Longrightarrow> \<exists>c. r = (True, c) \<and> fst (f c)"
  by (auto simp: and_then_def split: prod.splits bool.splits)

lemma oid_from_text_loop_step:
  "oid_from_text_loop env c d s =
     (if CBS_len s > 0
      then (case parse_dotted_decimal s of
              (None, _) \<Rightarrow> (False, c)
            | (Some a, s') \<Rightarrow> and_then (add_base128_integer env c d a) (\<lambda>c. oid_from_text_loop env c d s'))
      else (True, c))"
  by (subst oid_from_text_loop.simps) (simp add: and_then_def split: option.splits prod.splits)

lemma oid_from_text_loop_ext:
  assumes "\<forall>n\<in>set ns. n < 2 ^ 64" "cbs_ok s" "cbs_view s = oid_text ns"
    "cbb_ok c" "d = length (cbb_children c)" "env_bounded env"
  shows "extends env c (concat (map b128 ns)) (oid_from_text_loop env c d s)"
  using assms
proof (induction ns arbitrary: s c)
  case Nil
  then show ?case by (simp add: oid_from_text_loop_step [of _ _ _ s] cbs_view_Nil extends_refl)
next
  case (Cons n ns)
  obtain s' where s': "parse_dotted_decimal s = (Some (word_of_nat n), s')" "cbs_ok s'" "cbs_view s' = oid_text ns"
    using parse_dotted_oid [OF Cons.prems(2,3)] Cons.prems(1) by auto
  have "CBS_len s > 0" using cbs_view_Nil [OF Cons.prems(2)] Cons.prems(3) by simp
  moreover have "extends env c (b128 n @ concat (map b128 ns))
      (and_then (add_base128_integer env c d (word_of_nat n)) (\<lambda>c. oid_from_text_loop env c d s'))"
    using add_base128_integer_ext [OF Cons.prems(4-6), of "word_of_nat n"] unat_of_nat64 [of n] Cons.prems(1,5,6) s'(2,3)
    by (intro and_then_ext Cons.IH) auto
  ultimately show ?case using s'(1) by (simp add: oid_from_text_loop_step [of _ _ _ s])
qed

lemma oid_from_text_loop_sound:
  "fst (oid_from_text_loop env c d s) \<Longrightarrow> cbs_ok s \<Longrightarrow>
     \<exists>ns. (\<forall>n\<in>set ns. n < 2 ^ 64) \<and> cbs_view s = oid_text ns"
proof (induction env c d s rule: oid_from_text_loop.induct)
  case (1 env c d s)
  show ?case
  proof (cases "CBS_len s > 0")
    case False
    then show ?thesis using 1(3) by (intro exI [of _ "[]"]) (simp add: cbs_view_Nil)
  next
    case True
    then obtain a s' c' where p: "parse_dotted_decimal s = (Some a, s')"
      "add_base128_integer env c d a = (True, c')" "fst (oid_from_text_loop env c' d s')"
      using 1(2) by (auto simp: oid_from_text_loop.simps [of env c d s] split: prod.splits option.splits bool.splits)
    note q = parse_dotted_oid_sound [OF p(1) 1(3)]
    obtain ns where "\<forall>n\<in>set ns. n < 2 ^ 64" "cbs_view s' = oid_text ns"
      using 1(1) [OF True p(1) [symmetric] refl p(2) [symmetric]] p(3) q by auto
    then show ?thesis using q unsigned_less [of a, where 'a = nat] by (intro exI [of _ "unat a # ns"]) auto
  qed
qed

lemma oid_from_text_ext:
  assumes "valid_oid oid" "take len text = oid_text oid" "len \<le> length text"
    "cbb_ok c" "d = length (cbb_children c)" "env_bounded env"
  shows "extends env c (oid_octets oid) (CBB_add_asn1_oid_from_text env c d text len)"
proof -
  obtain a b ns where o: "oid = a # b # ns" "a \<le> 2" "a < 2 \<longrightarrow> b \<le> 39" "b + 80 < 2 ^ 64" "\<forall>n\<in>set ns. n < 2 ^ 64"
    using assms(1) by (cases oid rule: valid_oid.cases) auto
  let ?s = "CBS_init text len"
  have s: "cbs_ok ?s" "cbs_view ?s = oid_text (a # b # ns)"
    using assms(2,3) o(1) by (simp_all add: cbs_ok_def cbs_view_def CBS_init_def)
  obtain s1 where s1: "parse_dotted_decimal ?s = (Some (word_of_nat a), s1)" "cbs_ok s1" "cbs_view s1 = oid_text (b # ns)"
    using parse_dotted_oid [OF s] o(2) by auto
  obtain s2 where s2: "parse_dotted_decimal s1 = (Some (word_of_nat b), s2)" "cbs_ok s2" "cbs_view s2 = oid_text ns"
    using parse_dotted_oid [OF s1(2,3)] o(4) by auto
  have u: "unat (word_of_nat a :: 64 word) = a" "unat (word_of_nat b :: 64 word) = b"
    using o(2,4) by (intro unat_of_nat64; simp)+
  have m: "unat (UINT64_MAX - 80) = 2 ^ 64 - 81" by (simp add: UINT64_MAX_def)
  have small: "\<not> (word_of_nat a > (2 :: 64 word) \<or> (word_of_nat a < (2 :: 64 word) \<and> word_of_nat b > (39 :: 64 word)) \<or>
      word_of_nat b > UINT64_MAX - 80)"
    using o(2-4) by (auto simp: word_less_nat_alt m u)
  have "unat (40 * word_of_nat a + word_of_nat b :: 64 word) = 40 * a + b"
    using o(2,4) by (simp add: unat_word_ariths u)
  then have "extends env c (b128 (40 * a + b) @ concat (map b128 ns))
      (and_then (add_base128_integer env c d (40 * word_of_nat a + word_of_nat b)) (\<lambda>c. oid_from_text_loop env c d s2))"
    using add_base128_integer_ext [OF assms(4-6), of "40 * word_of_nat a + word_of_nat b"] o(5) s2 assms(5,6)
    by (intro and_then_ext oid_from_text_loop_ext) auto
  then show ?thesis using s1(1) s2(1) small o(1)
    by (auto simp: CBB_add_asn1_oid_from_text_def CBB_flush_nothing [OF assms(4,5)] and_then_def)
qed

lemma oid_from_text_sound:
  assumes "fst (CBB_add_asn1_oid_from_text env c d text len)" "len \<le> length text"
  shows "\<exists>oid. valid_oid oid \<and> take len text = oid_text oid"
proof -
  let ?s = "CBS_init text len"
  have s: "cbs_ok ?s" "cbs_view ?s = take len text"
    using assms(2) by (simp_all add: cbs_ok_def cbs_view_def CBS_init_def)
  obtain a b s1 s2 c0 c1 where p: "parse_dotted_decimal ?s = (Some a, s1)" "parse_dotted_decimal s1 = (Some b, s2)"
    "\<not> (a > 2 \<or> (a < 2 \<and> b > 39) \<or> b > UINT64_MAX - 80)" "fst (oid_from_text_loop env c1 d s2)"
    using assms(1) by (auto simp: CBB_add_asn1_oid_from_text_def split: prod.splits option.splits bool.splits if_splits)
  note q1 = parse_dotted_oid_sound [OF p(1) s(1)]
  note q2 = parse_dotted_oid_sound [OF p(2)]
  obtain ns where ns: "\<forall>n\<in>set ns. n < 2 ^ 64" "cbs_view s2 = oid_text ns"
    using oid_from_text_loop_sound [OF p(4)] q1 q2 by blast
  have m: "unat (UINT64_MAX - 80) = 2 ^ 64 - 81" by (simp add: UINT64_MAX_def)
  have "valid_oid (unat a # unat b # ns)" using p(3) ns(1) by (auto simp: word_less_nat_alt m)
  moreover have "take len text = oid_text (unat a # unat b # ns)" using q1 q2 ns(2) s(2) by metis
  ultimately show ?thesis by blast
qed

section \<open>To text\<close>

lemma add_decimal_ext:
  assumes "cbb_ok c" "d = length (cbb_children c)" "env_bounded env"
  shows "extends env c (decimal (unat v)) (add_decimal env c d v)"
proof -
  have "take (DECIMAL_SIZE 8 + 1 - 1) (decimal (unat v)) = decimal (unat v)"
    using length_decimal64 [of v] by (simp add: DECIMAL_SIZE_def)
  moreover have "length (decimal (unat v)) < 2 ^ 62" using length_decimal64 [of v] by simp
  ultimately show ?thesis using CBB_add_bytes_ext [OF assms] by (simp add: add_decimal_def Let_def)
qed

lemma oid_to_text_loop_step:
  "oid_to_text_loop env c copy =
     (if CBS_len copy \<noteq> 0
      then (case parse_base128_integer copy of
              (None, _) \<Rightarrow> (False, c)
            | (Some v, copy') \<Rightarrow>
                and_then (CBB_add_u8 env c 0 46)
                  (\<lambda>c. and_then (add_decimal env c 0 v) (\<lambda>c. oid_to_text_loop env c copy')))
      else (True, c))"
  by (subst oid_to_text_loop.simps) (simp add: and_then_def split: option.splits prod.splits)

lemma oid_to_text_loop_ext:
  assumes "\<forall>n\<in>set ns. n < 2 ^ 64" "cbs_ok s" "cbs_view s = concat (map b128 ns)"
    "cbb_ok c" "cbb_children c = []" "env_bounded env"
  shows "extends env c (concat (map (\<lambda>n. 46 # decimal n) ns)) (oid_to_text_loop env c s)"
  using assms
proof (induction ns arbitrary: s c)
  case Nil
  then show ?case by (simp add: oid_to_text_loop_step [of _ _ s] cbs_view_Nil extends_refl)
next
  case (Cons n ns)
  note p = parse_base128_complete [OF Cons.prems(2), of n "concat (map b128 ns)"]
  have "CBS_len s \<noteq> 0" using cbs_view_Nil [OF Cons.prems(2)] Cons.prems(3) by simp
  moreover have "extends env c ([46] @ decimal n @ concat (map (\<lambda>n. 46 # decimal n) ns))
      (and_then (CBB_add_u8 env c 0 46) (\<lambda>c. and_then (add_decimal env c 0 (word_of_nat n))
         (\<lambda>c. oid_to_text_loop env c (cbs_adv (length (b128 n)) s))))"
    using Cons.prems add_decimal_ext [of _ 0 env "word_of_nat n"] unat_of_nat64 [of n]
    by (intro and_then_ext Cons.IH CBB_add_u8_ext) auto
  ultimately show ?case using p Cons.prems by (simp add: oid_to_text_loop_step [of _ _ s])
qed

lemma oid_to_text_loop_sound:
  "fst (oid_to_text_loop env c s) \<Longrightarrow> cbs_ok s \<Longrightarrow>
     \<exists>ns. (\<forall>n\<in>set ns. n < 2 ^ 64) \<and> cbs_view s = concat (map b128 ns)"
proof (induction env c s rule: oid_to_text_loop.induct)
  case (1 env c s)
  show ?case
  proof (cases "CBS_len s \<noteq> 0")
    case False
    then show ?thesis using 1(3) by (intro exI [of _ "[]"]) (simp add: cbs_view_Nil)
  next
    case True
    then obtain v s' c1 c2 where p: "parse_base128_integer s = (Some v, s')"
      "CBB_add_u8 env c 0 46 = (True, c1)" "add_decimal env c1 0 v = (True, c2)" "fst (oid_to_text_loop env c2 s')"
      using 1(2) by (auto simp: oid_to_text_loop.simps [of env c s] split: prod.splits option.splits bool.splits)
    obtain rest where r: "cbs_view s = b128 (unat v) @ rest" "s' = cbs_adv (length (b128 (unat v))) s"
      using p(1) unfolding parse_base128_iff [OF 1(3)] by blast
    then have s': "cbs_ok s'" "cbs_view s' = rest" using 1(3) by simp_all
    obtain ns where "\<forall>n\<in>set ns. n < 2 ^ 64" "rest = concat (map b128 ns)"
      using 1(1) [OF True p(1) [symmetric] refl p(2) [symmetric] refl p(3) [symmetric] refl] p(4) s' by auto
    then show ?thesis using r(1) unsigned_less [of v, where 'a = nat] by (intro exI [of _ "unat v # ns"]) auto
  qed
qed

lemma oid_text_concat: "oid_text (n # ns) = decimal n @ concat (map (\<lambda>n. 46 # decimal n) ns)"
  by (induction ns arbitrary: n) (simp_all add: oid_text_Cons)

text \<open>The first two components, from their one number.\<close>

lemma oid_first:
  assumes "a \<le> 2" "a < 2 \<longrightarrow> b \<le> 39"
  shows "(if 40 * a + b \<ge> 80 then [50, 46] @ decimal (40 * a + b - 80)
          else decimal ((40 * a + b) div 40) @ [46] @ decimal ((40 * a + b) mod 40)) = decimal a @ 46 # decimal b"
proof (cases "a = 2")
  case True
  then show ?thesis by (simp add: decimal.simps [of 2])
next
  case False
  then have "(40 * a + b) div 40 = a" "(40 * a + b) mod 40 = b" "\<not> 40 * a + b \<ge> 80"
    using assms by auto
  then show ?thesis by simp
qed

definition oid_text_body :: "heap_env \<Rightarrow> 64 word \<Rightarrow> cbs \<Rightarrow> cbb \<Rightarrow> bool \<times> cbb" where
  "oid_text_body env v copy c =
     and_then
       (and_then
         (if v \<ge> 80
          then and_then (CBB_add_bytes env c 0 [50, 46]) (\<lambda>c. add_decimal env c 0 (v - 80))
          else and_then
                 (and_then (add_decimal env c 0 (v div 40)) (\<lambda>c. CBB_add_u8 env c 0 46))
                 (\<lambda>c. add_decimal env c 0 (v mod 40)))
         (\<lambda>c. oid_to_text_loop env c copy))
       (\<lambda>c. CBB_add_u8 env c 0 0)"

lemma oid_text_body_ext:
  assumes "valid_oid (a # b # ns)" "unat v = 40 * a + b" "cbs_ok s" "cbs_view s = concat (map b128 ns)"
    "cbb_ok c" "cbb_children c = []" "env_bounded env"
  shows "extends env c (oid_text (a # b # ns) @ [0]) (oid_text_body env v s c)"
proof -
  let ?first = "if v \<ge> 80 then and_then (CBB_add_bytes env c 0 [50, 46]) (\<lambda>c. add_decimal env c 0 (v - 80))
      else and_then (and_then (add_decimal env c 0 (v div 40)) (\<lambda>c. CBB_add_u8 env c 0 46))
             (\<lambda>c. add_decimal env c 0 (v mod 40))"
  have ext: "extends env c1 (decimal (unat x)) (add_decimal env c1 0 x)" if "cbb_ok c1" "cbb_children c1 = []" for c1 x
    using that assms(7) by (intro add_decimal_ext) simp_all
  have "extends env c (if v \<ge> 80 then [50, 46] @ decimal (unat (v - 80))
      else (decimal (unat (v div 40)) @ [46]) @ decimal (unat (v mod 40))) ?first"
  proof (cases "v \<ge> 80")
    case True
    have "extends env c ([50, 46] @ decimal (unat (v - 80)))
        (and_then (CBB_add_bytes env c 0 [50, 46]) (\<lambda>c. add_decimal env c 0 (v - 80)))"
      using assms(5-7) by (intro and_then_ext CBB_add_bytes_ext ext) simp_all
    then show ?thesis using True by simp
  next
    case False
    have "extends env c ((decimal (unat (v div 40)) @ [46]) @ decimal (unat (v mod 40)))
        (and_then (and_then (add_decimal env c 0 (v div 40)) (\<lambda>c. CBB_add_u8 env c 0 46))
           (\<lambda>c. add_decimal env c 0 (v mod 40)))"
      using assms(5-7) by (intro and_then_ext CBB_add_u8_ext ext) simp_all
    then show ?thesis using False by simp
  qed
  moreover have "(if v \<ge> 80 then [50, 46] @ decimal (unat (v - 80))
      else (decimal (unat (v div 40)) @ [46]) @ decimal (unat (v mod 40))) = decimal a @ 46 # decimal b"
  proof -
    have "v \<ge> 80 \<longleftrightarrow> 40 * a + b \<ge> 80" using assms(2) by (simp add: word_le_nat_alt)
    moreover have "v \<ge> 80 \<Longrightarrow> unat (v - 80) = 40 * a + b - 80" using assms(2) by (simp add: unat_sub)
    moreover have "unat (v div 40) = (40 * a + b) div 40" "unat (v mod 40) = (40 * a + b) mod 40"
      using assms(2) by (simp_all only: unat_div_distrib unat_mod_distrib) simp_all
    ultimately show ?thesis using oid_first [of a b] assms(1) by (simp split: if_splits)
  qed
  ultimately have "extends env c (decimal a @ 46 # decimal b) ?first" by (simp only:)
  then have "extends env c (((decimal a @ 46 # decimal b) @ concat (map (\<lambda>n. 46 # decimal n) ns)) @ [0])
      (oid_text_body env v s c)"
    unfolding oid_text_body_def using assms
    by (intro and_then_ext oid_to_text_loop_ext CBB_add_u8_ext) auto
  then show ?thesis by (simp add: oid_text_concat)
qed

lemma oid_to_text_eq:
  "CBS_asn1_oid_to_text env s =
     (case CBB_init env 32 of
        (False, _) \<Rightarrow> None
      | (True, c) \<Rightarrow>
          (case parse_base128_integer s of
             (None, _) \<Rightarrow> None
           | (Some v, copy) \<Rightarrow>
               (case oid_text_body env v copy c of
                  (False, _) \<Rightarrow> None
                | (True, c) \<Rightarrow>
                    (case CBB_finish env c 0 True of (None, _) \<Rightarrow> None | (Some (txt, _), _) \<Rightarrow> txt))))"
  unfolding CBS_asn1_oid_to_text_def oid_text_body_def ..

lemma oid_text_body_sound:
  "fst (oid_text_body env v s c) \<Longrightarrow> cbs_ok s \<Longrightarrow> \<exists>ns. (\<forall>n\<in>set ns. n < 2 ^ 64) \<and> cbs_view s = concat (map b128 ns)"
proof -
  assume a: "fst (oid_text_body env v s c)" "cbs_ok s"
  then obtain c1 where "fst (oid_to_text_loop env c1 s)"
    unfolding oid_text_body_def by (metis and_then_fst fst_conv)
  then show ?thesis using a(2) by (rule oid_to_text_loop_sound)
qed

text \<open>What \<open>CBS_asn1_oid_to_text\<close> can return.\<close>

lemma oid_to_text_sound:
  assumes "CBS_asn1_oid_to_text env s = Some m" "cbs_ok s" "env_bounded env"
  shows "\<exists>oid. valid_oid oid \<and> cbs_view s = oid_octets oid \<and>
    take (length (oid_text oid) + 1) (blk_mem m) = oid_text oid @ [0]"
proof -
  obtain c v copy c1 len c2 where p: "CBB_init env 32 = (True, c)" "parse_base128_integer s = (Some v, copy)"
    "oid_text_body env v copy c = (True, c1)" "CBB_finish env c1 0 True = (Some (Some m, len), c2)"
    using assms(1) by (auto simp: oid_to_text_eq split: prod.splits option.splits bool.splits)
  obtain rest where r: "cbs_view s = b128 (unat v) @ rest" "copy = cbs_adv (length (b128 (unat v))) s"
    using p(2) unfolding parse_base128_iff [OF assms(2)] by blast
  then have copy: "cbs_ok copy" "cbs_view copy = rest" using assms(2) by simp_all
  obtain ns where ns: "\<forall>n\<in>set ns. n < 2 ^ 64" "rest = concat (map b128 ns)"
    using oid_text_body_sound [of env v copy c] p(3) copy by auto
  define a where "a = (if unat v \<ge> 80 then 2 else unat v div 40)"
  define b where "b = unat v - 40 * a"
  have ab: "unat v = 40 * a + b" "a \<le> 2" "a < 2 \<longrightarrow> b \<le> 39" "b + 80 < 2 ^ 64 \<or> a < 2"
    unfolding b_def a_def using unsigned_less [of v, where 'a = nat] by auto
  then have valid: "valid_oid (a # b # ns)" using ns(1) by auto
  have c: "cbb_ok c" "cbb_children c = []" "cbb_out c = []" using CBB_init_ok [OF p(1) assms(3)] by simp_all
  have "extends env c (oid_text (a # b # ns) @ [0]) (True, c1)"
    using oid_text_body_ext [OF valid ab(1) copy(1) _ c(1,2) assms(3)] copy(2) ns(2) p(3) by simp
  then have c1: "cbb_ok c1" "cbb_children c1 = []" "cbb_out c1 = oid_text (a # b # ns) @ [0]"
    using c by (simp_all add: extends_def)
  have "take (length (oid_text (a # b # ns)) + 1) (blk_mem m) = oid_text (a # b # ns) @ [0]"
    using CBB_finish_out [OF p(4) c1(1,2)] c1(3) by simp
  then show ?thesis using valid r(1) ns(2) ab(1) by (intro exI [of _ "a # b # ns"]) simp
qed

lemma oid_to_text_complete:
  assumes "valid_oid oid" "cbs_ok s" "cbs_view s = oid_octets oid" "env_bounded env"
    "\<forall>k<2 ^ 62. malloc_ok env k" "length (oid_text oid) < 2 ^ 58"
  shows "CBS_asn1_oid_to_text env s \<noteq> None"
proof -
  obtain a b ns where o: "oid = a # b # ns" using assms(1) by (cases oid rule: valid_oid.cases) auto
  let ?v = "word_of_nat (40 * a + b) :: 64 word"
  have fits: "40 * a + b < 2 ^ 64" using assms(1) o by auto
  note u = unat_of_nat64 [OF fits]
  have p: "parse_base128_integer s = (Some ?v, cbs_adv (length (b128 (40 * a + b))) s)"
    using assms(2,3) fits o by (intro parse_base128_complete) simp_all
  obtain c where c: "CBB_init env 32 = (True, c)" "cbb_roomy env c (length (oid_text oid @ [0]) + 8)"
    using assms(5,6)
    by (auto simp: CBB_init_def cbb_init_def OPENSSL_malloc_def size_wrap_id cbb_roomy_def roomy_def)
  have c': "cbb_ok c" "cbb_children c = []" using CBB_init_ok [OF c(1) assms(4)] by simp_all
  obtain ok c1 where r: "oid_text_body env ?v (cbs_adv (length (b128 (40 * a + b))) s) c = (ok, c1)" by force
  have "extends env c (oid_text oid @ [0]) (ok, c1)"
    using oid_text_body_ext [of a b ns ?v "cbs_adv (length (b128 (40 * a + b))) s" c env] assms(1-4) o c' r u by simp
  moreover from extends_room [OF this c(2)] have ok by simp
  ultimately have "cbb_ok c1" "cbb_children c1 = []" "cbb_out c1 \<noteq> []" using c' by (simp_all add: extends_def)
  from CBB_finish_some [OF this, of env] obtain m len c2 where
    "CBB_finish env c1 0 True = (Some (Some m, len), c2)" by blast
  then show ?thesis using c(1) p r \<open>ok\<close> by (simp add: oid_to_text_eq)
qed

text \<open>Two object identifiers with the same octets are the same.\<close>

lemma b128_prefix_free:
  assumes "b128 m @ r = b128 n @ r'" "m < 2 ^ 64" "n < 2 ^ 64"
  shows "m = n \<and> r = r'"
proof -
  let ?s = "CBS_init (b128 m @ r) (length (b128 m @ r))"
  have s: "cbs_ok ?s" "cbs_view ?s = b128 m @ r" "cbs_view ?s = b128 n @ r'"
    using assms(1) by (simp_all add: cbs_ok_def cbs_view_def CBS_init_def)
  from parse_base128_complete [OF s(1,2) assms(2)] parse_base128_complete [OF s(1,3) assms(3)]
  have "(word_of_nat m :: 64 word) = word_of_nat n" by simp
  then have "m = n" using unat_of_nat64 assms(2,3) by metis
  then show ?thesis using assms(1) by simp
qed

lemma concat_b128_inject:
  assumes "concat (map b128 ms) = concat (map b128 ns)" "\<forall>n\<in>set ms. n < 2 ^ 64" "\<forall>n\<in>set ns. n < 2 ^ 64"
  shows "ms = ns"
  using assms
proof (induction ms arbitrary: ns)
  case (Cons m ms)
  then obtain n ns' where ns: "ns = n # ns'" by (cases ns) auto
  then show ?case using b128_prefix_free [of m "concat (map b128 ms)" n "concat (map b128 ns')"] Cons by auto
qed simp

lemma oid_octets_inject:
  assumes "oid_octets xs = oid_octets ys" "valid_oid xs" "valid_oid ys"
  shows "xs = ys"
proof -
  obtain a b ms where x: "xs = a # b # ms" using assms(2) by (cases xs rule: valid_oid.cases) auto
  obtain a' b' ns where y: "ys = a' # b' # ns" using assms(3) by (cases ys rule: valid_oid.cases) auto
  have "40 * a + b < 2 ^ 64" "40 * a' + b' < 2 ^ 64" using assms(2,3) x y by auto
  then have "40 * a + b = 40 * a' + b' \<and> concat (map b128 ms) = concat (map b128 ns)"
    using b128_prefix_free [of "40 * a + b" "concat (map b128 ms)" "40 * a' + b'" "concat (map b128 ns)"]
      assms(1) x y by simp
  moreover from this have "ms = ns" using concat_b128_inject assms(2,3) x y by auto
  moreover have "a = 0 \<or> a = 1 \<or> a = 2" "a' = 0 \<or> a' = 1 \<or> a' = 2" using assms(2,3) x y by auto
  ultimately show ?thesis using assms(2,3) x y by auto
qed

lemma decimal_digits: "x \<in> set (decimal n) \<Longrightarrow> 48 \<le> x"
proof (induction n rule: decimal.induct)
  case (1 n)
  have "48 \<le> (word_of_nat (48 + k) :: byte)" if "k < 10" for k
    using unat_digit [OF that] by (simp add: word_le_nat_alt del: of_nat_add)
  from this [of n] this [of "n mod 10"] show ?case
    using 1 by (cases "n < 10") (auto simp: decimal.simps [of n])
qed

lemma decimal_no_dot: "46 \<notin> set (decimal n)"
  using decimal_digits [of 46 n] by auto

lemma oid_text_inject: "oid_text ms = oid_text ns \<Longrightarrow> ms = ns"
proof (induction ms arbitrary: ns)
  case Nil
  then show ?case by (metis oid_text_Nil)
next
  case (Cons m ms)
  then obtain n ns' where ns: "ns = n # ns'" by (cases ns) auto
  have split: "takeWhile (\<lambda>x. x \<noteq> 46) (oid_text (k # ks)) = decimal k" for k ks
  proof -
    have "\<forall>x\<in>set (decimal k). x \<noteq> 46" using decimal_no_dot [of k] by blast
    then show ?thesis by (simp add: oid_text_Cons takeWhile_append)
  qed
  have "decimal m = decimal n" using split [of m ms] split [of n ns'] Cons.prems ns by simp
  then show ?case using Cons ns by (auto simp: oid_text_Cons split: if_splits)
qed

lemma oid_text_no_zero: "0 \<notin> set (oid_text ns)"
proof -
  have "0 \<notin> set (decimal n)" for n using decimal_digits [of 0 n] by auto
  then show ?thesis by (induction ns) (auto simp: oid_text_Cons)
qed

section \<open>The two conversions\<close>

text \<open>
  C33. \<open>CBS_asn1_oid_to_text\<close> turns exactly the valid encodings of object identifiers into
  text, the terminated dotted form of the one identifier they encode; any other input gives
  null, and so does a failed allocation.
\<close>

theorem CBS_asn1_oid_to_text_correct:
  assumes "cbs_ok s" "env_bounded env"
  shows "(CBS_asn1_oid_to_text env s = Some m \<longrightarrow>
      (\<exists>oid. valid_oid oid \<and> cbs_view s = oid_octets oid \<and>
         take (length (oid_text oid) + 1) (blk_mem m) = oid_text oid @ [0])) \<and>
    ((\<forall>k<2 ^ 62. malloc_ok env k) \<longrightarrow> valid_oid oid \<longrightarrow> cbs_view s = oid_octets oid \<longrightarrow>
      length (oid_text oid) < 2 ^ 58 \<longrightarrow> CBS_asn1_oid_to_text env s \<noteq> None)"
  using oid_to_text_sound [OF _ assms, of m] oid_to_text_complete [OF _ assms(1) _ assms(2), of oid] by blast

lemma oid_840: "valid_oid [1, 2, 840]" "oid_octets [1, 2, 840] = [0x2a, 0x86, 0x48]"
  "oid_text [1, 2, 840] = [49, 46, 50, 46, 56, 52, 48]"
proof -
  show "valid_oid [1, 2, 840]" by simp
  show "oid_octets [1, 2, 840] = [0x2a, 0x86, 0x48]" by code_simp
  show "oid_text [1, 2, 840] = [49, 46, 50, 46, 56, 52, 48]" by (simp add: decimal.simps)
qed

lemma CBS_asn1_oid_to_text_correct_witness:
  "\<exists>m. CBS_asn1_oid_to_text ample (CBS_init [0x2a, 0x86, 0x48] 3) = Some m \<and>
     take 8 (blk_mem m) = [49, 46, 50, 46, 56, 52, 48, 0]"
proof -
  let ?s = "CBS_init [0x2a, 0x86, 0x48] 3"
  have s: "cbs_ok ?s" "cbs_view ?s = [0x2a, 0x86, 0x48]"
    by (simp_all add: cbs_ok_def cbs_view_def CBS_init_def)
  note P = CBS_asn1_oid_to_text_correct [OF s(1) ample_simps(1)]
  obtain m where m: "CBS_asn1_oid_to_text ample ?s = Some m"
    using oid_to_text_complete [OF oid_840(1) s(1) _ ample_simps(1)] s(2) oid_840(2,3) by fastforce
  obtain oid where oid: "valid_oid oid" "cbs_view ?s = oid_octets oid"
    "take (length (oid_text oid) + 1) (blk_mem m) = oid_text oid @ [0]"
    using P [of m "[]", THEN conjunct1, THEN mp, OF m] by (elim exE conjE)
  have "oid_octets oid = oid_octets [1, 2, 840]" using oid(2) oid_840(2) s(2) by metis
  then have "oid = [1, 2, 840]" by (rule oid_octets_inject [OF _ oid(1) oid_840(1)])
  then have "take 8 (blk_mem m) = oid_text [1, 2, 840] @ [0]"
    using oid(3) unfolding \<open>oid = [1, 2, 840]\<close> oid_840(3) by (simp add: eval_nat_numeral)
  then show ?thesis using m unfolding oid_840(3) by simp
qed

text \<open>
  C34. \<open>CBB_add_asn1_oid_from_text\<close> accepts exactly the dotted texts of the valid
  identifiers: no sign, space, leading zero, empty component or trailing dot, components
  below \<open>2^64\<close>, and the limits on the first two. It appends the encoding of the identifier.
\<close>

theorem CBB_add_asn1_oid_from_text_correct:
  assumes "cbb_ok c" "d = length (cbb_children c)" "env_bounded env" "len \<le> length text"
    "CBB_add_asn1_oid_from_text env c d text len = (ok, c')"
  shows "(ok \<longrightarrow> (\<exists>oid. valid_oid oid \<and> take len text = oid_text oid \<and> cbb_ok c' \<and>
        cbb_children c' = cbb_children c \<and> cbb_out c' = cbb_out c @ oid_octets oid)) \<and>
    (valid_oid oid \<and> take len text = oid_text oid \<and> cbb_roomy env c (length (oid_octets oid) + 8) \<longrightarrow> ok)"
proof -
  have e: "extends env c (oid_octets oid) (ok, c')" if "valid_oid oid" "take len text = oid_text oid" for oid
    using oid_from_text_ext [OF that assms(4,1,2,3)] assms(5) by simp
  show ?thesis
  proof (intro conjI impI)
    assume ok
    then obtain oid where oid: "valid_oid oid" "take len text = oid_text oid"
      using oid_from_text_sound [of env c d "text" len] assms(4,5) by auto
    then show "\<exists>oid. valid_oid oid \<and> take len text = oid_text oid \<and> cbb_ok c' \<and>
        cbb_children c' = cbb_children c \<and> cbb_out c' = cbb_out c @ oid_octets oid"
      using e [OF oid] \<open>ok\<close> by (intro exI [of _ oid]) (simp add: extends_def)
  next
    assume "valid_oid oid \<and> take len text = oid_text oid \<and> cbb_roomy env c (length (oid_octets oid) + 8)"
    then show ok using extends_room [OF e, of oid 8] by simp
  qed
qed

lemma CBB_add_asn1_oid_from_text_correct_witness:
  "\<exists>c c'. CBB_init ample 16 = (True, c) \<and>
     CBB_add_asn1_oid_from_text ample c 0 [49, 46, 50, 46, 56, 52, 48] 7 = (True, c') \<and>
     cbb_out c' = [0x2a, 0x86, 0x48]"
proof -
  let ?t = "[49, 46, 50, 46, 56, 52, 48] :: byte list"
  obtain c where c: "CBB_init ample 16 = (True, c)" "cbb_roomy ample c 11"
    using CBB_init_ample [of 16 11] by auto
  have i: "cbb_ok c" "cbb_children c = []" "cbb_out c = []" using CBB_init_ok [OF c(1)] by simp_all
  obtain ok c' where r: "CBB_add_asn1_oid_from_text ample c 0 ?t 7 = (ok, c')" by force
  have d: "0 = length (cbb_children c)" and l: "7 \<le> length ?t" using i by simp_all
  note P = CBB_add_asn1_oid_from_text_correct [OF i(1) d ample_simps(1) l r]
  have "valid_oid [1, 2, 840] \<and> take 7 ?t = oid_text [1, 2, 840] \<and>
      cbb_roomy ample c (length (oid_octets [1, 2, 840]) + 8)"
    unfolding oid_840(2,3) using oid_840(1) c(2) by simp
  then have ok using P [of "[1, 2, 840]"] by blast
  then obtain oid where "take 7 ?t = oid_text oid" and o2: "cbb_out c' = cbb_out c @ oid_octets oid"
    using P [of "[]"] by blast
  moreover have "take 7 ?t = ?t" by simp
  ultimately have o: "oid_text oid = oid_text [1, 2, 840]" using oid_840(3) by metis
  then have "oid = [1, 2, 840]" by (rule oid_text_inject)
  then show ?thesis using c(1) r \<open>ok\<close> o2 i(3) oid_840(2) by auto
qed

text \<open>
  C10. The conversions are inverse to each other: the octets added for a text are turned back
  into that text, and the text printed for octets is turned back into those octets.
\<close>

theorem oid_text_roundtrip:
  assumes "cbb_ok c" "d = length (cbb_children c)" "env_bounded env"
  shows "(CBB_add_asn1_oid_from_text env c d text len = (True, c') \<and> len \<le> length text \<and> cbs_ok s \<and>
      cbs_view s = drop (length (cbb_out c)) (cbb_out c') \<and> CBS_asn1_oid_to_text env s = Some m \<longrightarrow>
        take (len + 1) (blk_mem m) = take len text @ [0]) \<and>
    (cbs_ok s \<and> CBS_asn1_oid_to_text env s = Some m \<and>
      CBB_add_asn1_oid_from_text env c d (blk_mem m) (c_strlen (blk_mem m)) = (True, c') \<longrightarrow>
        cbb_out c' = cbb_out c @ cbs_view s)"
proof (intro conjI impI; elim conjE)
  assume a: "CBB_add_asn1_oid_from_text env c d text len = (True, c')" "len \<le> length text" "cbs_ok s"
    "cbs_view s = drop (length (cbb_out c)) (cbb_out c')" "CBS_asn1_oid_to_text env s = Some m"
  obtain oid where oid: "valid_oid oid" "take len text = oid_text oid"
    using oid_from_text_sound [of env c d "text" len] a(1,2) by auto
  have "extends env c (oid_octets oid) (True, c')"
    using oid_from_text_ext [OF oid a(2) assms] a(1) by simp
  then have view: "cbs_view s = oid_octets oid" using a(4) by (simp add: extends_def)
  obtain oid' where oid': "valid_oid oid'" "cbs_view s = oid_octets oid'"
    "take (length (oid_text oid') + 1) (blk_mem m) = oid_text oid' @ [0]"
    using oid_to_text_sound [OF a(5,3) assms(3)] by blast
  have "oid' = oid" using oid_octets_inject [OF _ oid'(1) oid(1)] oid'(2) view by simp
  moreover have "len = length (oid_text oid)" using arg_cong [OF oid(2), of length] a(2) by simp
  ultimately show "take (len + 1) (blk_mem m) = take len text @ [0]" using oid'(3) oid(2) by simp
next
  assume a: "cbs_ok s" "CBS_asn1_oid_to_text env s = Some m"
    "CBB_add_asn1_oid_from_text env c d (blk_mem m) (c_strlen (blk_mem m)) = (True, c')"
  obtain oid where oid: "valid_oid oid" "cbs_view s = oid_octets oid"
    "take (length (oid_text oid) + 1) (blk_mem m) = oid_text oid @ [0]"
    using oid_to_text_sound [OF a(2,1) assms(3)] by blast
  have m: "blk_mem m = oid_text oid @ 0 # drop (length (oid_text oid) + 1) (blk_mem m)"
    using oid(3) append_take_drop_id [of "length (oid_text oid) + 1" "blk_mem m"] by simp
  have l: "c_strlen (blk_mem m) = length (oid_text oid)"
    by (subst m) (rule c_strlen_prefix [OF oid_text_no_zero])
  have "length (oid_text oid) \<le> length (blk_mem m)" by (subst m) simp
  moreover have "take (length (oid_text oid)) (blk_mem m) = oid_text oid" by (subst m) simp
  ultimately have "extends env c (oid_octets oid) (True, c')"
    using oid_from_text_ext [OF oid(1) _ _ assms, of "length (oid_text oid)" "blk_mem m"] a(3) l by simp
  then show "cbb_out c' = cbb_out c @ cbs_view s" using oid(2) by (simp add: extends_def)
qed

lemma oid_text_roundtrip_witness:
  "\<exists>c c' m. CBB_init ample 16 = (True, c) \<and>
     CBB_add_asn1_oid_from_text ample c 0 [49, 46, 50, 46, 56, 52, 48] 7 = (True, c') \<and>
     CBS_asn1_oid_to_text ample (CBS_init (cbb_out c') (length (cbb_out c'))) = Some m \<and>
     take 8 (blk_mem m) = [49, 46, 50, 46, 56, 52, 48, 0]"
proof -
  let ?t = "[49, 46, 50, 46, 56, 52, 48] :: byte list"
  obtain c where c: "CBB_init ample 16 = (True, c)" "cbb_roomy ample c 11"
    using CBB_init_ample [of 16 11] by auto
  have i: "cbb_ok c" "cbb_children c = []" "cbb_out c = []" using CBB_init_ok [OF c(1)] by simp_all
  obtain ok c' where r: "CBB_add_asn1_oid_from_text ample c 0 ?t 7 = (ok, c')" by force
  have d: "0 = length (cbb_children c)" and l: "7 \<le> length ?t" using i by simp_all
  have "take 7 ?t = oid_text [1, 2, 840]" using oid_840(3) by simp
  from oid_from_text_ext [OF oid_840(1) this l i(1) d ample_simps(1), unfolded r]
  have e: "extends ample c (oid_octets [1, 2, 840]) (ok, c')" .
  have "cbb_roomy ample c (length (oid_octets [1, 2, 840]) + 8)" unfolding oid_840(2) using c(2) by simp
  then have ok using extends_room [OF e] by simp
  let ?s = "CBS_init (cbb_out c') (length (cbb_out c'))"
  have s: "cbs_ok ?s" "cbs_view ?s = cbb_out c'" by (simp_all add: cbs_ok_def cbs_view_def CBS_init_def)
  have "cbs_view ?s = oid_octets [1, 2, 840]" using e \<open>ok\<close> i(3) s(2) by (simp add: extends_def)
  then have "CBS_asn1_oid_to_text ample ?s \<noteq> None"
    by (rule oid_to_text_complete [OF oid_840(1) s(1) _ ample_simps(1)]) (simp, unfold oid_840(3), simp)
  then obtain m where m: "CBS_asn1_oid_to_text ample ?s = Some m" by blast
  have "take (7 + 1) (blk_mem m) = take 7 ?t @ [0]"
    using oid_text_roundtrip [OF i(1) d ample_simps(1), of ?t 7 c' ?s m] r \<open>ok\<close> l s i(3) m by simp
  then show ?thesis using c(1) r \<open>ok\<close> m by auto
qed

end
