(* ===== verification/Libc.thy ===== *)
theory Libc
  imports Prelude
begin

text \<open>
  What the sources use of the C library: \<open>memcmp\<close>, \<open>strcmp\<close>, \<open>qsort\<close> and
  \<open>bsearch\<close>. The interfaces are the locales \<open>qsort_spec\<close> and \<open>bsearch_spec\<close>, which
  hold what the standard promises; an insertion sort and a binary search are the instances the
  model runs.
\<close>

section \<open>Memory comparison\<close>

text \<open>\<open>memcmp\<close> of the C library; only its sign is used.\<close>

fun c_memcmp :: "byte list \<Rightarrow> byte list \<Rightarrow> nat \<Rightarrow> int" where
  "c_memcmp (x # a) (y # b) (Suc n) =
     (if x = y then c_memcmp a b n else int (unat x) - int (unat y))"
| "c_memcmp _ _ _ = 0"

text \<open>\<open>strcmp\<close>: the end of the list stands for the terminator.\<close>

fun c_strcmp :: "byte list \<Rightarrow> byte list \<Rightarrow> int" where
  "c_strcmp [] [] = 0"
| "c_strcmp [] (y # b) = - uint y"
| "c_strcmp (x # a) [] = uint x"
| "c_strcmp (x # a) (y # b) = (if x = y then (if x = 0 then 0 else c_strcmp a b) else uint x - uint y)"

section \<open>Sorting\<close>

fun qsort_insert :: "('a \<Rightarrow> 'a \<Rightarrow> int) \<Rightarrow> 'a \<Rightarrow> 'a list \<Rightarrow> 'a list" where
  "qsort_insert compar x [] = [x]"
| "qsort_insert compar x (y # ys) =
     (if compar x y \<le> 0 then x # y # ys else y # qsort_insert compar x ys)"

definition qsort :: "('a \<Rightarrow> 'a \<Rightarrow> int) \<Rightarrow> 'a list \<Rightarrow> 'a list" where
  "qsort compar xs = foldr (qsort_insert compar) xs []"

text \<open>What the standard promises of \<open>qsort\<close>.\<close>

definition consistent :: "('a \<Rightarrow> 'a \<Rightarrow> int) \<Rightarrow> 'a set \<Rightarrow> bool" where
  "consistent compar A \<longleftrightarrow>
     (\<forall>x\<in>A. \<forall>y\<in>A. compar x y \<le> 0 \<or> compar y x \<le> 0) \<and>
     (\<forall>x\<in>A. \<forall>y\<in>A. \<forall>z\<in>A. compar x y \<le> 0 \<longrightarrow> compar y z \<le> 0 \<longrightarrow> compar x z \<le> 0)"

locale qsort_spec =
  fixes srt :: "('a \<Rightarrow> 'a \<Rightarrow> int) \<Rightarrow> 'a list \<Rightarrow> 'a list"
  assumes srt_perm: "consistent compar (set xs) \<Longrightarrow> mset (srt compar xs) = mset xs"
    and srt_sorted: "consistent compar (set xs) \<Longrightarrow> sorted_wrt (\<lambda>a b. compar a b \<le> 0) (srt compar xs)"
begin

text \<open>Sorting by what the elements show: the sequence of what they show is determined.\<close>

lemma view_sorted:
  assumes "\<And>x y. x \<in> set xs \<Longrightarrow> y \<in> set xs \<Longrightarrow> compar x y \<le> 0 \<longleftrightarrow> lexordp_eq (view x) (view y :: 'b :: linorder list)"
  shows "mset (map view (srt compar xs)) = mset (map view xs)"
    "sorted_wrt lexordp_eq (map view (srt compar xs))"
proof -
  have c: "consistent compar (set xs)"
    unfolding consistent_def using assms lexordp_eq_linear lexordp_eq_trans by (metis (no_types, lifting))
  show "mset (map view (srt compar xs)) = mset (map view xs)" using srt_perm [OF c] by simp
  have s: "set (srt compar xs) = set xs" using srt_perm [OF c] by (metis set_mset_mset)
  have "sorted_wrt (\<lambda>a b. lexordp_eq (view a) (view b)) (srt compar xs)"
    using srt_sorted [OF c] by (rule sorted_wrt_mono_rel [rotated]) (use assms s in auto)
  then show "sorted_wrt lexordp_eq (map view (srt compar xs))" by (simp add: sorted_wrt_map)
qed

end

lemma mset_qsort_insert: "mset (qsort_insert compar x xs) = add_mset x (mset xs)"
  by (induction xs) auto

lemma mset_qsort: "mset (qsort compar xs) = mset xs"
  by (induction xs) (simp_all add: qsort_def mset_qsort_insert)

lemma consistent_mono: "consistent compar A \<Longrightarrow> B \<subseteq> A \<Longrightarrow> consistent compar B"
  unfolding consistent_def by blast

lemma set_qsort_insert: "set (qsort_insert compar x xs) = insert x (set xs)"
  using arg_cong [OF mset_qsort_insert [of compar x xs], of set_mset] by simp

lemma qsort_insert_sorted:
  assumes "consistent compar (insert x (set xs))" "sorted_wrt (\<lambda>a b. compar a b \<le> 0) xs"
  shows "sorted_wrt (\<lambda>a b. compar a b \<le> 0) (qsort_insert compar x xs)"
  using assms
proof (induction xs)
  case (Cons y ys)
  have IH: "sorted_wrt (\<lambda>a b. compar a b \<le> 0) (qsort_insert compar x ys)"
    using Cons.prems by (intro Cons.IH consistent_mono [OF Cons.prems(1)]) auto
  have tot: "compar x y \<le> 0 \<or> compar y x \<le> 0"
    using Cons.prems(1) unfolding consistent_def by (meson insert_iff list.set_intros(1))
  have tr: "compar x z \<le> 0" if "compar x y \<le> 0" "z \<in> set ys" for z
  proof -
    have "compar y z \<le> 0" using Cons.prems(2) that(2) by simp
    moreover have "x \<in> insert x (set (y # ys))" "y \<in> insert x (set (y # ys))" "z \<in> insert x (set (y # ys))"
      using that(2) by simp_all
    ultimately show ?thesis using Cons.prems(1) that(1) unfolding consistent_def by blast
  qed
  show ?case
  proof (cases "compar x y \<le> 0")
    case True
    then show ?thesis using tr Cons.prems(2) by simp
  next
    case False
    then show ?thesis using tot IH Cons.prems(2) by (simp add: set_qsort_insert)
  qed
qed simp

interpretation libc: qsort_spec qsort
proof
  fix compar :: "'a \<Rightarrow> 'a \<Rightarrow> int" and xs :: "'a list"
  show "mset (qsort compar xs) = mset xs" by (rule mset_qsort)
  assume "consistent compar (set xs)"
  then show "sorted_wrt (\<lambda>a b. compar a b \<le> 0) (qsort compar xs)"
  proof (induction xs)
    case (Cons x xs)
    have s: "set (qsort compar xs) = set xs" using mset_qsort by (metis set_mset_mset)
    have "sorted_wrt (\<lambda>a b. compar a b \<le> 0) (qsort compar xs)"
      using Cons.prems by (intro Cons.IH consistent_mono [OF Cons.prems]) auto
    then show ?case using Cons.prems s qsort_insert_sorted [of compar x "qsort compar xs"]
      by (simp add: qsort_def)
  qed (simp add: qsort_def)
qed

section \<open>Searching\<close>

text \<open>The order of a comparison function: its signs are opposite, and it is transitive.\<close>

definition comparator :: "('a \<Rightarrow> 'a \<Rightarrow> int) \<Rightarrow> 'a set \<Rightarrow> bool" where
  "comparator compar A \<longleftrightarrow>
     (\<forall>x\<in>A. \<forall>y\<in>A. sgn (compar y x) = - sgn (compar x y)) \<and>
     (\<forall>x\<in>A. \<forall>y\<in>A. \<forall>z\<in>A. compar x y \<le> 0 \<longrightarrow> compar y z \<le> 0 \<longrightarrow> compar x z \<le> 0)"

definition partitioned :: "('a \<Rightarrow> 'a \<Rightarrow> int) \<Rightarrow> 'a \<Rightarrow> 'a list \<Rightarrow> bool" where
  "partitioned compar key xs \<longleftrightarrow>
     sorted_wrt (\<lambda>a b. (compar key a \<le> 0 \<longrightarrow> compar key b \<le> 0) \<and> (compar key a < 0 \<longrightarrow> compar key b < 0)) xs"

function bsearch_loop :: "('a \<Rightarrow> 'a \<Rightarrow> int) \<Rightarrow> 'a \<Rightarrow> 'a list \<Rightarrow> nat \<Rightarrow> nat \<Rightarrow> nat option" where
  "bsearch_loop compar key xs lo hi =
     (if lo < hi
      then let mid = (lo + hi) div 2; c = compar key (xs ! mid) in
           if c < 0 then bsearch_loop compar key xs lo mid
           else if c > 0 then bsearch_loop compar key xs (mid + 1) hi
           else Some mid
      else None)"
  by pat_completeness auto
termination
  by (relation "measure (\<lambda>(_, _, _, lo, hi). hi - lo)") auto

declare bsearch_loop.simps [simp del]

definition bsearch :: "('a \<Rightarrow> 'a \<Rightarrow> int) \<Rightarrow> 'a \<Rightarrow> 'a list \<Rightarrow> nat option" where
  "bsearch compar key xs = bsearch_loop compar key xs 0 (length xs)"

locale bsearch_spec =
  fixes search :: "('a \<Rightarrow> 'a \<Rightarrow> int) \<Rightarrow> 'a \<Rightarrow> 'a list \<Rightarrow> nat option"
  assumes search_sound: "partitioned compar key xs \<Longrightarrow> search compar key xs = Some i \<Longrightarrow>
      i < length xs \<and> compar key (xs ! i) = 0"
    and search_complete: "partitioned compar key xs \<Longrightarrow> x \<in> set xs \<Longrightarrow> compar key x = 0 \<Longrightarrow>
      search compar key xs \<noteq> None"

lemma bsearch_loop_sound:
  "hi \<le> length xs \<Longrightarrow> bsearch_loop compar key xs lo hi = Some i \<Longrightarrow> i < length xs \<and> compar key (xs ! i) = 0"
proof (induction compar key xs lo hi rule: bsearch_loop.induct)
  case (1 compar key xs lo hi)
  then show ?case
    by (subst (asm) (3) bsearch_loop.simps) (auto simp: Let_def split: if_splits)
qed

lemma partitionedD:
  assumes "partitioned compar key xs" "i < j" "j < length xs"
  shows "compar key (xs ! i) \<le> 0 \<Longrightarrow> compar key (xs ! j) \<le> 0" "compar key (xs ! i) < 0 \<Longrightarrow> compar key (xs ! j) < 0"
  using assms by (auto simp: partitioned_def sorted_wrt_iff_nth_less)

lemma bsearch_loop_complete:
  assumes "partitioned compar key xs" "lo \<le> i" "i < hi" "hi \<le> length xs" "compar key (xs ! i) = 0"
  shows "bsearch_loop compar key xs lo hi \<noteq> None"
  using assms
proof (induction compar key xs lo hi rule: bsearch_loop.induct)
  case (1 compar key xs lo hi)
  let ?mid = "(lo + hi) div 2"
  have lt: "lo < hi" "?mid < hi" using 1(4,5) by simp_all
  consider "compar key (xs ! ?mid) < 0" | "compar key (xs ! ?mid) > 0" | "compar key (xs ! ?mid) = 0" by linarith
  then show ?case
  proof cases
    case c: 1
    then have "i < ?mid" using partitionedD(2) [OF 1(3), of ?mid i] 1(5-7)
      by (metis less_irrefl linorder_neqE_nat order_less_le_trans)
    then have "bsearch_loop compar key xs lo ?mid \<noteq> None"
      using "1.IH"(1) [OF lt(1) refl refl c] 1(3,4,6,7) lt by auto
    then show ?thesis using lt c by (subst bsearch_loop.simps) (simp add: Let_def)
  next
    case c: 2
    have "\<not> i < ?mid" using partitionedD(1) [OF 1(3), of i ?mid] 1(6,7) c lt by auto
    moreover have "i \<noteq> ?mid" using c 1(7) by auto
    ultimately have "bsearch_loop compar key xs (?mid + 1) hi \<noteq> None"
      using "1.IH"(2) [OF lt(1) refl refl _ c] 1(3,5,6,7) c by auto
    then show ?thesis using lt c by (subst bsearch_loop.simps) (simp add: Let_def)
  next
    case 3
    then show ?thesis using lt by (subst bsearch_loop.simps) (simp add: Let_def)
  qed
qed

interpretation libc_search: bsearch_spec bsearch
proof
  fix compar :: "'a \<Rightarrow> 'a \<Rightarrow> int" and key xs i x
  show "bsearch compar key xs = Some i \<Longrightarrow> i < length xs \<and> compar key (xs ! i) = 0"
    unfolding bsearch_def by (rule bsearch_loop_sound) simp_all
  assume "partitioned compar key xs" "x \<in> set xs" "compar key x = 0"
  then show "bsearch compar key xs \<noteq> None"
    unfolding bsearch_def by (metis bsearch_loop_complete in_set_conv_nth le0 order_refl)
qed

end
