(* ===== verification/Set_Of.thy ===== *)
theory Set_Of
  imports Oid Libc
begin

text \<open>
  \<open>CBB_flush_asn1_set_of\<close> (\<open>crypto/bytestring/cbb.c\<close>): the elements of a SET OF put into
  DER order. What the C library's \<open>qsort\<close> promises, the locale \<open>qsort_spec\<close> of
  \<open>Libc\<close>, fixes the result of this use of it.
\<close>

section \<open>Parsing the elements\<close>

lemma parse_asn1_tag_decreases: "parse_asn1_tag c = (Some t, c') \<Longrightarrow> cbs_len c' < cbs_len c"
  by (auto simp: parse_asn1_tag_def parse_base128_integer_def Let_def split: option.splits prod.splits if_splits
      dest: CBS_get_u8_decreases parse_base128_loop_decreases intro: less_trans)

lemma CBS_get_bytes_len: "CBS_get_bytes c n = (Some out, c') \<Longrightarrow> cbs_len c' = cbs_len c - n \<and> n \<le> cbs_len c"
  by (auto simp: CBS_get_bytes_def cbs_get_def split: if_splits)

lemma cbs_get_any_asn1_element_decreases:
  assumes "cbs_get_any_asn1_element c ber = (Some r, c')"
  shows "cbs_len c' < cbs_len c"
proof -
  obtain t h where t: "parse_asn1_tag c = (Some t, h)"
    using assms by (auto simp: cbs_get_any_asn1_element_def split: option.splits prod.splits)
  obtain b h2 where b: "CBS_get_u8 h = (Some b, h2)"
    using assms t by (auto simp: cbs_get_any_asn1_element_def split: option.splits prod.splits)
  have l: "cbs_len h2 < cbs_len c"
    using parse_asn1_tag_decreases [OF t] CBS_get_u8_decreases [OF b] by simp
  define hl where "hl = cbs_len c - cbs_len h2"
  have hl: "0 < hl" using l by (simp add: hl_def)
  have len: "0 < size_wrap (unat (len :: 32 word) + hl + nb)"
    if "\<not> size_wrap (unat len + hl + nb) < unat len" "\<not> len < 128" for len nb
    using that by (auto simp: word_less_nat_alt)
  have get: "CBS_get_bytes c n = (Some out, c') \<Longrightarrow> 0 < n \<Longrightarrow> cbs_len c' < cbs_len c" for n out
    using CBS_get_bytes_len [of c n out c'] by simp
  show ?thesis
    using assms hl len
    unfolding cbs_get_any_asn1_element_def t b prod.case option.case Let_def CBS_len_def hl_def [symmetric]
    by (auto split: if_splits option.splits prod.splits intro: get)
qed

text \<open>The first loop: the number of elements; the third: the elements themselves.\<close>

function count_elements :: "cbs \<Rightarrow> nat option" where
  "count_elements c =
     (if CBS_len c \<noteq> 0
      then (case CBS_get_any_asn1_element c of
              (None, _) \<Rightarrow> None
            | (Some _, c') \<Rightarrow> map_option Suc (count_elements c'))
      else Some 0)"
  by pat_completeness auto
termination
  by (relation "measure cbs_len")
    (auto simp: CBS_get_any_asn1_element_def dest: cbs_get_any_asn1_element_decreases [OF sym])

declare count_elements.simps [simp del]

fun parse_elements :: "nat \<Rightarrow> cbs \<Rightarrow> cbs list option" where
  "parse_elements 0 c = Some []"
| "parse_elements (Suc n) c =
     (case CBS_get_any_asn1_element c of
        (None, _) \<Rightarrow> None
      | (Some (child, _, _), c') \<Rightarrow> map_option ((#) child) (parse_elements n c'))"

section \<open>The order\<close>

definition compare_set_of_element :: "cbs \<Rightarrow> cbs \<Rightarrow> int" where
  "compare_set_of_element a b =
     (let a_len = CBS_len a; b_len = CBS_len b;
          min_len = (if a_len < b_len then a_len else b_len);
          ret = c_memcmp (CBS_data a) (CBS_data b) min_len
      in if ret \<noteq> 0 then ret
         else if a_len = b_len then 0
         else if a_len < b_len then - 1 else 1)"

section \<open>The operation\<close>

fun add_elements :: "heap_env \<Rightarrow> cbb \<Rightarrow> nat \<Rightarrow> cbs list \<Rightarrow> bool \<times> cbb" where
  "add_elements env c d [] = (True, c)"
| "add_elements env c d (x # xs) =
     (case CBB_add_bytes env c d (take (CBS_len x) (CBS_data x)) of
        (False, c') \<Rightarrow> (False, c')
      | (True, c') \<Rightarrow> add_elements env c' d xs)"

text \<open>\<open>sizeof(CBS)\<close> is 16.\<close>

definition CBB_flush_asn1_set_of :: "heap_env \<Rightarrow> cbb \<Rightarrow> nat \<Rightarrow> bool \<times> cbb" where
  "CBB_flush_asn1_set_of env c d =
     (case CBB_flush env c d of
        (False, c0) \<Rightarrow> (False, c0)
      | (True, c0) \<Rightarrow>
          (case count_elements (CBS_init (CBB_data c0 d) (CBB_len c0 d)) of
             None \<Rightarrow> (False, c0)
           | Some num_children \<Rightarrow>
               if num_children < 2 then (True, c0)
               else if num_children > SIZE_MAX div 16 then (False, c0)
               else let buf_len = CBB_len c0 d in
               (case (BUF_memdup env (CBB_data c0 d) buf_len,
                      OPENSSL_malloc env (size_wrap (num_children * 16))) of
                  (Some buf, Some _) \<Rightarrow>
                    (case parse_elements num_children (CBS_init (blk_mem buf) buf_len) of
                       None \<Rightarrow> (False, c0)
                     | Some children \<Rightarrow>
                         (case frame_at c0 d of (off, pend) \<Rightarrow>
                           add_elements env
                             (c0\<lparr>cbb_base := map_option (\<lambda>b. b\<lparr>cb_len := off + pend\<rparr>) (cbb_base c0)\<rparr>)
                             d (qsort compare_set_of_element children)))
                | _ \<Rightarrow> (False, c0))))"

section \<open>The elements of a byte string\<close>

text \<open>DER elements, and the byte strings that are sequences of them.\<close>

definition der_element :: "byte list \<Rightarrow> bool" where
  "der_element e \<longleftrightarrow> (\<exists>t body. e = der t body \<and> length body < 2 ^ 32)"

lemma der_element_length:
  assumes "der_element e"
  shows "2 \<le> length e"
proof -
  obtain t body where "e = der t body" using assms by (auto simp: der_element_def)
  then have "length e = length (der_tag t) + length (der_len (length body)) + length body"
    by (simp add: der_def der_header_def)
  moreover have "1 \<le> length (der_tag t)" by (simp add: der_tag_def Let_def)
  moreover have "1 \<le> length (der_len (length body))" by (simp add: der_len_def)
  ultimately show ?thesis by linarith
qed

lemma get_der_element:
  assumes "cbs_ok c" "cbs_len c < 2 ^ 63"
  shows "(\<exists>t hl. CBS_get_any_asn1_element c = (Some (out, t, hl), c')) \<longleftrightarrow>
    (\<exists>e rest. der_element e \<and> cbs_view c = e @ rest \<and> out = CBS_init (cbs_mem c) (length e) \<and>
       c' = cbs_adv (length e) c)"
  unfolding CBS_element_iff [OF assms] der_element_def by blast

lemma element_cases:
  assumes "cbs_ok c" "cbs_len c < 2 ^ 63"
  shows "(\<exists>c'. CBS_get_any_asn1_element c = (None, c') \<and>
      \<not> (\<exists>e rest. der_element e \<and> cbs_view c = e @ rest)) \<or>
    (\<exists>t hl e rest. CBS_get_any_asn1_element c = (Some (CBS_init (cbs_mem c) (length e), t, hl), cbs_adv (length e) c) \<and>
      der_element e \<and> cbs_view c = e @ rest)"
proof (cases "CBS_get_any_asn1_element c")
  case (Pair r c')
  show ?thesis
  proof (cases r)
    case None
    then show ?thesis using Pair get_der_element [OF assms] by (metis Pair_inject option.distinct(1))
  next
    case (Some x)
    then show ?thesis using Pair get_der_element [OF assms, of "fst x" c'] by (cases x) fastforce
  qed
qed

lemma count_elements_iff:
  assumes "cbs_ok c" "cbs_len c < 2 ^ 63"
  shows "count_elements c = Some n \<longleftrightarrow>
    (\<exists>es. length es = n \<and> (\<forall>e\<in>set es. der_element e) \<and> cbs_view c = concat es)"
  using assms
proof (induction "cbs_len c" arbitrary: c n rule: less_induct)
  case less
  note c = less.prems
  show ?case
  proof (cases "cbs_len c = 0")
    case True
    then have v: "cbs_view c = []" using c(1) by (simp add: cbs_view_Nil CBS_len_def)
    have "es = []" if "\<forall>e\<in>set es. der_element e" "[] = concat es" for es
      using that der_element_length by (cases es) (auto, fastforce)
    then have "(\<exists>es. length es = n \<and> (\<forall>e\<in>set es. der_element e) \<and> [] = concat es) \<longleftrightarrow> n = 0"
      by (metis concat.simps(1) empty_iff list.set(1) list.size(3))
    then show ?thesis unfolding v using True by (auto simp: count_elements.simps [of c] CBS_len_def)
  next
    case False
    from element_cases [OF c] show ?thesis
    proof (elim disjE exE conjE)
      fix c'
      assume a: "CBS_get_any_asn1_element c = (None, c')" "\<not> (\<exists>e rest. der_element e \<and> cbs_view c = e @ rest)"
      have "cbs_view c \<noteq> []" using False c(1) by (simp add: cbs_view_Nil CBS_len_def)
      then have "\<not> (\<exists>es. (\<forall>e\<in>set es. der_element e) \<and> cbs_view c = concat es)"
        using a(2) by (metis concat.simps(1) concat.simps(2) list.set_intros(1) neq_Nil_conv)
      then show ?thesis using a(1) False by (auto simp: count_elements.simps [of c] CBS_len_def)
    next
      fix t hl e rest
      assume a: "CBS_get_any_asn1_element c = (Some (CBS_init (cbs_mem c) (length e), t, hl), cbs_adv (length e) c)"
        and e: "der_element e" "cbs_view c = e @ rest"
      have l: "0 < length e" using der_element_length [OF e(1)] by linarith
      have IH: "count_elements (cbs_adv (length e) c) = Some k \<longleftrightarrow>
          (\<exists>es. length es = k \<and> (\<forall>e\<in>set es. der_element e) \<and> rest = concat es)" for k
        using less.hyps [of "cbs_adv (length e) c" k] c e(2) l False by (simp add: less_imp_diff_less)
      have uniq: "e' = e" if "der_element e'" "cbs_view c = e' @ r" for e' r
      proof -
        have "CBS_get_any_asn1_element c = (Some (CBS_init (cbs_mem c) (length e), t, hl), cbs_adv (length e) c) \<Longrightarrow>
            \<exists>t hl. CBS_get_any_asn1_element c = (Some (CBS_init (cbs_mem c) (length e'), t, hl), cbs_adv (length e') c)"
          using get_der_element [OF c] that by blast
        then have "length e' = length e" using a by (auto simp: CBS_init_def)
        then show ?thesis using e(2) that(2) by (metis append_eq_append_conv)
      qed
      have "count_elements c = map_option Suc (count_elements (cbs_adv (length e) c))"
        using a False by (simp add: count_elements.simps [of c] CBS_len_def)
      then have "count_elements c = Some n \<longleftrightarrow> (\<exists>k. n = Suc k \<and> count_elements (cbs_adv (length e) c) = Some k)"
        by auto
      also have "\<dots> \<longleftrightarrow> (\<exists>es. length es = n \<and> (\<forall>e\<in>set es. der_element e) \<and> cbs_view c = concat es)"
        (is "?l \<longleftrightarrow> ?r")
      proof
        assume ?l
        then obtain es where "n = Suc (length es)" "\<forall>e\<in>set es. der_element e" "rest = concat es"
          unfolding IH by auto
        then show ?r using e by (intro exI [of _ "e # es"]) simp
      next
        assume ?r
        then obtain es where es: "length es = n" "\<forall>e\<in>set es. der_element e" "cbs_view c = concat es" by auto
        then obtain e' es' where x: "es = e' # es'" using e l by (cases es) auto
        then have "e' = e" using uniq [of e' "concat es'"] es by simp
        then have "rest = concat es'" using es(3) x e(2) by simp
        then show ?l using es x IH by (intro exI [of _ "length es'"]) auto
      qed
      finally show ?thesis .
    qed
  qed
qed

lemma parse_elements_views:
  assumes "cbs_ok c" "cbs_len c < 2 ^ 63" "cbs_view c = concat es" "\<forall>e\<in>set es. der_element e"
  shows "\<exists>xs. parse_elements (length es) c = Some xs \<and> map cbs_view xs = es \<and> (\<forall>x\<in>set xs. cbs_ok x)"
  using assms
proof (induction es arbitrary: c)
  case (Cons e es)
  have le: "length e \<le> length (cbs_mem c)"
    using arg_cong [OF Cons.prems(3), of length] Cons.prems(1) by (simp add: cbs_ok_def)
  obtain t hl where g: "CBS_get_any_asn1_element c =
      (Some (CBS_init (cbs_mem c) (length e), t, hl), cbs_adv (length e) c)"
    using get_der_element [OF Cons.prems(1,2)] Cons.prems(3,4) by (metis concat.simps(2) list.set_intros(1))
  obtain xs where xs: "parse_elements (length es) (cbs_adv (length e) c) = Some xs" "map cbs_view xs = es"
    "\<forall>x\<in>set xs. cbs_ok x"
  proof -
    have "cbs_len (cbs_adv (length e) c) < 2 ^ 63" using Cons.prems(2) by (simp add: less_imp_diff_less)
    then show ?thesis using Cons.IH [of "cbs_adv (length e) c"] Cons.prems that by auto
  qed
  have "cbs_view (CBS_init (cbs_mem c) (length e)) = e"
  proof -
    have "length e \<le> cbs_len c" using arg_cong [OF Cons.prems(3), of length] Cons.prems(1) by simp
    then have "take (length e) (cbs_mem c) = take (length e) (cbs_view c)" by (rule cbs_mem_view)
    then have "take (length e) (cbs_mem c) = e" using Cons.prems(3) by simp
    then show ?thesis by (simp add: cbs_view_def CBS_init_def)
  qed
  then show ?case using g xs le by (simp add: cbs_ok_def CBS_init_def)
qed simp

section \<open>The order of the elements\<close>

lemma c_memcmp_sign:
  assumes "n \<le> length a" "n \<le> length b"
  shows "c_memcmp a b n = 0 \<longleftrightarrow> take n a = take n b"
    "c_memcmp a b n < 0 \<longleftrightarrow> take n a \<noteq> take n b \<and> lexordp_eq (take n a) (take n b)"
proof -
  have "(c_memcmp a b n = 0 \<longleftrightarrow> take n a = take n b) \<and>
    (c_memcmp a b n < 0 \<longleftrightarrow> take n a \<noteq> take n b \<and> lexordp_eq (take n a) (take n b))"
    using assms
  proof (induction a b n rule: c_memcmp.induct)
    case (1 x a y b n)
    have "int (unat x) - int (unat y) < 0 \<longleftrightarrow> x < y" unfolding word_less_nat_alt by linarith
    moreover have "int (unat x) - int (unat y) = 0 \<longleftrightarrow> x = y"
      by (simp only: word_unat_eq_iff right_minus_eq of_nat_eq_iff)
    ultimately show ?case using 1 by auto
  qed auto
  then show "c_memcmp a b n = 0 \<longleftrightarrow> take n a = take n b"
    "c_memcmp a b n < 0 \<longleftrightarrow> take n a \<noteq> take n b \<and> lexordp_eq (take n a) (take n b)" by blast+
qed

lemma lexordp_eq_take:
  fixes a b :: "'a :: linorder list"
  assumes "n = min (length a) (length b)"
  shows "lexordp_eq a b \<longleftrightarrow>
    (if take n a = take n b then length a \<le> length b else lexordp_eq (take n a) (take n b))"
  using assms
proof (induction a arbitrary: b n)
  case (Cons x a)
  show ?case
  proof (cases b)
    case Nil
    then show ?thesis using Cons.prems by simp
  next
    case (Cons y b')
    then have n: "n = Suc (min (length a) (length b'))" using Cons.prems by simp
    show ?thesis
    proof (cases "x = y")
      case True
      then show ?thesis using Cons.IH [OF refl, of b'] Cons n by simp
    next
      case False
      then show ?thesis using Cons n by (cases "x < y") (simp_all add: not_less)
    qed
  qed
qed simp

lemma compare_set_of_element_lex:
  assumes "cbs_ok a" "cbs_ok b"
  shows "compare_set_of_element a b \<le> 0 \<longleftrightarrow> lexordp_eq (cbs_view a) (cbs_view b)"
proof -
  define n where "n = min (cbs_len a) (cbs_len b)"
  have n: "n \<le> length (cbs_mem a)" "n \<le> length (cbs_mem b)"
    using assms by (auto simp: n_def cbs_ok_def)
  note m = c_memcmp_sign [OF n]
  have t: "take n (cbs_mem a) = take n (cbs_view a)" "take n (cbs_mem b) = take n (cbs_view b)"
    by (simp_all add: cbs_view_def n_def)
  have "n = min (length (cbs_view a)) (length (cbs_view b))" using assms by (simp add: n_def)
  note l = lexordp_eq_take [OF this]
  have "compare_set_of_element a b = (let ret = c_memcmp (cbs_mem a) (cbs_mem b) n in
      if ret \<noteq> 0 then ret else if cbs_len a = cbs_len b then 0 else if cbs_len a < cbs_len b then - 1 else 1)"
    by (simp add: compare_set_of_element_def CBS_len_def CBS_data_def n_def min_def Let_def)
  then show ?thesis unfolding l using m t assms by (auto simp: Let_def)
qed

section \<open>Flushing a SET OF\<close>

text \<open>The bytes of a \<open>CBB\<close> start behind the prefix of its innermost open child.\<close>

lemma frame_at_end:
  "(case frame_at c (length (cbb_children c)) of (off, pend) \<Rightarrow> off + pend) = frames_end 0 (cbb_children c)"
  by (simp add: frame_at_def frames_end_def last_conv_nth)

lemma CBB_data_len:
  assumes "cbb_ok c" "d = length (cbb_children c)"
  shows "take (CBB_len c d) (CBB_data c d) = drop (frames_end 0 (cbb_children c)) (cbb_out c)"
    "CBB_len c d = length (cbb_out c) - frames_end 0 (cbb_children c)"
    "CBB_len c d \<le> length (CBB_data c d)" "CBB_len c d < 2 ^ 62"
proof -
  obtain b where b: "cbb_base c = Some b" "cb_ok b" "frames_ok 0 (cbb_children c) (cb_len b)"
    using assms(1) by (auto simp: cbb_ok_def)
  obtain off pend where f: "frame_at c d = (off, pend)" by force
  then have e: "off + pend = frames_end 0 (cbb_children c)" using frame_at_end [of c] assms(2) by simp
  have l: "frames_end 0 (cbb_children c) \<le> cb_len b"
    using frames_ok_le frames_ok_split(1) [of 0 "cbb_children c" "[]"] b(3) by simp
  have m: "cb_len b \<le> length (cb_mem b)" "cb_len b < 2 ^ 62" using b(2) by (auto simp: cb_ok_def)
  show "CBB_len c d = length (cbb_out c) - frames_end 0 (cbb_children c)"
    using b f e by (simp add: CBB_len_def cbb_out_def)
  moreover have "CBB_data c d = drop (frames_end 0 (cbb_children c)) (cb_mem b)"
    using b f e by (simp add: CBB_data_def)
  ultimately show "take (CBB_len c d) (CBB_data c d) = drop (frames_end 0 (cbb_children c)) (cbb_out c)"
    "CBB_len c d \<le> length (CBB_data c d)" "CBB_len c d < 2 ^ 62"
    using b l m by (simp_all add: cbb_out_def cb_out_def drop_take)
qed

lemma cbb_rewind:
  assumes "cbb_ok c" "n = frames_end 0 (cbb_children c)"
  shows "cbb_ok (c\<lparr>cbb_base := map_option (\<lambda>b. b\<lparr>cb_len := n\<rparr>) (cbb_base c)\<rparr>)" 
    and "cbb_out (c\<lparr>cbb_base := map_option (\<lambda>b. b\<lparr>cb_len := n\<rparr>) (cbb_base c)\<rparr>) = take n (cbb_out c)"
    and "cbb_roomy env c m \<Longrightarrow> cbb_roomy env
      (c\<lparr>cbb_base := map_option (\<lambda>b. b\<lparr>cb_len := n\<rparr>) (cbb_base c)\<rparr>) (length (cbb_out c) - n + m)"
proof -
  let ?c = "c\<lparr>cbb_base := map_option (\<lambda>b. b\<lparr>cb_len := n\<rparr>) (cbb_base c)\<rparr>"
  obtain b where b: "cbb_base c = Some b" "cb_ok b" "\<not> cb_error b" "frames_ok 0 (cbb_children c) (cb_len b)"
    using assms(1) by (auto simp: cbb_ok_def)
  have l: "n \<le> cb_len b"
    using frames_ok_le frames_ok_split(1) [of 0 "cbb_children c" "[]"] b(4) assms(2) by simp
  have ok: "cb_ok (b\<lparr>cb_len := n\<rparr>)" using b(2) l by (auto simp: cb_ok_def cb_mem_def)
  have "frames_ok 0 (cbb_children c) n" using frames_ok_end [OF b(4)] assms(2) by simp
  then show "cbb_ok ?c" using b ok by (simp add: cbb_ok_def)
  show "cbb_out ?c = take n (cbb_out c)" using b l by (simp add: cbb_out_def cb_out_def cb_mem_def)
  show "cbb_roomy env ?c (length (cbb_out c) - n + m)" if "cbb_roomy env c m"
    using that b l by (auto simp: cbb_roomy_def roomy_def cbb_out_def)
qed

lemma add_elements_ext:
  assumes "cbb_ok c" "d = length (cbb_children c)" "env_bounded env" "\<forall>x\<in>set xs. length (cbs_view x) < 2 ^ 62"
  shows "extends env c (concat (map cbs_view xs)) (add_elements env c d xs)"
  using assms
proof (induction xs arbitrary: c)
  case Nil
  then show ?case by (simp add: extends_refl)
next
  case (Cons x xs)
  have "extends env c (cbs_view x @ concat (map cbs_view xs))
      (and_then (CBB_add_bytes env c d (cbs_view x)) (\<lambda>c. add_elements env c d xs))"
    using Cons.prems by (intro and_then_ext CBB_add_bytes_ext Cons.IH) auto
  moreover have "take (CBS_len x) (CBS_data x) = cbs_view x"
    by (simp add: cbs_view_def CBS_len_def CBS_data_def)
  ultimately show ?case by (simp add: and_then_def)
qed

lemma memdup_take:
  assumes "BUF_memdup env data n = Some buf" "n \<le> length data" "n + 8 < 2 ^ 64"
  shows "take n (blk_mem buf) = take n data" "n \<le> length (blk_mem buf)"
proof -
  obtain r where r: "OPENSSL_malloc env n = Some r" "buf = r\<lparr>blk_mem := mem_write (blk_mem r) 0 (take n data)\<rparr>"
    using assms(1) by (auto simp: BUF_memdup_def split: if_splits)
  then have "length (blk_mem r) = n" using OPENSSL_malloc_ok [OF r(1) assms(3)] by (simp add: blk_ok_def)
  then show "take n (blk_mem buf) = take n data" "n \<le> length (blk_mem buf)"
    using r(2) assms(2) by (auto simp: mem_write_def)
qed

text \<open>What the operation does when there is no open child.\<close>

definition sorted_der :: "byte list list \<Rightarrow> byte list list \<Rightarrow> bool" where
  "sorted_der es es' \<longleftrightarrow> mset es' = mset es \<and> sorted_wrt lexordp_eq es'"

lemma length_concat_ge: "\<forall>e\<in>set es. 2 \<le> length e \<Longrightarrow> 2 * length es \<le> length (concat es)"
  by (induction es) auto

lemma sorted_der_small: "length es < 2 \<Longrightarrow> sorted_der es es' \<Longrightarrow> es' = es"
proof -
  assume a: "length es < 2" "sorted_der es es'"
  then have "length es' = length es" by (metis size_mset sorted_der_def)
  with a show "es' = es"
    by (cases es; cases es'; cases "tl es'"; cases "tl es") (auto simp: sorted_der_def)
qed

lemma set_of_result:
  assumes "cbb_ok c" "d = length (cbb_children c)" "env_bounded env"
    "CBB_flush_asn1_set_of env c d = (ok, c')" "start = frames_end 0 (cbb_children c)"
  shows "(ok \<longrightarrow> (\<exists>es es'. (\<forall>e\<in>set es. der_element e) \<and> drop start (cbb_out c) = concat es \<and>
      sorted_der es es' \<and> cbb_ok c' \<and> cbb_children c' = cbb_children c \<and>
      cbb_out c' = take start (cbb_out c) @ concat es'))" (is ?sound)
    and "cbb_roomy env c 8 \<Longrightarrow> \<forall>e\<in>set es. der_element e \<Longrightarrow> drop start (cbb_out c) = concat es \<Longrightarrow> ok"
proof -
  define len where "len = CBB_len c d"
  define data where "data = CBB_data c d"
  note dl = CBB_data_len [OF assms(1,2), folded len_def data_def, folded assms(5)]
  let ?s = "CBS_init data len"
  have s: "cbs_ok ?s" "cbs_len ?s < 2 ^ 63" "cbs_view ?s = drop start (cbb_out c)"
    using dl by (simp_all add: cbs_ok_def cbs_view_def CBS_init_def)
  note count = count_elements_iff [OF s(1,2), unfolded s(3)]
  define n where "n = the (count_elements ?s)"
  define c1 where "c1 = c\<lparr>cbb_base := map_option (\<lambda>b. b\<lparr>cb_len := start\<rparr>) (cbb_base c)\<rparr>"
  have c1: "cbb_ok c1" "cbb_out c1 = take start (cbb_out c)" "cbb_children c1 = cbb_children c"
    "cbb_roomy env c m \<Longrightarrow> cbb_roomy env c1 (length (cbb_out c) - start + m)" for m
    using cbb_rewind(1,2) [OF assms(1,5)] cbb_rewind(3) [OF assms(1,5), of env m] by (simp_all add: c1_def)
  have frame: "(case frame_at c d of (off, pend) \<Rightarrow> add_elements env
      (c\<lparr>cbb_base := map_option (\<lambda>b. b\<lparr>cb_len := off + pend\<rparr>) (cbb_base c)\<rparr>) d xs) = add_elements env c1 d xs" for xs
    using frame_at_end [of c] assms(2,5) by (auto simp: c1_def split: prod.splits)
  have set_of: "CBB_flush_asn1_set_of env c d =
     (case count_elements ?s of
        None \<Rightarrow> (False, c)
      | Some k \<Rightarrow>
          if k < 2 then (True, c)
          else if k > SIZE_MAX div 16 then (False, c)
          else (case (BUF_memdup env data len, OPENSSL_malloc env (size_wrap (k * 16))) of
                  (Some buf, Some _) \<Rightarrow>
                    (case parse_elements k (CBS_init (blk_mem buf) len) of
                       None \<Rightarrow> (False, c)
                     | Some xs \<Rightarrow> add_elements env c1 d (qsort compare_set_of_element xs))
                | _ \<Rightarrow> (False, c)))"
    by (simp only: CBB_flush_asn1_set_of_def CBB_flush_nothing [OF assms(1,2)] prod.case bool.case
        Let_def frame len_def [symmetric] data_def [symmetric] if_True)
  have sorted: "\<exists>xs. parse_elements (length es) (CBS_init (blk_mem buf) len) = Some xs \<and>
      extends env c1 (concat (map cbs_view (qsort compare_set_of_element xs)))
        (add_elements env c1 d (qsort compare_set_of_element xs)) \<and>
      sorted_der es (map cbs_view (qsort compare_set_of_element xs))"
    if es: "\<forall>e\<in>set es. der_element e" "drop start (cbb_out c) = concat es"
      and buf: "BUF_memdup env data len = Some buf" for es buf
  proof -
    have len8: "len + 8 < 2 ^ 64" using dl(4) by simp
    note m = memdup_take [OF buf dl(3) len8]
    let ?t = "CBS_init (blk_mem buf) len"
    have t: "cbs_ok ?t" "cbs_len ?t < 2 ^ 63" "cbs_view ?t = concat es"
      using m dl es(2) by (simp_all add: cbs_ok_def cbs_view_def CBS_init_def)
    obtain xs where xs: "parse_elements (length es) ?t = Some xs" "map cbs_view xs = es" "\<forall>x\<in>set xs. cbs_ok x"
      using parse_elements_views [OF t es(1)] by blast
    have cmp: "compare_set_of_element x y \<le> 0 \<longleftrightarrow> lexordp_eq (cbs_view x) (cbs_view y)"
      if "x \<in> set xs" "y \<in> set xs" for x y
      using that xs(3) compare_set_of_element_lex by blast
    note v = libc.view_sorted [where xs = xs and view = cbs_view and compar = compare_set_of_element, OF cmp]
    have "length (cbs_view x) < 2 ^ 62" if "x \<in> set (qsort compare_set_of_element xs)" for x
    proof -
      have "x \<in> set xs" using that mset_qsort by (metis set_mset_mset)
      then have "cbs_view x \<in> set es" using xs(2) by auto
      then have "length (cbs_view x) \<le> length (concat es)"
        using member_le_sum_list [of "length (cbs_view x)" "map length es"] by (simp add: length_concat)
      also have "\<dots> \<le> len" using dl(2) arg_cong [OF es(2), of length] by simp
      finally show ?thesis using dl(4) by simp
    qed
    then have "extends env c1 (concat (map cbs_view (qsort compare_set_of_element xs)))
        (add_elements env c1 d (qsort compare_set_of_element xs))"
      using c1(1,3) assms(2,3) by (intro add_elements_ext) auto
    moreover have "sorted_der es (map cbs_view (qsort compare_set_of_element xs))"
      using v unfolding sorted_der_def xs(2) [symmetric] by blast
    ultimately show ?thesis using xs(1) by blast
  qed
  show ?sound
  proof
    assume ok
    then obtain k where k: "count_elements ?s = Some k" using assms(4) set_of by (cases "count_elements ?s") auto
    then obtain es where es: "length es = k" "\<forall>e\<in>set es. der_element e" "drop start (cbb_out c) = concat es"
      using count by blast
    show "\<exists>es es'. (\<forall>e\<in>set es. der_element e) \<and> drop start (cbb_out c) = concat es \<and>
      sorted_der es es' \<and> cbb_ok c' \<and> cbb_children c' = cbb_children c \<and>
      cbb_out c' = take start (cbb_out c) @ concat es'"
    proof (cases "k < 2")
      case True
      then have "c' = c" using set_of k assms(4) by simp
      moreover have "sorted_der es es"
        using True es(1) by (cases es; cases "tl es") (auto simp: sorted_der_def)
      moreover have "cbb_out c = take start (cbb_out c) @ concat es"
        using es(3) by (metis append_take_drop_id)
      ultimately show ?thesis using es assms(1) by (intro exI [of _ es]) simp
    next
      case False
      note r = set_of [unfolded assms(4) k option.case if_not_P [OF False]]
      have big: "\<not> k > SIZE_MAX div 16"
        by (rule notI) (use r \<open>ok\<close> in simp)
      obtain buf x where buf: "BUF_memdup env data len = Some buf" "OPENSSL_malloc env (size_wrap (k * 16)) = Some x"
        using r \<open>ok\<close> big
        by (cases "BUF_memdup env data len"; cases "OPENSSL_malloc env (size_wrap (k * 16))") simp_all
      from sorted [OF es(2,3) buf(1)] obtain xs where xs: "parse_elements k (CBS_init (blk_mem buf) len) = Some xs"
        "extends env c1 (concat (map cbs_view (qsort compare_set_of_element xs)))
          (add_elements env c1 d (qsort compare_set_of_element xs))"
        "sorted_der es (map cbs_view (qsort compare_set_of_element xs))"
        using es(1) by blast
      have "add_elements env c1 d (qsort compare_set_of_element xs) = (True, c')"
        using r \<open>ok\<close> big buf xs(1) by simp
      then have "cbb_ok c'" "cbb_children c' = cbb_children c"
        "cbb_out c' = take start (cbb_out c) @ concat (map cbs_view (qsort compare_set_of_element xs))"
        using xs(2) c1 by (simp_all add: extends_def)
      then show ?thesis using es(2,3) xs(3) by blast
    qed
  qed
  show ok if room: "cbb_roomy env c 8" and es: "\<forall>e\<in>set es. der_element e" "drop start (cbb_out c) = concat es"
  proof (cases "length es < 2")
    case True
    have "count_elements ?s = Some (length es)" using es count by blast
    then show ?thesis using set_of assms(4) True by simp
  next
    case False
    have k: "count_elements ?s = Some (length es)" using es count by blast
    have mall: "malloc_ok env i" if "i < 2 ^ 62" for i using room that by (auto simp: cbb_roomy_def roomy_def)
    obtain b where b: "cbb_base c = Some b" "cb_ok b" "cb_len b + 8 < 2 ^ 59"
      using assms(1) room by (auto simp: cbb_ok_def cbb_roomy_def roomy_def)
    then have "len + 8 < 2 ^ 59" using dl(2) by (simp add: cbb_out_def)
    have l: "len = length (concat es)" using dl(2) arg_cong [OF es(2), of length] by simp
    have "2 * length es \<le> len" unfolding l using es(1) der_element_length by (intro length_concat_ge) blast
    then have le: "length es * 16 + 8 < 2 ^ 62" "len + 8 < 2 ^ 62" "0 < len"
      using \<open>len + 8 < 2 ^ 59\<close> False by simp_all
    have "\<exists>buf. BUF_memdup env data len = Some buf"
      using mall [OF le(2)] le(2,3) by (simp add: BUF_memdup_def OPENSSL_malloc_def size_wrap_id Let_def)
    then obtain buf where buf: "BUF_memdup env data len = Some buf" ..
    have mc: "\<exists>x. OPENSSL_malloc env (size_wrap (length es * 16)) = Some x"
      using mall [OF le(1)] le(1) by (simp add: OPENSSL_malloc_def size_wrap_id Let_def)
    have big: "\<not> length es > SIZE_MAX div 16" using le(1) by (simp add: SIZE_MAX_def)
    obtain xs where xs: "parse_elements (length es) (CBS_init (blk_mem buf) len) = Some xs"
        "extends env c1 (concat (map cbs_view (qsort compare_set_of_element xs)))
          (add_elements env c1 d (qsort compare_set_of_element xs))"
        "sorted_der es (map cbs_view (qsort compare_set_of_element xs))"
      using sorted [OF es buf] by blast
    have "CBB_flush_asn1_set_of env c d = add_elements env c1 d (qsort compare_set_of_element xs)"
      using set_of k False big buf mc xs(1) by auto
    then have r: "add_elements env c1 d (qsort compare_set_of_element xs) = (ok, c')" using assms(4) by simp
    have "length (concat (map cbs_view (qsort compare_set_of_element xs))) = len"
    proof -
      have "mset (map cbs_view (qsort compare_set_of_element xs)) = mset es" using xs(3) by (simp add: sorted_der_def)
      then show ?thesis unfolding l length_concat by (metis mset_map sum_mset_sum_list)
    qed
    moreover have "cbb_roomy env c1 (len + 8)" using c1(4) [OF room] dl(2) by simp
    ultimately show ok using extends_room [OF xs(2) [unfolded r], of 8] by simp
  qed
qed

text \<open>
  C27. \<open>CBB_flush_asn1_set_of\<close> puts the elements a SET OF was filled with into ascending
  order, as X.690 asks: the bytes in front stay, the contents become a permutation of the
  same DER elements, sorted as byte strings. It fails only when the contents are not a
  sequence of DER elements, as long as memory can be had.
\<close>

theorem CBB_flush_asn1_set_of_sorts:
  assumes "cbb_ok c" "d = length (cbb_children c)" "env_bounded env"
    "CBB_flush_asn1_set_of env c d = (ok, c')" "start = frames_end 0 (cbb_children c)"
  shows "(ok \<longrightarrow> (\<exists>es es'. (\<forall>e\<in>set es. der_element e) \<and> drop start (cbb_out c) = concat es \<and>
      mset es' = mset es \<and> sorted_wrt lexordp_eq es' \<and> cbb_ok c' \<and>
      cbb_children c' = cbb_children c \<and> cbb_out c' = take start (cbb_out c) @ concat es')) \<and>
    (cbb_roomy env c 8 \<longrightarrow>
      ok = (\<exists>es. (\<forall>e\<in>set es. der_element e) \<and> drop start (cbb_out c) = concat es))"
proof (intro conjI impI)
  assume ok
  then show "\<exists>es es'. (\<forall>e\<in>set es. der_element e) \<and> drop start (cbb_out c) = concat es \<and>
      mset es' = mset es \<and> sorted_wrt lexordp_eq es' \<and> cbb_ok c' \<and>
      cbb_children c' = cbb_children c \<and> cbb_out c' = take start (cbb_out c) @ concat es'"
    using set_of_result(1) [OF assms] unfolding sorted_der_def by blast
next
  assume "cbb_roomy env c 8"
  then show "ok = (\<exists>es. (\<forall>e\<in>set es. der_element e) \<and> drop start (cbb_out c) = concat es)"
    using set_of_result [OF assms] by blast
qed

lemma CBB_flush_asn1_set_of_sorts_witness:
  "\<exists>c' es es'. CBB_flush_asn1_set_of ample \<lparr>cbb_base = Some \<lparr>cb_buf = Some \<lparr>blk_size = 6, blk_mem = [2, 1, 7, 2, 1, 3]\<rparr>,
      cb_len = 6, cb_cap = 6, cb_can_resize = True, cb_error = False\<rparr>, cbb_children = []\<rparr> 0 = (True, c') \<and>
    concat es = [2, 1, 7, 2, 1, 3] \<and> mset es' = mset es \<and> sorted_wrt lexordp_eq es' \<and> cbb_out c' = concat es'"
proof -
  let ?c = "\<lparr>cbb_base = Some \<lparr>cb_buf = Some \<lparr>blk_size = 6, blk_mem = [2, 1, 7, 2, 1, 3]\<rparr>,
      cb_len = 6, cb_cap = 6, cb_can_resize = True, cb_error = False\<rparr>, cbb_children = []\<rparr>"
  have c: "cbb_ok ?c" "cbb_roomy ample ?c 8" "0 = length (cbb_children ?c)" "0 = frames_end 0 (cbb_children ?c)"
    by (simp_all add: cbb_ok_def cb_ok_def cb_mem_def blk_ok_def cbb_roomy_def roomy_def frames_end_def)
  have o: "drop 0 (cbb_out ?c) = [2, 1, 7, 2, 1, 3]" by (simp add: cbb_out_def cb_out_def cb_mem_def)
  obtain ok c' where r: "CBB_flush_asn1_set_of ample ?c 0 = (ok, c')" by force
  note P = CBB_flush_asn1_set_of_sorts [OF c(1,3) ample_simps(1) r c(4), unfolded o take_0 append_Nil]
  have d: "der 2 [7] = [2, 1, 7]" "der 2 [3] = [2, 1, 3]" by code_simp+
  have "der_element [2, 1, 7]" unfolding der_element_def by (intro exI [of _ 2] exI [of _ "[7]"]) (simp add: d)
  moreover have "der_element [2, 1, 3]" unfolding der_element_def by (intro exI [of _ 2] exI [of _ "[3]"]) (simp add: d)
  ultimately have "\<exists>es. (\<forall>e\<in>set es. der_element e) \<and> [2, 1, 7, 2, 1, 3] = concat es"
    by (intro exI [of _ "[[2, 1, 7], [2, 1, 3]]"]) simp
  then have ok using P c(2) by blast
  then show ?thesis using P r by (metis (full_types))
qed

end
