(* ===== verification/Ber.thy ===== *)
theory Ber
  imports Set_Of
begin

text \<open>
  The conversion of BER to DER (\<open>crypto/bytestring/ber.c\<close>): the walk that looks for what
  is not DER, the converter, which rewrites indefinite lengths and joins constructed strings,
  and the reader of implicitly tagged strings. The converter is run with fuel; the length of
  the input is always enough.
\<close>

section \<open>Finding BER\<close>

definition kMaxDepth :: nat where "kMaxDepth = 2048"

abbreviation "CBS_ASN1_BITSTRING \<equiv> 0x3 :: 32 word"

text \<open>The tags of the strings, in the order of the \<open>switch\<close>.\<close>

definition is_string_type :: "32 word \<Rightarrow> bool" where
  "is_string_type tag \<longleftrightarrow>
     tag AND NOT CBS_ASN1_CONSTRUCTED \<in>
       set [0x3, 0x4, 0xc, 0x12, 0x13, 0x14, 0x15, 0x16, 0x19, 0x1a, 0x1b, 0x1c, 0x1e]"

text \<open>What the element parser hands out is part of what it was given.\<close>

lemma CBS_get_bytes_out: "CBS_get_bytes c n = (Some out, c') \<Longrightarrow> cbs_len out = n \<and> n \<le> cbs_len c"
  by (auto simp: CBS_get_bytes_def cbs_get_def CBS_init_def split: if_splits)

lemma cbs_get_any_asn1_element_parts:
  assumes "cbs_get_any_asn1_element c ber = (Some (out, tag, hl), c')"
  shows "cbs_len out \<le> cbs_len c \<and> 0 < hl"
proof -
  obtain t h where t: "parse_asn1_tag c = (Some t, h)"
    using assms by (auto simp: cbs_get_any_asn1_element_def split: option.splits prod.splits)
  obtain b h2 where b: "CBS_get_u8 h = (Some b, h2)"
    using assms t by (auto simp: cbs_get_any_asn1_element_def split: option.splits prod.splits)
  have "cbs_len h2 < cbs_len c"
    using parse_asn1_tag_decreases [OF t] CBS_get_u8_decreases [OF b] by simp
  then have l: "0 < cbs_len c - cbs_len h2" by simp
  show ?thesis
    using assms l
    unfolding cbs_get_any_asn1_element_def t b prod.case option.case Let_def CBS_len_def
    by (auto split: if_splits option.splits prod.splits dest: CBS_get_bytes_out)
qed

lemma CBS_skip_len: "CBS_skip c n = (True, c') \<Longrightarrow> cbs_len c' = cbs_len c - n \<and> n \<le> cbs_len c"
  by (auto simp: CBS_skip_def cbs_get_def split: if_splits)

text \<open>The loop of \<open>cbs_find_ber\<close>; the second component is \<open>*ber_found\<close>.\<close>

function find_ber_loop :: "cbs \<Rightarrow> bool \<Rightarrow> nat \<Rightarrow> bool \<times> bool" where
  "find_ber_loop c ber_found depth =
     (if CBS_len c > 0
      then (case CBS_get_any_ber_asn1_element c of
              (None, _) \<Rightarrow> (False, ber_found)
            | (Some (contents, tag, header_len), c') \<Rightarrow>
                if CBS_len contents = header_len \<and> header_len > 0 \<and>
                   CBS_data contents ! (header_len - 1) = 0x80
                then (True, True)
                else if tag AND CBS_ASN1_CONSTRUCTED \<noteq> 0
                then (if is_string_type tag then (True, True)
                      else case CBS_skip contents header_len of
                        (False, _) \<Rightarrow> (False, ber_found)
                      | (True, body) \<Rightarrow>
                          if depth + 1 > kMaxDepth then (False, ber_found)
                          else (case find_ber_loop body False (depth + 1) of
                                  (False, found) \<Rightarrow> (False, found)
                                | (True, found) \<Rightarrow> find_ber_loop c' found depth))
                else find_ber_loop c' ber_found depth)
      else (True, ber_found))"
  by pat_completeness auto
termination
proof (relation "measure (\<lambda>(c, _, _). cbs_len c)", goal_cases)
  case (2 c ber_found depth r c' x contents y tag header_len b body)
  then have g: "cbs_get_any_asn1_element c True = (Some (contents, tag, header_len), c')"
    by (simp add: CBS_get_any_ber_asn1_element_def)
  have "CBS_skip contents header_len = (True, body)" using 2 by simp
  from CBS_skip_len [OF this] cbs_get_any_asn1_element_parts [OF g] show ?case
    using 2(1) by (auto simp: CBS_len_def)
qed (auto simp: CBS_get_any_ber_asn1_element_def dest: cbs_get_any_asn1_element_decreases [OF sym])

declare find_ber_loop.simps [simp del]

definition cbs_find_ber :: "cbs \<Rightarrow> bool \<Rightarrow> nat \<Rightarrow> bool \<times> bool" where
  "cbs_find_ber orig_in ber_found depth =
     (if depth > kMaxDepth then (False, ber_found)
      else find_ber_loop (CBS_init (CBS_data orig_in) (CBS_len orig_in)) False depth)"

section \<open>The converter\<close>

definition is_eoc :: "nat \<Rightarrow> cbs \<Rightarrow> bool" where
  "is_eoc header_len contents \<longleftrightarrow>
     header_len = 2 \<and> CBS_len contents = 2 \<and> c_memcmp (CBS_data contents) [0, 0] 2 = 0"

text \<open>
  \<open>out_contents\<close>, with the \<open>CBB\<close> it is in, and \<open>child_string_tag\<close>. A \<open>CBB\<close> is named
  by its depth.
\<close>

definition convert_open :: "heap_env \<Rightarrow> cbb \<Rightarrow> nat \<Rightarrow> 32 word \<Rightarrow> 32 word \<Rightarrow> (bool \<times> cbb) \<times> nat \<times> 32 word" where
  "convert_open env out d string_tag tag =
     (if string_tag \<noteq> 0
      then ((tag AND NOT CBS_ASN1_CONSTRUCTED = string_tag, out), d, string_tag)
      else if tag AND CBS_ASN1_CONSTRUCTED \<noteq> 0 \<and> is_string_type tag
      then (let out_tag = tag AND NOT CBS_ASN1_CONSTRUCTED
            in (CBB_add_asn1 env out d out_tag, Suc d, out_tag))
      else (CBB_add_asn1 env out d tag, Suc d, string_tag))"

text \<open>Success, the rest of \<open>in\<close>, and \<open>out\<close>; \<open>None\<close> if the fuel runs out.\<close>

fun cbs_convert_ber ::
  "nat \<Rightarrow> heap_env \<Rightarrow> cbs \<Rightarrow> cbb \<Rightarrow> nat \<Rightarrow> 32 word \<Rightarrow> bool \<Rightarrow> nat \<Rightarrow> (bool \<times> cbs \<times> cbb) option" where
  "cbs_convert_ber 0 env inp out d string_tag looking_for_eoc depth = None"
| "cbs_convert_ber (Suc n) env inp out d string_tag looking_for_eoc depth =
     (if depth > kMaxDepth then Some (False, inp, out)
      else if CBS_len inp > 0
      then (case CBS_get_any_ber_asn1_element inp of
              (None, inp1) \<Rightarrow> Some (False, inp1, out)
            | (Some (contents, tag, header_len), inp1) \<Rightarrow>
                if is_eoc header_len contents then Some (looking_for_eoc, inp1, out)
                else (case convert_open env out d string_tag tag of
                  ((False, out1), _) \<Rightarrow> Some (False, inp1, out1)
                | ((True, out1), d1, child_string_tag) \<Rightarrow>
                    if CBS_len contents = header_len \<and> header_len > 0 \<and>
                       CBS_data contents ! (header_len - 1) = 0x80
                    then (case cbs_convert_ber n env inp1 out1 d1 child_string_tag True (depth + 1) of
                            None \<Rightarrow> None
                          | Some (False, inp2, out2) \<Rightarrow> Some (False, inp2, out2)
                          | Some (True, inp2, out2) \<Rightarrow>
                              (case CBB_flush env out2 d of
                                 (False, out3) \<Rightarrow> Some (False, inp2, out3)
                               | (True, out3) \<Rightarrow>
                                   cbs_convert_ber n env inp2 out3 d string_tag looking_for_eoc depth))
                    else (case CBS_skip contents header_len of
                            (False, _) \<Rightarrow> Some (False, inp1, out1)
                          | (True, body) \<Rightarrow>
                              (case (if tag AND CBS_ASN1_CONSTRUCTED \<noteq> 0
                                     then map_option (\<lambda>(ok, _, out2). (ok, out2))
                                            (cbs_convert_ber n env body out1 d1 child_string_tag False (depth + 1))
                                     else Some (CBB_add_bytes env out1 d1 (take (CBS_len body) (CBS_data body)))) of
                                 None \<Rightarrow> None
                               | Some (False, out2) \<Rightarrow> Some (False, inp1, out2)
                               | Some (True, out2) \<Rightarrow>
                                   (case CBB_flush env out2 d of
                                      (False, out3) \<Rightarrow> Some (False, inp1, out3)
                                    | (True, out3) \<Rightarrow>
                                        cbs_convert_ber n env inp1 out3 d string_tag looking_for_eoc depth)))))
      else Some (\<not> looking_for_eoc, inp, out))"

declare cbs_convert_ber.simps [simp del]

text \<open>
  \<open>Some None\<close>: no conversion is needed. \<open>Some (Some (buf, len))\<close>: the converted
  bytes. \<open>None\<close>: failure. Then \<open>in\<close>.
\<close>

definition CBS_asn1_ber_to_der :: "heap_env \<Rightarrow> cbs \<Rightarrow> (block option \<times> nat) option option \<times> cbs" where
  "CBS_asn1_ber_to_der env inp =
     (case cbs_find_ber inp False 0 of
        (False, _) \<Rightarrow> (None, inp)
      | (True, conversion_needed) \<Rightarrow>
          if \<not> conversion_needed then (Some None, inp)
          else (case CBB_init env (CBS_len inp) of
                  (False, _) \<Rightarrow> (None, inp)
                | (True, c) \<Rightarrow>
                    (case cbs_convert_ber (Suc (CBS_len inp)) env inp c 0 0 False 0 of
                       None \<Rightarrow> (None, inp)
                     | Some (False, inp', _) \<Rightarrow> (None, inp')
                     | Some (True, inp', c1) \<Rightarrow> (map_option Some (fst (CBB_finish env c1 0 True)), inp'))))"

section \<open>Implicitly tagged strings\<close>

lemma CBS_get_asn1_decreases: "CBS_get_asn1 c t = (Some out, c') \<Longrightarrow> cbs_len c' < cbs_len c"
  by (auto simp: CBS_get_asn1_def cbs_get_asn1_def CBS_get_any_asn1_element_def
      split: option.splits prod.splits if_splits bool.splits dest: cbs_get_any_asn1_element_decreases)

function implicit_string_loop :: "heap_env \<Rightarrow> cbb \<Rightarrow> cbs \<Rightarrow> 32 word \<Rightarrow> bool \<times> cbb" where
  "implicit_string_loop env result child inner_tag =
     (if CBS_len child > 0
      then (case CBS_get_asn1 child inner_tag of
              (None, _) \<Rightarrow> (False, result)
            | (Some chunk, child') \<Rightarrow>
                (case CBB_add_bytes env result 0 (take (CBS_len chunk) (CBS_data chunk)) of
                   (False, r) \<Rightarrow> (False, r)
                 | (True, r) \<Rightarrow> implicit_string_loop env r child' inner_tag))
      else (True, result))"
  by pat_completeness auto
termination
  by (relation "measure (\<lambda>(_, _, child, _). cbs_len child)") (auto dest: CBS_get_asn1_decreases [OF sym])

declare implicit_string_loop.simps [simp del]

text \<open>\<open>out\<close> and \<open>*out_storage\<close>, and \<open>in\<close>.\<close>

definition CBS_get_asn1_implicit_string ::
  "heap_env \<Rightarrow> cbs \<Rightarrow> 32 word \<Rightarrow> 32 word \<Rightarrow> (cbs \<times> block option) option \<times> cbs" where
  "CBS_get_asn1_implicit_string env inp outer_tag inner_tag =
     (if CBS_peek_asn1_tag inp outer_tag
      then (case CBS_get_asn1 inp outer_tag of
              (r, inp') \<Rightarrow> (map_option (\<lambda>out. (out, None)) r, inp'))
      else (case CBB_init env (CBS_len inp) of
              (False, _) \<Rightarrow> (None, inp)
            | (True, c) \<Rightarrow>
                (case CBS_get_asn1 inp (outer_tag OR CBS_ASN1_CONSTRUCTED) of
                   (None, inp') \<Rightarrow> (None, inp')
                 | (Some child, inp') \<Rightarrow>
                     (case implicit_string_loop env c child inner_tag of
                        (False, _) \<Rightarrow> (None, inp')
                      | (True, c1) \<Rightarrow>
                          (case CBB_finish env c1 0 True of
                             (None, _) \<Rightarrow> (None, inp')
                           | (Some (data, len), _) \<Rightarrow>
                               (Some (CBS_init (case data of None \<Rightarrow> [] | Some m \<Rightarrow> blk_mem m) len, data),
                                inp'))))))"

section \<open>BER values\<close>

text \<open>
  A BER element: primitive, constructed with a definite length, or constructed with an
  indefinite length. \<open>enc\<close> is its encoding, \<open>content\<close> the string it is a part of, and
  \<open>to_der\<close> its DER form.
\<close>

datatype ber = Prim "32 word" "byte list" | Con "32 word" "ber list" | Ind "32 word" "ber list"

fun tag_of :: "ber \<Rightarrow> 32 word" where
  "tag_of (Prim t _) = t" | "tag_of (Con t _) = t" | "tag_of (Ind t _) = t"

fun enc :: "ber \<Rightarrow> byte list" where
  "enc (Prim t b) = der t b"
| "enc (Con t xs) = der t (concat (map enc xs))"
| "enc (Ind t xs) = der_tag t @ [0x80] @ concat (map enc xs) @ [0, 0]"

fun content :: "ber \<Rightarrow> byte list" where
  "content (Prim t b) = b"
| "content (Con t xs) = concat (map content xs)"
| "content (Ind t xs) = concat (map content xs)"

fun to_der :: "ber \<Rightarrow> byte list" where
  "to_der (Prim t b) = der t b"
| "to_der (Con t xs) =
     (if is_string_type t then der (t AND NOT CBS_ASN1_CONSTRUCTED) (concat (map content xs))
      else der t (concat (map to_der xs)))"
| "to_der (Ind t xs) =
     (if is_string_type t then der (t AND NOT CBS_ASN1_CONSTRUCTED) (concat (map content xs))
      else der t (concat (map to_der xs)))"

text \<open>
  \<open>wf_ber\<close>: the constructed bits are right, the parts of a constructed string have its tag,
  there is no end-of-contents element, and the lengths fit the length octets. \<open>shallow\<close>: the
  nesting below a depth stays within \<open>kMaxDepth\<close>.
\<close>

definition wf_con :: "32 word \<Rightarrow> ber list \<Rightarrow> bool" where
  "wf_con t xs \<longleftrightarrow> t AND CBS_ASN1_CONSTRUCTED \<noteq> 0 \<and>
     (is_string_type t \<longrightarrow>
        (\<forall>x\<in>set xs. tag_of x AND NOT CBS_ASN1_CONSTRUCTED = t AND NOT CBS_ASN1_CONSTRUCTED)) \<and>
     length (concat (map content xs)) \<le> 0xfffffffe \<and> length (concat (map to_der xs)) \<le> 0xfffffffe"

fun wf_ber :: "ber \<Rightarrow> bool" where
  "wf_ber (Prim t b) \<longleftrightarrow> t AND CBS_ASN1_CONSTRUCTED = 0 \<and> length b \<le> 0xfffffffe \<and> \<not> (t = 0 \<and> b = [])"
| "wf_ber (Con t xs) \<longleftrightarrow> wf_con t xs \<and> length (concat (map enc xs)) < 2 ^ 32 \<and> (\<forall>x\<in>set xs. wf_ber x)"
| "wf_ber (Ind t xs) \<longleftrightarrow> wf_con t xs \<and> (\<forall>x\<in>set xs. wf_ber x)"

fun shallow :: "nat \<Rightarrow> ber \<Rightarrow> bool" where
  "shallow depth (Prim t b) \<longleftrightarrow> True"
| "shallow depth (Con t xs) \<longleftrightarrow> depth + 1 \<le> kMaxDepth \<and> (\<forall>x\<in>set xs. shallow (depth + 1) x)"
| "shallow depth (Ind t xs) \<longleftrightarrow> depth + 1 \<le> kMaxDepth \<and> (\<forall>x\<in>set xs. shallow (depth + 1) x)"

text \<open>What a forest becomes in a context where string parts with a tag are joined.\<close>

definition out_of :: "32 word \<Rightarrow> ber \<Rightarrow> byte list" where
  "out_of st x = (if st = 0 then to_der x else content x)"

definition fits :: "32 word \<Rightarrow> ber \<Rightarrow> bool" where
  "fits st x \<longleftrightarrow> wf_ber x \<and> (st \<noteq> 0 \<longrightarrow> tag_of x AND NOT CBS_ASN1_CONSTRUCTED = st)"

section \<open>Reading BER elements\<close>

lemma der_eoc: "der t b = [0, 0] \<Longrightarrow> t = 0 \<and> b = []"
proof -
  assume a: "der t b = [0, 0]"
  let ?s = "CBS_init [0, 0] 2"
  have s: "cbs_ok ?s" "cbs_len ?s < 2 ^ 63" "cbs_view ?s = [0, 0]"
    by (simp_all add: cbs_ok_def cbs_view_def CBS_init_def)
  have z: "der 0 [] = [0, 0]" by code_simp
  have l: "length b < 2 ^ 32"
    using arg_cong [OF a, of length] by (simp add: der_def)
  have "CBS_get_any_asn1_element ?s = (Some (CBS_init (cbs_mem ?s) (length (der t b)), t,
      length (der_header t (length b))), cbs_adv (length (der t b)) ?s)"
    unfolding CBS_element_iff [OF s(1,2)] using a l s(3) by (intro exI [of _ b] exI [of _ "[]"]) simp
  moreover have "CBS_get_any_asn1_element ?s = (Some (CBS_init (cbs_mem ?s) (length (der 0 [])), 0,
      length (der_header 0 0)), cbs_adv (length (der 0 [])) ?s)"
    unfolding CBS_element_iff [OF s(1,2)] using z s(3) by (intro exI [of _ "[]"]) simp
  ultimately have "t = 0" by simp
  moreover have "b = []"
    using arg_cong [OF a, of length] arg_cong [OF z, of length] \<open>t = 0\<close>
    by (simp add: der_def der_header_def der_len_def split: if_splits)
  ultimately show ?thesis by blast
qed

lemma der_header_ne: "der_header t n \<noteq> []" "der_tag t \<noteq> []" "0 < length (der_header t n)"
  by (simp_all add: der_header_def der_tag_def Let_def)

lemma last_header: "last (der_header t 0) = 0"
  by (simp add: der_header_def der_len_def)

text \<open>A definite length.\<close>

lemma get_ber_der:
  assumes "cbs_ok s" "cbs_len s < 2 ^ 63" "cbs_view s = der t b @ rest" "length b < 2 ^ 32"
  defines "x \<equiv> CBS_init (cbs_mem s) (length (der t b))" and "hl \<equiv> length (der_header t (length b))"
  shows "CBS_get_any_ber_asn1_element s = (Some (x, t, hl), cbs_adv (length (der t b)) s)"
    "is_eoc hl x \<longleftrightarrow> t = 0 \<and> b = []"
    "\<not> (CBS_len x = hl \<and> hl > 0 \<and> CBS_data x ! (hl - 1) = 0x80)"
    "\<exists>body. CBS_skip x hl = (True, body) \<and> cbs_ok body \<and> cbs_view body = b \<and> cbs_len body = length b \<and>
       take (CBS_len body) (CBS_data body) = b"
proof -
  have "element_of s x t hl (cbs_adv (length (der t b)) s)"
    using assms(3,4) unfolding element_of_def x_def hl_def by blast
  then show "CBS_get_any_ber_asn1_element s = (Some (x, t, hl), cbs_adv (length (der t b)) s)"
    unfolding CBS_get_any_ber_asn1_element_def by (rule CBS_get_any_asn1_element_complete [OF _ assms(1,2)])
  have ld: "length (der t b) \<le> cbs_len s"
    using arg_cong [OF assms(3), of length] assms(1) by simp
  have m: "take (length (der t b)) (cbs_mem s) = der t b"
    using cbs_mem_view [OF ld] assms(3) by simp
  have lm: "length (der t b) \<le> length (cbs_mem s)" using ld assms(1) by (simp add: cbs_ok_def)
  have len: "length (der t b) = hl + length b" by (simp add: der_def hl_def)
  have "c_memcmp (cbs_mem s) [0, 0] 2 = 0 \<longleftrightarrow> take 2 (cbs_mem s) = [0, 0]" if "2 \<le> length (cbs_mem s)"
    using c_memcmp_sign(1) [of 2 "cbs_mem s" "[0, 0]"] that by simp
  then have e: "is_eoc hl x \<longleftrightarrow> hl = 2 \<and> length (der t b) = 2 \<and> der t b = [0, 0]"
    using m lm by (auto simp: is_eoc_def x_def CBS_init_def CBS_len_def CBS_data_def numeral_2_eq_2)
  have "der 0 [] = [0, 0]" "length (der_header 0 0) = 2" by code_simp+
  then show "is_eoc hl x \<longleftrightarrow> t = 0 \<and> b = []" using e der_eoc [of t b] by (auto simp: hl_def)
  show "\<not> (CBS_len x = hl \<and> hl > 0 \<and> CBS_data x ! (hl - 1) = 0x80)"
  proof
    assume a: "CBS_len x = hl \<and> hl > 0 \<and> CBS_data x ! (hl - 1) = 0x80"
    then have b: "b = []" using len by (simp add: x_def CBS_init_def CBS_len_def)
    have "cbs_mem s ! (hl - 1) = der t b ! (hl - 1)"
      using m a len by (metis diff_less less_add_one less_le_trans nth_take le_add1 zero_less_one)
    also have "\<dots> = last (der_header t 0)" using b a
      by (simp add: der_def last_conv_nth der_header_ne hl_def)
    finally show False using a last_header by (simp add: x_def CBS_init_def CBS_data_def)
  qed
  let ?body = "cbs_adv hl x"
  note v = cbs_view_body [OF assms(3,1), folded x_def hl_def]
  have "CBS_skip x hl = (True, ?body)" using len by (simp add: CBS_skip_view x_def CBS_init_def)
  moreover have "take (CBS_len ?body) (CBS_data ?body) = b"
    using v(1) by (simp add: cbs_view_def CBS_len_def CBS_data_def)
  ultimately show "\<exists>body. CBS_skip x hl = (True, body) \<and> cbs_ok body \<and> cbs_view body = b \<and>
      cbs_len body = length b \<and> take (CBS_len body) (CBS_data body) = b"
    using v by blast
qed

text \<open>An indefinite length.\<close>

lemma get_ber_ind:
  assumes "cbs_ok s" "cbs_len s < 2 ^ 63" "cbs_view s = der_tag t @ 0x80 # rest" "t AND CBS_ASN1_CONSTRUCTED \<noteq> 0"
  defines "hl \<equiv> length (der_tag t) + 1"
  defines "x \<equiv> CBS_init (cbs_mem s) hl"
  shows "CBS_get_any_ber_asn1_element s = (Some (x, t, hl), cbs_adv hl s)"
    "\<not> is_eoc hl x" "CBS_len x = hl \<and> hl > 0 \<and> CBS_data x ! (hl - 1) = 0x80"
proof -
  have p: "parse_asn1_tag s = (Some t, cbs_adv (length (der_tag t)) s)"
    using assms(1,3) by (intro parse_asn1_tag_complete) simp_all
  have len: "cbs_len s = hl + length rest"
    using arg_cong [OF assms(3), of length] assms(1) by (simp add: hl_def)
  have d: "drop (length (der_tag t)) (cbs_view s) = 0x80 # rest" using assms(3) by simp
  have "length (der_tag t) < cbs_len s" using len by (simp add: hl_def)
  from element_indefinite [OF p assms(1) d refl this, of True]
  show "CBS_get_any_ber_asn1_element s = (Some (x, t, hl), cbs_adv hl s)"
    using assms(4) len by (simp add: CBS_get_any_ber_asn1_element_def element_get_def x_def hl_def)
  have "hl \<le> cbs_len s" using len by simp
  then have m: "take hl (cbs_mem s) = der_tag t @ [0x80]"
    using cbs_mem_view [of hl s] assms(3) by (simp add: hl_def)
  have "cbs_mem s ! (hl - 1) = take hl (cbs_mem s) ! (hl - 1)" by (simp add: hl_def)
  then have n: "cbs_mem s ! (hl - 1) = 0x80" unfolding m by (simp add: hl_def)
  then show "CBS_len x = hl \<and> hl > 0 \<and> CBS_data x ! (hl - 1) = 0x80"
    by (simp add: x_def CBS_init_def CBS_len_def CBS_data_def) (simp add: hl_def)
  show "\<not> is_eoc hl x"
  proof
    assume a: "is_eoc hl x"
    then have "hl = 2" "c_memcmp (cbs_mem s) [0, 0] 2 = 0"
      by (simp_all add: is_eoc_def x_def CBS_init_def CBS_data_def)
    moreover have "2 \<le> length (cbs_mem s)" using \<open>hl = 2\<close> len assms(1) by (simp add: cbs_ok_def)
    ultimately have "take 2 (cbs_mem s) = [0, 0]"
      using c_memcmp_sign(1) [of 2 "cbs_mem s" "[0, 0]"] by simp
    then have "cbs_mem s ! 1 = 0" by (metis nth_Cons_0 nth_Cons_Suc nth_take One_nat_def one_less_numeral_iff semiring_norm(76))
    then show False using n \<open>hl = 2\<close> by simp
  qed
qed

section \<open>Writing one element\<close>

text \<open>
  Opening the output of an element, writing into it and flushing, as every branch of the
  converter does.
\<close>

definition emit ::
  "heap_env \<Rightarrow> cbb \<Rightarrow> nat \<Rightarrow> 32 word \<Rightarrow> 32 word \<Rightarrow> (cbb \<Rightarrow> nat \<Rightarrow> 32 word \<Rightarrow> bool \<times> cbb) \<Rightarrow> bool \<times> cbb" where
  "emit env out d st t f =
     (case convert_open env out d st t of
        ((False, out1), _) \<Rightarrow> (False, out1)
      | ((True, out1), d1, st1) \<Rightarrow>
          (case f out1 d1 st1 of
             (False, out2) \<Rightarrow> (False, out2)
           | (True, out2) \<Rightarrow> CBB_flush env out2 d))"

definition child_st :: "32 word \<Rightarrow> 32 word \<Rightarrow> 32 word" where
  "child_st st t =
     (if st \<noteq> 0 then st
      else if t AND CBS_ASN1_CONSTRUCTED \<noteq> 0 \<and> is_string_type t then t AND NOT CBS_ASN1_CONSTRUCTED else 0)"

definition emitted :: "32 word \<Rightarrow> 32 word \<Rightarrow> byte list \<Rightarrow> byte list" where
  "emitted st t bs =
     (if st \<noteq> 0 then bs
      else der (if t AND CBS_ASN1_CONSTRUCTED \<noteq> 0 \<and> is_string_type t
                then t AND NOT CBS_ASN1_CONSTRUCTED else t) bs)"

lemma emit_ext:
  assumes "cbb_ok out" "d = length (cbb_children out)" "env_bounded env" "length bs \<le> 0xfffffffe"
    "st \<noteq> 0 \<Longrightarrow> t AND NOT CBS_ASN1_CONSTRUCTED = st"
    "\<And>o1 d1. cbb_ok o1 \<Longrightarrow> d1 = length (cbb_children o1) \<Longrightarrow> extends env o1 bs (f o1 d1 (child_st st t))"
  shows "extends env out (emitted st t bs) (emit env out d st t f)"
proof (cases "st = 0")
  case False
  then have o: "convert_open env out d st t = ((True, out), d, st)" "child_st st t = st"
    using assms(5) by (simp_all add: convert_open_def child_st_def)
  obtain ok o2 where r: "f out d st = (ok, o2)" by force
  have e: "extends env out bs (ok, o2)" using assms(6) [OF assms(1,2)] o(2) r by simp
  then have "ok \<Longrightarrow> CBB_flush env o2 d = (True, o2)"
    using assms(2) by (intro CBB_flush_nothing) (simp_all add: extends_def)
  then show ?thesis using e o r False by (cases ok) (simp_all add: emit_def emitted_def)
next
  case True
  define t' where "t' = (if t AND CBS_ASN1_CONSTRUCTED \<noteq> 0 \<and> is_string_type t
    then t AND NOT CBS_ASN1_CONSTRUCTED else t)"
  have "emit env out d st t f = asn1_child env out d t' (\<lambda>o1. f o1 (Suc d) (child_st st t))"
    using True by (simp add: emit_def asn1_child_def convert_open_def child_st_def t'_def Let_def split: bool.splits prod.splits)
  moreover have "extends env out (der t' bs) (asn1_child env out d t' (\<lambda>o1. f o1 (Suc d) (child_st st t)))"
    using assms(6) by (intro asn1_child_ext assms(1-4)) simp
  ultimately show ?thesis using True by (simp add: emitted_def t'_def)
qed

section \<open>The converter on a forest\<close>

text \<open>What the recursive calls contribute.\<close>

definition run_convert ::
  "nat \<Rightarrow> heap_env \<Rightarrow> cbs \<Rightarrow> bool \<Rightarrow> nat \<Rightarrow> cbb \<Rightarrow> nat \<Rightarrow> 32 word \<Rightarrow> bool \<times> cbb" where
  "run_convert n env inp eoc depth out d st =
     (case cbs_convert_ber n env inp out d st eoc depth of
        None \<Rightarrow> (False, out)
      | Some (ok, _, out') \<Rightarrow> (ok, out'))"

definition converts ::
  "nat \<Rightarrow> heap_env \<Rightarrow> cbs \<Rightarrow> cbb \<Rightarrow> nat \<Rightarrow> 32 word \<Rightarrow> bool \<Rightarrow> nat \<Rightarrow> byte list \<Rightarrow> nat \<Rightarrow> bool" where
  "converts n env inp out d st eoc depth bs k \<longleftrightarrow>
     (\<exists>ok inp' out'. cbs_convert_ber n env inp out d st eoc depth = Some (ok, inp', out') \<and>
        extends env out bs (ok, out') \<and> (ok \<longrightarrow> inp' = cbs_adv k inp))"

lemma converts_run: "converts n env inp out d st eoc depth bs k \<Longrightarrow> extends env out bs (run_convert n env inp eoc depth out d st)"
  by (auto simp: converts_def run_convert_def)

lemma converts_Nil:
  assumes "depth \<le> kMaxDepth" "cbs_ok s" "cbs_len s < 2 ^ 63" "cbs_view s = (if eoc then [0, 0] @ rest else [])" "cbb_ok out"
  shows "converts (Suc n) env s out d st eoc depth [] (if eoc then 2 else 0)"
proof (cases eoc)
  case True
  have z: "der 0 [] = [0, 0]" "length (der_header 0 0) = 2" "length (der 0 []) = 2" by code_simp+
  have v: "cbs_view s = der 0 [] @ rest" using assms(4) True z(1) by simp
  then have "CBS_len s > 0" using assms(2) z(1) by (simp add: CBS_len_def cbs_len_view del: length_cbs_view)
  with get_ber_der(1,2) [OF assms(2,3) v] assms(1) True z(2,3) extends_refl [OF assms(5), of env] show ?thesis
    by (auto simp: converts_def cbs_convert_ber.simps)
next
  case False
  then have "CBS_len s = 0" using assms(2,4) cbs_view_Nil by simp
  then show ?thesis using False assms(1) extends_refl [OF assms(5)]
    by (simp add: converts_def cbs_convert_ber.simps ex_bool_eq)
qed

lemma convert_open_ok:
  assumes "convert_open env out d st t = ((True, o1), d1, st1)" "cbb_ok out" "d = length (cbb_children out)"
    "env_bounded env"
  shows "cbb_ok o1 \<and> d1 = length (cbb_children o1) \<and> st1 = child_st st t"
proof (cases "st = 0")
  case True
  define t' where "t' = (if t AND CBS_ASN1_CONSTRUCTED \<noteq> 0 \<and> is_string_type t
    then t AND NOT CBS_ASN1_CONSTRUCTED else t)"
  have "CBB_add_asn1 env out d t' = (True, o1)" "d1 = Suc d" "st1 = child_st st t"
    using assms(1) True by (auto simp: convert_open_def child_st_def t'_def Let_def split: if_splits)
  with CBB_add_asn1_open [OF assms(2-4), of t' o1] show ?thesis using assms(3) by simp
qed (use assms in \<open>auto simp: convert_open_def child_st_def split: if_splits\<close>)

text \<open>An element that is emitted by \<open>f\<close>, and then the rest.\<close>

lemma extends_fail: "extends env c bs (False, c') \<Longrightarrow> extends env c (bs @ cs) (False, c')"
  by (simp add: extends_def add.assoc)

lemma converts_emit:
  assumes "extends env out bs (emit env out d st t f)" "cbb_ok out" "d = length (cbb_children out)"
    "cbs_convert_ber (Suc n) env s out d st eoc depth =
       (case emit env out d st t f of
          (False, o3) \<Rightarrow> Some (False, s1, o3)
        | (True, o3) \<Rightarrow> cbs_convert_ber n env (cbs_adv i s) o3 d st eoc depth)"
    "\<And>o1. cbb_ok o1 \<Longrightarrow> d = length (cbb_children o1) \<Longrightarrow>
       converts n env (cbs_adv i s) o1 d st eoc depth cs k"
  shows "converts (Suc n) env s out d st eoc depth (bs @ cs) (i + k)"
proof -
  obtain ok o3 where r: "emit env out d st t f = (ok, o3)" by force
  show ?thesis
  proof (cases ok)
    case False
    then have "extends env out (bs @ cs) (False, o3)" using assms(1) r by (intro extends_fail) simp
    then show ?thesis using assms(4) r False by (simp add: converts_def ex_bool_eq)
  next
    case True
    then have o3: "cbb_ok o3" "cbb_children o3 = cbb_children out" using assms(1) r by (simp_all add: extends_def)
    then have "d = length (cbb_children o3)" using assms(3) by simp
    from assms(5) [OF o3(1) this] obtain ok' s' o4 where
      c: "cbs_convert_ber n env (cbs_adv i s) o3 d st eoc depth = Some (ok', s', o4)"
        "extends env o3 cs (ok', o4)" "ok' \<longrightarrow> s' = cbs_adv k (cbs_adv i s)"
      unfolding converts_def by blast
    have "extends env out (bs @ cs) (ok', o4)"
      using extends_seq [OF assms(1) [unfolded r], of cs "(ok', o4)"] c(2) True by simp
    then show ?thesis using assms(4) r True c by (simp add: converts_def)
  qed
qed

text \<open>One element with a definite length, then the rest.\<close>

lemma converts_der:
  assumes "depth \<le> kMaxDepth" "cbs_ok s" "cbs_len s < 2 ^ 63" "cbs_view s = der t b @ rest" "length b < 2 ^ 32"
    "\<not> (t = 0 \<and> b = [])" "cbb_ok out" "d = length (cbb_children out)" "env_bounded env" "length bs \<le> 0xfffffffe"
    "st \<noteq> 0 \<Longrightarrow> t AND NOT CBS_ASN1_CONSTRUCTED = st"
    "t AND CBS_ASN1_CONSTRUCTED = 0 \<Longrightarrow> bs = b"
    "\<And>body o1 d1. t AND CBS_ASN1_CONSTRUCTED \<noteq> 0 \<Longrightarrow> cbs_ok body \<Longrightarrow> cbs_view body = b \<Longrightarrow>
       cbs_len body = length b \<Longrightarrow> cbb_ok o1 \<Longrightarrow> d1 = length (cbb_children o1) \<Longrightarrow>
       converts n env body o1 d1 (child_st st t) False (depth + 1) bs (length b)"
    "\<And>o1. cbb_ok o1 \<Longrightarrow> d = length (cbb_children o1) \<Longrightarrow>
       converts n env (cbs_adv (length (der t b)) s) o1 d st eoc depth cs k"
  shows "converts (Suc n) env s out d st eoc depth (emitted st t bs @ cs) (length (der t b) + k)"
proof -
  let ?i = "length (der t b)"
  define x where "x = CBS_init (cbs_mem s) ?i"
  define hl where "hl = length (der_header t (length b))"
  note g = get_ber_der [OF assms(2-5), folded x_def hl_def]
  obtain body where body: "CBS_skip x hl = (True, body)" "cbs_ok body" "cbs_view body = b" "cbs_len body = length b"
    "take (CBS_len body) (CBS_data body) = b" using g(4) by blast
  define f where "f o1 d1 st1 = (if t AND CBS_ASN1_CONSTRUCTED \<noteq> 0
    then run_convert n env body False (depth + 1) o1 d1 st1 else CBB_add_bytes env o1 d1 b)" for o1 d1 st1
  have f: "extends env o1 bs (f o1 d1 (child_st st t))" if "cbb_ok o1" "d1 = length (cbb_children o1)" for o1 d1
    using converts_run [OF assms(13) [OF _ body(2-4) that]] CBB_add_bytes_ext [OF that assms(9), of b] assms(10,12)
    by (auto simp: f_def)
  have "CBS_len s > 0"
    using assms(2,4) der_header_ne by (simp add: CBS_len_def cbs_len_view der_def del: length_cbs_view)
  then have step: "cbs_convert_ber (Suc n) env s out d st eoc depth =
       (case emit env out d st t f of
          (False, o3) \<Rightarrow> Some (False, cbs_adv ?i s, o3)
        | (True, o3) \<Rightarrow> cbs_convert_ber n env (cbs_adv ?i s) o3 d st eoc depth)"
  proof -
    obtain ok1 o1 d1 st1 where co: "convert_open env out d st t = ((ok1, o1), d1, st1)" by (metis prod.exhaust)
    show ?thesis
    proof (cases ok1)
      case False
      then show ?thesis using co g(1,2) assms(1,6) \<open>CBS_len s > 0\<close>
        by (simp add: cbs_convert_ber.simps emit_def)
    next
      case True
      note o1 = convert_open_ok [OF co [unfolded True [THEN eqTrueI]] assms(7-9)]
      define mid where "mid = (if t AND CBS_ASN1_CONSTRUCTED \<noteq> 0
          then map_option (\<lambda>(ok, _, out2). (ok, out2)) (cbs_convert_ber n env body o1 d1 st1 False (depth + 1))
          else Some (CBB_add_bytes env o1 d1 (take (CBS_len body) (CBS_data body))))"
      have mid: "mid = Some (f o1 d1 st1)"
      proof (cases "t AND CBS_ASN1_CONSTRUCTED \<noteq> 0")
        case True
        then have "converts n env body o1 d1 st1 False (depth + 1) bs (length b)"
          using assms(13) [OF _ body(2-4), of o1 d1] o1 by simp
        then show ?thesis using True by (auto simp: mid_def f_def converts_def run_convert_def)
      qed (simp add: mid_def f_def body(5))
      have "cbs_convert_ber (Suc n) env s out d st eoc depth =
        (case mid of None \<Rightarrow> None
         | Some (False, out2) \<Rightarrow> Some (False, cbs_adv ?i s, out2)
         | Some (True, out2) \<Rightarrow> (case CBB_flush env out2 d of
              (False, out3) \<Rightarrow> Some (False, cbs_adv ?i s, out3)
            | (True, out3) \<Rightarrow> cbs_convert_ber n env (cbs_adv ?i s) out3 d st eoc depth))"
      proof -
        have e: "(depth > kMaxDepth) = False" "(CBS_len s > 0) = True" "is_eoc hl x = False"
          "(CBS_len x = hl \<and> hl > 0 \<and> CBS_data x ! (hl - 1) = 0x80) = False"
          using assms(1,6) \<open>CBS_len s > 0\<close> g(2,3) by auto
        show ?thesis
          by (simp only: cbs_convert_ber.simps(2) g(1) co True body(1) e mid_def option.case prod.case
              bool.case if_True if_False)
      qed
      then show ?thesis unfolding mid using co True
        by (simp add: emit_def split: prod.splits bool.splits)
    qed
  qed
  have "extends env out (emitted st t bs) (emit env out d st t f)"
    using assms(7-11) f by (intro emit_ext) blast+
  then show ?thesis by (rule converts_emit [OF _ assms(7,8) step assms(14)])
qed

text \<open>One element with an indefinite length, then the rest.\<close>

lemma converts_ind:
  assumes "depth \<le> kMaxDepth" "cbs_ok s" "cbs_len s < 2 ^ 63" "cbs_view s = der_tag t @ 0x80 # rest"
    "t AND CBS_ASN1_CONSTRUCTED \<noteq> 0" "cbb_ok out" "d = length (cbb_children out)" "env_bounded env"
    "length bs \<le> 0xfffffffe" "st \<noteq> 0 \<Longrightarrow> t AND NOT CBS_ASN1_CONSTRUCTED = st"
    "\<And>o1 d1. cbb_ok o1 \<Longrightarrow> d1 = length (cbb_children o1) \<Longrightarrow>
       converts n env (cbs_adv (length (der_tag t) + 1) s) o1 d1 (child_st st t) True (depth + 1) bs j"
    "\<And>o1. cbb_ok o1 \<Longrightarrow> d = length (cbb_children o1) \<Longrightarrow>
       converts n env (cbs_adv (length (der_tag t) + 1 + j) s) o1 d st eoc depth cs k"
  shows "converts (Suc n) env s out d st eoc depth (emitted st t bs @ cs) (length (der_tag t) + 1 + j + k)"
proof -
  define hl where "hl = length (der_tag t) + 1"
  define x where "x = CBS_init (cbs_mem s) hl"
  note g = get_ber_ind [OF assms(2-5), folded hl_def, folded x_def]
  define f where "f = run_convert n env (cbs_adv hl s) True (depth + 1)"
  have c: "converts n env (cbs_adv hl s) o1 d1 (child_st st t) True (depth + 1) bs j"
    if "cbb_ok o1" "d1 = length (cbb_children o1)" for o1 d1 using assms(11) [OF that] by (simp add: hl_def)
  have f: "extends env o1 bs (f o1 d1 (child_st st t))" if "cbb_ok o1" "d1 = length (cbb_children o1)" for o1 d1
    using converts_run [OF c [OF that]] by (simp add: f_def)
  have "CBS_len s > 0" using assms(2,4) by (simp add: CBS_len_def cbs_len_view del: length_cbs_view)
  then have e: "(depth > kMaxDepth) = False" "(CBS_len s > 0) = True" "is_eoc hl x = False"
    "(CBS_len x = hl \<and> hl > 0 \<and> CBS_data x ! (hl - 1) = 0x80) = True"
    using assms(1) g(2,3) by auto
  obtain s1 where step: "cbs_convert_ber (Suc n) env s out d st eoc depth =
       (case emit env out d st t f of
          (False, o3) \<Rightarrow> Some (False, s1, o3)
        | (True, o3) \<Rightarrow> cbs_convert_ber n env (cbs_adv (hl + j) s) o3 d st eoc depth)"
  proof -
    obtain ok1 o1 d1 st1 where co: "convert_open env out d st t = ((ok1, o1), d1, st1)" by (metis prod.exhaust)
    show ?thesis
    proof (cases ok1)
      case False
      have "cbs_convert_ber (Suc n) env s out d st eoc depth = Some (False, cbs_adv hl s, o1)"
        by (simp only: cbs_convert_ber.simps(2) g(1) co False e option.case prod.case bool.case if_True if_False)
      then show ?thesis using that co False by (simp add: emit_def)
    next
      case True
      note o1 = convert_open_ok [OF co [unfolded True [THEN eqTrueI]] assms(6-8)]
      obtain ok2 s2 o2 where r: "cbs_convert_ber n env (cbs_adv hl s) o1 d1 st1 True (depth + 1) = Some (ok2, s2, o2)"
        "ok2 \<longrightarrow> s2 = cbs_adv j (cbs_adv hl s)"
        using c [of o1 d1] o1 by (auto simp: converts_def)
      have "cbs_convert_ber (Suc n) env s out d st eoc depth =
        (case Some (ok2, s2, o2) of None \<Rightarrow> None
         | Some (False, inp2, out2) \<Rightarrow> Some (False, inp2, out2)
         | Some (True, inp2, out2) \<Rightarrow> (case CBB_flush env out2 d of
              (False, out3) \<Rightarrow> Some (False, inp2, out3)
            | (True, out3) \<Rightarrow> cbs_convert_ber n env inp2 out3 d st eoc depth))"
        by (simp only: cbs_convert_ber.simps(2) g(1) co True e r(1) option.case prod.case bool.case if_True if_False)
      then show ?thesis using that [of s2] co True r o1
        by (auto simp: emit_def f_def run_convert_def split: prod.splits bool.splits)
    qed
  qed
  have "extends env out (emitted st t bs) (emit env out d st t f)"
    using assms(6-10) f by (intro emit_ext) blast+
  then show ?thesis
    using converts_emit [OF _ assms(6,7) step assms(12) [folded hl_def]] by (simp add: hl_def)
qed

lemma not_con_simps [simp]:
  "t AND NOT CBS_ASN1_CONSTRUCTED AND NOT CBS_ASN1_CONSTRUCTED = t AND NOT CBS_ASN1_CONSTRUCTED"
  by (simp add: and.assoc)

lemma is_string_type_not_con: "is_string_type (t AND NOT CBS_ASN1_CONSTRUCTED) = is_string_type t"
  by (simp add: is_string_type_def)

lemma string_not_zero: "is_string_type t \<Longrightarrow> t AND NOT CBS_ASN1_CONSTRUCTED \<noteq> 0"
  by (auto simp: is_string_type_def)

lemma child_st_cases:
  assumes "st \<noteq> 0 \<longrightarrow> is_string_type st \<and> t AND NOT CBS_ASN1_CONSTRUCTED = st" "wf_con t xs" "\<forall>x\<in>set xs. wf_ber x"
  defines "cst \<equiv> child_st st t"
  shows "cst \<noteq> 0 \<longrightarrow> is_string_type cst" "\<forall>x\<in>set xs. fits cst x"
    "length (concat (map (out_of cst) xs)) \<le> 0xfffffffe"
    "emitted st t (concat (map (out_of cst) xs)) = out_of st (Con t xs)"
    "emitted st t (concat (map (out_of cst) xs)) = out_of st (Ind t xs)"
proof -
  have str: "st \<noteq> 0 \<Longrightarrow> is_string_type t"
    using assms(1) is_string_type_not_con [of t] by metis
  have c: "cst = (if st \<noteq> 0 then st else if is_string_type t then t AND NOT CBS_ASN1_CONSTRUCTED else 0)"
    using assms(2) by (simp add: cst_def child_st_def wf_con_def)
  show "cst \<noteq> 0 \<longrightarrow> is_string_type cst"
    using c assms(1) is_string_type_not_con [of t] by (simp split: if_splits)
  have z: "cst = 0 \<longleftrightarrow> \<not> is_string_type t" using c str string_not_zero by auto
  show "\<forall>x\<in>set xs. fits cst x"
    using assms(1-3) c str by (auto simp: fits_def wf_con_def)
  show "length (concat (map (out_of cst) xs)) \<le> 0xfffffffe"
    using assms(2) unfolding wf_con_def out_of_def by (cases "cst = 0") (simp_all add: z)
  have "concat (map (out_of cst) xs) = (if is_string_type t then concat (map content xs) else concat (map to_der xs))"
  proof -
    have "out_of cst = (if cst = 0 then to_der else content)" by (simp add: out_of_def fun_eq_iff)
    then show ?thesis using z by simp
  qed
  then show "emitted st t (concat (map (out_of cst) xs)) = out_of st (Con t xs)"
    "emitted st t (concat (map (out_of cst) xs)) = out_of st (Ind t xs)"
    using assms(2) str by (auto simp: emitted_def out_of_def wf_con_def)
qed

lemma converts_forest:
  assumes "\<forall>x\<in>set xs. fits st x" "\<forall>x\<in>set xs. shallow depth x" "depth \<le> kMaxDepth"
    "st \<noteq> 0 \<longrightarrow> is_string_type st" "cbs_ok s" "cbs_len s < 2 ^ 63" "cbs_len s < n"
    "cbs_view s = concat (map enc xs) @ (if eoc then [0, 0] @ rest else [])"
    "cbb_ok out" "d = length (cbb_children out)" "env_bounded env"
  shows "converts n env s out d st eoc depth (concat (map (out_of st) xs))
    (length (concat (map enc xs)) + (if eoc then 2 else 0))"
  using assms
proof (induction n arbitrary: xs st depth s eoc rest out d)
  case (Suc n)
  show ?case
  proof (cases xs)
    case Nil
    then show ?thesis using Suc.prems converts_Nil [of depth s eoc rest out n env d st] by simp
  next
    case (Cons x ys)
    let ?rest = "concat (map enc ys) @ (if eoc then [0, 0] @ rest else [])"
    let ?k = "length (concat (map enc ys)) + (if eoc then 2 else 0)"
    have v: "cbs_view s = enc x @ ?rest" using Suc.prems(8) Cons by simp
    have x: "fits st x" "shallow depth x" using Suc.prems(1,2) Cons by simp_all
    have st: "st \<noteq> 0 \<longrightarrow> is_string_type st \<and> tag_of x AND NOT CBS_ASN1_CONSTRUCTED = st"
      using x(1) Suc.prems(4) by (simp add: fits_def)
    have l: "cbs_len s = length (enc x) + length ?rest"
      using arg_cong [OF v, of length] Suc.prems(5) by simp
    have le: "0 < length (enc x)" using der_header_ne by (cases x) (simp_all add: der_def)
    have more: "converts n env (cbs_adv (length (enc x)) s) o1 d st eoc depth (concat (map (out_of st) ys)) ?k"
      if "cbb_ok o1" "d = length (cbb_children o1)" "0 < length (enc x)" for o1
    proof (rule Suc.IH)
      have "cbs_len (cbs_adv (length (enc x)) s) < cbs_len s" using l that(3) by (simp del: length_cbs_view)
      then show "cbs_len (cbs_adv (length (enc x)) s) < 2 ^ 63" "cbs_len (cbs_adv (length (enc x)) s) < n"
        using Suc.prems(6,7) by linarith+
    qed (use Suc.prems Cons v that in simp_all)
    show ?thesis
    proof (cases x)
      case (Prim t b)
      have p: "t AND CBS_ASN1_CONSTRUCTED = 0" "length b \<le> 0xfffffffe" "\<not> (t = 0 \<and> b = [])"
        using x(1) Prim by (auto simp: fits_def)
      have e: "emitted st t b = out_of st x" using Prim p(1) by (simp add: emitted_def out_of_def)
      have "converts (Suc n) env s out d st eoc depth (emitted st t b @ concat (map (out_of st) ys))
          (length (der t b) + ?k)"
      proof (rule converts_der [where rest = ?rest])
        show "cbs_view s = der t b @ ?rest" using v Prim by simp
        show "converts n env (cbs_adv (length (der t b)) s) o1 d st eoc depth (concat (map (out_of st) ys)) ?k"
          if "cbb_ok o1" "d = length (cbb_children o1)" for o1 using more [OF that] le Prim by simp
      qed (use Suc.prems p st Prim in auto)
      then show ?thesis using e Cons Prim by (simp add: add.assoc)
    next
      case (Con t zs)
      let ?b = "concat (map enc zs)"
      have w: "wf_con t zs" "length ?b < 2 ^ 32" "\<forall>z\<in>set zs. wf_ber z" and sh: "depth + 1 \<le> kMaxDepth"
        "\<forall>z\<in>set zs. shallow (depth + 1) z"
        using x Con by (auto simp: fits_def)
      have st': "st \<noteq> 0 \<longrightarrow> is_string_type st \<and> t AND NOT CBS_ASN1_CONSTRUCTED = st" using st Con by simp
      note c = child_st_cases [OF st' w(1,3)]
      have t: "t AND CBS_ASN1_CONSTRUCTED \<noteq> 0" using w(1) by (simp add: wf_con_def)
      have lb: "length ?b < cbs_len s" using l Con der_header_ne(3) [of t "length ?b"] by (simp add: der_def)
      have inner: "converts n env body o1 d1 (child_st st t) False (depth + 1)
          (concat (map (out_of (child_st st t)) zs)) (length ?b)"
        if "cbs_ok body" "cbs_view body = ?b" "cbs_len body = length ?b" "cbb_ok o1" "d1 = length (cbb_children o1)"
        for body o1 d1
        using Suc.IH [of zs "child_st st t" "depth + 1" body False "[]" o1 d1] c(1,2) sh that Suc.prems(6,7,11) lb
        by simp
      have "converts (Suc n) env s out d st eoc depth
          (emitted st t (concat (map (out_of (child_st st t)) zs)) @ concat (map (out_of st) ys)) (length (der t ?b) + ?k)"
      proof (rule converts_der [where rest = ?rest])
        show "cbs_view s = der t ?b @ ?rest" using v Con by simp
        show "converts n env (cbs_adv (length (der t ?b)) s) o1 d st eoc depth (concat (map (out_of st) ys)) ?k"
          if "cbb_ok o1" "d = length (cbb_children o1)" for o1 using more [OF that] le Con by simp
        show "\<not> (t = 0 \<and> ?b = [])" using t by auto
      qed (use Suc.prems w(2) t st' inner c(3) in blast)+
      then show ?thesis using c(4) Cons Con by (simp add: add.assoc)
    next
      case (Ind t zs)
      let ?b = "concat (map enc zs)"
      have w: "wf_con t zs" "\<forall>z\<in>set zs. wf_ber z" and sh: "depth + 1 \<le> kMaxDepth"
        "\<forall>z\<in>set zs. shallow (depth + 1) z"
        using x Ind by (auto simp: fits_def)
      have st': "st \<noteq> 0 \<longrightarrow> is_string_type st \<and> t AND NOT CBS_ASN1_CONSTRUCTED = st" using st Ind by simp
      note c = child_st_cases [OF st' w]
      have t: "t AND CBS_ASN1_CONSTRUCTED \<noteq> 0" using w(1) by (simp add: wf_con_def)
      have v': "cbs_view s = der_tag t @ 0x80 # (?b @ [0, 0] @ ?rest)" using v Ind by simp
      have li: "length (enc x) = length (der_tag t) + 1 + (length ?b + 2)" using Ind by simp
      have inner: "converts n env (cbs_adv (length (der_tag t) + 1) s) o1 d1 (child_st st t) True (depth + 1)
          (concat (map (out_of (child_st st t)) zs)) (length ?b + 2)"
        if "cbb_ok o1" "d1 = length (cbb_children o1)" for o1 d1
        using Suc.IH [of zs "child_st st t" "depth + 1" "cbs_adv (length (der_tag t) + 1) s" True ?rest o1 d1]
          c(1,2) sh that Suc.prems(5-7,11) l li v' by simp
      have "converts (Suc n) env s out d st eoc depth
          (emitted st t (concat (map (out_of (child_st st t)) zs)) @ concat (map (out_of st) ys))
          (length (der_tag t) + 1 + (length ?b + 2) + ?k)"
      proof (rule converts_ind [OF _ _ _ v' t])
        show "converts n env (cbs_adv (length (der_tag t) + 1 + (length ?b + 2)) s) o1 d st eoc depth
            (concat (map (out_of st) ys)) ?k"
          if "cbb_ok o1" "d = length (cbb_children o1)" for o1 using more [OF that le] li by simp
      qed (use Suc.prems st' inner c(3) in blast)+
      then show ?thesis using c(5) Cons Ind li by (simp add: add.assoc)
    qed
  qed
qed simp

section \<open>The walk that looks for BER\<close>

text \<open>DER values; the DER form of a value; and what the walk reports for a forest.\<close>

fun is_der :: "ber \<Rightarrow> bool" where
  "is_der (Prim t b) \<longleftrightarrow> True"
| "is_der (Con t xs) \<longleftrightarrow> \<not> is_string_type t \<and> (\<forall>x\<in>set xs. is_der x)"
| "is_der (Ind t xs) \<longleftrightarrow> False"

fun norm :: "ber \<Rightarrow> ber" where
  "norm (Prim t b) = Prim t b"
| "norm (Con t xs) =
     (if is_string_type t then Prim (t AND NOT CBS_ASN1_CONSTRUCTED) (concat (map content xs))
      else Con t (map norm xs))"
| "norm (Ind t xs) =
     (if is_string_type t then Prim (t AND NOT CBS_ASN1_CONSTRUCTED) (concat (map content xs))
      else Con t (map norm xs))"

fun walk :: "bool \<Rightarrow> ber list \<Rightarrow> bool" where
  "walk f [] = f"
| "walk f (Prim t b # ys) = walk f ys"
| "walk f (Ind t zs # ys) = True"
| "walk f (Con t zs # ys) = (if is_string_type t then True else walk (walk False zs) ys)"

text \<open>
  What the walk notices: an element that is BER itself, because its length is indefinite or it is a
  constructed string; and, of everything that is nested, what it notices in the contents of the last
  constructed element. (What it found in the contents of an earlier one is forgotten.)
\<close>

fun ber_itself :: "ber \<Rightarrow> bool" where
  "ber_itself (Prim t b) \<longleftrightarrow> False"
| "ber_itself (Con t xs) \<longleftrightarrow> is_string_type t"
| "ber_itself (Ind t xs) \<longleftrightarrow> True"

fun parts :: "ber \<Rightarrow> ber list" where
  "parts (Prim t b) = []" | "parts (Con t xs) = xs" | "parts (Ind t xs) = xs"

definition constructed :: "ber list \<Rightarrow> ber list" where
  "constructed xs = filter (\<lambda>x. case x of Prim _ _ \<Rightarrow> False | _ \<Rightarrow> True) xs"

lemma size_parts_last:
  "constructed xs \<noteq> [] \<Longrightarrow> size_list size (parts (last (constructed xs))) < size_list size xs"
proof -
  assume "constructed xs \<noteq> []"
  then have m: "last (constructed xs) \<in> set (constructed xs)" by simp
  then have "size (last (constructed xs)) \<le> size_list size xs" by (intro size_list_estimation') (auto simp: constructed_def)
  moreover have "size_list size (parts x) < size x" if "x \<in> set (constructed xs)" for x
    by (cases x) (use that in \<open>simp_all add: constructed_def\<close>)
  ultimately show ?thesis using m by (meson less_le_trans)
qed

function noticed :: "ber list \<Rightarrow> bool" where
  "noticed xs \<longleftrightarrow> (\<exists>x\<in>set xs. ber_itself x) \<or>
     (if constructed xs = [] then False else noticed (parts (last (constructed xs))))"
  by pat_completeness auto
termination by (relation "measure (size_list size)") (simp_all add: size_parts_last)

declare noticed.simps [simp del]

lemma walk_split:
  "walk f xs \<longleftrightarrow> (\<exists>x\<in>set xs. ber_itself x) \<or> (if constructed xs = [] then f else walk False (parts (last (constructed xs))))"
proof (induction xs arbitrary: f)
  case (Cons x xs)
  show ?case
  proof (cases x)
    case (Con t zs)
    then show ?thesis using Cons.IH [of "walk False zs"] by (auto simp: constructed_def)
  qed (use Cons.IH [of f] in \<open>auto simp: constructed_def\<close>)
qed (simp add: constructed_def)

lemma walk_noticed: "walk False xs \<longleftrightarrow> noticed xs"
proof (induction xs rule: noticed.induct)
  case (1 xs)
  then show ?case by (subst walk_split, subst noticed.simps) auto
qed

lemma walk_der_False: "\<forall>x\<in>set xs. is_der x \<Longrightarrow> \<not> walk False xs"
  by (induction False xs rule: walk.induct) auto

lemma norm_enc: "enc (norm x) = to_der x"
  by (induction x) (simp_all add: comp_def cong: map_cong)

lemma norm_der: "is_der (norm x)"
  by (induction x) auto

lemma norm_shallow: "shallow depth x \<Longrightarrow> shallow depth (norm x)"
  by (induction depth x rule: shallow.induct) auto

lemma norm_content: "content (norm x) = content x"
  by (induction x) (simp_all add: comp_def cong: map_cong)

lemma norm_to_der: "to_der (norm x) = to_der x"
  by (induction x) (simp_all add: comp_def is_string_type_not_con cong: map_cong)

lemma norm_wf: "wf_ber x \<Longrightarrow> wf_ber (norm x)"
proof (induction x)
  case (Prim t b)
  then show ?case by simp
next
  case (Con t xs)
  have "wf_con t xs \<Longrightarrow> \<not> is_string_type t \<Longrightarrow> wf_con t (map norm xs) \<and> length (concat (map (enc \<circ> norm) xs)) < 2 ^ 32"
    by (simp add: wf_con_def comp_def norm_enc norm_content norm_to_der)
  then show ?case using Con string_not_zero [of t] by (auto simp: wf_con_def and.assoc)
next
  case (Ind t xs)
  have "wf_con t xs \<Longrightarrow> \<not> is_string_type t \<Longrightarrow> wf_con t (map norm xs) \<and> length (concat (map (enc \<circ> norm) xs)) < 2 ^ 32"
    by (simp add: wf_con_def comp_def norm_enc norm_content norm_to_der)
  then show ?case using Ind string_not_zero [of t] by (auto simp: wf_con_def and.assoc)
qed

lemma find_ber_walk:
  assumes "\<forall>x\<in>set xs. wf_ber x" "\<forall>x\<in>set xs. shallow depth x" "cbs_ok s" "cbs_len s < 2 ^ 63"
    "cbs_view s = concat (map enc xs)"
  shows "find_ber_loop s f depth = (True, walk f xs)"
  using assms
proof (induction f xs arbitrary: s depth rule: walk.induct)
  case (1 f)
  then have "CBS_len s = 0" using cbs_view_Nil by simp
  then show ?case by (simp add: find_ber_loop.simps)
next
  case (2 f t b ys)
  have v: "cbs_view s = der t b @ concat (map enc ys)" using 2(6) by simp
  have w: "t AND CBS_ASN1_CONSTRUCTED = 0" "length b < 2 ^ 32" using 2(2) by auto
  note g = get_ber_der [OF 2(4,5) v w(2)]
  have l: "CBS_len s > 0"
    using 2(4) v der_header_ne by (simp add: CBS_len_def cbs_len_view der_def del: length_cbs_view)
  have "cbs_len (cbs_adv (length (der t b)) s) < 2 ^ 63" using 2(5) by (simp add: less_imp_diff_less)
  then have "find_ber_loop (cbs_adv (length (der t b)) s) f depth = (True, walk f ys)"
    using 2 v by (intro 2(1)) simp_all
  then show ?case using l g(1,3) w(1) by (auto simp: find_ber_loop.simps [of s])
next
  case (3 f t zs ys)
  have v: "cbs_view s = der_tag t @ 0x80 # (concat (map enc zs) @ [0, 0] @ concat (map enc ys))" using 3(5) by simp
  have w: "t AND CBS_ASN1_CONSTRUCTED \<noteq> 0" using 3(1) by (simp add: wf_con_def)
  note g = get_ber_ind [OF 3(3,4) v w]
  have "CBS_len s > 0" using 3(3) v by (simp add: CBS_len_def cbs_len_view del: length_cbs_view)
  then show ?case using g(1,3) by (simp add: find_ber_loop.simps [of s])
next
  case (4 f t zs ys)
  let ?b = "concat (map enc zs)"
  have v: "cbs_view s = der t ?b @ concat (map enc ys)" using 4(7) by simp
  have w: "t AND CBS_ASN1_CONSTRUCTED \<noteq> 0" "length ?b < 2 ^ 32" "\<forall>z\<in>set zs. wf_ber z"
    "depth + 1 \<le> kMaxDepth" "\<forall>z\<in>set zs. shallow (depth + 1) z"
    using 4(3,4) by (auto simp: wf_con_def)
  note g = get_ber_der [OF 4(5,6) v w(2)]
  have l: "CBS_len s > 0"
    using 4(5) v der_header_ne by (simp add: CBS_len_def cbs_len_view der_def del: length_cbs_view)
  show ?case
  proof (cases "is_string_type t")
    case True
    then show ?thesis using l g(1,3) w(1) by (simp add: find_ber_loop.simps [of s])
  next
    case False
    obtain body where body: "CBS_skip (CBS_init (cbs_mem s) (length (der t ?b))) (length (der_header t (length ?b))) = (True, body)"
      "cbs_ok body" "cbs_view body = ?b" "cbs_len body = length ?b" using g(4) by blast
    have "cbs_len body < 2 ^ 63" using body(4) w(2) by simp
    then have "find_ber_loop body False (depth + 1) = (True, walk False zs)"
      using body w by (intro 4(1) [OF False]) simp_all
    moreover have "cbs_len (cbs_adv (length (der t ?b)) s) < 2 ^ 63" using 4(6) by (simp add: less_imp_diff_less)
    then have "find_ber_loop (cbs_adv (length (der t ?b)) s) (walk False zs) depth = (True, walk (walk False zs) ys)"
      using 4 v by (intro 4(2) [OF False]) simp_all
    moreover have "(CBS_len (CBS_init (cbs_mem s) (length (der t ?b))) = length (der_header t (length ?b)) \<and>
        length (der_header t (length ?b)) > 0 \<and>
        CBS_data (CBS_init (cbs_mem s) (length (der t ?b))) ! (length (der_header t (length ?b)) - 1) = 0x80) = False"
      using g(3) by simp
    moreover have "(depth + 1 > kMaxDepth) = False" "(CBS_len s > 0) = True" "(t AND CBS_ASN1_CONSTRUCTED \<noteq> 0) = True"
      "is_string_type t = False" using w(1,4) l False by auto
    ultimately show ?thesis
      by (simp only: find_ber_loop.simps [of s] g(1) body(1) prod.case option.case bool.case if_True if_False walk.simps)
  qed
qed

section \<open>The conversion\<close>

definition ber_input :: "cbs \<Rightarrow> ber list \<Rightarrow> bool" where
  "ber_input s xs \<longleftrightarrow> cbs_ok s \<and> cbs_len s < 2 ^ 57 \<and> cbs_view s = concat (map enc xs) \<and>
     (\<forall>x\<in>set xs. wf_ber x \<and> shallow 0 x)"

lemma cbs_find_ber_input: "ber_input s xs \<Longrightarrow> cbs_find_ber s False 0 = (True, walk False xs)"
proof -
  assume a: "ber_input s xs"
  have "CBS_init (CBS_data s) (CBS_len s) = s" by (simp add: CBS_init_def CBS_data_def CBS_len_def)
  then show ?thesis using a find_ber_walk [of xs 0 s False] by (simp add: ber_input_def cbs_find_ber_def)
qed

lemma out_of_zero: "out_of 0 = to_der"
  by (simp add: out_of_def fun_eq_iff)

lemma ber_to_der_run:
  assumes "ber_input s xs" "env_bounded env" "walk False xs"
  shows "(CBS_asn1_ber_to_der env s = (Some (Some (buf, len)), s') \<longrightarrow>
      (case buf of None \<Rightarrow> [] | Some m \<Rightarrow> take len (blk_mem m)) = concat (map to_der xs) \<and>
      len \<le> length (case buf of None \<Rightarrow> [] | Some m \<Rightarrow> blk_mem m) \<and> cbs_len s' = 0)"
    "fst (CBS_asn1_ber_to_der env s) \<noteq> Some None"
    "(\<forall>k<2 ^ 62. malloc_ok env k) \<Longrightarrow> length (concat (map to_der xs)) < 2 ^ 58 \<Longrightarrow> fst (CBS_asn1_ber_to_der env s) \<noteq> None"
proof -
  have s: "cbs_ok s" "cbs_len s < 2 ^ 57" "cbs_view s = concat (map enc xs)"
    "\<forall>x\<in>set xs. fits 0 x" "\<forall>x\<in>set xs. shallow 0 x"
    using assms(1) by (auto simp: ber_input_def fits_def)
  have conv: "converts (Suc (CBS_len s)) env s c 0 0 False 0 (concat (map to_der xs)) (length (concat (map enc xs)))"
    if "cbb_ok c" "cbb_children c = []" for c
    using converts_forest [of xs 0 0 s "Suc (CBS_len s)" False "[]" c 0 env] s that assms(2)
    by (simp add: kMaxDepth_def CBS_len_def out_of_zero)
  have cap: "CBS_len s + 8 < 2 ^ 64" using s(2) by (simp add: CBS_len_def)
  have unf: "CBS_asn1_ber_to_der env s = (case CBB_init env (CBS_len s) of
                  (False, _) \<Rightarrow> (None, s)
                | (True, c) \<Rightarrow>
                    (case cbs_convert_ber (Suc (CBS_len s)) env s c 0 0 False 0 of
                       None \<Rightarrow> (None, s)
                     | Some (False, inp', _) \<Rightarrow> (None, inp')
                     | Some (True, inp', c1) \<Rightarrow> (map_option Some (fst (CBB_finish env c1 0 True)), inp')))"
    using cbs_find_ber_input [OF assms(1)] assms(3) by (simp add: CBS_asn1_ber_to_der_def)
  show "fst (CBS_asn1_ber_to_der env s) \<noteq> Some None"
    unfolding unf by (auto split: prod.splits bool.splits option.splits)
  obtain ok c where init: "CBB_init env (CBS_len s) = (ok, c)" by force
  have c: "cbb_ok c" "cbb_children c = []" "cbb_out c = []" if ok
    using CBB_init_ok [OF _ assms(2) cap, of c] init that by simp_all
  obtain ok1 s1 c1 where r: "cbs_convert_ber (Suc (CBS_len s)) env s c 0 0 False 0 = Some (ok1, s1, c1)"
    "extends env c (concat (map to_der xs)) (ok1, c1)" "ok1 \<longrightarrow> s1 = cbs_adv (length (concat (map enc xs))) s" if ok
    using conv [OF c(1,2)] unfolding converts_def by blast
  have c1: "cbb_ok c1" "cbb_children c1 = []" "cbb_out c1 = concat (map to_der xs)" if ok ok1
    using r(2) [OF that(1)] c [OF that(1)] that(2) by (simp_all add: extends_def)
  have len: "length (concat (map enc xs)) = cbs_len s" using arg_cong [OF s(3), of length] s(1) by simp
  show "CBS_asn1_ber_to_der env s = (Some (Some (buf, len)), s') \<longrightarrow>
      (case buf of None \<Rightarrow> [] | Some m \<Rightarrow> take len (blk_mem m)) = concat (map to_der xs) \<and>
      len \<le> length (case buf of None \<Rightarrow> [] | Some m \<Rightarrow> blk_mem m) \<and> cbs_len s' = 0"
  proof
    assume a: "CBS_asn1_ber_to_der env s = (Some (Some (buf, len)), s')"
    then have ok unfolding unf init by (cases ok) simp_all
    moreover have ok1 using a r(1) [OF \<open>ok\<close>] \<open>ok\<close> unfolding unf init by (cases ok1) simp_all
    ultimately obtain c2 where f: "CBB_finish env c1 0 True = (Some (buf, len), c2)" and s': "s' = s1"
      using a r(1) unfolding unf init by (cases "CBB_finish env c1 0 True") auto
    from CBB_finish_out [OF f c1(1,2) [OF \<open>ok\<close> \<open>ok1\<close>]] c1(3) [OF \<open>ok\<close> \<open>ok1\<close>] r(3) [OF \<open>ok\<close>] s' \<open>ok1\<close> len
    show "(case buf of None \<Rightarrow> [] | Some m \<Rightarrow> take len (blk_mem m)) = concat (map to_der xs) \<and>
      len \<le> length (case buf of None \<Rightarrow> [] | Some m \<Rightarrow> blk_mem m) \<and> cbs_len s' = 0" by simp
  qed
  show "fst (CBS_asn1_ber_to_der env s) \<noteq> None"
    if m: "\<forall>k<2 ^ 62. malloc_ok env k" "length (concat (map to_der xs)) < 2 ^ 58"
  proof -
    have "ok \<and> cbb_roomy env c (length (concat (map to_der xs)) + 8)"
      using init m s(2) by (auto simp: CBB_init_def cbb_init_def OPENSSL_malloc_def size_wrap_id Let_def
          cbb_roomy_def roomy_def CBS_len_def split: if_splits)
    then have o: ok ok1 using extends_room [OF r(2)] by auto
    have "fst (CBB_finish env c1 0 True) \<noteq> None"
      using c1(1,2) [OF o] by (auto simp: CBB_finish_def CBB_flush_nothing cbb_ok_def)
    then show ?thesis unfolding unf init using o r(1) by simp
  qed
qed

text \<open>
  C5. \<open>CBS_asn1_ber_to_der\<close> on the encoding of BER values, nested at most \<open>kMaxDepth\<close>
  deep. When the walk notices BER, the input is converted: with memory the call succeeds, and then it has used
  up the input and its output is the DER encoding of the same values, with indefinite lengths made definite
  and the parts of constructed strings joined at every level. When the walk notices nothing, the call
  reports that nothing has to be done and leaves the input alone. DER is never converted, and BER is whenever
  one of the elements themselves has an indefinite length or is a constructed string.
\<close>

theorem CBS_asn1_ber_to_der_correct:
  assumes "ber_input s xs" "env_bounded env" "CBS_asn1_ber_to_der env s = (r, s')"
  shows "(if noticed xs
     then r \<noteq> Some None \<and>
       (\<forall>buf len. r = Some (Some (buf, len)) \<longrightarrow>
          (case buf of None \<Rightarrow> [] | Some m \<Rightarrow> take len (blk_mem m)) = concat (map to_der xs) \<and> cbs_len s' = 0) \<and>
       ((\<forall>k<2 ^ 62. malloc_ok env k) \<and> length (concat (map to_der xs)) < 2 ^ 58 \<longrightarrow> r \<noteq> None)
     else r = Some None \<and> s' = s) \<and>
    ((\<forall>x\<in>set xs. is_der x) \<longrightarrow> \<not> noticed xs) \<and> ((\<exists>x\<in>set xs. ber_itself x) \<longrightarrow> noticed xs)"
proof (intro conjI impI)
  show "if noticed xs
     then r \<noteq> Some None \<and>
       (\<forall>buf len. r = Some (Some (buf, len)) \<longrightarrow>
          (case buf of None \<Rightarrow> [] | Some m \<Rightarrow> take len (blk_mem m)) = concat (map to_der xs) \<and> cbs_len s' = 0) \<and>
       ((\<forall>k<2 ^ 62. malloc_ok env k) \<and> length (concat (map to_der xs)) < 2 ^ 58 \<longrightarrow> r \<noteq> None)
     else r = Some None \<and> s' = s"
  proof (cases "noticed xs")
    case True
    then have w: "walk False xs" by (simp add: walk_noticed)
    show ?thesis
      using True ber_to_der_run(1) [OF assms(1,2) w, of _ _ s'] ber_to_der_run(2,3) [OF assms(1,2) w] assms(3) by auto
  next
    case False
    then show ?thesis
      using cbs_find_ber_input [OF assms(1)] assms(3) by (simp add: CBS_asn1_ber_to_der_def walk_noticed)
  qed
  show "\<not> noticed xs" if "\<forall>x\<in>set xs. is_der x" using walk_der_False [OF that] by (simp add: walk_noticed)
  show "noticed xs" if "\<exists>x\<in>set xs. ber_itself x" using that by (simp add: noticed.simps)
qed

text \<open>A constructed octet string in two parts, with an indefinite length.\<close>

lemma ber_sample:
  "ber_input (CBS_init [0x24, 0x80, 4, 1, 7, 4, 1, 8, 0, 0] 10) [Ind 0x20000004 [Prim 4 [7], Prim 4 [8]]]"
  "concat (map to_der [Ind 0x20000004 [Prim 4 [7], Prim 4 [8]]]) = [4, 2, 7, 8]"
proof -
  have e: "concat (map enc [Ind 0x20000004 [Prim 4 [7], Prim 4 [8]]]) = [0x24, 0x80, 4, 1, 7, 4, 1, 8, 0, 0]"
    by code_simp
  show d: "concat (map to_der [Ind 0x20000004 [Prim 4 [7], Prim 4 [8]]]) = [4, 2, 7, 8]" by code_simp
  have t: "is_string_type 0x20000004" "(0x20000004 :: 32 word) AND CBS_ASN1_CONSTRUCTED \<noteq> 0"
    "(0x20000004 :: 32 word) AND NOT CBS_ASN1_CONSTRUCTED = 4" "(4 :: 32 word) AND CBS_ASN1_CONSTRUCTED = 0"
    "(4 :: 32 word) AND NOT CBS_ASN1_CONSTRUCTED = 4" "length (der 4 [7]) = 3" "length (der 4 [8]) = 3"
    by code_simp+
  show "ber_input (CBS_init [0x24, 0x80, 4, 1, 7, 4, 1, 8, 0, 0] 10) [Ind 0x20000004 [Prim 4 [7], Prim 4 [8]]]"
    unfolding ber_input_def e
    by (simp add: cbs_ok_def cbs_view_def CBS_init_def wf_con_def kMaxDepth_def t)
qed

lemma CBS_asn1_ber_to_der_correct_witness:
  "\<exists>buf len s'. CBS_asn1_ber_to_der ample (CBS_init [0x24, 0x80, 4, 1, 7, 4, 1, 8, 0, 0] 10) =
      (Some (Some (buf, len)), s') \<and>
    (case buf of None \<Rightarrow> [] | Some m \<Rightarrow> take len (blk_mem m)) = [4, 2, 7, 8] \<and> cbs_len s' = 0"
proof -
  let ?s = "CBS_init [0x24, 0x80, 4, 1, 7, 4, 1, 8, 0, 0] 10" and ?xs = "[Ind 0x20000004 [Prim 4 [7], Prim 4 [8]]]"
  obtain r s' where r: "CBS_asn1_ber_to_der ample ?s = (r, s')" by force
  note c = CBS_asn1_ber_to_der_correct [OF ber_sample(1) ample_simps(1) r, unfolded ber_sample(2)]
  have n: "noticed ?xs" by (simp add: noticed.simps)
  then have "r \<noteq> Some None" "r \<noteq> None" using c by simp_all
  then obtain buf len where "r = Some (Some (buf, len))" by (metis option.exhaust surj_pair)
  then show ?thesis using c n r by auto
qed

text \<open>
  What \<open>CBS_asn1_ber_to_der\<close> produces needs no second conversion: given its own output
  as input, it reports that nothing has to be done.
\<close>

theorem CBS_asn1_ber_to_der_idempotent:
  assumes "ber_input s xs" "env_bounded env" "CBS_asn1_ber_to_der env s = (Some (Some (Some m, len)), s')" "len < 2 ^ 57"
  shows "CBS_asn1_ber_to_der env (CBS_init (blk_mem m) len) = (Some None, CBS_init (blk_mem m) len)"
proof -
  let ?t = "CBS_init (blk_mem m) len"
  have w: "walk False xs" using cbs_find_ber_input [OF assms(1)] assms(3)
    by (auto simp: CBS_asn1_ber_to_der_def split: if_splits)
  have out: "take len (blk_mem m) = concat (map to_der xs)" "len \<le> length (blk_mem m)"
    using ber_to_der_run(1) [OF assms(1,2) w, of "Some m" len s'] assms(3) by simp_all
  have "ber_input ?t (map norm xs)"
    using assms(1,4) out norm_wf norm_shallow
    by (auto simp: ber_input_def cbs_ok_def cbs_view_def CBS_init_def comp_def norm_enc)
  moreover have "\<not> walk False (map norm xs)" by (intro walk_der_False) (auto simp: norm_der)
  ultimately show ?thesis using cbs_find_ber_input by (simp add: CBS_asn1_ber_to_der_def)
qed

lemma CBS_asn1_ber_to_der_idempotent_witness:
  "\<exists>m len s'. CBS_asn1_ber_to_der ample (CBS_init [0x24, 0x80, 4, 1, 7, 4, 1, 8, 0, 0] 10) =
      (Some (Some (Some m, len)), s') \<and>
    CBS_asn1_ber_to_der ample (CBS_init (blk_mem m) len) = (Some None, CBS_init (blk_mem m) len)"
proof -
  let ?s = "CBS_init [0x24, 0x80, 4, 1, 7, 4, 1, 8, 0, 0] 10" and ?xs = "[Ind 0x20000004 [Prim 4 [7], Prim 4 [8]]]"
  have w: "walk False ?xs" by simp
  note run = ber_to_der_run [OF ber_sample(1) ample_simps(1) w, unfolded ber_sample(2)]
  obtain buf len s' where r: "CBS_asn1_ber_to_der ample ?s = (Some (Some (buf, len)), s')"
  proof -
    have "fst (CBS_asn1_ber_to_der ample ?s) \<noteq> None" using run(3) by simp
    then show ?thesis using that run(2) by (metis option.exhaust surj_pair fst_conv)
  qed
  then have o: "(case buf of None \<Rightarrow> [] | Some m \<Rightarrow> take len (blk_mem m)) = [4, 2, 7, 8]"
    "len \<le> length (case buf of None \<Rightarrow> [] | Some m \<Rightarrow> blk_mem m)" using run(1) by simp_all
  then obtain m where m: "buf = Some m" by (cases buf) auto
  have "length (take len (blk_mem m)) = 4" using o(1) m by simp
  then have "len < 2 ^ 57" using o(2) m by simp
  then show ?thesis using CBS_asn1_ber_to_der_idempotent [OF ber_sample(1) ample_simps(1)] r m by blast
qed

text \<open>
  C35. The walk loses what it found: \<open>cbs_find_ber\<close> goes on to the next element after a
  recursive call has set \<open>*ber_found\<close>, and the call for a later constructed element clears it. When the
  last of the elements is constructed and DER, no BER that is nested in the elements before it, however
  many and of whatever kind, is reported, and \<open>CBS_asn1_ber_to_der\<close> hands the input back as if it were DER.
\<close>

theorem cbs_find_ber_forgets:
  assumes "ber_input s (xs @ [Con t zs])" "\<forall>x\<in>set xs. \<not> ber_itself x" "is_der (Con t zs)"
  shows "cbs_find_ber s False 0 = (True, False) \<and> CBS_asn1_ber_to_der env s = (Some None, s)"
proof -
  have "noticed zs \<longleftrightarrow> False" using assms(3) walk_der_False [of zs] by (simp add: walk_noticed)
  then have "\<not> walk False (xs @ [Con t zs])"
    using assms(2,3) by (subst walk_noticed, subst noticed.simps) (simp add: constructed_def)
  then show ?thesis using cbs_find_ber_input [OF assms(1)] by (simp add: CBS_asn1_ber_to_der_def)
qed

text \<open>A constructed octet string in a SEQUENCE, with another SEQUENCE behind it.\<close>

lemma cbs_find_ber_forgets_witness:
  "cbs_view (CBS_init [0x30, 2, 0x24, 0, 0x30, 0] 6) = concat (map enc [Con 0x20000010 [Con 0x20000004 []], Con 0x20000010 []]) \<and>
   \<not> is_der (Con 0x20000010 [Con 0x20000004 []]) \<and>
   CBS_asn1_ber_to_der ample (CBS_init [0x30, 2, 0x24, 0, 0x30, 0] 6) =
     (Some None, CBS_init [0x30, 2, 0x24, 0, 0x30, 0] 6)"
proof -
  let ?xs = "[Con 0x20000010 [Con 0x20000004 []]]" and ?s = "CBS_init [0x30, 2, 0x24, 0, 0x30, 0] 6"
  have e: "concat (map enc (?xs @ [Con 0x20000010 []])) = [0x30, 2, 0x24, 0, 0x30, 0]" by code_simp
  have t: "is_string_type 0x20000004" "\<not> is_string_type 0x20000010"
    "(0x20000004 :: 32 word) AND CBS_ASN1_CONSTRUCTED \<noteq> 0" "(0x20000010 :: 32 word) AND CBS_ASN1_CONSTRUCTED \<noteq> 0"
    "length (der 0x20000004 []) = 2" "length (der 4 []) = 2" "(0x20000004 :: 32 word) AND NOT CBS_ASN1_CONSTRUCTED = 4"
    by code_simp+
  have i: "ber_input ?s (?xs @ [Con 0x20000010 []])"
    unfolding ber_input_def e
    by (simp add: cbs_ok_def cbs_view_def CBS_init_def wf_con_def kMaxDepth_def t)
  have "CBS_asn1_ber_to_der ample ?s = (Some None, ?s)"
    using cbs_find_ber_forgets [OF i, of ample] t by simp
  moreover have "cbs_view ?s = concat (map enc [Con 0x20000010 [Con 0x20000004 []], Con 0x20000010 []])"
    using i by (simp only: ber_input_def append_Cons append_Nil)
  moreover have "\<not> is_der (Con 0x20000010 [Con 0x20000004 []])" using t(1) by simp
  ultimately show ?thesis by blast
qed

section \<open>Implicitly tagged strings\<close>

lemma peek_tag:
  assumes "cbs_ok s" "cbs_view s = der t b @ rest"
  shows "CBS_peek_asn1_tag s u \<longleftrightarrow> u = t"
proof -
  have "parse_asn1_tag s = (Some t, cbs_adv (length (der_tag t)) s)"
    using assms by (intro parse_asn1_tag_complete) (simp_all add: der_def der_header_def)
  moreover have "\<not> CBS_len s < 1"
    using assms der_header_ne by (simp add: CBS_len_def cbs_len_view der_def del: length_cbs_view)
  ultimately show ?thesis by (simp add: CBS_peek_asn1_tag_def)
qed

lemma implicit_string_loop_ext:
  assumes "\<forall>b\<in>set bs. length b < 2 ^ 32" "cbs_ok s" "cbs_len s < 2 ^ 63" "cbs_view s = concat (map (der t) bs)"
    "cbb_ok c" "cbb_children c = []" "env_bounded env"
  shows "extends env c (concat bs) (implicit_string_loop env c s t)"
  using assms
proof (induction bs arbitrary: s c)
  case Nil
  then have "CBS_len s = 0" using cbs_view_Nil by simp
  then show ?case using Nil by (simp add: implicit_string_loop.simps [of env c s] extends_refl)
next
  case (Cons b bs)
  have v: "cbs_view s = der t b @ concat (map (der t) bs)" using Cons.prems(4) by simp
  have lb: "length b < 2 ^ 32" using Cons.prems(1) by simp
  obtain x where x: "CBS_get_asn1 s t = (Some x, cbs_adv (length (der t b)) s)" "cbs_view x = b"
    using get_added [OF Cons.prems(2,3) v lb] by blast
  have "CBS_len s > 0"
    using Cons.prems(2) v der_header_ne by (simp add: CBS_len_def cbs_len_view der_def del: length_cbs_view)
  moreover have "cbs_len (cbs_adv (length (der t b)) s) < 2 ^ 63" using Cons.prems(3) by (simp add: less_imp_diff_less)
  then have "extends env c (b @ concat bs)
      (and_then (CBB_add_bytes env c 0 b) (\<lambda>c. implicit_string_loop env c (cbs_adv (length (der t b)) s) t))"
    using Cons.prems v lb by (intro and_then_ext CBB_add_bytes_ext Cons.IH) simp_all
  moreover have "take (CBS_len x) (CBS_data x) = b" using x(2) by (simp add: cbs_view_def CBS_len_def CBS_data_def)
  ultimately show ?case using x(1) by (simp add: implicit_string_loop.simps [of env c s] and_then_def)
qed

text \<open>
  C36. \<open>CBS_get_asn1_implicit_string\<close> gives the contents of an implicitly tagged string in
  both of its forms: the primitive one in place, and the constructed one as the parts joined
  in new storage, past the whole element in the input.
\<close>

theorem CBS_get_asn1_implicit_string_joins:
  assumes "cbs_ok s" "cbs_len s < 2 ^ 58" "env_bounded env" "outer AND CBS_ASN1_CONSTRUCTED = 0"
    "CBS_get_asn1_implicit_string env s outer inner = (r, s')"
  shows "(cbs_view s = der outer b @ rest \<and> length b < 2 ^ 32 \<longrightarrow>
      (\<exists>out. r = Some (out, None) \<and> cbs_view out = b) \<and> cbs_view s' = rest) \<and>
    (cbs_view s = der (outer OR CBS_ASN1_CONSTRUCTED) (concat (map (der inner) bs)) @ rest \<and>
      length (concat (map (der inner) bs)) < 2 ^ 32 \<longrightarrow>
      (\<forall>out st. r = Some (out, st) \<longrightarrow> cbs_view out = concat bs \<and> cbs_view s' = rest) \<and>
      ((\<forall>k<2 ^ 62. malloc_ok env k) \<longrightarrow> r \<noteq> None))"
proof (intro conjI impI; elim conjE)
  have l63: "cbs_len s < 2 ^ 63" using assms(2) by simp
  {
    assume v: "cbs_view s = der outer b @ rest" and lb: "length b < 2 ^ 32"
    obtain x where x: "CBS_get_asn1 s outer = (Some x, cbs_adv (length (der outer b)) s)" "cbs_view x = b"
      using get_added [OF assms(1) l63 v lb] by blast
    then have e: "r = Some (x, None)" "s' = cbs_adv (length (der outer b)) s"
      using assms(5) peek_tag [OF assms(1) v] by (simp_all add: CBS_get_asn1_implicit_string_def)
    from e(1) x(2) show "\<exists>out. r = Some (out, None) \<and> cbs_view out = b" by blast
    from e(2) show "cbs_view s' = rest" using v by simp
  }
  let ?t = "outer OR CBS_ASN1_CONSTRUCTED" and ?b = "concat (map (der inner) bs)"
  assume v: "cbs_view s = der ?t ?b @ rest" and lb: "length ?b < 2 ^ 32"
  have ne: "outer \<noteq> ?t"
  proof
    assume "outer = ?t"
    moreover have "?t AND CBS_ASN1_CONSTRUCTED = CBS_ASN1_CONSTRUCTED"
      by (rule bit_word_eqI) (auto simp: bit_and_iff bit_or_iff)
    ultimately have "CBS_ASN1_CONSTRUCTED = outer AND CBS_ASN1_CONSTRUCTED" by metis
    moreover have "CBS_ASN1_CONSTRUCTED \<noteq> 0" by code_simp
    ultimately show False using assms(4) by simp
  qed
  obtain x where x: "CBS_get_asn1 s ?t = (Some x, cbs_adv (length (der ?t ?b)) s)" "cbs_view x = ?b"
    and xo: "cbs_ok x" "cbs_len x = length ?b"
    using CBS_get_asn1_iff [OF assms(1) l63, of ?t] v lb cbs_view_body [OF v assms(1)] by blast
  have bs: "\<forall>b\<in>set bs. length b < 2 ^ 32"
  proof
    fix b assume "b \<in> set bs"
    then have "length (der inner b) \<le> length ?b"
      using member_le_sum_list [of "length (der inner b)" "map length (map (der inner) bs)"]
      by (simp add: length_concat comp_def)
    then show "length b < 2 ^ 32" using lb by (simp add: der_def)
  qed
  obtain ok c where init: "CBB_init env (CBS_len s) = (ok, c)" by force
  have cap: "CBS_len s + 8 < 2 ^ 64" using assms(2) by (simp add: CBS_len_def)
  have c: "cbb_ok c" "cbb_children c = []" "cbb_out c = []" if ok
    using CBB_init_ok [OF _ assms(3) cap, of c] init that by simp_all
  obtain ok1 c1 where r: "implicit_string_loop env c x inner = (ok1, c1)" by force
  have ext: "extends env c (concat bs) (ok1, c1)" if ok
    using implicit_string_loop_ext [OF bs xo(1) _ x(2) c(1,2) [OF that] assms(3)] xo(2) lb r by simp
  have c1: "cbb_ok c1" "cbb_children c1 = []" "cbb_out c1 = concat bs" if ok ok1
    using ext [OF that(1)] c [OF that(1)] that(2) by (simp_all add: extends_def)
  have unf: "(r, s') = (if \<not> ok then (None, s) else if \<not> ok1 then (None, cbs_adv (length (der ?t ?b)) s)
      else (case CBB_finish env c1 0 True of
              (None, _) \<Rightarrow> (None, cbs_adv (length (der ?t ?b)) s)
            | (Some (data, len), _) \<Rightarrow>
                (Some (CBS_init (case data of None \<Rightarrow> [] | Some m \<Rightarrow> blk_mem m) len, data),
                 cbs_adv (length (der ?t ?b)) s)))"
    using assms(5) peek_tag [OF assms(1) v, of outer] ne init x(1) r
    by (simp add: CBS_get_asn1_implicit_string_def split: bool.splits)
  {
    show "\<forall>out st. r = Some (out, st) \<longrightarrow> cbs_view out = concat bs \<and> cbs_view s' = rest"
    proof (intro allI impI)
      fix out st assume a: "r = Some (out, st)"
      then have o: ok ok1 using unf by (auto split: if_splits)
      obtain data len c2 where f: "CBB_finish env c1 0 True = (Some (data, len), c2)"
        and e: "out = CBS_init (case data of None \<Rightarrow> [] | Some m \<Rightarrow> blk_mem m) len" "s' = cbs_adv (length (der ?t ?b)) s"
        using unf a o by (auto split: prod.splits option.splits)
      have "cbs_view s' = rest" using e(2) v by simp
      moreover from CBB_finish_out [OF f c1(1,2) [OF o]] c1(3) [OF o] e(1)
      have "cbs_view out = concat bs" by (cases data) (simp_all add: cbs_view_def CBS_init_def)
      ultimately show "cbs_view out = concat bs \<and> cbs_view s' = rest" by simp
    qed
  }
  assume m: "\<forall>k<2 ^ 62. malloc_ok env k"
  have lc: "length (concat bs) \<le> length ?b" by (induction bs) (simp_all add: der_def)
  have "ok \<and> cbb_roomy env c (length (concat bs) + 8)"
    using init m assms(2) lb lc by (auto simp: CBB_init_def cbb_init_def OPENSSL_malloc_def size_wrap_id Let_def
        cbb_roomy_def roomy_def CBS_len_def split: if_splits)
  then have o: ok ok1 using extends_room [OF ext] by auto
  have "fst (CBB_finish env c1 0 True) \<noteq> None"
    using c1(1,2) [OF o] by (auto simp: CBB_finish_def CBB_flush_nothing cbb_ok_def)
  then show "r \<noteq> None" using unf o by (auto split: prod.splits option.splits)
qed

lemma CBS_get_asn1_implicit_string_joins_witness:
  "\<exists>out st s'. CBS_get_asn1_implicit_string ample (CBS_init [0xa0, 6, 4, 1, 7, 4, 1, 8, 9] 9) 0x80000000 4 =
     (Some (out, st), s') \<and> cbs_view out = [7, 8] \<and> cbs_view s' = [9]"
proof -
  let ?s = "CBS_init [0xa0, 6, 4, 1, 7, 4, 1, 8, 9] 9"
  have d: "der (0x80000000 OR CBS_ASN1_CONSTRUCTED) (concat (map (der 4) [[7], [8]])) = [0xa0, 6, 4, 1, 7, 4, 1, 8]"
    "length (concat (map (der 4) [[7], [8]])) = 6" "(0x80000000 :: 32 word) AND CBS_ASN1_CONSTRUCTED = 0" by code_simp+
  have s: "cbs_ok ?s" "cbs_len ?s < 2 ^ 58" "cbs_view ?s = [0xa0, 6, 4, 1, 7, 4, 1, 8] @ [9]"
    by (simp_all add: cbs_ok_def cbs_view_def CBS_init_def)
  obtain r s' where r: "CBS_get_asn1_implicit_string ample ?s 0x80000000 4 = (r, s')" by force
  note P = CBS_get_asn1_implicit_string_joins [OF s(1,2) ample_simps(1) d(3) r,
      of "[]" "[9]" "[[7], [8]]", THEN conjunct2, unfolded d(1,2)]
  have "(\<forall>out st. r = Some (out, st) \<longrightarrow> cbs_view out = [7, 8] \<and> cbs_view s' = [9]) \<and> r \<noteq> None"
    using P s(3) by simp
  then show ?thesis using r by (metis option.exhaust surj_pair)
qed

end
