(* ===== verification/Constant_Time.thy ===== *)
theory Constant_Time
  imports Prelude
begin

text \<open>
  BoringSSL's constant-time comparisons and selection (\<open>crypto/internal.h\<close>), on the
  64-bit \<open>crypto_word_t\<close> of the target. They compute a mask, all ones for true, without
  a branch; the lemmas give the condition each mask stands for.
\<close>

section \<open>Masks\<close>

type_synonym crypto_word = "64 word"

definition constant_time_msb_w :: "crypto_word \<Rightarrow> crypto_word" where
  "constant_time_msb_w a = 0 - drop_bit 63 a"

definition constant_time_lt_w :: "crypto_word \<Rightarrow> crypto_word \<Rightarrow> crypto_word" where
  "constant_time_lt_w a b = constant_time_msb_w (a XOR ((a XOR b) OR ((a - b) XOR a)))"

definition constant_time_lt_8 :: "crypto_word \<Rightarrow> crypto_word \<Rightarrow> byte" where
  "constant_time_lt_8 a b = ucast (constant_time_lt_w a b)"

definition constant_time_ge_w :: "crypto_word \<Rightarrow> crypto_word \<Rightarrow> crypto_word" where
  "constant_time_ge_w a b = NOT (constant_time_lt_w a b)"

definition constant_time_ge_8 :: "crypto_word \<Rightarrow> crypto_word \<Rightarrow> byte" where
  "constant_time_ge_8 a b = ucast (constant_time_ge_w a b)"

definition constant_time_is_zero_w :: "crypto_word \<Rightarrow> crypto_word" where
  "constant_time_is_zero_w a = constant_time_msb_w (NOT a AND (a - 1))"

definition constant_time_is_zero_8 :: "crypto_word \<Rightarrow> byte" where
  "constant_time_is_zero_8 a = ucast (constant_time_is_zero_w a)"

definition constant_time_eq_w :: "crypto_word \<Rightarrow> crypto_word \<Rightarrow> crypto_word" where
  "constant_time_eq_w a b = constant_time_is_zero_w (a XOR b)"

definition constant_time_eq_8 :: "crypto_word \<Rightarrow> crypto_word \<Rightarrow> byte" where
  "constant_time_eq_8 a b = ucast (constant_time_eq_w a b)"

text \<open>An \<open>int\<close> is converted to \<open>crypto_word_t\<close> with its sign.\<close>

definition constant_time_eq_int :: "32 word \<Rightarrow> 32 word \<Rightarrow> crypto_word" where
  "constant_time_eq_int a b = constant_time_eq_w (scast a) (scast b)"

definition constant_time_eq_int_8 :: "32 word \<Rightarrow> 32 word \<Rightarrow> byte" where
  "constant_time_eq_int_8 a b = constant_time_eq_8 (scast a) (scast b)"

definition constant_time_select_w :: "crypto_word \<Rightarrow> crypto_word \<Rightarrow> crypto_word \<Rightarrow> crypto_word" where
  "constant_time_select_w m a b = (m AND a) OR (NOT m AND b)"

definition constant_time_select_8 :: "byte \<Rightarrow> byte \<Rightarrow> byte \<Rightarrow> byte" where
  "constant_time_select_8 m a b = ucast (constant_time_select_w (ucast m) (ucast a) (ucast b))"

definition constant_time_select_int :: "crypto_word \<Rightarrow> 32 word \<Rightarrow> 32 word \<Rightarrow> 32 word" where
  "constant_time_select_int m a b = ucast (constant_time_select_w m (scast a) (scast b))"


section \<open>What the masks say\<close>

definition ct_mask :: "bool \<Rightarrow> 'a::len word" where
  "ct_mask p = (if p then - 1 else 0)"

lemma ucast_ct_mask [simp]:
  "LENGTH('b) \<le> LENGTH('a) \<Longrightarrow> ucast (ct_mask p :: 'a::len word) = (ct_mask p :: 'b::len word)"
  by (auto simp: ct_mask_def intro!: bit_word_eqI simp: bit_ucast_iff)

lemma not_ct_mask: "NOT (ct_mask p) = ct_mask (\<not> p)"
  by (simp add: ct_mask_def)

lemma constant_time_msb: "constant_time_msb_w a = ct_mask (bit a 63)"
proof -
  have "drop_bit 63 a = of_bool (bit a 63)"
  proof (rule bit_word_eqI)
    fix n assume "n < LENGTH(64)"
    show "bit (drop_bit 63 a) n = bit (of_bool (bit a 63) :: crypto_word) n"
      using bit_imp_le_length [of a "63 + n"] by (cases n) (auto simp: bit_drop_bit_eq bit_of_bool_iff bit_1_iff)
  qed
  then show ?thesis by (simp add: constant_time_msb_w_def ct_mask_def)
qed

lemma bit_63_iff: "bit (a :: crypto_word) 63 \<longleftrightarrow> 2 ^ 63 \<le> unat a"
proof -
  have "bit a 63 \<longleftrightarrow> odd (unat a div 2 ^ 63)" by (simp only: bit_unsigned_iff bit_iff_odd [symmetric]) simp
  moreover have "unat a < 2 ^ 64" using unsigned_less [of a] by simp
  then have "unat a div 2 ^ 63 < 2" by (simp add: div_less_iff_less_mult)
  ultimately show ?thesis by (cases "unat a div 2 ^ 63") (auto simp: div_eq_0_iff not_less)
qed

lemma bit_63_sub:
  assumes "bit a 63 \<longleftrightarrow> bit b 63"
  shows "bit (a - b :: crypto_word) 63 \<longleftrightarrow> a < b"
proof (cases "a < b")
  case True
  then have lt: "unat a < unat b" by (simp add: word_less_nat_alt)
  have b: "unat b < 2 ^ 64" "unat a < 2 ^ 64" using unsigned_less [of b] unsigned_less [of a] by simp_all
  have "unat (a - b) = unat a + 2 ^ 64 - unat b"
    using lt by (simp add: unat_sub_if_size word_size)
  moreover have "unat b - unat a \<le> 2 ^ 63"
    using assms b lt by (auto simp: bit_63_iff)
  ultimately show ?thesis using True b lt by (simp add: bit_63_iff)
next
  case False
  then have "unat b \<le> unat a" by (simp add: word_less_nat_alt)
  then have "unat (a - b) = unat a - unat b" by (simp add: unat_sub_if_size)
  moreover have "unat a < 2 ^ 64" using unsigned_less [of a] by simp
  ultimately have "unat (a - b) < 2 ^ 63" using assms by (auto simp: bit_63_iff)
  then show ?thesis using False by (simp add: bit_63_iff)
qed

lemma constant_time_lt: "constant_time_lt_w a b = ct_mask (a < b)"
proof (cases "bit a 63 \<longleftrightarrow> bit b 63")
  case True
  then show ?thesis
    by (auto simp: constant_time_lt_w_def constant_time_msb bit_xor_iff bit_or_iff bit_63_sub)
next
  case False
  have "a < b \<longleftrightarrow> bit b 63" using False by (auto simp: bit_63_iff word_less_nat_alt)
  then show ?thesis using False
    by (auto simp: constant_time_lt_w_def constant_time_msb bit_xor_iff bit_or_iff)
qed

lemma constant_time_is_zero: "constant_time_is_zero_w a = ct_mask (a = 0)"
proof (cases "a = 0")
  case False
  have "\<not> bit (NOT a AND (a - 1)) 63"
  proof
    assume "bit (NOT a AND (a - 1)) 63"
    then have "\<not> bit a 63" "bit (a - 1) 63" by (simp_all add: bit_and_iff bit_not_iff)
    then have "a < 1" using bit_63_sub [of a 1] by (simp add: bit_1_iff)
    then show False using False by simp
  qed
  then show ?thesis using False by (simp add: constant_time_is_zero_w_def constant_time_msb)
qed (simp add: constant_time_is_zero_w_def constant_time_msb ct_mask_def)

lemma constant_time_eq: "constant_time_eq_w a b = ct_mask (a = b)"
  by (simp add: constant_time_eq_w_def constant_time_is_zero bit_eq_iff [of "a XOR b"] bit_eq_iff [of a b] bit_xor_iff)

lemma constant_time_select:
  "constant_time_select_w (ct_mask p) a b = (if p then a else b)"
  "constant_time_select_8 (ct_mask p) x y = (if p then x else y)"
  "constant_time_select_int (ct_mask p) i j = (if p then i else j)"
  by (auto simp: constant_time_select_w_def constant_time_select_8_def constant_time_select_int_def
      ct_mask_def intro!: bit_word_eqI simp: bit_ucast_iff bit_or_iff bit_and_iff bit_not_iff bit_signed_iff
      dest: bit_imp_le_length)

lemmas constant_time_simps = constant_time_lt constant_time_is_zero constant_time_eq constant_time_select
  constant_time_lt_8_def constant_time_ge_w_def constant_time_ge_8_def constant_time_is_zero_8_def
  constant_time_eq_8_def constant_time_eq_int_def constant_time_eq_int_8_def not_ct_mask

end
