(* ===== verification/Base64.thy ===== *)
theory Base64
  imports Constant_Time
begin

text \<open>
  BoringSSL's Base64 (\<open>crypto/base64/base64.c\<close>): the constant-time conversion of
  characters, encoding and decoding of a block, and the streaming encoder and decoder used
  for PEM. A pointer to output is a memory block and an offset.
\<close>

section \<open>Characters\<close>

definition constant_time_lt_args_8 :: "byte \<Rightarrow> byte \<Rightarrow> byte" where
  "constant_time_lt_args_8 a b = ucast (constant_time_msb_w (ucast a - ucast b))"

definition constant_time_in_range_8 :: "byte \<Rightarrow> byte \<Rightarrow> byte \<Rightarrow> byte" where
  "constant_time_in_range_8 a mn mx = constant_time_lt_args_8 (a - mn) (mx - mn + 1)"

definition conv_bin2ascii :: "byte \<Rightarrow> byte" where
  "conv_bin2ascii a =
     (let a = a AND 0x3f;
          ret = constant_time_select_8 (constant_time_eq_8 (ucast a) 62) 43 47;
          ret = constant_time_select_8 (constant_time_lt_args_8 a 62) (a - 52 + 48) ret;
          ret = constant_time_select_8 (constant_time_lt_args_8 a 52) (a - 26 + 97) ret;
          ret = constant_time_select_8 (constant_time_lt_args_8 a 26) (a + 65) ret
      in ret)"

definition base64_ascii_to_bin :: "byte \<Rightarrow> byte" where
  "base64_ascii_to_bin a =
     (let is_upper = constant_time_in_range_8 a 65 90;
          is_lower = constant_time_in_range_8 a 97 122;
          is_digit = constant_time_in_range_8 a 48 57;
          is_plus = constant_time_eq_8 (ucast a) 43;
          is_slash = constant_time_eq_8 (ucast a) 47;
          is_equals = constant_time_eq_8 (ucast a) 61;
          ret = 0xff;
          ret = constant_time_select_8 is_upper (a - 65) ret;
          ret = constant_time_select_8 is_lower (a - 97 + 26) ret;
          ret = constant_time_select_8 is_digit (a - 48 + 52) ret;
          ret = constant_time_select_8 is_plus 62 ret;
          ret = constant_time_select_8 is_slash 63 ret;
          ret = constant_time_select_8 is_equals 0 ret
      in ret)"


section \<open>Encoding\<close>

text \<open>The value of \<open>*out_len\<close>; \<open>None\<close> for failure.\<close>

definition EVP_EncodedLength :: "nat \<Rightarrow> nat option" where
  "EVP_EncodedLength len =
     (if size_wrap (len + 2) < len then None
      else let len = size_wrap (len + 2) div 3 in
      if size_wrap (4 * len) div 4 \<noteq> len then None
      else let len = size_wrap (4 * len) in
      if size_wrap (len + 1) < len then None else Some (size_wrap (len + 1)))"

text \<open>The memory \<open>dst\<close> points to, from offset \<open>p\<close> on, the offset reached and the count.\<close>

fun encode_block_loop :: "byte list \<Rightarrow> nat \<Rightarrow> byte list \<Rightarrow> nat \<Rightarrow> nat \<Rightarrow> byte list \<times> nat \<times> nat" where
  "encode_block_loop dst p src remaining ret =
     (if remaining = 0 then (dst, p, ret)
      else if remaining \<ge> 3
      then let l = push_bit 16 (ucast (src ! 0)) OR push_bit 8 (ucast (src ! 1)) OR ucast (src ! 2) :: 32 word
           in encode_block_loop
             (mem_write dst p [conv_bin2ascii (ucast (drop_bit 18 l)), conv_bin2ascii (ucast (drop_bit 12 l)),
                conv_bin2ascii (ucast (drop_bit 6 l)), conv_bin2ascii (ucast l)])
             (p + 4) (drop 3 src) (remaining - 3) (ret + 4)
      else let l = push_bit 16 (ucast (src ! 0)) :: 32 word;
               l = (if remaining = 2 then l OR push_bit 8 (ucast (src ! 1)) else l)
           in (mem_write dst p [conv_bin2ascii (ucast (drop_bit 18 l)), conv_bin2ascii (ucast (drop_bit 12 l)),
                 if remaining = 1 then 61 else conv_bin2ascii (ucast (drop_bit 6 l)), 61],
               p + 4, ret + 4))"

declare encode_block_loop.simps [simp del]

definition EVP_EncodeBlock :: "byte list \<Rightarrow> nat \<Rightarrow> byte list \<Rightarrow> nat \<Rightarrow> byte list \<times> nat" where
  "EVP_EncodeBlock dst p src src_len =
     (case encode_block_loop dst p src src_len 0 of
        (dst, p, ret) \<Rightarrow> (mem_write dst p [0], ret))"

record EVP_ENCODE_CTX =
  ec_data_used :: nat
  ec_data :: "byte list"
  ec_eof_seen :: bool
  ec_error_encountered :: bool

text \<open>The size of the array \<open>data\<close>.\<close>

definition ENCODE_DATA :: nat where "ENCODE_DATA = 48"

definition EVP_EncodeInit :: EVP_ENCODE_CTX where
  "EVP_EncodeInit = \<lparr>ec_data_used = 0, ec_data = replicate ENCODE_DATA 0, ec_eof_seen = False,
     ec_error_encountered = False\<rparr>"

definition EVP_DecodeInit :: EVP_ENCODE_CTX where
  "EVP_DecodeInit = \<lparr>ec_data_used = 0, ec_data = replicate ENCODE_DATA 0, ec_eof_seen = False,
     ec_error_encountered = False\<rparr>"

text \<open>
  The loop over whole lines: the output, the offset reached, the rest of the input, and the
  total, \<open>None\<close> when its overflow ends the call.
\<close>

function encode_lines ::
  "byte list \<Rightarrow> nat \<Rightarrow> byte list \<Rightarrow> nat \<Rightarrow> nat \<Rightarrow> byte list \<times> nat \<times> byte list \<times> nat \<times> nat option" where
  "encode_lines out p inp in_len tot =
     (if in_len \<ge> ENCODE_DATA
      then (case EVP_EncodeBlock out p inp ENCODE_DATA of
              (out, encoded) \<Rightarrow>
                let inp = drop ENCODE_DATA inp; in_len = in_len - ENCODE_DATA; p = p + encoded;
                    out = mem_write (mem_write out p [10]) (p + 1) [0]
                in if size_wrap (tot + encoded + 1) < tot then (out, p + 1, inp, in_len, None)
                   else encode_lines out (p + 1) inp in_len (size_wrap (tot + encoded + 1)))
      else (out, p, inp, in_len, Some tot))"
  by pat_completeness auto
termination
  by (relation "measure (\<lambda>(_, _, _, in_len, _). in_len)") (auto simp: ENCODE_DATA_def)

declare encode_lines.simps [simp del]

text \<open>The part of \<open>EVP_EncodeUpdate\<close> from the loop on.\<close>

definition encode_update_tail ::
  "EVP_ENCODE_CTX \<Rightarrow> byte list \<Rightarrow> nat \<Rightarrow> byte list \<Rightarrow> nat \<Rightarrow> nat \<Rightarrow> EVP_ENCODE_CTX \<times> byte list \<times> nat" where
  "encode_update_tail ctx out p inp in_len tot =
     (case encode_lines out p inp in_len tot of
        (out, p, inp, in_len, None) \<Rightarrow> (ctx, out, 0)
      | (out, p, inp, in_len, Some tot) \<Rightarrow>
          (let ctx = (if in_len \<noteq> 0
                      then ctx\<lparr>ec_data := mem_write (ec_data ctx) 0 (take in_len inp)\<rparr> else ctx);
               tot = (if tot > INT_MAX then 0 else tot)
           in (ctx\<lparr>ec_data_used := in_len\<rparr>, out, tot)))"

text \<open>The context, the output and \<open>*out_len\<close>.\<close>

definition EVP_EncodeUpdate ::
  "EVP_ENCODE_CTX \<Rightarrow> byte list \<Rightarrow> nat \<Rightarrow> byte list \<Rightarrow> nat \<Rightarrow> EVP_ENCODE_CTX \<times> byte list \<times> nat" where
  "EVP_EncodeUpdate ctx out p inp in_len =
     (if in_len = 0 then (ctx, out, 0)
      else if ENCODE_DATA - ec_data_used ctx > in_len
      then (ctx\<lparr>ec_data := mem_write (ec_data ctx) (ec_data_used ctx) (take in_len inp),
                ec_data_used := ec_data_used ctx + in_len\<rparr>, out, 0)
      else if ec_data_used ctx \<noteq> 0
      then let todo = ENCODE_DATA - ec_data_used ctx;
               ctx = ctx\<lparr>ec_data := mem_write (ec_data ctx) (ec_data_used ctx) (take todo inp)\<rparr>
           in (case EVP_EncodeBlock out p (ec_data ctx) ENCODE_DATA of
                 (out, encoded) \<Rightarrow>
                   encode_update_tail (ctx\<lparr>ec_data_used := 0\<rparr>)
                     (mem_write (mem_write out (p + encoded) [10]) (p + encoded + 1) [0])
                     (p + encoded + 1) (drop todo inp) (in_len - todo) (encoded + 1))
      else encode_update_tail ctx out p inp in_len 0)"

definition EVP_EncodeFinal :: "EVP_ENCODE_CTX \<Rightarrow> byte list \<Rightarrow> nat \<Rightarrow> EVP_ENCODE_CTX \<times> byte list \<times> nat" where
  "EVP_EncodeFinal ctx out p =
     (if ec_data_used ctx = 0 then (ctx, out, 0)
      else case EVP_EncodeBlock out p (ec_data ctx) (ec_data_used ctx) of
        (out, encoded) \<Rightarrow>
          (ctx\<lparr>ec_data_used := 0\<rparr>, mem_write (mem_write out (p + encoded) [10]) (p + encoded + 1) [0],
           encoded + 1))"


section \<open>Decoding\<close>

definition EVP_DecodedLength :: "nat \<Rightarrow> nat option" where
  "EVP_DecodedLength len = (if len mod 4 \<noteq> 0 then None else Some (len div 4 * 3))"

text \<open>The bytes stored at \<open>out\<close>, whose number is \<open>*out_num_bytes\<close>.\<close>

definition base64_decode_quad :: "byte list \<Rightarrow> byte list option" where
  "base64_decode_quad inp =
     (let a = base64_ascii_to_bin (inp ! 0); b = base64_ascii_to_bin (inp ! 1);
          c = base64_ascii_to_bin (inp ! 2); d = base64_ascii_to_bin (inp ! 3)
      in if a = 0xff \<or> b = 0xff \<or> c = 0xff \<or> d = 0xff then None
      else let v = push_bit 18 (ucast a) OR push_bit 12 (ucast b) OR push_bit 6 (ucast c) OR ucast d :: 32 word;
               eq = (\<lambda>i. if inp ! i = 61 then 1 else 0 :: nat);
               padding_pattern = 8 * eq 0 + 4 * eq 1 + 2 * eq 2 + eq 3
      in if padding_pattern = 0 then Some [ucast (drop_bit 16 v), ucast (drop_bit 8 v), ucast v]
         else if padding_pattern = 1 then Some [ucast (drop_bit 16 v), ucast (drop_bit 8 v)]
         else if padding_pattern = 3 then Some [ucast (drop_bit 16 v)]
         else None)"

text \<open>The end of the loop, or the error; the offset of \<open>out\<close> counts \<open>bytes_out\<close>.\<close>

fun decode_update_loop ::
  "EVP_ENCODE_CTX \<Rightarrow> byte list \<Rightarrow> nat \<Rightarrow> nat \<Rightarrow> byte list \<Rightarrow> bool \<times> EVP_ENCODE_CTX \<times> byte list \<times> nat" where
  "decode_update_loop ctx out p bytes_out [] = (True, ctx, out, bytes_out)"
| "decode_update_loop ctx out p bytes_out (c # inp) =
     (if c \<in> {32, 9, 13, 10} then decode_update_loop ctx out p bytes_out inp
      else if ec_eof_seen ctx then (False, ctx\<lparr>ec_error_encountered := True\<rparr>, out, 0)
      else let ctx = ctx\<lparr>ec_data := mem_write (ec_data ctx) (ec_data_used ctx) [c],
                         ec_data_used := ec_data_used ctx + 1\<rparr>
      in if ec_data_used ctx = 4
         then (case base64_decode_quad (ec_data ctx) of
                 None \<Rightarrow> (False, ctx\<lparr>ec_error_encountered := True\<rparr>, out, 0)
               | Some bs \<Rightarrow>
                   (let ctx = ctx\<lparr>ec_data_used := 0\<rparr>;
                        ctx = (if length bs < 3 then ctx\<lparr>ec_eof_seen := True\<rparr> else ctx)
                    in decode_update_loop ctx (mem_write out p bs) (p + length bs) (bytes_out + length bs) inp))
         else decode_update_loop ctx out p bytes_out inp)"

text \<open>The result, the context, the output and \<open>*out_len\<close>.\<close>

definition EVP_DecodeUpdate ::
  "EVP_ENCODE_CTX \<Rightarrow> byte list \<Rightarrow> nat \<Rightarrow> byte list \<Rightarrow> nat \<Rightarrow> int \<times> EVP_ENCODE_CTX \<times> byte list \<times> nat" where
  "EVP_DecodeUpdate ctx out p inp in_len =
     (if ec_error_encountered ctx then (- 1, ctx, out, 0)
      else case decode_update_loop ctx out p 0 (take in_len inp) of
        (False, ctx, out, _) \<Rightarrow> (- 1, ctx, out, 0)
      | (True, ctx, out, bytes_out) \<Rightarrow>
          if bytes_out > INT_MAX then (- 1, ctx\<lparr>ec_error_encountered := True\<rparr>, out, 0)
          else (if ec_eof_seen ctx then 0 else 1, ctx, out, bytes_out))"

definition EVP_DecodeFinal :: "EVP_ENCODE_CTX \<Rightarrow> int \<times> nat" where
  "EVP_DecodeFinal ctx = (if ec_error_encountered ctx \<or> ec_data_used ctx \<noteq> 0 then - 1 else 1, 0)"

text \<open>Success, the output and \<open>bytes_out\<close>.\<close>

fun decode_base64_loop ::
  "byte list \<Rightarrow> nat \<Rightarrow> nat \<Rightarrow> byte list \<Rightarrow> nat \<Rightarrow> bool \<times> byte list \<times> nat" where
  "decode_base64_loop out p bytes_out inp in_len =
     (if in_len = 0 then (True, out, bytes_out)
      else case base64_decode_quad inp of
        None \<Rightarrow> (False, out, 0)
      | Some bs \<Rightarrow>
          (let out = mem_write out p bs in
           if length bs \<noteq> 3 \<and> in_len \<noteq> 4 then (False, out, 0)
           else decode_base64_loop out (p + length bs) (bytes_out + length bs) (drop 4 inp) (in_len - 4)))"

declare decode_base64_loop.simps [simp del]

definition EVP_DecodeBase64 :: "byte list \<Rightarrow> nat \<Rightarrow> byte list \<Rightarrow> nat \<Rightarrow> bool \<times> byte list \<times> nat" where
  "EVP_DecodeBase64 out max_out inp in_len =
     (if in_len mod 4 \<noteq> 0 then (False, out, 0)
      else case EVP_DecodedLength in_len of
        None \<Rightarrow> (False, out, 0)
      | Some max_len \<Rightarrow>
          if max_out < max_len then (False, out, 0) else decode_base64_loop out 0 0 inp in_len)"

fun trim_front :: "byte list \<Rightarrow> nat \<Rightarrow> byte list \<times> nat" where
  "trim_front src 0 = (src, 0)"
| "trim_front src (Suc n) =
     (if src ! 0 \<noteq> 32 \<and> src ! 0 \<noteq> 9 then (src, Suc n) else trim_front (drop 1 src) n)"

fun trim_back :: "byte list \<Rightarrow> nat \<Rightarrow> nat" where
  "trim_back src 0 = 0"
| "trim_back src (Suc n) = (if src ! n \<in> {32, 9, 13, 10} then trim_back src n else Suc n)"

function pad_with_zeros :: "byte list \<Rightarrow> nat \<Rightarrow> byte list \<times> nat" where
  "pad_with_zeros dst dst_len =
     (if dst_len mod 3 \<noteq> 0 then pad_with_zeros (mem_write dst dst_len [0]) (dst_len + 1)
      else (dst, dst_len))"
  by pat_completeness auto
termination
proof (relation "measure (\<lambda>(_, n). 2 * n mod 3)")
  fix dst :: "byte list" and n :: nat
  assume "n mod 3 \<noteq> 0"
  then have "2 * (n + 1) mod 3 < 2 * n mod 3" by presburger
  then show "((mem_write dst n [0], n + 1), dst, n) \<in> measure (\<lambda>(_, n). 2 * n mod 3)" by simp
qed simp

declare pad_with_zeros.simps [simp del]

definition EVP_DecodeBlock :: "byte list \<Rightarrow> byte list \<Rightarrow> nat \<Rightarrow> int \<times> byte list" where
  "EVP_DecodeBlock dst src src_len =
     (case trim_front src src_len of (src, src_len) \<Rightarrow>
      let src_len = trim_back src src_len in
      case EVP_DecodedLength src_len of
        None \<Rightarrow> (- 1, dst)
      | Some dst_len \<Rightarrow>
          if dst_len > INT_MAX then (- 1, dst)
          else (case EVP_DecodeBase64 dst dst_len src src_len of
                  (False, dst, _) \<Rightarrow> (- 1, dst)
                | (True, dst, dst_len) \<Rightarrow>
                    (case pad_with_zeros dst dst_len of (dst, dst_len) \<Rightarrow> (int dst_len, dst))))"

section \<open>The alphabet\<close>

definition base64_alphabet :: "byte list" where
  "base64_alphabet = map of_char ''ABCDEFGHIJKLMNOPQRSTUVWXYZabcdefghijklmnopqrstuvwxyz0123456789+/''"

lemma length_base64_alphabet [simp]: "length base64_alphabet = 64"
  by (simp add: base64_alphabet_def)

text \<open>A statement on every byte is checked byte by byte.\<close>

lemma all_bytes:
  assumes "list_all (\<lambda>n. P (word_of_int n)) [0..255]"
  shows "P (b :: byte)"
proof -
  have "uint b < 256" "0 \<le> uint b" using unsigned_less [of b, where 'a = int] by simp_all
  then have "uint b \<in> {0..255}" by simp
  then have "P (word_of_int (uint b))" using assms unfolding list_all_iff set_upto
    by (rule bspec [rotated])
  then show ?thesis by simp
qed

declare unat_ucast_byte [simp]

lemma lt_args_8: "constant_time_lt_args_8 a b = ct_mask (a < b)"
proof -
  have b63: "\<not> bit (ucast x :: crypto_word) 63" for x :: byte
    using bit_imp_le_length [of x 63] by (auto simp: bit_ucast_iff)
  have "(ucast a :: crypto_word) < ucast b \<longleftrightarrow> a < b"
    by (simp add: word_less_nat_alt)
  then show ?thesis using b63 by (simp add: constant_time_lt_args_8_def constant_time_msb bit_63_sub)
qed

lemma ucast_byte_eq: "(ucast (a :: byte) :: crypto_word) = ucast b \<longleftrightarrow> a = b"
  by (simp add: word_unat_eq_iff)

lemma conv_plain: "conv_bin2ascii b =
  (let a = b AND 0x3f in if a < 26 then a + 65 else if a < 52 then a + 71 else if a < 62 then a - 4
     else if a = 62 then 43 else 47)"
  using ucast_byte_eq [of "b AND 0x3f" 62]
  by (simp add: conv_bin2ascii_def Let_def constant_time_simps lt_args_8)

lemma bin_plain: "base64_ascii_to_bin a =
  (if a = 61 then 0 else if a = 47 then 63 else if a = 43 then 62 else if a - 48 < 10 then a + 4
   else if a - 97 < 26 then a - 71 else if a - 65 < 26 then a - 65 else 0xff)"
  using ucast_byte_eq [of a 61] ucast_byte_eq [of a 43] ucast_byte_eq [of a 47]
  by (simp add: base64_ascii_to_bin_def Let_def constant_time_simps constant_time_in_range_8_def lt_args_8)


lemma unat_and_3f: "unat ((b :: byte) AND 0x3f) = unat b mod 64"
  using unat_and_mask [of b 6] by (simp add: mask_eq_exp_minus_1)

lemma conv_bin2ascii_digit: "conv_bin2ascii b = base64_alphabet ! (unat b mod 64)"
proof -
  let ?n = "unat b mod 64"
  have "map (\<lambda>n. conv_bin2ascii (word_of_int n)) [0..63] = base64_alphabet" (is "map ?f _ = _")
    unfolding conv_plain by code_simp
  then have "map ?f [0..63] ! ?n = base64_alphabet ! ?n" by simp
  moreover have "word_of_int (int ?n) = b AND 0x3f"
    by (simp only: unat_and_3f [symmetric]) simp
  ultimately have "conv_bin2ascii (b AND 0x3f) = base64_alphabet ! ?n"
    by (simp add: nth_map [of ?n] del: of_nat_mod)
  moreover have "(b AND 0x3f) AND 0x3f = b AND 0x3f" by (simp only: and.assoc and.idem)
  ultimately show ?thesis by (simp only: conv_plain)
qed

lemma ascii_to_bin_digit:
  assumes "n < 64"
  shows "base64_ascii_to_bin (base64_alphabet ! n) = word_of_nat n"
proof -
  have "map base64_ascii_to_bin base64_alphabet = map word_of_int [0..63]"
    unfolding bin_plain by code_simp
  then have "map base64_ascii_to_bin base64_alphabet ! n = map word_of_int [0..63] ! n" by simp
  then show ?thesis using assms by simp
qed

lemma alphabet_not_equals: "61 \<notin> set base64_alphabet"
  by code_simp

lemma ascii_to_bin_valid:
  "base64_ascii_to_bin c = 0xff \<or> c = 61 \<or> c \<in> set base64_alphabet"
proof -
  have "base64_ascii_to_bin c = 0xff \<or> c = 61 \<or> conv_bin2ascii (base64_ascii_to_bin c) = c"
    by (rule all_bytes) (unfold bin_plain conv_plain, code_simp)
  moreover have "conv_bin2ascii b \<in> set base64_alphabet" for b by (simp add: conv_bin2ascii_digit)
  ultimately show ?thesis by metis
qed

lemma ascii_to_bin_equals [simp]: "base64_ascii_to_bin 61 = 0"
  by (simp add: bin_plain)

section \<open>Base64 as in RFC 4648\<close>

text \<open>The 6-bit groups of a string of bytes, and back; left-over bits are zero, and dropped.\<close>

fun base64_digits :: "byte list \<Rightarrow> nat list" where
  "base64_digits [] = []"
| "base64_digits [a] = [unat a div 4, unat a mod 4 * 16]"
| "base64_digits [a, b] = [unat a div 4, unat a mod 4 * 16 + unat b div 16, unat b mod 16 * 4]"
| "base64_digits (a # b # c # bs) =
     [unat a div 4, unat a mod 4 * 16 + unat b div 16, unat b mod 16 * 4 + unat c div 64, unat c mod 64] @
     base64_digits bs"

fun base64_bytes :: "nat list \<Rightarrow> byte list" where
  "base64_bytes (x # y # z # w # ds) =
     [word_of_nat (x * 4 + y div 16), word_of_nat (y mod 16 * 16 + z div 4), word_of_nat (z mod 4 * 64 + w)] @
     base64_bytes ds"
| "base64_bytes [x, y, z] = [word_of_nat (x * 4 + y div 16), word_of_nat (y mod 16 * 16 + z div 4)]"
| "base64_bytes [x, y] = [word_of_nat (x * 4 + y div 16)]"
| "base64_bytes _ = []"

definition base64_text :: "byte list \<Rightarrow> byte list" where
  "base64_text bs = map ((!) base64_alphabet) (base64_digits bs) @ replicate ((3 - length bs mod 3) mod 3) 61"

lemma unat_byte_div: "unat (b :: byte) div 4 < 64" "unat b div 16 < 16" "unat b div 64 < 4"
  using unsigned_less [of b, where 'a = nat] by (simp_all add: div_less_iff_less_mult)

lemma digit_sum: "q < n \<Longrightarrow> r < m \<Longrightarrow> r * n + q < m * n" for q :: nat
proof -
  assume "q < n" "r < m"
  then have "Suc r * n \<le> m * n" by (intro mult_le_mono1) simp
  then show ?thesis using \<open>q < n\<close> by simp
qed

lemma base64_digits_less: "d \<in> set (base64_digits bs) \<Longrightarrow> d < 64"
proof (induction bs arbitrary: d rule: base64_digits.induct)
  case (4 a b c bs)
  have "unat a mod 4 * 16 + unat b div 16 < 4 * 16" "unat b mod 16 * 4 + unat c div 64 < 16 * 4"
    by (intro digit_sum unat_byte_div; simp)+
  then show ?case using 4 unat_byte_div(1) [of a] by auto
next
  case (3 a b)
  have "unat a mod 4 * 16 + unat b div 16 < 4 * 16" "unat b mod 16 * 4 + 0 < 16 * 4"
    by (intro digit_sum unat_byte_div; simp)+
  then show ?case using 3 unat_byte_div(1) [of a] by auto
next
  case (2 a)
  have "unat a mod 4 * 16 + 0 < 4 * 16" by (intro digit_sum) simp_all
  then show ?case using 2 unat_byte_div(1) [of a] by auto
qed simp

lemma byte_of_digits:
  "word_of_nat (unat a div 4 * 4 + (unat a mod 4 * 16 + unat (b :: byte) div 16) div 16) = (a :: byte)"
  "word_of_nat ((unat a mod 4 * 16 + unat b div 16) mod 16 * 16 + (unat b mod 16 * 4 + unat (c :: byte) div 64) div 4) = b"
  "word_of_nat ((unat b mod 16 * 4 + unat c div 64) mod 4 * 64 + unat c mod 64) = c"
  "word_of_nat (unat a div 4 * 4 + unat a mod 4 * 16 div 16) = a"
  "word_of_nat ((unat a mod 4 * 16 + unat b div 16) mod 16 * 16 + unat b mod 16 * 4 div 4) = b"
proof -
  have n: "word_of_nat k = w" if "k = unat w" for k and w :: byte using that by simp
  have s: "(r * n + q) div n = r" "(r * n + q) mod n = q" if "q < n" for q r n :: nat
    using that by simp_all
  note d = s [OF unat_byte_div(2)] s [OF unat_byte_div(3)]
  show "word_of_nat (unat a div 4 * 4 + (unat a mod 4 * 16 + unat b div 16) div 16) = a"
    by (rule n) (simp only: d div_mult_mod_eq)
  show "word_of_nat ((unat a mod 4 * 16 + unat b div 16) mod 16 * 16 + (unat b mod 16 * 4 + unat c div 64) div 4) = b"
    by (rule n) (simp only: d div_mult_mod_eq)
  show "word_of_nat ((unat b mod 16 * 4 + unat c div 64) mod 4 * 64 + unat c mod 64) = c"
    by (rule n) (simp only: d div_mult_mod_eq)
  show "word_of_nat (unat a div 4 * 4 + unat a mod 4 * 16 div 16) = a"
    by (rule n) simp
  show "word_of_nat ((unat a mod 4 * 16 + unat b div 16) mod 16 * 16 + unat b mod 16 * 4 div 4) = b"
    by (rule n) (simp only: d, simp)
qed

lemma base64_bytes_digits: "base64_bytes (base64_digits bs) = bs"
  by (induction bs rule: base64_digits.induct) (simp_all only: base64_digits.simps base64_bytes.simps append.simps byte_of_digits)

section \<open>Four characters\<close>

lemma push_or_word:
  assumes "y < 2 ^ k"
  shows "push_bit k (word_of_nat x) OR word_of_nat y = (word_of_nat (2 ^ k * x + y) :: 'a::len word)"
proof -
  have "take_bit k y = y" using assms by (rule take_bit_nat_eq_self)
  then have "\<not> (bit (push_bit k x) n \<and> bit y n)" for n
    by (metis bit_push_bit_iff bit_take_bit_iff leD)
  then have "push_bit k x OR y = 2 ^ k * x + y"
    by (subst disjunctive_add_eq_or [symmetric])
      (auto simp: push_bit_eq_mult bit_eq_iff [of _ 0] bit_and_iff mult.commute)
  then have "(word_of_nat (push_bit k x OR y) :: 'a word) = word_of_nat (2 ^ k * x + y)" by simp
  then show ?thesis by (simp only: of_nat_or_eq push_bit_of_nat)
qed

lemma ucast_byte: "(ucast (b :: byte) :: 'a::len word) = word_of_nat (unat b)"
  by (simp add: unsigned_def)

lemma group_of_bytes:
  "push_bit 16 (ucast (a :: byte)) OR push_bit 8 (ucast (b :: byte)) OR ucast (c :: byte) =
     (word_of_nat (65536 * unat a + 256 * unat b + unat c) :: 32 word)"
proof -
  have l: "unat b < 2 ^ 8" "unat c < 2 ^ 8"
    using unsigned_less [of b, where 'a = nat] unsigned_less [of c, where 'a = nat] by simp_all
  have "2 ^ 8 * unat b + unat c < 2 ^ 16" using l by simp
  then have "push_bit 16 (word_of_nat (unat a)) OR (push_bit 8 (word_of_nat (unat b)) OR word_of_nat (unat c)) =
    (word_of_nat (2 ^ 16 * unat a + (2 ^ 8 * unat b + unat c)) :: 32 word)"
    by (simp only: push_or_word [OF l(2)] push_or_word)
  then show ?thesis by (simp only: ucast_byte or.assoc) (simp add: add.assoc del: of_nat_add of_nat_mult)
qed

lemma conv_drop_bit:
  assumes "n < 2 ^ 32"
  shows "conv_bin2ascii (ucast (drop_bit k (word_of_nat n :: 32 word))) = base64_alphabet ! (n div 2 ^ k mod 64)"
proof -
  have "unat (ucast (drop_bit k (word_of_nat n :: 32 word)) :: byte) = unat (word_of_nat n :: 32 word) div 2 ^ k mod 256"
    by (simp add: unsigned_ucast_eq take_bit_eq_mod unat_drop_bit_eq drop_bit_eq_div [where 'a = nat] del: unat_of_nat)
  then have "unat (ucast (drop_bit k (word_of_nat n :: 32 word)) :: byte) = n div 2 ^ k mod 256"
    by (simp only: unat_of_nat32 [OF assms])
  moreover have "n div 2 ^ k mod 256 mod 64 = n div 2 ^ k mod 64" by (simp add: mod_mod_cancel)
  ultimately show ?thesis by (simp only: conv_bin2ascii_digit)
qed

lemma conv_low:
  assumes "n < 2 ^ 32"
  shows "conv_bin2ascii (ucast (word_of_nat n :: 32 word)) = base64_alphabet ! (n mod 64)"
  using conv_drop_bit [OF assms, of 0] by simp

lemma digits_of_group:
  fixes a b c :: byte
  defines "n \<equiv> 65536 * unat a + 256 * unat b + unat c"
  shows "n < 2 ^ 32" "n div 2 ^ 18 mod 64 = unat a div 4"
    "n div 2 ^ 12 mod 64 = unat a mod 4 * 16 + unat b div 16"
    "n div 2 ^ 6 mod 64 = unat b mod 16 * 4 + unat c div 64" "n mod 64 = unat c mod 64"
proof -
  have l: "unat a < 256" "unat b < 256" "unat c < 256"
    using unsigned_less [of a, where 'a = nat] unsigned_less [of b, where 'a = nat] unsigned_less [of c, where 'a = nat]
    by simp_all
  have n: "n = 256 * (256 * unat a + unat b) + unat c" by (simp add: n_def)
  show "n < 2 ^ 32" using l by (simp add: n)
  have n8: "n div 256 = 256 * unat a + unat b" using l by (simp add: n)
  then have "n div 256 div 256 = unat a" using l by simp
  moreover have "n div 2 ^ 18 = n div 256 div 256 div 4" by (simp add: div_mult2_eq [symmetric])
  ultimately have "n div 2 ^ 18 = unat a div 4" by simp
  then show "n div 2 ^ 18 mod 64 = unat a div 4" using unat_byte_div(1) [of a] by simp
  have "n div 2 ^ 12 = n div 256 div 16" by (simp add: div_mult2_eq [symmetric])
  also have "\<dots> = 16 * unat a + unat b div 16" by (simp add: n8)
  also have "\<dots> = 64 * (unat a div 4) + (unat a mod 4 * 16 + unat b div 16)"
    using mult_div_mod_eq [of 4 "unat a"] by linarith
  finally show "n div 2 ^ 12 mod 64 = unat a mod 4 * 16 + unat b div 16"
    using digit_sum [OF unat_byte_div(2) [of b], of "unat a mod 4" 4] by simp
  have "n div 2 ^ 6 = 4 * (256 * unat a + unat b) + unat c div 64" by (simp add: n)
  also have "\<dots> = 64 * (16 * unat a + unat b div 16) + (unat b mod 16 * 4 + unat c div 64)"
  proof -
    have "4 * unat b = 64 * (unat b div 16) + unat b mod 16 * 4"
      using mult_div_mod_eq [of 16 "unat b"] by linarith
    then show ?thesis by simp
  qed
  finally have e: "n div 2 ^ 6 = 64 * (16 * unat a + unat b div 16) + (unat b mod 16 * 4 + unat c div 64)" .
  have m: "(64 * q + r) mod 64 = r" if "r < 64" for q r :: nat using that by simp
  show "n div 2 ^ 6 mod 64 = unat b mod 16 * 4 + unat c div 64"
    using digit_sum [OF unat_byte_div(3) [of c], of "unat b mod 16" 16] unfolding e by (intro m) simp
  have "n = 64 * (4 * (256 * unat a + unat b)) + unat c" by (simp add: n)
  then show "n mod 64 = unat c mod 64" by (simp only: mod_mult_self4)
qed

lemma conv_group:
  fixes a b c :: byte
  defines "w \<equiv> word_of_nat (65536 * unat a + 256 * unat b + unat c) :: 32 word"
  shows "conv_bin2ascii (ucast (drop_bit 18 w)) = base64_alphabet ! (unat a div 4)"
    "conv_bin2ascii (ucast (drop_bit 12 w)) = base64_alphabet ! (unat a mod 4 * 16 + unat b div 16)"
    "conv_bin2ascii (ucast (drop_bit 6 w)) = base64_alphabet ! (unat b mod 16 * 4 + unat c div 64)"
    "conv_bin2ascii (ucast w) = base64_alphabet ! (unat c mod 64)"
  unfolding w_def by (simp_all only: conv_drop_bit conv_low digits_of_group)

lemma base64_text_Nil [simp]: "base64_text [] = []"
  by (simp add: base64_text_def)

lemma base64_text_group:
  "base64_text (a # b # c # bs) = map ((!) base64_alphabet) (base64_digits [a, b, c]) @ base64_text bs"
  by (simp add: base64_text_def)

lemma length_base64_digits: "length (base64_digits bs) + (3 - length bs mod 3) mod 3 = 4 * ((length bs + 2) div 3)"
proof (induction bs rule: base64_digits.induct)
  case (4 a b c bs)
  have "(5 + length bs) div 3 = Suc ((length bs + 2) div 3)" by presburger
  then show ?case using 4 by simp
qed simp_all

lemma length_base64_text [simp]: "length (base64_text bs) = 4 * ((length bs + 2) div 3)"
  using length_base64_digits [of bs] by (simp add: base64_text_def)

lemma three_items: "3 \<le> length xs \<Longrightarrow> xs = xs ! 0 # xs ! 1 # xs ! 2 # drop 3 xs"
  by (cases xs; cases "tl xs"; cases "tl (tl xs)") (auto simp: numeral_eq_Suc)

text \<open>What the loop of \<open>EVP_EncodeBlock\<close> stores.\<close>

lemma encode_block_loop_text:
  assumes "n \<le> length src" "p + length (base64_text (take n src)) \<le> length dst"
  shows "encode_block_loop dst p src n ret =
    (mem_write dst p (base64_text (take n src)), p + length (base64_text (take n src)),
     ret + length (base64_text (take n src)))"
  using assms
proof (induction dst p src n ret rule: encode_block_loop.induct)
  case (1 dst p src n ret)
  consider "n = 0" | a b c where "3 \<le> n" "src = a # b # c # drop 3 src" |
    a b where "n = 2" "take n src = [a, b]" "src ! 0 = a" "src ! 1 = b" | a where "n = 1" "take n src = [a]" "src ! 0 = a"
  proof -
    have "n = 0 \<or> 3 \<le> n \<or> n = 2 \<or> n = 1" by auto
    moreover have "src = src ! 0 # src ! 1 # src ! 2 # drop 3 src" if "3 \<le> n"
      using that 1(2) by (intro three_items) simp
    moreover have "take n src = [src ! 0, src ! 1]" if "n = 2"
      using that 1(2) by (cases src; cases "tl src") (auto simp: numeral_eq_Suc)
    moreover have "take n src = [src ! 0]" if "n = 1"
      using that 1(2) by (cases src) auto
    ultimately show thesis using that by blast
  qed
  then show ?case
  proof cases
    case 1
    then show ?thesis by (simp add: encode_block_loop.simps [of _ _ _ 0])
  next
    case 2
    have t: "take n src = a # b # c # take (n - 3) (drop 3 src)"
    proof -
      have "take n src = take 3 src @ take (n - 3) (drop 3 src)"
        using 2(1) take_add [of 3 "n - 3" src] by simp
      moreover have "take 3 src = [a, b, c]" by (subst 2(2)) simp
      ultimately show ?thesis by simp
    qed
    have s: "src ! 0 = a" "src ! 1 = b" "src ! 2 = c" by (subst 2(2), simp)+
    let ?q = "map ((!) base64_alphabet) (base64_digits [a, b, c])"
    have len: "p + 4 + length (base64_text (take (n - 3) (drop 3 src))) \<le> length dst"
      using "1.prems"(2) by (simp only: t base64_text_group) simp
    have lq: "length ?q = 4" by simp
    have "mem_write (mem_write dst p ?q) (p + length ?q) (base64_text (take (n - 3) (drop 3 src))) =
      mem_write dst p (?q @ base64_text (take (n - 3) (drop 3 src)))"
      using len by (intro mem_write_append) simp
    then have m: "mem_write (mem_write dst p ?q) (p + 4) (base64_text (take (n - 3) (drop 3 src))) =
      mem_write dst p (base64_text (take n src))"
      by (simp only: t base64_text_group lq)
    note simps = s s(2) [unfolded One_nat_def] Let_def group_of_bytes conv_group
    have "encode_block_loop dst p src n ret =
      encode_block_loop (mem_write dst p ?q) (p + 4) (drop 3 src) (n - 3) (ret + 4)"
      using 2(1) by (subst encode_block_loop.simps) (simp add: simps del: of_nat_add of_nat_mult)
    also have "\<dots> = (mem_write (mem_write dst p ?q) (p + 4) (base64_text (take (n - 3) (drop 3 src))),
      p + 4 + length (base64_text (take (n - 3) (drop 3 src))), ret + 4 + length (base64_text (take (n - 3) (drop 3 src))))"
      using "1.IH" [OF _ 2(1) refl] 2(1) "1.prems"(1) len
      by (simp add: simps del: of_nat_add of_nat_mult length_base64_text)
    finally show ?thesis by (simp only: m t base64_text_group) simp
  next
    case 3
    then show ?thesis
      using group_of_bytes [of a b 0] conv_group [of a b 0]
      by (subst encode_block_loop.simps)
        (simp add: Let_def base64_text_def del: of_nat_add of_nat_mult drop_bit_or)
  next
    case 4
    then show ?thesis
      using group_of_bytes [of a 0 0] conv_group [of a 0 0]
      by (subst encode_block_loop.simps)
        (simp add: Let_def base64_text_def numeral_2_eq_2 del: of_nat_add of_nat_mult drop_bit_or)
  qed
qed

lemma EVP_EncodeBlock_text:
  assumes "n \<le> length src" "p + length (base64_text (take n src)) < length dst"
  shows "EVP_EncodeBlock dst p src n =
    (mem_write dst p (base64_text (take n src) @ [0]), length (base64_text (take n src)))"
proof -
  have "mem_write (mem_write dst p (base64_text (take n src))) (p + length (base64_text (take n src))) [0] =
    mem_write dst p (base64_text (take n src) @ [0])"
    using assms(2) by (intro mem_write_append) simp
  then show ?thesis
    using assms(2) unfolding EVP_EncodeBlock_def
    by (simp only: encode_block_loop_text [OF assms(1) less_imp_le [OF assms(2)]] prod.case) simp
qed

lemma EVP_EncodedLength_text:
  assumes "length bs < 2 ^ 63"
  shows "EVP_EncodedLength (length bs) = Some (length (base64_text bs) + 1)"
proof -
  have "(length bs + 2) div 3 < 2 ^ 62" using assms by (simp add: div_less_iff_less_mult)
  then show ?thesis using assms by (simp add: EVP_EncodedLength_def size_wrap_def Let_def)
qed

section \<open>Decoding four characters\<close>

lemma value_of_group:
  assumes "w < 2 ^ 6" "z < 2 ^ 6" "y < 2 ^ 6"
  shows "push_bit 18 (word_of_nat x) OR push_bit 12 (word_of_nat y) OR push_bit 6 (word_of_nat z) OR word_of_nat w =
    (word_of_nat (262144 * x + 4096 * y + 64 * z + w) :: 32 word)"
proof -
  have "2 ^ 6 * z + w < 2 ^ 12" using assms by simp
  moreover from this have "2 ^ 12 * y + (2 ^ 6 * z + w) < 2 ^ 18" using assms by simp
  ultimately have "push_bit 18 (word_of_nat x) OR (push_bit 12 (word_of_nat y) OR
      (push_bit 6 (word_of_nat z) OR word_of_nat w)) =
    (word_of_nat (2 ^ 18 * x + (2 ^ 12 * y + (2 ^ 6 * z + w))) :: 32 word)"
    by (simp only: push_or_word [OF assms(1)] push_or_word)
  then show ?thesis by (simp only: or.assoc) (simp add: add.assoc del: of_nat_add of_nat_mult)
qed

lemma bytes_of_group:
  fixes x y z w :: nat
  defines "v \<equiv> word_of_nat (262144 * x + 4096 * y + 64 * z + w) :: 32 word"
  assumes "w < 64" "z < 64" "y < 64" "x < 64"
  shows "ucast (drop_bit 16 v) = (word_of_nat (x * 4 + y div 16) :: byte)"
    "ucast (drop_bit 8 v) = (word_of_nat (y mod 16 * 16 + z div 4) :: byte)"
    "ucast v = (word_of_nat (z mod 4 * 64 + w) :: byte)"
proof -
  let ?n = "262144 * x + 4096 * y + 64 * z + w"
  have "?n < 2 ^ 32" using assms by simp
  then have u: "unat v = ?n" unfolding v_def by (rule unat_of_nat32)
  have b: "ucast (drop_bit k v) = (word_of_nat m :: byte)" if "?n div 2 ^ k mod 256 = m mod 256" for k m
  proof -
    have "unat (ucast (drop_bit k v) :: byte) = ?n div 2 ^ k mod 256"
      by (simp add: unsigned_ucast_eq take_bit_eq_mod unat_drop_bit_eq drop_bit_eq_div [where 'a = nat] u)
    then show ?thesis using that by (simp add: word_unat_eq_iff unat_of_nat)
  qed
  have yz: "y = 16 * (y div 16) + y mod 16" "z = 4 * (z div 4) + z mod 4" by simp_all
  have m: "(n * q + r) mod n = r mod n" "r < n \<Longrightarrow> (n * q + r) div n = q" for n q r :: nat by simp_all
  have "64 * z + w < 4096" using assms by simp
  then have "(4096 * (64 * x + y) + (64 * z + w)) div 4096 = 64 * x + y" by (rule m)
  then have d12: "?n div 4096 = 64 * x + y" by (simp add: algebra_simps)
  have "?n div 2 ^ 16 = ?n div 4096 div 16" by (simp add: div_mult2_eq [symmetric])
  also have "\<dots> = x * 4 + y div 16" by (simp add: d12)
  finally show "ucast (drop_bit 16 v) = (word_of_nat (x * 4 + y div 16) :: byte)"
    by (intro b) simp
  have "64 * (z mod 4) + w < 256" using assms by (simp add: mod_less_divisor)
  then have "(256 * (1024 * x + 16 * y + z div 4) + (64 * (z mod 4) + w)) div 256 = 1024 * x + 16 * y + z div 4"
    by (rule m)
  moreover have n: "?n = 256 * (1024 * x + 16 * y + z div 4) + (64 * (z mod 4) + w)"
  proof -
    have "64 * z = 256 * (z div 4) + 64 * (z mod 4)" using yz(2) by linarith
    then show ?thesis by simp
  qed
  ultimately have "?n div 2 ^ 8 = 1024 * x + 16 * y + z div 4" unfolding n by simp
  also have "\<dots> = 256 * (4 * x + y div 16) + (y mod 16 * 16 + z div 4)"
  proof -
    have "16 * y = 256 * (y div 16) + y mod 16 * 16" using yz(1) by linarith
    then show ?thesis by simp
  qed
  finally show "ucast (drop_bit 8 v) = (word_of_nat (y mod 16 * 16 + z div 4) :: byte)"
    by (intro b) (simp only: m)
  have "?n mod 256 = (z mod 4 * 64 + w) mod 256" unfolding n by (simp only: m(1) mult.commute [of 64])
  then show "ucast v = (word_of_nat (z mod 4 * 64 + w) :: byte)" using b [of 0] by simp
qed

text \<open>A text: digits, then padding.\<close>

definition base64_chars :: "nat list \<Rightarrow> nat \<Rightarrow> byte list" where
  "base64_chars ds pad = map ((!) base64_alphabet) ds @ replicate pad 61"

lemma length_base64_chars [simp]: "length (base64_chars ds pad) = length ds + pad"
  by (simp add: base64_chars_def)

lemma alphabet_nth: "d < 64 \<Longrightarrow> base64_alphabet ! d \<noteq> 61"
  using alphabet_not_equals nth_mem [of d base64_alphabet] by (metis length_base64_alphabet)

lemma decode_quad_values:
  fixes x y z w :: nat
  assumes bin: "base64_ascii_to_bin (inp ! 0) = word_of_nat x" "base64_ascii_to_bin (inp ! 1) = word_of_nat y"
      "base64_ascii_to_bin (inp ! 2) = word_of_nat z" "base64_ascii_to_bin (inp ! 3) = word_of_nat w"
    and l: "x < 64" "y < 64" "z < 64" "w < 64"
  defines "p \<equiv> (\<lambda>i. if inp ! i = 61 then 1 else 0 :: nat)"
  shows "base64_decode_quad inp =
    (let pat = 8 * p 0 + 4 * p 1 + 2 * p 2 + p 3 in
     if pat = 0 then Some (base64_bytes [x, y, z, w]) else if pat = 1 then Some (base64_bytes [x, y, z])
     else if pat = 3 then Some (base64_bytes [x, y]) else None)"
proof -
  have u: "unat (word_of_nat d :: byte) = d" if "d < 64" for d using that by (simp add: unat_of_nat)
  have ff: "(word_of_nat d :: byte) \<noteq> 0xff" if "d < 64" for d using u [OF that] that by auto
  have uc: "ucast (word_of_nat d :: byte) = (word_of_nat d :: 32 word)" if "d < 64" for d
    by (simp only: ucast_byte u [OF that])
  have s: "w < 2 ^ 6" "z < 2 ^ 6" "y < 2 ^ 6" using l by simp_all
  show ?thesis unfolding base64_decode_quad_def Let_def p_def bin
    by (simp only: ff l uc value_of_group [OF s] bytes_of_group [OF l(4,3,2,1)] base64_bytes.simps append.simps)
       simp
qed

lemma decode_quad_digits:
  assumes "x < 64" "y < 64" "z < 64" "w < 64"
  shows "base64_decode_quad (base64_chars [x, y, z, w] 0 @ rest) = Some (base64_bytes [x, y, z, w])"
    "base64_decode_quad (base64_chars [x, y, z] 1 @ rest) = Some (base64_bytes [x, y, z])"
    "base64_decode_quad (base64_chars [x, y] 2 @ rest) = Some (base64_bytes [x, y])"
proof -
  have "base64_decode_quad (base64_chars [x, y, z, w] 0 @ rest) = Some (base64_bytes [x, y, z, w])"
    by (subst decode_quad_values [OF _ _ _ _ assms])
      (simp_all add: base64_chars_def ascii_to_bin_digit assms alphabet_nth Let_def)
  moreover have "base64_decode_quad (base64_chars [x, y, z] 1 @ rest) = Some (base64_bytes [x, y, z])"
    by (subst decode_quad_values [OF _ _ _ _ assms(1-3), of _ 0])
      (simp_all add: base64_chars_def ascii_to_bin_digit assms alphabet_nth Let_def)
  moreover have "base64_decode_quad (base64_chars [x, y] 2 @ rest) = Some (base64_bytes [x, y])"
    by (subst decode_quad_values [OF _ _ _ _ assms(1-2), of _ 0 0])
      (simp_all add: base64_chars_def ascii_to_bin_digit assms alphabet_nth Let_def numeral_2_eq_2 numeral_3_eq_3)
  ultimately show
    "base64_decode_quad (base64_chars [x, y, z, w] 0 @ rest) = Some (base64_bytes [x, y, z, w])"
    "base64_decode_quad (base64_chars [x, y, z] 1 @ rest) = Some (base64_bytes [x, y, z])"
    "base64_decode_quad (base64_chars [x, y] 2 @ rest) = Some (base64_bytes [x, y])"
    by blast+
qed

lemma four_items: "4 \<le> length xs \<Longrightarrow> xs = xs ! 0 # xs ! 1 # xs ! 2 # xs ! 3 # drop 4 xs"
  by (cases xs; cases "tl xs"; cases "tl (tl xs)"; cases "tl (tl (tl xs))") (auto simp: numeral_eq_Suc)

definition base64_quad :: "byte list \<Rightarrow> nat list \<Rightarrow> nat \<Rightarrow> bool" where
  "base64_quad cs ds pad \<longleftrightarrow>
     cs = base64_chars ds pad \<and> (\<forall>d\<in>set ds. d < 64) \<and> pad \<le> 2 \<and> length ds + pad = 4"

lemma decode_quad_accepts:
  assumes "base64_quad (take 4 inp) ds pad"
  shows "base64_decode_quad inp = Some (base64_bytes ds)"
proof -
  have q: "take 4 inp = base64_chars ds pad" "\<forall>d\<in>set ds. d < 64" "pad \<le> 2" "length ds + pad = 4"
    using assms by (simp_all add: base64_quad_def)
  have i: "inp = base64_chars ds pad @ drop 4 inp" by (metis append_take_drop_id q(1))
  have "pad = 0 \<and> length ds = 4 \<or> pad = 1 \<and> length ds = 3 \<or> pad = 2 \<and> length ds = 2" using q(3,4) by auto
  then consider x y z w where "pad = 0" "ds = [x, y, z, w]" | x y z where "pad = 1" "ds = [x, y, z]"
    | x y where "pad = 2" "ds = [x, y]"
    by (auto simp: numeral_eq_Suc length_Suc_conv)
  then show ?thesis
  proof cases
    case 1
    show ?thesis using q(2) by (subst i) (simp only: 1, rule decode_quad_digits, simp_all)
  next
    case 2
    show ?thesis using q(2) by (subst i) (simp only: 2, rule decode_quad_digits(2) [where w = 0], simp_all)
  next
    case 3
    show ?thesis using q(2) by (subst i) (simp only: 3, rule decode_quad_digits(3) [where z = 0 and w = 0], simp_all)
  qed
qed

text \<open>The groups of four characters that are accepted, and what they stand for.\<close>

lemma base64_decode_quad_iff:
  assumes "4 \<le> length inp"
  shows "base64_decode_quad inp = Some bs \<longleftrightarrow>
    (\<exists>ds pad. base64_quad (take 4 inp) ds pad \<and> bs = base64_bytes ds)"
proof
  show "\<exists>ds pad. base64_quad (take 4 inp) ds pad \<and> bs = base64_bytes ds \<Longrightarrow> base64_decode_quad inp = Some bs"
    using decode_quad_accepts by blast
next
  assume d: "base64_decode_quad inp = Some bs"
  let ?bin = "\<lambda>i. base64_ascii_to_bin (inp ! i)"
  have ne: "?bin 0 \<noteq> 0xff" "?bin 1 \<noteq> 0xff" "?bin 2 \<noteq> 0xff" "?bin 3 \<noteq> 0xff"
    using d by (auto simp: base64_decode_quad_def Let_def split: if_splits)
  have dig: "\<exists>k<64. inp ! i = base64_alphabet ! k" if "?bin i \<noteq> 0xff" "inp ! i \<noteq> 61" for i
    using ascii_to_bin_valid [of "inp ! i"] that by (auto simp: in_set_conv_nth)
  have "inp ! 0 \<noteq> 61" "inp ! 1 \<noteq> 61" "inp ! 2 = 61 \<Longrightarrow> inp ! 3 = 61"
    using d by (auto simp: base64_decode_quad_def Let_def split: if_splits)
  then consider "inp ! 2 \<noteq> 61" "inp ! 3 \<noteq> 61" | "inp ! 2 \<noteq> 61" "inp ! 3 = 61" | "inp ! 2 = 61" "inp ! 3 = 61" by blast
  then have "\<exists>ds pad. base64_quad (take 4 inp) ds pad"
  proof cases
    case 1
    obtain x y z w where k: "x < 64" "inp ! 0 = base64_alphabet ! x" "y < 64" "inp ! 1 = base64_alphabet ! y"
        "z < 64" "inp ! 2 = base64_alphabet ! z" "w < 64" "inp ! 3 = base64_alphabet ! w"
      using dig [OF ne(1)] dig [OF ne(2)] dig [OF ne(3)] dig [OF ne(4)] 1
        \<open>inp ! 0 \<noteq> 61\<close> \<open>inp ! 1 \<noteq> 61\<close> by blast
    then have "base64_quad (take 4 inp) [x, y, z, w] 0"
      by (subst four_items [OF assms]) (simp add: base64_quad_def base64_chars_def)
    then show ?thesis by blast
  next
    case 2
    obtain x y z where k: "x < 64" "inp ! 0 = base64_alphabet ! x" "y < 64" "inp ! 1 = base64_alphabet ! y"
        "z < 64" "inp ! 2 = base64_alphabet ! z"
      using dig [OF ne(1)] dig [OF ne(2)] dig [OF ne(3)] 2 \<open>inp ! 0 \<noteq> 61\<close> \<open>inp ! 1 \<noteq> 61\<close> by blast
    then have "base64_quad (take 4 inp) [x, y, z] 1"
      using 2 by (subst four_items [OF assms]) (simp add: base64_quad_def base64_chars_def)
    then show ?thesis by blast
  next
    case 3
    obtain x y where k: "x < 64" "inp ! 0 = base64_alphabet ! x" "y < 64" "inp ! 1 = base64_alphabet ! y"
      using dig [OF ne(1)] dig [OF ne(2)] \<open>inp ! 0 \<noteq> 61\<close> \<open>inp ! 1 \<noteq> 61\<close> by blast
    then have "base64_quad (take 4 inp) [x, y] 2"
      using 3 by (subst four_items [OF assms]) (simp add: base64_quad_def base64_chars_def numeral_2_eq_2)
    then show ?thesis by blast
  qed
  then obtain ds pad where q: "base64_quad (take 4 inp) ds pad" by blast
  moreover have "bs = base64_bytes ds" using decode_quad_accepts [OF q] d by simp
  ultimately show "\<exists>ds pad. base64_quad (take 4 inp) ds pad \<and> bs = base64_bytes ds" by blast
qed

section \<open>Decoding a block\<close>

text \<open>The texts that are accepted: whole groups of digits, the last one padded.\<close>

definition base64_valid :: "byte list \<Rightarrow> nat list \<Rightarrow> nat \<Rightarrow> bool" where
  "base64_valid cs ds pad \<longleftrightarrow> cs = base64_chars ds pad \<and> (\<forall>d\<in>set ds. d < 64) \<and> pad \<le> 2"

lemma base64_valid_Nil: "base64_valid [] ds pad \<longleftrightarrow> ds = [] \<and> pad = 0"
  by (auto simp: base64_valid_def base64_chars_def)

lemma base64_valid_quad: "length q = 4 \<Longrightarrow> base64_valid q ds pad \<longleftrightarrow> base64_quad q ds pad"
  by (auto simp: base64_valid_def base64_quad_def)

lemma base64_chars_append: "base64_chars (qs @ ds) pad = base64_chars qs 0 @ base64_chars ds pad"
  by (simp add: base64_chars_def)

lemma base64_valid_append:
  assumes "length q = 4" "r \<noteq> []" "length r mod 4 = 0"
  shows "base64_valid (q @ r) ds pad \<longleftrightarrow>
    (\<exists>qs ds'. ds = qs @ ds' \<and> base64_quad q qs 0 \<and> base64_valid r ds' pad)"
proof
  assume v: "base64_valid (q @ r) ds pad"
  then have len: "length q + length r = length ds + pad" "pad \<le> 2" "\<forall>d\<in>set ds. d < 64"
      "q @ r = base64_chars ds pad"
    by (auto simp: base64_valid_def dest: arg_cong [of _ _ length])
  have "4 \<le> length r" using assms(2,3) by (cases "length r < 4") auto
  then have l4: "length (take 4 ds) = 4" using assms(1) len(1,2) by simp
  have "q @ r = base64_chars (take 4 ds) 0 @ base64_chars (drop 4 ds) pad"
    using len(4) by (simp flip: base64_chars_append)
  then have "q = base64_chars (take 4 ds) 0 \<and> r = base64_chars (drop 4 ds) pad"
    using assms(1) l4 by (simp add: append_eq_append_conv)
  then show "\<exists>qs ds'. ds = qs @ ds' \<and> base64_quad q qs 0 \<and> base64_valid r ds' pad"
    using len(2,3) l4 by (intro exI [of _ "take 4 ds"] exI [of _ "drop 4 ds"])
      (auto simp: base64_quad_def base64_valid_def dest: in_set_takeD in_set_dropD)
next
  assume "\<exists>qs ds'. ds = qs @ ds' \<and> base64_quad q qs 0 \<and> base64_valid r ds' pad"
  then show "base64_valid (q @ r) ds pad"
    by (auto simp: base64_quad_def base64_valid_def base64_chars_append)
qed

lemma base64_bytes_append: "length qs = 4 \<Longrightarrow> base64_bytes (qs @ ds) = base64_bytes qs @ base64_bytes ds"
proof -
  assume "length qs = 4"
  then obtain x y z w where "qs = [x, y, z, w]" by (auto simp: numeral_eq_Suc length_Suc_conv)
  then show ?thesis by simp
qed

lemma length_base64_bytes: "length (base64_bytes ds) = length ds * 3 div 4"
proof (induction ds rule: base64_bytes.induct)
  case (1 x y z w ds)
  have "(12 + length ds * 3) div 4 = 3 + length ds * 3 div 4" by simp
  then show ?case using 1 by simp
qed simp_all

lemma quad_length: "base64_quad q ds pad \<Longrightarrow> length (base64_bytes ds) = 3 - pad"
proof -
  assume "base64_quad q ds pad"
  then have "length ds = 4 - pad" "pad = 0 \<or> pad = 1 \<or> pad = 2" by (auto simp: base64_quad_def)
  then show ?thesis by (auto simp: length_base64_bytes)
qed

lemma quad_unique_pad: "base64_quad q ds pad \<Longrightarrow> base64_quad q ds' 0 \<Longrightarrow> pad = 0"
proof -
  assume a: "base64_quad q ds pad" "base64_quad q ds' 0"
  then have "last q \<noteq> 61"
    by (cases ds' rule: rev_cases) (auto simp: base64_quad_def base64_chars_def alphabet_nth)
  moreover have "last q = 61" if "pad \<noteq> 0"
    using a(1) that by (auto simp: base64_quad_def base64_chars_def last_append)
  ultimately show "pad = 0" by blast
qed

lemma decode_base64_loop_iff:
  assumes "n \<le> length inp" "n mod 4 = 0" "p + n div 4 * 3 \<le> length out"
  shows "decode_base64_loop out p k inp n = (True, out', m) \<longleftrightarrow>
    (\<exists>ds pad. base64_valid (take n inp) ds pad \<and> out' = mem_write out p (base64_bytes ds) \<and>
       m = k + length (base64_bytes ds))"
  using assms
proof (induction out p k inp n rule: decode_base64_loop.induct)
  case (1 out p k inp n)
  show ?case
  proof (cases "n = 0")
    case True
    then show ?thesis by (subst decode_base64_loop.simps) (auto simp: base64_valid_Nil)
  next
    case False
    then have n4: "4 \<le> n" using "1.prems"(2) by (cases "n < 4") auto
    then have t: "take n inp = take 4 inp @ take (n - 4) (drop 4 inp)"
      using take_add [of 4 "n - 4" inp] by simp
    have l4: "4 \<le> length inp" "length (take 4 inp) = 4" using n4 "1.prems"(1) by simp_all
    have lr: "length (take (n - 4) (drop 4 inp)) = n - 4" using "1.prems"(1) by simp
    have nm: "(n - 4) mod 4 = 0" using "1.prems"(2) n4 by (metis le_mod_geq)
    have nd: "n div 4 = Suc ((n - 4) div 4)" using n4 by (simp add: le_div_geq)
    have r: "take (n - 4) (drop 4 inp) \<noteq> []" "length (take (n - 4) (drop 4 inp)) mod 4 = 0" if "n \<noteq> 4"
      using that n4 lr nm by (metis diff_is_0_eq le_antisym list.size(3), metis)
    note va = base64_valid_append [OF l4(2) r]
    show ?thesis
    proof (cases "base64_decode_quad inp")
      case None
      have "\<not> base64_quad (take 4 inp) ds pad" for ds pad
        using base64_decode_quad_iff [OF l4(1)] None by (metis option.distinct(1))
      then have "\<not> base64_valid (take n inp) ds pad" for ds pad
        using va [of ds pad] base64_valid_quad [OF l4(2), of ds pad]
        by (cases "n = 4") (auto simp: t)
      then show ?thesis using False None by (subst decode_base64_loop.simps) simp
    next
      case (Some bs)
      then obtain qs pq where q: "base64_quad (take 4 inp) qs pq" "bs = base64_bytes qs"
        using base64_decode_quad_iff [OF l4(1)] by blast
      note lb = quad_length [OF q(1)]
      have lq: "pq \<le> 2" "length bs \<le> 3" using q lb by (auto simp: base64_quad_def)
      show ?thesis
      proof (cases "n = 4")
        case True
        have e: "decode_base64_loop out p k inp n = (True, mem_write out p bs, k + length bs)"
          using Some True by (subst decode_base64_loop.simps) (simp add: Let_def decode_base64_loop.simps [of _ _ _ _ 0])
        have u: "base64_bytes ds = bs" if "base64_quad (take 4 inp) ds pad" for ds pad
          using decode_quad_accepts [OF that] Some by simp
        show ?thesis
          unfolding e [unfolded True] True base64_valid_quad [OF l4(2)]
        proof (intro iffI)
          assume "(True, mem_write out p bs, k + length bs) = (True, out', m)"
          then show "\<exists>ds pad. base64_quad (take 4 inp) ds pad \<and> out' = mem_write out p (base64_bytes ds) \<and>
              m = k + length (base64_bytes ds)"
            using q by (intro exI [of _ qs] exI [of _ pq]) simp
        qed (use u in auto)
      next
        case n: False
        note va = va [OF n n]
        show ?thesis
        proof (cases "pq = 0")
          case False
          then have "length bs \<noteq> 3" using lb q(2) by simp
          moreover have "\<not> base64_valid (take n inp) ds pad" for ds pad
            using va [of ds pad] quad_unique_pad [OF q(1)] False by (auto simp: t)
          ultimately show ?thesis using \<open>n \<noteq> 0\<close> n Some by (subst decode_base64_loop.simps) (simp add: Let_def)
        next
          case True
          then have l3: "length bs = 3" using lb q(2) by simp
          have step: "decode_base64_loop out p k inp n =
            decode_base64_loop (mem_write out p bs) (p + 3) (k + 3) (drop 4 inp) (n - 4)"
            using \<open>n \<noteq> 0\<close> n Some l3 by (subst decode_base64_loop.simps) (simp add: Let_def)
          have room: "p + 3 + (n - 4) div 4 * 3 \<le> length out" using "1.prems"(3) nd by simp
          then have lm: "length (mem_write out p bs) = length out" using l3 by simp
          have IH: "decode_base64_loop (mem_write out p bs) (p + 3) (k + 3) (drop 4 inp) (n - 4) = (True, out', m) \<longleftrightarrow>
            (\<exists>ds pad. base64_valid (take (n - 4) (drop 4 inp)) ds pad \<and>
               out' = mem_write (mem_write out p bs) (p + 3) (base64_bytes ds) \<and> m = k + 3 + length (base64_bytes ds))"
            using "1.IH" [OF \<open>n \<noteq> 0\<close> Some refl] "1.prems"(1) n l3 nm room lm by simp
          have w: "mem_write (mem_write out p bs) (p + 3) (base64_bytes ds) = mem_write out p (bs @ base64_bytes ds)"
            if "base64_valid (take (n - 4) (drop 4 inp)) ds pad" for ds pad
          proof -
            have "length ds + pad = n - 4" using that lr by (simp add: base64_valid_def)
            then have "length (base64_bytes ds) \<le> (n - 4) div 4 * 3"
            proof -
              obtain j where j: "n - 4 = 4 * j" using nm by (auto simp: mod_eq_0_iff_dvd elim: dvdE)
              have "length ds * 3 div 4 \<le> 4 * j * 3 div 4"
                using \<open>length ds + pad = n - 4\<close> j by (intro div_le_mono) simp
              then show ?thesis by (simp add: length_base64_bytes j)
            qed
            then show ?thesis using room l3 mem_write_append [of p bs "base64_bytes ds" out] by simp
          qed
          have q4: "length qs = 4" using q(1) True by (simp add: base64_quad_def)
          have eq: "base64_bytes qs' = bs \<and> length qs' = 4" if "base64_quad (take 4 inp) qs' 0" for qs'
            using decode_quad_accepts [OF that] Some that by (simp add: base64_quad_def)
          show ?thesis
            unfolding step IH t va
          proof (intro iffI; elim exE conjE)
            fix ds pad
            assume a: "base64_valid (take (n - 4) (drop 4 inp)) ds pad"
              "out' = mem_write (mem_write out p bs) (p + 3) (base64_bytes ds)" "m = k + 3 + length (base64_bytes ds)"
            show "\<exists>ds pad. (\<exists>qs ds'. ds = qs @ ds' \<and> base64_quad (take 4 inp) qs 0 \<and>
                base64_valid (take (n - 4) (drop 4 inp)) ds' pad) \<and>
              out' = mem_write out p (base64_bytes ds) \<and> m = k + length (base64_bytes ds)"
              using a q True w [OF a(1)] l3 q4
              by (intro exI [of _ "qs @ ds"] exI [of _ pad]) (auto simp: base64_bytes_append)
          next
            fix ds pad qs' ds'
            assume a: "out' = mem_write out p (base64_bytes ds)" "m = k + length (base64_bytes ds)" "ds = qs' @ ds'"
              "base64_quad (take 4 inp) qs' 0" "base64_valid (take (n - 4) (drop 4 inp)) ds' pad"
            show "\<exists>ds pad. base64_valid (take (n - 4) (drop 4 inp)) ds pad \<and>
              out' = mem_write (mem_write out p bs) (p + 3) (base64_bytes ds) \<and> m = k + 3 + length (base64_bytes ds)"
              using a eq [OF a(4)] w [OF a(5)] l3 q4
              by (intro exI [of _ ds'] exI [of _ pad]) (auto simp: base64_bytes_append)
          qed
        qed
      qed
    qed
  qed
qed

section \<open>The streaming encoder\<close>

text \<open>\<open>bs\<close> has been stored at offset \<open>p\<close>; what lies behind is not looked at.\<close>

definition stored :: "nat \<Rightarrow> byte list \<Rightarrow> byte list \<Rightarrow> byte list \<Rightarrow> bool" where
  "stored p bs m m' \<longleftrightarrow> length m' = length m \<and> take (p + length bs) m' = take p m @ bs"

lemma stored_Nil: "p \<le> length m \<Longrightarrow> stored p [] m m"
  by (simp add: stored_def)

lemma stored_mem_write: "p + length bs \<le> length m \<Longrightarrow> stored p bs m (mem_write m p bs)"
  by (simp add: stored_def)

lemma stored_append: "stored p as a b \<Longrightarrow> stored (p + length as) bs b c \<Longrightarrow> stored p (as @ bs) a c"
  by (simp add: stored_def add.assoc)

lemma stored_behind: "stored p bs a b \<Longrightarrow> p + length bs \<le> n \<Longrightarrow> n \<le> length b \<Longrightarrow>
    n + length cs \<le> length b \<Longrightarrow> stored p bs a (mem_write b n cs)"
  by (simp add: stored_def take_mem_write_le)

text \<open>A line: a text, the newline that replaces its terminator, and a new terminator.\<close>

lemma stored_line:
  assumes "p + length t + 2 \<le> length m"
  shows "stored p (t @ [10]) m (mem_write (mem_write (mem_write m p (t @ [0])) (p + length t) [10]) (p + length t + 1) [0])"
proof (rule stored_behind)
  have "stored p t m (mem_write m p (t @ [0]))"
  proof -
    have "mem_write m p (t @ [0]) = mem_write (mem_write m p t) (p + length t) [0]"
      using assms by (subst mem_write_append) simp_all
    then show ?thesis
      using stored_behind [OF stored_mem_write, of p t m "p + length t" "[0]"] assms by simp
  qed
  moreover have "stored (p + length t) [10] (mem_write m p (t @ [0]))
    (mem_write (mem_write m p (t @ [0])) (p + length t) [10])"
    using assms by (intro stored_mem_write) simp
  ultimately show "stored p (t @ [10]) m (mem_write (mem_write m p (t @ [0])) (p + length t) [10])"
    by (rule stored_append)
qed (use assms in simp_all)

text \<open>Whole lines of 48 bytes, and the text with its last, short, line.\<close>

function base64_lines :: "byte list \<Rightarrow> byte list" where
  "base64_lines bs =
     (if length bs < ENCODE_DATA then []
      else base64_text (take ENCODE_DATA bs) @ 10 # base64_lines (drop ENCODE_DATA bs))"
  by pat_completeness auto
termination
  by (relation "measure length") (auto simp: ENCODE_DATA_def)

declare base64_lines.simps [simp del]

definition base64_rest :: "byte list \<Rightarrow> byte list" where
  "base64_rest bs = drop (ENCODE_DATA * (length bs div ENCODE_DATA)) bs"

definition base64_pem :: "byte list \<Rightarrow> byte list" where
  "base64_pem bs = base64_lines bs @ (if base64_rest bs = [] then [] else base64_text (base64_rest bs) @ [10])"

lemma length_base64_rest: "length (base64_rest bs) = length bs mod ENCODE_DATA"
  by (simp add: base64_rest_def minus_mult_div_eq_mod)

lemma base64_rest_short: "length bs < ENCODE_DATA \<Longrightarrow> base64_rest bs = bs"
  by (simp add: base64_rest_def)

lemma base64_rest_drop: "ENCODE_DATA \<le> length bs \<Longrightarrow> base64_rest (drop ENCODE_DATA bs) = base64_rest bs"
  by (simp add: base64_rest_def le_div_geq ENCODE_DATA_def add.commute)

lemma length_base64_lines: "length (base64_lines bs) = 65 * (length bs div ENCODE_DATA)"
  by (induction bs rule: base64_lines.induct)
    (subst base64_lines.simps, simp add: le_div_geq ENCODE_DATA_def)

lemma base64_lines_append:
  "length as mod ENCODE_DATA = 0 \<Longrightarrow> base64_lines (as @ bs) = base64_lines as @ base64_lines bs"
proof (induction as rule: base64_lines.induct)
  case (1 as)
  show ?case
  proof (cases "as = []")
    case True
    then show ?thesis by (subst (2) base64_lines.simps) (simp add: ENCODE_DATA_def)
  next
    case False
    then have l: "ENCODE_DATA \<le> length as" using 1(2) by (cases "length as < ENCODE_DATA") auto
    then have "length (drop ENCODE_DATA as) mod ENCODE_DATA = 0" using 1(2) by (simp add: le_mod_geq)
    then show ?thesis using 1(1) l by (subst (1 2) base64_lines.simps) simp
  qed
qed

lemma encode_lines_text:
  assumes "n \<le> length inp" "p + length (base64_lines (take n inp)) < length out"
    "tot + length (base64_lines (take n inp)) < 2 ^ 64"
  shows "\<exists>out'. encode_lines out p inp n tot =
      (out', p + length (base64_lines (take n inp)), drop (n - n mod ENCODE_DATA) inp, n mod ENCODE_DATA,
       Some (tot + length (base64_lines (take n inp)))) \<and>
    stored p (base64_lines (take n inp)) out out'"
  using assms
proof (induction out p inp n tot rule: encode_lines.induct)
  case (1 out p inp n tot)
  show ?case
  proof (cases "ENCODE_DATA \<le> n")
    case False
    then have "base64_lines (take n inp) = []"
      using 1(2) by (subst base64_lines.simps) (simp add: ENCODE_DATA_def)
    then show ?thesis using False "1.prems"
      by (subst encode_lines.simps) (simp add: stored_Nil)
  next
    case True
    let ?t = "base64_text (take ENCODE_DATA inp)"
    have t: "base64_lines (take n inp) = ?t @ 10 # base64_lines (take (n - ENCODE_DATA) (drop ENCODE_DATA inp))"
      using True "1.prems"(1) by (subst base64_lines.simps) (simp add: drop_take)
    have lt: "length ?t = 64" using True "1.prems"(1) by (simp add: ENCODE_DATA_def)
    have nm: "(n - ENCODE_DATA) mod ENCODE_DATA = n mod ENCODE_DATA" using True by (simp add: le_mod_geq)
    let ?o = "mem_write (mem_write (mem_write out p (?t @ [0])) (p + 64) [10]) (p + 64 + 1) [0]"
    have e: "EVP_EncodeBlock out p inp ENCODE_DATA = (mem_write out p (?t @ [0]), 64)"
      using True "1.prems"(1,2) lt by (subst EVP_EncodeBlock_text) (simp_all add: t)
    have room: "p + 66 \<le> length out" "p + 65 + length (base64_lines (take (n - ENCODE_DATA) (drop ENCODE_DATA inp))) < length out"
      using "1.prems"(2) lt by (simp_all add: t)
    have st: "stored p (?t @ [10]) out ?o" using stored_line [of p ?t out] room(1) lt by simp
    have sw: "size_wrap (tot + 64 + 1) = tot + 65" using "1.prems"(3) lt by (simp add: t size_wrap_def)
    have step: "encode_lines out p inp n tot =
      encode_lines ?o (p + 64 + 1) (drop ENCODE_DATA inp) (n - ENCODE_DATA) (size_wrap (tot + 64 + 1))"
      using True sw by (subst encode_lines.simps) (simp add: e Let_def)
    have lo: "length ?o = length out" using st by (simp add: stored_def)
    have "n - ENCODE_DATA \<le> length (drop ENCODE_DATA inp)" using "1.prems"(1) by simp
    moreover have "p + 64 + 1 + length (base64_lines (take (n - ENCODE_DATA) (drop ENCODE_DATA inp))) < length ?o"
      using room(2) unfolding lo by simp
    moreover have "size_wrap (tot + 64 + 1) + length (base64_lines (take (n - ENCODE_DATA) (drop ENCODE_DATA inp))) < 2 ^ 64"
      using "1.prems"(3) lt unfolding sw by (simp add: t)
    moreover have "\<not> size_wrap (tot + 64 + 1) < tot" using sw by simp
    ultimately obtain out' where o: "encode_lines ?o (p + 64 + 1) (drop ENCODE_DATA inp) (n - ENCODE_DATA) (size_wrap (tot + 64 + 1)) =
      (out', p + 64 + 1 + length (base64_lines (take (n - ENCODE_DATA) (drop ENCODE_DATA inp))),
       drop (n - ENCODE_DATA - (n - ENCODE_DATA) mod ENCODE_DATA) (drop ENCODE_DATA inp), (n - ENCODE_DATA) mod ENCODE_DATA,
       Some (size_wrap (tot + 64 + 1) + length (base64_lines (take (n - ENCODE_DATA) (drop ENCODE_DATA inp)))))"
      "stored (p + 64 + 1) (base64_lines (take (n - ENCODE_DATA) (drop ENCODE_DATA inp))) ?o out'"
      using "1.IH" [OF True e [symmetric] refl refl refl refl] by blast
    have "stored p ((?t @ [10]) @ base64_lines (take (n - ENCODE_DATA) (drop ENCODE_DATA inp))) out out'"
      using o(2) lt by (intro stored_append [OF st]) (simp add: add.commute)
    moreover have "n - ENCODE_DATA - (n - ENCODE_DATA) mod ENCODE_DATA + ENCODE_DATA = n - n mod ENCODE_DATA"
    proof -
      have "n mod ENCODE_DATA \<le> n - ENCODE_DATA" unfolding nm [symmetric] by (rule mod_less_eq_dividend)
      then show ?thesis using True unfolding nm by linarith
    qed
    ultimately show ?thesis unfolding step o(1) unfolding sw by (simp add: t lt nm del: length_base64_text)
  qed
qed

definition enc_ok :: "EVP_ENCODE_CTX \<Rightarrow> bool" where
  "enc_ok ctx \<longleftrightarrow> length (ec_data ctx) = ENCODE_DATA \<and> ec_data_used ctx < ENCODE_DATA"

definition enc_pending :: "EVP_ENCODE_CTX \<Rightarrow> byte list" where
  "enc_pending ctx = take (ec_data_used ctx) (ec_data ctx)"

lemma enc_Init [simp]: "enc_ok EVP_EncodeInit" "enc_pending EVP_EncodeInit = []"
  by (simp_all add: enc_ok_def enc_pending_def EVP_EncodeInit_def ENCODE_DATA_def)

lemma length_enc_pending: "enc_ok ctx \<Longrightarrow> length (enc_pending ctx) = ec_data_used ctx"
  by (simp add: enc_ok_def enc_pending_def)

text \<open>The end of \<open>EVP_EncodeUpdate\<close>, from the loop on.\<close>

lemma encode_tail:
  assumes "length (ec_data ctx) = ENCODE_DATA" "n \<le> length inp"
    "p + length (base64_lines (take n inp)) < length out" "t0 + length (base64_lines (take n inp)) \<le> INT_MAX"
  shows "\<exists>ctx' out'. encode_update_tail ctx out p inp n t0 =
      (ctx', out', t0 + length (base64_lines (take n inp))) \<and>
    enc_ok ctx' \<and> enc_pending ctx' = base64_rest (take n inp) \<and> stored p (base64_lines (take n inp)) out out'"
proof -
  have "t0 + length (base64_lines (take n inp)) < 2 ^ 64" using assms(4) by (simp add: INT_MAX_def)
  from encode_lines_text [OF assms(2,3) this] obtain out' where o: "encode_lines out p inp n t0 =
      (out', p + length (base64_lines (take n inp)), drop (n - n mod ENCODE_DATA) inp, n mod ENCODE_DATA,
       Some (t0 + length (base64_lines (take n inp))))" "stored p (base64_lines (take n inp)) out out'"
    by blast
  have r: "base64_rest (take n inp) = take (n mod ENCODE_DATA) (drop (n - n mod ENCODE_DATA) inp)"
    using assms(2) by (simp add: base64_rest_def drop_take minus_mod_eq_mult_div minus_mult_div_eq_mod)
  have lr: "length (base64_rest (take n inp)) = n mod ENCODE_DATA" using assms(2) by (simp add: length_base64_rest)
  have m: "n mod ENCODE_DATA < ENCODE_DATA" by (simp add: ENCODE_DATA_def)
  show ?thesis
    using o assms(1,4) m lr
    by (auto simp: encode_update_tail_def Let_def enc_ok_def enc_pending_def mem_write_def simp flip: r)
qed

lemma EVP_EncodeUpdate_text:
  assumes ok: "enc_ok ctx" and n: "n \<le> length inp"
    and room: "p + length (base64_lines (enc_pending ctx @ take n inp)) < length out"
      "length (base64_lines (enc_pending ctx @ take n inp)) \<le> INT_MAX"
  shows "\<exists>ctx' out'. EVP_EncodeUpdate ctx out p inp n =
      (ctx', out', length (base64_lines (enc_pending ctx @ take n inp))) \<and> enc_ok ctx' \<and>
    enc_pending ctx' = base64_rest (enc_pending ctx @ take n inp) \<and>
    stored p (base64_lines (enc_pending ctx @ take n inp)) out out'"
proof -
  let ?used = "ec_data_used ctx" and ?all = "enc_pending ctx @ take n inp"
  have d: "length (ec_data ctx) = ENCODE_DATA" "?used < ENCODE_DATA" "length (enc_pending ctx) = ?used"
    using ok length_enc_pending by (simp_all add: enc_ok_def)
  consider "n = 0" | "n \<noteq> 0" "ENCODE_DATA - ?used > n" | "n \<noteq> 0" "\<not> ENCODE_DATA - ?used > n" "?used \<noteq> 0" |
    "n \<noteq> 0" "\<not> ENCODE_DATA - ?used > n" "?used = 0" by blast
  then show ?thesis
  proof cases
    case 1
    then have "base64_lines ?all = []" "base64_rest ?all = ?all"
      using d by (simp_all add: base64_lines.simps base64_rest_short)
    then show ?thesis using 1 ok room(1) by (simp add: EVP_EncodeUpdate_def stored_Nil)
  next
    case 2
    then have l: "length ?all < ENCODE_DATA" using d n by simp
    then have "base64_lines ?all = []" "base64_rest ?all = ?all"
      by (simp_all add: base64_lines.simps base64_rest_short)
    then show ?thesis using 2 d n room(1)
      by (auto simp: EVP_EncodeUpdate_def stored_Nil enc_ok_def enc_pending_def mem_write_def)
  next
    case 3
    let ?todo = "ENCODE_DATA - ?used"
    let ?data = "mem_write (ec_data ctx) ?used (take ?todo inp)"
    let ?ctx = "ctx\<lparr>ec_data := ?data, ec_data_used := 0\<rparr>" and ?inp = "drop ?todo inp"
    have dt: "?data = enc_pending ctx @ take ?todo inp"
      using d n 3 by (simp add: mem_write_def enc_pending_def)
    then have ld: "length ?data = ENCODE_DATA" using d n 3 by simp
    have all: "?all = ?data @ take (n - ?todo) ?inp"
      using 3 take_add [of ?todo "n - ?todo" inp] by (simp add: dt)
    let ?t = "base64_text ?data"
    have lt: "length ?t = 64" using ld by (simp add: ENCODE_DATA_def)
    have bl: "base64_lines ?data = ?t @ [10]"
      using ld by (subst base64_lines.simps) (simp add: base64_lines.simps ENCODE_DATA_def)
    have lines: "base64_lines ?all = (?t @ [10]) @ base64_lines (take (n - ?todo) ?inp)"
      unfolding all using ld bl by (subst base64_lines_append) (simp_all add: ENCODE_DATA_def)
    have rest: "base64_rest ?all = base64_rest (take (n - ?todo) ?inp)"
      unfolding all using ld base64_rest_drop [of "?data @ take (n - ?todo) ?inp"] by simp
    have e: "EVP_EncodeBlock out p ?data ENCODE_DATA = (mem_write out p (?t @ [0]), 64)"
      using ld room(1) lt EVP_EncodeBlock_text [of ENCODE_DATA ?data p out] by (simp add: lines)
    let ?o = "mem_write (mem_write (mem_write out p (?t @ [0])) (p + 64) [10]) (p + 64 + 1) [0]"
    have st: "stored p (?t @ [10]) out ?o" using stored_line [of p ?t out] room(1) lt by (simp add: lines)
    then have lo: "length ?o = length out" by (simp add: stored_def)
    have r1: "p + 64 + 1 + length (base64_lines (take (n - ?todo) ?inp)) < length ?o"
      using room(1) lt unfolding lo by (simp add: lines)
    have r2: "64 + 1 + length (base64_lines (take (n - ?todo) ?inp)) \<le> INT_MAX"
      using room(2) lt by (simp add: lines)
    have len: "length (ec_data ?ctx) = ENCODE_DATA" "n - ?todo \<le> length ?inp" using ld n by simp_all
    have "EVP_EncodeUpdate ctx out p inp n = encode_update_tail ?ctx ?o (p + 64 + 1) ?inp (n - ?todo) (64 + 1)"
      using 3 e by (simp add: EVP_EncodeUpdate_def Let_def)
    moreover obtain ctx' out' where t: "encode_update_tail ?ctx ?o (p + 64 + 1) ?inp (n - ?todo) (64 + 1) =
        (ctx', out', 64 + 1 + length (base64_lines (take (n - ?todo) ?inp)))"
      "enc_ok ctx'" "enc_pending ctx' = base64_rest (take (n - ?todo) ?inp)"
      "stored (p + 64 + 1) (base64_lines (take (n - ?todo) ?inp)) ?o out'"
      using encode_tail [OF len r1 r2] by blast
    moreover have "stored p ((?t @ [10]) @ base64_lines (take (n - ?todo) ?inp)) out out'"
      using t(4) lt by (intro stored_append [OF st]) (simp add: add.commute)
    ultimately show ?thesis unfolding lines rest using lt by simp
  next
    case 4
    then have all: "?all = take n inp" by (simp add: enc_pending_def)
    then have "EVP_EncodeUpdate ctx out p inp n = encode_update_tail ctx out p inp n 0"
      using 4 by (simp add: EVP_EncodeUpdate_def)
    then show ?thesis
      using encode_tail [OF d(1) n, of p out 0] room unfolding all by simp
  qed
qed

lemma EVP_EncodeFinal_text:
  assumes "enc_ok ctx" "t = (if enc_pending ctx = [] then [] else base64_text (enc_pending ctx) @ [10])"
    "p + length t < length out"
  shows "\<exists>ctx' out'. EVP_EncodeFinal ctx out p = (ctx', out', length t) \<and> stored p t out out'"
proof (cases "ec_data_used ctx = 0")
  case True
  then show ?thesis using assms by (simp add: EVP_EncodeFinal_def enc_pending_def stored_Nil)
next
  case False
  let ?t = "base64_text (enc_pending ctx)"
  have ne: "t = ?t @ [10]" using False assms(1,2) length_enc_pending [OF assms(1)] by auto
  have room: "p + length ?t + 2 \<le> length out" using assms(3) unfolding ne by simp
  have "EVP_EncodeBlock out p (ec_data ctx) (ec_data_used ctx) = (mem_write out p (?t @ [0]), length ?t)"
    using assms(1) room unfolding enc_pending_def by (intro EVP_EncodeBlock_text) (simp_all add: enc_ok_def)
  then show ?thesis
    using False stored_line [OF room] by (simp add: EVP_EncodeFinal_def ne del: length_base64_text)
qed

text \<open>A caller that encodes a list of chunks, and what is left in the output.\<close>

fun encode_chunks :: "EVP_ENCODE_CTX \<Rightarrow> byte list \<Rightarrow> nat \<Rightarrow> byte list list \<Rightarrow> byte list \<times> nat" where
  "encode_chunks ctx out p [] = (case EVP_EncodeFinal ctx out p of (_, out, n) \<Rightarrow> (out, p + n))"
| "encode_chunks ctx out p (c # cs) =
     (case EVP_EncodeUpdate ctx out p c (length c) of (ctx, out, n) \<Rightarrow> encode_chunks ctx out (p + n) cs)"

lemma base64_pem_lines:
  assumes "length as = ENCODE_DATA * k"
  shows "base64_pem (as @ bs) = base64_lines as @ base64_pem bs"
proof -
  have "length as mod ENCODE_DATA = 0" using assms by simp
  moreover have "base64_rest (as @ bs) = base64_rest bs"
    using assms by (simp add: base64_rest_def ENCODE_DATA_def)
  ultimately show ?thesis by (simp add: base64_pem_def base64_lines_append)
qed

lemma pem_split: "base64_pem (as @ bs) = base64_lines as @ base64_pem (base64_rest as @ bs)"
proof -
  let ?k = "length as div ENCODE_DATA"
  let ?h = "take (ENCODE_DATA * ?k) as"
  have h: "as = ?h @ base64_rest as" by (simp add: base64_rest_def)
  have lh: "length ?h = ENCODE_DATA * ?k" by (simp add: min_absorb2)
  have "length (base64_rest as) < ENCODE_DATA" by (simp add: length_base64_rest ENCODE_DATA_def)
  then have "base64_lines (base64_rest as) = []" by (simp add: base64_lines.simps)
  then have "base64_lines as = base64_lines ?h"
    using lh by (subst h, subst base64_lines_append) simp_all
  then show ?thesis
    using base64_pem_lines [OF lh, of "base64_rest as @ bs"] h by (metis append.assoc)
qed

lemma encode_chunks_text:
  assumes "enc_ok ctx" "p + length (base64_pem (enc_pending ctx @ concat cs)) < length out"
    "length (base64_pem (enc_pending ctx @ concat cs)) \<le> INT_MAX"
  shows "\<exists>out'. encode_chunks ctx out p cs = (out', p + length (base64_pem (enc_pending ctx @ concat cs))) \<and>
    stored p (base64_pem (enc_pending ctx @ concat cs)) out out'"
  using assms
proof (induction cs arbitrary: ctx out p)
  case Nil
  have "length (enc_pending ctx) < ENCODE_DATA"
    using Nil(1) length_enc_pending by (simp add: enc_ok_def)
  then have "base64_pem (enc_pending ctx) = (if enc_pending ctx = [] then [] else base64_text (enc_pending ctx) @ [10])"
    by (simp add: base64_pem_def base64_lines.simps base64_rest_short)
  then obtain ctx' out' where "EVP_EncodeFinal ctx out p = (ctx', out', length (base64_pem (enc_pending ctx)))"
      "stored p (base64_pem (enc_pending ctx)) out out'"
    using EVP_EncodeFinal_text [OF Nil(1)] Nil(2) by fastforce
  then show ?case by simp
next
  case (Cons c cs)
  let ?l = "base64_lines (enc_pending ctx @ c)" and ?r = "base64_pem (base64_rest (enc_pending ctx @ c) @ concat cs)"
  have s: "base64_pem (enc_pending ctx @ concat (c # cs)) = ?l @ ?r"
    using pem_split [of "enc_pending ctx @ c" "concat cs"] by simp
  have room: "p + length ?l + length ?r < length out" "length ?l + length ?r \<le> INT_MAX"
    using Cons.prems(2,3) unfolding s by simp_all
  obtain ctx' out1 where u: "EVP_EncodeUpdate ctx out p c (length c) = (ctx', out1, length ?l)" "enc_ok ctx'"
      "enc_pending ctx' = base64_rest (enc_pending ctx @ c)" "stored p ?l out out1"
    using EVP_EncodeUpdate_text [OF Cons.prems(1), of "length c" c p out] room by auto
  have lo: "length out1 = length out" using u(4) by (simp add: stored_def)
  obtain out' where o: "encode_chunks ctx' out1 (p + length ?l) cs = (out', p + length ?l + length ?r)"
      "stored (p + length ?l) ?r out1 out'"
    using Cons.IH [OF u(2), of "p + length ?l" out1] room lo unfolding u(3) by auto
  show ?case unfolding s using u(1) o stored_append [OF u(4) o(2)] by (auto simp: add.assoc)
qed

section \<open>The streaming decoder\<close>

definition is_space :: "byte \<Rightarrow> bool" where
  "is_space c \<longleftrightarrow> c \<in> {32, 9, 13, 10}"

lemma decode_update_loop_spaces:
  "decode_update_loop ctx out p k xs = decode_update_loop ctx out p k (filter (\<lambda>c. \<not> is_space c) xs)"
  by (induction ctx out p k xs rule: decode_update_loop.induct) (auto simp: is_space_def Let_def split: option.splits)

lemma decode_update_loop_shift:
  "decode_update_loop ctx out p (k + j) xs =
     (case decode_update_loop ctx out p k xs of (ok, ctx, out, m) \<Rightarrow> (ok, ctx, out, if ok then m + j else m))"
  by (induction ctx out p k xs rule: decode_update_loop.induct)
    (auto simp: Let_def add.commute add.left_commute split: option.splits)

lemma decode_update_loop_mono:
  "decode_update_loop ctx out p k xs = (True, ctx', out', m) \<Longrightarrow> k \<le> m"
  by (induction ctx out p k xs rule: decode_update_loop.induct)
    (fastforce simp: Let_def split: option.splits if_splits)+

lemma decode_update_loop_append:
  "decode_update_loop ctx out p k (xs @ ys) =
     (case decode_update_loop ctx out p k xs of
        (False, r) \<Rightarrow> (False, r)
      | (True, ctx, out, m) \<Rightarrow> decode_update_loop ctx out (p + (m - k)) m ys)"
proof (induction ctx out p k xs rule: decode_update_loop.induct)
  case (2 ctx out p k c inp)
  note IH = 2
  show ?case
  proof (cases "c \<in> {32, 9, 13, 10}")
    case True
    then show ?thesis using IH(1) by simp
  next
    case ws: False
    show ?thesis
    proof (cases "ec_eof_seen ctx")
      case True
      then show ?thesis using ws by simp
    next
      case eof: False
      let ?ctx = "ctx\<lparr>ec_data := mem_write (ec_data ctx) (ec_data_used ctx) [c], ec_data_used := ec_data_used ctx + 1\<rparr>"
      show ?thesis
      proof (cases "ec_data_used ?ctx = 4")
        case False
        then show ?thesis using IH(3) [OF ws eof refl] ws eof by (simp add: Let_def)
      next
        case four: True
        show ?thesis
        proof (cases "base64_decode_quad (ec_data ?ctx)")
          case None
          then show ?thesis using ws eof four by (simp add: Let_def)
        next
          case (Some bs)
          have m: "m - (k + length bs) + length bs = m - k" if
            "decode_update_loop c' o' (p + length bs) (k + length bs) inp = (True, c'', o'', m)" for c' o' c'' o'' m
            using decode_update_loop_mono [OF that] by simp
          show ?thesis
            using IH(2) [OF ws eof refl four Some refl refl] ws eof four Some
            by (auto simp: Let_def add.assoc add.commute [of "length bs"] m split: prod.splits bool.splits)
        qed
      qed
    qed
  qed
qed simp

lemma decode_quad_take: "4 \<le> length xs \<Longrightarrow> base64_decode_quad (take 4 xs @ ys) = base64_decode_quad xs"
proof -
  assume "4 \<le> length xs"
  then have "(take 4 xs @ ys) ! i = xs ! i" if "i < 4" for i using that by (simp add: nth_append)
  then have "(take 4 xs @ ys) ! 0 = xs ! 0" "(take 4 xs @ ys) ! 1 = xs ! 1" "(take 4 xs @ ys) ! 2 = xs ! 2"
      "(take 4 xs @ ys) ! 3 = xs ! 3"
    by simp_all
  then show ?thesis by (simp only: base64_decode_quad_def Let_def)
qed

lemma decode_quad_short: "base64_decode_quad xs = Some bs \<Longrightarrow> length bs \<le> 3"
  unfolding base64_decode_quad_def Let_def
  by (simp only: option.distinct(1) option.inject simp_thms split: if_split_asm)
    (hypsubst, simp (no_asm))+

text \<open>The bytes given out are never more than the characters taken in.\<close>

lemma decode_update_loop_count:
  "decode_update_loop ctx out p k xs = (True, ctx', out', m) \<Longrightarrow>
     ec_error_encountered ctx' = ec_error_encountered ctx \<and> m + ec_data_used ctx' \<le> k + ec_data_used ctx + length xs"
proof (induction ctx out p k xs rule: decode_update_loop.induct)
  case (2 ctx out p k c inp)
  show ?case
  proof (cases "c \<in> {32, 9, 13, 10}")
    case True
    then show ?thesis using 2 by fastforce
  next
    case ws: False
    have eof: "\<not> ec_eof_seen ctx" using 2(4) ws by (auto split: if_splits)
    let ?ctx = "ctx\<lparr>ec_data := mem_write (ec_data ctx) (ec_data_used ctx) [c], ec_data_used := ec_data_used ctx + 1\<rparr>"
    show ?thesis
    proof (cases "ec_data_used ?ctx = 4")
      case False
      then show ?thesis using 2(3) [OF ws eof refl] 2(4) ws eof by (simp add: Let_def)
    next
      case four: True
      then obtain bs where bs: "base64_decode_quad (ec_data ?ctx) = Some bs"
        using 2(4) ws eof by (auto simp: Let_def split: option.splits)
      show ?thesis
        using 2(2) [OF ws eof refl four bs refl refl] 2(4) ws eof four bs decode_quad_short [OF bs]
        by (auto simp: Let_def split: if_splits)
    qed
  qed
qed simp

lemma decode_update_loop_short:
  assumes "length xs < 4 - ec_data_used ctx" "\<not> ec_eof_seen ctx" "\<forall>c\<in>set xs. \<not> is_space c"
  shows "\<exists>ctx'. decode_update_loop ctx out p k xs = (True, ctx', out, k) \<and>
    ec_data_used ctx' = ec_data_used ctx + length xs"
  using assms
proof (induction xs arbitrary: ctx)
  case (Cons c xs)
  let ?ctx = "ctx\<lparr>ec_data := mem_write (ec_data ctx) (ec_data_used ctx) [c], ec_data_used := ec_data_used ctx + 1\<rparr>"
  have "length xs < 4 - ec_data_used ?ctx" "\<not> ec_eof_seen ?ctx" "\<forall>c\<in>set xs. \<not> is_space c"
    using Cons.prems by simp_all
  from Cons.IH [OF this] show ?case using Cons.prems by (auto simp: is_space_def Let_def)
qed simp

lemma decode_update_loop_quad:
  assumes "ec_data_used ctx = 0" "\<not> ec_eof_seen ctx" "\<forall>c\<in>set q. \<not> is_space c" "length q = 4" "4 \<le> length (ec_data ctx)"
  shows "\<exists>data. 4 \<le> length data \<and> decode_update_loop ctx out p k (q @ xs) =
    (case base64_decode_quad q of
       None \<Rightarrow> (False, ctx\<lparr>ec_data := data, ec_data_used := 4, ec_error_encountered := True\<rparr>, out, 0)
     | Some bs \<Rightarrow> decode_update_loop
         (ctx\<lparr>ec_data := data, ec_data_used := 0, ec_eof_seen := length bs < 3\<rparr>)
         (mem_write out p bs) (p + length bs) (k + length bs) xs)"
proof -
  obtain a b c d where q: "q = [a, b, c, d]" using assms(4) by (auto simp: numeral_eq_Suc length_Suc_conv)
  obtain w x y z ds where data: "ec_data ctx = w # x # y # z # ds"
    using four_items [OF assms(5)] by blast
  have ns: "a \<notin> {32, 9, 13, 10}" "b \<notin> {32, 9, 13, 10}" "c \<notin> {32, 9, 13, 10}" "d \<notin> {32, 9, 13, 10}"
    using assms(3) by (simp_all add: q is_space_def)
  have dq: "base64_decode_quad (a # b # c # d # ds) = base64_decode_quad q"
    using decode_quad_take [of q ds] by (simp add: q)
  have e: "ec_eof_seen ctx = False" using assms(2) by simp
  have ef: "ctx\<lparr>ec_data := ds, ec_data_used := 0, ec_eof_seen := False\<rparr> = ctx\<lparr>ec_data := ds, ec_data_used := 0\<rparr>" for ds
    using e by (cases ctx) simp
  have "decode_update_loop ctx out p k (q @ xs) =
    (case base64_decode_quad q of
       None \<Rightarrow> (False, ctx\<lparr>ec_data := a # b # c # d # ds, ec_data_used := 4, ec_error_encountered := True\<rparr>, out, 0)
     | Some bs \<Rightarrow> decode_update_loop
         (ctx\<lparr>ec_data := a # b # c # d # ds, ec_data_used := 0, ec_eof_seen := length bs < 3\<rparr>)
         (mem_write out p bs) (p + length bs) (k + length bs) xs)"
    using ns assms(1) e
    by (simp add: ef q Let_def data mem_write_def numeral_eq_Suc dq [unfolded q] split: option.split)
  then show ?thesis by (intro exI [of _ "a # b # c # d # ds"]) simp
qed

text \<open>The loop, run on whole input, against the loop of \<open>EVP_DecodeBase64\<close>.\<close>

lemma decode_update_loop_base64:
  assumes "ec_data_used ctx = 0" "\<not> ec_eof_seen ctx" "\<forall>c\<in>set s. \<not> is_space c" "4 \<le> length (ec_data ctx)"
  shows "(\<exists>ctx'. decode_update_loop ctx out p k s = (True, ctx', out', m) \<and> ec_data_used ctx' = 0) \<longleftrightarrow>
    length s mod 4 = 0 \<and> decode_base64_loop out p k s (length s) = (True, out', m)"
  using assms
proof (induction "length s" arbitrary: ctx out p k s rule: less_induct)
  case less
  consider "s = []" | "s \<noteq> []" "length s < 4" | q r where "s = q @ r" "length q = 4"
    by (metis append_take_drop_id length_take min.absorb2 not_less)
  then show ?case
  proof cases
    case 1
    then show ?thesis using less(2) by (auto simp: decode_base64_loop.simps [of _ _ _ _ 0])
  next
    case 2
    then show ?thesis
      using decode_update_loop_short [of s ctx out p k] less(2-4) by auto
  next
    case 3
    have q: "\<forall>c\<in>set q. \<not> is_space c" "\<forall>c\<in>set r. \<not> is_space c" using less(4) 3 by auto
    obtain data where d: "4 \<le> length data" "decode_update_loop ctx out p k s =
      (case base64_decode_quad q of
         None \<Rightarrow> (False, ctx\<lparr>ec_data := data, ec_data_used := 4, ec_error_encountered := True\<rparr>, out, 0)
       | Some bs \<Rightarrow> decode_update_loop
           (ctx\<lparr>ec_data := data, ec_data_used := 0, ec_eof_seen := length bs < 3\<rparr>)
           (mem_write out p bs) (p + length bs) (k + length bs) r)"
      using decode_update_loop_quad [OF less(2,3) q(1) 3(2) less(5), of out p k r] 3(1) by blast
    have dq: "base64_decode_quad (q @ r) = base64_decode_quad q"
      using decode_quad_take [of q r] 3(2) by simp
    have b: "decode_base64_loop out p k s (length s) =
      (case base64_decode_quad q of None \<Rightarrow> (False, out, 0)
       | Some bs \<Rightarrow> if length bs \<noteq> 3 \<and> r \<noteq> [] then (False, mem_write out p bs, 0)
          else decode_base64_loop (mem_write out p bs) (p + length bs) (k + length bs) r (length r))"
      using 3 dq by (subst decode_base64_loop.simps) (auto simp: Let_def split: option.splits)
    have lm: "length s mod 4 = length r mod 4" using 3 by simp
    show ?thesis
    proof (cases "base64_decode_quad q")
      case None
      then show ?thesis using d(2) b by simp
    next
      case (Some bs)
      let ?ctx = "ctx\<lparr>ec_data := data, ec_data_used := 0, ec_eof_seen := length bs < 3\<rparr>"
      have l3: "length bs \<le> 3" using decode_quad_short [OF Some] .
      show ?thesis
      proof (cases "length bs = 3")
        case True
        then show ?thesis
          using less(1) [of r ?ctx "mem_write out p bs" "p + 3" "k + 3"] 3 q(2) d Some b lm by simp
      next
        case False
        show ?thesis
        proof (cases r)
          case Nil
          then show ?thesis using d Some b lm by (auto simp: decode_base64_loop.simps [of _ _ _ _ 0])
        next
          case (Cons c r')
          then have "c \<notin> {32, 9, 13, 10}" using q(2) by (auto simp: is_space_def)
          then show ?thesis using d Some b lm False l3 Cons by simp
        qed
      qed
    qed
  qed
qed

text \<open>A caller that decodes a list of chunks; \<open>None\<close> if a call reports an error.\<close>

fun decode_chunks :: "EVP_ENCODE_CTX \<Rightarrow> byte list \<Rightarrow> nat \<Rightarrow> byte list list \<Rightarrow> (byte list \<times> nat) option" where
  "decode_chunks ctx out p [] = (if fst (EVP_DecodeFinal ctx) = 1 then Some (out, p) else None)"
| "decode_chunks ctx out p (c # cs) =
     (case EVP_DecodeUpdate ctx out p c (length c) of
        (r, ctx, out, n) \<Rightarrow> if r < 0 then None else decode_chunks ctx out (p + n) cs)"

lemma decode_chunks_loop:
  assumes "\<not> ec_error_encountered ctx" "ec_data_used ctx + length (concat cs) \<le> INT_MAX"
  shows "decode_chunks ctx out p cs =
    (case decode_update_loop ctx out p p (concat cs) of
       (False, _) \<Rightarrow> None
     | (True, ctx', out', m) \<Rightarrow> if ec_data_used ctx' = 0 then Some (out', m) else None)"
  using assms
proof (induction cs arbitrary: ctx out p)
  case Nil
  then show ?case by (simp add: EVP_DecodeFinal_def)
next
  case (Cons c cs)
  have sh: "decode_update_loop ctx out p p c =
    (case decode_update_loop ctx out p 0 c of (ok, ctx, out, m) \<Rightarrow> (ok, ctx, out, if ok then m + p else m))"
    using decode_update_loop_shift [of ctx out p 0 p c] by simp
  show ?case
  proof (cases "decode_update_loop ctx out p 0 c")
    case (fields ok ctx1 out1 m)
    show ?thesis
    proof (cases ok)
      case False
      then show ?thesis using fields sh Cons.prems(1)
        by (simp add: EVP_DecodeUpdate_def decode_update_loop_append)
    next
      case True
      have "decode_update_loop ctx out p 0 c = (True, ctx1, out1, m)" using fields True by simp
      note cnt = decode_update_loop_count [OF this]
      have m: "m \<le> INT_MAX" "ec_data_used ctx1 + length (concat cs) \<le> INT_MAX" "\<not> ec_error_encountered ctx1"
        using cnt Cons.prems by simp_all
      then have u: "EVP_DecodeUpdate ctx out p c (length c) = (if ec_eof_seen ctx1 then 0 else 1, ctx1, out1, m)"
        using True fields Cons.prems(1) by (simp add: EVP_DecodeUpdate_def)
      have "decode_chunks ctx out p (c # cs) = decode_chunks ctx1 out1 (p + m) cs" using u by simp
      also have "\<dots> = (case decode_update_loop ctx1 out1 (p + m) (p + m) (concat cs) of
         (False, _) \<Rightarrow> None
       | (True, ctx', out', m) \<Rightarrow> if ec_data_used ctx' = 0 then Some (out', m) else None)"
        using Cons.IH [OF m(3,2)] .
      also have "decode_update_loop ctx1 out1 (p + m) (p + m) (concat cs) = decode_update_loop ctx out p p (c @ concat cs)"
        using True fields sh by (simp add: decode_update_loop_append add.commute)
      finally show ?thesis by simp
    qed
  qed
qed

section \<open>Correctness\<close>

lemma EVP_DecodeBase64_iff:
  assumes "n \<le> length inp" "max_out \<le> length out"
  shows "EVP_DecodeBase64 out max_out inp n = (True, out', m) \<longleftrightarrow>
    n mod 4 = 0 \<and> n div 4 * 3 \<le> max_out \<and>
    (\<exists>ds pad. base64_valid (take n inp) ds pad \<and> out' = mem_write out 0 (base64_bytes ds) \<and>
       m = length (base64_bytes ds))"
proof (cases "n mod 4 = 0 \<and> n div 4 * 3 \<le> max_out")
  case True
  then show ?thesis
    using assms by (auto simp: EVP_DecodeBase64_def EVP_DecodedLength_def decode_base64_loop_iff)
qed (auto simp: EVP_DecodeBase64_def EVP_DecodedLength_def)

text \<open>
  \<open>EVP_DecodeBase64\<close> accepts exactly the texts whose length is a multiple of four, that
  consist of characters of the alphabet and at most two \<open>=\<close> at the end, and whose decoding
  fits; it stores the bytes their 6-bit groups stand for. The bits in front of the padding
  need not be zero.
\<close>

theorem EVP_DecodeBase64_exact:
  assumes "n \<le> length inp" "max_out \<le> length out"
  shows "EVP_DecodeBase64 out max_out inp n = (True, out', m) \<longleftrightarrow>
    n mod 4 = 0 \<and> n div 4 * 3 \<le> max_out \<and>
    (\<exists>ds pad. base64_valid (take n inp) ds pad \<and> out' = mem_write out 0 (base64_bytes ds) \<and>
       m = length (base64_bytes ds))"
  by (rule EVP_DecodeBase64_iff [OF assms])

text \<open>\<open>QR==\<close> has two bits set in front of its padding.\<close>

lemma EVP_DecodeBase64_exact_witness:
  "EVP_DecodeBase64 [7, 7, 7] 3 [81, 82, 61, 61, 33] 4 = (True, [65, 7, 7], 1)"
proof -
  have "take 4 [81, 82, 61, 61, 33] = base64_chars [16, 17] 2" by code_simp
  then have "base64_valid (take 4 [81, 82, 61, 61, 33]) [16, 17] 2" by (simp add: base64_valid_def)
  moreover have "mem_write [7, 7, 7] 0 (base64_bytes [16, 17]) = [65, 7, 7 :: byte]" "length (base64_bytes [16, 17]) = 1"
    by (simp_all add: mem_write_def)
  ultimately show ?thesis
    using EVP_DecodeBase64_exact [of 4 "[81, 82, 61, 61, 33]" 3 "[7, 7, 7]" "[65, 7, 7]" 1]
    by (auto intro: exI [of _ "[16, 17]"] exI [of _ 2])
qed

lemma base64_text_valid:
  "base64_valid (base64_text bs) (base64_digits bs) ((3 - length bs mod 3) mod 3)"
  by (auto simp: base64_valid_def base64_text_def base64_chars_def dest: base64_digits_less)

text \<open>
  \<open>EVP_EncodeBlock\<close> stores the Base64 text of its input and a terminator, as many bytes as
  \<open>EVP_EncodedLength\<close> announces, touches nothing behind them, and \<open>EVP_DecodeBase64\<close> gives
  the input back.
\<close>

theorem base64_roundtrip:
  assumes "EVP_EncodedLength (length src) = Some k" "k \<le> length dst" "length src < 2 ^ 62"
    "EVP_EncodeBlock dst 0 src (length src) = (dst', r)"
    "EVP_DecodedLength r = Some max_out" "max_out \<le> length out"
  shows "r + 1 = k \<and> take k dst' = base64_text src @ [0] \<and> drop k dst' = drop k dst \<and>
    EVP_DecodeBase64 out max_out dst' r = (True, mem_write out 0 src, length src)"
proof -
  have k: "k = length (base64_text src) + 1"
    using assms(1,3) EVP_EncodedLength_text [of src] by simp
  then have e: "dst' = mem_write dst 0 (base64_text src @ [0])" "r = length (base64_text src)"
    using assms(2,4) EVP_EncodeBlock_text [of "length src" src 0 dst] by simp_all
  have t: "take r dst' = base64_text src" using e by (simp add: mem_write_def)
  have mo: "max_out = r div 4 * 3" "r mod 4 = 0"
    using assms(5) by (auto simp: EVP_DecodedLength_def split: if_splits)
  have rl: "r \<le> length dst'" using e k assms(2) by simp
  have "\<exists>ds pad. base64_valid (take r dst') ds pad \<and> mem_write out 0 src = mem_write out 0 (base64_bytes ds) \<and>
      length src = length (base64_bytes ds)"
    by (rule exI [of _ "base64_digits src"], rule exI [of _ "(3 - length src mod 3) mod 3"])
      (simp add: t base64_text_valid base64_bytes_digits)
  then have "EVP_DecodeBase64 out max_out dst' r = (True, mem_write out 0 src, length src)"
    unfolding EVP_DecodeBase64_iff [OF rl assms(6)] using mo by (intro conjI) simp_all
  then show ?thesis using e k by (simp add: mem_write_def)
qed

text \<open>
  However its input is cut into chunks, the streaming encoder stores the text of every 48
  bytes on a line of its own, the rest on a last line, as long as the counts fit in an
  \<open>int\<close>.
\<close>

theorem EVP_Encode_streams:
  assumes "p + length (base64_pem (concat cs)) < length out" "length (base64_pem (concat cs)) \<le> INT_MAX"
    "encode_chunks EVP_EncodeInit out p cs = (out', q)"
  shows "q = p + length (base64_pem (concat cs)) \<and> length out' = length out \<and>
    take q out' = take p out @ base64_pem (concat cs)"
  using encode_chunks_text [of EVP_EncodeInit p cs out] assms by (auto simp: stored_def)

lemma EVP_Encode_streams_witness:
  "\<exists>out'. encode_chunks EVP_EncodeInit (replicate 80 1) 0 [replicate 30 65, replicate 20 65] = (out', 70) \<and>
    take 70 out' = base64_text (replicate 48 65) @ [10, 81, 85, 69, 61, 10]"
proof -
  have c: "concat [replicate 30 65, replicate 20 65] = replicate 48 65 @ [65, 65 :: byte]"
    by (simp add: replicate_add [symmetric] numeral_2_eq_2 numeral_eq_Suc)
  have l: "base64_pem (replicate 48 65 @ [65, 65]) = base64_text (replicate 48 65) @ [10, 81, 85, 69, 61, 10]"
  proof -
    have "base64_text [65, 65] = [81, 85, 69, 61]" by code_simp
    moreover have "base64_lines [65, 65] = []" "base64_rest [65, 65] = [65, 65]"
      by (simp_all add: base64_lines.simps base64_rest_short ENCODE_DATA_def)
    moreover have "base64_lines (replicate 48 65) = base64_text (replicate 48 65) @ [10]"
      by (subst base64_lines.simps) (simp add: base64_lines.simps ENCODE_DATA_def)
    ultimately show ?thesis
      by (subst base64_pem_lines [of _ 1]) (simp_all add: ENCODE_DATA_def base64_pem_def)
  qed
  obtain out' q where e: "encode_chunks EVP_EncodeInit (replicate 80 1) 0 [replicate 30 65, replicate 20 65] = (out', q)"
    by fastforce
  from EVP_Encode_streams [OF _ _ e, unfolded c l]
  have q: "q = 70 \<and> take q out' = base64_text (replicate 48 65) @ [10, 81, 85, 69, 61, 10]"
    by (auto simp: INT_MAX_def)
  then show ?thesis using e by (auto simp del: encode_chunks.simps)
qed

lemma decode_chunks_iff:
  assumes "length (concat cs) \<le> INT_MAX" "s = filter (\<lambda>c. \<not> is_space c) (concat cs)"
    "length s div 4 * 3 \<le> length out"
  shows "decode_chunks EVP_DecodeInit out 0 cs = Some (out', m) \<longleftrightarrow>
    EVP_DecodeBase64 out (length s div 4 * 3) s (length s) = (True, out', m)"
proof -
  have i: "\<not> ec_error_encountered EVP_DecodeInit" "ec_data_used EVP_DecodeInit = 0" "\<not> ec_eof_seen EVP_DecodeInit"
      "4 \<le> length (ec_data EVP_DecodeInit)"
    by (simp_all add: EVP_DecodeInit_def ENCODE_DATA_def)
  have "decode_chunks EVP_DecodeInit out 0 cs = Some (out', m) \<longleftrightarrow>
    (\<exists>ctx'. decode_update_loop EVP_DecodeInit out 0 0 s = (True, ctx', out', m) \<and> ec_data_used ctx' = 0)"
    using decode_chunks_loop [OF i(1), of cs out 0] assms(1,2) i(2)
      decode_update_loop_spaces [of EVP_DecodeInit out 0 0 "concat cs"]
    by (auto split: prod.splits bool.splits if_splits)
  also have "\<dots> \<longleftrightarrow> length s mod 4 = 0 \<and> decode_base64_loop out 0 0 s (length s) = (True, out', m)"
    using assms(2) by (intro decode_update_loop_base64 [OF i(2,3) _ i(4)]) simp
  finally show ?thesis by (simp add: EVP_DecodeBase64_def EVP_DecodedLength_def)
qed

text \<open>
  C9. The streaming decoder is \<open>EVP_DecodeBase64\<close> on the characters that are not white space:
  over all chunks of a text, it succeeds on the same texts and stores the same bytes.
\<close>

theorem EVP_Decode_streams:
  assumes "length (concat cs) \<le> INT_MAX" "s = filter (\<lambda>c. \<not> is_space c) (concat cs)"
    "length s div 4 * 3 \<le> length out"
  shows "decode_chunks EVP_DecodeInit out 0 cs = Some (out', m) \<longleftrightarrow>
    EVP_DecodeBase64 out (length s div 4 * 3) s (length s) = (True, out', m)"
  by (rule decode_chunks_iff [OF assms])

lemma EVP_Decode_streams_witness:
  "decode_chunks EVP_DecodeInit [1, 1, 1] 0 [[84, 87, 32], [], [10, 69, 61, 32]] = Some ([77, 97, 1], 2)"
proof -
  let ?cs = "[[84, 87, 32], [], [10, 69, 61, 32]] :: byte list list"
  have s: "[84, 87, 69, 61] = filter (\<lambda>c. \<not> is_space c) (concat ?cs)" by (simp add: is_space_def)
  have "take 4 [84, 87, 69, 61] = base64_chars [19, 22, 4] 1" by code_simp
  then have "base64_valid (take 4 [84, 87, 69, 61]) [19, 22, 4] 1" by (simp add: base64_valid_def)
  then have "EVP_DecodeBase64 [1, 1, 1] 3 [84, 87, 69, 61] 4 = (True, [77, 97, 1], 2)"
    by (subst EVP_DecodeBase64_iff) (auto simp: mem_write_def intro: exI [of _ "[19, 22, 4]"] exI [of _ 1])
  moreover have "length (concat ?cs) \<le> INT_MAX" by (simp add: INT_MAX_def)
  moreover have l: "length [84, 87, 69, 61 :: byte] = 4" "length [1, 1, 1 :: byte] = 3" by simp_all
  ultimately show ?thesis
    using EVP_Decode_streams [OF _ s, of "[1, 1, 1]" "[77, 97, 1]" 2] unfolding l
    by (simp del: decode_chunks.simps)
qed

lemma not_space_text: "filter (\<lambda>c. \<not> is_space c) (base64_text bs) = base64_text bs"
proof -
  have "\<forall>c\<in>set base64_alphabet. \<not> is_space c" unfolding is_space_def by code_simp
  then have "\<not> is_space (base64_alphabet ! d)" if "d < 64" for d using that by simp
  moreover have "\<not> is_space 61" by (simp add: is_space_def)
  ultimately show ?thesis
    by (auto simp: base64_text_def filter_id_conv dest: base64_digits_less)
qed

lemma base64_text_append: "length as mod 3 = 0 \<Longrightarrow> base64_text (as @ bs) = base64_text as @ base64_text bs"
  by (induction as rule: base64_digits.induct) (simp_all add: base64_text_group)

lemma base64_text_lines:
  "length bs mod ENCODE_DATA = 0 \<Longrightarrow> filter (\<lambda>c. \<not> is_space c) (base64_lines bs) = base64_text bs"
proof (induction bs rule: base64_lines.induct)
  case (1 bs)
  show ?case
  proof (cases "bs = []")
    case True
    then show ?thesis by (simp add: base64_lines.simps ENCODE_DATA_def)
  next
    case False
    then have l: "ENCODE_DATA \<le> length bs" using 1(2) by (cases "length bs < ENCODE_DATA") auto
    then have "length (drop ENCODE_DATA bs) mod ENCODE_DATA = 0" using 1(2) by (simp add: le_mod_geq)
    then have "filter (\<lambda>c. \<not> is_space c) (base64_lines (drop ENCODE_DATA bs)) = base64_text (drop ENCODE_DATA bs)"
      using 1(1) l by simp
    moreover have "base64_text (take ENCODE_DATA bs @ drop ENCODE_DATA bs) =
      base64_text (take ENCODE_DATA bs) @ base64_text (drop ENCODE_DATA bs)"
      using l by (intro base64_text_append) (simp add: ENCODE_DATA_def min_absorb2)
    moreover have "is_space 10" by (simp add: is_space_def)
    ultimately show ?thesis using l by (subst base64_lines.simps) (simp add: not_space_text)
  qed
qed

lemma base64_text_pem: "filter (\<lambda>c. \<not> is_space c) (base64_pem bs) = base64_text bs"
proof -
  let ?k = "ENCODE_DATA * (length bs div ENCODE_DATA)"
  have l: "length (take ?k bs) = ?k" by (simp add: min_absorb2)
  have "base64_lines (base64_rest bs) = []"
    using length_base64_rest [of bs] by (simp add: base64_lines.simps ENCODE_DATA_def)
  then have "base64_lines bs = base64_lines (take ?k bs)"
    using l base64_lines_append [of "take ?k bs" "base64_rest bs"] by (simp add: base64_rest_def)
  then have "filter (\<lambda>c. \<not> is_space c) (base64_lines bs) = base64_text (take ?k bs)"
    using l base64_text_lines [of "take ?k bs"] by simp
  moreover have "base64_text (take ?k bs @ base64_rest bs) = base64_text (take ?k bs) @ base64_text (base64_rest bs)"
    using l by (intro base64_text_append) (simp add: ENCODE_DATA_def)
  moreover have "is_space 10" by (simp add: is_space_def)
  ultimately show ?thesis by (simp add: base64_pem_def not_space_text base64_rest_def)
qed

text \<open>
  C8. What the streaming encoder made of data in chunks, cut into chunks in any other way, the
  streaming decoder turns back into the data.
\<close>

theorem base64_stream_roundtrip:
  assumes "length (base64_pem (concat cs)) < length out" "length (base64_pem (concat cs)) \<le> INT_MAX"
    "encode_chunks EVP_EncodeInit out 0 cs = (out', q)" "concat ts = take q out'"
    "(length (concat cs) + 2) div 3 * 3 \<le> length buf"
  shows "decode_chunks EVP_DecodeInit buf 0 ts = Some (mem_write buf 0 (concat cs), length (concat cs))"
proof -
  have "concat ts = base64_pem (concat cs)"
    using encode_chunks_text [of EVP_EncodeInit 0 cs out] assms by (auto simp: stored_def)
  then have s: "base64_text (concat cs) = filter (\<lambda>c. \<not> is_space c) (concat ts)" "length (concat ts) \<le> INT_MAX"
    using base64_text_pem assms(2) by simp_all
  show ?thesis
    by (subst decode_chunks_iff [OF s(2,1)])
      (use assms(5) base64_text_valid [of "concat cs"] base64_bytes_digits [of "concat cs"] in
        \<open>force simp: EVP_DecodeBase64_iff\<close>)+
qed

lemma base64_stream_roundtrip_witness:
  "\<exists>out'. encode_chunks EVP_EncodeInit (replicate 9 1) 0 [[77], [97]] = (out', 5) \<and>
    decode_chunks EVP_DecodeInit [1, 1, 1] 0 [take 3 out', drop 3 (take 5 out')] = Some ([77, 97, 1], 2)"
proof -
  have "base64_lines [77, 97] = []" "base64_rest [77, 97] = [77, 97]"
    by (simp_all add: base64_lines.simps base64_rest_short ENCODE_DATA_def)
  then have l: "length (base64_pem [77, 97]) = 5" by (simp add: base64_pem_def)
  obtain out' where e: "encode_chunks EVP_EncodeInit (replicate 9 1) 0 [[77], [97]] = (out', 5)"
      "length out' = 9"
    using encode_chunks_text [of EVP_EncodeInit 0 "[[77], [97]]" "replicate 9 1"] l
    by (auto simp: INT_MAX_def stored_def)
  have "concat [take 3 out', drop 3 (take 5 out')] = take 5 out'"
    using e(2) take_add [of 3 2 out'] by (simp add: drop_take)
  then show ?thesis
    using base64_stream_roundtrip [OF _ _ e(1), of _ "[1, 1, 1]"] l e(1)
    by (auto simp: INT_MAX_def mem_write_def simp del: encode_chunks.simps decode_chunks.simps)
qed

section \<open>The old block decoder\<close>

definition is_blank :: "byte \<Rightarrow> bool" where
  "is_blank c \<longleftrightarrow> c \<in> {32, 9}"

definition base64_trim :: "byte list \<Rightarrow> byte list" where
  "base64_trim cs = rev (dropWhile is_space (rev (dropWhile is_blank cs)))"

lemma trim_front_take:
  assumes "n \<le> length src" "trim_front src n = (src', n')"
  shows "n' \<le> length src' \<and> take n' src' = dropWhile is_blank (take n src)"
  using assms
proof (induction src n rule: trim_front.induct)
  case (2 src n)
  then obtain c cs where "src = c # cs" by (cases src) auto
  then show ?case using 2 by (auto simp: is_blank_def split: if_splits)
qed auto

lemma trim_back_take:
  "n \<le> length src \<Longrightarrow> trim_back src n \<le> n \<and> take (trim_back src n) src = rev (dropWhile is_space (rev (take n src)))"
  by (induction src n rule: trim_back.induct) (auto simp: take_Suc_conv_app_nth is_space_def)

lemma pad_with_zeros_writes:
  assumes "(length bs + pad) mod 3 = 0" "pad \<le> 2" "length bs + pad \<le> length dst"
  shows "pad_with_zeros (mem_write dst 0 bs) (length bs) = (mem_write dst 0 (bs @ replicate pad 0), length bs + pad)"
  using assms
proof (induction pad arbitrary: bs)
  case 0
  then show ?case by (subst pad_with_zeros.simps) simp
next
  case (Suc pad)
  have "length bs mod 3 \<noteq> 0"
  proof
    assume "length bs mod 3 = 0"
    then have "(length bs + Suc pad) mod 3 = Suc pad mod 3" by (metis add_0 mod_add_left_eq)
    then show False using Suc.prems by simp
  qed
  moreover have "mem_write (mem_write dst 0 bs) (length bs) [0] = mem_write dst 0 (bs @ [0])"
    using Suc.prems(3) mem_write_append [of 0 bs "[0]" dst] by simp
  ultimately have "pad_with_zeros (mem_write dst 0 bs) (length bs) = pad_with_zeros (mem_write dst 0 (bs @ [0])) (length (bs @ [0]))"
    by (subst pad_with_zeros.simps) simp
  then show ?case using Suc.IH [of "bs @ [0]"] Suc.prems by (simp add: replicate_app_Cons_same)
qed

lemma base64_valid_length:
  assumes "base64_valid t ds pad" "length t mod 4 = 0"
  shows "length (base64_bytes ds) + pad = length t div 4 * 3" "pad \<le> 2"
proof -
  obtain j where j: "length t = 4 * j" using assms(2) by (auto simp: mod_eq_0_iff_dvd elim: dvdE)
  have l: "length ds + pad = 4 * j" "pad \<le> 2" using assms(1) j by (auto simp: base64_valid_def)
  then show "pad \<le> 2" by simp
  have "(4 * j - pad) * 3 div 4 + pad = 3 * j"
  proof (cases j)
    case 0
    then show ?thesis using l by simp
  next
    case (Suc i)
    have "pad = 0 \<or> pad = 1 \<or> pad = 2" using l(2) by auto
    then show ?thesis using Suc by auto
  qed
  moreover have "length ds = 4 * j - pad" using l(1) by simp
  ultimately show "length (base64_bytes ds) + pad = length t div 4 * 3"
    using j by (simp add: length_base64_bytes)
qed

text \<open>
  C37. \<open>EVP_DecodeBlock\<close> decodes what is left after leading blanks and trailing white space are
  stripped, gives as many bytes as if there were no padding, and stores zeros for the padding;
  minuses are not stripped.
\<close>

theorem EVP_DecodeBlock_exact:
  assumes "n \<le> length src" "t = base64_trim (take n src)" "length t div 4 * 3 \<le> length dst"
  shows "EVP_DecodeBlock dst src n = (int k, dst') \<longleftrightarrow>
    length t mod 4 = 0 \<and> k = length t div 4 * 3 \<and> k \<le> INT_MAX \<and>
    (\<exists>ds pad. base64_valid t ds pad \<and> dst' = mem_write dst 0 (base64_bytes ds @ replicate pad 0))"
proof -
  obtain s1 n1 where f: "trim_front src n = (s1, n1)" by fastforce
  let ?n = "trim_back s1 n1"
  have tf: "n1 \<le> length s1" "take n1 s1 = dropWhile is_blank (take n src)"
    using trim_front_take [OF assms(1) f] by auto
  have tb: "take ?n s1 = t" "?n \<le> length s1"
    using trim_back_take [OF tf(1)] tf assms(2) by (auto simp: base64_trim_def)
  then have "length t = ?n" by (metis length_take min.absorb2)
  note t = tb this
  show ?thesis
  proof (cases "?n mod 4 = 0 \<and> ?n div 4 * 3 \<le> INT_MAX")
    case False
    then have "EVP_DecodeBlock dst src n = (- 1, dst)"
      using f by (auto simp: EVP_DecodeBlock_def EVP_DecodedLength_def Let_def)
    then show ?thesis using False unfolding t(3) by auto
  next
    case True
    let ?m = "?n div 4 * 3"
    have m: "?m \<le> length dst" using assms(3) t by simp
    note iff = EVP_DecodeBase64_iff [OF t(2) m, unfolded t(1)]
    have p: "pad_with_zeros (mem_write dst 0 (base64_bytes ds)) (length (base64_bytes ds)) =
      (mem_write dst 0 (base64_bytes ds @ replicate pad 0), ?m)" if "base64_valid t ds pad" for ds pad
      using base64_valid_length [OF that] True t(3) m
      by (subst pad_with_zeros_writes [of _ pad]) simp_all
    obtain ok o1 m1 where d: "EVP_DecodeBase64 dst ?m s1 ?n = (ok, o1, m1)" using prod_cases3 by blast
    have e: "EVP_DecodeBlock dst src n = (if ok then case pad_with_zeros o1 m1 of (dst, dst_len) \<Rightarrow> (int dst_len, dst) else (- 1, o1))"
      using f True d by (simp add: EVP_DecodeBlock_def EVP_DecodedLength_def Let_def)
    show ?thesis
    proof
      assume l: "EVP_DecodeBlock dst src n = (int k, dst')"
      then have ok: "ok" using e by (auto split: if_splits)
      then obtain ds pad where ds: "base64_valid t ds pad" "o1 = mem_write dst 0 (base64_bytes ds)" "m1 = length (base64_bytes ds)"
        using iff [of o1 m1] d by auto
      show "length t mod 4 = 0 \<and> k = length t div 4 * 3 \<and> k \<le> INT_MAX \<and>
        (\<exists>ds pad. base64_valid t ds pad \<and> dst' = mem_write dst 0 (base64_bytes ds @ replicate pad 0))"
        using l e ok ds p [OF ds(1)] True t(3) by auto
    next
      assume r: "length t mod 4 = 0 \<and> k = length t div 4 * 3 \<and> k \<le> INT_MAX \<and>
        (\<exists>ds pad. base64_valid t ds pad \<and> dst' = mem_write dst 0 (base64_bytes ds @ replicate pad 0))"
      then obtain ds pad where ds: "base64_valid t ds pad" "dst' = mem_write dst 0 (base64_bytes ds @ replicate pad 0)" by blast
      have "EVP_DecodeBase64 dst ?m s1 ?n = (True, mem_write dst 0 (base64_bytes ds), length (base64_bytes ds))"
        unfolding iff using ds(1) True by auto
      then show "EVP_DecodeBlock dst src n = (int k, dst')"
        using e d p [OF ds(1)] ds(2) r t(3) by simp
    qed
  qed
qed

lemma EVP_DecodeBlock_exact_witness:
  "EVP_DecodeBlock [1, 1, 1] [32, 84, 87, 69, 61, 10] 6 = (3, [77, 97, 0]) \<and>
   EVP_DecodeBlock [1, 1, 1] [84, 87, 69, 61, 45] 5 \<noteq> (3, [77, 97, 0])"
proof -
  have t: "base64_trim (take 6 [32, 84, 87, 69, 61, 10]) = [84, 87, 69, 61]"
    "base64_trim (take 5 [84, 87, 69, 61, 45]) = [84, 87, 69, 61, 45]"
    by (simp_all add: base64_trim_def is_space_def is_blank_def)
  have "[84, 87, 69, 61] = base64_chars [19, 22, 4] 1" by code_simp
  then have "base64_valid [84, 87, 69, 61] [19, 22, 4] 1" by (simp add: base64_valid_def)
  then have "\<exists>ds pad. base64_valid [84, 87, 69, 61] ds pad \<and> [77, 97, 0] = mem_write [1, 1, 1] 0 (base64_bytes ds @ replicate pad 0)"
    by (intro exI [of _ "[19, 22, 4]"] exI [of _ 1]) (simp add: mem_write_def)
  then have "EVP_DecodeBlock [1, 1, 1] [32, 84, 87, 69, 61, 10] 6 = (int 3, [77, 97, 0])"
    by (subst EVP_DecodeBlock_exact [OF _ t(1) [symmetric]]) (simp_all add: INT_MAX_def)
  moreover have "EVP_DecodeBlock [1, 1, 1] [84, 87, 69, 61, 45] 5 \<noteq> (int 3, [77, 97, 0])"
    by (subst EVP_DecodeBlock_exact [OF _ t(2) [symmetric]]) simp_all
  ultimately show ?thesis by simp
qed

end
