(* ===== verification/Stack.thy ===== *)
theory Stack
  imports Mem_Buf Libc
begin

text \<open>
  BoringSSL's stack of pointers (\<open>crypto/stack/stack.c\<close>). A pointer to an element is
  \<open>None\<close> when it is null. A comparison function is named by its pointer, which
  \<open>call\<close> turns into what it computes; \<open>qsort\<close> and \<open>bsearch\<close> are parameters with
  their contracts. Every operation takes a stack that may be null.
\<close>

section \<open>The stack\<close>

record ('a, 'f) stack =
  sk_data :: "'a option list"
  sk_number :: nat
  sk_is_in_order :: bool
  sk_num_alloc :: nat
  sk_comp :: "'f option"

text \<open>The sizes of a \<open>_STACK\<close> and of a pointer on the target.\<close>

definition SIZEOF_STACK :: nat where "SIZEOF_STACK = 40"
definition SIZEOF_PTR :: nat where "SIZEOF_PTR = 8"
definition kMinSize :: nat where "kMinSize = 4"

definition sk_new :: "heap_env \<Rightarrow> 'f option \<Rightarrow> ('a, 'f) stack option" where
  "sk_new env cmp =
     (case OPENSSL_malloc env SIZEOF_STACK of
        None \<Rightarrow> None
      | Some _ \<Rightarrow>
          (case OPENSSL_malloc env (size_wrap (SIZEOF_PTR * kMinSize)) of
             None \<Rightarrow> None
           | Some _ \<Rightarrow>
               Some \<lparr>sk_data = replicate kMinSize None, sk_number = 0, sk_is_in_order = False,
                     sk_num_alloc = kMinSize, sk_comp = cmp\<rparr>))"

definition sk_new_null :: "heap_env \<Rightarrow> ('a, 'f) stack option" where
  "sk_new_null env = sk_new env None"

definition sk_num :: "('a, 'f) stack option \<Rightarrow> nat" where
  "sk_num sk = (case sk of None \<Rightarrow> 0 | Some s \<Rightarrow> sk_number s)"

definition sk_zero :: "('a, 'f) stack option \<Rightarrow> ('a, 'f) stack option" where
  "sk_zero sk =
     (case sk of
        None \<Rightarrow> None
      | Some s \<Rightarrow>
          if sk_number s = 0 then Some s
          else Some (s\<lparr>sk_data := mem_write (sk_data s) 0 (replicate (sk_number s) None),
                       sk_number := 0, sk_is_in_order := False\<rparr>))"

definition sk_value :: "('a, 'f) stack option \<Rightarrow> nat \<Rightarrow> 'a option" where
  "sk_value sk i =
     (case sk of
        None \<Rightarrow> None
      | Some s \<Rightarrow> if i \<ge> sk_number s then None else sk_data s ! i)"

definition sk_set :: "('a, 'f) stack option \<Rightarrow> nat \<Rightarrow> 'a option \<Rightarrow> 'a option \<times> ('a, 'f) stack option" where
  "sk_set sk i v =
     (case sk of
        None \<Rightarrow> (None, None)
      | Some s \<Rightarrow>
          if i \<ge> sk_number s then (None, Some s)
          else (v, Some (s\<lparr>sk_data := mem_write (sk_data s) i [v]\<rparr>)))"

text \<open>
  The array that is given back to the allocator, and the elements that \<open>func\<close> is called on.
\<close>

definition sk_free :: "('a, 'f) stack option \<Rightarrow> 'a option list option" where
  "sk_free sk = map_option sk_data sk"

definition sk_pop_free :: "('a, 'f) stack option \<Rightarrow> 'a list \<times> 'a option list option" where
  "sk_pop_free sk =
     (case sk of
        None \<Rightarrow> ([], None)
      | Some s \<Rightarrow> (List.map_filter id (take (sk_number s) (sk_data s)), sk_free (Some s)))"

text \<open>
  Making room for one more element: \<open>junk\<close> is what the allocator leaves in new memory.
\<close>

definition sk_grow :: "heap_env \<Rightarrow> (nat \<Rightarrow> 'a option) \<Rightarrow> ('a, 'f) stack \<Rightarrow> ('a, 'f) stack option" where
  "sk_grow env fresh s =
     (let new_alloc = size_wrap (2 * sk_num_alloc s);
          alloc_size = size_wrap (new_alloc * SIZEOF_PTR);
          (new_alloc, alloc_size) =
            (if new_alloc < sk_num_alloc s \<or> alloc_size div SIZEOF_PTR \<noteq> new_alloc
             then (size_wrap (sk_num_alloc s + 1), size_wrap (size_wrap (sk_num_alloc s + 1) * SIZEOF_PTR))
             else (new_alloc, alloc_size))
      in if new_alloc < sk_num_alloc s \<or> alloc_size div SIZEOF_PTR \<noteq> new_alloc then None
         else (case OPENSSL_malloc env alloc_size of
                 None \<Rightarrow> None
               | Some _ \<Rightarrow>
                   Some (s\<lparr>sk_data := mem_write (map fresh [0..<new_alloc]) 0 (take new_alloc (sk_data s)),
                           sk_num_alloc := new_alloc\<rparr>)))"

definition sk_insert ::
  "heap_env \<Rightarrow> (nat \<Rightarrow> 'a option) \<Rightarrow> ('a, 'f) stack option \<Rightarrow> 'a option \<Rightarrow> nat \<Rightarrow> nat \<times> ('a, 'f) stack option" where
  "sk_insert env fresh sk p pos =
     (case sk of
        None \<Rightarrow> (0, None)
      | Some s \<Rightarrow>
          (case (if sk_num_alloc s \<le> sk_number s + 1 then sk_grow env fresh s else Some s) of
             None \<Rightarrow> (0, Some s)
           | Some s \<Rightarrow>
               let data = (if pos \<ge> sk_number s then mem_write (sk_data s) (sk_number s) [p]
                           else mem_write
                             (mem_write (sk_data s) (pos + 1)
                                (take (sk_number s - pos) (drop pos (sk_data s))))
                             pos [p])
               in (sk_number s + 1,
                   Some (s\<lparr>sk_data := data, sk_number := sk_number s + 1, sk_is_in_order := False\<rparr>))))"

definition sk_delete :: "('a, 'f) stack option \<Rightarrow> nat \<Rightarrow> 'a option \<times> ('a, 'f) stack option" where
  "sk_delete sk pos =
     (case sk of
        None \<Rightarrow> (None, None)
      | Some s \<Rightarrow>
          if pos \<ge> sk_number s then (None, Some s)
          else let ret = sk_data s ! pos;
                   data = (if pos \<noteq> sk_number s - 1
                           then mem_write (sk_data s) pos
                             (take (sk_number s - pos - 1) (drop (pos + 1) (sk_data s)))
                           else sk_data s)
               in (ret, Some (s\<lparr>sk_data := data, sk_number := sk_number s - 1\<rparr>)))"

text \<open>The first index, below \<open>n\<close>, at which \<open>p\<close> is found.\<close>

definition find_ptr :: "'a option list \<Rightarrow> nat \<Rightarrow> 'a option \<Rightarrow> nat option" where
  "find_ptr data n p = List.find (\<lambda>i. data ! i = p) [0..<n]"

definition sk_delete_ptr :: "('a, 'f) stack option \<Rightarrow> 'a option \<Rightarrow> 'a option \<times> ('a, 'f) stack option" where
  "sk_delete_ptr sk p =
     (case sk of
        None \<Rightarrow> (None, None)
      | Some s \<Rightarrow>
          (case find_ptr (sk_data s) (sk_number s) p of
             None \<Rightarrow> (None, Some s)
           | Some i \<Rightarrow> sk_delete (Some s) i))"

definition sk_push :: "heap_env \<Rightarrow> (nat \<Rightarrow> 'a option) \<Rightarrow> ('a, 'f) stack option \<Rightarrow> 'a option \<Rightarrow> nat \<times> ('a, 'f) stack option" where
  "sk_push env fresh sk p =
     (case sk of None \<Rightarrow> (0, None) | Some s \<Rightarrow> sk_insert env fresh (Some s) p (sk_number s))"

definition sk_shift :: "('a, 'f) stack option \<Rightarrow> 'a option \<times> ('a, 'f) stack option" where
  "sk_shift sk =
     (case sk of
        None \<Rightarrow> (None, None)
      | Some s \<Rightarrow> if sk_number s = 0 then (None, Some s) else sk_delete (Some s) 0)"

definition sk_pop :: "('a, 'f) stack option \<Rightarrow> 'a option \<times> ('a, 'f) stack option" where
  "sk_pop sk =
     (case sk of
        None \<Rightarrow> (None, None)
      | Some s \<Rightarrow> if sk_number s = 0 then (None, Some s) else sk_delete (Some s) (sk_number s - 1))"


section \<open>Sorting and searching\<close>

type_synonym 'a compar = "'a option \<Rightarrow> 'a option \<Rightarrow> int"

definition sk_sort ::
  "('a compar \<Rightarrow> 'a option list \<Rightarrow> 'a option list) \<Rightarrow> ('f \<Rightarrow> 'a compar) \<Rightarrow> ('a, 'f) stack option \<Rightarrow> ('a, 'f) stack option" where
  "sk_sort srt call sk =
     (case sk of
        None \<Rightarrow> None
      | Some s \<Rightarrow>
          (case sk_comp s of
             None \<Rightarrow> Some s
           | Some f \<Rightarrow>
               if sk_is_in_order s then Some s
               else Some (s\<lparr>sk_data := mem_write (sk_data s) 0 (srt (call f) (take (sk_number s) (sk_data s))),
                            sk_is_in_order := True\<rparr>)))"

fun first_equal :: "'a compar \<Rightarrow> 'a option \<Rightarrow> 'a option list \<Rightarrow> nat \<Rightarrow> nat" where
  "first_equal compar p data 0 = 0"
| "first_equal compar p data (Suc idx) =
     (if compar p (data ! idx) = 0 then first_equal compar p data idx else Suc idx)"

text \<open>The index found, and the stack, which may have been sorted.\<close>

definition sk_find ::
  "('a compar \<Rightarrow> 'a option list \<Rightarrow> 'a option list) \<Rightarrow> ('a compar \<Rightarrow> 'a option \<Rightarrow> 'a option list \<Rightarrow> nat option) \<Rightarrow>
     ('f \<Rightarrow> 'a compar) \<Rightarrow> ('a, 'f) stack option \<Rightarrow> 'a option \<Rightarrow> nat option \<times> ('a, 'f) stack option" where
  "sk_find srt search call sk p =
     (case sk of
        None \<Rightarrow> (None, None)
      | Some s \<Rightarrow>
          (case sk_comp s of
             None \<Rightarrow> (find_ptr (sk_data s) (sk_number s) p, Some s)
           | Some f \<Rightarrow>
               if p = None then (None, Some s)
               else (case sk_sort srt call (Some s) of
                       None \<Rightarrow> (None, None)
                     | Some s \<Rightarrow>
                         (case search (call f) p (take (sk_number s) (sk_data s)) of
                            None \<Rightarrow> (None, Some s)
                          | Some idx \<Rightarrow> (Some (first_equal (call f) p (sk_data s) idx), Some s)))))"

definition sk_is_sorted :: "('a, 'f) stack option \<Rightarrow> bool" where
  "sk_is_sorted sk = (case sk of None \<Rightarrow> True | Some s \<Rightarrow> sk_is_in_order s)"

definition sk_set_cmp_func :: "('a, 'f) stack \<Rightarrow> 'f option \<Rightarrow> 'f option \<times> ('a, 'f) stack" where
  "sk_set_cmp_func s cmp =
     (let old = sk_comp s;
          s = (if sk_comp s \<noteq> cmp then s\<lparr>sk_is_in_order := False\<rparr> else s)
      in (old, s\<lparr>sk_comp := cmp\<rparr>))"


section \<open>Copies\<close>

definition sk_dup :: "heap_env \<Rightarrow> (nat \<Rightarrow> 'a option) \<Rightarrow> ('a, 'f) stack option \<Rightarrow> ('a, 'f) stack option" where
  "sk_dup env fresh sk =
     (case sk of
        None \<Rightarrow> None
      | Some s \<Rightarrow>
          (case sk_new env (sk_comp s) of
             None \<Rightarrow> None
           | Some ret \<Rightarrow>
               (case OPENSSL_malloc env (size_wrap (SIZEOF_PTR * sk_num_alloc s)) of
                  None \<Rightarrow> None
                | Some _ \<Rightarrow>
                    let data = mem_write (map fresh [0..<sk_num_alloc s]) 0
                          (take (sk_num_alloc s) (sk_data ret))
                    in Some (ret\<lparr>sk_data := mem_write data 0 (take (sk_number s) (sk_data s)),
                                 sk_number := sk_number s, sk_is_in_order := sk_is_in_order s,
                                 sk_num_alloc := sk_num_alloc s, sk_comp := sk_comp s\<rparr>))))"

text \<open>
  The copy, and the copied elements that are freed again. \<open>copy_func\<close> is called once for
  every element and may answer differently each time: its answers depend on the index.
\<close>

fun deep_copy_loop ::
  "(nat \<Rightarrow> 'a \<Rightarrow> 'a option) \<Rightarrow> 'a option list \<Rightarrow> nat \<Rightarrow> nat \<Rightarrow> 'a option list option \<times> 'a list" where
  "deep_copy_loop copy_func data i 0 = (Some data, [])"
| "deep_copy_loop copy_func data i (Suc n) =
     (case data ! i of
        None \<Rightarrow> deep_copy_loop copy_func data (i + 1) n
      | Some x \<Rightarrow>
          (case copy_func i x of
             None \<Rightarrow> (None, List.map_filter id (take i data))
           | Some y \<Rightarrow> deep_copy_loop copy_func (mem_write data i [Some y]) (i + 1) n))"

definition sk_deep_copy ::
  "heap_env \<Rightarrow> (nat \<Rightarrow> 'a option) \<Rightarrow> ('a, 'f) stack option \<Rightarrow> (nat \<Rightarrow> 'a \<Rightarrow> 'a option) \<Rightarrow>
     ('a, 'f) stack option \<times> 'a list" where
  "sk_deep_copy env fresh sk copy_func =
     (case sk_dup env fresh sk of
        None \<Rightarrow> (None, [])
      | Some ret \<Rightarrow>
          (case deep_copy_loop copy_func (sk_data ret) 0 (sk_number ret) of
             (None, freed) \<Rightarrow> (None, freed)
           | (Some data, freed) \<Rightarrow> (Some (ret\<lparr>sk_data := data\<rparr>), freed)))"

section \<open>The stack as a list\<close>

definition sk_ok :: "('a, 'f) stack \<Rightarrow> bool" where
  "sk_ok s \<longleftrightarrow> length (sk_data s) = sk_num_alloc s \<and> sk_number s < sk_num_alloc s \<and> 8 * sk_num_alloc s < 2 ^ 64"

definition sk_list :: "('a, 'f) stack \<Rightarrow> 'a option list" where
  "sk_list s = take (sk_number s) (sk_data s)"

lemma length_sk_list: "sk_ok s \<Longrightarrow> length (sk_list s) = sk_number s"
  by (simp add: sk_ok_def sk_list_def)

lemma sk_list_nth: "sk_ok s \<Longrightarrow> i < sk_number s \<Longrightarrow> sk_data s ! i = sk_list s ! i"
  by (simp add: sk_list_def)

lemma sk_new_ok: "sk_new env c = Some s \<Longrightarrow> sk_ok s \<and> sk_list s = [] \<and> sk_comp s = c"
  by (auto simp: sk_new_def sk_ok_def sk_list_def kMinSize_def split: option.splits)

lemma sk_grow_ok:
  assumes "sk_ok s" "sk_grow env fresh s = Some s'"
  shows "sk_ok s' \<and> sk_list s' = sk_list s \<and> sk_number s' = sk_number s \<and> sk_num_alloc s < sk_num_alloc s' \<and>
    sk_comp s' = sk_comp s"
proof -
  obtain n a where na: "size_wrap (n * 8) div 8 = n" "sk_num_alloc s < n" "n < 2 ^ 64"
    "s' = s\<lparr>sk_data := mem_write (map fresh [0..<n]) 0 (take n (sk_data s)), sk_num_alloc := n\<rparr>"
  proof -
    have l: "2 * sk_num_alloc s < 2 ^ 64" "0 < sk_num_alloc s" "sk_num_alloc s + 1 < 2 ^ 64"
      using assms(1) by (simp_all add: sk_ok_def)
    define n where "n = (if size_wrap (2 * sk_num_alloc s * 8) div 8 \<noteq> 2 * sk_num_alloc s
      then Suc (sk_num_alloc s) else 2 * sk_num_alloc s)"
    have "sk_grow env fresh s =
      (if size_wrap (n * 8) div 8 \<noteq> n then None
       else case OPENSSL_malloc env (size_wrap (n * 8)) of None \<Rightarrow> None
         | Some _ \<Rightarrow> Some (s\<lparr>sk_data := mem_write (map fresh [0..<n]) 0 (take n (sk_data s)), sk_num_alloc := n\<rparr>))"
      unfolding sk_grow_def n_def using l by (simp add: Let_def size_wrap_id SIZEOF_PTR_def del: upt_Suc)
    moreover have "sk_num_alloc s < n" "n < 2 ^ 64" using l by (simp_all add: n_def)
    ultimately show thesis using assms(2) that by (auto split: if_splits option.splits)
  qed
  have "8 * n < 2 ^ 64"
  proof -
    have "8 * n = 8 * (size_wrap (n * 8) div 8)" using na(1) by simp
    also have "\<dots> \<le> size_wrap (n * 8)" by simp
    finally show ?thesis using size_wrap_less [of "n * 8"] by simp
  qed
  then show ?thesis
    using assms(1) na by (auto simp: sk_ok_def sk_list_def mem_write_def)
qed

lemma sk_grow_some:
  assumes "sk_ok s" "sk_num_alloc s < 2 ^ 58" "\<forall>k<2 ^ 62. malloc_ok env k"
  shows "sk_grow env fresh s \<noteq> None"
  using assms
  by (auto simp: sk_grow_def Let_def size_wrap_id SIZEOF_PTR_def OPENSSL_malloc_def split: option.splits)

text \<open>What \<open>sk_insert\<close> does when there is room.\<close>

lemma insert_memmove:
  assumes "n < length data" "pos < n"
  shows "take (n + 1) (mem_write (mem_write data (pos + 1) (take (n - pos) (drop pos data))) pos [p]) =
    take pos (take n data) @ p # drop pos (take n data)"
proof -
  let ?t = "take (n - pos) (drop pos data)"
  let ?x = "mem_write data (pos + 1) ?t"
  have t: "length ?t = n - pos" using assms by simp
  have x: "?x = take (pos + 1) data @ ?t @ drop (n + 1) data" using assms t by (simp add: mem_write_def)
  have "take pos ?x = take pos data" unfolding x using assms by simp
  moreover have "drop (pos + 1) ?x = ?t @ drop (n + 1) data" unfolding x using assms by simp
  ultimately have "mem_write ?x pos [p] = take pos data @ p # ?t @ drop (n + 1) data"
    by (simp add: mem_write_def)
  moreover have "Suc n - pos = Suc (n - pos)" using assms by simp
  ultimately show ?thesis using assms t by (simp add: drop_take min_absorb1)
qed

lemma sk_insert_ok:
  assumes "sk_ok s" "sk_insert env fresh (Some s) p pos = (r, t)"
  shows "\<exists>s'. t = Some s' \<and> sk_ok s' \<and> sk_comp s' = sk_comp s \<and>
    (r = 0 \<and> s' = s \<or>
     r = Suc (sk_number s) \<and> \<not> sk_is_in_order s' \<and> sk_list s' = take pos (sk_list s) @ p # drop pos (sk_list s))"
proof (cases "if sk_num_alloc s \<le> sk_number s + 1 then sk_grow env fresh s else Some s")
  case None
  then show ?thesis using assms by (simp add: sk_insert_def)
next
  case (Some s1)
  have s1: "sk_ok s1 \<and> sk_list s1 = sk_list s \<and> sk_number s1 = sk_number s \<and> sk_number s1 + 1 < sk_num_alloc s1 \<and>
      sk_comp s1 = sk_comp s"
  proof (cases "sk_num_alloc s \<le> sk_number s + 1")
    case True
    then show ?thesis using Some sk_grow_ok [OF assms(1), of env fresh s1] assms(1)
      by (simp add: sk_ok_def)
  qed (use Some assms(1) in auto)
  let ?data = "if pos \<ge> sk_number s1 then mem_write (sk_data s1) (sk_number s1) [p]
     else mem_write (mem_write (sk_data s1) (pos + 1) (take (sk_number s1 - pos) (drop pos (sk_data s1)))) pos [p]"
  have len: "length (sk_data s1) = sk_num_alloc s1" using s1 by (simp add: sk_ok_def)
  have "length ?data = sk_num_alloc s1" using s1 len by auto
  moreover have "take (sk_number s1 + 1) ?data = take pos (sk_list s) @ p # drop pos (sk_list s)"
  proof (cases "pos \<ge> sk_number s1")
    case True
    then show ?thesis using s1 len by (auto simp: sk_list_def mem_write_def min_def)
  next
    case False
    have "take (sk_number s1) (sk_data s1) = sk_list s" using s1 by (auto simp: sk_list_def)
    moreover have "take (sk_number s1 + 1) ?data =
      take pos (take (sk_number s1) (sk_data s1)) @ p # drop pos (take (sk_number s1) (sk_data s1))"
      unfolding if_not_P [OF False] using False s1 len by (intro insert_memmove) simp_all
    ultimately show ?thesis by (simp only:)
  qed
  ultimately show ?thesis
    using assms(2) Some s1 by (auto simp: sk_insert_def Let_def sk_ok_def sk_list_def)
qed

lemma sk_insert_room:
  assumes "sk_ok s" "sk_num_alloc s < 2 ^ 58" "\<forall>k<2 ^ 62. malloc_ok env k"
  shows "fst (sk_insert env fresh (Some s) p pos) \<noteq> 0"
proof -
  obtain s1 where "(if sk_num_alloc s \<le> sk_number s + 1 then sk_grow env fresh s else Some s) = Some s1"
    using sk_grow_some [OF assms, of fresh]
    by (cases "sk_num_alloc s \<le> sk_number s + 1"; cases "sk_grow env fresh s") auto
  then show ?thesis by (simp add: sk_insert_def Let_def)
qed

lemma sk_delete_ok:
  assumes "sk_ok s" "sk_delete (Some s) pos = (r, t)"
  shows "\<exists>s'. t = Some s' \<and> sk_ok s' \<and> sk_comp s' = sk_comp s \<and> sk_is_in_order s' = sk_is_in_order s \<and>
    (if pos < sk_number s then r = sk_list s ! pos \<and> sk_list s' = take pos (sk_list s) @ drop (Suc pos) (sk_list s)
     else r = None \<and> s' = s)"
proof (cases "pos < sk_number s")
  case False
  then show ?thesis using assms by (simp add: sk_delete_def)
next
  case True
  have n: "sk_number s < length (sk_data s)" using assms(1) by (simp add: sk_ok_def)
  let ?data = "if pos \<noteq> sk_number s - 1
     then mem_write (sk_data s) pos (take (sk_number s - pos - 1) (drop (pos + 1) (sk_data s))) else sk_data s"
  have "length ?data = length (sk_data s)" using n True by auto
  moreover have "take (sk_number s - 1) ?data = take pos (sk_list s) @ drop (Suc pos) (sk_list s)"
    using n True by (cases "pos = sk_number s - 1") (auto simp: sk_list_def mem_write_def min_def drop_take)
  ultimately show ?thesis
    using assms True n by (auto simp: sk_delete_def Let_def sk_ok_def sk_list_def)
qed

text \<open>
  C23. A stack is a list: insertion, deletion, replacement and reading act on it at the index
  given, a failed call changes nothing, and the array always has room for one more element.
\<close>

theorem sk_refines:
  assumes "sk_ok s" "sk_list s = l"
  shows "(case sk_insert env fresh (Some s) p pos of (r, t) \<Rightarrow>
      \<exists>s'. t = Some s' \<and> sk_ok s' \<and>
        (r = 0 \<and> s' = s \<or> r = Suc (length l) \<and> sk_list s' = take pos l @ p # drop pos l)) \<and>
    (case sk_delete (Some s) pos of (r, t) \<Rightarrow>
      \<exists>s'. t = Some s' \<and> sk_ok s' \<and>
        (if pos < length l then r = l ! pos \<and> sk_list s' = take pos l @ drop (Suc pos) l else r = None \<and> s' = s)) \<and>
    (case sk_set (Some s) pos p of (r, t) \<Rightarrow>
      \<exists>s'. t = Some s' \<and> sk_ok s' \<and> (if pos < length l then r = p \<and> sk_list s' = l[pos := p] else r = None \<and> s' = s)) \<and>
    sk_value (Some s) pos = (if pos < length l then l ! pos else None) \<and> sk_num (Some s) = length l \<and>
    (\<exists>s'. sk_zero (Some s) = Some s' \<and> sk_ok s' \<and> sk_list s' = [])"
proof -
  have ll: "length l = sk_number s" using assms length_sk_list by auto
  have n: "sk_number s < length (sk_data s)" using assms(1) by (simp add: sk_ok_def)
  have ins: "case sk_insert env fresh (Some s) p pos of (r, t) \<Rightarrow>
      \<exists>s'. t = Some s' \<and> sk_ok s' \<and>
        (r = 0 \<and> s' = s \<or> r = Suc (length l) \<and> sk_list s' = take pos l @ p # drop pos l)"
    using sk_insert_ok [OF assms(1)] assms(2) ll by (fastforce split: prod.splits)
  have del: "case sk_delete (Some s) pos of (r, t) \<Rightarrow>
      \<exists>s'. t = Some s' \<and> sk_ok s' \<and>
        (if pos < length l then r = l ! pos \<and> sk_list s' = take pos l @ drop (Suc pos) l else r = None \<and> s' = s)"
    using sk_delete_ok [OF assms(1)] assms(2) ll by (fastforce split: prod.splits)
  have wr: "mem_write (sk_data s) pos [p] = (sk_data s)[pos := p]" if "pos < sk_number s"
    using that n by (simp add: mem_write_def upd_conv_take_nth_drop)
  have set: "case sk_set (Some s) pos p of (r, t) \<Rightarrow>
      \<exists>s'. t = Some s' \<and> sk_ok s' \<and> (if pos < length l then r = p \<and> sk_list s' = l[pos := p] else r = None \<and> s' = s)"
    using assms ll wr by (auto simp: sk_set_def sk_ok_def sk_list_def take_update_swap)
  have "sk_zero (Some s) = Some (if sk_number s = 0 then s else s\<lparr>sk_data := mem_write (sk_data s) 0 (replicate (sk_number s) None),
     sk_number := 0, sk_is_in_order := False\<rparr>)" by (simp add: sk_zero_def)
  then have zero: "\<exists>s'. sk_zero (Some s) = Some s' \<and> sk_ok s' \<and> sk_list s' = []"
    using assms(1) n by (auto simp: sk_ok_def sk_list_def)
  have "sk_value (Some s) pos = (if pos < length l then l ! pos else None) \<and> sk_num (Some s) = length l"
    using assms ll sk_list_nth [OF assms(1)] by (auto simp: sk_value_def sk_num_def)
  then show ?thesis using ins del set zero by blast
qed

definition sk_example :: "(nat, unit) stack" where
  "sk_example = \<lparr>sk_data = [Some 3, Some 1, None, None], sk_number = 2, sk_is_in_order = False,
     sk_num_alloc = 4, sk_comp = Some ()\<rparr>"

lemma sk_example_ok: "sk_ok sk_example" "sk_list sk_example = [Some 3, Some 1]"
  by (simp_all add: sk_example_def sk_ok_def sk_list_def)

lemma sk_refines_witness:
  "\<exists>s'. sk_delete (Some sk_example) 0 = (Some 3, Some s') \<and> sk_list s' = [Some 1]"
  using sk_refines [OF sk_example_ok, where pos = 0, THEN conjunct2, THEN conjunct1]
  by (auto split: prod.splits)


section \<open>Searching\<close>

lemma sgn_opposite: "sgn b = - sgn (a :: int) \<Longrightarrow> b \<le> 0 \<longleftrightarrow> 0 \<le> a"
  by (auto simp: sgn_if split: if_splits)

lemma sorted_partitioned:
  assumes "comparator compar (insert p (set xs))" "sorted_wrt (\<lambda>a b. compar a b \<le> 0) xs"
  shows "partitioned compar p xs"
proof -
  have "(compar p a \<le> 0 \<longrightarrow> compar p b \<le> 0) \<and> (compar p a < 0 \<longrightarrow> compar p b < 0)"
    if ab: "a \<in> set xs" "b \<in> set xs" "compar a b \<le> 0" for a b
  proof -
    have tr: "compar x z \<le> 0" if "x \<in> insert p (set xs)" "y \<in> insert p (set xs)" "z \<in> insert p (set xs)"
        "compar x y \<le> 0" "compar y z \<le> 0" for x y z
      using assms(1) that unfolding comparator_def by blast
    have sg: "sgn (compar y x) = - sgn (compar x y)" if "x \<in> insert p (set xs)" "y \<in> insert p (set xs)" for x y
      using assms(1) that unfolding comparator_def by blast
    have "compar p a \<ge> 0" if "compar p b \<ge> 0"
    proof -
      have "compar b p \<le> 0" using sgn_opposite [OF sg [of p b]] that ab by simp
      then have "compar a p \<le> 0" using tr [of a b p] ab by simp
      then show ?thesis using sgn_opposite [OF sg [of p a]] ab by simp
    qed
    then show ?thesis using tr [of p a b] ab by fastforce
  qed
  then show ?thesis
    using assms(2) unfolding partitioned_def by (rule sorted_wrt_mono_rel)
qed

lemma comparator_consistent: "comparator compar A \<Longrightarrow> consistent compar A"
proof -
  assume c: "comparator compar A"
  have "compar x y \<le> 0 \<or> compar y x \<le> 0" if "x \<in> A" "y \<in> A" for x y
  proof -
    have "sgn (compar y x) = - sgn (compar x y)" using c that unfolding comparator_def by blast
    from sgn_opposite [OF this] show ?thesis by linarith
  qed
  then have "\<forall>x\<in>A. \<forall>y\<in>A. compar x y \<le> 0 \<or> compar y x \<le> 0" by blast
  then show ?thesis unfolding consistent_def using c [unfolded comparator_def, THEN conjunct2] by (rule conjI)
qed

lemma first_equal_first:
  assumes "idx < length xs" "partitioned compar p xs" "compar p (xs ! idx) = 0" "i = first_equal compar p xs idx"
  shows "i \<le> idx \<and> compar p (xs ! i) = 0 \<and> (\<forall>j<i. compar p (xs ! j) \<noteq> 0)"
  using assms
proof (induction idx arbitrary: i)
  case (Suc idx)
  show ?case
  proof (cases "compar p (xs ! idx) = 0")
    case True
    then show ?thesis using Suc.IH [of i] Suc.prems by simp
  next
    case False
    have "compar p (xs ! j) \<noteq> 0" if "j < Suc idx" for j
    proof
      assume e: "compar p (xs ! j) = 0"
      then have "j < idx" using False that less_antisym by blast
      then have "compar p (xs ! idx) < 0" using partitionedD(1) [OF Suc.prems(2), of j idx] e False Suc.prems(1) by simp
      then show False using partitionedD(2) [OF Suc.prems(2), of idx "Suc idx"] Suc.prems(1,3) by simp
    qed
    then show ?thesis using Suc.prems(3,4) False by simp
  qed
qed simp

text \<open>
  The client of \<open>qsort\<close> and \<open>bsearch\<close>: what \<open>sk_sort\<close> and \<open>sk_find\<close> give with any
  implementation that keeps the two contracts.
\<close>

locale sorted_search = qsort_spec srt + bsearch_spec search
  for srt :: "('a option \<Rightarrow> 'a option \<Rightarrow> int) \<Rightarrow> 'a option list \<Rightarrow> 'a option list"
    and search :: "('a option \<Rightarrow> 'a option \<Rightarrow> int) \<Rightarrow> 'a option \<Rightarrow> 'a option list \<Rightarrow> nat option"
begin

lemma sort_ok:
  assumes "sk_ok s" "sk_comp s = Some f" "consistent (call f) (set (sk_list s))"
    "sk_is_in_order s \<longrightarrow> sorted_wrt (\<lambda>a b. call f a b \<le> 0) (sk_list s)"
  shows "\<exists>s'. sk_sort srt call (Some s) = Some s' \<and> sk_ok s' \<and> sk_number s' = sk_number s \<and> sk_comp s' = Some f \<and>
    sk_is_in_order s' \<and> mset (sk_list s') = mset (sk_list s) \<and> sorted_wrt (\<lambda>a b. call f a b \<le> 0) (sk_list s')"
proof (cases "sk_is_in_order s")
  case True
  then show ?thesis using assms by (simp add: sk_sort_def)
next
  case False
  let ?l = "srt (call f) (sk_list s)"
  have m: "mset ?l = mset (sk_list s)" "sorted_wrt (\<lambda>a b. call f a b \<le> 0) ?l"
    using srt_perm [OF assms(3)] srt_sorted [OF assms(3)] by simp_all
  have ll: "length ?l = sk_number s" using m(1) length_sk_list [OF assms(1)] by (metis size_mset)
  have n: "sk_number s < length (sk_data s)" using assms(1) by (simp add: sk_ok_def)
  have "take (sk_number s) (mem_write (sk_data s) 0 ?l) = ?l" using ll n by (simp add: mem_write_def)
  moreover have "length (mem_write (sk_data s) 0 ?l) = length (sk_data s)" using ll n by simp
  ultimately show ?thesis
    using False assms(1,2) m by (simp add: sk_sort_def sk_ok_def sk_list_def)
qed

lemma find_ok:
  assumes "sk_ok s" "sk_comp s = Some f" "p \<noteq> None" "comparator (call f) (insert p (set (sk_list s)))"
    "sk_is_in_order s \<longrightarrow> sorted_wrt (\<lambda>a b. call f a b \<le> 0) (sk_list s)"
    "sk_find srt search call (Some s) p = (r, t)"
  shows "\<exists>s'. t = Some s' \<and> sk_ok s' \<and> sk_is_in_order s' \<and> mset (sk_list s') = mset (sk_list s) \<and>
    sorted_wrt (\<lambda>a b. call f a b \<le> 0) (sk_list s') \<and>
    (case r of None \<Rightarrow> \<forall>x\<in>set (sk_list s). call f p x \<noteq> 0
     | Some i \<Rightarrow> i < length (sk_list s') \<and> call f p (sk_list s' ! i) = 0 \<and> (\<forall>j<i. call f p (sk_list s' ! j) \<noteq> 0))"
proof -
  have "comparator (call f) (set (sk_list s))" using assms(4) unfolding comparator_def by blast
  then have "consistent (call f) (set (sk_list s))" by (rule comparator_consistent)
  then obtain s' where s': "sk_sort srt call (Some s) = Some s'" "sk_ok s'" "sk_number s' = sk_number s"
      "sk_comp s' = Some f" "sk_is_in_order s'" "mset (sk_list s') = mset (sk_list s)"
      "sorted_wrt (\<lambda>a b. call f a b \<le> 0) (sk_list s')"
    using sort_ok [OF assms(1,2), of call] assms(5) by blast
  have st: "set (sk_list s') = set (sk_list s)" using s'(6) by (metis set_mset_mset)
  have pt: "partitioned (call f) p (sk_list s')" using assms(4) s'(7) by (intro sorted_partitioned) (simp_all add: st)
  have l: "length (sk_list s') = sk_number s'" using length_sk_list [OF s'(2)] .
  have find: "sk_find srt search call (Some s) p =
    (case search (call f) p (sk_list s') of None \<Rightarrow> (None, Some s')
     | Some idx \<Rightarrow> (Some (first_equal (call f) p (sk_data s') idx), Some s'))"
    using assms(2,3) s'(1) by (auto simp: sk_find_def sk_list_def split: option.split)
  show ?thesis
  proof (cases "search (call f) p (sk_list s')")
    case None
    then have "\<forall>x\<in>set (sk_list s). call f p x \<noteq> 0" using search_complete [OF pt] st by blast
    then show ?thesis using find None assms(6) s' by simp
  next
    case (Some idx)
    have idx: "idx < length (sk_list s')" "call f p (sk_list s' ! idx) = 0"
      using search_sound [OF pt Some] by simp_all
    have "first_equal (call f) p (sk_data s') k = first_equal (call f) p (sk_list s') k" if "k < length (sk_list s')" for k
      using that l by (induction k) (simp_all add: sk_list_nth [OF s'(2)])
    then have "r = Some (first_equal (call f) p (sk_list s') idx)" "t = Some s'"
      using find Some assms(6) idx(1) by simp_all
    then show ?thesis
      using first_equal_first [OF idx(1) pt idx(2) refl] idx(1) s' by (auto intro: le_less_trans)
  qed
qed

end

interpretation sk: sorted_search qsort bsearch
  by (unfold_locales)

text \<open>
  C11. \<open>sk_find\<close> on a stack with a comparison function puts the elements in order and gives
  the first index at which the element is found, and no index only if it is not there, provided
  that the flag \<open>sorted\<close> tells the truth.
\<close>

theorem sk_find_first:
  assumes "sk_ok s" "sk_comp s = Some f" "p \<noteq> None" "comparator (call f) (insert p (set (sk_list s)))"
    "sk_is_in_order s \<longrightarrow> sorted_wrt (\<lambda>a b. call f a b \<le> 0) (sk_list s)"
    "sk_find qsort bsearch call (Some s) p = (r, t)"
  shows "\<exists>s'. t = Some s' \<and> sk_ok s' \<and> sk_is_in_order s' \<and> mset (sk_list s') = mset (sk_list s) \<and>
    sorted_wrt (\<lambda>a b. call f a b \<le> 0) (sk_list s') \<and>
    (case r of None \<Rightarrow> \<forall>x\<in>set (sk_list s). call f p x \<noteq> 0
     | Some i \<Rightarrow> i < length (sk_list s') \<and> call f p (sk_list s' ! i) = 0 \<and> (\<forall>j<i. call f p (sk_list s' ! j) \<noteq> 0))"
  by (rule sk.find_ok [OF assms])

text \<open>A comparison of numbers, with null pointers first.\<close>

definition ptr_compare :: "unit \<Rightarrow> nat compar" where
  "ptr_compare f a b =
     (case (a, b) of
        (None, None) \<Rightarrow> 0 | (None, Some _) \<Rightarrow> - 1 | (Some _, None) \<Rightarrow> 1
      | (Some x, Some y) \<Rightarrow> if x < y then - 1 else if y < x then 1 else 0)"

lemma ptr_compare_comparator: "comparator (ptr_compare f) A"
  unfolding comparator_def ptr_compare_def by (auto split: option.splits if_splits)

lemma sk_find_first_witness:
  "\<exists>s'. sk_find qsort bsearch ptr_compare (Some sk_example) (Some 3) = (Some 1, Some s') \<and> sk_list s' = [Some 1, Some 3]"
proof -
  have e: "sk_find qsort bsearch ptr_compare (Some sk_example) (Some 3) =
    (Some 1, Some (sk_example\<lparr>sk_data := [Some 1, Some 3, None, None], sk_is_in_order := True\<rparr>))" by code_simp
  have "\<exists>s'. Some (sk_example\<lparr>sk_data := [Some 1, Some 3, None, None], sk_is_in_order := True\<rparr>) = Some s' \<and> sk_ok s'"
    using sk_find_first [OF sk_example_ok(1) _ _ ptr_compare_comparator _ e]
    by (auto simp: sk_example_def)
  then show ?thesis using e by (auto simp: sk_example_def sk_list_def)
qed

lemma bsearch_loop_misses:
  assumes "\<forall>i. 0 < i \<and> i < hi \<longrightarrow> compar key (xs ! i) > 0" "0 < lo \<or> 2 \<le> hi"
  shows "bsearch_loop compar key xs lo hi = None"
  using assms
proof (induction compar key xs lo hi rule: bsearch_loop.induct)
  case (1 compar key xs lo hi)
  show ?case
  proof (cases "lo < hi")
    case True
    then have m: "0 < (lo + hi) div 2" "(lo + hi) div 2 < hi" using 1(4) by auto
    then have c: "compar key (xs ! ((lo + hi) div 2)) > 0" using 1(3) by blast
    have "bsearch_loop compar key xs ((lo + hi) div 2 + 1) hi = None"
      using "1.IH"(2) [OF True refl refl _ c] 1(3) c by simp
    then show ?thesis using True c by (subst bsearch_loop.simps) (simp add: Let_def)
  qed (simp add: bsearch_loop.simps)
qed

text \<open>
  C39. \<open>sk_set\<close> leaves the flag \<open>sorted\<close> as it is: whenever an element that is greater than all others is
  stored at the front of a stack of two elements or more that has been sorted, it is in the stack, and
  \<open>sk_find\<close>, whose binary search never looks there, does not find it.
\<close>

theorem sk_set_breaks_find:
  assumes "sk_ok s" "sk_comp s = Some f" "sk_is_in_order s" "2 \<le> sk_number s"
    "p \<noteq> None" "\<forall>x\<in>set (tl (sk_list s)). call f p x > 0"
  shows "case sk_set (Some s) 0 p of (_, sk) \<Rightarrow>
     sk_value sk 0 = p \<and> (\<forall>srt. sk_find srt bsearch call sk p = (None, sk))"
proof -
  let ?d = "mem_write (sk_data s) 0 [p]"
  have l: "length (sk_list s) = sk_number s" using assms(1) by (rule length_sk_list)
  have d: "take (sk_number s) ?d = p # tl (sk_list s)"
    using assms(4) by (simp add: mem_write_def sk_list_def tl_take tl_drop drop_Suc take_Cons')
  have "call f p ((p # tl (sk_list s)) ! i) > 0" if "0 < i" "i < sk_number s" for i
    using that assms(6) l by (cases i) auto
  then have "bsearch (call f) p (p # tl (sk_list s)) = None"
    using assms(4) l unfolding bsearch_def by (intro bsearch_loop_misses) auto
  moreover have "?d ! 0 = p" by (simp add: mem_write_def)
  ultimately show ?thesis using assms d by (simp add: sk_set_def sk_value_def sk_find_def sk_sort_def)
qed

lemma sk_set_breaks_find_witness:
  "case sk_set (sk_sort qsort ptr_compare (Some sk_example)) 0 (Some 9) of (_, sk) \<Rightarrow>
     sk_value sk 0 = Some 9 \<and> sk_find qsort bsearch ptr_compare sk (Some 9) = (None, sk)"
proof -
  let ?s = "sk_example\<lparr>sk_data := [Some 1, Some 3, None, None], sk_is_in_order := True\<rparr>"
  have e: "sk_sort qsort ptr_compare (Some sk_example) = Some ?s" by code_simp
  have s: "sk_ok ?s" "sk_comp ?s = Some ()" "sk_is_in_order ?s" "2 \<le> sk_number ?s" "sk_list ?s = [Some 1, Some 3]"
    by (simp_all add: sk_example_def sk_ok_def sk_list_def)
  have "\<forall>x\<in>set (tl (sk_list ?s)). ptr_compare () (Some 9) x > 0" unfolding s(5) by (simp add: ptr_compare_def)
  from sk_set_breaks_find [where call = ptr_compare and p = "Some 9", OF s(1-4) _ this] show ?thesis
    unfolding e by (auto split: prod.splits)
qed

section \<open>Deep copies\<close>

lemma sk_dup_ok:
  assumes "sk_ok s" "sk_dup env fresh (Some s) = Some s'"
  shows "sk_ok s' \<and> sk_list s' = sk_list s \<and> sk_number s' = sk_number s \<and> sk_comp s' = sk_comp s \<and>
    sk_is_in_order s' = sk_is_in_order s"
proof -
  obtain ret where r: "sk_new env (sk_comp s) = Some ret"
    "s' = ret\<lparr>sk_data := mem_write (mem_write (map fresh [0..<sk_num_alloc s]) 0 (take (sk_num_alloc s) (sk_data ret)))
         0 (take (sk_number s) (sk_data s)),
       sk_number := sk_number s, sk_is_in_order := sk_is_in_order s, sk_num_alloc := sk_num_alloc s, sk_comp := sk_comp s\<rparr>"
    using assms(2) by (auto simp: sk_dup_def Let_def split: option.splits)
  let ?d = "mem_write (map fresh [0..<sk_num_alloc s]) 0 (take (sk_num_alloc s) (sk_data ret))"
  let ?l = "take (sk_number s) (sk_data s)"
  have "length ?d = sk_num_alloc s" by simp
  moreover have "length ?l = sk_number s" "sk_number s < sk_num_alloc s" using assms(1) by (simp_all add: sk_ok_def)
  ultimately have "length (mem_write ?d 0 ?l) = sk_num_alloc s" "take (sk_number s) (mem_write ?d 0 ?l) = ?l"
    using take_mem_write [of 0 ?l ?d] by simp_all
  then show ?thesis using assms(1) r(2) by (simp add: sk_ok_def sk_list_def)
qed

lemma sk_dup_room:
  assumes "sk_ok s"
  shows "sk_dup env fresh (Some s) \<noteq> None \<longleftrightarrow>
    OPENSSL_malloc env SIZEOF_STACK \<noteq> None \<and> OPENSSL_malloc env 32 \<noteq> None \<and> OPENSSL_malloc env (8 * sk_num_alloc s) \<noteq> None"
  using assms by (auto simp: sk_dup_def sk_new_def SIZEOF_PTR_def kMinSize_def size_wrap_id sk_ok_def Let_def split: option.splits)

text \<open>Element \<open>i\<close> of the copy.\<close>

definition copied :: "(nat \<Rightarrow> 'a \<Rightarrow> 'a option) \<Rightarrow> 'a option list \<Rightarrow> nat \<Rightarrow> 'a option" where
  "copied cf l i = (case l ! i of None \<Rightarrow> None | Some x \<Rightarrow> cf i x)"

lemma deep_copy_loop_spec:
  assumes "i + n \<le> length l" "length data = length l" "take i data = map (copied cf l) [0..<i]" "drop i data = drop i l"
  shows "deep_copy_loop cf data i n = (r, freed) \<Longrightarrow>
    (case r of
       Some data' \<Rightarrow> freed = [] \<and> data' = map (copied cf l) [0..<i + n] @ drop (i + n) l \<and>
         (\<forall>j. i \<le> j \<and> j < i + n \<and> l ! j \<noteq> None \<longrightarrow> copied cf l j \<noteq> None)
     | None \<Rightarrow> (\<exists>k x. i \<le> k \<and> k < i + n \<and> l ! k = Some x \<and> cf k x = None \<and>
         freed = List.map_filter id (map (copied cf l) [0..<k]) \<and>
         (\<forall>j. i \<le> j \<and> j < k \<and> l ! j \<noteq> None \<longrightarrow> copied cf l j \<noteq> None)))"
  using assms
proof (induction n arbitrary: data i)
  case 0
  have "data = take i data @ drop i data" by simp
  then have "data = map (copied cf l) [0..<i] @ drop i l" by (simp only: 0(4,5))
  then show ?case using 0(1) by auto
next
  case (Suc n)
  have i: "i < length l" using Suc.prems(2) by simp
  have di: "data ! i = l ! i" "drop (Suc i) data = drop (Suc i) l"
  proof -
    have "drop i data ! 0 = drop i l ! 0" "drop 1 (drop i data) = drop 1 (drop i l)"
      by (simp_all only: Suc.prems(5))
    then show "data ! i = l ! i" "drop (Suc i) data = drop (Suc i) l" using i Suc.prems(3) by simp_all
  qed
  have next_: "take (Suc i) data' = map (copied cf l) [0..<Suc i]" if "take i data' = take i data" "data' ! i = copied cf l i"
      "length data' = length l" for data'
    using that Suc.prems(4) i by (simp add: take_Suc_conv_app_nth)
  have step: ?case if h1: "l ! i \<noteq> None \<longrightarrow> copied cf l i \<noteq> None" and h2: "case r of
         Some data' \<Rightarrow> freed = [] \<and> data' = map (copied cf l) [0..<Suc i + n] @ drop (Suc i + n) l \<and>
           (\<forall>j. Suc i \<le> j \<and> j < Suc i + n \<and> l ! j \<noteq> None \<longrightarrow> copied cf l j \<noteq> None)
       | None \<Rightarrow> (\<exists>k x. Suc i \<le> k \<and> k < Suc i + n \<and> l ! k = Some x \<and> cf k x = None \<and>
           freed = List.map_filter id (map (copied cf l) [0..<k]) \<and>
           (\<forall>j. Suc i \<le> j \<and> j < k \<and> l ! j \<noteq> None \<longrightarrow> copied cf l j \<noteq> None))"
  proof (cases r)
    case None
    then obtain k x where k: "Suc i \<le> k" "k < Suc i + n" "l ! k = Some x" "cf k x = None"
      "freed = List.map_filter id (map (copied cf l) [0..<k])"
      "\<And>j. Suc i \<le> j \<Longrightarrow> j < k \<Longrightarrow> l ! j \<noteq> None \<Longrightarrow> copied cf l j \<noteq> None" using h2 by auto
    have "copied cf l j \<noteq> None" if "i \<le> j" "j < k" "l ! j \<noteq> None" for j
      using k(6) [of j] that h1 by (cases "j = i") auto
    then show ?thesis using None k(1-5) by (auto intro!: exI [of _ k])
  next
    case (Some data')
    then have a: "freed = []" "data' = map (copied cf l) [0..<i + Suc n] @ drop (i + Suc n) l"
      "\<And>j. Suc i \<le> j \<Longrightarrow> j < i + Suc n \<Longrightarrow> l ! j \<noteq> None \<Longrightarrow> copied cf l j \<noteq> None"
      using h2 by auto
    have "copied cf l j \<noteq> None" if "i \<le> j" "j < i + Suc n" "l ! j \<noteq> None" for j
      using a(3) [of j] that h1 by (cases "j = i") auto
    then show ?thesis using Some a(1,2) by simp
  qed
  show ?case
  proof (cases "l ! i")
    case None
    then have c: "copied cf l i = None" by (simp add: copied_def)
    have e: "deep_copy_loop cf data (Suc i) n = (r, freed)" using Suc.prems(1) None di(1) by simp
    have "take (Suc i) data = map (copied cf l) [0..<Suc i]" using next_ [of data] di(1) None c Suc.prems(3) by simp
    from Suc.IH [OF e _ Suc.prems(3) this di(2)] Suc.prems(2) None
    show ?thesis by (intro step) simp_all
  next
    case (Some x)
    show ?thesis
    proof (cases "cf i x")
      case None
      then have "r = None" "freed = List.map_filter id (map (copied cf l) [0..<i])"
        using Suc.prems(1,4) Some di(1) by simp_all
      then show ?thesis using Some None by (auto intro!: exI [of _ i])
    next
      case (Some y)
      let ?d = "mem_write data i [Some y]"
      have c: "copied cf l i = Some y" using \<open>l ! i = Some x\<close> Some by (simp add: copied_def)
      have l: "length ?d = length l" using i Suc.prems(3) by simp
      have e: "deep_copy_loop cf ?d (Suc i) n = (r, freed)" using Suc.prems(1) \<open>l ! i = Some x\<close> Some di(1) by simp
      have "take (Suc i) ?d = map (copied cf l) [0..<Suc i]"
        using i Suc.prems(3) c l by (intro next_) (simp_all add: mem_write_def nth_append)
      moreover have "drop (Suc i) ?d = drop (Suc i) l" using di(2) i Suc.prems(3) by (simp add: mem_write_def)
      ultimately show ?thesis
        using Suc.IH [OF e _ l] Suc.prems(2) c by (intro step) simp_all
    qed
  qed
qed

text \<open>
  C38. \<open>sk_deep_copy\<close> gives a stack of the copies, in order, whenever there is memory for the three blocks
  it needs and \<open>copy_func\<close> succeeds on every element. Otherwise it gives nothing: without memory no copy is
  made, and when \<open>copy_func\<close> first fails at the element with the index \<open>k\<close>, exactly the copies of the
  elements before it are freed, once each.
\<close>

theorem sk_deep_copy_exact:
  assumes "sk_ok s" "sk_list s = l" "sk_deep_copy env fresh (Some s) cf = (r, freed)"
  defines "room \<equiv> OPENSSL_malloc env SIZEOF_STACK \<noteq> None \<and> OPENSSL_malloc env 32 \<noteq> None \<and>
      OPENSSL_malloc env (8 * sk_num_alloc s) \<noteq> None"
    and "failing \<equiv> {k. k < length l \<and> l ! k \<noteq> None \<and> copied cf l k = None}"
  shows "if room \<and> failing = {}
    then freed = [] \<and> (\<exists>s'. r = Some s' \<and> sk_ok s' \<and> sk_list s' = map (copied cf l) [0..<length l] \<and> sk_comp s' = sk_comp s)
    else r = None \<and> freed = (if room then List.map_filter id (map (copied cf l) [0..<Min failing]) else [])"
proof (cases "sk_dup env fresh (Some s)")
  case None
  then have "\<not> room" using sk_dup_room [OF assms(1), of env fresh] by (simp add: room_def)
  then show ?thesis using assms(3) None by (simp add: sk_deep_copy_def)
next
  case (Some t)
  note t = sk_dup_ok [OF assms(1) Some]
  have room using Some sk_dup_room [OF assms(1), of env fresh] by (simp add: room_def)
  have n: "length l = sk_number t" using assms(1,2) t length_sk_list by metis
  have lt: "sk_number t < length (sk_data t)" using t by (simp add: sk_ok_def)
  have nth: "sk_data t ! i = l ! i" if "i < length l" for i using that assms(2) t n by (simp add: sk_list_nth)
  then have eq: "copied cf (sk_data t) i = copied cf l i" if "i < length l" for i
    using that by (simp add: copied_def)
  then have meq: "map (copied cf (sk_data t)) [0..<k] = map (copied cf l) [0..<k]" if "k \<le> length l" for k
    using that by simp
  obtain d fr where d: "deep_copy_loop cf (sk_data t) 0 (sk_number t) = (d, fr)" by fastforce
  have sp: "case d of
       Some data' \<Rightarrow> fr = [] \<and> data' = map (copied cf (sk_data t)) [0..<sk_number t] @ drop (sk_number t) (sk_data t) \<and>
         (\<forall>j. j < sk_number t \<and> sk_data t ! j \<noteq> None \<longrightarrow> copied cf (sk_data t) j \<noteq> None)
     | None \<Rightarrow> (\<exists>k x. k < sk_number t \<and> sk_data t ! k = Some x \<and> cf k x = None \<and>
         fr = List.map_filter id (map (copied cf (sk_data t)) [0..<k]) \<and>
         (\<forall>j. j < k \<and> sk_data t ! j \<noteq> None \<longrightarrow> copied cf (sk_data t) j \<noteq> None))"
    using deep_copy_loop_spec [OF _ refl _ refl d] lt by (cases d) simp_all
  show ?thesis
  proof (cases d)
    case None
    then have r: "r = None" "freed = fr" using assms(3) Some d by (simp_all add: sk_deep_copy_def)
    obtain k x where k: "k < sk_number t" "sk_data t ! k = Some x" "cf k x = None"
        "fr = List.map_filter id (map (copied cf (sk_data t)) [0..<k])"
        "\<And>j. j < k \<Longrightarrow> sk_data t ! j \<noteq> None \<Longrightarrow> copied cf (sk_data t) j \<noteq> None"
      using sp None by auto
    have "k \<in> failing" using k(1-3) nth [of k] n by (auto simp: failing_def copied_def)
    moreover have "\<not> j < k" if "j \<in> failing" for j
      using that k(1) k(5) [of j] nth [of j] eq [of j] n by (auto simp: failing_def)
    moreover have "finite failing" by (simp add: failing_def)
    ultimately have "Min failing = k" "failing \<noteq> {}" by (auto intro!: Min_eqI simp: not_less)
    then show ?thesis using r k(1,4) meq [of k] n \<open>room\<close> by simp
  next
    case d': (Some data')
    then have r: "r = Some (t\<lparr>sk_data := data'\<rparr>)" "freed = fr" using assms(3) Some d by (simp_all add: sk_deep_copy_def)
    have dd: "data' = map (copied cf l) [0..<length l] @ drop (sk_number t) (sk_data t)" "fr = []" "failing = {}"
      using sp d' meq [of "length l"] n nth eq by (auto simp: failing_def)
    then show ?thesis using r t lt n \<open>room\<close> by (simp add: sk_ok_def sk_list_def)
  qed
qed

lemma sk_deep_copy_exact_witness:
  "sk_deep_copy plenty (\<lambda>_. None) (Some sk_example) (\<lambda>i x. if i = 1 then None else Some (x + 10)) = (None, [13]) \<and>
   (\<exists>s'. fst (sk_deep_copy plenty (\<lambda>_. None) (Some sk_example) (\<lambda>i x. Some (x + 10))) = Some s' \<and> sk_list s' = [Some 13, Some 11])"
proof -
  let ?cf = "\<lambda>i x. if i = 1 then None else Some (x + 10) :: nat option" and ?cg = "\<lambda>i :: nat. \<lambda>x. Some (x + 10) :: nat option"
  have m: "OPENSSL_malloc plenty k \<noteq> None" for k by (simp add: OPENSSL_malloc_def Let_def)
  have f: "{k. k < length [Some 3, Some 1] \<and> [Some 3, Some 1] ! k \<noteq> None \<and> copied ?cf [Some 3, Some 1] k = None} = {1}"
    "{k. k < length [Some 3, Some 1] \<and> [Some 3, Some 1] ! k \<noteq> None \<and> copied ?cg [Some 3, Some 1] k = None} = {}"
    by (auto simp: copied_def less_Suc_eq)
  obtain r fr r' fr' where e: "sk_deep_copy plenty (\<lambda>_. None) (Some sk_example) ?cf = (r, fr)"
    "sk_deep_copy plenty (\<lambda>_. None) (Some sk_example) ?cg = (r', fr')" by fastforce
  show ?thesis
    using sk_deep_copy_exact [OF sk_example_ok e(1)] sk_deep_copy_exact [OF sk_example_ok e(2)] m e
    unfolding f by (auto simp add: copied_def map_filter_simps numeral_2_eq_2)
qed

end
