(* ===== verification/Lhash.thy ===== *)
theory Lhash
  imports Mem_Buf Libc
begin

text \<open>
  BoringSSL's hash table (\<open>crypto/lhash/lhash.c\<close>): chained buckets, doubled and halved with
  the number of items. A chain is the list of its items; an item keeps its address, because an
  iteration holds on to the next item while its callback may change the table. The hash and the
  comparison function are fields, as in the code; what a client's two functions have to satisfy
  is the locale \<open>hash_keys\<close>.
\<close>

section \<open>The table\<close>

record 'a lh_item =
  it_addr :: nat
  it_data :: 'a
  it_hash :: "32 word"

text \<open>\<open>lh_fresh\<close> is an address the allocator has not given out yet.\<close>

record 'a lhash =
  lh_count :: nat
  lh_buckets :: "'a lh_item list list"
  lh_num_buckets :: nat
  lh_callback_depth :: nat
  lh_comp :: "'a \<Rightarrow> 'a \<Rightarrow> int"
  lh_hash :: "'a \<Rightarrow> 32 word"
  lh_fresh :: nat

definition kMinNumBuckets :: nat where "kMinNumBuckets = 16"
definition kMaxAverageChainLength :: nat where "kMaxAverageChainLength = 2"
definition kMinAverageChainLength :: nat where "kMinAverageChainLength = 1"

definition SIZEOF_LHASH :: nat where "SIZEOF_LHASH = 48"
definition SIZEOF_LHASH_ITEM :: nat where "SIZEOF_LHASH_ITEM = 24"
definition SIZEOF_ITEM_PTR :: nat where "SIZEOF_ITEM_PTR = 8"
definition LH_UINT_MAX :: nat where "LH_UINT_MAX = 2 ^ 32 - 1"

definition lh_new :: "heap_env \<Rightarrow> ('a \<Rightarrow> 32 word) \<Rightarrow> ('a \<Rightarrow> 'a \<Rightarrow> int) \<Rightarrow> 'a lhash option" where
  "lh_new env hsh cmp =
     (case OPENSSL_malloc env SIZEOF_LHASH of
        None \<Rightarrow> None
      | Some _ \<Rightarrow>
          (case OPENSSL_malloc env (size_wrap (SIZEOF_ITEM_PTR * kMinNumBuckets)) of
             None \<Rightarrow> None
           | Some _ \<Rightarrow>
               Some \<lparr>lh_count = 0, lh_buckets = replicate kMinNumBuckets [], lh_num_buckets = kMinNumBuckets,
                     lh_callback_depth = 0, lh_comp = cmp, lh_hash = hsh, lh_fresh = 1\<rparr>))"

text \<open>The addresses of the items that are freed.\<close>

definition lh_free :: "'a lhash option \<Rightarrow> nat list" where
  "lh_free lh = (case lh of None \<Rightarrow> [] | Some h \<Rightarrow> map it_addr (concat (lh_buckets h)))"

definition lh_num_items :: "'a lhash \<Rightarrow> nat" where
  "lh_num_items lh = lh_count lh"

text \<open>
  A pointer to a pointer to an item is a bucket and a position in its chain, which is the length
  of the chain for the null pointer at its end.
\<close>

fun chain_pos :: "('a \<Rightarrow> 'a \<Rightarrow> int) \<Rightarrow> 'a \<Rightarrow> 'a lh_item list \<Rightarrow> nat" where
  "chain_pos cmp data [] = 0"
| "chain_pos cmp data (cur # chain) =
     (if cmp (it_data cur) data = 0 then 0 else Suc (chain_pos cmp data chain))"

definition get_next_ptr_and_hash :: "'a lhash \<Rightarrow> 'a \<Rightarrow> (nat \<times> nat) \<times> 32 word" where
  "get_next_ptr_and_hash lh data =
     (let hsh = lh_hash lh data;
          bucket = unat hsh mod lh_num_buckets lh
      in ((bucket, chain_pos (lh_comp lh) data (lh_buckets lh ! bucket)), hsh))"

definition lh_retrieve :: "'a lhash \<Rightarrow> 'a \<Rightarrow> 'a option" where
  "lh_retrieve lh data =
     (case get_next_ptr_and_hash lh data of
        ((b, i), _) \<Rightarrow>
          if i = length (lh_buckets lh ! b) then None else Some (it_data (lh_buckets lh ! b ! i)))"

fun rebucket_loop :: "nat \<Rightarrow> 'a lh_item list list \<Rightarrow> 'a lh_item list \<Rightarrow> 'a lh_item list list" where
  "rebucket_loop new_num new_buckets [] = new_buckets"
| "rebucket_loop new_num new_buckets (cur # items) =
     (let new_bucket = unat (it_hash cur) mod new_num
      in rebucket_loop new_num (new_buckets[new_bucket := cur # new_buckets ! new_bucket]) items)"

definition lh_rebucket :: "heap_env \<Rightarrow> 'a lhash \<Rightarrow> nat \<Rightarrow> 'a lhash" where
  "lh_rebucket env lh new_num_buckets =
     (let alloc_size = size_wrap (SIZEOF_ITEM_PTR * new_num_buckets) in
      if alloc_size div SIZEOF_ITEM_PTR \<noteq> new_num_buckets then lh
      else case OPENSSL_malloc env alloc_size of
        None \<Rightarrow> lh
      | Some _ \<Rightarrow>
          lh\<lparr>lh_buckets := rebucket_loop new_num_buckets (replicate new_num_buckets []) (concat (lh_buckets lh)),
             lh_num_buckets := new_num_buckets\<rparr>)"

definition lh_maybe_resize :: "heap_env \<Rightarrow> 'a lhash \<Rightarrow> 'a lhash" where
  "lh_maybe_resize env lh =
     (if lh_callback_depth lh > 0 then lh
      else let avg_chain_length = lh_count lh div lh_num_buckets lh in
      if avg_chain_length > kMaxAverageChainLength
      then let new_num_buckets = size_wrap (lh_num_buckets lh * 2) in
           if new_num_buckets > lh_num_buckets lh then lh_rebucket env lh new_num_buckets else lh
      else if avg_chain_length < kMinAverageChainLength \<and> lh_num_buckets lh > kMinNumBuckets
      then let new_num_buckets = lh_num_buckets lh div 2;
               new_num_buckets = (if new_num_buckets < kMinNumBuckets then kMinNumBuckets else new_num_buckets)
           in lh_rebucket env lh new_num_buckets
      else lh)"

text \<open>Success, \<open>*old_data\<close> and the table.\<close>

definition lh_insert :: "heap_env \<Rightarrow> 'a lhash \<Rightarrow> 'a \<Rightarrow> bool \<times> 'a option \<times> 'a lhash" where
  "lh_insert env lh data =
     (case get_next_ptr_and_hash lh data of
        ((b, i), hsh) \<Rightarrow>
          let chain = lh_buckets lh ! b in
          if i \<noteq> length chain
          then (True, Some (it_data (chain ! i)),
                lh\<lparr>lh_buckets := (lh_buckets lh)[b := chain[i := (chain ! i)\<lparr>it_data := data\<rparr>]]\<rparr>)
          else case OPENSSL_malloc env SIZEOF_LHASH_ITEM of
            None \<Rightarrow> (False, None, lh)
          | Some _ \<Rightarrow>
              let item = \<lparr>it_addr = lh_fresh lh, it_data = data, it_hash = hsh\<rparr>
              in (True, None,
                  lh_maybe_resize env
                    (lh\<lparr>lh_buckets := (lh_buckets lh)[b := chain @ [item]], lh_count := lh_count lh + 1,
                        lh_fresh := lh_fresh lh + 1\<rparr>)))"

definition lh_delete :: "heap_env \<Rightarrow> 'a lhash \<Rightarrow> 'a \<Rightarrow> 'a option \<times> 'a lhash" where
  "lh_delete env lh data =
     (case get_next_ptr_and_hash lh data of
        ((b, i), _) \<Rightarrow>
          let chain = lh_buckets lh ! b in
          if i = length chain then (None, lh)
          else (Some (it_data (chain ! i)),
                lh_maybe_resize env
                  (lh\<lparr>lh_buckets := (lh_buckets lh)[b := take i chain @ drop (Suc i) chain],
                      lh_count := lh_count lh - 1\<rparr>)))"


section \<open>Iteration\<close>

text \<open>
  The item at an address, with the address in its \<open>next\<close>: \<open>None\<close> when there is no such
  item, so that reading it would be a use after free.
\<close>

fun item_in_chain :: "nat \<Rightarrow> 'a lh_item list \<Rightarrow> ('a lh_item \<times> nat option) option" where
  "item_in_chain addr [] = None"
| "item_in_chain addr (it # chain) =
     (if it_addr it = addr then Some (it, case chain of [] \<Rightarrow> None | nx # _ \<Rightarrow> Some (it_addr nx))
      else item_in_chain addr chain)"

fun item_at :: "nat \<Rightarrow> 'a lh_item list list \<Rightarrow> ('a lh_item \<times> nat option) option" where
  "item_at addr [] = None"
| "item_at addr (chain # rest) =
     (case item_in_chain addr chain of None \<Rightarrow> item_at addr rest | r \<Rightarrow> r)"

text \<open>
  A callback is given the element, the table and the state it keeps in \<open>arg\<close>. The first
  argument bounds the number of items visited; \<open>None\<close> if it does not suffice, or for a use
  after free.
\<close>

fun doall_chain ::
  "nat \<Rightarrow> ('a \<Rightarrow> 'a lhash \<times> 's \<Rightarrow> 'a lhash \<times> 's) \<Rightarrow> nat option \<Rightarrow> 'a lhash \<times> 's \<Rightarrow> ('a lhash \<times> 's) option" where
  "doall_chain fuel func None st = Some st"
| "doall_chain 0 func (Some cur) st = None"
| "doall_chain (Suc fuel) func (Some cur) st =
     (case item_at cur (lh_buckets (fst st)) of
        None \<Rightarrow> None
      | Some (item, nxt) \<Rightarrow> doall_chain fuel func nxt (func (it_data item) st))"

definition chain_head :: "'a lh_item list \<Rightarrow> nat option" where
  "chain_head chain = (case chain of [] \<Rightarrow> None | it # _ \<Rightarrow> Some (it_addr it))"

fun doall_buckets ::
  "nat \<Rightarrow> ('a \<Rightarrow> 'a lhash \<times> 's \<Rightarrow> 'a lhash \<times> 's) \<Rightarrow> nat \<Rightarrow> nat \<Rightarrow> 'a lhash \<times> 's \<Rightarrow> ('a lhash \<times> 's) option" where
  "doall_buckets fuel func i 0 st = Some st"
| "doall_buckets fuel func i (Suc n) st =
     (if i < lh_num_buckets (fst st)
      then (case doall_chain fuel func (chain_head (lh_buckets (fst st) ! i)) st of
              None \<Rightarrow> None
            | Some st \<Rightarrow> doall_buckets fuel func (i + 1) n st)
      else Some st)"

definition lh_doall_arg ::
  "heap_env \<Rightarrow> nat \<Rightarrow> 'a lhash \<Rightarrow> ('a \<Rightarrow> 'a lhash \<times> 's \<Rightarrow> 'a lhash \<times> 's) \<Rightarrow> 's \<Rightarrow> ('a lhash \<times> 's) option" where
  "lh_doall_arg env fuel lh func arg =
     (let lh = (if lh_callback_depth lh < LH_UINT_MAX
                then lh\<lparr>lh_callback_depth := lh_callback_depth lh + 1\<rparr> else lh)
      in case doall_buckets fuel func 0 (lh_num_buckets lh) (lh, arg) of
        None \<Rightarrow> None
      | Some (lh, arg) \<Rightarrow>
          (let lh = (if lh_callback_depth lh < LH_UINT_MAX
                     then lh\<lparr>lh_callback_depth := lh_callback_depth lh - 1\<rparr> else lh)
           in Some (lh_maybe_resize env lh, arg)))"

definition lh_doall ::
  "heap_env \<Rightarrow> nat \<Rightarrow> 'a lhash \<Rightarrow> ('a \<Rightarrow> 'a lhash \<Rightarrow> 'a lhash) \<Rightarrow> 'a lhash option" where
  "lh_doall env fuel lh func =
     map_option fst (lh_doall_arg env fuel lh (\<lambda>x (h, u :: unit). (func x h, u)) ())"


section \<open>Strings\<close>

definition lh_strhash :: "byte list option \<Rightarrow> 32 word" where
  "lh_strhash c = (case c of None \<Rightarrow> 0 | Some s \<Rightarrow> OPENSSL_hash32 (take (c_strlen s) s))"


section \<open>The invariant\<close>

text \<open>
  The items of a table: their addresses are distinct and were given out, their hashes are
  cached, and no two elements are equal for the comparison function. Each is in the bucket of
  its hash.
\<close>

definition items_ok :: "('a \<Rightarrow> 'a \<Rightarrow> int) \<Rightarrow> ('a \<Rightarrow> 32 word) \<Rightarrow> nat \<Rightarrow> 'a lh_item list \<Rightarrow> bool" where
  "items_ok cmp hsh fresh xs \<longleftrightarrow>
     distinct (map it_addr xs) \<and> (\<forall>x\<in>set xs. it_addr x < fresh \<and> it_hash x = hsh (it_data x)) \<and>
     (\<forall>x\<in>set xs. \<forall>y\<in>set xs. cmp (it_data x) (it_data y) = 0 \<longrightarrow> x = y)"

definition placed :: "nat \<Rightarrow> 'a lh_item list list \<Rightarrow> bool" where
  "placed n bs \<longleftrightarrow> length bs = n \<and> (\<forall>b<n. \<forall>x\<in>set (bs ! b). unat (it_hash x) mod n = b)"

definition lh_items :: "'a lhash \<Rightarrow> 'a lh_item list" where
  "lh_items h = concat (lh_buckets h)"

definition lh_ok :: "'a lhash \<Rightarrow> bool" where
  "lh_ok h \<longleftrightarrow>
     placed (lh_num_buckets h) (lh_buckets h) \<and> kMinNumBuckets \<le> lh_num_buckets h \<and>
     lh_count h = length (lh_items h) \<and> items_ok (lh_comp h) (lh_hash h) (lh_fresh h) (lh_items h)"

definition lh_elems :: "'a lhash \<Rightarrow> 'a set" where
  "lh_elems h = it_data ` set (lh_items h)"

text \<open>What a client's comparison and hash function have to satisfy.\<close>

locale hash_keys =
  fixes cmp :: "'a \<Rightarrow> 'a \<Rightarrow> int" and hsh :: "'a \<Rightarrow> 32 word"
  assumes cmp_refl: "cmp x x = 0"
    and cmp_sym: "cmp x y = 0 \<Longrightarrow> cmp y x = 0"
    and cmp_trans: "cmp x y = 0 \<Longrightarrow> cmp y z = 0 \<Longrightarrow> cmp x z = 0"
    and hsh_cong: "cmp x y = 0 \<Longrightarrow> hsh x = hsh y"

lemma mset_concat_update:
  "b < length bs \<Longrightarrow> mset (concat (bs[b := c])) + mset (bs ! b) = mset (concat bs) + mset c"
  by (induction bs arbitrary: b) (auto split: nat.splits simp: ac_simps)

lemma set_concat_update: "b < length bs \<Longrightarrow> x \<in> set (bs ! b) \<Longrightarrow> x \<in> set (concat bs)"
  by (auto intro: nth_mem)

lemma items_ok_mset: "mset xs = mset ys \<Longrightarrow> items_ok cmp hsh n xs \<longleftrightarrow> items_ok cmp hsh n ys"
proof -
  assume m: "mset xs = mset ys"
  then have "mset (map it_addr xs) = mset (map it_addr ys)" by simp
  then have "distinct (map it_addr xs) \<longleftrightarrow> distinct (map it_addr ys)" by (rule mset_eq_imp_distinct_iff)
  moreover have "set xs = set ys" using m by (rule mset_eq_setD)
  ultimately show ?thesis by (simp add: items_ok_def)
qed

lemma items_ok_Cons:
  "items_ok cmp hsh n (x # xs) \<longleftrightarrow> items_ok cmp hsh n xs \<and> it_addr x \<notin> it_addr ` set xs \<and> it_addr x < n \<and>
     it_hash x = hsh (it_data x) \<and> (\<forall>y\<in>set xs. cmp (it_data x) (it_data y) \<noteq> 0 \<and> cmp (it_data y) (it_data x) \<noteq> 0)"
  by (auto simp: items_ok_def)

lemma items_ok_mono: "items_ok cmp hsh n xs \<Longrightarrow> n \<le> m \<Longrightarrow> items_ok cmp hsh m xs"
  by (auto simp: items_ok_def)

lemma items_ok_remove: "items_ok cmp hsh n xs \<Longrightarrow> mset xs = add_mset x (mset ys) \<Longrightarrow> items_ok cmp hsh n ys"
  using items_ok_mset [of xs "x # ys"] items_ok_Cons by fastforce


section \<open>Chains\<close>

lemma chain_pos_le: "chain_pos cmp x chain \<le> length chain"
  by (induction chain) auto

lemma chain_pos_found: "chain_pos cmp x chain < length chain \<Longrightarrow> cmp (it_data (chain ! chain_pos cmp x chain)) x = 0"
  by (induction chain) auto

lemma chain_pos_end:
  "chain_pos cmp x chain = length chain \<longleftrightarrow> (\<forall>it\<in>set chain. cmp (it_data it) x \<noteq> 0)"
  by (induction chain) auto

lemma placed_bucket: "placed n bs \<Longrightarrow> 0 < n \<Longrightarrow> x \<in> set (concat bs) \<Longrightarrow> x \<in> set (bs ! (unat (it_hash x) mod n))"
  by (auto simp: placed_def in_set_conv_nth [of _ bs])

lemma placed_update:
  "placed n bs \<Longrightarrow> \<forall>x\<in>set c. unat (it_hash x) mod n = b \<Longrightarrow> placed n (bs[b := c])"
  by (cases "b < length bs") (auto simp: placed_def nth_list_update list_update_beyond split: if_splits)


section \<open>Resizing\<close>

lemma rebucket_loop_ok:
  "placed n bs \<Longrightarrow> 0 < n \<Longrightarrow> placed n (rebucket_loop n bs xs) \<and>
     mset (concat (rebucket_loop n bs xs)) = mset (concat bs) + mset xs"
proof (induction xs arbitrary: bs)
  case (Cons x xs)
  let ?b = "unat (it_hash x) mod n"
  let ?bs = "bs[?b := x # bs ! ?b]"
  have b: "?b < length bs" using Cons.prems by (simp add: placed_def)
  then have "placed n ?bs" using Cons.prems by (intro placed_update) (auto simp: placed_def)
  moreover have "mset (concat ?bs) = add_mset x (mset (concat bs))"
    using mset_concat_update [OF b, of "x # bs ! ?b"] by simp
  ultimately show ?case using Cons.IH [of ?bs] Cons.prems by (simp add: Let_def)
qed simp

lemma lh_rebucket_ok:
  assumes "lh_ok h" "kMinNumBuckets \<le> n"
  shows "lh_ok (lh_rebucket env h n) \<and> mset (lh_items (lh_rebucket env h n)) = mset (lh_items h) \<and>
    lh_comp (lh_rebucket env h n) = lh_comp h \<and> lh_hash (lh_rebucket env h n) = lh_hash h \<and>
    lh_callback_depth (lh_rebucket env h n) = lh_callback_depth h"
proof (cases "lh_rebucket env h n = h")
  case False
  let ?bs = "rebucket_loop n (replicate n []) (concat (lh_buckets h))"
  have e: "lh_rebucket env h n = h\<lparr>lh_buckets := ?bs, lh_num_buckets := n\<rparr>"
    using False by (auto simp: lh_rebucket_def Let_def split: if_splits option.splits)
  have n: "0 < n" using assms(2) by (simp add: kMinNumBuckets_def)
  have r: "placed n (replicate n ([] :: 'a lh_item list))" by (simp add: placed_def)
  have e0: "concat (replicate n ([] :: 'a lh_item list)) = []" by simp
  have p: "placed n ?bs" "mset (concat ?bs) = mset (lh_items h)"
    using rebucket_loop_ok [OF r n, of "concat (lh_buckets h)"] unfolding e0 lh_items_def by simp_all
  then have "length (concat ?bs) = length (lh_items h)" by (metis size_mset)
  then show ?thesis
    using assms p items_ok_mset [OF p(2)] unfolding e by (simp add: lh_ok_def lh_items_def)
qed (use assms in simp)

lemma lh_maybe_resize_ok:
  assumes "lh_ok h"
  shows "lh_ok (lh_maybe_resize env h) \<and> mset (lh_items (lh_maybe_resize env h)) = mset (lh_items h) \<and>
    lh_comp (lh_maybe_resize env h) = lh_comp h \<and> lh_hash (lh_maybe_resize env h) = lh_hash h \<and>
    lh_callback_depth (lh_maybe_resize env h) = lh_callback_depth h"
proof -
  have "lh_maybe_resize env h = h \<or> (\<exists>n\<ge>kMinNumBuckets. lh_maybe_resize env h = lh_rebucket env h n)"
  proof -
    have "kMinNumBuckets \<le> lh_num_buckets h" using assms by (simp add: lh_ok_def)
    then have "kMinNumBuckets \<le> size_wrap (lh_num_buckets h * 2)"
      if "lh_num_buckets h < size_wrap (lh_num_buckets h * 2)" using that by linarith
    then show ?thesis unfolding lh_maybe_resize_def Let_def
      by (auto split: if_splits intro: exI [of _ "lh_num_buckets h div 2"] exI [of _ kMinNumBuckets]
          exI [of _ "size_wrap (lh_num_buckets h * 2)"])
  qed
  then show ?thesis using lh_rebucket_ok [OF assms] assms by auto
qed

lemma lh_elems_mset: "mset (lh_items h') = mset (lh_items h) \<Longrightarrow> lh_elems h' = lh_elems h"
  unfolding lh_elems_def by (metis mset_eq_setD)

section \<open>Refinement of a set of elements\<close>

lemma items_split:
  assumes "b < length bs" "i < length (bs ! b)"
  shows "\<exists>xs. mset (concat bs) = add_mset (bs ! b ! i) (mset xs) \<and>
    (\<forall>it. mset (concat (bs[b := (bs ! b)[i := it]])) = add_mset it (mset xs)) \<and>
    mset (concat (bs[b := take i (bs ! b) @ drop (Suc i) (bs ! b)])) = mset xs"
proof -
  let ?ch = "bs ! b" and ?pre = "concat (take b bs)" and ?post = "concat (drop (Suc b) bs)"
  have bs: "bs = take b bs @ ?ch # drop (Suc b) bs" using assms(1) by (rule id_take_nth_drop)
  have ch: "?ch = take i ?ch @ ?ch ! i # drop (Suc i) ?ch" using assms(2) by (rule id_take_nth_drop)
  have u: "concat (bs[b := c]) = ?pre @ c @ ?post" for c
    using assms(1) by (simp add: upd_conv_take_nth_drop)
  have v: "concat bs = ?pre @ ?ch @ ?post" by (subst bs) simp
  have w: "mset ?ch = add_mset (?ch ! i) (mset (take i ?ch @ drop (Suc i) ?ch))" by (subst ch) simp
  have x: "?ch[i := it] = take i ?ch @ it # drop (Suc i) ?ch" for it
    using assms(2) by (simp add: upd_conv_take_nth_drop)
  let ?xs = "?pre @ (take i ?ch @ drop (Suc i) ?ch) @ ?post"
  have "mset (concat bs) = add_mset (?ch ! i) (mset ?xs)"
    unfolding v mset_append [of ?pre] mset_append [of ?ch] w by simp
  moreover have "mset (concat (bs[b := ?ch[i := it]])) = add_mset it (mset ?xs)" for it
    unfolding u x by simp
  moreover have "mset (concat (bs[b := take i ?ch @ drop (Suc i) ?ch])) = mset ?xs"
    unfolding u by simp
  ultimately show ?thesis by blast
qed

lemma position_bucket:
  "lh_ok h \<Longrightarrow> get_next_ptr_and_hash h x = ((b, i), k) \<Longrightarrow>
     b = unat (lh_hash h x) mod lh_num_buckets h \<and> b < length (lh_buckets h) \<and> k = lh_hash h x \<and>
     i = chain_pos (lh_comp h) x (lh_buckets h ! b) \<and> i \<le> length (lh_buckets h ! b)"
  by (auto simp: get_next_ptr_and_hash_def Let_def lh_ok_def placed_def kMinNumBuckets_def chain_pos_le)

text \<open>What the tables of a client satisfy, and what an operation keeps.\<close>

definition lh_same_fns :: "'a lhash \<Rightarrow> 'a lhash \<Rightarrow> bool" where
  "lh_same_fns h h' \<longleftrightarrow> lh_comp h' = lh_comp h \<and> lh_hash h' = lh_hash h \<and> lh_callback_depth h' = lh_callback_depth h"

lemma lh_maybe_resize_elems:
  "lh_ok h \<Longrightarrow> lh_ok (lh_maybe_resize env h) \<and> lh_elems (lh_maybe_resize env h) = lh_elems h \<and>
     lh_same_fns h (lh_maybe_resize env h)"
  using lh_maybe_resize_ok [of h env] lh_elems_mset [of "lh_maybe_resize env h" h]
  by (simp add: lh_same_fns_def)

context hash_keys
begin

lemma position_end:
  assumes "lh_ok h" "lh_comp h = cmp" "lh_hash h = hsh"
    and p: "get_next_ptr_and_hash h x = ((b, length (lh_buckets h ! b)), k)"
  shows "\<forall>y\<in>set (lh_items h). cmp (it_data y) x \<noteq> 0"
proof (intro ballI notI)
  fix y assume y: "y \<in> set (lh_items h)" "cmp (it_data y) x = 0"
  have "it_hash y = hsh x" using assms(1,3) y hsh_cong by (simp add: lh_ok_def items_ok_def)
  moreover have "y \<in> set (lh_buckets h ! (unat (it_hash y) mod lh_num_buckets h))"
    using assms(1) y(1) by (intro placed_bucket) (auto simp: lh_ok_def lh_items_def kMinNumBuckets_def)
  ultimately have "y \<in> set (lh_buckets h ! b)" using position_bucket [OF assms(1) p] assms(3) by simp
  moreover have "chain_pos cmp x (lh_buckets h ! b) = length (lh_buckets h ! b)"
    using position_bucket [OF assms(1) p] assms(2) by metis
  ultimately show False using y(2) by (simp add: chain_pos_end)
qed

lemma position_found:
  assumes ok: "lh_ok h" and fns: "lh_comp h = cmp" "lh_hash h = hsh"
    and p: "get_next_ptr_and_hash h x = ((b, i), k)" and i: "i \<noteq> length (lh_buckets h ! b)"
  obtains xs where "cmp (it_data (lh_buckets h ! b ! i)) x = 0"
    "mset (lh_items h) = add_mset (lh_buckets h ! b ! i) (mset xs)"
    "\<forall>y\<in>set xs. cmp (it_data y) x \<noteq> 0"
    "\<And>it. mset (concat ((lh_buckets h)[b := (lh_buckets h ! b)[i := it]])) = add_mset it (mset xs)"
    "mset (concat ((lh_buckets h)[b := take i (lh_buckets h ! b) @ drop (Suc i) (lh_buckets h ! b)])) = mset xs"
proof -
  let ?old = "lh_buckets h ! b ! i"
  have b: "b < length (lh_buckets h)" and il: "i < length (lh_buckets h ! b)"
    and ip: "i = chain_pos cmp x (lh_buckets h ! b)"
    using position_bucket [OF ok p] i fns by auto
  obtain xs where xs: "mset (lh_items h) = add_mset ?old (mset xs)"
    "\<forall>it. mset (concat ((lh_buckets h)[b := (lh_buckets h ! b)[i := it]])) = add_mset it (mset xs)"
    "mset (concat ((lh_buckets h)[b := take i (lh_buckets h ! b) @ drop (Suc i) (lh_buckets h ! b)])) = mset xs"
    using items_split [OF b il] by (auto simp: lh_items_def)
  have c: "cmp (it_data ?old) x = 0" using chain_pos_found [of cmp x "lh_buckets h ! b"] il ip by simp
  have "items_ok cmp hsh (lh_fresh h) (?old # xs)"
    using ok fns items_ok_mset [of "lh_items h" "?old # xs"] xs(1) by (simp add: lh_ok_def)
  then have "\<forall>y\<in>set xs. cmp (it_data y) (it_data ?old) \<noteq> 0" by (simp add: items_ok_Cons)
  then have "\<forall>y\<in>set xs. cmp (it_data y) x \<noteq> 0" using c cmp_sym cmp_trans by blast
  then show thesis using that c xs by blast
qed

lemma retrieve_iff:
  assumes ok: "lh_ok h" and fns: "lh_comp h = cmp" "lh_hash h = hsh"
  shows "lh_retrieve h x = Some y \<longleftrightarrow> y \<in> lh_elems h \<and> cmp y x = 0"
proof -
  obtain b i k where p: "get_next_ptr_and_hash h x = ((b, i), k)" by (metis prod.collapse)
  show ?thesis
  proof (cases "i = length (lh_buckets h ! b)")
    case True
    then show ?thesis using position_end [OF ok fns, of x b k] p
      by (auto simp: lh_retrieve_def lh_elems_def)
  next
    case False
    obtain xs where "cmp (it_data (lh_buckets h ! b ! i)) x = 0"
      "mset (lh_items h) = add_mset (lh_buckets h ! b ! i) (mset xs)" "\<forall>y\<in>set xs. cmp (it_data y) x \<noteq> 0"
      using position_found [OF ok fns p False] by metis
    moreover from this(2) have "set (lh_items h) = insert (lh_buckets h ! b ! i) (set xs)"
      by (metis set_mset_add_mset_insert set_mset_mset)
    ultimately show ?thesis using p False by (auto simp: lh_retrieve_def lh_elems_def)
  qed
qed

lemma insert_found_ok:
  assumes ok: "lh_ok h" and fns: "lh_comp h = cmp" "lh_hash h = hsh"
    and p: "get_next_ptr_and_hash h x = ((b, i), k)" and i: "i \<noteq> length (lh_buckets h ! b)"
    and h': "h' = h\<lparr>lh_buckets := (lh_buckets h)[b := (lh_buckets h ! b)[i := (lh_buckets h ! b ! i)\<lparr>it_data := x\<rparr>]]\<rparr>"
  shows "lh_ok h' \<and> lh_elems h' = {y\<in>lh_elems h. cmp y x \<noteq> 0} \<union> {x}"
proof -
  let ?old = "lh_buckets h ! b ! i"
  obtain xs where xs: "cmp (it_data ?old) x = 0" "mset (lh_items h) = add_mset ?old (mset xs)"
    "\<forall>y\<in>set xs. cmp (it_data y) x \<noteq> 0"
    and "\<And>it. mset (concat ((lh_buckets h)[b := (lh_buckets h ! b)[i := it]])) = add_mset it (mset xs)"
    using position_found [OF ok fns p i] by metis
  then have xs4: "mset (lh_items h') = add_mset (?old\<lparr>it_data := x\<rparr>) (mset xs)" by (simp add: h' lh_items_def)
  have io: "items_ok cmp hsh (lh_fresh h) (?old # xs)"
    using ok fns items_ok_mset [of "lh_items h" "?old # xs"] xs(2) by (simp add: lh_ok_def)
  have "\<forall>y\<in>set xs. cmp x (it_data y) \<noteq> 0" using xs(3) cmp_sym by blast
  then have "items_ok cmp hsh (lh_fresh h) (?old\<lparr>it_data := x\<rparr> # xs)"
    using io xs(1,3) hsh_cong [OF xs(1)] by (simp add: items_ok_Cons)
  then have it: "items_ok cmp hsh (lh_fresh h) (lh_items h')"
    using items_ok_mset [of "lh_items h'" "?old\<lparr>it_data := x\<rparr> # xs"] xs4 by simp
  have b: "b < length (lh_buckets h)" "i < length (lh_buckets h ! b)" using position_bucket [OF ok p] i by auto
  have "placed (lh_num_buckets h) ((lh_buckets h)[b := (lh_buckets h ! b)[i := (lh_buckets h ! b ! i)\<lparr>it_data := x\<rparr>]])"
    using ok b
    by (intro placed_update) (auto simp: lh_ok_def placed_def dest!: set_update_subset_insert [THEN subsetD])
  then have "placed (lh_num_buckets h') (lh_buckets h')" by (simp add: h')
  moreover have "length (lh_items h') = length (lh_items h)" using xs(2) xs4 by (metis size_mset size_add_mset)
  ultimately have "lh_ok h'" using ok it fns unfolding lh_ok_def by (simp add: h')
  moreover have "set (lh_items h) = insert ?old (set xs)" "set (lh_items h') = insert (?old\<lparr>it_data := x\<rparr>) (set xs)"
    using xs(2) xs4 by (metis set_mset_add_mset_insert set_mset_mset)+
  ultimately show ?thesis using xs(1,3) by (auto simp: lh_elems_def)
qed

lemma insert_new_ok:
  assumes ok: "lh_ok h" and fns: "lh_comp h = cmp" "lh_hash h = hsh"
    and p: "get_next_ptr_and_hash h x = ((b, length (lh_buckets h ! b)), k)"
    and h': "h' = h\<lparr>lh_buckets := (lh_buckets h)[b := lh_buckets h ! b @ [\<lparr>it_addr = lh_fresh h, it_data = x, it_hash = k\<rparr>]],
                    lh_count := lh_count h + 1, lh_fresh := lh_fresh h + 1\<rparr>"
  shows "lh_ok h' \<and> lh_elems h' = {y\<in>lh_elems h. cmp y x \<noteq> 0} \<union> {x}"
proof -
  let ?it = "\<lparr>it_addr = lh_fresh h, it_data = x, it_hash = k\<rparr>"
  have b: "b < length (lh_buckets h)" and k: "k = hsh x" "b = unat k mod lh_num_buckets h"
    using position_bucket [OF ok p] fns by auto
  have m: "mset (lh_items h') = add_mset ?it (mset (lh_items h))"
    using mset_concat_update [OF b, of "lh_buckets h ! b @ [?it]"] by (simp add: h' lh_items_def)
  have no: "\<forall>y\<in>set (lh_items h). cmp (it_data y) x \<noteq> 0" by (rule position_end [OF ok fns p])
  then have "\<forall>y\<in>set (lh_items h). cmp x (it_data y) \<noteq> 0" using cmp_sym by blast
  moreover have "items_ok cmp hsh (lh_fresh h) (lh_items h)" using ok fns by (simp add: lh_ok_def)
  ultimately have "items_ok cmp hsh (Suc (lh_fresh h)) (?it # lh_items h)"
    using no k(1) items_ok_mono [of cmp hsh "lh_fresh h" "lh_items h" "Suc (lh_fresh h)"]
    by (auto simp: items_ok_Cons items_ok_def)
  then have "items_ok cmp hsh (Suc (lh_fresh h)) (lh_items h')"
    using items_ok_mset [of "lh_items h'" "?it # lh_items h"] m by simp
  moreover have "placed (lh_num_buckets h) ((lh_buckets h)[b := lh_buckets h ! b @ [?it]])"
    using ok b k(2) by (intro placed_update) (auto simp: lh_ok_def placed_def)
  then have "placed (lh_num_buckets h') (lh_buckets h')" by (simp add: h')
  moreover have "length (lh_items h') = Suc (length (lh_items h))" using m by (metis size_mset size_add_mset)
  ultimately have "lh_ok h'" using ok fns unfolding lh_ok_def by (simp add: h')
  moreover have "set (lh_items h') = insert ?it (set (lh_items h))" using m by (metis set_mset_add_mset_insert set_mset_mset)
  ultimately show ?thesis using no by (auto simp: lh_elems_def)
qed

lemma delete_found_ok:
  assumes ok: "lh_ok h" and fns: "lh_comp h = cmp" "lh_hash h = hsh"
    and p: "get_next_ptr_and_hash h x = ((b, i), k)" and i: "i \<noteq> length (lh_buckets h ! b)"
    and h': "h' = h\<lparr>lh_buckets := (lh_buckets h)[b := take i (lh_buckets h ! b) @ drop (Suc i) (lh_buckets h ! b)],
                    lh_count := lh_count h - 1\<rparr>"
  shows "lh_ok h' \<and> lh_elems h' = {y\<in>lh_elems h. cmp y x \<noteq> 0}"
proof -
  let ?old = "lh_buckets h ! b ! i"
  obtain xs where xs: "cmp (it_data ?old) x = 0" "mset (lh_items h) = add_mset ?old (mset xs)"
    "\<forall>y\<in>set xs. cmp (it_data y) x \<noteq> 0"
    and "mset (concat ((lh_buckets h)[b := take i (lh_buckets h ! b) @ drop (Suc i) (lh_buckets h ! b)])) = mset xs"
    using position_found [OF ok fns p i] by metis
  then have xs4: "mset (lh_items h') = mset xs" by (simp add: h' lh_items_def)
  have "items_ok cmp hsh (lh_fresh h) (?old # xs)"
    using ok fns items_ok_mset [of "lh_items h" "?old # xs"] xs(2) by (simp add: lh_ok_def)
  then have it: "items_ok cmp hsh (lh_fresh h) (lh_items h')"
    using items_ok_mset [of "lh_items h'" xs] xs4 by (simp add: items_ok_Cons)
  have b: "b < length (lh_buckets h)" using position_bucket [OF ok p] by auto
  have "placed (lh_num_buckets h) ((lh_buckets h)[b := take i (lh_buckets h ! b) @ drop (Suc i) (lh_buckets h ! b)])"
    using ok b
    by (intro placed_update) (auto simp: lh_ok_def placed_def dest: in_set_takeD in_set_dropD)
  then have "placed (lh_num_buckets h') (lh_buckets h')" by (simp add: h')
  moreover have "length (lh_items h) = Suc (length (lh_items h'))" using xs(2) xs4 by (metis size_mset size_add_mset)
  moreover have "lh_count h' = lh_count h - 1" "lh_num_buckets h' = lh_num_buckets h" "lh_comp h' = cmp"
    "lh_hash h' = hsh" "lh_fresh h' = lh_fresh h" by (simp_all add: h' fns)
  ultimately have "lh_ok h'" using ok it unfolding lh_ok_def by simp
  moreover have "set (lh_items h) = insert ?old (set xs)" "set (lh_items h') = set xs"
    using xs(2) xs4 by (metis set_mset_add_mset_insert set_mset_mset)+
  ultimately show ?thesis using xs(1,3) by (auto simp: lh_elems_def)
qed

end

lemma position_cases:
  obtains (notfound) b k where "get_next_ptr_and_hash h x = ((b, length (lh_buckets h ! b)), k)"
  | (found) b i k where "get_next_ptr_and_hash h x = ((b, i), k)" "i \<noteq> length (lh_buckets h ! b)"
  by (metis prod.collapse)

context hash_keys
begin

lemma insert_ok:
  assumes ok: "lh_ok h" and fns: "lh_comp h = cmp" "lh_hash h = hsh" and ins: "lh_insert env h x = (r, old, h')"
  shows "if r then old = lh_retrieve h x \<and> lh_ok h' \<and> lh_same_fns h h' \<and>
                   lh_elems h' = {y\<in>lh_elems h. cmp y x \<noteq> 0} \<union> {x}
         else lh_retrieve h x = None \<and> old = None \<and> h' = h"
proof (cases rule: position_cases [of h x])
  case (notfound b k)
  have ret: "lh_retrieve h x = None" using notfound by (simp add: lh_retrieve_def)
  show ?thesis
  proof (cases "OPENSSL_malloc env SIZEOF_LHASH_ITEM")
    case None
    then show ?thesis using ins notfound ret by (simp add: lh_insert_def Let_def)
  next
    case (Some m)
    define h1 where "h1 = h\<lparr>lh_buckets := (lh_buckets h)[b := lh_buckets h ! b @ [\<lparr>it_addr = lh_fresh h, it_data = x, it_hash = k\<rparr>]],
                    lh_count := lh_count h + 1, lh_fresh := lh_fresh h + 1\<rparr>"
    have "lh_ok h1 \<and> lh_elems h1 = {y\<in>lh_elems h. cmp y x \<noteq> 0} \<union> {x}"
      by (rule insert_new_ok [OF ok fns notfound h1_def])
    moreover have "lh_same_fns h h1" by (simp add: h1_def lh_same_fns_def)
    moreover have "r \<and> old = None \<and> h' = lh_maybe_resize env h1"
      using ins notfound Some by (simp add: lh_insert_def Let_def h1_def)
    ultimately show ?thesis using lh_maybe_resize_elems [of h1 env] ret by (simp add: lh_same_fns_def)
  qed
next
  case (found b i k)
  have "r \<and> old = lh_retrieve h x \<and>
      h' = h\<lparr>lh_buckets := (lh_buckets h)[b := (lh_buckets h ! b)[i := (lh_buckets h ! b ! i)\<lparr>it_data := x\<rparr>]]\<rparr>"
    using ins found by (simp add: lh_insert_def lh_retrieve_def Let_def)
  then show ?thesis using insert_found_ok [OF ok fns found, of h'] by (auto simp: lh_same_fns_def)
qed

lemma delete_ok:
  assumes ok: "lh_ok h" and fns: "lh_comp h = cmp" "lh_hash h = hsh" and del: "lh_delete env h x = (old, h')"
  shows "old = lh_retrieve h x \<and> lh_ok h' \<and> lh_same_fns h h' \<and> lh_elems h' = {y\<in>lh_elems h. cmp y x \<noteq> 0}"
proof (cases rule: position_cases [of h x])
  case (notfound b k)
  have "lh_elems h = {y\<in>lh_elems h. cmp y x \<noteq> 0}"
    using position_end [OF ok fns notfound] by (auto simp: lh_elems_def)
  then show ?thesis using notfound del ok by (simp add: lh_delete_def lh_retrieve_def lh_same_fns_def)
next
  case (found b i k)
  define h1 where "h1 = h\<lparr>lh_buckets := (lh_buckets h)[b := take i (lh_buckets h ! b) @ drop (Suc i) (lh_buckets h ! b)],
                    lh_count := lh_count h - 1\<rparr>"
  have "lh_ok h1 \<and> lh_elems h1 = {y\<in>lh_elems h. cmp y x \<noteq> 0}"
    by (rule delete_found_ok [OF ok fns found h1_def])
  moreover have "lh_same_fns h h1" by (simp add: h1_def lh_same_fns_def)
  moreover have "old = lh_retrieve h x \<and> h' = lh_maybe_resize env h1"
    using del found by (simp add: lh_delete_def lh_retrieve_def Let_def h1_def)
  ultimately show ?thesis using lh_maybe_resize_elems [of h1 env] by (simp add: lh_same_fns_def)
qed

lemma num_items_ok:
  assumes "lh_ok h" "lh_comp h = cmp"
  shows "lh_num_items h = card (lh_elems h)"
proof -
  have io: "items_ok cmp (lh_hash h) (lh_fresh h) (lh_items h)" using assms by (simp add: lh_ok_def)
  then have "distinct (lh_items h)" by (simp add: items_ok_def distinct_map)
  moreover have "inj_on it_data (set (lh_items h))"
    using io cmp_refl by (intro inj_onI) (metis items_ok_def)
  ultimately show ?thesis using assms by (simp add: lh_num_items_def lh_ok_def lh_elems_def card_image distinct_card)
qed

end

lemma lh_new_elems:
  assumes "lh_new env hsh cmp = Some h"
  shows "lh_ok h \<and> lh_elems h = {} \<and> lh_comp h = cmp \<and> lh_hash h = hsh \<and> lh_callback_depth h = 0"
proof -
  have h: "h = \<lparr>lh_count = 0, lh_buckets = replicate kMinNumBuckets [], lh_num_buckets = kMinNumBuckets,
    lh_callback_depth = 0, lh_comp = cmp, lh_hash = hsh, lh_fresh = 1\<rparr>"
    using assms unfolding lh_new_def by (simp split: option.splits)
  have "lh_items h = []" by (simp add: lh_items_def h)
  moreover have "placed (lh_num_buckets h) (lh_buckets h)" unfolding h by (simp add: placed_def)
  moreover have "lh_count h = 0" "lh_num_buckets h = kMinNumBuckets" "lh_callback_depth h = 0" "lh_comp h = cmp"
    "lh_hash h = hsh" unfolding h by simp_all
  ultimately show ?thesis unfolding lh_ok_def lh_elems_def items_ok_def by simp
qed


section \<open>String tables\<close>

lemma c_strcmp_eq: "c_strcmp a b = 0 \<longleftrightarrow> take (c_strlen a) a = take (c_strlen b) b"
proof (induction a b rule: c_strcmp.induct)
  case (4 x a y b)
  have "uint x - uint y = 0 \<longleftrightarrow> x = y" by (simp flip: word_uint_eq_iff)
  then show ?case using 4 by (auto simp: c_strlen_def)
qed (auto simp: c_strlen_def uint_0_iff)

interpretation strings: hash_keys c_strcmp "\<lambda>s. lh_strhash (Some s)"
  by unfold_locales (auto simp: c_strcmp_eq lh_strhash_def)

text \<open>
  C12. Insert, retrieve and delete of a hash table are those of a set of elements with at most one
  element of each key, whatever the hash function and the history of resizes: an element is found
  exactly if an equal one is in the set; inserting returns the element it replaces and leaves
  the set with the new one in its place; deleting returns what it removes; and a failed insertion
  leaves the table as it was. The item count is the number of elements.
\<close>

theorem lh_refines:
  assumes keys: "hash_keys (lh_comp h) (lh_hash h)" and ok: "lh_ok h"
    and ins: "lh_insert env h x = (r, old, h1)" and del: "lh_delete env h x = (old', h2)"
  shows "(lh_retrieve h x = Some y \<longleftrightarrow> y \<in> lh_elems h \<and> lh_comp h y x = 0) \<and>
    lh_num_items h = card (lh_elems h) \<and>
    (if r then old = lh_retrieve h x \<and> lh_ok h1 \<and> lh_same_fns h h1 \<and>
               lh_elems h1 = {y\<in>lh_elems h. lh_comp h y x \<noteq> 0} \<union> {x}
     else lh_retrieve h x = None \<and> old = None \<and> h1 = h) \<and>
    old' = lh_retrieve h x \<and> lh_ok h2 \<and> lh_same_fns h h2 \<and> lh_elems h2 = {y\<in>lh_elems h. lh_comp h y x \<noteq> 0}"
  using hash_keys.retrieve_iff [OF keys ok refl refl] hash_keys.num_items_ok [OF keys ok refl]
    hash_keys.insert_ok [OF keys ok refl refl ins] hash_keys.delete_ok [OF keys ok refl refl del]
  by simp

definition lh_table :: "byte list list \<Rightarrow> byte list lhash" where
  "lh_table xs = foldl (\<lambda>h x. snd (snd (lh_insert plenty h x)))
     (the (lh_new plenty (\<lambda>s. lh_strhash (Some s)) c_strcmp)) xs"

lemma lh_insert_plenty: "fst (lh_insert plenty h x)"
  by (simp add: lh_insert_def OPENSSL_malloc_def Let_def split: prod.splits)

lemma lh_table_ok:
  "lh_ok (lh_table xs) \<and> lh_comp (lh_table xs) = c_strcmp \<and> lh_hash (lh_table xs) = (\<lambda>s. lh_strhash (Some s)) \<and>
     lh_callback_depth (lh_table xs) = 0"
proof (induction xs rule: rev_induct)
  case Nil
  have "\<exists>h :: byte list lhash. lh_new plenty (\<lambda>s. lh_strhash (Some s)) c_strcmp = Some h"
    by (simp add: lh_new_def OPENSSL_malloc_def)
  then show ?case using lh_new_elems by (fastforce simp: lh_table_def)
next
  case (snoc x xs)
  obtain r old h' where i: "lh_insert plenty (lh_table xs) x = (r, old, h')" by (metis prod.collapse)
  then have "lh_table (xs @ [x]) = h'" by (simp add: lh_table_def)
  then show ?case using strings.insert_ok [OF _ _ _ i] snoc by (auto simp: lh_same_fns_def split: if_splits)
qed

lemma lh_table_Nil: "lh_elems (lh_table []) = {}"
proof -
  have "\<exists>h :: byte list lhash. lh_new plenty (\<lambda>s. lh_strhash (Some s)) c_strcmp = Some h"
    by (simp add: lh_new_def OPENSSL_malloc_def)
  then show ?thesis using lh_new_elems by (fastforce simp: lh_table_def)
qed

lemma lh_table_snoc:
  "lh_elems (lh_table (xs @ [x])) = {y\<in>lh_elems (lh_table xs). c_strcmp y x \<noteq> 0} \<union> {x}"
proof -
  obtain r old h' where i: "lh_insert plenty (lh_table xs) x = (r, old, h')" by (metis prod.collapse)
  then have "lh_table (xs @ [x]) = h'" and r: "r"
    using lh_insert_plenty [of "lh_table xs" x] by (simp_all add: lh_table_def)
  then show ?thesis using strings.insert_ok [OF _ _ _ i] lh_table_ok by simp
qed

lemma lh_refines_witness:
  "lh_elems (lh_table [[97], [98, 99]]) = {[97], [98, 99]} \<and>
   lh_elems (snd (lh_delete plenty (lh_table [[97], [98, 99]]) [97, 0, 5])) = {[98, 99]}"
proof -
  let ?h = "lh_table [[97], [98, 99]]"
  have e: "lh_elems ?h = {[97], [98, 99]}" using lh_table_snoc [of "[]" "[97]"] lh_table_snoc [of "[[97]]" "[98, 99]"] lh_table_Nil
    by (auto simp: insert_commute)
  obtain old h1 where d: "lh_delete plenty ?h [97, 0, 5] = (old, h1)" by (metis prod.collapse)
  obtain r o' h2 where i: "lh_insert plenty ?h [97, 0, 5] = (r, o', h2)" by (metis prod.collapse)
  have "hash_keys (lh_comp ?h) (lh_hash ?h)" using lh_table_ok strings.hash_keys_axioms by metis
  from lh_refines [OF this _ i d] lh_table_ok [of "[[97], [98, 99]]"]
  have "lh_elems h1 = {y\<in>{[97], [98, 99]}. c_strcmp y [97, 0, 5] \<noteq> 0}" using e by simp
  also have "\<dots> = {[98, 99]}" by auto
  finally show ?thesis using e d by simp
qed

section \<open>Iterating\<close>

lemma item_in_chain_none: "addr \<notin> it_addr ` set ch \<Longrightarrow> item_in_chain addr ch = None"
  by (induction ch) auto

lemma item_in_chain_at:
  "it_addr it \<notin> it_addr ` set pre \<Longrightarrow> item_in_chain (it_addr it) (pre @ it # post) = Some (it, chain_head post)"
  by (induction pre) (auto simp: chain_head_def split: list.splits)

lemma item_at_bucket:
  assumes "b < length bs" "bs ! b = pre @ it # post" "distinct (map it_addr (concat bs))"
  shows "item_at (it_addr it) bs = Some (it, chain_head post)"
  using assms
proof (induction bs arbitrary: b)
  case (Cons c bs)
  show ?case
  proof (cases b)
    case 0
    then have "it_addr it \<notin> it_addr ` set pre" using Cons.prems by auto
    then show ?thesis using Cons.prems 0 by (simp add: item_in_chain_at)
  next
    case (Suc b')
    then have "it \<in> set (concat bs)" using Cons.prems by (auto intro: nth_mem in_set_conv_nth [THEN iffD2] bexI [of _ "bs ! b'"])
    then have "it_addr it \<notin> it_addr ` set c" using Cons.prems by auto
    then have "item_in_chain (it_addr it) c = None" by (rule item_in_chain_none)
    then show ?thesis using Cons Suc by simp
  qed
qed simp

text \<open>A callback that records its element, and deletes it unless it is to be kept.\<close>

definition sweep :: "heap_env \<Rightarrow> ('a \<Rightarrow> bool) \<Rightarrow> ('a \<Rightarrow> 's \<Rightarrow> 's) \<Rightarrow> 'a \<Rightarrow> 'a lhash \<times> 's \<Rightarrow> 'a lhash \<times> 's" where
  "sweep env keep visit x st = (if keep x then fst st else snd (lh_delete env (fst st) x), visit x (snd st))"

lemma sweep_pair: "sweep env keep visit x (h, s) = (if keep x then h else snd (lh_delete env h x), visit x s)"
  by (simp add: sweep_def)

lemma delete_at:
  assumes ok: "lh_ok h" and keys: "hash_keys (lh_comp h) (lh_hash h)" and d: "lh_callback_depth h > 0"
    and b: "b < length (lh_buckets h)" "lh_buckets h ! b = pre @ it # post"
  shows "snd (lh_delete env h (it_data it)) =
    h\<lparr>lh_buckets := (lh_buckets h)[b := pre @ post], lh_count := lh_count h - 1\<rparr>"
proof -
  have i: "it \<in> set (lh_items h)" and sub: "set pre \<subseteq> set (lh_items h)"
    using b nth_mem [OF b(1)] by (auto simp: lh_items_def intro!: bexI [of _ "lh_buckets h ! b"])
  have io: "items_ok (lh_comp h) (lh_hash h) (lh_fresh h) (lh_items h)" using ok by (simp add: lh_ok_def)
  have "unat (it_hash it) mod lh_num_buckets h = b" using ok b by (simp add: lh_ok_def placed_def)
  then have bk: "unat (lh_hash h (it_data it)) mod lh_num_buckets h = b" using io i by (simp add: items_ok_def)
  have "distinct (lh_items h)" using io by (simp add: items_ok_def distinct_map)
  moreover have "mset (lh_items h) = mset (concat ((lh_buckets h)[b := []])) + mset (pre @ it # post)"
    using mset_concat_update [OF b(1), of "[]"] b(2) by (simp add: lh_items_def)
  ultimately have "distinct (concat ((lh_buckets h)[b := []]) @ pre @ it # post)"
    by (metis mset_append mset_eq_imp_distinct_iff)
  then have "it \<notin> set pre" by auto
  then have "\<forall>y\<in>set pre. lh_comp h (it_data y) (it_data it) \<noteq> 0" using io i sub unfolding items_ok_def by blast
  then have "chain_pos (lh_comp h) (it_data it) (pre @ it # post) = length pre"
    using hash_keys.cmp_refl [OF keys] by (induction pre) auto
  then show ?thesis using d b bk by (simp add: lh_delete_def get_next_ptr_and_hash_def Let_def lh_maybe_resize_def)
qed

lemma doall_chain_sweep:
  assumes "lh_ok h" "hash_keys (lh_comp h) (lh_hash h)" "lh_callback_depth h > 0" "b < length (lh_buckets h)"
    "lh_buckets h ! b = pre @ rest" "length rest \<le> fuel"
  shows "\<exists>h'. doall_chain fuel (sweep env keep visit) (chain_head rest) (h, s) =
      Some (h', fold visit (map it_data rest) s) \<and> lh_ok h' \<and> lh_same_fns h h' \<and>
    lh_num_buckets h' = lh_num_buckets h \<and>
    lh_buckets h' = (lh_buckets h)[b := pre @ filter (\<lambda>it. keep (it_data it)) rest]"
  using assms
proof (induction rest arbitrary: h pre s fuel)
  case Nil
  then have "(lh_buckets h)[b := pre] = lh_buckets h" by (metis append_Nil2 list_update_id)
  then show ?case using Nil by (simp add: chain_head_def lh_same_fns_def)
next
  case (Cons it rest)
  obtain f where f: "fuel = Suc f" "length rest \<le> f" using Cons.prems(6) by (cases fuel) auto
  have "distinct (map it_addr (concat (lh_buckets h)))" using Cons.prems(1) by (simp add: lh_ok_def items_ok_def lh_items_def)
  then have at: "item_at (it_addr it) (lh_buckets h) = Some (it, chain_head rest)"
    by (rule item_at_bucket [OF Cons.prems(4,5)])
  have st: "doall_chain fuel (sweep env keep visit) (chain_head (it # rest)) (h, s) =
      doall_chain f (sweep env keep visit) (chain_head rest) (sweep env keep visit (it_data it) (h, s))"
    using at f(1) by (simp add: chain_head_def)
  show ?case
  proof (cases "keep (it_data it)")
    case True
    then show ?thesis
      using Cons.IH [of h "pre @ [it]" f "visit (it_data it) s"] Cons.prems f(2) st by (simp add: sweep_pair)
  next
    case False
    obtain old h1 where del: "lh_delete env h (it_data it) = (old, h1)" by (metis prod.collapse)
    have "lh_ok h1 \<and> lh_same_fns h h1"
      using hash_keys.delete_ok [OF Cons.prems(2,1) refl refl del] by simp
    moreover have h1: "h1 = h\<lparr>lh_buckets := (lh_buckets h)[b := pre @ rest], lh_count := lh_count h - 1\<rparr>"
      using delete_at [OF Cons.prems(1-5), of env] del by simp
    ultimately show ?thesis
      using Cons.IH [of h1 pre f "visit (it_data it) s"] Cons.prems f(2) st False del
      by (simp add: sweep_pair lh_same_fns_def)
  qed
qed

lemma doall_buckets_sweep:
  assumes "lh_ok h" "hash_keys (lh_comp h) (lh_hash h)" "lh_callback_depth h > 0"
    "i + n = length (lh_buckets h)" "\<forall>c\<in>set (lh_buckets h). length c \<le> fuel"
  shows "\<exists>h'. doall_buckets fuel (sweep env keep visit) i n (h, s) =
      Some (h', fold visit (map it_data (concat (drop i (lh_buckets h)))) s) \<and> lh_ok h' \<and> lh_same_fns h h' \<and>
    lh_buckets h' = take i (lh_buckets h) @ map (filter (\<lambda>it. keep (it_data it))) (drop i (lh_buckets h))"
  using assms
proof (induction n arbitrary: i h s)
  case 0
  then show ?case by (simp add: lh_same_fns_def)
next
  case (Suc n)
  have i: "i < length (lh_buckets h)" using Suc.prems(4) by simp
  then have li: "i < lh_num_buckets h" using Suc.prems(1) by (simp add: lh_ok_def placed_def)
  have "length (lh_buckets h ! i) \<le> fuel" using Suc.prems(5) i by simp
  from doall_chain_sweep [OF Suc.prems(1-3) i _ this, of "[]" env keep visit s]
  obtain h1 where h1: "doall_chain fuel (sweep env keep visit) (chain_head (lh_buckets h ! i)) (h, s) =
      Some (h1, fold visit (map it_data (lh_buckets h ! i)) s)" "lh_ok h1" "lh_same_fns h h1"
    "lh_buckets h1 = (lh_buckets h)[i := filter (\<lambda>it. keep (it_data it)) (lh_buckets h ! i)]" by auto
  let ?s = "fold visit (map it_data (lh_buckets h ! i)) s"
  have len: "\<forall>c\<in>set (lh_buckets h1). length c \<le> fuel"
    using Suc.prems(5) i h1(4) by (auto dest!: set_update_subset_insert [THEN subsetD] intro: order_trans [OF length_filter_le])
  have "hash_keys (lh_comp h1) (lh_hash h1)" "lh_callback_depth h1 > 0" "Suc i + n = length (lh_buckets h1)"
    using Suc.prems h1(3,4) by (simp_all add: lh_same_fns_def)
  from Suc.IH [OF h1(2) this len, of ?s]
  obtain h2 where h2: "doall_buckets fuel (sweep env keep visit) (Suc i) n (h1, ?s) =
      Some (h2, fold visit (map it_data (concat (drop (Suc i) (lh_buckets h1)))) ?s)" "lh_ok h2" "lh_same_fns h1 h2"
    "lh_buckets h2 = take (Suc i) (lh_buckets h1) @ map (filter (\<lambda>it. keep (it_data it))) (drop (Suc i) (lh_buckets h1))" by auto
  have d: "drop i (lh_buckets h) = lh_buckets h ! i # drop (Suc i) (lh_buckets h)" using i by (simp add: Cons_nth_drop_Suc)
  have t: "take (Suc i) (lh_buckets h1) = take i (lh_buckets h) @ [filter (\<lambda>it. keep (it_data it)) (lh_buckets h ! i)]"
    using i h1(4) by (simp add: take_Suc_conv_app_nth)
  show ?case using li h1 h2 d t by (auto simp: lh_same_fns_def)
qed

text \<open>
  C13. A sweep over a table whose callback deletes some of the elements it is shown visits every
  element exactly once, in bucket order, deleted ones included, never follows a pointer to a freed
  item, ends, and leaves exactly the elements that were kept; resizing is put off until the
  outermost sweep is over.
\<close>

theorem lh_doall_arg_sweeps:
  assumes keys: "hash_keys (lh_comp h) (lh_hash h)" and ok: "lh_ok h"
    and fuel: "lh_count h \<le> fuel" and depth: "lh_callback_depth h < LH_UINT_MAX - 1"
  shows "\<exists>h' xs. lh_doall_arg env fuel h (sweep env keep visit) s = Some (h', fold visit xs s) \<and>
    distinct xs \<and> set xs = lh_elems h \<and> lh_ok h' \<and> lh_same_fns h h' \<and> lh_elems h' = {x\<in>lh_elems h. keep x}"
proof -
  let ?h1 = "h\<lparr>lh_callback_depth := lh_callback_depth h + 1\<rparr>"
  have d: "lh_callback_depth h < LH_UINT_MAX" using depth by simp
  have ok1: "lh_ok ?h1" using ok by (simp add: lh_ok_def lh_items_def)
  have len: "\<forall>c\<in>set (lh_buckets ?h1). length c \<le> fuel"
  proof
    fix c assume "c \<in> set (lh_buckets ?h1)"
    then have "length c \<le> length (lh_items h)"
      by (auto simp: lh_items_def length_concat intro: member_le_sum_list)
    then show "length c \<le> fuel" using ok fuel by (simp add: lh_ok_def)
  qed
  have n: "0 + lh_num_buckets h = length (lh_buckets ?h1)" using ok by (simp add: lh_ok_def placed_def)
  from doall_buckets_sweep [OF ok1 _ _ n len, of env keep visit s] keys
  obtain h2 where h2: "doall_buckets fuel (sweep env keep visit) 0 (lh_num_buckets h) (?h1, s) =
      Some (h2, fold visit (map it_data (lh_items h)) s)" "lh_ok h2" "lh_same_fns ?h1 h2"
    "lh_buckets h2 = map (filter (\<lambda>it. keep (it_data it))) (lh_buckets h)" by (auto simp: lh_items_def)
  let ?h3 = "h2\<lparr>lh_callback_depth := lh_callback_depth h2 - 1\<rparr>"
  have ok3: "lh_ok ?h3" using h2(2) by (simp add: lh_ok_def lh_items_def)
  have "lh_elems ?h3 = {x\<in>lh_elems h. keep x}" using h2(4) by (auto simp: lh_elems_def lh_items_def)
  moreover have "lh_doall_arg env fuel h (sweep env keep visit) s =
      Some (lh_maybe_resize env ?h3, fold visit (map it_data (lh_items h)) s)"
    using d depth h2(1,3) by (simp add: lh_doall_arg_def Let_def lh_same_fns_def)
  moreover have "distinct (map it_data (lh_items h))"
    using ok hash_keys.cmp_refl [OF keys] unfolding lh_ok_def items_ok_def
    by (metis (no_types, lifting) distinct_map inj_on_def)
  moreover have "lh_same_fns h ?h3" using h2(3) by (simp add: lh_same_fns_def)
  ultimately show ?thesis using lh_maybe_resize_elems [OF ok3, of env]
    by (intro exI [of _ "lh_maybe_resize env ?h3"] exI [of _ "map it_data (lh_items h)"])
       (simp add: lh_elems_def lh_same_fns_def)
qed

lemma lh_doall_arg_sweeps_witness:
  "\<exists>h' xs. lh_doall_arg plenty 5 (lh_table [[97], [98, 99]])
       (sweep plenty (\<lambda>x. x = [97]) (\<lambda>_ n. n + 1)) (0 :: nat) = Some (h', 2) \<and> lh_elems h' = {[97]}"
proof -
  let ?h = "lh_table [[97], [98, 99]]"
  have e: "lh_elems ?h = {[97], [98, 99]}"
    using lh_table_snoc [of "[]" "[97]"] lh_table_snoc [of "[[97]]" "[98, 99]"] lh_table_Nil
    by (auto simp: insert_commute)
  have ok: "lh_ok ?h" and keys: "hash_keys (lh_comp ?h) (lh_hash ?h)"
    using lh_table_ok strings.hash_keys_axioms by metis+
  have "lh_num_items ?h = 2" using strings.num_items_ok [OF ok] lh_table_ok [of "[[97], [98, 99]]"] e by simp
  then have "lh_count ?h \<le> 5" by (simp add: lh_num_items_def)
  moreover have "lh_callback_depth ?h < LH_UINT_MAX - 1"
    using lh_table_ok [of "[[97], [98, 99]]"] unfolding LH_UINT_MAX_def by simp
  ultimately have "\<exists>h' (xs :: byte list list). lh_doall_arg plenty 5 ?h (sweep plenty (\<lambda>x. x = [97]) (\<lambda>_ n. n + 1)) (0 :: nat) =
      Some (h', fold (\<lambda>_ n. n + 1) xs 0) \<and> distinct xs \<and> set xs = {[97], [98, 99]} \<and> lh_ok h' \<and>
      lh_same_fns ?h h' \<and> lh_elems h' = {x\<in>{[97], [98, 99]}. x = [97]}"
    unfolding e [symmetric] by (rule lh_doall_arg_sweeps [OF keys ok])
  then obtain h' and xs :: "byte list list" where r: "lh_doall_arg plenty 5 ?h
      (sweep plenty (\<lambda>x. x = [97]) (\<lambda>_ n. n + 1)) (0 :: nat) = Some (h', fold (\<lambda>_ n. n + 1) xs 0)"
    "distinct xs" "set xs = {[97], [98, 99]}" "lh_elems h' = {x\<in>{[97], [98, 99]}. x = [97]}"
    by (elim exE conjE) (rule that; assumption)
  have "fold (\<lambda>_ n. n + 1) ys m = m + length ys" for m and ys :: "byte list list"
    by (induction ys arbitrary: m) auto
  moreover have "length xs = 2" using r(2,3) distinct_card [of xs] by simp
  ultimately show ?thesis using r(1,4) by auto
qed

end
