(* ===== verification/Ram.thy ===== *)
theory Ram
  imports Prelude
begin

text \<open>
  Memory for code that is given pointers which may overlap: a byte for every address, read with
  \<open>rd\<close> and written with \<open>wr\<close>.
\<close>

type_synonym ram = "nat \<Rightarrow> byte"

definition rd :: "ram \<Rightarrow> nat \<Rightarrow> nat \<Rightarrow> byte list" where
  "rd m a n = map m [a..<a + n]"

definition wr :: "ram \<Rightarrow> nat \<Rightarrow> byte list \<Rightarrow> ram" where
  "wr m a bs = (\<lambda>x. if a \<le> x \<and> x < a + length bs then bs ! (x - a) else m x)"

lemma length_rd [simp]: "length (rd m a n) = n"
  by (simp add: rd_def)

lemma nth_rd [simp]: "i < n \<Longrightarrow> rd m a n ! i = m (a + i)"
  by (simp add: rd_def)

lemma rd_0 [simp]: "rd m a 0 = []"
  by (simp add: rd_def)

lemma wr_Nil [simp]: "wr m a [] = m"
  by (auto simp: wr_def fun_eq_iff)

lemma wr_at: "i < length bs \<Longrightarrow> wr m a bs (a + i) = bs ! i"
  by (simp add: wr_def)

lemma wr_out: "x < a \<or> a + length bs \<le> x \<Longrightarrow> wr m a bs x = m x"
  by (auto simp: wr_def)

lemma rd_cong: "(\<And>x. a \<le> x \<Longrightarrow> x < a + n \<Longrightarrow> m x = m' x) \<Longrightarrow> rd m a n = rd m' a n"
  by (simp add: rd_def)

lemma rd_wr_same [simp]: "length bs = n \<Longrightarrow> rd (wr m a bs) a n = bs"
  by (rule nth_equalityI) (simp_all add: wr_at)

lemma rd_wr_other: "a + n \<le> b \<or> b + length bs \<le> a \<Longrightarrow> rd (wr m b bs) a n = rd m a n"
  by (rule rd_cong) (auto simp: wr_def)

lemma rd_append: "rd m a (k + n) = rd m a k @ rd m (a + k) n"
  using upt_add_eq_append [of a "a + k" n] by (simp add: rd_def add.assoc)

lemma rd_Suc: "rd m a (Suc n) = m a # rd m (Suc a) n"
  by (simp add: rd_def upt_rec)

lemma wr_wr_same: "length bs = length cs \<Longrightarrow> wr (wr m a bs) a cs = wr m a cs"
  by (rule ext) (simp add: wr_def)

lemma wr_append: "wr (wr m a bs) (a + length bs) cs = wr m a (bs @ cs)"
  by (rule ext) (auto simp: wr_def nth_append)

lemma wr_swap:
  "a + length bs \<le> b \<or> b + length cs \<le> a \<Longrightarrow> wr (wr m a bs) b cs = wr (wr m b cs) a bs"
  by (rule ext) (auto simp: wr_def)

text \<open>The bytewise exclusive or of two byte strings, up to the end of the shorter.\<close>

definition xorl :: "byte list \<Rightarrow> byte list \<Rightarrow> byte list" where
  "xorl as bs = map2 (XOR) as bs"

lemma length_xorl [simp]: "length (xorl as bs) = min (length as) (length bs)"
  by (simp add: xorl_def)

lemma nth_xorl [simp]: "i < length as \<Longrightarrow> i < length bs \<Longrightarrow> xorl as bs ! i = as ! i XOR bs ! i"
  by (simp add: xorl_def)

lemma xorl_append: "length as = length bs \<Longrightarrow> xorl (as @ as') (bs @ bs') = xorl as bs @ xorl as' bs'"
  by (simp add: xorl_def)

lemma xorl_cancel: "length as = length bs \<Longrightarrow> xorl (xorl as bs) bs = as"
  by (rule nth_equalityI) (simp_all add: xor.assoc)

text \<open>\<open>load_word_le\<close> and \<open>store_word_le\<close>: a \<open>size_t\<close> of the little-endian target.\<close>

definition load_word_le :: "ram \<Rightarrow> nat \<Rightarrow> 64 word" where
  "load_word_le m a = le_load (rd m a 8)"

definition store_word_le :: "ram \<Rightarrow> nat \<Rightarrow> 64 word \<Rightarrow> ram" where
  "store_word_le m a w = wr m a (le_store 8 w)"

lemma le_load_xor:
  "length as = length bs \<Longrightarrow> (le_load as XOR le_load bs :: 'a::len word) = le_load (xorl as bs)"
  by (rule bit_word_eqI) (auto simp: bit_xor_iff bit_le_load)

lemma store_xor_word:
  "store_word_le m a (load_word_le m b XOR load_word_le m' c) = wr m a (xorl (rd m b 8) (rd m' c 8))"
  by (simp add: store_word_le_def load_word_le_def le_load_xor le_store_load)

text \<open>
  Where a loop that goes up through memory may write \<open>n\<close> bytes at \<open>out\<close> while it reads as many at
  \<open>a\<close>: \<open>out\<close> is not ahead of \<open>a\<close>, or behind its end.
\<close>

definition fwd :: "nat \<Rightarrow> nat \<Rightarrow> nat \<Rightarrow> bool" where
  "fwd out a n \<longleftrightarrow> out \<le> a \<or> a + n \<le> out"

lemma fwd_le: "fwd out a n \<Longrightarrow> k \<le> n \<Longrightarrow> fwd out a k"
  by (auto simp: fwd_def)

lemma fwd_add: "fwd out a (k + n) \<Longrightarrow> fwd (out + k) (a + k) n"
  by (auto simp: fwd_def)

lemma rd_wr_fwd: "fwd out a (length bs + n) \<Longrightarrow> rd (wr m out bs) (a + length bs) n = rd m (a + length bs) n"
  by (rule rd_wr_other) (auto simp: fwd_def)

lemma rd_wr_ahead: "fwd out a (k + n) \<Longrightarrow> length bs = k \<Longrightarrow> rd (wr m out bs) (a + k) n = rd m (a + k) n"
  using rd_wr_fwd [of out a bs n m] by simp

end
