(* ===== verification/Modes.thy ===== *)
theory Modes
  imports Ram
begin

text \<open>
\<open>fipsmodule/modes/cbc.c\<close>. Input, output and initialisation vector are addresses in one memory, and
  the output may be the input or overlap it where the code allows that. The block function is a parameter
  \<open>E\<close> on 16-byte strings, with the key in it. Each loop over words or bytes is first turned into
  one write; encryption and decryption then refine the chaining of blocks \<open>cbc_cipher\<close> and
  \<open>cbc_plain\<close>.
\<close>

text \<open>
  \<open>(*block)(in, out, key)\<close>, for the block cipher \<open>E\<close>; the key is part of \<open>E\<close>.
\<close>

definition block128 :: "(byte list \<Rightarrow> byte list) \<Rightarrow> ram \<Rightarrow> nat \<Rightarrow> nat \<Rightarrow> ram" where
  "block128 E m src dst = wr m dst (E (rd m src 16))"

section \<open>The loops over bytes and words\<close>

text \<open>\<open>for (n = i; n < k; ++n) out[n] = a[n] ^ b[n]\<close>, with words or with bytes, and a copy.\<close>

fun xor_bytes :: "nat \<Rightarrow> nat \<Rightarrow> ram \<Rightarrow> nat \<Rightarrow> nat \<Rightarrow> nat \<Rightarrow> ram" where
  "xor_bytes i 0 m out a b = m"
| "xor_bytes i (Suc k) m out a b =
     xor_bytes (Suc i) k (m(out + i := m (a + i) XOR m (b + i))) out a b"

definition xor_words :: "ram \<Rightarrow> nat \<Rightarrow> nat \<Rightarrow> nat \<Rightarrow> ram" where
  "xor_words m out a b =
     (let m1 = store_word_le m out (load_word_le m a XOR load_word_le m b)
      in store_word_le m1 (out + 8) (load_word_le m1 (a + 8) XOR load_word_le m1 (b + 8)))"

fun copy_bytes :: "nat \<Rightarrow> nat \<Rightarrow> ram \<Rightarrow> nat \<Rightarrow> nat \<Rightarrow> ram" where
  "copy_bytes i 0 m out a = m"
| "copy_bytes i (Suc k) m out a = copy_bytes (Suc i) k (m(out + i := m (a + i))) out a"

lemma xor_bytes_wr:
  "fwd out a (i + k) \<Longrightarrow> fwd out b (i + k) \<Longrightarrow>
     xor_bytes i k m out a b = wr m (out + i) (xorl (rd m (a + i) k) (rd m (b + i) k))"
proof (induction k arbitrary: i m)
  case (Suc k)
  let ?v = "m (a + i) XOR m (b + i)"
  have 1: "m(out + i := ?v) = wr m (out + i) [?v]" by (auto simp: wr_def fun_eq_iff)
  have a: "rd (wr m (out + i) [?v]) (Suc (a + i)) k = rd m (Suc (a + i)) k"
    "rd (wr m (out + i) [?v]) (Suc (b + i)) k = rd m (Suc (b + i)) k"
    using Suc.prems by (auto intro!: rd_wr_other simp: fwd_def)
  have "xor_bytes i (Suc k) m out a b =
      wr (wr m (out + i) [?v]) (out + i + 1) (xorl (rd m (Suc (a + i)) k) (rd m (Suc (b + i)) k))"
    using Suc by (simp add: 1 a)
  also have "\<dots> = wr m (out + i) (xorl (rd m (a + i) (Suc k)) (rd m (b + i) (Suc k)))"
    using wr_append [of m "out + i" "[?v]"] by (simp add: rd_Suc xorl_def)
  finally show ?case .
qed (simp add: xorl_def)

lemma copy_bytes_wr: "fwd out a (i + k) \<Longrightarrow> copy_bytes i k m out a = wr m (out + i) (rd m (a + i) k)"
proof (induction k arbitrary: i m)
  case (Suc k)
  let ?v = "m (a + i)"
  have 1: "m(out + i := ?v) = wr m (out + i) [?v]" by (auto simp: wr_def fun_eq_iff)
  have a: "rd (wr m (out + i) [?v]) (Suc (a + i)) k = rd m (Suc (a + i)) k"
    using Suc.prems by (auto intro!: rd_wr_other simp: fwd_def)
  show ?case using Suc wr_append [of m "out + i" "[?v]"] by (simp add: 1 a rd_Suc)
qed simp

lemma xor_words_wr:
  assumes "fwd out a 16" "fwd out b 16"
  shows "xor_words m out a b = wr m out (xorl (rd m a 16) (rd m b 16))"
proof -
  let ?x = "xorl (rd m a 8) (rd m b 8)" and ?y = "xorl (rd m (a + 8) 8) (rd m (b + 8) 8)"
  have r: "rd (wr m out ?x) (a + 8) 8 = rd m (a + 8) 8" "rd (wr m out ?x) (b + 8) 8 = rd m (b + 8) 8"
    using assms rd_wr_ahead [of out a 8 8 ?x m] rd_wr_ahead [of out b 8 8 ?x m] by simp_all
  have "xor_words m out a b = wr (wr m out ?x) (out + 8) ?y"
    unfolding xor_words_def Let_def store_xor_word r ..
  also have "\<dots> = wr m out (?x @ ?y)" using wr_append [of m out ?x ?y] by simp
  also have "?x @ ?y = xorl (rd m a 16) (rd m b 16)"
    using rd_append [of m a 8 8] rd_append [of m b 8 8] by (simp add: xorl_append)
  finally show ?thesis .
qed

section \<open>\<open>cbc.c\<close>\<close>

function cbc_encrypt_blocks ::
  "(byte list \<Rightarrow> byte list) \<Rightarrow> ram \<Rightarrow> nat \<Rightarrow> nat \<Rightarrow> nat \<Rightarrow> nat \<Rightarrow> ram \<times> nat \<times> nat \<times> nat \<times> nat" where
  "cbc_encrypt_blocks E m inp out len iv =
     (if 16 \<le> len
      then let m1 = xor_words m out inp iv; m2 = block128 E m1 out out
           in cbc_encrypt_blocks E m2 (inp + 16) (out + 16) (len - 16) out
      else (m, inp, out, len, iv))"
  by pat_completeness auto
termination by (relation "measure (\<lambda>(_, _, _, _, len, _). len)") auto

function cbc_encrypt_tail ::
  "(byte list \<Rightarrow> byte list) \<Rightarrow> ram \<Rightarrow> nat \<Rightarrow> nat \<Rightarrow> nat \<Rightarrow> nat \<Rightarrow> ram \<times> nat" where
  "cbc_encrypt_tail E m inp out len iv =
     (if len = 0 then (m, iv)
      else let n = min 16 len;
               m1 = xor_bytes 0 n m out inp iv;
               m2 = copy_bytes n (16 - n) m1 out iv;
               m3 = block128 E m2 out out
           in if len \<le> 16 then (m3, out)
              else cbc_encrypt_tail E m3 (inp + 16) (out + 16) (len - 16) out)"
  by pat_completeness auto
termination by (relation "measure (\<lambda>(_, _, _, _, len, _). len)") auto

definition CRYPTO_cbc128_encrypt ::
  "(byte list \<Rightarrow> byte list) \<Rightarrow> ram \<Rightarrow> nat \<Rightarrow> nat \<Rightarrow> nat \<Rightarrow> nat \<Rightarrow> ram" where
  "CRYPTO_cbc128_encrypt block m inp out len ivec =
     (case cbc_encrypt_blocks block m inp out len ivec of
        (m1, inp1, out1, len1, iv1) \<Rightarrow>
          (case cbc_encrypt_tail block m1 inp1 out1 len1 iv1 of
             (m2, iv2) \<Rightarrow> wr m2 ivec (rd m2 iv2 16)))"

function cbc_decrypt_direct ::
  "(byte list \<Rightarrow> byte list) \<Rightarrow> ram \<Rightarrow> nat \<Rightarrow> nat \<Rightarrow> nat \<Rightarrow> nat \<Rightarrow> ram \<times> nat \<times> nat \<times> nat \<times> nat" where
  "cbc_decrypt_direct D m inp out len iv =
     (if 16 \<le> len
      then let m1 = block128 D m inp out; m2 = xor_words m1 out out iv
           in cbc_decrypt_direct D m2 (inp + 16) (out + 16) (len - 16) inp
      else (m, inp, out, len, iv))"
  by pat_completeness auto
termination by (relation "measure (\<lambda>(_, _, _, _, len, _). len)") auto

text \<open>
  The variant with a temporary block: a word is loaded from \<open>in\<close> before the word at \<open>out\<close> is stored.
\<close>

definition cbc_tmp_word :: "byte list \<Rightarrow> nat \<Rightarrow> nat \<Rightarrow> nat \<Rightarrow> nat \<Rightarrow> ram \<Rightarrow> ram" where
  "cbc_tmp_word tmp inp out ivec n m =
     (let c = load_word_le m (inp + n);
          m1 = store_word_le m (out + n) (le_load (take 8 (drop n tmp)) XOR load_word_le m (ivec + n))
      in store_word_le m1 (ivec + n) c)"

function cbc_decrypt_tmp ::
  "(byte list \<Rightarrow> byte list) \<Rightarrow> ram \<Rightarrow> nat \<Rightarrow> nat \<Rightarrow> nat \<Rightarrow> nat \<Rightarrow> ram \<times> nat \<times> nat \<times> nat" where
  "cbc_decrypt_tmp D m inp out len ivec =
     (if 16 \<le> len
      then let tmp = D (rd m inp 16);
               m1 = cbc_tmp_word tmp inp out ivec 0 m;
               m2 = cbc_tmp_word tmp inp out ivec 8 m1
           in cbc_decrypt_tmp D m2 (inp + 16) (out + 16) (len - 16) ivec
      else (m, inp, out, len))"
  by pat_completeness auto
termination by (relation "measure (\<lambda>(_, _, _, _, len, _). len)") auto

fun cbc_tmp_bytes :: "byte list \<Rightarrow> nat \<Rightarrow> nat \<Rightarrow> nat \<Rightarrow> nat \<Rightarrow> nat \<Rightarrow> ram \<Rightarrow> ram" where
  "cbc_tmp_bytes tmp inp out ivec n 0 m = m"
| "cbc_tmp_bytes tmp inp out ivec n (Suc k) m =
     (let c = m (inp + n);
          m1 = m(out + n := tmp ! n XOR m (ivec + n));
          m2 = m1(ivec + n := c)
      in cbc_tmp_bytes tmp inp out ivec (Suc n) k m2)"

function cbc_decrypt_tail ::
  "(byte list \<Rightarrow> byte list) \<Rightarrow> ram \<Rightarrow> nat \<Rightarrow> nat \<Rightarrow> nat \<Rightarrow> nat \<Rightarrow> ram" where
  "cbc_decrypt_tail D m inp out len ivec =
     (if len = 0 then m
      else let tmp = D (rd m inp 16); n = min 16 len;
               m1 = cbc_tmp_bytes tmp inp out ivec 0 n m
           in if len \<le> 16 then copy_bytes n (16 - n) m1 ivec inp
              else cbc_decrypt_tail D m1 (inp + 16) (out + 16) (len - 16) ivec)"
  by pat_completeness auto
termination by (relation "measure (\<lambda>(_, _, _, _, len, _). len)") auto

definition CRYPTO_cbc128_decrypt ::
  "(byte list \<Rightarrow> byte list) \<Rightarrow> ram \<Rightarrow> nat \<Rightarrow> nat \<Rightarrow> nat \<Rightarrow> nat \<Rightarrow> ram" where
  "CRYPTO_cbc128_decrypt block m inp out len ivec =
     (if (32 \<le> inp \<and> out \<le> inp - 32) \<or> inp < out
      then case cbc_decrypt_direct block m inp out len ivec of
             (m1, inp1, out1, len1, iv1) \<Rightarrow>
               cbc_decrypt_tail block (wr m1 ivec (rd m1 iv1 16)) inp1 out1 len1 ivec
      else case cbc_decrypt_tmp block m inp out len ivec of
             (m1, inp1, out1, len1) \<Rightarrow> cbc_decrypt_tail block m1 inp1 out1 len1 ivec)"

declare cbc_encrypt_blocks.simps [simp del] cbc_encrypt_tail.simps [simp del]
  cbc_decrypt_direct.simps [simp del] cbc_decrypt_tmp.simps [simp del] cbc_decrypt_tail.simps [simp del]

subsection \<open>What CBC computes\<close>

text \<open>
  The 16-byte blocks at an address, and the pieces of a message, of which the last may be shorter. A
  short piece is filled with what it is combined with.
\<close>

definition blocks_at :: "ram \<Rightarrow> nat \<Rightarrow> nat \<Rightarrow> byte list list" where
  "blocks_at m a k = map (\<lambda>i. rd m (a + 16 * i) 16) [0..<k]"

definition pieces_at :: "ram \<Rightarrow> nat \<Rightarrow> nat \<Rightarrow> byte list list" where
  "pieces_at m a n =
     blocks_at m a (n div 16) @ (if n mod 16 = 0 then [] else [rd m (a + 16 * (n div 16)) (n mod 16)])"

fun cbc_cipher :: "(byte list \<Rightarrow> byte list) \<Rightarrow> byte list \<Rightarrow> byte list list \<Rightarrow> byte list list" where
  "cbc_cipher E iv [] = []"
| "cbc_cipher E iv (p # ps) = (let c = E (xorl p iv @ drop (length p) iv) in c # cbc_cipher E c ps)"

fun cbc_plain :: "(byte list \<Rightarrow> byte list) \<Rightarrow> byte list \<Rightarrow> byte list list \<Rightarrow> byte list list" where
  "cbc_plain D iv [] = []"
| "cbc_plain D iv (c # cs) = xorl (D c) iv # cbc_plain D c cs"

definition cipher16 :: "(byte list \<Rightarrow> byte list) \<Rightarrow> bool" where
  "cipher16 E \<longleftrightarrow> (\<forall>b. length b = 16 \<longrightarrow> length (E b) = 16)"

lemma cipher16_length: "cipher16 E \<Longrightarrow> length b = 16 \<Longrightarrow> length (E b) = 16"
  by (simp add: cipher16_def)

lemma blocks_at_0 [simp]: "blocks_at m a 0 = []"
  by (simp add: blocks_at_def)

lemma blocks_at_Suc: "blocks_at m a (Suc k) = rd m a 16 # blocks_at m (a + 16) k"
  unfolding blocks_at_def upt_conv_Cons [OF zero_less_Suc] map_Suc_upt [symmetric]
  by (simp add: comp_def ac_simps)

lemma blocks_at_snoc: "blocks_at m a (Suc k) = blocks_at m a k @ [rd m (a + 16 * k) 16]"
  by (simp add: blocks_at_def)

lemma length_blocks_at [simp]: "length (blocks_at m a k) = k"
  by (simp add: blocks_at_def)

lemma blocks_at_set: "b \<in> set (blocks_at m a k) \<Longrightarrow> length b = 16"
  by (auto simp: blocks_at_def)

lemma concat_blocks_at: "concat (blocks_at m a k) = rd m a (16 * k)"
  by (induction k arbitrary: a) (simp_all add: blocks_at_Suc rd_append)

lemma blocks_at_cong: "rd m a (16 * k) = rd m' a (16 * k) \<Longrightarrow> blocks_at m a k = blocks_at m' a k"
proof (induction k arbitrary: a)
  case (Suc k)
  then have "rd m a 16 @ rd m (a + 16) (16 * k) = rd m' a 16 @ rd m' (a + 16) (16 * k)"
    by (simp add: rd_append)
  then show ?case using Suc.IH [of "a + 16"] by (simp add: blocks_at_Suc)
qed simp

lemma blocks_at_wr: "a + 16 * k \<le> b \<or> b + length bs \<le> a \<Longrightarrow> blocks_at (wr m b bs) a k = blocks_at m a k"
  by (rule blocks_at_cong) (rule rd_wr_other)

lemma cbc_cipher_length:
  assumes "cipher16 E" "length iv = 16" "\<forall>p\<in>set ps. length p \<le> 16"
  shows "length (cbc_cipher E iv ps) = length ps \<and> (\<forall>c\<in>set (cbc_cipher E iv ps). length c = 16)"
  using assms(2,3)
proof (induction ps arbitrary: iv)
  case (Cons p ps)
  have "length p \<le> 16" "length iv = 16" using Cons.prems by simp_all
  then have "length (xorl p iv @ drop (length p) iv) = 16" by simp
  then have c: "length (E (xorl p iv @ drop (length p) iv)) = 16" by (rule cipher16_length [OF assms(1)])
  have "\<forall>p\<in>set ps. length p \<le> 16" using Cons.prems(2) by simp
  from Cons.IH [OF c this] c show ?case unfolding cbc_cipher.simps Let_def list.set ball_simps by (simp only: list.size simp_thms) blast
qed simp

lemma cbc_cipher_append:
  "cbc_cipher E iv (ps @ qs) = cbc_cipher E iv ps @ cbc_cipher E (last (iv # cbc_cipher E iv ps)) qs"
  by (induction ps arbitrary: iv) (simp_all add: Let_def)

lemma length_concat_16: "\<forall>c\<in>set cs. length c = 16 \<Longrightarrow> length (concat cs) = 16 * length cs"
  by (induction cs) simp_all

subsection \<open>Encryption\<close>

lemma cbc_encrypt_step:
  assumes "cipher16 E" "fwd out inp 16" "fwd out iv 16"
  shows "block128 E (xor_words m out inp iv) out out = wr m out (E (xorl (rd m inp 16) (rd m iv 16)))"
  using assms cipher16_length [OF assms(1), of "xorl (rd m inp 16) (rd m iv 16)"]
  by (simp add: block128_def xor_words_wr wr_wr_same)

lemma cbc_encrypt_blocks_wr:
  assumes "cipher16 E" "r < 16"
  shows "fwd out inp (16 * k + r) \<Longrightarrow> fwd out iv 16 \<Longrightarrow>
    cbc_encrypt_blocks E m inp out (16 * k + r) iv =
      (wr m out (concat (cbc_cipher E (rd m iv 16) (blocks_at m inp k))), inp + 16 * k, out + 16 * k, r,
       if k = 0 then iv else out + 16 * (k - 1))"
proof (induction k arbitrary: m inp out iv)
  case 0
  then show ?case using assms(2) by (simp add: cbc_encrypt_blocks.simps [of E m])
next
  case (Suc k)
  let ?c = "E (xorl (rd m inp 16) (rd m iv 16))"
  let ?m = "wr m out ?c"
  have l: "length ?c = 16" by (rule cipher16_length [OF assms(1)]) simp
  have f: "fwd out inp 16" "fwd (out + 16) (inp + 16) (16 * k + r)" "fwd (out + 16) out 16"
    using Suc.prems(1) by (auto simp: fwd_def)
  have "blocks_at ?m (inp + 16) k = blocks_at m (inp + 16) k"
    using Suc.prems(1) l by (intro blocks_at_wr) (auto simp: fwd_def)
  then have ih: "cbc_encrypt_blocks E ?m (inp + 16) (out + 16) (16 * k + r) out =
      (wr ?m (out + 16) (concat (cbc_cipher E ?c (blocks_at m (inp + 16) k))), inp + 16 + 16 * k, out + 16 + 16 * k, r,
       if k = 0 then out else out + 16 + 16 * (k - 1))"
    using Suc.IH [OF f(2,3), of ?m] l by simp
  have "cbc_encrypt_blocks E m inp out (16 * Suc k + r) iv = cbc_encrypt_blocks E ?m (inp + 16) (out + 16) (16 * k + r) out"
    using cbc_encrypt_step [OF assms(1) f(1) Suc.prems(2), of m]
    by (simp add: cbc_encrypt_blocks.simps [of E m] Let_def)
  then show ?case
    using ih wr_append [of m out ?c] l by (cases k) (simp_all add: blocks_at_Suc Let_def)
qed

lemma cbc_encrypt_tail_wr:
  assumes "cipher16 E" "0 < r" "r < 16" "fwd out inp r" "fwd out iv 16"
  shows "cbc_encrypt_tail E m inp out r iv =
    (wr m out (E (xorl (rd m inp r) (rd m iv 16) @ drop r (rd m iv 16))), out)"
proof -
  have r: "rd m iv 16 = rd m iv r @ rd m (iv + r) (16 - r)" using rd_append [of m iv r "16 - r"] assms(3) by simp
  let ?x = "xorl (rd m inp r) (rd m iv r)"
  have x: "xorl (rd m inp r) (rd m iv 16) = ?x" "drop r (rd m iv 16) = rd m (iv + r) (16 - r)"
    using xorl_append [of "rd m inp r" "rd m iv r" "[]" "rd m (iv + r) (16 - r)"] r by (simp_all add: xorl_def)
  have m1: "xor_bytes 0 r m out inp iv = wr m out ?x"
    using xor_bytes_wr [of out inp 0 r iv m] assms(4) fwd_le [OF assms(5), of r] assms(3) by simp
  have "rd (wr m out ?x) (iv + r) (16 - r) = rd m (iv + r) (16 - r)"
    using rd_wr_ahead [of out iv r "16 - r" ?x m] assms(3,5) by simp
  then have m2: "copy_bytes r (16 - r) (wr m out ?x) out iv = wr m out (?x @ rd m (iv + r) (16 - r))"
    using copy_bytes_wr [of out iv r "16 - r" "wr m out ?x"] wr_append [of m out ?x] assms(3,5) by simp
  show ?thesis
    using assms(1-3) m1 m2 cipher16_length [OF assms(1), of "?x @ rd m (iv + r) (16 - r)"]
    by (simp add: cbc_encrypt_tail.simps [of E m] Let_def block128_def x wr_wr_same)
qed

lemma cbc_encrypt_wr:
  assumes E: "cipher16 E" and f: "fwd out inp len" "fwd out ivec 16"
    and iv: "ivec + 16 \<le> out \<or> out + 16 * length (pieces_at m inp len) \<le> ivec"
  shows "CRYPTO_cbc128_encrypt E m inp out len ivec =
    (let cs = cbc_cipher E (rd m ivec 16) (pieces_at m inp len)
     in wr (wr m out (concat cs)) ivec (last (rd m ivec 16 # cs)))"
proof -
  let ?k = "len div 16" and ?r = "len mod 16" and ?iv = "rd m ivec 16"
  let ?cs = "cbc_cipher E ?iv (blocks_at m inp ?k)"
  have len: "len = 16 * ?k + ?r" by simp
  have r: "?r < 16" by simp
  have f': "fwd out inp (16 * ?k + ?r)" using f(1) len by simp
  have cs: "length ?cs = ?k" "\<forall>c\<in>set ?cs. length c = 16"
    using cbc_cipher_length [OF E, of ?iv "blocks_at m inp ?k"] by (simp_all add: blocks_at_set)
  then have lc: "length (concat ?cs) = 16 * ?k" by (simp add: length_concat_16)
  let ?iv1 = "if ?k = 0 then ivec else out + 16 * (?k - 1)"
  let ?m1 = "wr m out (concat ?cs)"
  have b: "cbc_encrypt_blocks E m inp out len ivec = (?m1, inp + 16 * ?k, out + 16 * ?k, ?r, ?iv1)"
    using cbc_encrypt_blocks_wr [OF E r f' f(2), of m] len by simp
  have iv1: "rd ?m1 ?iv1 16 = last (?iv # ?cs)"
  proof (cases "?k = 0")
    case False
    then obtain j where j: "?k = Suc j" by (cases ?k) auto
    then obtain c cs' where c: "?cs = cs' @ [c]" using cs(1) by (cases ?cs rule: rev_cases) auto
    then have "length (concat cs') = 16 * j" "length c = 16" using cs j by (simp_all add: length_concat_16)
    then have "?m1 = wr (wr m out (concat cs')) (out + 16 * j) c"
      using c wr_append [of m out "concat cs'" c] by simp
    then show ?thesis using c j \<open>length c = 16\<close> by simp
  qed simp
  show ?thesis
  proof (cases "?r = 0")
    case True
    then show ?thesis
      using b iv1 by (simp add: CRYPTO_cbc128_encrypt_def cbc_encrypt_tail.simps [of E ?m1] pieces_at_def Let_def)
  next
    case False
    let ?p = "rd m (inp + 16 * ?k) ?r"
    let ?c = "E (xorl ?p (last (?iv # ?cs)) @ drop ?r (last (?iv # ?cs)))"
    have ll: "length (last (?iv # ?cs)) = 16" using cs(2) by auto
    have fw: "fwd (out + 16 * ?k) (inp + 16 * ?k) ?r" by (rule fwd_add [OF f'])
    have fv: "fwd (out + 16 * ?k) ?iv1 16" using f(2) by (auto simp: fwd_def)
    have p: "rd ?m1 (inp + 16 * ?k) ?r = ?p" by (rule rd_wr_ahead [OF f' lc])
    have t: "cbc_encrypt_tail E ?m1 (inp + 16 * ?k) (out + 16 * ?k) ?r ?iv1 =
        (wr ?m1 (out + 16 * ?k) ?c, out + 16 * ?k)"
      using cbc_encrypt_tail_wr [OF E _ r fw fv, of ?m1] False unfolding iv1 p by simp
    have lc2: "length ?c = 16" by (rule cipher16_length [OF E]) (use ll in simp)
    let ?m2 = "wr ?m1 (out + 16 * ?k) ?c"
    have "rd ?m2 (out + 16 * ?k) 16 = ?c" using lc2 by simp
    then have "CRYPTO_cbc128_encrypt E m inp out len ivec = wr ?m2 ivec ?c"
      using b t by (simp add: CRYPTO_cbc128_encrypt_def)
    moreover have "?m2 = wr m out (concat (?cs @ [?c]))"
      using wr_append [of m out "concat ?cs" ?c] lc by simp
    moreover have "cbc_cipher E ?iv (pieces_at m inp len) = ?cs @ [?c]"
      using False by (simp add: pieces_at_def cbc_cipher_append Let_def)
    ultimately show ?thesis by (simp only: Let_def last_ConsR) simp
  qed
qed

subsection \<open>Decryption\<close>

text \<open>Decrypting a block into its place.\<close>

lemma cbc_direct_step:
  assumes "cipher16 D" "iv + 16 \<le> out \<or> out + 16 \<le> iv"
  shows "xor_words (block128 D m inp out) out out iv = wr m out (xorl (D (rd m inp 16)) (rd m iv 16))"
proof -
  let ?x = "D (rd m inp 16)"
  have l: "length ?x = 16" by (rule cipher16_length [OF assms(1)]) simp
  have "rd (wr m out ?x) iv 16 = rd m iv 16" using assms(2) l by (intro rd_wr_other) auto
  moreover have "fwd out out 16" "fwd out iv 16" using assms(2) by (auto simp: fwd_def)
  ultimately show ?thesis using l by (simp add: block128_def xor_words_wr wr_wr_same)
qed

lemma cbc_decrypt_direct_wr:
  assumes D: "cipher16 D" "r < 16"
  shows "out + 32 \<le> inp \<or> inp + 16 * k \<le> out \<Longrightarrow> iv + 16 \<le> out \<or> out + 16 \<le> iv \<or> k = 0 \<Longrightarrow>
    cbc_decrypt_direct D m inp out (16 * k + r) iv =
      (wr m out (concat (cbc_plain D (rd m iv 16) (blocks_at m inp k))), inp + 16 * k, out + 16 * k, r,
       if k = 0 then iv else inp + 16 * (k - 1))"
proof (induction k arbitrary: m inp out iv)
  case 0
  then show ?case using D(2) by (simp add: cbc_decrypt_direct.simps [of D m])
next
  case (Suc k)
  let ?p = "xorl (D (rd m inp 16)) (rd m iv 16)"
  let ?m = "wr m out ?p"
  have "length (D (rd m inp 16)) = 16" by (rule cipher16_length [OF D(1)]) simp
  then have l: "length ?p = 16" by simp
  have f: "out + 16 + 32 \<le> inp + 16 \<or> inp + 16 + 16 * k \<le> out + 16" using Suc.prems(1) by auto
  have g: "inp + 16 \<le> out + 16 \<or> out + 16 + 16 \<le> inp \<or> k = 0" using Suc.prems(1) by auto
  have b: "blocks_at ?m (inp + 16) k = blocks_at m (inp + 16) k"
    using Suc.prems(1) l by (intro blocks_at_wr) auto
  have i: "rd ?m inp 16 = rd m inp 16" using Suc.prems(1) l by (intro rd_wr_other) auto
  have iv: "iv + 16 \<le> out \<or> out + 16 \<le> iv" using Suc.prems(2) by simp
  have "cbc_decrypt_direct D m inp out (16 * Suc k + r) iv = cbc_decrypt_direct D ?m (inp + 16) (out + 16) (16 * k + r) inp"
    using cbc_direct_step [OF D(1) iv, of m inp] by (simp add: cbc_decrypt_direct.simps [of D m] Let_def)
  then show ?case
    using Suc.IH [OF f g, of ?m] i b wr_append [of m out ?p] l by (cases k) (simp_all add: blocks_at_Suc)
qed

lemma cbc_plain_length:
  assumes "cipher16 D" "length iv = 16" "\<forall>c\<in>set cs. length c = 16"
  shows "length (cbc_plain D iv cs) = length cs \<and> (\<forall>p\<in>set (cbc_plain D iv cs). length p = 16)"
  using assms(2,3)
proof (induction cs arbitrary: iv)
  case (Cons c cs)
  have c: "length c = 16" "\<forall>c\<in>set cs. length c = 16" using Cons.prems(2) by simp_all
  have "length (D c) = 16" by (rule cipher16_length [OF assms(1) c(1)])
  then have "length (xorl (D c) iv) = 16" using Cons.prems(1) by simp
  with Cons.IH [OF c] show ?case unfolding cbc_plain.simps list.set ball_simps by (simp only: list.size simp_thms) blast
qed simp

text \<open>With the temporary block: the plaintext goes to \<open>out\<close>, the ciphertext to \<open>ivec\<close>.\<close>

lemma cbc_tmp_word_wr:
  assumes "length tmp = 16" "n = 0 \<or> n = 8"
  shows "cbc_tmp_word tmp inp out ivec n m =
    wr (wr m (out + n) (xorl (take 8 (drop n tmp)) (rd m (ivec + n) 8))) (ivec + n) (rd m (inp + n) 8)"
proof -
  have "length (take 8 (drop n tmp)) = 8" using assms by auto
  then have "store_word_le m (out + n) (le_load (take 8 (drop n tmp)) XOR load_word_le m (ivec + n)) =
      wr m (out + n) (xorl (take 8 (drop n tmp)) (rd m (ivec + n) 8))"
    by (simp add: store_word_le_def load_word_le_def le_load_xor le_store_load)
  then show ?thesis by (simp add: cbc_tmp_word_def Let_def store_word_le_def load_word_le_def le_store_load)
qed

lemma cbc_tmp_step:
  assumes D: "cipher16 D" and f: "fwd out inp 16" "ivec + 16 \<le> out \<or> out + 16 \<le> ivec" "ivec + 16 \<le> inp \<or> inp + 16 \<le> ivec"
  shows "cbc_tmp_word (D (rd m inp 16)) inp out ivec 8 (cbc_tmp_word (D (rd m inp 16)) inp out ivec 0 m) =
    wr (wr m out (xorl (D (rd m inp 16)) (rd m ivec 16))) ivec (rd m inp 16)"
proof -
  define t where "t = D (rd m inp 16)"
  have t: "length t = 16" unfolding t_def by (rule cipher16_length [OF D]) simp
  let ?x = "xorl (take 8 t) (rd m ivec 8)" and ?y = "xorl (take 8 (drop 8 t)) (rd m (ivec + 8) 8)"
  let ?m1 = "wr (wr m out ?x) ivec (rd m inp 8)"
  have lx: "length ?x = 8" "length ?y = 8" using t by simp_all
  have a: "cbc_tmp_word t inp out ivec 0 m = ?m1" using cbc_tmp_word_wr [OF t, of 0 inp out ivec m] by simp
  have b: "rd ?m1 (ivec + 8) 8 = rd m (ivec + 8) 8" "rd ?m1 (inp + 8) 8 = rd m (inp + 8) 8"
    using f lx by (auto simp: fwd_def intro!: trans [OF rd_wr_other rd_wr_other])
  have "cbc_tmp_word t inp out ivec 8 ?m1 = wr (wr ?m1 (out + 8) ?y) (ivec + 8) (rd m (inp + 8) 8)"
    using cbc_tmp_word_wr [OF t, of 8 inp out ivec ?m1] unfolding b by simp
  also have "wr ?m1 (out + 8) ?y = wr (wr (wr m out ?x) (out + 8) ?y) ivec (rd m inp 8)"
    using f(2) lx by (intro wr_swap) auto
  also have "wr (wr m out ?x) (out + 8) ?y = wr m out (?x @ ?y)" using wr_append [of m out ?x ?y] lx by simp
  also have "wr (wr (wr m out (?x @ ?y)) ivec (rd m inp 8)) (ivec + 8) (rd m (inp + 8) 8) =
      wr (wr m out (?x @ ?y)) ivec (rd m inp 16)"
    using wr_append [of "wr m out (?x @ ?y)" ivec "rd m inp 8"] rd_append [of m inp 8 8] by simp
  also have "?x @ ?y = xorl t (rd m ivec 16)"
  proof -
    have "t = take 8 t @ take 8 (drop 8 t)" using t append_take_drop_id [of 8 t] by simp
    then show ?thesis
      using t rd_append [of m ivec 8 8] xorl_append [of "take 8 t" "rd m ivec 8" "take 8 (drop 8 t)" "rd m (ivec + 8) 8"] by simp
  qed
  finally show ?thesis using a unfolding t_def by simp
qed

lemma cbc_decrypt_tmp_wr:
  assumes D: "cipher16 D" "r < 16"
  shows "fwd out inp (16 * k) \<Longrightarrow> ivec + 16 \<le> out \<or> out + 16 * k \<le> ivec \<Longrightarrow> ivec + 16 \<le> inp \<or> inp + 16 * k \<le> ivec \<Longrightarrow>
    cbc_decrypt_tmp D m inp out (16 * k + r) ivec =
      (wr (wr m out (concat (cbc_plain D (rd m ivec 16) (blocks_at m inp k)))) ivec (last (rd m ivec 16 # blocks_at m inp k)),
       inp + 16 * k, out + 16 * k, r)"
proof (induction k arbitrary: m inp out)
  case 0
  have "wr m ivec (rd m ivec 16) = m" by (auto simp: wr_def fun_eq_iff)
  then show ?case using D(2) by (simp add: cbc_decrypt_tmp.simps [of D m])
next
  case (Suc k)
  let ?p = "xorl (D (rd m inp 16)) (rd m ivec 16)"
  let ?m = "wr (wr m out ?p) ivec (rd m inp 16)"
  have "length (D (rd m inp 16)) = 16" by (rule cipher16_length [OF D(1)]) simp
  then have l: "length ?p = 16" by simp
  have f: "fwd (out + 16) (inp + 16) (16 * k)" "ivec + 16 \<le> out + 16 \<or> out + 16 + 16 * k \<le> ivec"
    "ivec + 16 \<le> inp + 16 \<or> inp + 16 + 16 * k \<le> ivec" using Suc.prems by (auto simp: fwd_def)
  have s: "fwd out inp 16" "ivec + 16 \<le> out \<or> out + 16 \<le> ivec" "ivec + 16 \<le> inp \<or> inp + 16 \<le> ivec"
    using Suc.prems by (auto simp: fwd_def)
  have b: "blocks_at ?m (inp + 16) k = blocks_at m (inp + 16) k"
    using Suc.prems l by (intro trans [OF blocks_at_wr blocks_at_wr]) (auto simp: fwd_def)
  let ?ps = "concat (cbc_plain D (rd m inp 16) (blocks_at m (inp + 16) k))"
  let ?z = "last (rd m inp 16 # blocks_at m (inp + 16) k)"
  have lz: "length ?z = 16" by (auto dest!: last_in_set simp: blocks_at_set)
  have lp: "length ?ps = 16 * k"
    using cbc_plain_length [OF D(1), of "rd m inp 16" "blocks_at m (inp + 16) k"]
    by (simp add: blocks_at_set length_concat_16)
  have "cbc_decrypt_tmp D m inp out (16 * Suc k + r) ivec = cbc_decrypt_tmp D ?m (inp + 16) (out + 16) (16 * k + r) ivec"
    using cbc_tmp_step [OF D(1) s, of m] by (simp add: cbc_decrypt_tmp.simps [of D m] Let_def)
  also have "\<dots> = (wr (wr ?m (out + 16) ?ps) ivec ?z, inp + 16 + 16 * k, out + 16 + 16 * k, r)"
    using Suc.IH [OF f, of ?m] b by simp
  also have "wr ?m (out + 16) ?ps = wr (wr (wr m out ?p) (out + 16) ?ps) ivec (rd m inp 16)"
    using Suc.prems(2) lp by (intro wr_swap) auto
  also have "wr (wr m out ?p) (out + 16) ?ps = wr m out (?p @ ?ps)" using wr_append [of m out ?p] l by simp
  also have "wr (wr (wr m out (?p @ ?ps)) ivec (rd m inp 16)) ivec ?z = wr (wr m out (?p @ ?ps)) ivec ?z"
    using lz by (intro wr_wr_same) simp
  finally show ?case by (simp add: blocks_at_Suc add.assoc)
qed

lemma cbc_decrypt_wr:
  assumes D: "cipher16 D" and f: "out \<le> inp \<or> inp + 16 * k \<le> out"
    and iv: "ivec + 16 \<le> out \<or> out + 16 * k \<le> ivec" "ivec + 16 \<le> inp \<or> inp + 16 * k \<le> ivec"
  shows "CRYPTO_cbc128_decrypt D m inp out (16 * k) ivec =
    wr (wr m out (concat (cbc_plain D (rd m ivec 16) (blocks_at m inp k)))) ivec (last (rd m ivec 16 # blocks_at m inp k))"
proof -
  let ?iv = "rd m ivec 16" and ?cs = "blocks_at m inp k"
  let ?m = "wr m out (concat (cbc_plain D ?iv ?cs))"
  have len: "length (concat (cbc_plain D ?iv ?cs)) = 16 * k"
    using cbc_plain_length [OF D, of ?iv ?cs] by (simp add: blocks_at_set length_concat_16)
  have tail: "cbc_decrypt_tail D m' a b 0 ivec = m'" for m' a b by (simp add: cbc_decrypt_tail.simps)
  show ?thesis
  proof (cases "(32 \<le> inp \<and> out \<le> inp - 32) \<or> inp < out")
    case True
    then have d: "out + 32 \<le> inp \<or> inp + 16 * k \<le> out" using f by auto
    have e: "ivec + 16 \<le> out \<or> out + 16 \<le> ivec \<or> k = 0" using iv(1) by auto
    have "rd ?m (if k = 0 then ivec else inp + 16 * (k - 1)) 16 = last (?iv # ?cs)"
    proof (cases k)
      case (Suc j)
      have "rd ?m (inp + 16 * j) 16 = rd m (inp + 16 * j) 16" using d len Suc by (intro rd_wr_other) auto
      then show ?thesis using Suc by (simp add: blocks_at_snoc)
    qed simp
    then show ?thesis
      using True cbc_decrypt_direct_wr [OF D, of 0 out inp k ivec m] d e tail by (simp add: CRYPTO_cbc128_decrypt_def)
  next
    case False
    have "fwd out inp (16 * k)" using f by (simp add: fwd_def)
    from cbc_decrypt_tmp_wr [OF D, of 0, OF _ this iv, of m] tail show ?thesis
      unfolding CRYPTO_cbc128_decrypt_def if_not_P [OF False] by simp
  qed
qed

definition pad16 :: "byte list \<Rightarrow> byte list" where
  "pad16 p = p @ replicate (16 - length p) 0"

lemma xorl_same: "xorl bs bs = replicate (length bs) 0"
  by (rule nth_equalityI) simp_all

lemma cbc_plain_cipher:
  assumes E: "cipher16 E" "\<And>b. length b = 16 \<Longrightarrow> D (E b) = b" "length iv = 16" "\<forall>p\<in>set ps. length p \<le> 16"
  shows "cbc_plain D iv (cbc_cipher E iv ps) = map pad16 ps"
  using assms(3,4)
proof (induction ps arbitrary: iv)
  case (Cons p ps)
  have p: "length p \<le> 16" "\<forall>p\<in>set ps. length p \<le> 16" "length iv = 16" using Cons.prems by simp_all
  let ?x = "xorl p iv @ drop (length p) iv"
  have x: "length ?x = 16" using p(1,3) by simp
  have "xorl ?x iv = xorl (xorl p iv) (take (length p) iv) @ xorl (drop (length p) iv) (drop (length p) iv)"
    using xorl_append [of "xorl p iv" "take (length p) iv" "drop (length p) iv" "drop (length p) iv"] p(1,3) by simp
  also have "xorl (xorl p iv) (take (length p) iv) = p"
    by (rule nth_equalityI) (use p(1,3) in \<open>simp_all add: xor.assoc\<close>)
  finally have "xorl ?x iv = pad16 p" using p(3) by (simp add: xorl_same pad16_def)
  moreover have "length (E ?x) = 16" by (rule cipher16_length [OF E(1) x])
  ultimately show ?case using Cons.IH [of "E ?x"] p(2) E(2) [OF x] by (simp add: Let_def)
qed simp

lemma length_pieces_at: "length (pieces_at m a n) = (n + 15) div 16"
proof -
  have "n + 15 = 16 * (n div 16) + (n mod 16 + 15)" by simp
  then have "(n + 15) div 16 = n div 16 + (n mod 16 + 15) div 16" by (metis div_mult_self4 zero_neq_numeral)
  moreover have "(n mod 16 + 15) div 16 = (if n mod 16 = 0 then 0 else 1)" by (auto intro!: div_nat_eqI)
  ultimately show ?thesis by (simp add: pieces_at_def)
qed

lemma pieces_at_set: "p \<in> set (pieces_at m a n) \<Longrightarrow> length p \<le> 16"
  by (auto simp: pieces_at_def blocks_at_set split: if_splits)

lemma pad_length:
  "16 * q + r = n \<Longrightarrow> 16 * (q + (if r = 0 then 0 else 1)) - n = (if r = 0 then 0 else 16 - (r :: nat))"
  by (cases "r = 0") auto

lemma concat_pad:
  "concat (map pad16 (pieces_at m a n)) = rd m a n @ replicate (16 * ((n + 15) div 16) - n) 0"
proof -
  let ?k = "n div 16" and ?r = "n mod 16"
  have "map pad16 (blocks_at m a ?k) = blocks_at m a ?k"
    by (rule map_idI) (simp add: pad16_def blocks_at_set)
  then have c: "concat (map pad16 (pieces_at m a n)) =
      rd m a (16 * ?k) @ (if ?r = 0 then [] else pad16 (rd m (a + 16 * ?k) ?r))"
    by (simp add: pieces_at_def concat_blocks_at)
  have r: "rd m a n = rd m a (16 * ?k) @ rd m (a + 16 * ?k) ?r" using rd_append [of m a "16 * ?k" ?r] by simp
  have "(n + 15) div 16 = ?k + (if ?r = 0 then 0 else 1)"
    using length_pieces_at [of m a n] by (cases "?r = 0") (simp_all add: pieces_at_def)
  then have "16 * ((n + 15) div 16) - n = (if ?r = 0 then 0 else 16 - ?r)"
    using pad_length [of ?k ?r n] by simp
  then show ?thesis unfolding c r by (simp add: pad16_def)
qed

lemma blocks_at_concat:
  "\<forall>c\<in>set cs. length c = 16 \<Longrightarrow> blocks_at (wr m a (concat cs)) a (length cs) = cs"
proof (induction cs arbitrary: m a)
  case (Cons c cs)
  then have c: "length c = 16" "\<forall>c\<in>set cs. length c = 16" by simp_all
  have "wr m a (concat (c # cs)) = wr (wr m a c) (a + 16) (concat cs)"
    using wr_append [of m a c "concat cs"] c(1) by simp
  moreover have "rd (wr (wr m a c) (a + 16) (concat cs)) a 16 = c"
    using rd_wr_other [of a 16 "a + 16" "concat cs" "wr m a c"] c(1) by simp
  ultimately show ?case using Cons.IH [OF c(2), of "wr m a c" "a + 16"] by (simp add: blocks_at_Suc)
qed simp

text \<open>
  C19. What \<open>CRYPTO_cbc128_encrypt\<close> makes of a message, \<open>CRYPTO_cbc128_decrypt\<close> turns back into it, with
  zeros behind a message that is not a whole number of blocks. Both may work in place, and the
  decryption may store its output anywhere at or below its input, through either of its two loops; the
  vectors are outside of what is written, and the second one holds what the first one held.
\<close>

theorem cbc128_roundtrip:
  assumes E: "cipher16 E" "cipher16 D" "\<forall>b. length b = 16 \<longrightarrow> D (E b) = b"
    and n: "n = 16 * ((len + 15) div 16)"
    and enc: "out \<le> inp \<or> inp + len \<le> out" "ivec + 16 \<le> out \<or> out + n \<le> ivec"
    and dec: "dst \<le> out \<or> out + n \<le> dst" "ivec' + 16 \<le> dst \<or> dst + n \<le> ivec'"
      "ivec' + 16 \<le> out \<or> out + n \<le> ivec'" "ivec' + 16 \<le> ivec \<or> ivec + 16 \<le> ivec'" "rd m ivec' 16 = rd m ivec 16"
  defines "m' \<equiv> CRYPTO_cbc128_decrypt D (CRYPTO_cbc128_encrypt E m inp out len ivec) out dst n ivec'"
  shows "rd m' dst n = rd m inp len @ replicate (n - len) 0 \<and>
    (\<forall>x. x \<notin> {out..<out + n} \<union> {dst..<dst + n} \<union> {ivec..<ivec + 16} \<union> {ivec'..<ivec' + 16} \<longrightarrow> m' x = m x)"

proof -
  let ?iv = "rd m ivec 16"
  let ?ps = "pieces_at m inp len" and ?k = "(len + 15) div 16"
  define cs where "cs = cbc_cipher E ?iv ?ps"
  define z where "z = last (?iv # cs)"
  let ?m1 = "CRYPTO_cbc128_encrypt E m inp out len ivec"
  have k: "length ?ps = ?k" by (rule length_pieces_at)
  have cs: "length cs = ?k" "\<forall>c\<in>set cs. length c = 16"
    using cbc_cipher_length [OF E(1), of ?iv ?ps] pieces_at_set k by (auto simp: cs_def)
  have lc: "length (concat cs) = n" using cs n by (simp add: length_concat_16)
  have f: "fwd out inp len" "fwd out ivec 16" using enc n by (auto simp: fwd_def)
  have li: "length z = 16" using cs(2) by (auto simp: z_def dest!: last_in_set)
  have m1: "?m1 = wr (wr m out (concat cs)) ivec z"
    using cbc_encrypt_wr [OF E(1) f, of m] enc(2) n k by (simp add: cs_def z_def Let_def)
  have b: "blocks_at ?m1 out ?k = cs"
    using blocks_at_wr [of out ?k ivec z "wr m out (concat cs)"] enc(2) n li
      blocks_at_concat [OF cs(2), of m out] cs(1) unfolding m1 by auto
  have v: "rd ?m1 ivec' 16 = ?iv"
    unfolding m1 using dec(3-5) li lc
    by (intro trans [OF rd_wr_other trans [OF rd_wr_other]]) auto
  have p: "cbc_plain D ?iv cs = map pad16 ?ps"
    unfolding cs_def using E pieces_at_set by (intro cbc_plain_cipher) auto
  have pad: "concat (map pad16 ?ps) = rd m inp len @ replicate (n - len) 0" by (simp add: concat_pad n)
  have m': "m' = wr (wr ?m1 dst (rd m inp len @ replicate (n - len) 0)) ivec' z"
    using cbc_decrypt_wr [OF E(2), of dst out ?k ivec' ?m1] dec(1-3) n
    unfolding m'_def b v p pad by (simp add: z_def)
  have nl: "len \<le> n" using n by simp
  have "rd m' dst n = rd m inp len @ replicate (n - len) 0"
    unfolding m' using dec(2) li nl by (intro trans [OF rd_wr_other rd_wr_same]) auto
  moreover have "m' x = m x" if "x \<notin> {out..<out + n} \<union> {dst..<dst + n} \<union> {ivec..<ivec + 16} \<union> {ivec'..<ivec' + 16}" for x
  proof -
    have "x < out \<or> out + length (concat cs) \<le> x" "x < ivec \<or> ivec + length z \<le> x" "x < ivec' \<or> ivec' + length z \<le> x"
      "x < dst \<or> dst + length (rd m inp len @ replicate (n - len) 0) \<le> x"
      using that li nl lc by auto
    then show ?thesis unfolding m' m1 by (simp only: wr_out)
  qed
  ultimately show ?thesis by blast
qed

lemma cbc128_roundtrip_witness:
  "let E = map (\<lambda>b. b XOR 0x5A);
           m = (\<lambda>x. if x < 20 then word_of_nat x else 7);
           m' = CRYPTO_cbc128_decrypt E (CRYPTO_cbc128_encrypt E m 0 0 20 64) 0 0 32 96
         in rd m' 0 32 = rd m 0 20 @ replicate 12 0"
proof -
  let ?E = "map (\<lambda>b. b XOR 0x5A) :: byte list \<Rightarrow> byte list" and ?m = "\<lambda>x. if x < 20 then word_of_nat x else 7"
  have "rd ?m 96 16 = rd ?m 64 16" by (simp add: rd_def)
  then show ?thesis
    using cbc128_roundtrip [of ?E ?E 32 20 0 0 64 0 96 ?m] by (simp add: cipher16_def comp_def xor.assoc)
qed

end
