(* ===== verification/Stream_Modes.thy ===== *)
theory Stream_Modes
  imports Modes
begin

text \<open>
The stream modes: \<open>fipsmodule/modes/ctr.c\<close>, \<open>ofb.c\<close> and \<open>cfb.c\<close>. All have one
  shape, which is \<open>stream_mode\<close>: bytes of a block begun earlier, whole blocks, then the rest, with
  the position in the block kept by the caller between calls. The locale \<open>stream_code\<close> is
  what the three parts of a mode owe it; a mode that interprets it treats its input byte by byte, however
  it is cut into calls.
\<close>

section \<open>\<open>ctr.c\<close>\<close>

text \<open>The loops of \<open>ctr128_inc\<close> and \<open>ctr96_inc\<close> over the last \<open>n\<close> bytes that are left.\<close>

fun ctr_inc_loop :: "nat \<Rightarrow> 32 word \<Rightarrow> ram \<Rightarrow> nat \<Rightarrow> ram" where
  "ctr_inc_loop 0 c m a = m"
| "ctr_inc_loop (Suc n) c m a =
     (let c1 = c + ucast (m (a + n)) in ctr_inc_loop n (drop_bit 8 c1) (m(a + n := ucast c1)) a)"

definition ctr128_inc :: "ram \<Rightarrow> nat \<Rightarrow> ram" where
  "ctr128_inc m counter = ctr_inc_loop 16 1 m counter"

definition ctr96_inc :: "ram \<Rightarrow> nat \<Rightarrow> ram" where
  "ctr96_inc m counter = ctr_inc_loop 12 1 m counter"

text \<open>\<open>while (n && len)\<close>: what is left of the last block. \<open>f\<close> is what is done for a byte.\<close>

fun rest_loop ::
  "(ram \<Rightarrow> nat \<Rightarrow> nat \<Rightarrow> nat \<Rightarrow> ram) \<Rightarrow> ram \<Rightarrow> nat \<Rightarrow> nat \<Rightarrow> nat \<Rightarrow> nat \<Rightarrow> ram \<times> nat \<times> nat \<times> nat \<times> nat" where
  "rest_loop f m inp out 0 n = (m, inp, out, 0, n)"
| "rest_loop f m inp out (Suc len) n =
     (if n = 0 then (m, inp, out, Suc len, n)
      else rest_loop f (f m inp out n) (inp + 1) (out + 1) len ((n + 1) mod 16))"

text \<open>
  \<open>while (len >= 16)\<close>: whole blocks, with \<open>g\<close> for each; it leaves \<open>n\<close> at zero. What is left is
  passed to \<open>t\<close>.
\<close>

function block_loop ::
  "(ram \<Rightarrow> nat \<Rightarrow> nat \<Rightarrow> ram) \<Rightarrow> ram \<Rightarrow> nat \<Rightarrow> nat \<Rightarrow> nat \<Rightarrow> nat \<Rightarrow> ram \<times> nat \<times> nat \<times> nat \<times> nat" where
  "block_loop g m inp out len n =
     (if 16 \<le> len then block_loop g (g m inp out) (inp + 16) (out + 16) (len - 16) 0
      else (m, inp, out, len, n))"
  by pat_completeness auto
termination by (relation "measure (\<lambda>(_, _, _, _, len, _). len)") auto

definition stream_mode ::
  "(ram \<Rightarrow> nat \<Rightarrow> nat \<Rightarrow> nat \<Rightarrow> ram) \<Rightarrow> (ram \<Rightarrow> nat \<Rightarrow> nat \<Rightarrow> ram) \<Rightarrow> (ram \<Rightarrow> nat \<Rightarrow> nat \<Rightarrow> nat \<Rightarrow> nat \<Rightarrow> ram) \<Rightarrow>
     ram \<Rightarrow> nat \<Rightarrow> nat \<Rightarrow> nat \<Rightarrow> nat \<Rightarrow> ram \<times> nat" where
  "stream_mode f g t m inp out len num =
     (case rest_loop f m inp out len num of
        (m1, inp1, out1, len1, n1) \<Rightarrow>
          (case block_loop g m1 inp1 out1 len1 n1 of
             (m2, inp2, out2, len2, n2) \<Rightarrow>
               if len2 = 0 then (m2, n2) else (t m2 inp2 out2 len2 n2, n2 + len2)))"

definition ctr_byte :: "nat \<Rightarrow> ram \<Rightarrow> nat \<Rightarrow> nat \<Rightarrow> nat \<Rightarrow> ram" where
  "ctr_byte ecount m inp out n = m(out := m inp XOR m (ecount + n))"

definition ctr_block :: "(byte list \<Rightarrow> byte list) \<Rightarrow> nat \<Rightarrow> nat \<Rightarrow> ram \<Rightarrow> nat \<Rightarrow> nat \<Rightarrow> ram" where
  "ctr_block E ivec ecount m inp out =
     (let m1 = block128 E m ivec ecount; m2 = ctr128_inc m1 ivec in xor_words m2 out inp ecount)"

definition ctr_tail :: "(byte list \<Rightarrow> byte list) \<Rightarrow> nat \<Rightarrow> nat \<Rightarrow> ram \<Rightarrow> nat \<Rightarrow> nat \<Rightarrow> nat \<Rightarrow> nat \<Rightarrow> ram" where
  "ctr_tail E ivec ecount m inp out len n =
     (let m1 = block128 E m ivec ecount; m2 = ctr128_inc m1 ivec in xor_bytes n len m2 out inp ecount)"

definition CRYPTO_ctr128_encrypt ::
  "(byte list \<Rightarrow> byte list) \<Rightarrow> ram \<Rightarrow> nat \<Rightarrow> nat \<Rightarrow> nat \<Rightarrow> nat \<Rightarrow> nat \<Rightarrow> nat \<Rightarrow> ram \<times> nat" where
  "CRYPTO_ctr128_encrypt block m inp out len ivec ecount num =
     stream_mode (ctr_byte ecount) (ctr_block block ivec ecount) (ctr_tail block ivec ecount) m inp out len num"

text \<open>\<open>GETU32\<close> and \<open>PUTU32\<close>, big-endian.\<close>

definition GETU32 :: "ram \<Rightarrow> nat \<Rightarrow> 32 word" where
  "GETU32 m a = le_load (rev (rd m a 4))"

definition PUTU32 :: "ram \<Rightarrow> nat \<Rightarrow> 32 word \<Rightarrow> ram" where
  "PUTU32 m a v = wr m a (rev (le_store 4 v))"

text \<open>
  A \<open>ctr128_f\<close> is given the memory, \<open>in\<close>, \<open>out\<close>, the number of blocks and \<open>ivec\<close>. \<open>ctr32_put\<close> is the
  update of the counter behind its call.
\<close>

type_synonym ctr128_f = "ram \<Rightarrow> nat \<Rightarrow> nat \<Rightarrow> nat \<Rightarrow> nat \<Rightarrow> ram"

definition ctr32_put :: "ram \<Rightarrow> nat \<Rightarrow> 32 word \<Rightarrow> ram" where
  "ctr32_put m ivec ctr32 =
     (let m1 = PUTU32 m (ivec + 12) ctr32 in if ctr32 = 0 then ctr96_inc m1 ivec else m1)"

definition ctr32_step :: "32 word \<Rightarrow> nat \<Rightarrow> 32 word \<times> nat" where
  "ctr32_step ctr32 len =
     (let blocks = (if len div 16 > 2 ^ 28 then 2 ^ 28 else len div 16);
          ctr32' = ctr32 + word_of_nat blocks
      in if unat ctr32' < blocks then (0, blocks - unat ctr32') else (ctr32', blocks))"

lemma ctr32_step_pos: "16 \<le> len \<Longrightarrow> 0 < snd (ctr32_step c len) \<and> 16 * snd (ctr32_step c len) \<le> len"
proof -
  assume "16 \<le> len"
  then have "0 < len div 16" "16 * (len div 16) \<le> len" by (simp_all add: div_greater_zero_iff)
  then show ?thesis by (auto simp: ctr32_step_def Let_def)
qed

lemma ctr32_step_eqD: "(c', b) = ctr32_step c len \<Longrightarrow> 16 \<le> len \<Longrightarrow> 0 < b \<and> 0 < len"
  using ctr32_step_pos [of len c] by (cases "ctr32_step c len") auto

function ctr32_blocks ::
  "ctr128_f \<Rightarrow> ram \<Rightarrow> nat \<Rightarrow> nat \<Rightarrow> nat \<Rightarrow> nat \<Rightarrow> 32 word \<Rightarrow> ram \<times> nat \<times> nat \<times> nat \<times> 32 word" where
  "ctr32_blocks func m inp out len ivec ctr32 =
     (if 16 \<le> len
      then case ctr32_step ctr32 len of
             (ctr32', blocks) \<Rightarrow>
               (let m1 = ctr32_put (func m inp out blocks ivec) ivec ctr32'; b = 16 * blocks
                in ctr32_blocks func m1 (inp + b) (out + b) (len - b) ivec ctr32')
      else (m, inp, out, len, ctr32))"
  by pat_completeness auto
termination
  by (relation "measure (\<lambda>(_, _, _, _, len, _). len)") (auto dest: ctr32_step_eqD)

definition CRYPTO_ctr128_encrypt_ctr32 ::
  "ctr128_f \<Rightarrow> ram \<Rightarrow> nat \<Rightarrow> nat \<Rightarrow> nat \<Rightarrow> nat \<Rightarrow> nat \<Rightarrow> nat \<Rightarrow> ram \<times> nat" where
  "CRYPTO_ctr128_encrypt_ctr32 func m inp out len ivec ecount num =
     (case rest_loop (ctr_byte ecount) m inp out len num of
        (m1, inp1, out1, len1, n1) \<Rightarrow>
          (case ctr32_blocks func m1 inp1 out1 len1 ivec (GETU32 m1 (ivec + 12)) of
             (m2, inp2, out2, len2, ctr32) \<Rightarrow>
               if len2 = 0 then (m2, n1)
               else let m3 = wr m2 ecount (replicate 16 0);
                        m4 = func m3 ecount ecount 1 ivec;
                        m5 = ctr32_put m4 ivec (ctr32 + 1)
                    in (xor_bytes n1 len2 m5 out2 inp2 ecount, n1 + len2)))"

section \<open>\<open>cfb.c\<close> and \<open>ofb.c\<close>\<close>

definition cfb_enc_byte :: "nat \<Rightarrow> ram \<Rightarrow> nat \<Rightarrow> nat \<Rightarrow> nat \<Rightarrow> ram" where
  "cfb_enc_byte ivec m inp out n =
     (let c = m (ivec + n) XOR m inp in (m(ivec + n := c))(out := c))"

definition cfb_enc_word :: "nat \<Rightarrow> nat \<Rightarrow> nat \<Rightarrow> nat \<Rightarrow> ram \<Rightarrow> ram" where
  "cfb_enc_word ivec inp out n m =
     (let tmp = load_word_le m (ivec + n) XOR load_word_le m (inp + n)
      in store_word_le (store_word_le m (ivec + n) tmp) (out + n) tmp)"

definition cfb_enc_block :: "(byte list \<Rightarrow> byte list) \<Rightarrow> nat \<Rightarrow> ram \<Rightarrow> nat \<Rightarrow> nat \<Rightarrow> ram" where
  "cfb_enc_block E ivec m inp out =
     cfb_enc_word ivec inp out 8 (cfb_enc_word ivec inp out 0 (block128 E m ivec ivec))"

fun cfb_enc_bytes :: "nat \<Rightarrow> ram \<Rightarrow> nat \<Rightarrow> nat \<Rightarrow> nat \<Rightarrow> nat \<Rightarrow> ram" where
  "cfb_enc_bytes ivec m inp out 0 n = m"
| "cfb_enc_bytes ivec m inp out (Suc k) n =
     (let c = m (ivec + n) XOR m (inp + n)
      in cfb_enc_bytes ivec ((m(ivec + n := c))(out + n := c)) inp out k (n + 1))"

definition cfb_dec_byte :: "nat \<Rightarrow> ram \<Rightarrow> nat \<Rightarrow> nat \<Rightarrow> nat \<Rightarrow> ram" where
  "cfb_dec_byte ivec m inp out n =
     (let c = m inp in (m(out := m (ivec + n) XOR c))(ivec + n := c))"

definition cfb_dec_word :: "nat \<Rightarrow> nat \<Rightarrow> nat \<Rightarrow> nat \<Rightarrow> ram \<Rightarrow> ram" where
  "cfb_dec_word ivec inp out n m =
     (let t = load_word_le m (inp + n)
      in store_word_le (store_word_le m (out + n) (load_word_le m (ivec + n) XOR t)) (ivec + n) t)"

definition cfb_dec_block :: "(byte list \<Rightarrow> byte list) \<Rightarrow> nat \<Rightarrow> ram \<Rightarrow> nat \<Rightarrow> nat \<Rightarrow> ram" where
  "cfb_dec_block E ivec m inp out =
     cfb_dec_word ivec inp out 8 (cfb_dec_word ivec inp out 0 (block128 E m ivec ivec))"

fun cfb_dec_bytes :: "nat \<Rightarrow> ram \<Rightarrow> nat \<Rightarrow> nat \<Rightarrow> nat \<Rightarrow> nat \<Rightarrow> ram" where
  "cfb_dec_bytes ivec m inp out 0 n = m"
| "cfb_dec_bytes ivec m inp out (Suc k) n =
     (let c = m (inp + n)
      in cfb_dec_bytes ivec ((m(out + n := m (ivec + n) XOR c))(ivec + n := c)) inp out k (n + 1))"

definition CRYPTO_cfb128_encrypt ::
  "(byte list \<Rightarrow> byte list) \<Rightarrow> ram \<Rightarrow> nat \<Rightarrow> nat \<Rightarrow> nat \<Rightarrow> nat \<Rightarrow> nat \<Rightarrow> bool \<Rightarrow> ram \<times> nat" where
  "CRYPTO_cfb128_encrypt block m inp out len ivec num enc =
     (if enc
      then stream_mode (cfb_enc_byte ivec) (cfb_enc_block block ivec)
             (\<lambda>m inp out len n. cfb_enc_bytes ivec (block128 block m ivec ivec) inp out len n) m inp out len num
      else stream_mode (cfb_dec_byte ivec) (cfb_dec_block block ivec)
             (\<lambda>m inp out len n. cfb_dec_bytes ivec (block128 block m ivec ivec) inp out len n) m inp out len num)"

definition CRYPTO_ofb128_encrypt ::
  "(byte list \<Rightarrow> byte list) \<Rightarrow> ram \<Rightarrow> nat \<Rightarrow> nat \<Rightarrow> nat \<Rightarrow> nat \<Rightarrow> nat \<Rightarrow> ram \<times> nat" where
  "CRYPTO_ofb128_encrypt block m inp out len ivec num =
     stream_mode (ctr_byte ivec) (\<lambda>m inp out. xor_words (block128 block m ivec ivec) out inp ivec)
       (\<lambda>m inp out len n. xor_bytes n len (block128 block m ivec ivec) out inp ivec) m inp out len num"

text \<open>
  \<open>cfbr_encrypt_block\<close> on \<open>nbits\<close> bits, with the bytes at \<open>in\<close> and in \<open>ivec\<close>: the bytes for \<open>out\<close> and the
  new vector. \<open>ovec\<close> is the old vector followed by the ciphertext; \<open>stale\<close> is what its 17 bytes behind the
  vector hold before.
\<close>

definition cfbr_encrypt_block ::
  "byte list \<Rightarrow> (byte list \<Rightarrow> byte list) \<Rightarrow> byte list \<Rightarrow> nat \<Rightarrow> byte list \<Rightarrow> bool \<Rightarrow> (byte list \<times> byte list) option" where
  "cfbr_encrypt_block stale block src nbits ivec enc =
     (if nbits = 0 \<or> nbits > 128 then None
      else let num = (nbits + 7) div 8;
               res = xorl (take num src) (block ivec);
               ovec = ivec @ (if enc then res else take num src) @ drop num stale;
               r = nbits mod 8; k = nbits div 8
           in Some (res,
                if r = 0 then take 16 (drop k ovec)
                else map (\<lambda>n. push_bit r (ovec ! (n + k)) OR drop_bit (8 - r) (ovec ! (n + k + 1))) [0..<16]))"

fun cfb1_loop ::
  "byte list \<Rightarrow> (byte list \<Rightarrow> byte list) \<Rightarrow> ram \<Rightarrow> nat \<Rightarrow> nat \<Rightarrow> nat \<Rightarrow> nat \<Rightarrow> nat \<Rightarrow> bool \<Rightarrow> ram" where
  "cfb1_loop stale block m inp out n 0 ivec enc = m"
| "cfb1_loop stale block m inp out n (Suc k) ivec enc =
     (let c = (if m (inp + n div 8) AND push_bit (7 - n mod 8) 1 \<noteq> 0 then 0x80 else 0)
      in case cfbr_encrypt_block stale block [c] 1 (rd m ivec 16) enc of
           None \<Rightarrow> m
         | Some (d, iv) \<Rightarrow>
             (let m1 = wr m ivec iv; dst = out + n div 8
              in cfb1_loop stale block
                   (m1(dst := (m1 dst AND NOT (push_bit (7 - n mod 8) 1)) OR drop_bit (n mod 8) (d ! 0 AND 0x80)))
                   inp out (n + 1) k ivec enc))"

definition CRYPTO_cfb128_1_encrypt ::
  "byte list \<Rightarrow> (byte list \<Rightarrow> byte list) \<Rightarrow> ram \<Rightarrow> nat \<Rightarrow> nat \<Rightarrow> nat \<Rightarrow> nat \<Rightarrow> bool \<Rightarrow> ram" where
  "CRYPTO_cfb128_1_encrypt stale block m inp out bits ivec enc = cfb1_loop stale block m inp out 0 bits ivec enc"

fun cfb8_loop ::
  "byte list \<Rightarrow> (byte list \<Rightarrow> byte list) \<Rightarrow> ram \<Rightarrow> nat \<Rightarrow> nat \<Rightarrow> nat \<Rightarrow> nat \<Rightarrow> nat \<Rightarrow> bool \<Rightarrow> ram" where
  "cfb8_loop stale block m inp out n 0 ivec enc = m"
| "cfb8_loop stale block m inp out n (Suc k) ivec enc =
     (case cfbr_encrypt_block stale block [m (inp + n)] 8 (rd m ivec 16) enc of
        None \<Rightarrow> m
      | Some (res, iv) \<Rightarrow>
          cfb8_loop stale block (wr (wr m (out + n) res) ivec iv) inp out (n + 1) k ivec enc)"

definition CRYPTO_cfb128_8_encrypt ::
  "byte list \<Rightarrow> (byte list \<Rightarrow> byte list) \<Rightarrow> ram \<Rightarrow> nat \<Rightarrow> nat \<Rightarrow> nat \<Rightarrow> nat \<Rightarrow> bool \<Rightarrow> ram" where
  "CRYPTO_cfb128_8_encrypt stale block m inp out len ivec enc = cfb8_loop stale block m inp out 0 len ivec enc"

declare block_loop.simps [simp del] ctr32_blocks.simps [simp del]

subsection \<open>The counter as a number\<close>

primrec be :: "nat \<Rightarrow> nat \<Rightarrow> byte list" where
  "be 0 v = []"
| "be (Suc n) v = be n (v div 256) @ [word_of_nat v]"

definition be_val :: "byte list \<Rightarrow> nat" where
  "be_val bs = foldl (\<lambda>v b. 256 * v + unat b) 0 bs"

lemma length_be [simp]: "length (be n v) = n"
  by (induction n arbitrary: v) simp_all

lemma be_val_snoc [simp]: "be_val [] = 0" "be_val (bs @ [b]) = 256 * be_val bs + unat b"
  by (simp_all add: be_val_def)

lemma byte_of_nat_unat: "word_of_nat (256 * v + unat b) = (b :: byte)"
proof -
  have "unat (word_of_nat (256 * v + unat b) :: byte) = unat b"
    using unsigned_less [of b, where 'a = nat] by (simp only: unat_of_nat) simp
  then show ?thesis by (simp only: word_unat_eq_iff)
qed

lemma be_be_val [simp]: "length bs = n \<Longrightarrow> be n (be_val bs) = bs"
proof (induction n arbitrary: bs)
  case (Suc n)
  then obtain bs' b where bs: "bs = bs' @ [b]" "length bs' = n" by (cases bs rule: rev_cases) auto
  have "(256 * be_val bs' + unat b) div 256 = be_val bs'" using unsigned_less [of b, where 'a = nat] by simp
  then show ?case using Suc.IH [OF bs(2)] by (simp only: bs(1) be.simps be_val_snoc byte_of_nat_unat)
qed simp

lemma be_val_be: "be_val (be n v) = v mod 256 ^ n"
proof (induction n arbitrary: v)
  case (Suc n)
  have "v mod (256 * 256 ^ n) = 256 * (v div 256 mod 256 ^ n) + v mod 256" by (rule mod_mult2_eq)
  then show ?case using Suc by (simp add: unat_of_nat)
qed simp

lemma be_mod: "v mod 256 ^ n = w mod 256 ^ n \<Longrightarrow> be n v = be n w"
  by (metis be_be_val be_val_be length_be)

lemma be_add: "be (k + n) v = be k (v div 256 ^ n) @ be n v"
proof (induction n arbitrary: v)
  case (Suc n)
  have "v div 256 div 256 ^ n = v div 256 ^ Suc n" by (simp add: div_mult2_eq)
  then show ?case using Suc by simp
qed simp

lemma ctr_inc_loop_be:
  "unat c < 2 ^ 24 \<Longrightarrow> ctr_inc_loop n c m a = wr m a (be n (be_val (rd m a n) + unat c))"
proof (induction n arbitrary: c m)
  case (Suc n)
  let ?b = "m (a + n)" and ?v = "be_val (rd m a n)"
  let ?c1 = "c + ucast ?b"
  have b: "unat ?b < 256" using unsigned_less [of ?b, where 'a = nat] by simp
  have u: "unat (ucast ?b :: 32 word) = unat ?b" by (rule unat_ucast_byte) simp
  then have c1: "unat ?c1 = unat c + unat ?b" using Suc.prems b by (subst unat_add_lem [THEN iffD1]) simp_all
  have dd: "unat (drop_bit 8 ?c1) = (unat c + unat ?b) div 256"
    unfolding unat_drop_bit_eq c1 by (simp add: drop_bit_eq_div)
  have "(unat c + unat ?b) div 256 < 2 ^ 24" using Suc.prems b by simp
  then have d: "unat (drop_bit 8 ?c1) < 2 ^ 24" unfolding dd .
  let ?m1 = "m(a + n := ucast ?c1)"
  have r: "rd ?m1 a n = rd m a n" by (rule rd_cong) simp
  have "unat (ucast ?c1 :: byte) = (unat c + unat ?b) mod 256"
    by (simp only: unsigned_ucast_eq c1 take_bit_eq_mod) simp
  moreover have "(256 * ?v + unat ?b + unat c) mod 256 = (unat c + unat ?b) mod 256"
    using mod_mult_self4 [of 256 ?v "unat c + unat ?b"] by (simp only: ac_simps)
  ultimately have x: "(ucast ?c1 :: byte) = word_of_nat (256 * ?v + unat ?b + unat c)"
    by (simp only: word_unat_eq_iff unat_of_nat) simp
  have q: "(256 * ?v + unat ?b + unat c) div 256 = ?v + (unat c + unat ?b) div 256"
    using div_mult_self4 [of 256 ?v "unat c + unat ?b"] by (simp only: ac_simps)
  have m1: "?m1 = wr m (a + n) [ucast ?c1]" by (auto simp: wr_def fun_eq_iff)
  have "ctr_inc_loop (Suc n) c m a = wr ?m1 a (be n (?v + (unat c + unat ?b) div 256))"
    using Suc.IH [OF d, of ?m1] unfolding r dd by (simp only: ctr_inc_loop.simps Let_def)
  also have "\<dots> = wr m a (be n (?v + (unat c + unat ?b) div 256) @ [ucast ?c1])"
    using wr_swap [of "a + n" "[ucast ?c1]" a "be n (?v + (unat c + unat ?b) div 256)" m]
      wr_append [of m a "be n (?v + (unat c + unat ?b) div 256)" "[ucast ?c1]"] by (simp add: m1)
  finally show ?case using rd_append [of m a n 1] by (simp add: rd_Suc x q)
qed simp

text \<open>The next counter.\<close>

definition be_succ :: "byte list \<Rightarrow> byte list" where
  "be_succ bs = be (length bs) (be_val bs + 1)"

lemma length_be_succ [simp]: "length (be_succ bs) = length bs"
  by (simp add: be_succ_def)

lemma ctr128_inc_wr: "ctr128_inc m a = wr m a (be_succ (rd m a 16))"
  using ctr_inc_loop_be [of 1 16 m a] by (simp add: ctr128_inc_def be_succ_def)

lemma ctr96_inc_wr: "ctr96_inc m a = wr m a (be_succ (rd m a 12))"
  using ctr_inc_loop_be [of 1 12 m a] by (simp add: ctr96_inc_def be_succ_def)

section \<open>Stream modes\<close>

text \<open>
  A mode that works byte by byte: a step takes a state and a byte of the input to a state and a byte of
  the output.
\<close>

fun run_bytes :: "('s \<Rightarrow> byte \<Rightarrow> 's \<times> byte) \<Rightarrow> 's \<Rightarrow> byte list \<Rightarrow> 's \<times> byte list" where
  "run_bytes step s [] = (s, [])"
| "run_bytes step s (b # bs) =
     (case step s b of (s1, c) \<Rightarrow> case run_bytes step s1 bs of (s2, cs) \<Rightarrow> (s2, c # cs))"

lemma run_bytes_append:
  "run_bytes step s (as @ bs) =
     (case run_bytes step s as of (s1, cs) \<Rightarrow> case run_bytes step s1 bs of (s2, ds) \<Rightarrow> (s2, cs @ ds))"
  by (induction as arbitrary: s) (simp_all split: prod.splits)

lemma length_run_bytes [simp]: "length (snd (run_bytes step s bs)) = length bs"
  by (induction bs arbitrary: s) (simp_all split: prod.splits, metis snd_conv)

text \<open>CTR: the counter, the encrypted counter, and how much of it is used.\<close>

definition ctr_step ::
  "(byte list \<Rightarrow> byte list) \<Rightarrow> byte list \<times> byte list \<times> nat \<Rightarrow> byte \<Rightarrow> (byte list \<times> byte list \<times> nat) \<times> byte" where
  "ctr_step E s b =
     (case s of (iv, ec, n) \<Rightarrow>
        let (iv1, ec1) = (if n = 0 then (be_succ iv, E iv) else (iv, ec))
        in ((iv1, ec1, (n + 1) mod 16), b XOR ec1 ! n))"

lemma run_ctr_part:
  assumes "length ec = 16"
  shows "0 < n \<Longrightarrow> n < 16 \<Longrightarrow> n + length bs \<le> 16 \<Longrightarrow>
    run_bytes (ctr_step E) (iv, ec, n) bs = ((iv, ec, (n + length bs) mod 16), xorl bs (drop n ec))"
proof (induction bs arbitrary: n)
  case (Cons b bs)
  have d: "drop n ec = ec ! n # drop (Suc n) ec" using Cons.prems assms by (simp add: Cons_nth_drop_Suc)
  show ?case
  proof (cases "Suc n < 16")
    case True
    then show ?thesis using Cons.IH [of "Suc n"] Cons.prems by (simp add: ctr_step_def d xorl_def)
  next
    case False
    then have "Suc n = 16" "length bs = 0" using Cons.prems(3) unfolding list.size by linarith+
    moreover from this have "drop n ec = [ec ! n]" using d assms by simp
    ultimately show ?thesis by (simp add: ctr_step_def d xorl_def)
  qed
qed (simp add: xorl_def)

lemma run_ctr_block:
  assumes "length (E iv) = 16" "0 < length bs" "length bs \<le> 16"
  shows "run_bytes (ctr_step E) (iv, ec, 0) bs = ((be_succ iv, E iv, length bs mod 16), xorl bs (E iv))"
proof -
  obtain b bs' where bs: "bs = b # bs'" using assms(2) by (cases bs) auto
  have d: "E iv = E iv ! 0 # drop 1 (E iv)" using assms(1) by (simp add: Cons_nth_drop_Suc)
  have "run_bytes (ctr_step E) (be_succ iv, E iv, 1) bs' = ((be_succ iv, E iv, (1 + length bs') mod 16), xorl bs' (drop 1 (E iv)))"
    using assms by (intro run_ctr_part) (simp_all add: bs)
  moreover have "xorl bs (E iv) = (b XOR E iv ! 0) # xorl bs' (drop 1 (E iv))"
    unfolding bs xorl_def by (subst d) simp
  ultimately show ?thesis by (simp add: bs ctr_step_def)
qed

section \<open>The code of a stream mode\<close>

text \<open>
  What the three parts of a mode owe \<open>stream_mode\<close>: from memory in which the mode's state is \<open>view m n\<close>,
  each of them treats some bytes the way \<open>step\<close> does, and stores to the output and the mode's own
  \<open>space\<close> only. \<open>lay inp out len\<close> says for which buffers.
\<close>

definition treats ::
  "('s \<Rightarrow> byte \<Rightarrow> 's \<times> byte) \<Rightarrow> (ram \<Rightarrow> nat \<Rightarrow> 's) \<Rightarrow> nat set \<Rightarrow> ram \<Rightarrow> nat \<Rightarrow> nat \<Rightarrow> nat \<Rightarrow> nat \<Rightarrow> ram \<Rightarrow> nat \<Rightarrow> bool" where
  "treats step view space m n inp out len m' n' \<longleftrightarrow>
     run_bytes step (view m n) (rd m inp len) = (view m' n', rd m' out len) \<and>
     (\<forall>x. x \<notin> {out..<out + len} \<union> space \<longrightarrow> m' x = m x)"

locale stream_code =
  fixes step :: "'s \<Rightarrow> byte \<Rightarrow> 's \<times> byte"
    and view :: "ram \<Rightarrow> nat \<Rightarrow> 's"
    and space :: "nat set"
    and lay :: "nat \<Rightarrow> nat \<Rightarrow> nat \<Rightarrow> bool"
    and byte_code :: "ram \<Rightarrow> nat \<Rightarrow> nat \<Rightarrow> nat \<Rightarrow> ram"
    and block_code :: "ram \<Rightarrow> nat \<Rightarrow> nat \<Rightarrow> ram"
    and tail_code :: "ram \<Rightarrow> nat \<Rightarrow> nat \<Rightarrow> nat \<Rightarrow> nat \<Rightarrow> ram"
  assumes lay_apart: "lay inp out len \<Longrightarrow> fwd out inp len \<and> space \<inter> ({out..<out + len} \<union> {inp..<inp + len}) = {}"
    and lay_split: "lay inp out (j + k) \<Longrightarrow> lay inp out j \<and> lay (inp + j) (out + j) k"
    and byte_treats: "lay inp out 1 \<Longrightarrow> 0 < n \<Longrightarrow> n < 16 \<Longrightarrow>
      treats step view space m n inp out 1 (byte_code m inp out n) ((n + 1) mod 16)"
    and block_treats: "lay inp out 16 \<Longrightarrow> treats step view space m 0 inp out 16 (block_code m inp out) 0"
    and tail_treats: "lay inp out k \<Longrightarrow> 0 < k \<Longrightarrow> k < 16 \<Longrightarrow>
      treats step view space m 0 inp out k (tail_code m inp out k 0) k"
begin

lemma treats_nothing: "treats step view space m n inp out 0 m n"
  by (simp add: treats_def)

lemma treats_seq:
  assumes "lay inp out (j + k)"
    and 1: "treats step view space m n inp out j m1 n1"
    and 2: "treats step view space m1 n1 (inp + j) (out + j) k m2 n2"
  shows "treats step view space m n inp out (j + k) m2 n2"
proof -
  have ap: "fwd out inp (j + k)" "space \<inter> ({out..<out + (j + k)} \<union> {inp..<inp + (j + k)}) = {}"
    using lay_apart [OF assms(1)] by auto
  have u1: "m1 x = m x" if "x \<notin> {out..<out + j} \<union> space" for x using 1 that by (simp add: treats_def)
  have u2: "m2 x = m1 x" if "x \<notin> {out + j..<out + j + k} \<union> space" for x using 2 that by (simp add: treats_def)
  have r1: "rd m1 (inp + j) k = rd m (inp + j) k"
    by (rule rd_cong, rule u1) (use ap in \<open>auto simp: fwd_def\<close>)
  have r2: "rd m2 out j = rd m1 out j"
    by (rule rd_cong, rule u2) (use ap in auto)
  have "m2 x = m x" if "x \<notin> {out..<out + (j + k)} \<union> space" for x
    using u1 [of x] u2 [of x] that by auto
  then show ?thesis
    using 1 2 r1 r2 by (simp add: treats_def rd_append run_bytes_append)
qed

lemma rest_loop_treats:
  assumes "lay inp out len" "n < 16"
  shows "\<exists>m' k n'. rest_loop byte_code m inp out len n = (m', inp + k, out + k, len - k, n') \<and> k \<le> len \<and> n' < 16 \<and>
    (n' = 0 \<or> k = len) \<and> treats step view space m n inp out k m' n'"
  using assms
proof (induction len arbitrary: m inp out n)
  case 0
  then show ?case using treats_nothing by (intro exI [of _ m] exI [of _ 0] exI [of _ n]) simp
next
  case (Suc len)
  show ?case
  proof (cases "n = 0")
    case True
    then show ?thesis using treats_nothing by (intro exI [of _ m] exI [of _ 0] exI [of _ n]) simp
  next
    case False
    let ?m = "byte_code m inp out n"
    have l: "lay inp out 1" "lay (inp + 1) (out + 1) len" using lay_split [of inp out 1 len] Suc.prems(1) by auto
    have b: "treats step view space m n inp out 1 ?m ((n + 1) mod 16)"
      using byte_treats [OF l(1)] False Suc.prems(2) by simp
    obtain m' k n' where ih: "rest_loop byte_code ?m (inp + 1) (out + 1) len ((n + 1) mod 16) = (m', inp + 1 + k, out + 1 + k, len - k, n')"
      "k \<le> len" "n' < 16" "n' = 0 \<or> k = len" "treats step view space ?m ((n + 1) mod 16) (inp + 1) (out + 1) k m' n'"
      using Suc.IH [OF l(2), of "(n + 1) mod 16" ?m] by auto
    have "lay inp out (1 + k)"
      using lay_split [of inp out "1 + k" "len - k"] Suc.prems(1) ih(2) by simp
    from treats_seq [OF this b ih(5)] ih False show ?thesis
      by (intro exI [of _ m'] exI [of _ "1 + k"] exI [of _ n']) auto
  qed
qed

lemma block_loop_treats:
  assumes "r < 16"
  shows "lay inp out (16 * q + r) \<Longrightarrow> \<exists>m'. block_loop block_code m inp out (16 * q + r) n =
      (m', inp + 16 * q, out + 16 * q, r, if q = 0 then n else 0) \<and>
    (q = 0 \<and> m' = m \<or> n = 0 \<longrightarrow> treats step view space m n inp out (16 * q) m' (if q = 0 then n else 0))"
proof (induction q arbitrary: m inp out n)
  case 0
  then show ?case using assms treats_nothing by (simp add: block_loop.simps)
next
  case (Suc q)
  let ?m = "block_code m inp out"
  have l: "lay inp out (16 + (16 * q + r))" using Suc.prems by (simp add: add.assoc)
  have l2: "lay inp out 16" "lay (inp + 16) (out + 16) (16 * q + r)" using lay_split [OF l] by auto
  obtain m' where ih: "block_loop block_code ?m (inp + 16) (out + 16) (16 * q + r) 0 =
      (m', inp + 16 + 16 * q, out + 16 + 16 * q, r, 0)"
    "treats step view space ?m 0 (inp + 16) (out + 16) (16 * q) m' 0"
    using Suc.IH [OF l2(2), of ?m 0] by auto
  have "lay inp out (16 + 16 * q)" using lay_split [of inp out "16 + 16 * q" r] l by (simp add: add.assoc)
  from treats_seq [OF this block_treats [OF l2(1)] ih(2)] ih(1) show ?case
    by (intro exI [of _ m']) (simp add: block_loop.simps [of block_code m] add.assoc)
qed

theorem stream_mode_treats:
  assumes "lay inp out len" "n < 16"
  shows "case stream_mode byte_code block_code tail_code m inp out len n of
    (m', n') \<Rightarrow> treats step view space m n inp out len m' n' \<and> n' < 16"
proof -
  obtain m1 k n1 where r: "rest_loop byte_code m inp out len n = (m1, inp + k, out + k, len - k, n1)" "k \<le> len" "n1 < 16"
    "n1 = 0 \<or> k = len" "treats step view space m n inp out k m1 n1"
    using rest_loop_treats [OF assms] by blast
  let ?q = "(len - k) div 16" and ?r = "(len - k) mod 16"
  have e: "len - k = 16 * ?q + ?r" "?r < 16" by simp_all
  have "lay inp out (k + (len - k))" using assms(1) r(2) by simp
  then have l: "lay inp out k" "lay (inp + k) (out + k) (16 * ?q + ?r)" using lay_split [of inp out k "len - k"] by auto
  obtain m2 where b: "block_loop block_code m1 (inp + k) (out + k) (16 * ?q + ?r) n1 =
      (m2, inp + k + 16 * ?q, out + k + 16 * ?q, ?r, if ?q = 0 then n1 else 0)"
    "?q = 0 \<and> m2 = m1 \<or> n1 = 0 \<longrightarrow> treats step view space m1 n1 (inp + k) (out + k) (16 * ?q) m2 (if ?q = 0 then n1 else 0)"
    using block_loop_treats [OF e(2) l(2), of m1 n1] by blast
  have b1: "block_loop block_code m1 (inp + k) (out + k) (len - k) n1 =
      (m2, inp + k + 16 * ?q, out + k + 16 * ?q, ?r, if ?q = 0 then n1 else 0)"
    using b(1) by simp
  let ?n2 = "if ?q = 0 then n1 else 0"
  have "?q = 0 \<and> m2 = m1 \<or> n1 = 0"
  proof (cases "n1 = 0")
    case False
    then have "len - k = 0" using r(4) by simp
    then show ?thesis using b(1) by (simp add: block_loop.simps)
  qed simp
  then have t2: "treats step view space m1 n1 (inp + k) (out + k) (16 * ?q) m2 ?n2" using b(2) by simp
  have "lay inp out (k + 16 * ?q)" using lay_split [of inp out "k + 16 * ?q" ?r] assms(1) r(2) by simp
  from treats_seq [OF this r(5) t2] have t: "treats step view space m n inp out (k + 16 * ?q) m2 ?n2" .
  show ?thesis
  proof (cases "?r = 0")
    case True
    then have "k + 16 * ?q = len" using e(1) r(2) by linarith
    then show ?thesis using r(1,3) b1 t True by (simp add: stream_mode_def)
  next
    case False
    then have z: "?n2 = 0" "n1 = 0" using r(4) by auto
    have len: "len = k + 16 * ?q + ?r" using r(2) by simp
    then have l3: "lay inp out (k + 16 * ?q + ?r)" using assms(1) by simp
    then have l4: "lay (inp + (k + 16 * ?q)) (out + (k + 16 * ?q)) ?r" using lay_split by blast
    have t3: "treats step view space m2 ?n2 (inp + (k + 16 * ?q)) (out + (k + 16 * ?q)) ?r
        (tail_code m2 (inp + (k + 16 * ?q)) (out + (k + 16 * ?q)) ?r 0) ?r"
      unfolding z(1) by (rule tail_treats [OF l4]) (use False in simp_all)
    have tt: "treats step view space m n inp out len (tail_code m2 (inp + k + 16 * ?q) (out + k + 16 * ?q) ?r 0) ?r"
      using treats_seq [OF l3 t t3] len by (simp add: add.assoc)
    have "stream_mode byte_code block_code tail_code m inp out len n =
        (tail_code m2 (inp + k + 16 * ?q) (out + k + 16 * ?q) ?r 0, ?r)"
      using r(1) b1 False z by (simp add: stream_mode_def)
    then show ?thesis using tt e(2) by simp
  qed
qed

end

subsection \<open>CTR\<close>

definition apart :: "nat \<Rightarrow> nat \<Rightarrow> nat \<Rightarrow> nat \<Rightarrow> bool" where
  "apart a n b k \<longleftrightarrow> a + n \<le> b \<or> b + k \<le> a"

lemma xorl_take: "length as = k \<Longrightarrow> xorl as (take k bs) = xorl as bs"
  by (rule nth_equalityI) auto

lemma rd_apart: "apart a n b (length bs) \<Longrightarrow> rd (wr m b bs) a n = rd m a n"
  by (rule rd_wr_other) (auto simp: apart_def)

lemma apart_sym: "apart a n b k \<longleftrightarrow> apart b k a n"
  by (auto simp: apart_def)

lemma apart_fwd: "apart a n b k \<Longrightarrow> n \<le> i \<Longrightarrow> i \<le> n \<Longrightarrow> fwd b a i"
  by (auto simp: apart_def fwd_def)

definition ctr_view :: "nat \<Rightarrow> nat \<Rightarrow> ram \<Rightarrow> nat \<Rightarrow> byte list \<times> byte list \<times> nat" where
  "ctr_view ivec ecount m n = (rd m ivec 16, rd m ecount 16, n)"

definition ctr_lay :: "(byte list \<Rightarrow> byte list) \<Rightarrow> nat \<Rightarrow> nat \<Rightarrow> nat \<Rightarrow> nat \<Rightarrow> nat \<Rightarrow> bool" where
  "ctr_lay E ivec ecount inp out len \<longleftrightarrow> cipher16 E \<and> fwd out inp len \<and> apart ivec 16 ecount 16 \<and>
     apart ivec 16 out len \<and> apart ivec 16 inp len \<and> apart ecount 16 out len \<and> apart ecount 16 inp len"

lemma ctr_pad_wr:
  fixes m :: ram
  assumes "ctr_lay E ivec ecount inp out k" "0 < k" "k \<le> 16"
  defines "m2 \<equiv> ctr128_inc (block128 E m ivec ecount) ivec"
  shows "treats (ctr_step E) (ctr_view ivec ecount) ({ivec..<ivec + 16} \<union> {ecount..<ecount + 16}) m 0 inp out k
    (wr m2 out (xorl (rd m2 inp k) (rd m2 ecount k))) (k mod 16)"
proof -
  let ?iv = "rd m ivec 16"
  have lay: "cipher16 E" "apart ivec 16 ecount 16" "apart ivec 16 out k" "apart ivec 16 inp k" "apart ecount 16 out k"
    "apart ecount 16 inp k" using assms(1) by (simp_all add: ctr_lay_def)
  have E: "length (E ?iv) = 16" by (rule cipher16_length [OF lay(1)]) simp
  have m2: "m2 = wr (wr m ecount (E ?iv)) ivec (be_succ ?iv)"
    using rd_apart [of ivec 16 ecount "E ?iv" m] lay(2) E by (simp add: m2_def block128_def ctr128_inc_wr)
  have r: "rd m2 ivec 16 = be_succ ?iv" "rd m2 ecount 16 = E ?iv" "rd m2 inp k = rd m inp k"
    using lay E by (simp_all add: m2 rd_apart apart_sym [of ecount 16 ivec] apart_sym [of inp])
  have ek: "rd m2 ecount k = take k (E ?iv)"
    using rd_append [of m2 ecount k "16 - k"] r(2) assms(3) by (metis append_eq_conv_conj le_add_diff_inverse length_rd)
  let ?x = "xorl (rd m inp k) (E ?iv)" and ?m3 = "wr m2 out (xorl (rd m2 inp k) (rd m2 ecount k))"
  have x: "xorl (rd m2 inp k) (rd m2 ecount k) = ?x" "length ?x = k"
    using assms(3) E by (simp_all add: r ek xorl_take)
  have v: "rd ?m3 ivec 16 = be_succ ?iv" "rd ?m3 ecount 16 = E ?iv" "rd ?m3 out k = ?x"
    using lay x r by (simp_all add: rd_apart)
  have "?m3 y = m y" if "y \<notin> {out..<out + k} \<union> ({ivec..<ivec + 16} \<union> {ecount..<ecount + 16})" for y
  proof -
    have "y < out \<or> out + length (xorl (rd m2 inp k) (rd m2 ecount k)) \<le> y" "y < ivec \<or> ivec + length (be_succ ?iv) \<le> y"
      "y < ecount \<or> ecount + length (E ?iv) \<le> y" using that x E by auto
    then have "?m3 y = m2 y" "m2 y = m y" unfolding m2 by (simp_all only: wr_out)
    then show ?thesis by simp
  qed
  then show ?thesis
    using run_ctr_block [of E ?iv "rd m inp k" "rd m ecount 16"] E assms(2,3) v
    by (simp add: treats_def ctr_view_def)
qed

interpretation ctr: stream_code "ctr_step E" "ctr_view ivec ecount" "{ivec..<ivec + 16} \<union> {ecount..<ecount + 16}"
  "ctr_lay E ivec ecount" "ctr_byte ecount" "ctr_block E ivec ecount" "ctr_tail E ivec ecount" for E ivec ecount
proof (unfold_locales, goal_cases)
  case (1 inp out len)
  then show ?case by (auto simp: ctr_lay_def apart_def)
next
  case (2 inp out j k)
  then show ?case by (auto simp: ctr_lay_def apart_def fwd_def)
next
  case (3 inp out n m)
  let ?m = "ctr_byte ecount m inp out n"
  have m: "?m = wr m out [m inp XOR m (ecount + n)]" by (auto simp: ctr_byte_def wr_def fun_eq_iff)
  have "rd ?m ivec 16 = rd m ivec 16" "rd ?m ecount 16 = rd m ecount 16"
    using 3(1) unfolding m by (auto simp: ctr_lay_def intro!: rd_apart)
  moreover have "rd ?m out 1 = [m inp XOR m (ecount + n)]" unfolding m by simp
  moreover have "?m y = m y" if "y \<notin> {out..<out + 1}" for y using that unfolding m by (auto simp: wr_def)
  ultimately show ?case using 3(2,3)
    by (simp add: treats_def ctr_view_def ctr_step_def rd_Suc)
next
  case (4 inp out m)
  let ?m2 = "ctr128_inc (block128 E m ivec ecount) ivec"
  have "fwd out inp 16" "fwd out ecount 16" using 4 by (auto simp: ctr_lay_def apart_def fwd_def)
  then have "ctr_block E ivec ecount m inp out = wr ?m2 out (xorl (rd ?m2 inp 16) (rd ?m2 ecount 16))"
    by (simp add: ctr_block_def Let_def xor_words_wr)
  then show ?case using ctr_pad_wr [OF 4, of m] by simp
next
  case (5 inp out k m)
  let ?m2 = "ctr128_inc (block128 E m ivec ecount) ivec"
  have "fwd out inp k" "fwd out ecount k" using 5 by (auto simp: ctr_lay_def apart_def fwd_def)
  then have "ctr_tail E ivec ecount m inp out k 0 = wr ?m2 out (xorl (rd ?m2 inp k) (rd ?m2 ecount k))"
    using xor_bytes_wr [of out inp 0 k ecount ?m2] by (simp add: ctr_tail_def Let_def)
  then show ?case using ctr_pad_wr [OF 5(1,2), of m] 5(3) by simp
qed

lemmas ctr_treats = ctr.stream_mode_treats [folded CRYPTO_ctr128_encrypt_def]

subsection \<open>CFB\<close>

definition cfb_step ::
  "bool \<Rightarrow> (byte list \<Rightarrow> byte list) \<Rightarrow> byte list \<times> nat \<Rightarrow> byte \<Rightarrow> (byte list \<times> nat) \<times> byte" where
  "cfb_step enc E s b =
     (case s of (iv, n) \<Rightarrow>
        let iv1 = (if n = 0 then E iv else iv); x = b XOR iv1 ! n
        in ((iv1[n := (if enc then x else b)], (n + 1) mod 16), x))"

definition iv_view :: "nat \<Rightarrow> ram \<Rightarrow> nat \<Rightarrow> byte list \<times> nat" where
  "iv_view ivec m n = (rd m ivec 16, n)"

definition iv_lay :: "(byte list \<Rightarrow> byte list) \<Rightarrow> nat \<Rightarrow> nat \<Rightarrow> nat \<Rightarrow> nat \<Rightarrow> bool" where
  "iv_lay E ivec inp out len \<longleftrightarrow> cipher16 E \<and> fwd out inp len \<and> apart ivec 16 out len \<and> apart ivec 16 inp len"

definition fed_back :: "bool \<Rightarrow> byte list \<Rightarrow> byte list \<Rightarrow> byte list" where
  "fed_back enc bs pad = (if enc then xorl bs pad else bs)"

lemma length_fed_back [simp]: "length bs \<le> length pad \<Longrightarrow> length (fed_back enc bs pad) = length bs"
  by (simp add: fed_back_def)

lemma cfb_step_0: "cfb_step enc E (iv, 0) b = (((E iv)[0 := (if enc then b XOR E iv ! 0 else b)], 1), b XOR E iv ! 0)"
  by (simp add: cfb_step_def Let_def)

lemma cfb_step_pos:
  "0 < n \<Longrightarrow> cfb_step enc E (iv, n) b = ((iv[n := (if enc then b XOR iv ! n else b)], Suc n mod 16), b XOR iv ! n)"
  by (simp add: cfb_step_def Let_def)

lemma run_cfb_part:
  "0 < n \<Longrightarrow> n < 16 \<Longrightarrow> length iv = 16 \<Longrightarrow> n + length bs \<le> 16 \<Longrightarrow>
    run_bytes (cfb_step enc E) (iv, n) bs =
      ((take n iv @ fed_back enc bs (drop n iv) @ drop (n + length bs) iv, (n + length bs) mod 16), xorl bs (drop n iv))"
proof (induction bs arbitrary: n iv)
  case Nil
  then show ?case by (simp add: xorl_def fed_back_def)
next
  case (Cons b bs)
  let ?c = "if enc then b XOR iv ! n else b"
  let ?iv = "iv[n := ?c]"
  have d: "drop n iv = iv ! n # drop (Suc n) iv" using Cons.prems by (simp add: Cons_nth_drop_Suc)
  have t: "take (Suc n) ?iv = take n iv @ [?c]" using Cons.prems by (simp add: take_Suc_conv_app_nth)
  have f: "fed_back enc (b # bs) (drop n iv) = ?c # fed_back enc bs (drop (Suc n) iv)"
    by (simp add: fed_back_def d xorl_def)
  show ?case
  proof (cases "Suc n < 16")
    case True
    have "run_bytes (cfb_step enc E) (?iv, Suc n) bs =
        ((take (Suc n) ?iv @ fed_back enc bs (drop (Suc n) ?iv) @ drop (Suc n + length bs) ?iv, (Suc n + length bs) mod 16),
         xorl bs (drop (Suc n) ?iv))"
      using Cons.IH [of "Suc n" ?iv] Cons.prems True by simp
    moreover have "xorl (b # bs) (drop n iv) = (b XOR iv ! n) # xorl bs (drop (Suc n) iv)"
      unfolding d by (simp add: xorl_def)
    ultimately show ?thesis using Cons.prems True f t by (cases enc) (simp_all add: cfb_step_pos)
  next
    case False
    then have n: "n = 15" "length bs = 0" using Cons.prems(2,4) unfolding list.size by linarith+
    then have bs: "bs = []" by simp
    have "drop n iv = [iv ! n]" using d Cons.prems(3) n(1) by simp
    then show ?thesis using f t n(1) Cons.prems(3) unfolding bs by (cases enc) (simp_all add: cfb_step_pos xorl_def fed_back_def)
  qed
qed

lemma run_cfb_block:
  assumes "length (E iv) = 16" "0 < length bs" "length bs \<le> 16"
  shows "run_bytes (cfb_step enc E) (iv, 0) bs =
    ((fed_back enc bs (E iv) @ drop (length bs) (E iv), length bs mod 16), xorl bs (E iv))"
proof -
  obtain b bs' where bs: "bs = b # bs'" using assms(2) by (cases bs) auto
  obtain e es where e: "E iv = e # es" "length es = 15" using assms(1) by (cases "E iv") auto
  let ?c = "if enc then b XOR e else b"
  have "run_bytes (cfb_step enc E) (?c # es, 1) bs' =
      ((take 1 (?c # es) @ fed_back enc bs' (drop 1 (?c # es)) @ drop (1 + length bs') (?c # es), (1 + length bs') mod 16),
       xorl bs' (drop 1 (?c # es)))"
    using assms(3) e(2) by (intro run_cfb_part) (simp_all add: bs)
  then show ?thesis using e by (cases enc) (simp_all add: bs cfb_step_0 fed_back_def xorl_def)
qed

text \<open>
  The pieces of the code, words or bytes: \<open>k\<close> bytes of the vector from offset \<open>n\<close> on. Two pieces in a row
  are one.
\<close>

definition cfb_piece :: "bool \<Rightarrow> nat \<Rightarrow> nat \<Rightarrow> nat \<Rightarrow> nat \<Rightarrow> nat \<Rightarrow> ram \<Rightarrow> ram" where
  "cfb_piece enc ivec inp out n k m =
     (let src = rd m (inp + n) k; pad = rd m (ivec + n) k
      in wr (wr m (out + n) (xorl src pad)) (ivec + n) (fed_back enc src pad))"

lemma cfb_piece_join:
  assumes lay: "iv_lay E ivec inp out L" and n: "n + j + k \<le> L" "n + j + k \<le> 16"
  shows "cfb_piece enc ivec inp out (n + j) k (cfb_piece enc ivec inp out n j m) = cfb_piece enc ivec inp out n (j + k) m"
proof -
  let ?src = "rd m (inp + n) j" and ?pad = "rd m (ivec + n) j"
  let ?src2 = "rd m (inp + n + j) k" and ?pad2 = "rd m (ivec + n + j) k"
  let ?x = "xorl ?src ?pad" and ?x2 = "xorl ?src2 ?pad2"
  let ?f = "fed_back enc ?src ?pad" and ?f2 = "fed_back enc ?src2 ?pad2"
  let ?m1 = "wr (wr m (out + n) ?x) (ivec + n) ?f"
  have l: "fwd out inp L" "apart ivec 16 out L" "apart ivec 16 inp L" using lay by (simp_all add: iv_lay_def)
  have 1: "rd ?m1 (inp + n + j) k = ?src2"
    using l n by (intro trans [OF rd_wr_other rd_wr_other]) (auto simp: apart_def fwd_def)
  have 2: "rd ?m1 (ivec + n + j) k = ?pad2"
    using l n by (intro trans [OF rd_wr_other rd_wr_other]) (auto simp: apart_def)
  have "cfb_piece enc ivec inp out (n + j) k ?m1 = wr (wr ?m1 (out + n + j) ?x2) (ivec + n + j) ?f2"
    using 1 2 by (simp add: cfb_piece_def Let_def add.assoc)
  also have "wr ?m1 (out + n + j) ?x2 = wr (wr (wr m (out + n) ?x) (out + n + j) ?x2) (ivec + n) ?f"
    using l(2) n by (intro wr_swap) (auto simp: apart_def)
  also have "wr (wr m (out + n) ?x) (out + n + j) ?x2 = wr m (out + n) (?x @ ?x2)"
    using wr_append [of m "out + n" ?x ?x2] by simp
  also have "wr (wr (wr m (out + n) (?x @ ?x2)) (ivec + n) ?f) (ivec + n + j) ?f2 =
      wr (wr m (out + n) (?x @ ?x2)) (ivec + n) (?f @ ?f2)"
    using wr_append [of _ "ivec + n" ?f ?f2] by simp
  also have "?x @ ?x2 = xorl (rd m (inp + n) (j + k)) (rd m (ivec + n) (j + k))"
    by (simp add: rd_append xorl_append)
  also have "?f @ ?f2 = fed_back enc (rd m (inp + n) (j + k)) (rd m (ivec + n) (j + k))"
    by (simp add: rd_append xorl_append fed_back_def)
  finally show ?thesis by (simp add: cfb_piece_def Let_def)
qed

lemma xorl_comm: "xorl as bs = xorl bs as"
  by (rule nth_equalityI) (auto simp: xor.commute)

lemma cfb_enc_word_piece:
  assumes "apart (ivec + n) 8 (out + n) 8"
  shows "cfb_enc_word ivec inp out n m = cfb_piece True ivec inp out n 8 m"
proof -
  let ?x = "xorl (rd m (inp + n) 8) (rd m (ivec + n) 8)"
  have x: "load_word_le m (ivec + n) XOR load_word_le m (inp + n) = le_load ?x"
    by (simp add: load_word_le_def le_load_xor xorl_comm)
  have "cfb_enc_word ivec inp out n m = wr (wr m (ivec + n) ?x) (out + n) ?x"
    unfolding cfb_enc_word_def x Let_def store_word_le_def by (simp add: le_store_load)
  also have "\<dots> = wr (wr m (out + n) ?x) (ivec + n) ?x" using assms by (intro wr_swap) (auto simp: apart_def)
  finally show ?thesis by (simp add: cfb_piece_def Let_def fed_back_def)
qed

lemma cfb_dec_word_piece: "cfb_dec_word ivec inp out n m = cfb_piece False ivec inp out n 8 m"
proof -
  have "load_word_le m (ivec + n) XOR load_word_le m (inp + n) = le_load (xorl (rd m (inp + n) 8) (rd m (ivec + n) 8))"
    by (simp add: load_word_le_def le_load_xor xorl_comm)
  then show ?thesis
    unfolding cfb_dec_word_def Let_def store_word_le_def
    by (simp add: le_store_load cfb_piece_def Let_def fed_back_def load_word_le_def)
qed

lemma upd_wr: "m(a := b) = wr m a [b]"
  by (auto simp: wr_def fun_eq_iff)

lemma cfb_enc_byte_piece:
  assumes "apart (ivec + n) 1 (out + n) 1"
  shows "(m(ivec + n := m (ivec + n) XOR m (inp + n)))(out + n := m (ivec + n) XOR m (inp + n)) =
    cfb_piece True ivec inp out n 1 m"
  using assms wr_swap [of "ivec + n" "[m (ivec + n) XOR m (inp + n)]" "out + n" "[m (ivec + n) XOR m (inp + n)]" m]
  by (simp add: cfb_piece_def Let_def fed_back_def rd_Suc xorl_def upd_wr apart_def Suc_le_eq xor.commute [of "m (inp + n)"])

lemma cfb_dec_byte_piece:
  "(m(out + n := m (ivec + n) XOR m (inp + n)))(ivec + n := m (inp + n)) = cfb_piece False ivec inp out n 1 m"
  by (simp add: cfb_piece_def Let_def fed_back_def rd_Suc xorl_def upd_wr xor.commute)

lemma cfb_enc_bytes_piece:
  "iv_lay E ivec inp out L \<Longrightarrow> n + k \<le> L \<Longrightarrow> n + k \<le> 16 \<Longrightarrow> cfb_enc_bytes ivec m inp out k n = cfb_piece True ivec inp out n k m"
proof (induction k arbitrary: n m)
  case 0
  then show ?case by (simp add: cfb_piece_def Let_def fed_back_def xorl_def)
next
  case (Suc k)
  have "apart (ivec + n) 1 (out + n) 1" using Suc.prems by (auto simp: iv_lay_def apart_def)
  then have "cfb_enc_bytes ivec m inp out (Suc k) n = cfb_enc_bytes ivec (cfb_piece True ivec inp out n 1 m) inp out k (n + 1)"
    by (simp add: Let_def cfb_enc_byte_piece)
  also have "\<dots> = cfb_piece True ivec inp out (n + 1) k (cfb_piece True ivec inp out n 1 m)"
    using Suc.IH [of "n + 1"] Suc.prems by simp
  also have "\<dots> = cfb_piece True ivec inp out n (1 + k) m" by (rule cfb_piece_join [OF Suc.prems(1)]) (use Suc.prems in auto)
  finally show ?case by simp
qed

lemma cfb_dec_bytes_piece:
  "iv_lay E ivec inp out L \<Longrightarrow> n + k \<le> L \<Longrightarrow> n + k \<le> 16 \<Longrightarrow> cfb_dec_bytes ivec m inp out k n = cfb_piece False ivec inp out n k m"
proof (induction k arbitrary: n m)
  case 0
  then show ?case by (simp add: cfb_piece_def Let_def fed_back_def xorl_def)
next
  case (Suc k)
  have "cfb_dec_bytes ivec m inp out (Suc k) n = cfb_dec_bytes ivec (cfb_piece False ivec inp out n 1 m) inp out k (n + 1)"
    by (simp add: Let_def cfb_dec_byte_piece)
  also have "\<dots> = cfb_piece False ivec inp out (n + 1) k (cfb_piece False ivec inp out n 1 m)"
    using Suc.IH [of "n + 1"] Suc.prems by simp
  also have "\<dots> = cfb_piece False ivec inp out n (1 + k) m" by (rule cfb_piece_join [OF Suc.prems(1)]) (use Suc.prems in auto)
  finally show ?case by simp
qed

lemma cfb_enc_block_piece:
  assumes "iv_lay E ivec inp out 16"
  shows "cfb_enc_block E ivec m inp out = cfb_piece True ivec inp out 0 16 (block128 E m ivec ivec)"
proof -
  have "apart (ivec + 0) 8 (out + 0) 8" "apart (ivec + 8) 8 (out + 8) 8" using assms by (auto simp: iv_lay_def apart_def)
  then show ?thesis using cfb_piece_join [OF assms, of 0 8 8 True] by (simp add: cfb_enc_block_def cfb_enc_word_piece)
qed

lemma cfb_dec_block_piece:
  assumes "iv_lay E ivec inp out 16"
  shows "cfb_dec_block E ivec m inp out = cfb_piece False ivec inp out 0 16 (block128 E m ivec ivec)"
  using cfb_piece_join [OF assms, of 0 8 8 False] by (simp add: cfb_dec_block_def cfb_dec_word_piece)

text \<open>One block, or what is left of the input, from a fresh vector.\<close>

lemma iv_lay_split: "iv_lay E ivec inp out (j + k) \<Longrightarrow> iv_lay E ivec inp out j \<and> iv_lay E ivec (inp + j) (out + j) k"
  by (auto simp: iv_lay_def apart_def fwd_def)

lemma rd_prefix: "k \<le> n \<Longrightarrow> rd m a k = take k (rd m a n)"
  using rd_append [of m a k "n - k"] by simp

lemma cfb_pad_treats:
  assumes lay: "iv_lay E ivec inp out k" and k: "0 < k" "k \<le> 16"
  shows "treats (cfb_step enc E) (iv_view ivec) {ivec..<ivec + 16} m 0 inp out k
    (cfb_piece enc ivec inp out 0 k (block128 E m ivec ivec)) (k mod 16)"
proof -
  let ?pad = "E (rd m ivec 16)" and ?src = "rd m inp k"
  have l: "cipher16 E" "apart ivec 16 out k" "apart ivec 16 inp k" using lay by (simp_all add: iv_lay_def)
  have E: "length ?pad = 16" by (rule cipher16_length [OF l(1)]) simp
  let ?m1 = "wr m ivec ?pad"
  have r: "rd ?m1 inp k = ?src" using l(3) E by (intro rd_apart) (simp add: apart_sym [of inp])
  have p: "rd ?m1 ivec k = take k ?pad" using rd_prefix [of k 16 ?m1 ivec] E k by simp
  let ?x = "xorl ?src ?pad" and ?f = "fed_back enc ?src ?pad"
  have f: "fed_back enc ?src (take k ?pad) = ?f" by (simp add: fed_back_def xorl_take)
  have lx: "length ?x = k" "length ?f = k" using E k by simp_all
  have m3: "cfb_piece enc ivec inp out 0 k (block128 E m ivec ivec) = wr (wr ?m1 out ?x) ivec ?f"
    by (simp add: cfb_piece_def Let_def block128_def r p f xorl_take)
  have "wr (wr ?m1 out ?x) ivec ?f = wr (wr ?m1 ivec ?f) out ?x"
    using l(2) lx k by (intro wr_swap) (auto simp: apart_def)
  also have "wr ?m1 ivec ?f = wr m ivec (?f @ drop k ?pad)"
    by (rule ext) (use E lx k in \<open>auto simp: wr_def nth_append\<close>)
  finally have m4: "wr (wr ?m1 out ?x) ivec ?f = wr (wr m ivec (?f @ drop k ?pad)) out ?x" .
  have v: "rd (wr (wr m ivec (?f @ drop k ?pad)) out ?x) ivec 16 = ?f @ drop k ?pad"
    using l(2) lx E k by (simp add: rd_apart)
  have o: "wr (wr m ivec (?f @ drop k ?pad)) out ?x y = m y" if "y \<notin> {out..<out + k} \<union> {ivec..<ivec + 16}" for y
    using that lx E k by (auto simp: wr_def)
  have q: "run_bytes (cfb_step enc E) (rd m ivec 16, 0) ?src = ((?f @ drop k ?pad, k mod 16), ?x)"
    using run_cfb_block [of E "rd m ivec 16" ?src enc] E k by simp
  show ?thesis
    unfolding m3 m4 treats_def iv_view_def using q v o lx by simp
qed

lemma cfb_byte_treats:
  assumes lay: "iv_lay E ivec inp out 1" and n: "0 < n" "n < 16"
  shows "treats (cfb_step enc E) (iv_view ivec) {ivec..<ivec + 16} m n inp out 1
    (wr (wr m out [m inp XOR m (ivec + n)]) (ivec + n) [if enc then m inp XOR m (ivec + n) else m inp]) ((n + 1) mod 16)"
proof -
  let ?x = "m inp XOR m (ivec + n)" and ?c = "if enc then m inp XOR m (ivec + n) else m inp"
  let ?m = "wr (wr m out [?x]) (ivec + n) [?c]"
  have l: "apart ivec 16 out 1" using lay by (simp add: iv_lay_def)
  have a: "rd ?m ivec 16 = (rd m ivec 16)[n := ?c]"
    by (rule nth_equalityI) (use l n in \<open>auto simp: wr_def apart_def nth_list_update\<close>)
  have b: "rd ?m out 1 = [?x]" using l n by (auto simp: rd_Suc wr_def apart_def)
  have c: "?m y = m y" if "y \<notin> {out..<out + 1} \<union> {ivec..<ivec + 16}" for y using that n by (auto simp: wr_def)
  have d: "run_bytes (cfb_step enc E) (rd m ivec 16, n) (rd m inp 1) = (((rd m ivec 16)[n := ?c], Suc n mod 16), [?x])"
    using n by (simp add: rd_Suc cfb_step_pos)
  show ?thesis unfolding treats_def iv_view_def using a b c d by simp
qed

interpretation cfb_enc: stream_code "cfb_step True E" "iv_view ivec" "{ivec..<ivec + 16}" "iv_lay E ivec"
  "cfb_enc_byte ivec" "cfb_enc_block E ivec"
  "\<lambda>m inp out len n. cfb_enc_bytes ivec (block128 E m ivec ivec) inp out len n" for E ivec
proof (unfold_locales, goal_cases)
  case (1 inp out len)
  then show ?case by (auto simp: iv_lay_def apart_def)
next
  case (2 inp out j k)
  then show ?case by (rule iv_lay_split)
next
  case (3 inp out n m)
  have "cfb_enc_byte ivec m inp out n = wr (wr m (ivec + n) [m inp XOR m (ivec + n)]) out [m inp XOR m (ivec + n)]"
    by (simp add: cfb_enc_byte_def Let_def upd_wr xor.commute)
  also have "\<dots> = wr (wr m out [m inp XOR m (ivec + n)]) (ivec + n) [m inp XOR m (ivec + n)]"
    using 3 by (intro wr_swap) (auto simp: iv_lay_def apart_def)
  finally show ?case using cfb_byte_treats [OF 3, of True m] by simp
next
  case (4 inp out m)
  show ?case using cfb_pad_treats [OF 4, of True m] by (simp add: cfb_enc_block_piece [OF 4])
next
  case (5 inp out k m)
  then show ?case using cfb_pad_treats [OF 5(1,2), of True m] by (simp add: cfb_enc_bytes_piece [OF 5(1)])
qed

interpretation cfb_dec: stream_code "cfb_step False E" "iv_view ivec" "{ivec..<ivec + 16}" "iv_lay E ivec"
  "cfb_dec_byte ivec" "cfb_dec_block E ivec"
  "\<lambda>m inp out len n. cfb_dec_bytes ivec (block128 E m ivec ivec) inp out len n" for E ivec
proof (unfold_locales, goal_cases)
  case (1 inp out len)
  then show ?case by (auto simp: iv_lay_def apart_def)
next
  case (2 inp out j k)
  then show ?case by (rule iv_lay_split)
next
  case (3 inp out n m)
  have "cfb_dec_byte ivec m inp out n = wr (wr m out [m inp XOR m (ivec + n)]) (ivec + n) [m inp]"
    by (simp add: cfb_dec_byte_def Let_def upd_wr xor.commute)
  then show ?case using cfb_byte_treats [OF 3, of False m] by simp
next
  case (4 inp out m)
  show ?case using cfb_pad_treats [OF 4, of False m] by (simp add: cfb_dec_block_piece [OF 4])
next
  case (5 inp out k m)
  then show ?case using cfb_pad_treats [OF 5(1,2), of False m] by (simp add: cfb_dec_bytes_piece [OF 5(1)])
qed

subsection \<open>OFB\<close>

definition ofb_step ::
  "(byte list \<Rightarrow> byte list) \<Rightarrow> byte list \<times> nat \<Rightarrow> byte \<Rightarrow> (byte list \<times> nat) \<times> byte" where
  "ofb_step E s b =
     (case s of (iv, n) \<Rightarrow> let iv1 = (if n = 0 then E iv else iv) in ((iv1, (n + 1) mod 16), b XOR iv1 ! n))"

lemma run_ofb_part:
  "0 < n \<Longrightarrow> n < 16 \<Longrightarrow> length iv = 16 \<Longrightarrow> n + length bs \<le> 16 \<Longrightarrow>
    run_bytes (ofb_step E) (iv, n) bs = ((iv, (n + length bs) mod 16), xorl bs (drop n iv))"
proof (induction bs arbitrary: n)
  case Nil
  then show ?case by (simp add: xorl_def)
next
  case (Cons b bs)
  have d: "drop n iv = iv ! n # drop (Suc n) iv" using Cons.prems by (simp add: Cons_nth_drop_Suc)
  show ?case
  proof (cases "Suc n < 16")
    case True
    then show ?thesis using Cons.IH [of "Suc n"] Cons.prems d by (simp add: ofb_step_def xorl_def)
  next
    case False
    then have "n = 15" "length bs = 0" using Cons.prems(2,4) unfolding list.size by linarith+
    then have n: "n = 15" "bs = []" by simp_all
    then show ?thesis using d Cons.prems(3) by (simp add: ofb_step_def xorl_def)
  qed
qed

lemma run_ofb_block:
  assumes "length (E iv) = 16" "0 < length bs" "length bs \<le> 16"
  shows "run_bytes (ofb_step E) (iv, 0) bs = ((E iv, length bs mod 16), xorl bs (E iv))"
proof -
  obtain b bs' where bs: "bs = b # bs'" using assms(2) by (cases bs) auto
  obtain e es where e: "E iv = e # es" "length es = 15" using assms(1) by (cases "E iv") auto
  have "run_bytes (ofb_step E) (E iv, 1) bs' = ((E iv, (1 + length bs') mod 16), xorl bs' (drop 1 (E iv)))"
    using assms by (intro run_ofb_part) (simp_all add: bs)
  then show ?thesis using e by (simp add: bs ofb_step_def xorl_def)
qed

lemma ofb_pad_treats:
  assumes lay: "iv_lay E ivec inp out k" and k: "0 < k" "k \<le> 16"
  shows "treats (ofb_step E) (iv_view ivec) {ivec..<ivec + 16} m 0 inp out k
    (xor_bytes 0 k (block128 E m ivec ivec) out inp ivec) (k mod 16)"
proof -
  let ?pad = "E (rd m ivec 16)" and ?src = "rd m inp k"
  have l: "cipher16 E" "fwd out inp k" "apart ivec 16 out k" "apart ivec 16 inp k" using lay by (simp_all add: iv_lay_def)
  have E: "length ?pad = 16" by (rule cipher16_length [OF l(1)]) simp
  let ?m1 = "wr m ivec ?pad"
  have r: "rd ?m1 inp k = ?src" using l E by (intro rd_apart) (simp add: apart_sym [of inp])
  have p: "rd ?m1 ivec k = take k ?pad" using rd_prefix [of k 16 ?m1 ivec] E k by simp
  let ?x = "xorl ?src ?pad"
  have "fwd out ivec k" using l(3) k by (auto simp: apart_def fwd_def)
  then have m: "xor_bytes 0 k (block128 E m ivec ivec) out inp ivec = wr ?m1 out ?x"
    using xor_bytes_wr [of out inp 0 k ivec ?m1] l(2) by (simp add: block128_def r p xorl_take)
  have q: "run_bytes (ofb_step E) (rd m ivec 16, 0) ?src = ((?pad, k mod 16), ?x)"
    using run_ofb_block [of E "rd m ivec 16" ?src] E k by simp
  have v: "rd (wr ?m1 out ?x) ivec 16 = ?pad" using l E k by (simp add: rd_apart)
  have "wr ?m1 out ?x y = m y" if "y \<notin> {out..<out + k} \<union> {ivec..<ivec + 16}" for y
    using that E k by (auto simp: wr_def)
  then show ?thesis unfolding m treats_def iv_view_def using q v E k by simp
qed

lemma xor_words_bytes:
  "fwd out inp 16 \<Longrightarrow> fwd out b 16 \<Longrightarrow> xor_words m out inp b = xor_bytes 0 16 m out inp b"
  using xor_bytes_wr [of out inp 0 16 b m] by (simp add: xor_words_wr)

interpretation ofb: stream_code "ofb_step E" "iv_view ivec" "{ivec..<ivec + 16}" "iv_lay E ivec" "ctr_byte ivec"
  "\<lambda>m inp out. xor_words (block128 E m ivec ivec) out inp ivec"
  "\<lambda>m inp out len n. xor_bytes n len (block128 E m ivec ivec) out inp ivec" for E ivec
proof (unfold_locales, goal_cases)
  case (1 inp out len)
  then show ?case by (auto simp: iv_lay_def apart_def)
next
  case (2 inp out j k)
  then show ?case by (rule iv_lay_split)
next
  case (3 inp out n m)
  let ?m = "wr m out [m inp XOR m (ivec + n)]"
  have m: "ctr_byte ivec m inp out n = ?m" by (simp add: ctr_byte_def upd_wr)
  have "rd ?m ivec 16 = rd m ivec 16" using 3(1) by (intro rd_apart) (simp add: iv_lay_def)
  moreover have "?m y = m y" if "y \<notin> {out..<out + 1}" for y using that by (auto simp: wr_def)
  ultimately show ?case using 3(2,3) unfolding m
    by (simp add: treats_def iv_view_def ofb_step_def rd_Suc wr_at [where i = 0, simplified])
next
  case (4 inp out m)
  have "fwd out inp 16" "fwd out ivec 16" using 4 by (auto simp: iv_lay_def apart_def fwd_def)
  then show ?case using ofb_pad_treats [OF 4, of m] by (simp add: xor_words_bytes)
next
  case (5 inp out k m)
  then show ?case using ofb_pad_treats [OF 5(1,2), of m] by simp
qed

lemma cfb128_treats:
  assumes "iv_lay E ivec inp out len" "n < 16"
  shows "case CRYPTO_cfb128_encrypt E m inp out len ivec n enc of
    (m', n') \<Rightarrow> treats (cfb_step enc E) (iv_view ivec) {ivec..<ivec + 16} m n inp out len m' n' \<and> n' < 16"
  using cfb_enc.stream_mode_treats [OF assms, of m] cfb_dec.stream_mode_treats [OF assms, of m]
  by (cases enc) (simp_all add: CRYPTO_cfb128_encrypt_def)

lemmas ofb128_treats = ofb.stream_mode_treats [folded CRYPTO_ofb128_encrypt_def]

subsection \<open>Where a stream is\<close>

text \<open>
  The stream of CTR from the counter \<open>c\<close>, and the state of the code after \<open>pos\<close> bytes of it. In between
  blocks it does not matter what the buffer for the encrypted counter holds.
\<close>

definition ctr_stream :: "(byte list \<Rightarrow> byte list) \<Rightarrow> nat \<Rightarrow> nat \<Rightarrow> byte" where
  "ctr_stream E c i = E (be 16 (c + i div 16)) ! (i mod 16)"

definition ctr_at :: "(byte list \<Rightarrow> byte list) \<Rightarrow> nat \<Rightarrow> nat \<Rightarrow> byte list \<times> byte list \<times> nat \<Rightarrow> bool" where
  "ctr_at E c pos s \<longleftrightarrow>
     (case s of (iv, ec, n) \<Rightarrow> iv = be 16 (c + (pos + 15) div 16) \<and> n = pos mod 16 \<and>
        (n \<noteq> 0 \<longrightarrow> ec = E (be 16 (c + pos div 16))))"

definition ofb_stream :: "(byte list \<Rightarrow> byte list) \<Rightarrow> byte list \<Rightarrow> nat \<Rightarrow> byte" where
  "ofb_stream E iv i = (E ^^ Suc (i div 16)) iv ! (i mod 16)"

definition ofb_at :: "(byte list \<Rightarrow> byte list) \<Rightarrow> byte list \<Rightarrow> nat \<Rightarrow> byte list \<times> nat \<Rightarrow> bool" where
  "ofb_at E iv pos s \<longleftrightarrow> s = ((E ^^ ((pos + 15) div 16)) iv, pos mod 16)"

lemma pos_up: "(16 + pos) div 16 = Suc (pos div 16)" for pos :: nat
  using div_add_self1 [of 16 pos] by simp

lemma pos_up_eq: "(pos + 15) div 16 = (if pos mod 16 = 0 then pos div 16 else Suc (pos div 16))" for pos :: nat
proof -
  define q r where "q = pos div 16" and "r = pos mod 16"
  have pos: "pos = r + 16 * q" and r: "r < 16" unfolding q_def r_def by (simp_all only: mod_mult_div_eq)
  have "pos + 15 = r + 15 + 16 * q" using pos by simp
  then have "(pos + 15) div 16 = (r + 15) div 16 + q" using div_mult_self2 [of 16 "r + 15" q] by simp
  moreover have "(r + 15) div 16 = (if r = 0 then 0 else 1)"
    using r div_nat_eqI [of 16 1 "r + 15"] by simp
  ultimately show ?thesis unfolding q_def [symmetric] r_def [symmetric] by simp
qed

lemma pos_Suc: "pos mod 16 = 0 \<Longrightarrow> Suc pos div 16 = pos div 16" "Suc pos mod 16 \<noteq> 0 \<Longrightarrow> Suc pos div 16 = pos div 16"
  for pos :: nat
  by (auto simp: div_Suc mod_Suc split: if_splits)

lemma be_succ_be: "be_succ (be 16 v) = be 16 (Suc v)"
  unfolding be_succ_def length_be be_val_be Suc_eq_plus1 by (rule be_mod) (simp only: mod_add_left_eq)

lemma ctr_step_at:
  "ctr_at E c pos s \<Longrightarrow>
     snd (ctr_step E s b) = b XOR ctr_stream E c pos \<and> ctr_at E c (Suc pos) (fst (ctr_step E s b))"
proof -
  assume a: "ctr_at E c pos s"
  obtain iv ec n where s: "s = (iv, ec, n)" by (cases s) auto
  show ?thesis
  proof (cases "n = 0")
    case True
    then have "pos mod 16 = 0" "iv = be 16 (c + pos div 16)" using a by (auto simp: s ctr_at_def pos_up_eq)
    moreover have "Suc pos div 16 = pos div 16" using pos_Suc(1) [OF calculation(1)] .
    ultimately show ?thesis using True by (simp add: s ctr_at_def pos_up ctr_step_def ctr_stream_def be_succ_be mod_Suc)
  next
    case False
    then have n: "n = pos mod 16" "iv = be 16 (c + Suc (pos div 16))" "ec = E (be 16 (c + pos div 16))"
      using a by (auto simp: s ctr_at_def pos_up_eq)
    show ?thesis using n False by (auto simp: s ctr_at_def pos_up ctr_step_def ctr_stream_def mod_Suc_eq pos_Suc(2))
  qed
qed

lemma ofb_step_at:
  "ofb_at E iv pos s \<Longrightarrow>
     snd (ofb_step E s b) = b XOR ofb_stream E iv pos \<and> ofb_at E iv (Suc pos) (fst (ofb_step E s b))"
  by (auto simp: ofb_at_def ofb_step_def ofb_stream_def pos_up pos_up_eq Let_def mod_Suc_eq)

text \<open>A mode that adds a stream to its input.\<close>

definition add_stream :: "(nat \<Rightarrow> byte) \<Rightarrow> nat \<Rightarrow> byte list \<Rightarrow> byte list" where
  "add_stream ks pos bs = map (\<lambda>i. bs ! i XOR ks (pos + i)) [0..<length bs]"

lemma add_stream_Cons: "add_stream ks pos (b # bs) = (b XOR ks pos) # add_stream ks (Suc pos) bs"
  by (simp add: add_stream_def upt_conv_Cons map_Suc_upt [symmetric] del: upt_Suc)

lemma add_stream_twice: "add_stream ks pos (add_stream ks pos bs) = bs"
  by (rule nth_equalityI) (simp_all add: add_stream_def xor.assoc)

lemma run_bytes_stream:
  assumes "\<And>pos s b. at pos s \<Longrightarrow> snd (step s b) = b XOR ks pos \<and> at (Suc pos) (fst (step s b))"
  shows "at pos s \<Longrightarrow> snd (run_bytes step s bs) = add_stream ks pos bs \<and> at (pos + length bs) (fst (run_bytes step s bs))"
proof (induction bs arbitrary: pos s)
  case Nil
  then show ?case by (simp add: add_stream_def)
next
  case (Cons b bs)
  have 1: "snd (step s b) = b XOR ks pos" "at (Suc pos) (fst (step s b))" using assms [OF Cons.prems] by auto
  show ?case using 1 Cons.IH [OF 1(2)] by (auto simp: add_stream_Cons split: prod.splits)
qed

lemmas run_ctr_stream = run_bytes_stream [where at = "ctr_at E c" and step = "ctr_step E" and ks = "ctr_stream E c" for E c, OF ctr_step_at]
lemmas run_ofb_stream = run_bytes_stream [where at = "ofb_at E iv" and step = "ofb_step E" and ks = "ofb_stream E iv" for E iv, OF ofb_step_at]

end
