(* ===== verification/Keystream.thy ===== *)
theory Keystream
  imports Stream_Modes
begin

text \<open>
What the stream modes compute: CTR and OFB add a stream that depends on the place in it only, so that
  their output does not depend on how a message is cut into calls; CTR with a 32-bit counter inside does
  the same; CFB can be undone.
\<close>

text \<open>
  \<open>m', n'\<close> is what a mode that adds the stream \<open>ks\<close> leaves: output, state at the place after it, and
  nothing else stored.
\<close>

definition adds_stream ::
  "(nat \<Rightarrow> 's \<Rightarrow> bool) \<Rightarrow> (nat \<Rightarrow> byte) \<Rightarrow> (ram \<Rightarrow> nat \<Rightarrow> 's) \<Rightarrow> nat set \<Rightarrow> nat \<Rightarrow> ram \<Rightarrow> nat \<Rightarrow> nat \<Rightarrow> nat \<Rightarrow> ram \<Rightarrow> nat \<Rightarrow> bool" where
  "adds_stream at ks view space pos m inp out len m' n' \<longleftrightarrow>
     rd m' out len = add_stream ks pos (rd m inp len) \<and> at (pos + len) (view m' n') \<and>
     (\<forall>x. x \<notin> {out..<out + len} \<union> space \<longrightarrow> m' x = m x)"

lemma treats_adds:
  assumes "treats step view space m n inp out len m' n'" "at pos (view m n)"
    and "\<And>pos s b. at pos s \<Longrightarrow> snd (step s b) = b XOR ks pos \<and> at (Suc pos) (fst (step s b))"
  shows "adds_stream at ks view space pos m inp out len m' n'"
  using run_bytes_stream [of at step ks, OF assms(3,2), of "rd m inp len"] assms(1)
  by (simp add: treats_def adds_stream_def)

lemma add_stream_append: "add_stream ks pos (as @ bs) = add_stream ks pos as @ add_stream ks (pos + length as) bs"
  by (induction as arbitrary: pos) (simp_all add: add_stream_Cons, simp add: add_stream_def)

lemma add_stream_shift: "(\<And>i. ks' i = ks (p + i)) \<Longrightarrow> add_stream ks' pos bs = add_stream ks (p + pos) bs"
  by (simp add: add_stream_def add.assoc)

subsection \<open>The counter in 32 bits\<close>

lemma be_succ_gen: "be_succ (be n v) = be n (Suc v)"
  unfolding be_succ_def length_be be_val_be Suc_eq_plus1 by (rule be_mod) (simp only: mod_add_left_eq)

lemma be_16: "be 16 v = be 12 (v div 2 ^ 32) @ be 4 v"
  using be_add [of 12 4 v] by simp

lemma be_map: "be n v = rev (map (\<lambda>i. word_of_nat (v div 256 ^ i)) [0..<n])"
proof (induction n arbitrary: v)
  case (Suc n)
  have "[0..<Suc n] = 0 # map Suc [0..<n]" by (simp add: upt_conv_Cons map_Suc_upt del: upt_Suc)
  then show ?case using Suc by (simp add: div_mult2_eq comp_def del: upt_Suc)
qed simp

lemma be_4_word: "rev (le_store 4 (word_of_nat v :: 32 word)) = be 4 v"
proof -
  have b: "(ucast (drop_bit (8 * i) (word_of_nat v :: 32 word)) :: byte) = word_of_nat (v div 256 ^ i)" if "i < 4" for i
  proof (rule bit_word_eqI)
    fix n
    assume "n < LENGTH(8)"
    moreover have "(256 :: nat) ^ i = 2 ^ (8 * i)" by (simp add: power_mult)
    ultimately show "bit (ucast (drop_bit (8 * i) (word_of_nat v :: 32 word)) :: byte) n = bit (word_of_nat (v div 256 ^ i) :: byte) n"
      using that by (simp add: bit_simps flip: drop_bit_eq_div)
  qed
  show ?thesis unfolding be_map le_store_def by (rule arg_cong [of _ _ rev]) (simp add: b)
qed

lemma GETU32_be: "rd m a 4 = be 4 v \<Longrightarrow> GETU32 m a = word_of_nat v"
  unfolding GETU32_def by (simp flip: be_4_word add: le_load_store)

text \<open>What \<open>(*func)\<close> does: the counter it is given goes up in its last 32 bits only.\<close>

definition ctr32_contract :: "(byte list \<Rightarrow> byte list) \<Rightarrow> ctr128_f \<Rightarrow> bool" where
  "ctr32_contract E func \<longleftrightarrow>
     (\<forall>m inp out k ivec. fwd out inp (16 * k) \<and> apart ivec 16 out (16 * k) \<longrightarrow>
        func m inp out k ivec =
          wr m out (concat (map (\<lambda>i. xorl (rd m (inp + 16 * i) 16) (E (rd m ivec 12 @ be 4 (be_val (rd m (ivec + 12) 4) + i)))) [0..<k])))"

lemma ctr32_counter:
  assumes "v mod 2 ^ 32 + i < 2 ^ 32"
  shows "be 12 (v div 2 ^ 32) @ be 4 (be_val (be 4 v) + i) = be 16 (v + i)"
proof -
  have "(v + i) div 2 ^ 32 = v div 2 ^ 32"
    using assms div_mult_self4 [of "2 ^ 32" "v div 2 ^ 32" "v mod 2 ^ 32 + i"] mult_div_mod_eq [of "2 ^ 32" v]
    by (simp only: add.assoc [symmetric]) simp
  moreover have "be 4 (be_val (be 4 v) + i) = be 4 (v + i)"
    unfolding be_val_be by (rule be_mod) (simp only: mod_add_left_eq)
  ultimately show ?thesis by (simp only: be_16)
qed

lemma concat_add_stream:
  assumes "cipher16 E"
  shows "concat (map (\<lambda>i. xorl (rd m (inp + 16 * i) 16) (E (be 16 (v + i)))) [0..<k]) =
    add_stream (ctr_stream E v) 0 (rd m inp (16 * k))"
proof (induction k)
  case 0
  then show ?case by (simp add: add_stream_def)
next
  case (Suc k)
  have "length (E (be 16 (v + k))) = 16" by (rule cipher16_length [OF assms]) simp
  then have "xorl (rd m (inp + 16 * k) 16) (E (be 16 (v + k))) = add_stream (ctr_stream E v) (16 * k) (rd m (inp + 16 * k) 16)"
    by (intro nth_equalityI) (simp_all add: add_stream_def ctr_stream_def)
  then show ?case
    using Suc rd_append [of m inp "16 * k" 16] by (simp add: add_stream_append add.commute)
qed

lemma ctr32_func_adds:
  assumes E: "cipher16 E" "ctr32_contract E func" and f: "fwd out inp (16 * k)" "apart ivec 16 out (16 * k)"
    and iv: "rd m ivec 16 = be 16 v" and k: "v mod 2 ^ 32 + k \<le> 2 ^ 32"
  shows "func m inp out k ivec = wr m out (add_stream (ctr_stream E v) 0 (rd m inp (16 * k)))"
proof -
  have r: "rd m ivec 12 = be 12 (v div 2 ^ 32)" "rd m (ivec + 12) 4 = be 4 v"
    using iv rd_append [of m ivec 12 4] by (simp_all add: be_16)
  have "map (\<lambda>i. xorl (rd m (inp + 16 * i) 16) (E (rd m ivec 12 @ be 4 (be_val (rd m (ivec + 12) 4) + i)))) [0..<k] =
      map (\<lambda>i. xorl (rd m (inp + 16 * i) 16) (E (be 16 (v + i)))) [0..<k]"
    by (rule map_cong [OF refl]) (use k in \<open>simp only: r set_upt atLeastLessThan_iff\<close>, subst ctr32_counter, simp_all)
  then show ?thesis
    using E(2) f concat_add_stream [OF E(1), of m inp v k] unfolding ctr32_contract_def by (simp only:)
qed

lemma wr_rd_id: "wr m a (rd m a n) = m"
  by (rule ext) (auto simp: wr_def)

lemma ctr32_put_be:
  assumes iv: "rd m ivec 16 = be 16 v" and k: "0 < k" "v mod 2 ^ 32 + k \<le> 2 ^ 32"
  shows "ctr32_put m ivec (word_of_nat (v + k)) = wr m ivec (be 16 (v + k))"
proof -
  have r: "rd m ivec 12 = be 12 (v div 2 ^ 32)"
    using iv rd_append [of m ivec 12 4] by (simp add: be_16)
  let ?m1 = "wr m (ivec + 12) (be 4 (v + k))"
  have p: "PUTU32 m (ivec + 12) (word_of_nat (v + k)) = ?m1" unfolding PUTU32_def be_4_word ..
  have r1: "rd ?m1 ivec 12 = be 12 (v div 2 ^ 32)" using r by (simp add: rd_wr_other)
  have j: "wr ?m1 ivec (be 12 w) = wr m ivec (be 12 w @ be 4 (v + k))" for w
    using wr_append [of m ivec "be 12 w" "be 4 (v + k)"] wr_swap [of "ivec + 12" "be 4 (v + k)" ivec "be 12 w" m] by simp
  have v: "v = 2 ^ 32 * (v div 2 ^ 32) + v mod 2 ^ 32" by (simp only: mult_div_mod_eq)
  show ?thesis
  proof (cases "v mod 2 ^ 32 + k = 2 ^ 32")
    case True
    have e: "v + k = 2 ^ 32 * Suc (v div 2 ^ 32)"
    proof -
      have "v + k = 2 ^ 32 * (v div 2 ^ 32) + (v mod 2 ^ 32 + k)" by (simp only: add.assoc [symmetric] mult_div_mod_eq)
      then show ?thesis unfolding True mult_Suc_right by (simp only: add.commute)
    qed
    then have z: "(word_of_nat (v + k) :: 32 word) = 0" unfolding word_of_nat_eq_0_iff by simp
    have "PUTU32 m (ivec + 12) 0 = ?m1" using p unfolding z .
    moreover have "(v + k) div 2 ^ 32 = Suc (v div 2 ^ 32)" by (simp only: e) simp
    ultimately show ?thesis
      unfolding z be_16 [of "v + k"] by (simp add: ctr32_put_def ctr96_inc_wr r1 be_succ_gen j)
  next
    case False
    then have "v mod 2 ^ 32 + k < 2 ^ 32" using k by simp
    moreover have "(v + k) mod 2 ^ 32 = (v mod 2 ^ 32 + k) mod 2 ^ 32" by (simp only: mod_add_left_eq)
    ultimately have "(v + k) mod 2 ^ 32 = v mod 2 ^ 32 + k" by simp
    then have "(word_of_nat (v + k) :: 32 word) \<noteq> 0" using k(1) unfolding word_of_nat_eq_0_iff dvd_eq_mod_eq_0 by simp
    then have "ctr32_put m ivec (word_of_nat (v + k)) = ?m1" unfolding ctr32_put_def p Let_def by (simp only: if_False)
    also have "\<dots> = wr ?m1 ivec (be 12 (v div 2 ^ 32))"
      using wr_rd_id [of ?m1 ivec 12] unfolding r1 by (rule sym)
    also have "(be 12 (v div 2 ^ 32)) = be 12 ((v + k) div 2 ^ 32)"
    proof -
      have "(v + k) div 2 ^ 32 = v div 2 ^ 32 + (v mod 2 ^ 32 + k) div 2 ^ 32"
        by (subst v) (simp only: add.assoc, subst div_mult_self4, simp_all)
      then show ?thesis using \<open>v mod 2 ^ 32 + k < 2 ^ 32\<close> by simp
    qed
    finally show ?thesis by (simp only: j be_16)
  qed
qed

lemma ctr32_step_word:
  assumes "16 \<le> len"
  shows "\<exists>k. ctr32_step (word_of_nat v) len = (word_of_nat (v + k), k) \<and> 0 < k \<and> 16 * k \<le> len \<and> v mod 2 ^ 32 + k \<le> 2 ^ 32"
proof -
  define b where "b = (if len div 16 > 2 ^ 28 then 2 ^ 28 else len div 16)"
  have b: "b \<le> 2 ^ 28" "0 < b" "16 * b \<le> len" using assms by (auto simp: b_def)
  let ?c = "word_of_nat v + word_of_nat b :: 32 word"
  have u: "unat ?c = (v mod 2 ^ 32 + b) mod 2 ^ 32"
    using unat_of_nat [of "v + b", where 'a = 32] by (simp add: mod_add_left_eq)
  have v: "v mod 2 ^ 32 < 2 ^ 32" by simp
  have s: "ctr32_step (word_of_nat v) len = (if unat ?c < b then (0, b - unat ?c) else (?c, b))"
    by (simp add: ctr32_step_def b_def Let_def)
  show ?thesis
  proof (cases "v mod 2 ^ 32 + b < 2 ^ 32")
    case True
    then have "unat ?c = v mod 2 ^ 32 + b" using u by simp
    then show ?thesis using s b True by (intro exI [of _ b]) simp
  next
    case False
    have "(v mod 2 ^ 32 + b) mod 2 ^ 32 = v mod 2 ^ 32 + b - 2 ^ 32"
      using False v b(1) by (subst le_mod_geq) (simp_all only: not_less, simp)
    then have c: "unat ?c = v mod 2 ^ 32 + b - 2 ^ 32" using u by simp
    let ?k = "b - unat ?c"
    have k: "v mod 2 ^ 32 + ?k = 2 ^ 32" "unat ?c < b" using c False v by linarith+
    then have "v + ?k = 2 ^ 32 * (v div 2 ^ 32) + 2 ^ 32" using mult_div_mod_eq [of "2 ^ 32" v] by linarith
    then have "2 ^ 32 dvd v + ?k" by simp
    then have "(word_of_nat (v + ?k) :: 32 word) = 0" unfolding word_of_nat_eq_0_iff by simp
    then show ?thesis using s b k by (intro exI [of _ ?k]) simp
  qed
qed

lemma ctr_stream_shift: "ctr_stream E (v + k) i = ctr_stream E v (16 * k + i)"
  using div_mult_self4 [of 16 k i] mod_mult_self4 [of 16 k i] by (simp add: ctr_stream_def mult.commute add.assoc)

lemma ctr32_blocks_adds:
  assumes E: "cipher16 E" "ctr32_contract E func"
  shows "fwd out inp len \<Longrightarrow> apart ivec 16 out len \<Longrightarrow> apart ivec 16 inp len \<Longrightarrow> rd m ivec 16 = be 16 v \<Longrightarrow>
    \<exists>m'. ctr32_blocks func m inp out len ivec (word_of_nat v) =
        (m', inp + 16 * (len div 16), out + 16 * (len div 16), len mod 16, word_of_nat (v + len div 16)) \<and>
      rd m' out (16 * (len div 16)) = add_stream (ctr_stream E v) 0 (rd m inp (16 * (len div 16))) \<and>
      rd m' ivec 16 = be 16 (v + len div 16) \<and>
      (\<forall>x. x \<notin> {out..<out + 16 * (len div 16)} \<union> {ivec..<ivec + 16} \<longrightarrow> m' x = m x)"
proof (induction len arbitrary: m inp out v rule: less_induct)
  case (less len)
  show ?case
  proof (cases "16 \<le> len")
    case False
    then show ?thesis using less.prems(4) by (simp add: ctr32_blocks.simps add_stream_def)
  next
    case True
    obtain k where k: "ctr32_step (word_of_nat v) len = (word_of_nat (v + k), k)" "0 < k" "16 * k \<le> len"
      "v mod 2 ^ 32 + k \<le> 2 ^ 32" using ctr32_step_word [OF True] by blast
    define len' where "len' = len - 16 * k"
    have len: "len = 16 * k + len'" "len' < len" using k(2,3) by (simp_all add: len'_def)
    have q: "len div 16 = k + len' div 16" "len mod 16 = len' mod 16" unfolding len(1) by simp_all
    let ?s = "add_stream (ctr_stream E v) 0 (rd m inp (16 * k))"
    let ?m1 = "wr m out ?s" and ?m2 = "wr (wr m out ?s) ivec (be 16 (v + k))"
    have ls: "length ?s = 16 * k" by (simp add: add_stream_def)
    have lay: "fwd out inp (16 * k)" "apart ivec 16 out (16 * k)" "fwd (out + 16 * k) (inp + 16 * k) len'"
      "apart ivec 16 (out + 16 * k) len'" "apart ivec 16 (inp + 16 * k) len'"
      using less.prems(1-3) unfolding len(1) by (auto simp: fwd_def apart_def)
    have f: "func m inp out k ivec = ?m1" by (rule ctr32_func_adds [OF E lay(1,2) less.prems(4) k(4)])
    have "rd ?m1 ivec 16 = be 16 v" using lay(2) less.prems(4) by (simp add: rd_apart ls)
    then have p: "ctr32_put ?m1 ivec (word_of_nat (v + k)) = ?m2" by (rule ctr32_put_be [OF _ k(2,4)])
    have s: "ctr32_blocks func m inp out len ivec (word_of_nat v) =
        ctr32_blocks func ?m2 (inp + 16 * k) (out + 16 * k) len' ivec (word_of_nat (v + k))"
      using True by (subst ctr32_blocks.simps) (simp add: k(1) f p Let_def len'_def del: of_nat_add)
    obtain m' where ih: "ctr32_blocks func ?m2 (inp + 16 * k) (out + 16 * k) len' ivec (word_of_nat (v + k)) =
        (m', inp + 16 * k + 16 * (len' div 16), out + 16 * k + 16 * (len' div 16), len' mod 16, word_of_nat (v + k + len' div 16))"
      "rd m' (out + 16 * k) (16 * (len' div 16)) = add_stream (ctr_stream E (v + k)) 0 (rd ?m2 (inp + 16 * k) (16 * (len' div 16)))"
      "rd m' ivec 16 = be 16 (v + k + len' div 16)"
      "\<forall>x. x \<notin> {out + 16 * k..<out + 16 * k + 16 * (len' div 16)} \<union> {ivec..<ivec + 16} \<longrightarrow> m' x = ?m2 x"
      using less.IH [OF len(2) lay(3-5), of ?m2 "v + k"] by (auto simp del: of_nat_add)
    have le: "16 * (len' div 16) \<le> len'" by simp
    have "rd ?m2 (inp + 16 * k) (16 * (len' div 16)) = rd m (inp + 16 * k) (16 * (len' div 16))"
    proof -
      have "rd ?m2 (inp + 16 * k) (16 * (len' div 16)) = rd ?m1 (inp + 16 * k) (16 * (len' div 16))"
        using lay(5) le by (intro rd_apart) (auto simp: apart_def)
      also have "\<dots> = rd m (inp + 16 * k) (16 * (len' div 16))"
        using less.prems(1) len(1) le ls by (intro rd_wr_ahead) (auto simp: fwd_def)
      finally show ?thesis .
    qed
    then have o2: "rd m' (out + 16 * k) (16 * (len' div 16)) =
        add_stream (ctr_stream E v) (16 * k) (rd m (inp + 16 * k) (16 * (len' div 16)))"
      using ih(2) add_stream_shift [of "ctr_stream E (v + k)" "ctr_stream E v" "16 * k" 0] by (simp add: ctr_stream_shift)
    have "rd m' out (16 * k) = rd ?m2 out (16 * k)"
      by (rule rd_cong) (use ih(4) lay(2) in \<open>auto simp: apart_def\<close>)
    also have "\<dots> = ?s" using lay(2) ls by (simp add: rd_apart apart_sym [of out])
    finally have "rd m' out (16 * k + 16 * (len' div 16)) =
        add_stream (ctr_stream E v) 0 (rd m inp (16 * k + 16 * (len' div 16)))"
      by (simp add: rd_append add_stream_append o2)
    moreover have "m' x = m x" if "x \<notin> {out..<out + 16 * (k + len' div 16)} \<union> {ivec..<ivec + 16}" for x
    proof -
      have "m' x = ?m2 x" using ih(4) that by auto
      also have "\<dots> = m x" using that ls by (auto simp: wr_out)
      finally show ?thesis .
    qed
    ultimately show ?thesis
      using ih(1,3) by (intro exI [of _ m']) (simp add: s q add_mult_distrib2 add.assoc)
  qed
qed

lemma ctr_at_less: "ctr_at E c pos (ctr_view ivec ecount m n) \<Longrightarrow> n < 16"
  by (simp add: ctr_at_def ctr_view_def)

lemma ctr_rest_adds:
  assumes "ctr_lay E ivec ecount inp out len" "ctr_at E c pos (ctr_view ivec ecount m n)"
  shows "\<exists>m' k n'. rest_loop (ctr_byte ecount) m inp out len n = (m', inp + k, out + k, len - k, n') \<and> k \<le> len \<and>
    (n' = 0 \<or> k = len) \<and>
    adds_stream (ctr_at E c) (ctr_stream E c) (ctr_view ivec ecount) ({ivec..<ivec + 16} \<union> {ecount..<ecount + 16}) pos m inp out k m' n'"
proof -
  obtain m' k n' where "rest_loop (ctr_byte ecount) m inp out len n = (m', inp + k, out + k, len - k, n')" "k \<le> len"
    "n' = 0 \<or> k = len"
    "treats (ctr_step E) (ctr_view ivec ecount) ({ivec..<ivec + 16} \<union> {ecount..<ecount + 16}) m n inp out k m' n'"
    using ctr.rest_loop_treats [OF assms(1) ctr_at_less [OF assms(2)], of m] by blast
  moreover from treats_adds [where at = "ctr_at E c" and ks = "ctr_stream E c", OF this(4) assms(2) ctr_step_at]
  have "adds_stream (ctr_at E c) (ctr_stream E c) (ctr_view ivec ecount) ({ivec..<ivec + 16} \<union> {ecount..<ecount + 16}) pos m inp out k m' n'" .
  ultimately show ?thesis by blast
qed

lemma adds_stream_seq:
  assumes "fwd out inp (j + k)" "space \<inter> ({out..<out + (j + k)} \<union> {inp..<inp + (j + k)}) = {}"
    and 1: "adds_stream at ks view space pos m inp out j m1 n1"
    and 2: "adds_stream at ks view space (pos + j) m1 (inp + j) (out + j) k m2 n2"
  shows "adds_stream at ks view space pos m inp out (j + k) m2 n2"
proof -
  have u1: "m1 x = m x" if "x \<notin> {out..<out + j} \<union> space" for x using 1 that by (simp add: adds_stream_def)
  have u2: "m2 x = m1 x" if "x \<notin> {out + j..<out + j + k} \<union> space" for x using 2 that by (simp add: adds_stream_def)
  have r1: "rd m1 (inp + j) k = rd m (inp + j) k"
    by (rule rd_cong, rule u1) (use assms in \<open>auto simp: fwd_def\<close>)
  have r2: "rd m2 out j = rd m1 out j"
    by (rule rd_cong, rule u2) (use assms in auto)
  have "m2 x = m x" if "x \<notin> {out..<out + (j + k)} \<union> space" for x
    using u1 [of x] u2 [of x] that by auto
  then show ?thesis
    using 1 2 r1 r2 by (simp add: adds_stream_def rd_append add_stream_append add.assoc)
qed

lemma ctr_treats_adds:
  "treats (ctr_step E) view space m n inp out len m' n' \<Longrightarrow> ctr_at E c pos (view m n) \<Longrightarrow>
     adds_stream (ctr_at E c) (ctr_stream E c) view space pos m inp out len m' n'"
  by (erule treats_adds) (assumption, erule ctr_step_at)

lemma ofb_treats_adds:
  "treats (ofb_step E) view space m n inp out len m' n' \<Longrightarrow> ofb_at E iv pos (view m n) \<Longrightarrow>
     adds_stream (ofb_at E iv) (ofb_stream E iv) view space pos m inp out len m' n'"
  by (erule treats_adds) (assumption, erule ofb_step_at)

lemma cfb_step_back:
  "cfb_step True E s b = (s', x) \<Longrightarrow> cfb_step False E s x = (s', b)"
  by (cases s) (auto simp: cfb_step_def Let_def xor.assoc)

lemma run_cfb_decrypt:
  "run_bytes (cfb_step True E) s bs = (s', xs) \<Longrightarrow> run_bytes (cfb_step False E) s xs = (s', bs)"
  by (induction bs arbitrary: s xs) (auto split: prod.splits dest!: cfb_step_back)

section \<open>Properties\<close>

text \<open>
  C21. \<open>CRYPTO_ctr128_encrypt\<close>, called where \<open>pos\<close> bytes have been treated since counter \<open>c\<close>, gives its input
  plus the stream of the encrypted counters from place \<open>pos\<close> on, and leaves counter, buffer and \<open>num\<close> as
  they are after \<open>pos + len\<close> bytes, ready for the next call: the output does not depend on how the
  message is cut into calls, the counter goes up over all its 128 bits, and nothing but the output, the
  counter and the buffer is stored. The output may be the input or lie behind it.
\<close>

theorem ctr128_keystream:
  assumes "ctr_lay E ivec ecount inp out len" "ctr_at E c pos (ctr_view ivec ecount m n)"
  shows "case CRYPTO_ctr128_encrypt E m inp out len ivec ecount n of (m', n') \<Rightarrow>
    adds_stream (ctr_at E c) (ctr_stream E c) (ctr_view ivec ecount) ({ivec..<ivec + 16} \<union> {ecount..<ecount + 16})
      pos m inp out len m' n'"
  using ctr_treats [OF assms(1) ctr_at_less [OF assms(2)], of m]
    ctr_treats_adds [where view = "ctr_view ivec ecount", OF _ assms(2)] by (auto split: prod.splits)

lemma ctr128_keystream_witness:
  defines "m \<equiv> (\<lambda>a. if a < 16 then 0 else word_of_nat a)"
  shows "case CRYPTO_ctr128_encrypt rev m 100 100 20 0 16 0 of (m', n') \<Rightarrow>
    adds_stream (ctr_at rev 0) (ctr_stream rev 0) (ctr_view 0 16) ({0..<0 + 16} \<union> {16..<16 + 16}) 0 m 100 100 20 m' n'"
proof (rule ctr128_keystream)
  show "ctr_lay rev 0 16 100 100 20" by (simp add: ctr_lay_def cipher16_def fwd_def apart_def)
  have "be 16 0 = replicate 16 0" unfolding be_map by (simp add: list_eq_iff_nth_eq rev_nth)
  then show "ctr_at rev 0 0 (ctr_view 0 16 m 0)" by (simp add: ctr_at_def ctr_view_def rd_def m_def list_eq_iff_nth_eq)
qed

lemma ctr32_blocks_at:
  fixes E :: "byte list \<Rightarrow> byte list" and ivec ecount :: nat
  defines "adds \<equiv> \<lambda>c. adds_stream (ctr_at E c) (ctr_stream E c) (ctr_view ivec ecount) ({ivec..<ivec + 16} \<union> {ecount..<ecount + 16})"
  assumes E: "ctr32_contract E func" and lay: "ctr_lay E ivec ecount inp out len"
    and at: "ctr_at E c pos (ctr_view ivec ecount m 0)"
  shows "\<exists>m' v. ctr32_blocks func m inp out len ivec (GETU32 m (ivec + 12)) =
      (m', inp + 16 * (len div 16), out + 16 * (len div 16), len mod 16, word_of_nat v) \<and>
    rd m' ivec 16 = be 16 v \<and> adds c pos m inp out (16 * (len div 16)) m' 0"
proof -
  define v q where "v = c + pos div 16" and "q = len div 16"
  have pos: "pos mod 16 = 0" "rd m ivec 16 = be 16 v" using at by (auto simp: ctr_at_def ctr_view_def pos_up_eq v_def)
  have p16: "16 * (pos div 16) = pos" using pos(1) by presburger
  have l: "cipher16 E" "fwd out inp len" "apart ivec 16 out len" "apart ivec 16 inp len" using lay by (simp_all add: ctr_lay_def)
  have "rd m (ivec + 12) 4 = be 4 v" using pos(2) rd_append [of m ivec 12 4] by (simp add: be_16)
  then have g: "GETU32 m (ivec + 12) = word_of_nat v" by (rule GETU32_be)
  obtain m' where b: "ctr32_blocks func m inp out len ivec (word_of_nat v) = (m', inp + 16 * q, out + 16 * q, len mod 16, word_of_nat (v + q))"
    "rd m' out (16 * q) = add_stream (ctr_stream E v) 0 (rd m inp (16 * q))" "rd m' ivec 16 = be 16 (v + q)"
    "\<forall>x. x \<notin> {out..<out + 16 * q} \<union> {ivec..<ivec + 16} \<longrightarrow> m' x = m x"
    using ctr32_blocks_adds [OF l(1) E l(2-4) pos(2)] unfolding q_def by blast
  have s: "add_stream (ctr_stream E v) 0 bs = add_stream (ctr_stream E c) pos bs" for bs
    using add_stream_shift [of "ctr_stream E v" "ctr_stream E c" pos 0] by (simp add: v_def ctr_stream_shift p16)
  have a: "ctr_at E c (pos + 16 * q) (ctr_view ivec ecount m' 0)"
    using pos(1) b(3) pos_up_eq [of "pos + 16 * q"] by (simp add: ctr_at_def ctr_view_def v_def ac_simps)
  have "adds c pos m inp out (16 * q) m' 0"
    unfolding adds_def adds_stream_def using a b(2,4) s by auto
  then show ?thesis using b(1,3) unfolding g q_def by blast
qed

lemma ctr32_tail_same:
  assumes "ctr32_contract E func" "cipher16 E" "apart ivec 16 ecount 16" "rd m ivec 16 = be 16 v"
  shows "ctr32_put (func (wr m ecount (replicate 16 0)) ecount ecount 1 ivec) ivec (word_of_nat v + 1) =
    ctr128_inc (block128 E m ivec ecount) ivec"
proof -
  let ?m3 = "wr m ecount (replicate 16 0)" and ?e = "E (be 16 v)"
  have e: "length ?e = 16" by (rule cipher16_length [OF assms(2)]) simp
  have v: "v mod 2 ^ 32 + 1 \<le> 2 ^ 32" by simp
  have r3: "rd ?m3 ivec 16 = be 16 v" using assms(3,4) by (simp add: rd_apart)
  have "add_stream (ctr_stream E v) 0 (replicate 16 0) = ?e"
    by (rule nth_equalityI) (simp_all add: add_stream_def ctr_stream_def e)
  then have f: "func ?m3 ecount ecount 1 ivec = wr m ecount ?e"
    using ctr32_func_adds [OF assms(2,1) _ _ r3 v, of ecount ecount] assms(3) by (simp add: fwd_def wr_wr_same e)
  have r4: "rd (wr m ecount ?e) ivec 16 = be 16 v" using assms(3,4) e by (simp add: rd_apart)
  have "word_of_nat v + 1 = (word_of_nat (v + 1) :: 32 word)" by simp
  then show ?thesis
    using ctr32_put_be [OF r4 _ v] by (simp only: f) (simp add: ctr128_inc_wr block128_def assms(4) r4 be_succ_gen)
qed

text \<open>
  C20. \<open>CRYPTO_ctr128_encrypt_ctr32\<close> promises the same over a function that counts in 32 bits: the
  blocks are handed out so that it never passes the end of the 32 bits within a call, and the carry
  goes into the other 96.
\<close>

theorem ctr32_keystream:
  assumes E: "ctr32_contract E func" and lay: "ctr_lay E ivec ecount inp out len"
    and at: "ctr_at E c pos (ctr_view ivec ecount m n)"
  shows "case CRYPTO_ctr128_encrypt_ctr32 func m inp out len ivec ecount n of (m', n') \<Rightarrow>
    adds_stream (ctr_at E c) (ctr_stream E c) (ctr_view ivec ecount) ({ivec..<ivec + 16} \<union> {ecount..<ecount + 16})
      pos m inp out len m' n'"
proof -
  let ?space = "{ivec..<ivec + 16} \<union> {ecount..<ecount + 16}"
  let ?adds = "adds_stream (ctr_at E c) (ctr_stream E c) (ctr_view ivec ecount) ?space"
  obtain m1 k n1 where r: "rest_loop (ctr_byte ecount) m inp out len n = (m1, inp + k, out + k, len - k, n1)" "k \<le> len"
    "n1 = 0 \<or> k = len" "?adds pos m inp out k m1 n1"
    using ctr_rest_adds [OF lay at] by blast
  have ap: "fwd out inp len" "?space \<inter> ({out..<out + len} \<union> {inp..<inp + len}) = {}" "cipher16 E" "apart ivec 16 ecount 16"
    using ctr.lay_apart [OF lay] lay by (simp_all add: ctr_lay_def)
  show ?thesis
  proof (cases "n1 = 0")
    case False
    then show ?thesis using r by (simp add: CRYPTO_ctr128_encrypt_ctr32_def ctr32_blocks.simps)
  next
    case True
    define d where "d = len - k"
    have len: "len = k + 16 * (d div 16) + d mod 16" using r(2) by (simp add: d_def)
    have l1: "ctr_lay E ivec ecount (inp + k) (out + k) d" using ctr.lay_split [of E ivec ecount inp out k d] lay r(2) by (simp add: d_def)
    have at1: "ctr_at E c (pos + k) (ctr_view ivec ecount m1 0)" using r(4) True by (simp add: adds_stream_def)
    obtain m2 v where b: "ctr32_blocks func m1 (inp + k) (out + k) d ivec (GETU32 m1 (ivec + 12)) =
        (m2, inp + k + 16 * (d div 16), out + k + 16 * (d div 16), d mod 16, word_of_nat v)"
      "rd m2 ivec 16 = be 16 v" "?adds (pos + k) m1 (inp + k) (out + k) (16 * (d div 16)) m2 0"
      using ctr32_blocks_at [OF E l1 at1] by blast
    have t: "?adds pos m inp out (k + 16 * (d div 16)) m2 0"
    proof (rule adds_stream_seq [OF _ _ _ b(3)])
      have "k + 16 * (d div 16) \<le> len" using len by linarith
      then show "fwd out inp (k + 16 * (d div 16))" "?space \<inter> ({out..<out + (k + 16 * (d div 16))} \<union> {inp..<inp + (k + 16 * (d div 16))}) = {}"
        using ap(1,2) by (auto simp: fwd_def)
      show "?adds pos m inp out k m1 n1" by (rule r(4))
    qed
    show ?thesis
    proof (cases "d mod 16 = 0")
      case True
      then have e: "k + 16 * (d div 16) = len" using len by linarith
      have "CRYPTO_ctr128_encrypt_ctr32 func m inp out len ivec ecount n = (m2, 0)"
        using r(1) b(1) True \<open>n1 = 0\<close> by (simp add: CRYPTO_ctr128_encrypt_ctr32_def d_def [symmetric])
      then show ?thesis using t unfolding e by simp
    next
      case False
      let ?p = "k + 16 * (d div 16)"
      let ?m5 = "ctr_tail E ivec ecount m2 (inp + ?p) (out + ?p) (d mod 16) 0"
      have l2: "ctr_lay E ivec ecount (inp + ?p) (out + ?p) (d mod 16)" using ctr.lay_split [of E ivec ecount inp out ?p "d mod 16"] lay len by (simp only:)
      have "treats (ctr_step E) (ctr_view ivec ecount) ?space m2 0 (inp + ?p) (out + ?p) (d mod 16) ?m5 (d mod 16)"
        by (rule ctr.tail_treats [OF l2]) (use False in simp_all)
      moreover have "ctr_at E c (pos + ?p) (ctr_view ivec ecount m2 0)" using t by (simp add: adds_stream_def)
      ultimately have "?adds (pos + ?p) m2 (inp + ?p) (out + ?p) (d mod 16) ?m5 (d mod 16)"
        by (rule ctr_treats_adds)
      have lp: "?p + d mod 16 = len" by (rule len [symmetric])
      have "?adds pos m inp out (?p + d mod 16) ?m5 (d mod 16)"
        by (rule adds_stream_seq [OF _ _ t \<open>?adds (pos + ?p) m2 (inp + ?p) (out + ?p) (d mod 16) ?m5 (d mod 16)\<close>])
          (simp_all only: lp ap)
      moreover have "CRYPTO_ctr128_encrypt_ctr32 func m inp out len ivec ecount n = (?m5, d mod 16)"
        using r(1) b(1) False \<open>n1 = 0\<close> ctr32_tail_same [OF E ap(3,4) b(2)]
        by (simp add: CRYPTO_ctr128_encrypt_ctr32_def d_def [symmetric] ctr_tail_def add.assoc Let_def)
      ultimately show ?thesis by (simp only: lp prod.case)
    qed
  qed
qed

lemma ctr32_keystream_witness:
  defines "m \<equiv> (\<lambda>a. if a < 16 then 255 else word_of_nat a)"
    and "func \<equiv> (\<lambda>m inp out k ivec. wr m out (concat (map (\<lambda>i. xorl (rd m (inp + 16 * i) 16)
      (rev (rd m ivec 12 @ be 4 (be_val (rd m (ivec + 12) 4) + i)))) [0..<k])))"
  shows "case CRYPTO_ctr128_encrypt_ctr32 func m 100 100 40 0 16 0 of (m', n') \<Rightarrow>
    adds_stream (ctr_at rev (be_val (replicate 16 255))) (ctr_stream rev (be_val (replicate 16 255))) (ctr_view 0 16) ({0..<0 + 16} \<union> {16..<16 + 16})
      0 m 100 100 40 m' n'"
proof (rule ctr32_keystream)
  show "ctr32_contract rev func" by (simp add: ctr32_contract_def func_def)
  show "ctr_lay rev 0 16 100 100 40" by (simp add: ctr_lay_def cipher16_def fwd_def apart_def)
  have "be 16 (be_val (replicate 16 255)) = replicate 16 255" by simp
  then show "ctr_at rev (be_val (replicate 16 255)) 0 (ctr_view 0 16 m 0)" by (simp add: ctr_at_def ctr_view_def rd_def m_def list_eq_iff_nth_eq)
qed


text \<open>
  C22. What \<open>CRYPTO_cfb128_encrypt\<close> makes of some bytes, decryption from the same vector and place in the
  block turns back into them, wherever either stores its output, and both leave the same vector and place:
  the two sides stay in step over any sequence of calls.
\<close>

theorem cfb128_roundtrip:
  assumes enc: "iv_lay E ivec inp out len" "n < 16" "CRYPTO_cfb128_encrypt E m inp out len ivec n True = (m1, n1)"
    and dec: "iv_lay E ivec' inp' out' len" "rd m' ivec' 16 = rd m ivec 16" "rd m' inp' len = rd m1 out len"
      "CRYPTO_cfb128_encrypt E m' inp' out' len ivec' n False = (m2, n2)"
  shows "rd m2 out' len = rd m inp len \<and> rd m2 ivec' 16 = rd m1 ivec 16 \<and> n2 = n1 \<and> n1 < 16"
proof -
  have 1: "run_bytes (cfb_step True E) (rd m ivec 16, n) (rd m inp len) = ((rd m1 ivec 16, n1), rd m1 out len)" "n1 < 16"
    using cfb128_treats [OF enc(1,2), of True m] enc(3) by (simp_all add: treats_def iv_view_def)
  have 2: "run_bytes (cfb_step False E) (rd m ivec 16, n) (rd m1 out len) = ((rd m2 ivec' 16, n2), rd m2 out' len)"
    using cfb128_treats [OF dec(1) enc(2), of False m'] dec(2-4) by (simp add: treats_def iv_view_def)
  show ?thesis using run_cfb_decrypt [OF 1(1)] 1(2) 2 by simp
qed

lemma cfb128_roundtrip_witness:
  defines "m \<equiv> (\<lambda>a. word_of_nat a :: byte)"
  shows "case CRYPTO_cfb128_encrypt rev m 100 100 20 0 3 True of (m1, n1) \<Rightarrow>
    let m' = (\<lambda>a. if a < 16 then m a else m1 a)
    in case CRYPTO_cfb128_encrypt rev m' 100 100 20 0 3 False of (m2, n2) \<Rightarrow> rd m2 100 20 = rd m 100 20 \<and> n2 = n1"
proof -
  have l: "iv_lay rev 0 100 100 20" by (simp add: iv_lay_def cipher16_def fwd_def apart_def)
  obtain m1 n1 where 1: "CRYPTO_cfb128_encrypt rev m 100 100 20 0 3 True = (m1, n1)" by force
  let ?m = "\<lambda>a. if a < 16 then m a else m1 a"
  obtain m2 n2 where 2: "CRYPTO_cfb128_encrypt rev ?m 100 100 20 0 3 False = (m2, n2)" by force
  have "rd ?m 0 16 = rd m 0 16" "rd ?m 100 20 = rd m1 100 20" by (auto intro!: rd_cong)
  then show ?thesis using cfb128_roundtrip [OF l _ 1 l _ _ 2] 1 2 by simp
qed

text \<open>
  \<open>CRYPTO_ofb128_encrypt\<close>, called at place \<open>pos\<close> of the stream of the iterates of the vector \<open>iv\<close>
  under the block cipher, adds that stream to its input and is then at place \<open>pos + len\<close>; nothing but
  the output and the vector is stored.
\<close>

theorem ofb128_keystream:
  assumes "iv_lay E ivec inp out len" "ofb_at E iv pos (iv_view ivec m n)"
  shows "case CRYPTO_ofb128_encrypt E m inp out len ivec n of (m', n') \<Rightarrow>
    adds_stream (ofb_at E iv) (ofb_stream E iv) (iv_view ivec) {ivec..<ivec + 16} pos m inp out len m' n'"
proof -
  have lt: "n < 16" using assms(2) by (simp add: ofb_at_def iv_view_def)
  show ?thesis
    using ofb128_treats [OF assms(1) lt, of m] ofb_treats_adds [where view = "iv_view ivec", OF _ assms(2)]
    by (auto split: prod.splits)
qed

lemma ofb128_keystream_witness:
  defines "m \<equiv> (\<lambda>a. word_of_nat a :: byte)"
  shows "case CRYPTO_ofb128_encrypt rev m 100 90 20 0 0 of (m', n') \<Rightarrow>
    adds_stream (ofb_at rev (rd m 0 16)) (ofb_stream rev (rd m 0 16)) (iv_view 0) {0..<0 + 16} 0 m 100 90 20 m' n'"
proof (rule ofb128_keystream)
  show "iv_lay rev 0 100 90 20" by (simp add: iv_lay_def cipher16_def fwd_def apart_def)
  show "ofb_at rev (rd m 0 16) 0 (iv_view 0 m 0)" by (simp add: ofb_at_def iv_view_def)
qed

end
