(* ===== verification/Bio.thy ===== *)
theory Bio
  imports Mem_Buf "HOL-Library.Monad_Syntax"
begin

text \<open>
The I/O abstraction of BoringSSL, \<open>bio/bio.c\<close>: BIOs in a heap, their life and their chains, the calls that
  go to the method table of a BIO, and \<open>BIO_read_asn1\<close>. A table is a record of functions on the heap; the
  tables themselves are an argument \<open>T\<close>, so that the methods of others are any functions. Every operation
  is an \<open>option\<close>: \<open>None\<close> is a pointer to nothing, an assertion that fails, or a loop that does not end.
  The locale \<open>bio_contract\<close> is what an implementation owes: it behaves like a specification, call
  by call, and therefore over any sequence of calls.
\<close>

section \<open>State\<close>

text \<open>One half of a BIO pair.\<close>

record bio_bio_st =
  bb_peer :: "nat option"
  bb_closed :: bool
  bb_len :: nat
  bb_offset :: nat
  bb_size :: nat
  bb_buf :: "block option"
  bb_request :: nat

text \<open>
  What \<open>ptr\<close> of a BIO points to: half a pair, a buffer with the place in its block that \<open>data\<close> points to, or
  the data of somebody else's method.
\<close>

datatype bio_ptr = Null_ptr | Pair_ptr bio_bio_st | Mem_ptr BUF_MEM nat | Data_ptr nat

record bio =
  bi_method :: "nat option"
  bi_init :: int
  bi_shutdown :: int
  bi_flags :: "32 word"
  bi_retry_reason :: int
  bi_num :: int
  bi_references :: nat
  bi_ptr :: bio_ptr
  bi_next :: "nat option"
  bi_num_read :: nat
  bi_num_write :: nat

record bio_heap =
  bh_bio :: "nat \<Rightarrow> bio option"
  bh_next :: nat

definition bio_put :: "nat \<Rightarrow> bio \<Rightarrow> bio_heap \<Rightarrow> bio_heap" where
  "bio_put a b h = h\<lparr>bh_bio := (bh_bio h)(a \<mapsto> b)\<rparr>"

definition bio_drop :: "nat \<Rightarrow> bio_heap \<Rightarrow> bio_heap" where
  "bio_drop a h = h\<lparr>bh_bio := (bh_bio h)(a := None)\<rparr>"

text \<open>
  A table of functions. A function is given the heap and the address of the BIO; one that fills a buffer
  returns what it has stored there, and is told if there is no buffer. \<open>ctrl_ptr\<close> and \<open>ctrl_out\<close> are what
  \<open>ptr\<close> of \<open>ctrl\<close> may point to, and what is stored through it.
\<close>

datatype ctrl_ptr = No_ptr | Out_ptr | Bio_ptr nat | Buf_ptr BUF_MEM | Int_ptr int
datatype ctrl_out = No_out | Out_data "block option" nat | Out_buf BUF_MEM

record bio_method_st =
  m_type :: int
  m_bwrite :: "(bio_heap \<Rightarrow> nat \<Rightarrow> byte list option \<Rightarrow> int \<Rightarrow> (int \<times> bio_heap) option) option"
  m_bread :: "(bio_heap \<Rightarrow> nat \<Rightarrow> bool \<Rightarrow> int \<Rightarrow> (int \<times> byte list \<times> bio_heap) option) option"
  m_bgets :: "(bio_heap \<Rightarrow> nat \<Rightarrow> bool \<Rightarrow> int \<Rightarrow> (int \<times> byte list \<times> bio_heap) option) option"
  m_ctrl :: "(bio_heap \<Rightarrow> nat \<Rightarrow> int \<Rightarrow> int \<Rightarrow> ctrl_ptr \<Rightarrow> (int \<times> ctrl_out \<times> bio_heap) option) option"
  m_create :: "(bio_heap \<Rightarrow> nat \<Rightarrow> (int \<times> bio_heap) option) option"
  m_destroy :: "(bio_heap \<Rightarrow> nat \<Rightarrow> (int \<times> bio_heap) option) option"
  m_callback_ctrl :: "(bio_heap \<Rightarrow> nat \<Rightarrow> int \<Rightarrow> nat \<Rightarrow> (int \<times> bio_heap) option) option"

section \<open>Reference counts\<close>

definition CRYPTO_REFCOUNT_MAX :: nat where
  "CRYPTO_REFCOUNT_MAX = 2 ^ 32 - 1"

definition CRYPTO_refcount_inc :: "nat \<Rightarrow> nat" where
  "CRYPTO_refcount_inc n = (if n < CRYPTO_REFCOUNT_MAX then n + 1 else n)"

definition CRYPTO_refcount_dec_and_test_zero :: "nat \<Rightarrow> (bool \<times> nat) option" where
  "CRYPTO_refcount_dec_and_test_zero n =
     (if n = 0 then None
      else let n' = (if n < CRYPTO_REFCOUNT_MAX then n - 1 else n) in Some (n' = 0, n'))"

section \<open>Flags\<close>

definition BIO_FLAGS_READ :: "32 word" where "BIO_FLAGS_READ = 0x01"
definition BIO_FLAGS_WRITE :: "32 word" where "BIO_FLAGS_WRITE = 0x02"
definition BIO_FLAGS_IO_SPECIAL :: "32 word" where "BIO_FLAGS_IO_SPECIAL = 0x04"
definition BIO_FLAGS_RWS :: "32 word" where
  "BIO_FLAGS_RWS = BIO_FLAGS_READ OR BIO_FLAGS_WRITE OR BIO_FLAGS_IO_SPECIAL"
definition BIO_FLAGS_SHOULD_RETRY :: "32 word" where "BIO_FLAGS_SHOULD_RETRY = 0x08"
definition BIO_FLAGS_MEM_RDONLY :: "32 word" where "BIO_FLAGS_MEM_RDONLY = 0x200"

definition kRetryFlags :: "32 word" where
  "kRetryFlags = BIO_FLAGS_RWS OR BIO_FLAGS_SHOULD_RETRY"

definition BIO_set_flags :: "bio \<Rightarrow> 32 word \<Rightarrow> bio" where
  "BIO_set_flags b flags = b\<lparr>bi_flags := bi_flags b OR flags\<rparr>"

definition BIO_test_flags :: "bio \<Rightarrow> 32 word \<Rightarrow> 32 word" where
  "BIO_test_flags b flags = bi_flags b AND flags"

definition BIO_should_read :: "bio \<Rightarrow> 32 word" where
  "BIO_should_read b = BIO_test_flags b BIO_FLAGS_READ"

definition BIO_should_write :: "bio \<Rightarrow> 32 word" where
  "BIO_should_write b = BIO_test_flags b BIO_FLAGS_WRITE"

definition BIO_should_retry :: "bio \<Rightarrow> 32 word" where
  "BIO_should_retry b = BIO_test_flags b BIO_FLAGS_SHOULD_RETRY"

definition BIO_should_io_special :: "bio \<Rightarrow> 32 word" where
  "BIO_should_io_special b = BIO_test_flags b BIO_FLAGS_IO_SPECIAL"

definition BIO_clear_flags :: "bio \<Rightarrow> 32 word \<Rightarrow> bio" where
  "BIO_clear_flags b flags = b\<lparr>bi_flags := bi_flags b AND NOT flags\<rparr>"

definition BIO_set_retry_read :: "bio \<Rightarrow> bio" where
  "BIO_set_retry_read b = b\<lparr>bi_flags := bi_flags b OR (BIO_FLAGS_READ OR BIO_FLAGS_SHOULD_RETRY)\<rparr>"

definition BIO_set_retry_write :: "bio \<Rightarrow> bio" where
  "BIO_set_retry_write b = b\<lparr>bi_flags := bi_flags b OR (BIO_FLAGS_WRITE OR BIO_FLAGS_SHOULD_RETRY)\<rparr>"

definition BIO_set_retry_special :: "bio \<Rightarrow> bio" where
  "BIO_set_retry_special b = b\<lparr>bi_flags := bi_flags b OR (BIO_FLAGS_READ OR BIO_FLAGS_IO_SPECIAL)\<rparr>"

definition BIO_get_retry_flags :: "bio \<Rightarrow> 32 word" where
  "BIO_get_retry_flags b = bi_flags b AND kRetryFlags"

definition BIO_clear_retry_flags :: "bio \<Rightarrow> bio" where
  "BIO_clear_retry_flags b = b\<lparr>bi_flags := bi_flags b AND NOT kRetryFlags, bi_retry_reason := 0\<rparr>"

definition BIO_copy_next_retry :: "bio_heap \<Rightarrow> nat \<Rightarrow> bio_heap option" where
  "BIO_copy_next_retry h a =
     do { b \<leftarrow> bh_bio h a;
          n \<leftarrow> bi_next b;
          nb \<leftarrow> bh_bio (bio_put a (BIO_clear_retry_flags b) h) n;
          Some (bio_put a ((BIO_set_flags (BIO_clear_retry_flags b) (BIO_get_retry_flags nb))
                  \<lparr>bi_retry_reason := bi_retry_reason nb\<rparr>) h) }"

section \<open>Chains\<close>

text \<open>The loop of \<open>BIO_push\<close>, which does not end on a chain that comes back to itself.\<close>

partial_function (option) last_bio :: "bio_heap \<Rightarrow> nat \<Rightarrow> nat option" where
  "last_bio h a =
     do { b \<leftarrow> bh_bio h a;
          case bi_next b of None \<Rightarrow> Some a | Some n \<Rightarrow> last_bio h n }"

definition BIO_push :: "bio_heap \<Rightarrow> nat option \<Rightarrow> nat option \<Rightarrow> (nat option \<times> bio_heap) option" where
  "BIO_push h x appended =
     (case x of
        None \<Rightarrow> Some (None, h)
      | Some a \<Rightarrow>
          do { l \<leftarrow> last_bio h a;
               b \<leftarrow> bh_bio h l;
               Some (Some a, bio_put l (b\<lparr>bi_next := appended\<rparr>) h) })"

definition BIO_pop :: "bio_heap \<Rightarrow> nat option \<Rightarrow> (nat option \<times> bio_heap) option" where
  "BIO_pop h x =
     (case x of
        None \<Rightarrow> Some (None, h)
      | Some a \<Rightarrow> do { b \<leftarrow> bh_bio h a; Some (bi_next b, bio_put a (b\<lparr>bi_next := None\<rparr>) h) })"

definition BIO_next :: "bio_heap \<Rightarrow> nat option \<Rightarrow> nat option option" where
  "BIO_next h x = (case x of None \<Rightarrow> Some None | Some a \<Rightarrow> map_option bi_next (bh_bio h a))"

definition type_matches :: "(nat \<Rightarrow> bio_method_st) \<Rightarrow> bio \<Rightarrow> 32 word \<Rightarrow> bool" where
  "type_matches T b type =
     (case bi_method b of
        None \<Rightarrow> False
      | Some m \<Rightarrow>
          if type AND 0xFF = 0 then word_of_int (m_type (T m)) AND type \<noteq> 0
          else word_of_int (m_type (T m)) = type)"

partial_function (option) find_type_loop ::
  "(nat \<Rightarrow> bio_method_st) \<Rightarrow> bio_heap \<Rightarrow> nat \<Rightarrow> 32 word \<Rightarrow> nat option option" where
  "find_type_loop T h a type =
     do { b \<leftarrow> bh_bio h a;
          if type_matches T b type then Some (Some a)
          else case bi_next b of None \<Rightarrow> Some None | Some n \<Rightarrow> find_type_loop T h n type }"

definition BIO_find_type :: "(nat \<Rightarrow> bio_method_st) \<Rightarrow> bio_heap \<Rightarrow> nat option \<Rightarrow> 32 word \<Rightarrow> nat option option" where
  "BIO_find_type T h x type = (case x of None \<Rightarrow> Some None | Some a \<Rightarrow> find_type_loop T h a type)"

section \<open>The life of a BIO\<close>

definition BIO_new ::
  "(nat \<Rightarrow> bio_method_st) \<Rightarrow> heap_env \<Rightarrow> bio_heap \<Rightarrow> nat \<Rightarrow> (nat option \<times> bio_heap) option" where
  "BIO_new T env h mid =
     (case OPENSSL_malloc env 64 of
        None \<Rightarrow> Some (None, h)
      | Some _ \<Rightarrow>
          let a = bh_next h;
              ret = \<lparr>bi_method = Some mid, bi_init = 0, bi_shutdown = 1, bi_flags = 0, bi_retry_reason = 0, bi_num = 0,
                bi_references = 1, bi_ptr = Null_ptr, bi_next = None, bi_num_read = 0, bi_num_write = 0\<rparr>;
              h1 = bio_put a ret (h\<lparr>bh_next := a + 1\<rparr>)
          in case m_create (T mid) of
               None \<Rightarrow> Some (Some a, h1)
             | Some create \<Rightarrow>
                 do { (ok, h2) \<leftarrow> create h1 a;
                      if ok = 0 then Some (None, bio_drop a h2) else Some (Some a, h2) })"

partial_function (option) BIO_free ::
  "(nat \<Rightarrow> bio_method_st) \<Rightarrow> bio_heap \<Rightarrow> nat option \<Rightarrow> (int \<times> bio_heap) option" where
  "BIO_free T h x =
     (case x of
        None \<Rightarrow> Some (1, h)
      | Some a \<Rightarrow>
          do { b \<leftarrow> bh_bio h a;
               (zero, n) \<leftarrow> CRYPTO_refcount_dec_and_test_zero (bi_references b);
               let h1 = bio_put a (b\<lparr>bi_references := n\<rparr>) h;
               if \<not> zero then Some (0, h1)
               else do { (next_bio, h2) \<leftarrow> BIO_pop h1 (Some a);
                         (_, h3) \<leftarrow> (case Option.bind (bi_method b) (\<lambda>m. m_destroy (T m)) of
                                      None \<Rightarrow> Some (0, h2) | Some destroy \<Rightarrow> destroy h2 a);
                         BIO_free T (bio_drop a h3) next_bio } })"

definition BIO_up_ref :: "bio_heap \<Rightarrow> nat \<Rightarrow> (int \<times> bio_heap) option" where
  "BIO_up_ref h a =
     do { b \<leftarrow> bh_bio h a;
          Some (1, bio_put a (b\<lparr>bi_references := CRYPTO_refcount_inc (bi_references b)\<rparr>) h) }"

definition BIO_vfree :: "(nat \<Rightarrow> bio_method_st) \<Rightarrow> bio_heap \<Rightarrow> nat option \<Rightarrow> bio_heap option" where
  "BIO_vfree T h x = map_option snd (BIO_free T h x)"

definition BIO_free_all :: "(nat \<Rightarrow> bio_method_st) \<Rightarrow> bio_heap \<Rightarrow> nat option \<Rightarrow> bio_heap option" where
  "BIO_free_all T h x = map_option snd (BIO_free T h x)"

section \<open>Calling a method\<close>

definition BIO_read ::
  "(nat \<Rightarrow> bio_method_st) \<Rightarrow> bio_heap \<Rightarrow> nat option \<Rightarrow> bool \<Rightarrow> int \<Rightarrow> (int \<times> byte list \<times> bio_heap) option" where
  "BIO_read T h x null len =
     (case x of
        None \<Rightarrow> Some (- 2, [], h)
      | Some a \<Rightarrow>
          do { b \<leftarrow> bh_bio h a;
               case Option.bind (bi_method b) (\<lambda>m. m_bread (T m)) of
                 None \<Rightarrow> Some (- 2, [], h)
               | Some bread \<Rightarrow>
                   if bi_init b = 0 then Some (- 2, [], h)
                   else if len \<le> 0 then Some (0, [], h)
                   else do { (ret, bs, h1) \<leftarrow> bread h a null len;
                             b1 \<leftarrow> bh_bio h1 a;
                             Some (ret, bs, if ret > 0 then bio_put a (b1\<lparr>bi_num_read := size_wrap (bi_num_read b1 + nat ret)\<rparr>) h1
                                            else h1) } })"

definition BIO_gets ::
  "(nat \<Rightarrow> bio_method_st) \<Rightarrow> bio_heap \<Rightarrow> nat option \<Rightarrow> bool \<Rightarrow> int \<Rightarrow> (int \<times> byte list \<times> bio_heap) option" where
  "BIO_gets T h x null len =
     (case x of
        None \<Rightarrow> Some (- 2, [], h)
      | Some a \<Rightarrow>
          do { b \<leftarrow> bh_bio h a;
               case Option.bind (bi_method b) (\<lambda>m. m_bgets (T m)) of
                 None \<Rightarrow> Some (- 2, [], h)
               | Some bgets \<Rightarrow>
                   if bi_init b = 0 then Some (- 2, [], h)
                   else if len \<le> 0 then Some (0, [], h)
                   else do { (ret, bs, h1) \<leftarrow> bgets h a null len;
                             b1 \<leftarrow> bh_bio h1 a;
                             Some (ret, bs, if ret > 0 then bio_put a (b1\<lparr>bi_num_read := size_wrap (bi_num_read b1 + nat ret)\<rparr>) h1
                                            else h1) } })"

definition BIO_write ::
  "(nat \<Rightarrow> bio_method_st) \<Rightarrow> bio_heap \<Rightarrow> nat option \<Rightarrow> byte list option \<Rightarrow> int \<Rightarrow> (int \<times> bio_heap) option" where
  "BIO_write T h x src inl =
     (case x of
        None \<Rightarrow> Some (- 2, h)
      | Some a \<Rightarrow>
          do { b \<leftarrow> bh_bio h a;
               case Option.bind (bi_method b) (\<lambda>m. m_bwrite (T m)) of
                 None \<Rightarrow> Some (- 2, h)
               | Some bwrite \<Rightarrow>
                   if bi_init b = 0 then Some (- 2, h)
                   else if inl \<le> 0 then Some (0, h)
                   else do { (ret, h1) \<leftarrow> bwrite h a src inl;
                             b1 \<leftarrow> bh_bio h1 a;
                             Some (ret, if ret > 0 then bio_put a (b1\<lparr>bi_num_write := size_wrap (bi_num_write b1 + nat ret)\<rparr>) h1
                                        else h1) } })"

text \<open>The length of the string is turned into an \<open>int\<close>.\<close>

definition BIO_puts :: "(nat \<Rightarrow> bio_method_st) \<Rightarrow> bio_heap \<Rightarrow> nat option \<Rightarrow> byte list \<Rightarrow> (int \<times> bio_heap) option" where
  "BIO_puts T h x src = BIO_write T h x (Some src) (sint (word_of_nat (c_strlen src) :: 32 word))"

definition BIO_ctrl ::
  "(nat \<Rightarrow> bio_method_st) \<Rightarrow> bio_heap \<Rightarrow> nat option \<Rightarrow> int \<Rightarrow> int \<Rightarrow> ctrl_ptr \<Rightarrow> (int \<times> ctrl_out \<times> bio_heap) option" where
  "BIO_ctrl T h x cmd larg parg =
     (case x of
        None \<Rightarrow> Some (0, No_out, h)
      | Some a \<Rightarrow>
          do { b \<leftarrow> bh_bio h a;
               case Option.bind (bi_method b) (\<lambda>m. m_ctrl (T m)) of
                 None \<Rightarrow> Some (- 2, No_out, h)
               | Some ctrl \<Rightarrow> ctrl h a cmd larg parg })"

definition BIO_callback_ctrl ::
  "(nat \<Rightarrow> bio_method_st) \<Rightarrow> bio_heap \<Rightarrow> nat option \<Rightarrow> int \<Rightarrow> nat \<Rightarrow> (int \<times> bio_heap) option" where
  "BIO_callback_ctrl T h x cmd fp =
     (case x of
        None \<Rightarrow> Some (0, h)
      | Some a \<Rightarrow>
          do { b \<leftarrow> bh_bio h a;
               case Option.bind (bi_method b) (\<lambda>m. m_callback_ctrl (T m)) of
                 None \<Rightarrow> Some (0, h)
               | Some callback_ctrl \<Rightarrow> callback_ctrl h a cmd fp })"

section \<open>Control commands\<close>

definition BIO_CTRL_RESET :: int where "BIO_CTRL_RESET = 1"
definition BIO_CTRL_EOF :: int where "BIO_CTRL_EOF = 2"
definition BIO_CTRL_INFO :: int where "BIO_CTRL_INFO = 3"
definition BIO_CTRL_GET_CLOSE :: int where "BIO_CTRL_GET_CLOSE = 8"
definition BIO_CTRL_SET_CLOSE :: int where "BIO_CTRL_SET_CLOSE = 9"
definition BIO_CTRL_PENDING :: int where "BIO_CTRL_PENDING = 10"
definition BIO_CTRL_FLUSH :: int where "BIO_CTRL_FLUSH = 11"
definition BIO_CTRL_WPENDING :: int where "BIO_CTRL_WPENDING = 13"
definition BIO_C_SET_BUF_MEM :: int where "BIO_C_SET_BUF_MEM = 114"
definition BIO_C_GET_BUF_MEM_PTR :: int where "BIO_C_GET_BUF_MEM_PTR = 115"
definition BIO_C_SET_BUF_MEM_EOF_RETURN :: int where "BIO_C_SET_BUF_MEM_EOF_RETURN = 130"
definition BIO_C_GET_WRITE_BUF_SIZE :: int where "BIO_C_GET_WRITE_BUF_SIZE = 137"
definition BIO_C_GET_WRITE_GUARANTEE :: int where "BIO_C_GET_WRITE_GUARANTEE = 140"
definition BIO_C_GET_READ_REQUEST :: int where "BIO_C_GET_READ_REQUEST = 141"
definition BIO_C_SHUTDOWN_WR :: int where "BIO_C_SHUTDOWN_WR = 142"
definition BIO_C_RESET_READ_REQUEST :: int where "BIO_C_RESET_READ_REQUEST = 147"

lemmas bio_cmd_defs =
  BIO_CTRL_RESET_def BIO_CTRL_EOF_def BIO_CTRL_INFO_def BIO_CTRL_GET_CLOSE_def BIO_CTRL_SET_CLOSE_def
  BIO_CTRL_PENDING_def BIO_CTRL_FLUSH_def BIO_CTRL_WPENDING_def BIO_C_SET_BUF_MEM_def BIO_C_GET_BUF_MEM_PTR_def
  BIO_C_SET_BUF_MEM_EOF_RETURN_def BIO_C_GET_WRITE_BUF_SIZE_def BIO_C_GET_WRITE_GUARANTEE_def
  BIO_C_GET_READ_REQUEST_def BIO_C_SHUTDOWN_WR_def BIO_C_RESET_READ_REQUEST_def

definition ctrl_int ::
  "(nat \<Rightarrow> bio_method_st) \<Rightarrow> bio_heap \<Rightarrow> nat option \<Rightarrow> int \<Rightarrow> int \<Rightarrow> ctrl_ptr \<Rightarrow> (int \<times> bio_heap) option" where
  "ctrl_int T h x cmd larg parg = map_option (\<lambda>(r, _, h1). (r, h1)) (BIO_ctrl T h x cmd larg parg)"

definition BIO_ptr_ctrl ::
  "(nat \<Rightarrow> bio_method_st) \<Rightarrow> bio_heap \<Rightarrow> nat option \<Rightarrow> int \<Rightarrow> int \<Rightarrow> (ctrl_out \<times> bio_heap) option" where
  "BIO_ptr_ctrl T h x cmd larg =
     map_option (\<lambda>(r, p, h1). (if r \<le> 0 then No_out else p, h1)) (BIO_ctrl T h x cmd larg Out_ptr)"

definition BIO_int_ctrl ::
  "(nat \<Rightarrow> bio_method_st) \<Rightarrow> bio_heap \<Rightarrow> nat option \<Rightarrow> int \<Rightarrow> int \<Rightarrow> int \<Rightarrow> (int \<times> bio_heap) option" where
  "BIO_int_ctrl T h x cmd larg iarg = ctrl_int T h x cmd larg (Int_ptr iarg)"

definition BIO_flush :: "(nat \<Rightarrow> bio_method_st) \<Rightarrow> bio_heap \<Rightarrow> nat option \<Rightarrow> (int \<times> bio_heap) option" where
  "BIO_flush T h x = ctrl_int T h x BIO_CTRL_FLUSH 0 No_ptr"

definition BIO_reset :: "(nat \<Rightarrow> bio_method_st) \<Rightarrow> bio_heap \<Rightarrow> nat option \<Rightarrow> (int \<times> bio_heap) option" where
  "BIO_reset T h x = ctrl_int T h x BIO_CTRL_RESET 0 No_ptr"

definition BIO_eof :: "(nat \<Rightarrow> bio_method_st) \<Rightarrow> bio_heap \<Rightarrow> nat option \<Rightarrow> (int \<times> bio_heap) option" where
  "BIO_eof T h x = ctrl_int T h x BIO_CTRL_EOF 0 No_ptr"

definition BIO_pending :: "(nat \<Rightarrow> bio_method_st) \<Rightarrow> bio_heap \<Rightarrow> nat option \<Rightarrow> (nat \<times> bio_heap) option" where
  "BIO_pending T h x =
     map_option (\<lambda>(r, h1). (if r < 0 then 0 else nat r, h1)) (ctrl_int T h x BIO_CTRL_PENDING 0 No_ptr)"

definition BIO_wpending :: "(nat \<Rightarrow> bio_method_st) \<Rightarrow> bio_heap \<Rightarrow> nat option \<Rightarrow> (nat \<times> bio_heap) option" where
  "BIO_wpending T h x =
     map_option (\<lambda>(r, h1). (if r < 0 then 0 else nat r, h1)) (ctrl_int T h x BIO_CTRL_WPENDING 0 No_ptr)"

definition BIO_set_close :: "(nat \<Rightarrow> bio_method_st) \<Rightarrow> bio_heap \<Rightarrow> nat option \<Rightarrow> int \<Rightarrow> (int \<times> bio_heap) option" where
  "BIO_set_close T h x close_flag = ctrl_int T h x BIO_CTRL_SET_CLOSE close_flag No_ptr"

text \<open>\<open>while (indent--) BIO_puts(bio, " ")\<close>\<close>

fun indent_loop :: "(nat \<Rightarrow> bio_method_st) \<Rightarrow> bio_heap \<Rightarrow> nat option \<Rightarrow> nat \<Rightarrow> (int \<times> bio_heap) option" where
  "indent_loop T h x 0 = Some (1, h)"
| "indent_loop T h x (Suc n) =
     (case BIO_puts T h x [0x20, 0] of
        None \<Rightarrow> None
      | Some (r, h1) \<Rightarrow> if r \<noteq> 1 then Some (0, h1) else indent_loop T h1 x n)"

definition BIO_indent ::
  "(nat \<Rightarrow> bio_method_st) \<Rightarrow> bio_heap \<Rightarrow> nat option \<Rightarrow> nat \<Rightarrow> nat \<Rightarrow> (int \<times> bio_heap) option" where
  "BIO_indent T h x indent max_indent = indent_loop T h x (if indent > max_indent then max_indent else indent)"

section \<open>Methods of others\<close>

definition BIO_meth_new :: "heap_env \<Rightarrow> int \<Rightarrow> bio_method_st option" where
  "BIO_meth_new env type =
     (case OPENSSL_malloc env 80 of
        None \<Rightarrow> None
      | Some _ \<Rightarrow> Some \<lparr>m_type = type, m_bwrite = None, m_bread = None, m_bgets = None, m_ctrl = None, m_create = None,
          m_destroy = None, m_callback_ctrl = None\<rparr>)"

definition BIO_meth_set_create where "BIO_meth_set_create method f = method\<lparr>m_create := Some f\<rparr>"
definition BIO_meth_set_destroy where "BIO_meth_set_destroy method f = method\<lparr>m_destroy := Some f\<rparr>"
definition BIO_meth_set_write where "BIO_meth_set_write method f = method\<lparr>m_bwrite := Some f\<rparr>"
definition BIO_meth_set_read where "BIO_meth_set_read method f = method\<lparr>m_bread := Some f\<rparr>"
definition BIO_meth_set_gets where "BIO_meth_set_gets method f = method\<lparr>m_bgets := Some f\<rparr>"
definition BIO_meth_set_ctrl where "BIO_meth_set_ctrl method f = method\<lparr>m_ctrl := Some f\<rparr>"

text \<open>The next type, and \<open>g_index\<close>.\<close>

definition BIO_get_new_index :: "int \<Rightarrow> int \<times> int" where
  "BIO_get_new_index g_index = (if g_index > 255 then (- 1, g_index) else (g_index, g_index + 1))"

section \<open>Reading an ASN.1 element\<close>

definition kChunkSize :: nat where
  "kChunkSize = 4096"

definition size_sub :: "nat \<Rightarrow> nat \<Rightarrow> nat" where
  "size_sub a b = size_wrap (a + 2 ^ 64 - b)"

text \<open>An \<open>int\<close> given for a \<open>size_t\<close>, and the other way round.\<close>

definition int_size :: "int \<Rightarrow> nat" where
  "int_size n = nat (n mod 2 ^ 64)"

definition to_int :: "nat \<Rightarrow> int" where
  "to_int n = sint (word_of_nat n :: 32 word)"

definition blk_store :: "block \<Rightarrow> nat \<Rightarrow> byte list \<Rightarrow> block option" where
  "blk_store p i bs =
     (if bs = [] then Some p
      else if i + length bs \<le> length (blk_mem p) then Some (p\<lparr>blk_mem := mem_write (blk_mem p) i bs\<rparr>) else None)"

text \<open>
  With \<open>dbg\<close> the code is compiled with its assertions, and a failed one is \<open>None\<close>; so is a loop that does not
  end.
\<close>

partial_function (option) read_all_loop ::
  "bool \<Rightarrow> (nat \<Rightarrow> bio_method_st) \<Rightarrow> heap_env \<Rightarrow> bio_heap \<Rightarrow> nat option \<Rightarrow> block \<Rightarrow> nat \<Rightarrow> nat \<Rightarrow> nat \<Rightarrow>
     ((block \<times> nat) option \<times> bio_heap) option" where
  "read_all_loop dbg T env h x out len fill max_len =
     (if fill = len then Some (None, h)
      else let todo = size_sub len fill in
        if dbg \<and> \<not> todo < INT_MAX then None
        else do { (n, bs, h1) \<leftarrow> BIO_read T h x False (to_int todo);
                  out1 \<leftarrow> blk_store out fill bs;
                  if n = 0 then Some (Some (out1, fill), h1)
                  else if n = - 1 then Some (None, h1)
                  else let fill1 = nat ((int fill + n) mod 2 ^ 64) in
                    if len < max_len \<and> size_sub len fill1 < kChunkSize div 2
                    then let len1 = size_wrap (len + kChunkSize);
                             len2 = (if len1 < kChunkSize \<or> len1 > max_len then max_len else len1)
                         in case OPENSSL_realloc env (Some out1) len2 of
                              None \<Rightarrow> Some (None, h1)
                            | Some new_buf \<Rightarrow> read_all_loop dbg T env h1 x new_buf len2 fill1 max_len
                    else read_all_loop dbg T env h1 x out1 len fill1 max_len })"

definition bio_read_all ::
  "bool \<Rightarrow> (nat \<Rightarrow> bio_method_st) \<Rightarrow> heap_env \<Rightarrow> bio_heap \<Rightarrow> nat option \<Rightarrow> byte list \<Rightarrow> nat \<Rightarrow>
     ((block \<times> nat) option \<times> bio_heap) option" where
  "bio_read_all dbg T env h x prefix max_len =
     (let prefix_len = length prefix;
          len0 = size_wrap (prefix_len + kChunkSize);
          len = (if len0 > max_len then max_len else len0)
      in if len < prefix_len then Some (None, h)
         else case OPENSSL_malloc env len of
                None \<Rightarrow> Some (None, h)
              | Some out0 \<Rightarrow>
                  do { out \<leftarrow> blk_store out0 0 prefix;
                       read_all_loop dbg T env h x out len prefix_len max_len })"

text \<open>\<open>BIO_read\<close> of \<open>n\<close> bytes that have to be there: \<open>Some\<close> of them, or \<open>None\<close> when it gives fewer.\<close>

definition read_exact ::
  "(nat \<Rightarrow> bio_method_st) \<Rightarrow> bio_heap \<Rightarrow> nat option \<Rightarrow> nat \<Rightarrow> (byte list option \<times> bio_heap) option" where
  "read_exact T h x n =
     do { (r, bs, h1) \<leftarrow> BIO_read T h x False (to_int n);
          if r \<noteq> to_int n then Some (None, h1)
          else if length bs = n then Some (Some bs, h1) else None }"

definition read_asn1_body ::
  "(nat \<Rightarrow> bio_method_st) \<Rightarrow> heap_env \<Rightarrow> bio_heap \<Rightarrow> nat option \<Rightarrow> byte list \<Rightarrow> nat \<Rightarrow> nat \<Rightarrow>
     ((block \<times> nat) option \<times> bio_heap) option" where
  "read_asn1_body T env h x header len max_len =
     (let header_len = length header; sum = size_wrap (len + header_len)
      in if sum < len \<or> sum > max_len \<or> len > INT_MAX then Some (None, h)
         else case OPENSSL_malloc env sum of
                None \<Rightarrow> Some (None, h)
              | Some out0 \<Rightarrow>
                  do { out \<leftarrow> blk_store out0 0 header;
                       (bs, h1) \<leftarrow> read_exact T h x (sum - header_len);
                       case bs of
                         None \<Rightarrow> Some (None, h1)
                       | Some bs \<Rightarrow> map_option (\<lambda>p. (Some (p, sum), h1)) (blk_store out header_len bs) })"

definition BIO_read_asn1 ::
  "bool \<Rightarrow> (nat \<Rightarrow> bio_method_st) \<Rightarrow> heap_env \<Rightarrow> bio_heap \<Rightarrow> nat option \<Rightarrow> nat \<Rightarrow>
     ((block \<times> nat) option \<times> bio_heap) option" where
  "BIO_read_asn1 dbg T env h x max_len =
     do { (hd, h1) \<leftarrow> read_exact T h x 2;
          case hd of
            None \<Rightarrow> Some (None, h1)
          | Some header \<Rightarrow>
              let tag = header ! 0; length_byte = header ! 1 in
              if tag AND 0x1F = 0x1F then Some (None, h1)
              else if length_byte AND 0x80 = 0 then read_asn1_body T env h1 x header (unat length_byte) max_len
              else let num_bytes = unat (length_byte AND 0x7F) in
                if tag AND 0x20 \<noteq> 0 \<and> num_bytes = 0 then bio_read_all dbg T env h1 x header max_len
                else if num_bytes = 0 \<or> num_bytes > 4 then Some (None, h1)
                else do { (more, h2) \<leftarrow> read_exact T h1 x num_bytes;
                          case more of
                            None \<Rightarrow> Some (None, h2)
                          | Some bs \<Rightarrow>
                              let len32 = foldl (\<lambda>l b. push_bit 8 l OR ucast b) (0 :: 32 word) bs in
                              if len32 < 128 then Some (None, h2)
                              else if drop_bit ((num_bytes - 1) * 8) len32 = 0 then Some (None, h2)
                              else read_asn1_body T env h2 x (header @ bs) (unat len32) max_len } }"

section \<open>What an implementation of BIOs owes its users\<close>

text \<open>
  A sequence of calls, with what each of them returns and stores; and the same by a specification, which
  goes on from one abstract state to the next.
\<close>

fun run_calls ::
  "('h \<Rightarrow> 'op \<Rightarrow> (int \<times> byte list \<times> 'h) option) \<Rightarrow> 'h \<Rightarrow> 'op list \<Rightarrow> ((int \<times> byte list) list \<times> 'h) option" where
  "run_calls call h [] = Some ([], h)"
| "run_calls call h (op # ops) =
     (case call h op of
        None \<Rightarrow> None
      | Some (r, bs, h1) \<Rightarrow>
          (case run_calls call h1 ops of None \<Rightarrow> None | Some (rs, h2) \<Rightarrow> Some ((r, bs) # rs, h2)))"

fun run_spec :: "('s \<Rightarrow> 'op \<Rightarrow> int \<times> byte list \<times> 's) \<Rightarrow> 's \<Rightarrow> 'op list \<Rightarrow> (int \<times> byte list) list" where
  "run_spec spec s [] = []"
| "run_spec spec s (op # ops) = (case spec s op of (r, bs, s') \<Rightarrow> (r, bs) # run_spec spec s' ops)"

locale bio_contract =
  fixes call :: "'h \<Rightarrow> 'op \<Rightarrow> (int \<times> byte list \<times> 'h) option"
    and spec :: "'s \<Rightarrow> 'op \<Rightarrow> int \<times> byte list \<times> 's"
    and rel :: "'h \<Rightarrow> 's \<Rightarrow> bool"
    and ok :: "'op \<Rightarrow> bool"
  assumes step: "rel h s \<Longrightarrow> ok op \<Longrightarrow>
    \<exists>h'. call h op = (case spec s op of (r, bs, _) \<Rightarrow> Some (r, bs, h')) \<and> rel h' (snd (snd (spec s op)))"
begin

lemma step_to:
  assumes "rel h s" "ok op" "spec s op = (r, bs, s')"
  obtains h' where "call h op = Some (r, bs, h')" "rel h' s'"
  using step [OF assms(1,2)] assms(3) by auto

lemma step_from:
  assumes "rel h s" "ok op" "call h op = Some (r, bs, h')"
  obtains s' where "spec s op = (r, bs, s')" "rel h' s'"
  using step [OF assms(1,2)] assms(3) by (cases "spec s op") auto

lemma runs: "rel h s \<Longrightarrow> list_all ok ops \<Longrightarrow> \<exists>h'. run_calls call h ops = Some (run_spec spec s ops, h')"
proof (induction ops arbitrary: h s)
  case (Cons op ops)
  obtain r bs s' where s: "spec s op = (r, bs, s')" by (cases "spec s op") auto
  have ok: "ok op" "list_all ok ops" using Cons.prems(2) by simp_all
  obtain h1 where h1: "call h op = Some (r, bs, h1)" "rel h1 s'" by (rule step_to [OF Cons.prems(1) ok(1) s])
  show ?case using Cons.IH [OF h1(2) ok(2)] h1(1) s by auto
qed simp

end

end
