(* ===== verification/Bio_Pair.thy ===== *)
theory Bio_Pair
  imports Bio
begin

text \<open>
BIO pairs, \<open>bio/pair.c\<close>: two BIOs joined by two ring buffers. The ring buffer is proved to be a queue, a pair
  to be two of them with their read requests and ends (\<open>pair_spec\<close>), and every run from a fresh pair
  to deliver what was sent.
\<close>

section \<open>Half a pair\<close>

definition get_bb :: "bio_heap \<Rightarrow> nat \<Rightarrow> bio_bio_st option" where
  "get_bb h a = (case bh_bio h a of Some b \<Rightarrow> (case bi_ptr b of Pair_ptr x \<Rightarrow> Some x | _ \<Rightarrow> None) | None \<Rightarrow> None)"

definition bio_upd :: "nat \<Rightarrow> (bio \<Rightarrow> bio) \<Rightarrow> bio_heap \<Rightarrow> bio_heap" where
  "bio_upd a f h = h\<lparr>bh_bio := (bh_bio h)(a := map_option f (bh_bio h a))\<rparr>"

definition put_bb :: "nat \<Rightarrow> bio_bio_st \<Rightarrow> bio_heap \<Rightarrow> bio_heap" where
  "put_bb a x h = bio_upd a (\<lambda>b. b\<lparr>bi_ptr := Pair_ptr x\<rparr>) h"

definition bio_new :: "heap_env \<Rightarrow> bio_heap \<Rightarrow> nat \<Rightarrow> (int \<times> bio_heap) option" where
  "bio_new env h a =
     (case OPENSSL_malloc env 56 of
        None \<Rightarrow> Some (0, h)
      | Some _ \<Rightarrow>
          Some (1, put_bb a \<lparr>bb_peer = None, bb_closed = False, bb_len = 0, bb_offset = 0, bb_size = 17 * 1024,
                      bb_buf = None, bb_request = 0\<rparr> h))"

definition bio_destroy_pair :: "bio_heap \<Rightarrow> nat \<Rightarrow> bio_heap option" where
  "bio_destroy_pair h bio =
     do { b0 \<leftarrow> bh_bio h bio;
          if bi_ptr b0 = Null_ptr then Some h
          else do { b \<leftarrow> get_bb h bio;
            case bb_peer b of
              None \<Rightarrow> Some h
            | Some peer_bio \<Rightarrow>
                do { peer_b \<leftarrow> get_bb h peer_bio;
                     if bb_peer peer_b \<noteq> Some bio \<or> bb_buf peer_b = None then None
                     else
                       let h1 = bio_upd peer_bio (\<lambda>x. x\<lparr>bi_init := 0\<rparr>)
                                  (put_bb peer_bio (peer_b\<lparr>bb_peer := None, bb_len := 0, bb_offset := 0\<rparr>) h)
                       in do { b1 \<leftarrow> get_bb h1 bio;
                               if bb_buf b1 = None then None
                               else Some (bio_upd bio (\<lambda>x. x\<lparr>bi_init := 0\<rparr>)
                                      (put_bb bio (b1\<lparr>bb_peer := None, bb_len := 0, bb_offset := 0\<rparr>) h1)) } } } }"

definition bio_free :: "bio_heap \<Rightarrow> nat \<Rightarrow> (int \<times> bio_heap) option" where
  "bio_free h bio =
     do { b \<leftarrow> get_bb h bio;
          h1 \<leftarrow> (if bb_peer b \<noteq> None then bio_destroy_pair h bio else Some h);
          Some (1, bio_upd bio (\<lambda>x. x\<lparr>bi_ptr := Null_ptr\<rparr>) h1) }"

text \<open>
  The loops over the ring buffer, with the rest of the bytes to copy. A failed assertion is \<open>None\<close>, and so is
  a chunk of no bytes, with which the loop would never end.
\<close>

definition bb_mem :: "bio_bio_st \<Rightarrow> byte list" where
  "bb_mem b = (case bb_buf b of None \<Rightarrow> [] | Some p \<Rightarrow> blk_mem p)"

function bio_read_loop :: "bio_bio_st \<Rightarrow> nat \<Rightarrow> (byte list \<times> bio_bio_st) option" where
  "bio_read_loop b rest =
     (let chunk = (if bb_offset b + rest \<le> bb_size b then rest else bb_size b - bb_offset b);
          data = take chunk (drop (bb_offset b) (bb_mem b));
          len1 = bb_len b - chunk;
          b1 = b\<lparr>bb_len := len1,
                 bb_offset := (if len1 = 0 then 0
                               else if bb_offset b + chunk = bb_size b then 0 else bb_offset b + chunk)\<rparr>
      in if rest > bb_len b \<or> bb_offset b + chunk > bb_size b \<or> chunk = 0 \<or> len1 = 0 \<and> chunk \<noteq> rest then None
         else if rest - chunk = 0 then Some (data, b1)
         else map_option (\<lambda>(ds, b2). (data @ ds, b2)) (bio_read_loop b1 (rest - chunk)))"
  by pat_completeness auto
termination by (relation "measure snd") auto

function bio_write_loop :: "bio_bio_st \<Rightarrow> byte list \<Rightarrow> nat \<Rightarrow> bio_bio_st option" where
  "bio_write_loop b src rest =
     (let wo = bb_offset b + bb_len b;
          write_offset = (if wo \<ge> bb_size b then wo - bb_size b else wo);
          chunk = (if write_offset + rest \<le> bb_size b then rest else bb_size b - write_offset);
          b1 = b\<lparr>bb_buf := map_option (\<lambda>p. p\<lparr>blk_mem := mem_write (blk_mem p) write_offset (take chunk src)\<rparr>) (bb_buf b),
                 bb_len := bb_len b + chunk\<rparr>
      in if bb_len b + rest > bb_size b \<or> chunk = 0 then None
         else if rest - chunk = 0 then Some b1
         else bio_write_loop b1 (drop chunk src) (rest - chunk))"
  by pat_completeness auto
termination by (relation "measure (\<lambda>(_, _, rest). rest)") auto

declare bio_read_loop.simps [simp del] bio_write_loop.simps [simp del]

definition bio_read :: "bio_heap \<Rightarrow> nat \<Rightarrow> bool \<Rightarrow> int \<Rightarrow> (int \<times> byte list \<times> bio_heap) option" where
  "bio_read h0 bio null n0 =
     (let size = int_size n0; h = bio_upd bio BIO_clear_retry_flags h0
      in do { self \<leftarrow> bh_bio h bio;
           if bi_init self = 0 then Some (0, [], h)
           else do { b \<leftarrow> get_bb h bio;
                     peer \<leftarrow> bb_peer b;
                     peer_b0 \<leftarrow> get_bb h peer;
                     _ \<leftarrow> bb_buf peer_b0;
                     let peer_b = peer_b0\<lparr>bb_request := 0\<rparr>;
                     let h1 = put_bb peer peer_b h;
                     if null \<or> size = 0 then Some (0, [], h1)
                     else if bb_len peer_b = 0 then
                       (if bb_closed peer_b then Some (0, [], h1)
                        else Some (- 1, [], put_bb peer
                               (peer_b\<lparr>bb_request := (if size \<le> bb_size peer_b then size else bb_size peer_b)\<rparr>)
                               (bio_upd bio BIO_set_retry_read h1)))
                     else let n = (if bb_len peer_b < size then bb_len peer_b else size)
                       in do { (bs, peer_b1) \<leftarrow> bio_read_loop peer_b n;
                               Some (to_int n, bs, put_bb peer peer_b1 h1) } } })"

definition bio_write :: "bio_heap \<Rightarrow> nat \<Rightarrow> byte list option \<Rightarrow> int \<Rightarrow> (int \<times> bio_heap) option" where
  "bio_write h0 bio buf n0 =
     (let num = int_size n0; h = bio_upd bio BIO_clear_retry_flags h0
      in do { self \<leftarrow> bh_bio h bio;
           case buf of
             None \<Rightarrow> Some (0, h)
           | Some src \<Rightarrow>
               if bi_init self = 0 \<or> num = 0 then Some (0, h)
               else do { b0 \<leftarrow> get_bb h bio;
                         _ \<leftarrow> bb_peer b0;
                         _ \<leftarrow> bb_buf b0;
                         let b = b0\<lparr>bb_request := 0\<rparr>;
                         let h1 = put_bb bio b h;
                         if bb_closed b then Some (- 1, h1)
                         else if bb_len b > bb_size b then None
                         else if bb_len b = bb_size b then Some (- 1, bio_upd bio BIO_set_retry_write h1)
                         else let n = (if num > bb_size b - bb_len b then bb_size b - bb_len b else num)
                           in do { b1 \<leftarrow> bio_write_loop b src n;
                                   Some (to_int n, put_bb bio b1 h1) } } })"

section \<open>Making a pair\<close>

text \<open>The buffer of one half: the half itself, or \<open>None\<close> when there is no memory.\<close>

definition make_half :: "heap_env \<Rightarrow> bio_bio_st \<Rightarrow> nat \<Rightarrow> bool \<times> bio_bio_st" where
  "make_half env b writebuf_len =
     (if bb_buf b \<noteq> None then (True, b)
      else let b1 = (if writebuf_len \<noteq> 0 then b\<lparr>bb_size := writebuf_len\<rparr> else b)
        in case OPENSSL_malloc env (bb_size b1) of
             None \<Rightarrow> (False, b1)
           | Some p \<Rightarrow> (True, b1\<lparr>bb_buf := Some p, bb_len := 0, bb_offset := 0\<rparr>))"

definition bio_make_pair ::
  "heap_env \<Rightarrow> bio_heap \<Rightarrow> nat \<Rightarrow> nat \<Rightarrow> nat \<Rightarrow> nat \<Rightarrow> (int \<times> bio_heap) option" where
  "bio_make_pair env h bio1 bio2 writebuf1_len writebuf2_len =
     do { b1 \<leftarrow> get_bb h bio1;
          b2 \<leftarrow> get_bb h bio2;
          if bb_peer b1 \<noteq> None \<or> bb_peer b2 \<noteq> None then Some (0, h)
          else case make_half env b1 writebuf1_len of
            (False, b1) \<Rightarrow> Some (0, put_bb bio1 b1 h)
          | (True, b1) \<Rightarrow>
              let h1 = put_bb bio1 b1 h in
              do { b2 \<leftarrow> get_bb h1 bio2;
                   case make_half env b2 writebuf2_len of
                     (False, b2) \<Rightarrow> Some (0, put_bb bio2 b2 h1)
                   | (True, b2) \<Rightarrow>
                       let h2 = put_bb bio2 b2 h1 in
                       do { b1 \<leftarrow> get_bb h2 bio1;
                            let h3 = put_bb bio1 (b1\<lparr>bb_peer := Some bio2, bb_closed := False, bb_request := 0\<rparr>) h2;
                            b2 \<leftarrow> get_bb h3 bio2;
                            let h4 = put_bb bio2 (b2\<lparr>bb_peer := Some bio1, bb_closed := False, bb_request := 0\<rparr>) h3;
                            Some (1, bio_upd bio2 (\<lambda>b. b\<lparr>bi_init := 1\<rparr>) (bio_upd bio1 (\<lambda>b. b\<lparr>bi_init := 1\<rparr>) h4)) } } }"

definition bio_ctrl ::
  "bio_heap \<Rightarrow> nat \<Rightarrow> int \<Rightarrow> int \<Rightarrow> ctrl_ptr \<Rightarrow> (int \<times> ctrl_out \<times> bio_heap) option" where
  "bio_ctrl h bio cmd num ptr =
     do { self \<leftarrow> bh_bio h bio;
          b \<leftarrow> get_bb h bio;
          if cmd = BIO_C_GET_WRITE_BUF_SIZE then Some (int (bb_size b), No_out, h)
          else if cmd = BIO_C_GET_WRITE_GUARANTEE then
            Some (if bb_peer b = None \<or> bb_closed b then 0 else int (bb_size b) - int (bb_len b), No_out, h)
          else if cmd = BIO_C_GET_READ_REQUEST then Some (int (bb_request b), No_out, h)
          else if cmd = BIO_C_RESET_READ_REQUEST then Some (1, No_out, put_bb bio (b\<lparr>bb_request := 0\<rparr>) h)
          else if cmd = BIO_C_SHUTDOWN_WR then Some (1, No_out, put_bb bio (b\<lparr>bb_closed := True\<rparr>) h)
          else if cmd = BIO_CTRL_GET_CLOSE then Some (bi_shutdown self, No_out, h)
          else if cmd = BIO_CTRL_SET_CLOSE then Some (1, No_out, bio_upd bio (\<lambda>x. x\<lparr>bi_shutdown := sint (word_of_int num :: 32 word)\<rparr>) h)
          else if cmd = BIO_CTRL_PENDING then
            (case bb_peer b of
               None \<Rightarrow> Some (0, No_out, h)
             | Some peer \<Rightarrow> do { peer_b \<leftarrow> get_bb h peer; Some (int (bb_len peer_b), No_out, h) })
          else if cmd = BIO_CTRL_WPENDING then
            Some (if bb_buf b \<noteq> None then int (bb_len b) else 0, No_out, h)
          else if cmd = BIO_CTRL_FLUSH then Some (1, No_out, h)
          else if cmd = BIO_CTRL_EOF then
            (case ptr of
               Bio_ptr other \<Rightarrow>
                 do { other_b \<leftarrow> get_bb h other;
                      Some (if bb_len other_b = 0 \<and> bb_closed other_b then 1 else 0, No_out, h) }
             | No_ptr \<Rightarrow> Some (1, No_out, h)
             | _ \<Rightarrow> None)
          else Some (0, No_out, h) }"

definition methods_biop :: "heap_env \<Rightarrow> bio_method_st" where
  "methods_biop env =
     \<lparr>m_type = 0x413, m_bwrite = Some bio_write, m_bread = Some bio_read, m_bgets = None, m_ctrl = Some bio_ctrl,
      m_create = Some (bio_new env), m_destroy = Some bio_free, m_callback_ctrl = None\<rparr>"


text \<open>The tables: 0 is \<open>methods_biop\<close>, 1 is \<open>mem_method\<close> of \<open>bio_mem.c\<close>, the others belong to others.\<close>

definition BIO_new_bio_pair ::
  "(nat \<Rightarrow> bio_method_st) \<Rightarrow> heap_env \<Rightarrow> bio_heap \<Rightarrow> nat \<Rightarrow> nat \<Rightarrow> (int \<times> nat option \<times> nat option \<times> bio_heap) option" where
  "BIO_new_bio_pair T env h writebuf1_len writebuf2_len =
     do { (bio1, h1) \<leftarrow> BIO_new T env h 0;
          (bio2, h2) \<leftarrow> BIO_new T env h1 0;
          (ok, h3) \<leftarrow> (case (bio1, bio2) of
                        (Some a, Some b) \<Rightarrow> bio_make_pair env h2 a b writebuf1_len writebuf2_len
                      | _ \<Rightarrow> Some (0, h2));
          if ok = 0 then
            do { (_, h4) \<leftarrow> BIO_free T h3 bio1;
                 (_, h5) \<leftarrow> BIO_free T h4 bio2;
                 Some (0, None, None, h5) }
          else Some (1, bio1, bio2, h3) }"

definition BIO_ctrl_get_read_request :: "(nat \<Rightarrow> bio_method_st) \<Rightarrow> bio_heap \<Rightarrow> nat option \<Rightarrow> (int \<times> bio_heap) option" where
  "BIO_ctrl_get_read_request T h x = ctrl_int T h x BIO_C_GET_READ_REQUEST 0 No_ptr"

definition BIO_ctrl_get_write_guarantee :: "(nat \<Rightarrow> bio_method_st) \<Rightarrow> bio_heap \<Rightarrow> nat option \<Rightarrow> (int \<times> bio_heap) option" where
  "BIO_ctrl_get_write_guarantee T h x = ctrl_int T h x BIO_C_GET_WRITE_GUARANTEE 0 No_ptr"

definition BIO_shutdown_wr :: "(nat \<Rightarrow> bio_method_st) \<Rightarrow> bio_heap \<Rightarrow> nat option \<Rightarrow> (int \<times> bio_heap) option" where
  "BIO_shutdown_wr T h x = ctrl_int T h x BIO_C_SHUTDOWN_WR 0 No_ptr"

section \<open>The ring buffer\<close>

definition bb_ok :: "bio_bio_st \<Rightarrow> bool" where
  "bb_ok b \<longleftrightarrow> bb_buf b \<noteq> None \<and> length (bb_mem b) = bb_size b \<and> bb_offset b < bb_size b \<and> bb_len b \<le> bb_size b \<and>
     bb_size b < 2 ^ 31"

text \<open>The bytes in it, oldest first.\<close>

definition bb_view :: "bio_bio_st \<Rightarrow> byte list" where
  "bb_view b = map (\<lambda>i. bb_mem b ! ((bb_offset b + i) mod bb_size b)) [0..<bb_len b]"

lemma length_bb_view [simp]: "length (bb_view b) = bb_len b"
  by (simp add: bb_view_def)

lemma nth_mem_write:
  "i + length bs \<le> length m \<Longrightarrow> j < length m \<Longrightarrow>
     mem_write m i bs ! j = (if i \<le> j \<and> j < i + length bs then bs ! (j - i) else m ! j)"
  by (auto simp: mem_write_def nth_append min_def)

lemma ring_distinct:
  fixes off i j n :: nat
  assumes "i < j" "j < i + n"
  shows "(off + i) mod n \<noteq> (off + j) mod n"
proof
  assume "(off + i) mod n = (off + j) mod n"
  then have "n dvd (off + j) - (off + i)" using assms mod_eq_dvd_iff_nat [of "off + i" "off + j" n] by simp
  then show False using assms by (auto dest: dvd_imp_le)
qed

lemma bb_write_chunk:
  assumes b: "bb_ok b" and c: "c \<le> length src" "bb_len b + c \<le> bb_size b" "wo + c \<le> bb_size b"
    and wo: "wo = (bb_offset b + bb_len b) mod bb_size b"
  defines "b1 \<equiv> b\<lparr>bb_buf := map_option (\<lambda>p. p\<lparr>blk_mem := mem_write (blk_mem p) wo (take c src)\<rparr>) (bb_buf b), bb_len := bb_len b + c\<rparr>"
  shows "bb_ok b1 \<and> bb_view b1 = bb_view b @ take c src"
proof -
  let ?n = "bb_size b" and ?m = "bb_mem b"
  have l: "length ?m = ?n" "0 < ?n" using b by (auto simp: bb_ok_def)
  have m1: "bb_mem b1 = mem_write ?m wo (take c src)"
    using b by (cases "bb_buf b") (simp_all add: b1_def bb_mem_def bb_ok_def)
  have ok: "bb_ok b1" using b c l(1) m1 by (auto simp: bb_ok_def b1_def)
  have w: "bb_mem b1 ! ((bb_offset b + i) mod ?n) = (bb_view b @ take c src) ! i" if "i < bb_len b + c" for i
  proof (cases "i < bb_len b")
    case True
    have "\<not> (wo \<le> (bb_offset b + i) mod ?n \<and> (bb_offset b + i) mod ?n < wo + c)"
    proof
      assume a: "wo \<le> (bb_offset b + i) mod ?n \<and> (bb_offset b + i) mod ?n < wo + c"
      define j where "j = (bb_offset b + i) mod ?n - wo"
      have j: "j < c" "(bb_offset b + i) mod ?n = wo + j" using a by (auto simp: j_def)
      then have "(bb_offset b + i) mod ?n = (bb_offset b + (bb_len b + j)) mod ?n"
        using c(3) unfolding wo by (metis add.assoc add_lessD1 less_le_trans mod_add_left_eq mod_less mod_mod_trivial nat_add_left_cancel_less)
      then show False using ring_distinct [of i "bb_len b + j" ?n "bb_offset b"] True j(1) c(2) by simp
    qed
    then show ?thesis
      using True c(1,3) l by (auto simp: m1 nth_mem_write bb_view_def nth_append)
  next
    case False
    define j where "j = i - bb_len b"
    have j: "i = bb_len b + j" "j < c" using False that by (auto simp: j_def)
    have "(bb_offset b + i) mod ?n = (wo + j) mod ?n" unfolding j(1) wo by (simp add: mod_add_left_eq add.assoc)
    then have "(bb_offset b + i) mod ?n = wo + j" using j(2) c(3) by simp
    then show ?thesis using j c(1,3) l by (simp add: m1 nth_mem_write nth_append)
  qed
  have "bb_view b1 = bb_view b @ take c src"
    by (rule nth_equalityI) (use c w in \<open>auto simp: bb_view_def b1_def\<close>)
  then show ?thesis using ok by blast
qed

lemma bio_write_loop_view:
  assumes "bb_ok b" "0 < rest" "rest \<le> length src" "bb_len b + rest \<le> bb_size b"
  shows "\<exists>b1. bio_write_loop b src rest = Some b1 \<and> bb_ok b1 \<and> bb_view b1 = bb_view b @ take rest src \<and>
    bb_len b1 = bb_len b + rest \<and>
    (bb_peer b1, bb_closed b1, bb_size b1, bb_request b1) = (bb_peer b, bb_closed b, bb_size b, bb_request b)"
  using assms
proof (induction rest arbitrary: b src rule: less_induct)
  case (less rest)
  let ?n = "bb_size b"
  define wo where "wo = (bb_offset b + bb_len b) mod ?n"
  define c where "c = (if wo + rest \<le> ?n then rest else ?n - wo)"
  have o: "bb_offset b < ?n" "bb_len b \<le> ?n" using less.prems(1) by (auto simp: bb_ok_def)
  have wo: "(if bb_offset b + bb_len b \<ge> ?n then bb_offset b + bb_len b - ?n else bb_offset b + bb_len b) = wo"
    using o by (auto simp: wo_def le_mod_geq)
  have w: "wo < ?n" unfolding wo_def using o by simp
  have c: "0 < c" "c \<le> rest" "wo + c \<le> ?n" using w less.prems(2) by (auto simp: c_def)
  define b1 where "b1 = b\<lparr>bb_buf := map_option (\<lambda>p. p\<lparr>blk_mem := mem_write (blk_mem p) wo (take c src)\<rparr>) (bb_buf b), bb_len := bb_len b + c\<rparr>"
  have b1: "bb_ok b1" "bb_view b1 = bb_view b @ take c src"
    using bb_write_chunk [OF less.prems(1) _ _ c(3) wo_def, of src] less.prems(3,4) c(2) by (auto simp: b1_def)
  have s: "bio_write_loop b src rest = (if rest - c = 0 then Some b1 else bio_write_loop b1 (drop c src) (rest - c))"
    using less.prems(4) c(1)
    by (subst bio_write_loop.simps) (simp only: Let_def wo c_def [symmetric] b1_def [symmetric], simp)
  show ?case
  proof (cases "rest = c")
    case True
    then show ?thesis using s b1 by (simp add: b1_def)
  next
    case False
    then have r: "0 < rest - c" "rest - c < rest" "rest - c \<le> length (drop c src)" "bb_len b1 + (rest - c) \<le> bb_size b1"
      using c(1,2) less.prems by (auto simp: b1_def)
    obtain b2 where b2: "bio_write_loop b1 (drop c src) (rest - c) = Some b2" "bb_ok b2"
      "bb_view b2 = bb_view b1 @ take (rest - c) (drop c src)" "bb_len b2 = bb_len b1 + (rest - c)"
      "(bb_peer b2, bb_closed b2, bb_size b2, bb_request b2) = (bb_peer b1, bb_closed b1, bb_size b1, bb_request b1)"
      using less.IH [OF r(2) b1(1) r(1,3,4)] by blast
    have "take c src @ take (rest - c) (drop c src) = take rest src"
      using c(2) take_add [of c "rest - c" src] by simp
    then show ?thesis using s r(1) b1(2) b2 c(2) by (simp add: b1_def)
  qed
qed

lemma bb_read_chunk:
  assumes b: "bb_ok b" and c: "c \<le> bb_len b" "bb_offset b + c \<le> bb_size b"
  defines "b1 \<equiv> b\<lparr>bb_len := bb_len b - c, bb_offset := (if bb_len b - c = 0 then 0 else if bb_offset b + c = bb_size b then 0 else bb_offset b + c)\<rparr>"
  shows "bb_ok b1 \<and> bb_view b1 = drop c (bb_view b) \<and> take c (drop (bb_offset b) (bb_mem b)) = take c (bb_view b)"
proof -
  let ?n = "bb_size b"
  have l: "length (bb_mem b) = ?n" "0 < ?n" using b by (auto simp: bb_ok_def)
  have m: "bb_mem b1 = bb_mem b" by (simp add: b1_def bb_mem_def)
  have "bb_ok b1" using b c l by (auto simp: bb_ok_def m) (auto simp: b1_def)
  moreover have "bb_view b1 = drop c (bb_view b)"
  proof (rule nth_equalityI)
    fix i
    assume "i < length (bb_view b1)"
    then have i: "i < bb_len b - c" by (simp add: b1_def)
    have "(bb_offset b1 + i) mod ?n = (bb_offset b + (c + i)) mod ?n"
      using i mod_add_self1 [of ?n i] by (auto simp: b1_def add.assoc [symmetric])
    then show "bb_view b1 ! i = drop c (bb_view b) ! i" using i by (simp add: bb_view_def m) (simp add: b1_def)
  qed (simp add: b1_def)
  moreover have "take c (drop (bb_offset b) (bb_mem b)) = take c (bb_view b)"
    by (rule nth_equalityI) (use c l in \<open>auto simp: bb_view_def\<close>)
  ultimately show ?thesis by blast
qed

lemma bio_read_loop_view:
  assumes "bb_ok b" "0 < rest" "rest \<le> bb_len b"
  shows "\<exists>b1. bio_read_loop b rest = Some (take rest (bb_view b), b1) \<and> bb_ok b1 \<and> bb_view b1 = drop rest (bb_view b) \<and>
    (bb_peer b1, bb_closed b1, bb_size b1, bb_request b1) = (bb_peer b, bb_closed b, bb_size b, bb_request b)"
  using assms
proof (induction rest arbitrary: b rule: less_induct)
  case (less rest)
  let ?n = "bb_size b"
  define c where "c = (if bb_offset b + rest \<le> ?n then rest else ?n - bb_offset b)"
  have o: "bb_offset b < ?n" "bb_len b \<le> ?n" using less.prems(1) by (auto simp: bb_ok_def)
  have c: "0 < c" "c \<le> rest" "bb_offset b + c \<le> ?n" "c \<le> bb_len b" using o less.prems(2,3) by (auto simp: c_def)
  define b1 where "b1 = b\<lparr>bb_len := bb_len b - c, bb_offset := (if bb_len b - c = 0 then 0 else if bb_offset b + c = bb_size b then 0 else bb_offset b + c)\<rparr>"
  have b1: "bb_ok b1" "bb_view b1 = drop c (bb_view b)" "take c (drop (bb_offset b) (bb_mem b)) = take c (bb_view b)"
    using bb_read_chunk [OF less.prems(1) c(4,3)] by (auto simp: b1_def)
  have z: "\<not> (bb_len b - c = 0 \<and> c \<noteq> rest)" using c(2) less.prems(3) by auto
  have s: "bio_read_loop b rest = (if rest - c = 0 then Some (take c (bb_view b), b1)
      else map_option (\<lambda>(ds, b2). (take c (bb_view b) @ ds, b2)) (bio_read_loop b1 (rest - c)))"
    unfolding b1(3) [symmetric] using less.prems(3) c z
    by (subst bio_read_loop.simps) (simp only: Let_def c_def [symmetric] b1_def [symmetric], simp)
  show ?case
  proof (cases "rest = c")
    case True
    then show ?thesis using s b1 by (simp add: b1_def)
  next
    case False
    then have r: "0 < rest - c" "rest - c < rest" "rest - c \<le> bb_len b1"
      using c(1,2) less.prems by (auto simp: b1_def)
    obtain b2 where b2: "bio_read_loop b1 (rest - c) = Some (take (rest - c) (bb_view b1), b2)" "bb_ok b2"
      "bb_view b2 = drop (rest - c) (bb_view b1)"
      "(bb_peer b2, bb_closed b2, bb_size b2, bb_request b2) = (bb_peer b1, bb_closed b1, bb_size b1, bb_request b1)"
      using less.IH [OF r(2) b1(1) r(1,3)] by blast
    have "take c (bb_view b) @ take (rest - c) (drop c (bb_view b)) = take rest (bb_view b)"
      using c(2) take_add [of c "rest - c" "bb_view b"] by simp
    then show ?thesis using s r(1) b1(2) b2 c(2) by (simp add: b1_def)
  qed
qed

section \<open>A pair as two pipes\<close>

text \<open>
  What the two directions of a pair are: bytes under way, the room for them, what the other side asked for,
  and what the side that writes here has to try again.
\<close>

datatype retry = No_retry | Retry_read | Retry_write

record pipe =
  p_data :: "byte list"
  p_cap :: nat
  p_closed :: bool
  p_request :: nat
  p_retry :: retry

definition pipe_of :: "retry \<Rightarrow> bio_bio_st \<Rightarrow> pipe" where
  "pipe_of w b = \<lparr>p_data = bb_view b, p_cap = bb_size b, p_closed = bb_closed b, p_request = bb_request b, p_retry = w\<rparr>"

lemma pipe_of_retry [simp]: "pipe_of w x = pipe_of v x \<longleftrightarrow> w = v"
  by (simp add: pipe_of_def)

fun retry_word :: "retry \<Rightarrow> 32 word" where
  "retry_word No_retry = 0"
| "retry_word Retry_read = BIO_FLAGS_READ OR BIO_FLAGS_SHOULD_RETRY"
| "retry_word Retry_write = BIO_FLAGS_WRITE OR BIO_FLAGS_SHOULD_RETRY"

definition pipe_write :: "byte list \<Rightarrow> pipe \<Rightarrow> int \<times> pipe" where
  "pipe_write bs p =
     (let p0 = p\<lparr>p_request := 0, p_retry := No_retry\<rparr>; n = min (length bs) (p_cap p - length (p_data p))
      in if p_closed p then (- 1, p0)
         else if length (p_data p) = p_cap p then (- 1, p0\<lparr>p_retry := Retry_write\<rparr>)
         else (int n, p0\<lparr>p_data := p_data p @ take n bs\<rparr>))"

definition pipe_read :: "nat \<Rightarrow> pipe \<Rightarrow> int \<times> byte list \<times> pipe" where
  "pipe_read n p =
     (let p0 = p\<lparr>p_request := 0\<rparr>; m = min n (length (p_data p))
      in if p_data p = [] then (if p_closed p then (0, [], p0) else (- 1, [], p\<lparr>p_request := min n (p_cap p)\<rparr>))
         else (int m, take m (p_data p), p0\<lparr>p_data := drop m (p_data p)\<rparr>))"

text \<open>What the reader has to try again.\<close>

definition read_retry :: "pipe \<Rightarrow> retry" where
  "read_retry p = (if p_data p = [] \<and> \<not> p_closed p then Retry_read else No_retry)"

lemma to_int_small: "n < 2 ^ 31 \<Longrightarrow> to_int n = int n"
  by (simp add: to_int_def signed_of_nat signed_take_bit_int_eq_self)

lemma int_size_int: "n < 2 ^ 64 \<Longrightarrow> int_size (int n) = n"
  by (simp add: int_size_def)

lemma bh_bio_upd: "bh_bio (bio_upd a f h) x = (if x = a then map_option f (bh_bio h a) else bh_bio h x)"
  by (simp add: bio_upd_def)

lemma bio_upd_upd: "bio_upd a f (bio_upd a g h) = bio_upd a (f \<circ> g) h"
  by (simp add: bio_upd_def option.map_comp)

lemma bio_upd_put: "bh_bio h a = Some r \<Longrightarrow> bio_upd a f h = bio_put a (f r) h"
  by (simp add: bio_upd_def bio_put_def)

lemma bio_put_put [simp]: "bio_put a r (bio_put a r' h) = bio_put a r h"
  by (simp add: bio_put_def)

lemma bh_bio_put [simp]: "bh_bio (bio_put a r h) x = (if x = a then Some r else bh_bio h x)"
  by (simp add: bio_put_def)

lemma bio_put_swap: "a \<noteq> b \<Longrightarrow> bio_put a r (bio_put b q h) = bio_put b q (bio_put a r h)"
  by (simp add: bio_put_def fun_upd_twist)

lemma bio_put_same: "bh_bio h a = Some r \<Longrightarrow> bio_put a r h = h"
  by (simp add: bio_put_def fun_upd_idem)

lemma get_bb_put [simp]:
  "get_bb (bio_put a r h) x = (if x = a then (case bi_ptr r of Pair_ptr y \<Rightarrow> Some y | _ \<Rightarrow> None) else get_bb h x)"
  by (simp add: get_bb_def)

lemma put_bb_put: "bh_bio h a = Some r \<Longrightarrow> put_bb a x h = bio_put a (r\<lparr>bi_ptr := Pair_ptr x\<rparr>) h"
  by (simp add: put_bb_def bio_upd_put)

lemma bi_ptr_flags [simp]:
  "bi_ptr (BIO_clear_retry_flags r) = bi_ptr r" "bi_init (BIO_clear_retry_flags r) = bi_init r"
  "bi_method (BIO_clear_retry_flags r) = bi_method r"
  "bi_ptr (BIO_set_retry_read r) = bi_ptr r" "bi_init (BIO_set_retry_read r) = bi_init r"
  "bi_method (BIO_set_retry_read r) = bi_method r"
  "bi_ptr (BIO_set_retry_write r) = bi_ptr r" "bi_init (BIO_set_retry_write r) = bi_init r"
  "bi_method (BIO_set_retry_write r) = bi_method r"
  by (simp_all add: BIO_clear_retry_flags_def BIO_set_retry_read_def BIO_set_retry_write_def)

lemmas bio_flag_defs = BIO_FLAGS_READ_def BIO_FLAGS_WRITE_def BIO_FLAGS_IO_SPECIAL_def BIO_FLAGS_RWS_def
  BIO_FLAGS_SHOULD_RETRY_def kRetryFlags_def

lemma retry_flags [simp]:
  "BIO_get_retry_flags (BIO_clear_retry_flags r) = retry_word No_retry"
  "BIO_get_retry_flags (BIO_set_retry_read (BIO_clear_retry_flags r)) = retry_word Retry_read"
  "BIO_get_retry_flags (BIO_set_retry_write (BIO_clear_retry_flags r)) = retry_word Retry_write"
  "BIO_get_retry_flags (r\<lparr>bi_ptr := x\<rparr>) = BIO_get_retry_flags r"
  "BIO_get_retry_flags (r\<lparr>bi_num_read := n\<rparr>) = BIO_get_retry_flags r"
  "BIO_get_retry_flags (r\<lparr>bi_num_write := n\<rparr>) = BIO_get_retry_flags r"
  "BIO_get_retry_flags (BIO_set_retry_read (r\<lparr>bi_ptr := x\<rparr>)) = BIO_get_retry_flags (BIO_set_retry_read r)"
  "BIO_get_retry_flags (BIO_set_retry_write (r\<lparr>bi_ptr := x\<rparr>)) = BIO_get_retry_flags (BIO_set_retry_write r)"
  by (simp_all add: BIO_get_retry_flags_def BIO_clear_retry_flags_def BIO_set_retry_read_def BIO_set_retry_write_def
      bio_flag_defs bit.conj_disj_distrib2 and.assoc)

text \<open>A half at \<open>a\<close> that is joined to \<open>b\<close>, and its pipe.\<close>

definition half :: "bio_heap \<Rightarrow> nat \<Rightarrow> nat \<Rightarrow> pipe \<Rightarrow> bool" where
  "half h a b p \<longleftrightarrow>
     (\<exists>r x w. bh_bio h a = Some r \<and> bi_ptr r = Pair_ptr x \<and> bb_ok x \<and> bb_peer x = Some b \<and> bi_init r \<noteq> 0 \<and>
        bi_method r = Some 0 \<and> BIO_get_retry_flags r = retry_word w \<and> p = pipe_of w x)"

lemma half_put:
  "a \<noteq> c \<Longrightarrow> half (bio_put a r h) c b p = half h c b p"
  by (simp add: half_def)

lemma half_put_same:
  "half (bio_put a r h) a b p \<longleftrightarrow>
     (\<exists>x w. bi_ptr r = Pair_ptr x \<and> bb_ok x \<and> bb_peer x = Some b \<and> bi_init r \<noteq> 0 \<and> bi_method r = Some 0 \<and>
        BIO_get_retry_flags r = retry_word w \<and> p = pipe_of w x)"
  by (simp add: half_def)

lemma bb_ok_request [simp]: "bb_ok (x\<lparr>bb_request := n\<rparr>) = bb_ok x" "bb_ok (x\<lparr>bb_closed := c\<rparr>) = bb_ok x"
  "bb_view (x\<lparr>bb_request := n\<rparr>) = bb_view x" "bb_view (x\<lparr>bb_closed := c\<rparr>) = bb_view x"
  by (simp_all add: bb_ok_def bb_view_def bb_mem_def)

lemma bio_write_half:
  assumes "half h a b p" "src \<noteq> []" "length src < 2 ^ 31"
  shows "\<exists>h'. bio_write h a (Some src) (int (length src)) = Some (fst (pipe_write src p), h') \<and>
    half h' a b (snd (pipe_write src p)) \<and> (\<forall>c d q. c \<noteq> a \<longrightarrow> half h' c d q = half h c d q)"
proof -
  obtain r x w where r: "bh_bio h a = Some r" "bi_ptr r = Pair_ptr x" "bb_ok x" "bb_peer x = Some b" "bi_init r \<noteq> 0"
    "bi_method r = Some 0" "p = pipe_of w x" using assms(1) by (auto simp: half_def)
  obtain y where y: "bb_buf x = Some y" using r(3) by (auto simp: bb_ok_def)
  let ?x = "x\<lparr>bb_request := 0\<rparr>" and ?r = "BIO_clear_retry_flags r"
  let ?h = "bio_put a (?r\<lparr>bi_ptr := Pair_ptr ?x\<rparr>) h"
  have len: "bb_len x \<le> bb_size x" "bb_size x < 2 ^ 31" using r(3) by (auto simp: bb_ok_def)
  have n: "int_size (int (length src)) = length src" using assms(3) by (simp add: int_size_int)
  have w: "bio_write h a (Some src) (int (length src)) =
      (if bb_closed x then Some (- 1, ?h)
       else if bb_len x = bb_size x then Some (- 1, bio_upd a BIO_set_retry_write ?h)
       else let n = (if length src > bb_size x - bb_len x then bb_size x - bb_len x else length src)
         in do { b1 \<leftarrow> bio_write_loop ?x src n; Some (to_int n, put_bb a b1 ?h) })"
    using r(1,2,4,5) y assms(2) len unfolding bio_write_def n Let_def
    by (simp add: bio_upd_put put_bb_put get_bb_def)
  show ?thesis
  proof (cases "bb_closed x")
    case True
    then show ?thesis using w r by (intro exI [of _ ?h]) (auto simp: half_put half_put_same pipe_write_def pipe_of_def)
  next
    case False
    note open1 = False
    show ?thesis
    proof (cases "bb_len x = bb_size x")
      case True
      then show ?thesis using w r False
        by (intro exI [of _ "bio_upd a BIO_set_retry_write ?h"])
          (auto simp: half_put half_put_same pipe_write_def pipe_of_def bio_upd_put)
    next
      case False
      let ?n = "min (length src) (bb_size x - bb_len x)"
      have n: "(if length src > bb_size x - bb_len x then bb_size x - bb_len x else length src) = ?n" by auto
      have "0 < ?n" "?n \<le> length src" "bb_len ?x + ?n \<le> bb_size ?x" using False len assms(2) by auto
      from bio_write_loop_view [OF _ this] r(3) obtain b1 where b1: "bio_write_loop ?x src ?n = Some b1" "bb_ok b1"
        "bb_view b1 = bb_view x @ take ?n src" "bb_len b1 = bb_len x + ?n"
        "(bb_peer b1, bb_closed b1, bb_size b1, bb_request b1) = (bb_peer x, bb_closed x, bb_size x, 0)"
        by auto
      have "?n < 2 ^ 31" using len by auto
      then have t: "to_int ?n = int ?n" by (rule to_int_small)
      have "bio_write h a (Some src) (int (length src)) = Some (int ?n, put_bb a b1 ?h)"
        using w open1 False unfolding n by (simp only: Let_def b1(1) t) simp
      moreover have "pipe_write src p = (int ?n, pipe_of No_retry b1)"
        using False open1 b1(3-5) r(7) by (simp add: pipe_write_def pipe_of_def Let_def)
      ultimately show ?thesis using r b1(2,5)
        by (intro exI [of _ "put_bb a b1 ?h"]) (auto simp: half_put half_put_same put_bb_put)
    qed
  qed
qed

lemma bio_read_half:
  assumes "half h a b p" "half h b a q" "a \<noteq> b" "0 < n" "n < 2 ^ 31"
  shows "\<exists>h'. bio_read h a False (int n) = (case pipe_read n q of (v, bs, q') \<Rightarrow> Some (v, bs, h')) \<and>
    half h' b a (snd (snd (pipe_read n q))) \<and> half h' a b (p\<lparr>p_retry := read_retry q\<rparr>) \<and> (\<forall>c d q. c \<noteq> a \<and> c \<noteq> b \<longrightarrow> half h' c d q = half h c d q)"
proof -
  obtain r x w where r: "bh_bio h a = Some r" "bi_ptr r = Pair_ptr x" "bb_ok x" "bb_peer x = Some b" "bi_init r \<noteq> 0"
    "bi_method r = Some 0" "p = pipe_of w x" using assms(1) by (auto simp: half_def)
  obtain s z u where s: "bh_bio h b = Some s" "bi_ptr s = Pair_ptr z" "bb_ok z" "bb_peer z = Some a" "bi_init s \<noteq> 0"
    "bi_method s = Some 0" "q = pipe_of u z" "BIO_get_retry_flags s = retry_word u"
    using assms(2) by (auto simp: half_def)
  obtain y where y: "bb_buf z = Some y" using s(3) by (auto simp: bb_ok_def)
  let ?z = "z\<lparr>bb_request := 0\<rparr>" and ?r = "BIO_clear_retry_flags r"
  let ?h = "bio_put b (s\<lparr>bi_ptr := Pair_ptr ?z\<rparr>) (bio_put a ?r h)"
  have len: "bb_len z \<le> bb_size z" "bb_size z < 2 ^ 31" using s(3) by (auto simp: bb_ok_def)
  have n: "int_size (int n) = n" using assms(5) by (simp add: int_size_int)
  have w: "bio_read h a False (int n) =
      (if bb_len z = 0 then
         (if bb_closed z then Some (0, [], ?h)
          else Some (- 1, [], put_bb b (?z\<lparr>bb_request := (if n \<le> bb_size z then n else bb_size z)\<rparr>) (bio_upd a BIO_set_retry_read ?h)))
       else let m = (if bb_len z < n then bb_len z else n)
         in do { (bs, z1) \<leftarrow> bio_read_loop ?z m; Some (to_int m, bs, put_bb b z1 ?h) })"
    using r(1,2,4,5) s(1,2) y assms(3,4) unfolding bio_read_def n Let_def
    by (simp add: bio_upd_put put_bb_put get_bb_def)
  show ?thesis
  proof (cases "bb_len z = 0")
    case True
    have e: "p_data q = []" using True s(7) by (simp add: pipe_of_def bb_view_def)
    show ?thesis
    proof (cases "bb_closed z")
      case True
      then show ?thesis using w r s e \<open>bb_len z = 0\<close> assms(3)
        by (intro exI [of _ ?h]) (auto simp: half_put half_put_same pipe_read_def pipe_of_def read_retry_def)
    next
      case False
      have m: "(if n \<le> bb_size z then n else bb_size z) = min n (bb_size z)" by auto
      show ?thesis using w r s e False \<open>bb_len z = 0\<close> assms(3) unfolding m
        by (intro exI [of _ "put_bb b (?z\<lparr>bb_request := min n (bb_size z)\<rparr>) (bio_upd a BIO_set_retry_read ?h)"])
          (auto simp: half_put half_put_same pipe_read_def pipe_of_def read_retry_def bio_upd_put put_bb_put)
    qed
  next
    case False
    let ?m = "min n (bb_len z)"
    have m: "(if bb_len z < n then bb_len z else n) = ?m" by auto
    have "0 < ?m" "?m \<le> bb_len ?z" using False assms(4) by auto
    from bio_read_loop_view [OF _ this] s(3) obtain z1 where z1: "bio_read_loop ?z ?m = Some (take ?m (bb_view z), z1)" "bb_ok z1"
      "bb_view z1 = drop ?m (bb_view z)"
      "(bb_peer z1, bb_closed z1, bb_size z1, bb_request z1) = (bb_peer z, bb_closed z, bb_size z, 0)"
      by auto
    have "?m < 2 ^ 31" using len by auto
    then have t: "to_int ?m = int ?m" by (rule to_int_small)
    have "bio_read h a False (int n) = Some (int ?m, take ?m (bb_view z), put_bb b z1 ?h)"
      using w False unfolding m by (simp only: Let_def z1(1) t) simp
    moreover have "pipe_read n q = (int ?m, take ?m (bb_view z), pipe_of u z1)"
    proof -
      have "bb_view z \<noteq> []" using False by (simp add: bb_view_def)
      then show ?thesis using z1(3,4) s(7) by (simp add: pipe_read_def pipe_of_def Let_def)
    qed
    moreover have "p\<lparr>p_retry := read_retry q\<rparr> = pipe_of No_retry x"
      using False r(7) s(7) by (simp add: read_retry_def pipe_of_def bb_view_def)
    ultimately show ?thesis using r s z1(2,4) assms(3)
      by (intro exI [of _ "put_bb b z1 ?h"]) (auto simp: half_put half_put_same put_bb_put)
  qed
qed

section \<open>Calls on a pair\<close>

text \<open>The calls of the users of a pair, each with the side that makes it.\<close>

datatype pair_op =
    Op_write bool "byte list"
  | Op_read bool nat
  | Op_shutdown bool
  | Op_reset_request bool
  | Op_guarantee bool
  | Op_request bool
  | Op_pending bool
  | Op_wpending bool
  | Op_should_read bool
  | Op_should_write bool
  | Op_should_retry bool

fun op_ok :: "pair_op \<Rightarrow> bool" where
  "op_ok (Op_write s bs) = (length bs < 2 ^ 31)"
| "op_ok (Op_read s n) = (n < 2 ^ 31)"
| "op_ok _ = True"

definition side :: "nat \<Rightarrow> nat \<Rightarrow> bool \<Rightarrow> nat" where
  "side a b s = (if s then b else a)"

fun pair_call ::
  "(nat \<Rightarrow> bio_method_st) \<Rightarrow> nat \<Rightarrow> nat \<Rightarrow> bio_heap \<Rightarrow> pair_op \<Rightarrow> (int \<times> byte list \<times> bio_heap) option" where
  "pair_call T a b h (Op_write s bs) =
     map_option (\<lambda>(r, h1). (r, [], h1)) (BIO_write T h (Some (side a b s)) (Some bs) (int (length bs)))"
| "pair_call T a b h (Op_read s n) = BIO_read T h (Some (side a b s)) False (int n)"
| "pair_call T a b h (Op_shutdown s) = map_option (\<lambda>(r, h1). (r, [], h1)) (BIO_shutdown_wr T h (Some (side a b s)))"
| "pair_call T a b h (Op_reset_request s) =
     map_option (\<lambda>(r, h1). (r, [], h1)) (ctrl_int T h (Some (side a b s)) BIO_C_RESET_READ_REQUEST 0 No_ptr)"
| "pair_call T a b h (Op_guarantee s) =
     map_option (\<lambda>(r, h1). (r, [], h1)) (BIO_ctrl_get_write_guarantee T h (Some (side a b s)))"
| "pair_call T a b h (Op_request s) =
     map_option (\<lambda>(r, h1). (r, [], h1)) (BIO_ctrl_get_read_request T h (Some (side a b s)))"
| "pair_call T a b h (Op_pending s) = map_option (\<lambda>(r, h1). (int r, [], h1)) (BIO_pending T h (Some (side a b s)))"
| "pair_call T a b h (Op_wpending s) = map_option (\<lambda>(r, h1). (int r, [], h1)) (BIO_wpending T h (Some (side a b s)))"
| "pair_call T a b h (Op_should_read s) = map_option (\<lambda>x. (uint (BIO_should_read x), [], h)) (bh_bio h (side a b s))"
| "pair_call T a b h (Op_should_write s) = map_option (\<lambda>x. (uint (BIO_should_write x), [], h)) (bh_bio h (side a b s))"
| "pair_call T a b h (Op_should_retry s) = map_option (\<lambda>x. (uint (BIO_should_retry x), [], h)) (bh_bio h (side a b s))"

text \<open>What they mean for the pipes: \<open>P s\<close> is what side \<open>s\<close> writes, with what \<open>s\<close> has to try again.\<close>

fun pair_spec :: "(bool \<Rightarrow> pipe) \<Rightarrow> pair_op \<Rightarrow> int \<times> byte list \<times> (bool \<Rightarrow> pipe)" where
  "pair_spec P (Op_write s bs) =
     (if bs = [] then (0, [], P) else case pipe_write bs (P s) of (r, p) \<Rightarrow> (r, [], P(s := p)))"
| "pair_spec P (Op_read s n) =
     (if n = 0 then (0, [], P) else case pipe_read n (P (\<not> s)) of (r, bs, q) \<Rightarrow> (r, bs, P(\<not> s := q, s := (P s)\<lparr>p_retry := read_retry (P (\<not> s))\<rparr>)))"
| "pair_spec P (Op_shutdown s) = (1, [], P(s := (P s)\<lparr>p_closed := True\<rparr>))"
| "pair_spec P (Op_reset_request s) = (1, [], P(s := (P s)\<lparr>p_request := 0\<rparr>))"
| "pair_spec P (Op_guarantee s) =
     (if p_closed (P s) then 0 else int (p_cap (P s)) - int (length (p_data (P s))), [], P)"
| "pair_spec P (Op_request s) = (int (p_request (P s)), [], P)"
| "pair_spec P (Op_pending s) = (int (length (p_data (P (\<not> s)))), [], P)"
| "pair_spec P (Op_wpending s) = (int (length (p_data (P s))), [], P)"
| "pair_spec P (Op_should_read s) = (if p_retry (P s) = Retry_read then 1 else 0, [], P)"
| "pair_spec P (Op_should_write s) = (if p_retry (P s) = Retry_write then 2 else 0, [], P)"
| "pair_spec P (Op_should_retry s) = (if p_retry (P s) = No_retry then 0 else 8, [], P)"

definition joined :: "bio_heap \<Rightarrow> nat \<Rightarrow> nat \<Rightarrow> (bool \<Rightarrow> pipe) \<Rightarrow> bool" where
  "joined h a b P \<longleftrightarrow> a \<noteq> b \<and> half h a b (P False) \<and> half h b a (P True)"

lemma joined_side:
  "joined h a b P \<longleftrightarrow> side a b s \<noteq> side a b (\<not> s) \<and> half h (side a b s) (side a b (\<not> s)) (P s) \<and>
     half h (side a b (\<not> s)) (side a b s) (P (\<not> s))"
  by (cases s) (auto simp: joined_def side_def)

lemma half_at:
  assumes "half h a b p"
  obtains r where "bh_bio h a = Some r" "bi_method r = Some 0" "bi_init r \<noteq> 0"
  using assms by (auto simp: half_def)

lemma half_counts:
  assumes "bh_bio h a = Some r"
  shows "half (bio_put a (r\<lparr>bi_num_read := n\<rparr>) h) c d q = half h c d q"
    "half (bio_put a (r\<lparr>bi_num_write := n\<rparr>) h) c d q = half h c d q"
  using assms by (auto simp: half_def)

lemma BIO_write_half:
  assumes T: "T 0 = methods_biop env" and h: "half h a b p" and src: "src \<noteq> []" "length src < 2 ^ 31"
  shows "\<exists>h'. BIO_write T h (Some a) (Some src) (int (length src)) = Some (fst (pipe_write src p), h') \<and>
    half h' a b (snd (pipe_write src p)) \<and> (\<forall>c d q. c \<noteq> a \<longrightarrow> half h' c d q = half h c d q)"
proof -
  obtain r where r: "bh_bio h a = Some r" "bi_method r = Some 0" "bi_init r \<noteq> 0" using half_at [OF h] by blast
  obtain h1 where w: "bio_write h a (Some src) (int (length src)) = Some (fst (pipe_write src p), h1)"
    "half h1 a b (snd (pipe_write src p))" "\<forall>c d q. c \<noteq> a \<longrightarrow> half h1 c d q = half h c d q"
    using bio_write_half [OF h src] by blast
  obtain r1 where r1: "bh_bio h1 a = Some r1" using half_at [OF w(2)] by blast
  show ?thesis
  proof (cases "0 < fst (pipe_write src p)")
    case True
    let ?h = "bio_put a (r1\<lparr>bi_num_write := size_wrap (bi_num_write r1 + nat (fst (pipe_write src p)))\<rparr>) h1"
    show ?thesis using True w r r1 src(1) half_counts(2) [OF r1]
      by (intro exI [of _ ?h]) (simp add: BIO_write_def T methods_biop_def)
  next
    case False
    then show ?thesis using w r r1 src(1)
      by (intro exI [of _ h1]) (simp add: BIO_write_def T methods_biop_def)
  qed
qed

lemma BIO_read_half:
  assumes T: "T 0 = methods_biop env" and h: "half h a b p" "half h b a q" "a \<noteq> b" and n: "0 < n" "n < 2 ^ 31"
  shows "\<exists>h'. BIO_read T h (Some a) False (int n) = (case pipe_read n q of (v, bs, q') \<Rightarrow> Some (v, bs, h')) \<and>
    half h' b a (snd (snd (pipe_read n q))) \<and> half h' a b (p\<lparr>p_retry := read_retry q\<rparr>)"
proof -
  obtain r where r: "bh_bio h a = Some r" "bi_method r = Some 0" "bi_init r \<noteq> 0" using half_at [OF h(1)] by blast
  obtain h1 where w: "bio_read h a False (int n) = (case pipe_read n q of (v, bs, q') \<Rightarrow> Some (v, bs, h1))"
    "half h1 b a (snd (snd (pipe_read n q)))" "half h1 a b (p\<lparr>p_retry := read_retry q\<rparr>)"
    using bio_read_half [OF h n] by blast
  obtain r1 where r1: "bh_bio h1 a = Some r1" using half_at [OF w(3)] by blast
  obtain v bs q' where q: "pipe_read n q = (v, bs, q')" by (cases "pipe_read n q") auto
  show ?thesis
  proof (cases "0 < v")
    case True
    let ?h = "bio_put a (r1\<lparr>bi_num_read := size_wrap (bi_num_read r1 + nat v)\<rparr>) h1"
    show ?thesis using True w r r1 n(1) half_counts(1) [OF r1] q
      by (intro exI [of _ ?h]) (simp add: BIO_read_def T methods_biop_def)
  next
    case False
    then show ?thesis using w r r1 n(1) q
      by (intro exI [of _ h1]) (simp add: BIO_read_def T methods_biop_def)
  qed
qed

lemma BIO_ctrl_half:
  assumes "T 0 = methods_biop env" "half h a b p"
  shows "BIO_ctrl T h (Some a) cmd larg parg = bio_ctrl h a cmd larg parg"
  using assms by (auto simp: half_def BIO_ctrl_def methods_biop_def)

lemma bb_mem_upd [simp]: "bb_mem (x\<lparr>bb_request := n\<rparr>) = bb_mem x" "bb_mem (x\<lparr>bb_closed := c\<rparr>) = bb_mem x"
  by (simp_all add: bb_mem_def)

lemma bio_ctrl_half:
  assumes "half h a b p" "half h b a q" "a \<noteq> b"
  shows "bio_ctrl h a BIO_C_GET_WRITE_GUARANTEE n Q =
      Some (if p_closed p then 0 else int (p_cap p) - int (length (p_data p)), No_out, h)"
    and "bio_ctrl h a BIO_C_GET_READ_REQUEST n Q = Some (int (p_request p), No_out, h)"
    and "bio_ctrl h a BIO_CTRL_PENDING n Q = Some (int (length (p_data q)), No_out, h)"
    and "bio_ctrl h a BIO_CTRL_WPENDING n Q = Some (int (length (p_data p)), No_out, h)"
    and "\<exists>h'. bio_ctrl h a BIO_C_SHUTDOWN_WR n Q = Some (1, No_out, h') \<and> half h' a b (p\<lparr>p_closed := True\<rparr>) \<and> half h' b a q"
    and "\<exists>h'. bio_ctrl h a BIO_C_RESET_READ_REQUEST n Q = Some (1, No_out, h') \<and> half h' a b (p\<lparr>p_request := 0\<rparr>) \<and> half h' b a q"
  using assms
  by (auto simp: half_def bio_ctrl_def bio_cmd_defs get_bb_def pipe_of_def put_bb_put bb_ok_def)

lemma should_word:
  assumes "BIO_get_retry_flags r = retry_word w"
  shows "BIO_should_read r = (if w = Retry_read then 1 else 0)"
    and "BIO_should_write r = (if w = Retry_write then 2 else 0)"
    and "BIO_should_retry r = (if w = No_retry then 0 else 8)"
proof -
  have "BIO_should_read r = BIO_get_retry_flags r AND BIO_FLAGS_READ"
    "BIO_should_write r = BIO_get_retry_flags r AND BIO_FLAGS_WRITE"
    "BIO_should_retry r = BIO_get_retry_flags r AND BIO_FLAGS_SHOULD_RETRY"
    by (simp_all add: BIO_should_read_def BIO_should_write_def BIO_should_retry_def BIO_test_flags_def
        BIO_get_retry_flags_def bio_flag_defs and.assoc)
  then show "BIO_should_read r = (if w = Retry_read then 1 else 0)" "BIO_should_write r = (if w = Retry_write then 2 else 0)"
    "BIO_should_retry r = (if w = No_retry then 0 else 8)"
    unfolding assms by (cases w; simp add: bio_flag_defs)+
qed

lemma should_flags:
  assumes "half h a b p"
  shows "\<exists>r. bh_bio h a = Some r \<and> BIO_should_read r = (if p_retry p = Retry_read then 1 else 0) \<and>
    BIO_should_write r = (if p_retry p = Retry_write then 2 else 0) \<and>
    BIO_should_retry r = (if p_retry p = No_retry then 0 else 8)"
proof -
  obtain r x w where r: "bh_bio h a = Some r" "BIO_get_retry_flags r = retry_word w" "p = pipe_of w x"
    using assms by (auto simp: half_def)
  then show ?thesis using should_word [OF r(2)] by (simp add: pipe_of_def)
qed

lemma pair_call_joined:
  assumes T: "T 0 = methods_biop env" and j: "joined h a b P" and ok: "op_ok op"
  shows "\<exists>h'. pair_call T a b h op = (case pair_spec P op of (r, bs, P') \<Rightarrow> Some (r, bs, h')) \<and>
    joined h' a b (snd (snd (pair_spec P op)))"
proof (cases op)
  case (Op_write s bs)
  note h = iffD1 [OF joined_side [of _ _ _ _ s] j]
  show ?thesis
  proof (cases "bs = []")
    case True
    then show ?thesis using h j Op_write by (auto simp: BIO_write_def T methods_biop_def half_def)
  next
    case False
    then show ?thesis
      using BIO_write_half [where T = T and h = h and a = "side a b s" and b = "side a b (\<not> s)" and p = "P s" and src = bs, OF T] h ok Op_write joined_side [of _ a b _ s]
      by (auto simp: split_beta)
  qed
next
  case (Op_read s n)
  note h = iffD1 [OF joined_side [of _ _ _ _ s] j]
  show ?thesis
  proof (cases "n = 0")
    case True
    then show ?thesis using h j Op_read by (auto simp: BIO_read_def T methods_biop_def half_def)
  next
    case False
    then show ?thesis
      using BIO_read_half [where T = T and h = h and a = "side a b s" and b = "side a b (\<not> s)" and p = "P s" and q = "P (\<not> s)" and n = n, OF T] h ok Op_read joined_side [of _ a b _ s]
      by (auto simp: split_beta)
  qed
next
  case (Op_shutdown s)
  note h = iffD1 [OF joined_side [of _ _ _ _ s] j]
  show ?thesis using h bio_ctrl_half(5) [of h "side a b s" "side a b (\<not> s)" "P s" "P (\<not> s)" 0 No_ptr] joined_side [of _ a b _ s] Op_shutdown
    by (auto simp: BIO_shutdown_wr_def ctrl_int_def BIO_ctrl_half [where T = T, OF T])
next
  case (Op_reset_request s)
  note h = iffD1 [OF joined_side [of _ _ _ _ s] j]
  show ?thesis using h bio_ctrl_half(6) [of h "side a b s" "side a b (\<not> s)" "P s" "P (\<not> s)" 0 No_ptr] joined_side [of _ a b _ s] Op_reset_request
    by (auto simp: ctrl_int_def BIO_ctrl_half [where T = T, OF T])
next
  case (Op_guarantee s)
  note h = iffD1 [OF joined_side [of _ _ _ _ s] j]
  show ?thesis using h j bio_ctrl_half(1) [of h "side a b s" "side a b (\<not> s)" "P s" "P (\<not> s)" 0 No_ptr] Op_guarantee
    by (auto simp: BIO_ctrl_get_write_guarantee_def ctrl_int_def BIO_ctrl_half [where T = T, OF T])
next
  case (Op_request s)
  note h = iffD1 [OF joined_side [of _ _ _ _ s] j]
  show ?thesis using h j bio_ctrl_half(2) [of h "side a b s" "side a b (\<not> s)" "P s" "P (\<not> s)" 0 No_ptr] Op_request
    by (auto simp: BIO_ctrl_get_read_request_def ctrl_int_def BIO_ctrl_half [where T = T, OF T])
next
  case (Op_pending s)
  note h = iffD1 [OF joined_side [of _ _ _ _ s] j]
  show ?thesis using h j bio_ctrl_half(3) [of h "side a b s" "side a b (\<not> s)" "P s" "P (\<not> s)" 0 No_ptr]
      BIO_ctrl_half [where T = T, OF T, of h "side a b s" "side a b (\<not> s)" "P s"] Op_pending
    by (intro exI [of _ h]) (simp add: BIO_pending_def ctrl_int_def)
next
  case (Op_wpending s)
  note h = iffD1 [OF joined_side [of _ _ _ _ s] j]
  show ?thesis using h j bio_ctrl_half(4) [of h "side a b s" "side a b (\<not> s)" "P s" "P (\<not> s)" 0 No_ptr]
      BIO_ctrl_half [where T = T, OF T, of h "side a b s" "side a b (\<not> s)" "P s"] Op_wpending
    by (intro exI [of _ h]) (simp add: BIO_wpending_def ctrl_int_def)
next
  case (Op_should_read s)
  then show ?thesis using j should_flags [of h "side a b s" "side a b (\<not> s)" "P s"] joined_side [of h a b P s] by auto
next
  case (Op_should_write s)
  then show ?thesis using j should_flags [of h "side a b s" "side a b (\<not> s)" "P s"] joined_side [of h a b P s] by auto
next
  case (Op_should_retry s)
  then show ?thesis using j should_flags [of h "side a b s" "side a b (\<not> s)" "P s"] joined_side [of h a b P s] by auto
qed

interpretation pair: bio_contract "pair_call T a b" pair_spec "\<lambda>h P. T 0 = methods_biop env \<and> joined h a b P" op_ok for T env a b
proof (unfold_locales, elim conjE, goal_cases)
  case (1 h P op)
  then show ?case using pair_call_joined [where T = T and h = h and P = P and op = op] by (auto simp: split_beta)
qed

definition buf_cap :: "nat \<Rightarrow> nat" where
  "buf_cap n = (if n = 0 then 17 * 1024 else n)"

definition fresh_pipes :: "nat \<Rightarrow> nat \<Rightarrow> bool \<Rightarrow> pipe" where
  "fresh_pipes n1 n2 s = \<lparr>p_data = [], p_cap = buf_cap (if s then n2 else n1), p_closed = False, p_request = 0,
     p_retry = No_retry\<rparr>"

definition new_half :: bio_bio_st where
  "new_half = \<lparr>bb_peer = None, bb_closed = False, bb_len = 0, bb_offset = 0, bb_size = 17 * 1024, bb_buf = None, bb_request = 0\<rparr>"

definition new_bio :: "bio_ptr \<Rightarrow> bio" where
  "new_bio p = \<lparr>bi_method = Some 0, bi_init = 0, bi_shutdown = 1, bi_flags = 0, bi_retry_reason = 0, bi_num = 0,
     bi_references = 1, bi_ptr = p, bi_next = None, bi_num_read = 0, bi_num_write = 0\<rparr>"

lemma BIO_new_pair_half:
  assumes "T 0 = methods_biop env" "BIO_new T env h 0 = Some (Some a, h1)"
  shows "a = bh_next h \<and> h1 = bio_put a (new_bio (Pair_ptr new_half)) (h\<lparr>bh_next := a + 1\<rparr>)"
proof -
  have m: "m_create (T 0) = Some (bio_new env)" by (simp add: assms(1) methods_biop_def)
  obtain p where p: "OPENSSL_malloc env 64 = Some p"
    using assms(2) by (auto simp: BIO_new_def split: option.splits)
  let ?h = "bio_put (bh_next h) (new_bio Null_ptr) (h\<lparr>bh_next := bh_next h + 1\<rparr>)"
  have n: "BIO_new T env h 0 =
      Option.bind (bio_new env ?h (bh_next h)) (\<lambda>(ok, h2). if ok = 0 then Some (None, bio_drop (bh_next h) h2) else Some (Some (bh_next h), h2))"
    by (simp add: BIO_new_def p m Let_def new_bio_def)
  obtain q where q: "OPENSSL_malloc env 56 = Some q"
    using assms(2) unfolding n by (cases "OPENSSL_malloc env 56") (auto simp: bio_new_def)
  have "bio_new env ?h (bh_next h) = Some (1, bio_put (bh_next h) (new_bio (Pair_ptr new_half)) ?h)"
    unfolding bio_new_def q by (simp add: put_bb_put new_half_def) (simp add: new_bio_def)
  then show ?thesis using assms(2) unfolding n by auto
qed

lemma make_half_new:
  assumes "make_half env new_half n = (True, x)" "n < 2 ^ 31"
  shows "bb_ok (x\<lparr>bb_peer := q, bb_closed := False, bb_request := 0\<rparr>) \<and>
    pipe_of w (x\<lparr>bb_peer := q, bb_closed := False, bb_request := 0\<rparr>) =
      \<lparr>p_data = [], p_cap = buf_cap n, p_closed = False, p_request = 0, p_retry = w\<rparr>
    \<and> bb_peer x = None"
proof -
  obtain p where p: "OPENSSL_malloc env (buf_cap n) = Some p" "x = new_half\<lparr>bb_size := buf_cap n, bb_buf := Some p\<rparr>"
    using assms(1) by (auto simp: make_half_def new_half_def buf_cap_def Let_def split: option.splits if_splits)
  have s: "0 < buf_cap n" "buf_cap n < 2 ^ 31" using assms(2) by (simp_all add: buf_cap_def)
  have "blk_ok p \<and> blk_size p = buf_cap n" by (rule OPENSSL_malloc_ok [OF p(1)]) (use s in simp)
  then show ?thesis using s unfolding p(2)
    by (auto simp: bb_ok_def bb_mem_def blk_ok_def pipe_of_def bb_view_def new_half_def)
qed

lemma BIO_new_bio_pair_joined:
  assumes T: "T 0 = methods_biop env" and n: "n1 < 2 ^ 31" "n2 < 2 ^ 31"
    and new: "BIO_new_bio_pair T env h n1 n2 = Some (1, x, y, h')"
  shows "\<exists>a b. x = Some a \<and> y = Some b \<and> joined h' a b (fresh_pipes n1 n2)"
proof -
  obtain x1 h1 where 1: "BIO_new T env h 0 = Some (x1, h1)" using new by (auto simp: BIO_new_bio_pair_def bind_eq_Some_conv)
  obtain y1 h2 where 2: "BIO_new T env h1 0 = Some (y1, h2)" using new 1 by (auto simp: BIO_new_bio_pair_def bind_eq_Some_conv)
  obtain a b where ab: "x1 = Some a" "y1 = Some b" "x = Some a" "y = Some b" "\<exists>ok. ok \<noteq> 0 \<and> bio_make_pair env h2 a b n1 n2 = Some (ok, h')"
    using new 1 2 by (cases x1; cases y1) (auto simp: BIO_new_bio_pair_def bind_eq_Some_conv split: if_splits)
  have h1: "a = bh_next h" "h1 = bio_put a (new_bio (Pair_ptr new_half)) (h\<lparr>bh_next := a + 1\<rparr>)"
    using BIO_new_pair_half [OF T 1 [unfolded ab(1)]] by auto
  have h2: "b = bh_next h1" "h2 = bio_put b (new_bio (Pair_ptr new_half)) (h1\<lparr>bh_next := b + 1\<rparr>)"
    using BIO_new_pair_half [OF T 2 [unfolded ab(2)]] by auto
  have ne: "a \<noteq> b" using h2(1) unfolding h1(2) by (simp add: bio_put_def)
  have at: "bh_bio h2 a = Some (new_bio (Pair_ptr new_half))" "bh_bio h2 b = Some (new_bio (Pair_ptr new_half))"
    using ne unfolding h2(2) h1(2) by (simp_all add: bio_put_def)
  obtain ok where ok: "ok \<noteq> 0" "bio_make_pair env h2 a b n1 n2 = Some (ok, h')" using ab(5) by blast
  obtain c1 x2 where m1: "make_half env new_half n1 = (c1, x2)" by force
  obtain c2 y2 where m2: "make_half env new_half n2 = (c2, y2)" by force
  have g: "get_bb h2 a = Some new_half" "get_bb h2 b = Some new_half" using at by (simp_all add: get_bb_def new_bio_def)
  have nh: "bb_peer new_half = None" by (simp add: new_half_def)
  have p1: "put_bb a z h2 = bio_put a (new_bio (Pair_ptr z)) h2" for z
    using at(1) by (simp add: put_bb_put) (simp add: new_bio_def)
  have c1: "c1" using ok m1 by (cases c1) (simp_all add: bio_make_pair_def g nh)
  have p2: "put_bb b z (bio_put a q h2) = bio_put b (new_bio (Pair_ptr z)) (bio_put a q h2)" for z q
    using at(2) ne by (simp add: put_bb_put) (simp add: new_bio_def)
  have nb: "bi_ptr (new_bio z) = z" for z by (simp add: new_bio_def)
  have c2: "c2" using ok m1 m2 c1 ne by (cases c2) (simp_all add: bio_make_pair_def g nh p1 p2 nb)
  note c = c1 c2
  have h': "h' = bio_put b ((new_bio (Pair_ptr (y2\<lparr>bb_peer := Some a, bb_closed := False, bb_request := 0\<rparr>)))\<lparr>bi_init := 1\<rparr>)
      (bio_put a ((new_bio (Pair_ptr (x2\<lparr>bb_peer := Some b, bb_closed := False, bb_request := 0\<rparr>)))\<lparr>bi_init := 1\<rparr>) h2)"
    using ok m1 m2 c1 c2 ne
    by (simp add: bio_make_pair_def g nh p1 p2 nb put_bb_put bio_upd_put)
      (simp add: new_bio_def bio_put_def fun_eq_iff)
  show ?thesis
    using ab(3,4) ne make_half_new [OF _ n(1), of env x2] make_half_new [OF _ n(2), of env y2] m1 m2 c
    by (auto simp: joined_def h' half_put half_put_same new_bio_def fresh_pipes_def BIO_get_retry_flags_def)
qed

section \<open>Runs\<close>

text \<open>Everything a program can do to a fresh pair, with what was called and what came back.\<close>

inductive pair_run ::
  "(nat \<Rightarrow> bio_method_st) \<Rightarrow> nat \<Rightarrow> nat \<Rightarrow> bio_heap \<Rightarrow> bio_heap \<Rightarrow> (pair_op \<times> int \<times> byte list) list \<Rightarrow> bool"
  for T a b h0 where
    start: "pair_run T a b h0 h0 []"
  | call: "pair_run T a b h0 h tr \<Longrightarrow> op_ok op \<Longrightarrow> pair_call T a b h op = Some (r, bs, h') \<Longrightarrow>
      pair_run T a b h0 h' (tr @ [(op, r, bs)])"

inductive_cases pair_run_snocE: "pair_run T a b h0 h (tr @ [e])"
inductive_simps pair_run_Nil: "pair_run T a b h0 h []"

text \<open>What side \<open>s\<close> has got rid of, and what it has received.\<close>

fun sent_by :: "bool \<Rightarrow> pair_op \<times> int \<times> byte list \<Rightarrow> byte list" where
  "sent_by s (Op_write t bs, r, _) = (if t = s then take (nat r) bs else [])"
| "sent_by s _ = []"

fun received_by :: "bool \<Rightarrow> pair_op \<times> int \<times> byte list \<Rightarrow> byte list" where
  "received_by s (Op_read t n, r, bs) = (if t = s then bs else [])"
| "received_by s _ = []"

definition sent :: "bool \<Rightarrow> (pair_op \<times> int \<times> byte list) list \<Rightarrow> byte list" where
  "sent s tr = concat (map (sent_by s) tr)"

definition received :: "bool \<Rightarrow> (pair_op \<times> int \<times> byte list) list \<Rightarrow> byte list" where
  "received s tr = concat (map (received_by s) tr)"

lemma pair_spec_streams:
  assumes "pair_spec P op = (r, bs, P')"
  shows "received_by (\<not> s) (op, r, bs) @ p_data (P' s) = p_data (P s) @ sent_by s (op, r, bs)"
    and "p_cap (P' s) = p_cap (P s)"
    and "length (p_data (P s)) \<le> p_cap (P s) \<Longrightarrow> length (p_data (P' s)) \<le> p_cap (P' s)"
  using assms
  by (cases op; auto simp: pipe_write_def pipe_read_def Let_def split: if_splits)+

lemma pair_run_joined:
  assumes "pair_run T a b h0 h tr" "T 0 = methods_biop env" "joined h0 a b P0" "\<forall>s. p_data (P0 s) = [] "
  shows "\<exists>P. joined h a b P \<and>
    (\<forall>s. received (\<not> s) tr @ p_data (P s) = sent s tr \<and> p_cap (P s) = p_cap (P0 s) \<and> length (p_data (P s)) \<le> p_cap (P s))"
  using assms(1)
proof (induction rule: pair_run.induct)
  case start
  then show ?case using assms(3,4) by (intro exI [of _ P0]) (simp add: sent_def received_def)
next
  case (call h tr op r bs h')
  obtain P where P: "joined h a b P"
    "\<forall>s. received (\<not> s) tr @ p_data (P s) = sent s tr \<and> p_cap (P s) = p_cap (P0 s) \<and> length (p_data (P s)) \<le> p_cap (P s)"
    using call.IH by blast
  obtain P' where P': "pair_spec P op = (r, bs, P')" "joined h' a b P'"
    using pair.step_from [of T env h a b P op r bs h'] assms(2) P(1) call.hyps(2,3) by auto
  have "received (\<not> s) (tr @ [(op, r, bs)]) @ p_data (P' s) = sent s (tr @ [(op, r, bs)])" for s
    using pair_spec_streams(1) [OF P'(1), of s] P(2) by (simp add: sent_def received_def)
  moreover have "p_cap (P' s) = p_cap (P0 s) \<and> length (p_data (P' s)) \<le> p_cap (P' s)" for s
    using pair_spec_streams(2,3) [OF P'(1), of s] P(2) [rule_format, of s] by simp
  ultimately show ?case using P'(2) by blast
qed

text \<open>
  C14. A fresh pair of BIOs is two queues. Whatever the two sides call, in any order, each call gives what
  the queues give: a write takes what there is room for and fails when the queue is full or closed, a read
  takes what there is and fails when there is nothing (or reports the end when the other side has closed),
  the read request, the write guarantee and the numbers of pending bytes are those of the queues. The
  retry flags of a side, as \<open>BIO_should_read\<close>, \<open>BIO_should_write\<close> and \<open>BIO_should_retry\<close> give them, ask for a
  write after one that found the queue full, for a read after one that found it empty but not closed, and for
  nothing after any other read or write. No call is stuck: no assertion of the ring buffer fails and its
  loops end.
\<close>

theorem BIO_pair_refines:
  assumes "T 0 = methods_biop env" "n1 < 2 ^ 31" "n2 < 2 ^ 31" "BIO_new_bio_pair T env h n1 n2 = Some (1, x, y, h0)"
    and "list_all op_ok ops"
  shows "\<exists>a b h'. x = Some a \<and> y = Some b \<and> run_calls (pair_call T a b) h0 ops = Some (run_spec pair_spec (fresh_pipes n1 n2) ops, h')"
  using BIO_new_bio_pair_joined [OF assms(1-4)] pair.runs [of T env h0 _ _ "fresh_pipes n1 n2" ops] assms(1,5) by blast

text \<open>
  C15. Along every run of a fresh pair, what a side has received and what is still in the buffer of the
  other side is, in order, exactly what the other side has sent: nothing is lost, doubled, reordered or
  made up, and the buffer never holds more than it has room for.
\<close>

theorem BIO_pair_streams:
  assumes "T 0 = methods_biop env" "n1 < 2 ^ 31" "n2 < 2 ^ 31" "BIO_new_bio_pair T env h n1 n2 = Some (1, Some a, Some b, h0)"
    and "pair_run T a b h0 h' tr"
  shows "\<exists>x y. get_bb h' a = Some x \<and> get_bb h' b = Some y \<and>
    received True tr @ bb_view x = sent False tr \<and> received False tr @ bb_view y = sent True tr \<and>
    bb_len x \<le> buf_cap n1 \<and> bb_len y \<le> buf_cap n2"
proof -
  have j: "joined h0 a b (fresh_pipes n1 n2)" using BIO_new_bio_pair_joined [OF assms(1-4)] by auto
  obtain P where P: "joined h' a b P"
    "\<forall>s. received (\<not> s) tr @ p_data (P s) = sent s tr \<and> p_cap (P s) = p_cap (fresh_pipes n1 n2 s) \<and> length (p_data (P s)) \<le> p_cap (P s)"
    using pair_run_joined [OF assms(5,1) j] by (auto simp: fresh_pipes_def)
  obtain x y where xy: "get_bb h' a = Some x" "get_bb h' b = Some y" "\<exists>w. P False = pipe_of w x" "\<exists>w. P True = pipe_of w y"
    using P(1) by (auto simp: joined_def half_def get_bb_def)
  show ?thesis using P(2) [rule_format, of False] P(2) [rule_format, of True] xy
    by (auto simp: pipe_of_def fresh_pipes_def)
qed

lemma BIO_new_bio_pair_plenty:
  "\<exists>a b h'. BIO_new_bio_pair (\<lambda>_. methods_biop plenty) plenty h 4 4 = Some (1, Some a, Some b, h')"
  by (simp add: BIO_new_bio_pair_def BIO_new_def methods_biop_def bio_new_def plenty_def OPENSSL_malloc_def Let_def
      bio_make_pair_def make_half_def put_bb_put get_bb_def)

lemma BIO_pair_refines_witness:
  "\<exists>a b h0 h'. BIO_new_bio_pair (\<lambda>_. methods_biop plenty) plenty \<lparr>bh_bio = \<lambda>_. None, bh_next = 0\<rparr> 4 4 = Some (1, Some a, Some b, h0) \<and>
     run_calls (pair_call (\<lambda>_. methods_biop plenty) a b) h0
       [Op_write False [1, 2, 3, 4, 5], Op_read True 2, Op_write False [5, 6, 7], Op_write False [7], Op_should_write False,
        Op_should_retry False, Op_shutdown False, Op_read True 9, Op_read True 9, Op_should_retry True, Op_read False 1,
        Op_should_read False] =
     Some ([(4, []), (2, [1, 2]), (2, []), (- 1, []), (2, []), (8, []), (1, []), (4, [3, 4, 5, 6]), (0, []), (0, []),
       (- 1, []), (1, [])], h')"
proof -
  obtain a b h0 where n: "BIO_new_bio_pair (\<lambda>_. methods_biop plenty) plenty \<lparr>bh_bio = \<lambda>_. None, bh_next = 0\<rparr> 4 4 = Some (1, Some a, Some b, h0)"
    using BIO_new_bio_pair_plenty by blast
  from BIO_pair_refines [OF refl _ _ n, where ops = "[Op_write False [1, 2, 3, 4, 5], Op_read True 2, Op_write False [5, 6, 7], Op_write False [7], Op_should_write False,
      Op_should_retry False, Op_shutdown False, Op_read True 9, Op_read True 9, Op_should_retry True, Op_read False 1,
      Op_should_read False]"]
  show ?thesis using n by (simp add: fresh_pipes_def buf_cap_def pipe_write_def pipe_read_def read_retry_def Let_def)
qed

lemma BIO_pair_streams_witness:
  "\<exists>a b h0 h' x. BIO_new_bio_pair (\<lambda>_. methods_biop plenty) plenty \<lparr>bh_bio = \<lambda>_. None, bh_next = 0\<rparr> 4 4 = Some (1, Some a, Some b, h0) \<and>
     get_bb h' a = Some x \<and> [1, 2] @ bb_view x = [1, 2, 3, 4]"
proof -
  let ?T = "\<lambda>_ :: nat. methods_biop plenty"
  obtain a b h0 where n: "BIO_new_bio_pair ?T plenty \<lparr>bh_bio = \<lambda>_. None, bh_next = 0\<rparr> 4 4 = Some (1, Some a, Some b, h0)"
    using BIO_new_bio_pair_plenty by blast
  have j: "joined h0 a b (fresh_pipes 4 4)" using BIO_new_bio_pair_joined [OF refl _ _ n] by auto
  obtain h1 P1 where h1: "pair_call ?T a b h0 (Op_write False [1, 2, 3, 4, 5]) = Some (4, [], h1)" "joined h1 a b P1"
    "P1 = (fresh_pipes 4 4)(False := \<lparr>p_data = [1, 2, 3, 4], p_cap = 4, p_closed = False, p_request = 0, p_retry = No_retry\<rparr>)"
    using pair_call_joined [where T = ?T and h = h0 and P = "fresh_pipes 4 4" and op = "Op_write False [1, 2, 3, 4, 5]", OF refl j]
    by (auto simp: fresh_pipes_def buf_cap_def pipe_write_def Let_def)
  obtain h2 where h2: "pair_call ?T a b h1 (Op_read True 2) = Some (2, [1, 2], h2)"
    using pair_call_joined [where T = ?T and h = h1 and P = P1 and op = "Op_read True 2", OF refl h1(2)]
    by (auto simp: h1(3) pipe_read_def Let_def)
  have "pair_run ?T a b h0 h2 (([] @ [(Op_write False [1, 2, 3, 4, 5], 4, [])]) @ [(Op_read True 2, 2, [1, 2])])"
    by (rule pair_run.call [OF pair_run.call [OF pair_run.start _ h1(1)] _ h2]) simp_all
  from BIO_pair_streams [OF refl _ _ n this] show ?thesis using n by (auto simp: sent_def received_def)
qed

end
