(* ===== verification/Bio_Mem.thy ===== *)
theory Bio_Mem
  imports Bio_Pair
begin

text \<open>
Memory BIOs, \<open>bio/bio_mem.c\<close>, over the growable buffers of \<open>Mem_Buf\<close>: a queue of bytes with a line
  reader.
\<close>

section \<open>Memory BIOs\<close>

definition get_mem :: "bio_heap \<Rightarrow> nat \<Rightarrow> (BUF_MEM \<times> nat) option" where
  "get_mem h a =
     (case bh_bio h a of Some b \<Rightarrow> (case bi_ptr b of Mem_ptr m off \<Rightarrow> Some (m, off) | _ \<Rightarrow> None) | None \<Rightarrow> None)"

definition bm_mem :: "BUF_MEM \<Rightarrow> byte list" where
  "bm_mem m = (case bm_data m of None \<Rightarrow> [] | Some p \<Rightarrow> blk_mem p)"

definition mem_new :: "heap_env \<Rightarrow> bio_heap \<Rightarrow> nat \<Rightarrow> (int \<times> bio_heap) option" where
  "mem_new env h bio =
     (case BUF_MEM_new env of
        None \<Rightarrow> Some (0, h)
      | Some b \<Rightarrow>
          do { r \<leftarrow> bh_bio h bio;
               Some (1, bio_put bio (r\<lparr>bi_shutdown := 1, bi_init := 1, bi_num := - 1, bi_ptr := Mem_ptr b 0\<rparr>) h) })"

definition is_rdonly :: "bio \<Rightarrow> bool" where
  "is_rdonly r \<longleftrightarrow> bi_flags r AND BIO_FLAGS_MEM_RDONLY \<noteq> 0"

text \<open>A buffer that is freed is not followed any further.\<close>

definition mem_free :: "bio_heap \<Rightarrow> nat \<Rightarrow> (int \<times> bio_heap) option" where
  "mem_free h bio =
     do { r \<leftarrow> bh_bio h bio;
          if bi_shutdown r = 0 \<or> bi_init r = 0 \<or> bi_ptr r = Null_ptr then Some (1, h)
          else Some (1, bio_put bio (r\<lparr>bi_ptr := Null_ptr\<rparr>) h) }"

definition mem_read :: "bio_heap \<Rightarrow> nat \<Rightarrow> bool \<Rightarrow> int \<Rightarrow> (int \<times> byte list \<times> bio_heap) option" where
  "mem_read h bio null outl =
     do { r0 \<leftarrow> bh_bio h bio;
          (b, off) \<leftarrow> get_mem h bio;
          let r = BIO_clear_retry_flags r0;
          let ret = (if bm_length b < INT_MAX \<and> outl > int (bm_length b) then int (bm_length b) else outl);
          if ret > 0 then
            let n = nat ret; len1 = bm_length b - n
            in if null \<or> off + n > length (bm_mem b) \<or> n > bm_length b then None
               else Some (ret, take n (drop off (bm_mem b)),
                 bio_put bio (r\<lparr>bi_ptr :=
                   (if is_rdonly r then Mem_ptr (b\<lparr>bm_length := len1\<rparr>) (off + n)
                    else Mem_ptr (bm_write (b\<lparr>bm_length := len1\<rparr>) off (take len1 (drop (off + n) (bm_mem b)))) off)\<rparr>) h)
          else if bm_length b = 0 then
            Some (bi_num r, [], bio_put bio (if bi_num r \<noteq> 0 then BIO_set_retry_read r else r) h)
          else Some (ret, [], bio_put bio r h) }"

definition mem_write_bio :: "heap_env \<Rightarrow> bio_heap \<Rightarrow> nat \<Rightarrow> byte list option \<Rightarrow> int \<Rightarrow> (int \<times> bio_heap) option" where
  "mem_write_bio env h bio src inl =
     do { r0 \<leftarrow> bh_bio h bio;
          (b, off) \<leftarrow> get_mem h bio;
          if is_rdonly r0 then Some (- 1, h)
          else let r = BIO_clear_retry_flags r0; blen = to_int (bm_length b) in
            if blen < 0 then None
            else if int INT_MAX - blen < inl then Some (- 1, bio_put bio r h)
            else case BUF_MEM_grow_clean env b (int_size (blen + inl)) of
              (n, b1) \<Rightarrow>
                if n \<noteq> int_size (blen + inl) then Some (- 1, bio_put bio (r\<lparr>bi_ptr := Mem_ptr b1 off\<rparr>) h)
                else do { bs \<leftarrow> src;
                          Some (inl, bio_put bio (r\<lparr>bi_ptr := Mem_ptr (bm_write b1 (off + nat blen) (take (nat inl) bs)) off\<rparr>) h) } }"

text \<open>Where the loop of \<open>mem_gets\<close> stops: behind the first newline, or at the end.\<close>

fun gets_loop :: "byte list \<Rightarrow> nat \<Rightarrow> nat" where
  "gets_loop p 0 = 0"
| "gets_loop [] (Suc j) = Suc j"
| "gets_loop (c # p) (Suc j) = (if c = 0x0A then 1 else Suc (gets_loop p j))"

definition mem_gets :: "bio_heap \<Rightarrow> nat \<Rightarrow> bool \<Rightarrow> int \<Rightarrow> (int \<times> byte list \<times> bio_heap) option" where
  "mem_gets h bio null n =
     do { r0 \<leftarrow> bh_bio h bio;
          (b, off) \<leftarrow> get_mem h bio;
          let h1 = bio_put bio (BIO_clear_retry_flags r0) h;
          let j0 = to_int (bm_length b);
          let j = (if n - 1 < j0 then n - 1 else j0);
          if j \<le> 0 then (if n > 0 then (if null then None else Some (0, [0], h1)) else Some (0, [], h1))
          else if off + nat j > length (bm_mem b) then None
          else do { (i, bs, h2) \<leftarrow> mem_read h1 bio null (int (gets_loop (drop off (bm_mem b)) (nat j)));
                    Some (i, if i > 0 then bs @ [0] else bs, h2) } }"

definition mem_ctrl ::
  "bio_heap \<Rightarrow> nat \<Rightarrow> int \<Rightarrow> int \<Rightarrow> ctrl_ptr \<Rightarrow> (int \<times> ctrl_out \<times> bio_heap) option" where
  "mem_ctrl h bio cmd num ptr =
     do { r \<leftarrow> bh_bio h bio;
          if cmd = BIO_CTRL_RESET then
            do { (b, off) \<leftarrow> get_mem h bio;
                 if bm_data b = None then Some (1, No_out, h)
                 else if is_rdonly r then
                   (if bm_max b - bm_length b > off then None
                    else Some (1, No_out, bio_put bio
                      (r\<lparr>bi_ptr := Mem_ptr (b\<lparr>bm_length := bm_max b\<rparr>) (off - (bm_max b - bm_length b))\<rparr>) h))
                 else Some (1, No_out, bio_put bio
                      (r\<lparr>bi_ptr := Mem_ptr ((bm_write b off (replicate (bm_max b) 0))\<lparr>bm_length := 0\<rparr>) off\<rparr>) h) }
          else if cmd = BIO_CTRL_EOF then
            map_option (\<lambda>(b, _). (if bm_length b = 0 then 1 else 0, No_out, h)) (get_mem h bio)
          else if cmd = BIO_C_SET_BUF_MEM_EOF_RETURN then
            Some (1, No_out, bio_put bio (r\<lparr>bi_num := sint (word_of_int num :: 32 word)\<rparr>) h)
          else if cmd = BIO_CTRL_INFO then
            map_option (\<lambda>(b, off). (int (bm_length b), if ptr = No_ptr then No_out else Out_data (bm_data b) off, h)) (get_mem h bio)
          else if cmd = BIO_C_SET_BUF_MEM then
            do { (_, h1) \<leftarrow> mem_free h bio;
                 r1 \<leftarrow> bh_bio h1 bio;
                 p \<leftarrow> (case ptr of Buf_ptr b \<Rightarrow> Some (Mem_ptr b 0) | No_ptr \<Rightarrow> Some Null_ptr | _ \<Rightarrow> None);
                 Some (1, No_out, bio_put bio (r1\<lparr>bi_shutdown := sint (word_of_int num :: 32 word), bi_ptr := p\<rparr>) h1) }
          else if cmd = BIO_C_GET_BUF_MEM_PTR then
            Some (1, case get_mem h bio of Some (b, _) \<Rightarrow> if ptr = No_ptr then No_out else Out_buf b | None \<Rightarrow> No_out, h)
          else if cmd = BIO_CTRL_GET_CLOSE then Some (bi_shutdown r, No_out, h)
          else if cmd = BIO_CTRL_SET_CLOSE then Some (1, No_out, bio_put bio (r\<lparr>bi_shutdown := sint (word_of_int num :: 32 word)\<rparr>) h)
          else if cmd = BIO_CTRL_WPENDING then Some (0, No_out, h)
          else if cmd = BIO_CTRL_PENDING then map_option (\<lambda>(b, _). (int (bm_length b), No_out, h)) (get_mem h bio)
          else if cmd = BIO_CTRL_FLUSH then Some (1, No_out, h)
          else Some (0, No_out, h) }"

definition BIO_s_mem :: "heap_env \<Rightarrow> bio_method_st" where
  "BIO_s_mem env =
     \<lparr>m_type = 0x401, m_bwrite = Some (mem_write_bio env), m_bread = Some mem_read, m_bgets = Some mem_gets,
      m_ctrl = Some mem_ctrl, m_create = Some (mem_new env), m_destroy = Some mem_free, m_callback_ctrl = None\<rparr>"

text \<open>
  The buffer of the caller is given with its bytes. A negative length asks for \<open>strlen\<close>, before the pointer
  is looked at.
\<close>

definition BIO_new_mem_buf ::
  "(nat \<Rightarrow> bio_method_st) \<Rightarrow> heap_env \<Rightarrow> bio_heap \<Rightarrow> byte list option \<Rightarrow> int \<Rightarrow> (nat option \<times> bio_heap) option" where
  "BIO_new_mem_buf T env h buf len =
     do { n \<leftarrow> (if len < 0 then map_option c_strlen buf else Some (nat len));
          if buf = None \<and> len \<noteq> 0 then Some (None, h)
          else do { (ret, h1) \<leftarrow> BIO_new T env h 1;
                    case ret of
                      None \<Rightarrow> Some (None, h1)
                    | Some a \<Rightarrow>
                        do { r \<leftarrow> bh_bio h1 a;
                             (b, off) \<leftarrow> get_mem h1 a;
                             let b1 = b\<lparr>bm_data := map_option (\<lambda>bs. \<lparr>blk_size = n, blk_mem = bs\<rparr>) buf, bm_length := n, bm_max := n\<rparr>;
                             Some (Some a, bio_put a (r\<lparr>bi_ptr := Mem_ptr b1 0, bi_flags := bi_flags r OR BIO_FLAGS_MEM_RDONLY,
                                 bi_num := 0\<rparr>) h1) } } }"

definition BIO_mem_contents :: "bio_heap \<Rightarrow> nat \<Rightarrow> (int \<times> byte list) option" where
  "BIO_mem_contents h bio =
     do { r \<leftarrow> bh_bio h bio;
          if bi_method r \<noteq> Some 1 then Some (0, [])
          else map_option (\<lambda>(b, off). (1, take (bm_length b) (drop off (bm_mem b)))) (get_mem h bio) }"

definition BIO_get_mem_data :: "(nat \<Rightarrow> bio_method_st) \<Rightarrow> bio_heap \<Rightarrow> nat option \<Rightarrow> (int \<times> ctrl_out \<times> bio_heap) option" where
  "BIO_get_mem_data T h x = BIO_ctrl T h x BIO_CTRL_INFO 0 Out_ptr"

definition BIO_get_mem_ptr :: "(nat \<Rightarrow> bio_method_st) \<Rightarrow> bio_heap \<Rightarrow> nat option \<Rightarrow> (int \<times> ctrl_out \<times> bio_heap) option" where
  "BIO_get_mem_ptr T h x = BIO_ctrl T h x BIO_C_GET_BUF_MEM_PTR 0 Out_ptr"

definition BIO_set_mem_buf :: "(nat \<Rightarrow> bio_method_st) \<Rightarrow> bio_heap \<Rightarrow> nat option \<Rightarrow> BUF_MEM \<Rightarrow> int \<Rightarrow> (int \<times> bio_heap) option" where
  "BIO_set_mem_buf T h x b take_ownership = ctrl_int T h x BIO_C_SET_BUF_MEM take_ownership (Buf_ptr b)"

definition BIO_set_mem_eof_return :: "(nat \<Rightarrow> bio_method_st) \<Rightarrow> bio_heap \<Rightarrow> nat option \<Rightarrow> int \<Rightarrow> (int \<times> bio_heap) option" where
  "BIO_set_mem_eof_return T h x eof_value = ctrl_int T h x BIO_C_SET_BUF_MEM_EOF_RETURN eof_value No_ptr"

section \<open>What a memory BIO holds\<close>

definition mem_holds :: "bio_heap \<Rightarrow> nat \<Rightarrow> bool \<Rightarrow> int \<Rightarrow> byte list \<Rightarrow> bool" where
  "mem_holds h a ro eof bs \<longleftrightarrow>
     (\<exists>r m off. bh_bio h a = Some r \<and> bi_ptr r = Mem_ptr m off \<and> bi_method r = Some 1 \<and> bi_init r \<noteq> 0 \<and> bi_num r = eof \<and>
        is_rdonly r = ro \<and> bm_length m = length bs \<and> off + length bs \<le> length (bm_mem m) \<and>
        take (length bs) (drop off (bm_mem m)) = bs \<and> (\<not> ro \<longrightarrow> off = 0 \<and> bm_ok m))"

lemma is_rdonly_flags [simp]:
  "is_rdonly (BIO_clear_retry_flags r) = is_rdonly r" "is_rdonly (BIO_set_retry_read r) = is_rdonly r"
  "is_rdonly (r\<lparr>bi_ptr := p\<rparr>) = is_rdonly r" "is_rdonly (r\<lparr>bi_num_read := n\<rparr>) = is_rdonly r"
  "is_rdonly (r\<lparr>bi_num_write := n\<rparr>) = is_rdonly r"
proof -
  have b: "BIO_FLAGS_MEM_RDONLY = push_bit 9 1" "kRetryFlags = 15" 
    by (simp_all add: BIO_FLAGS_MEM_RDONLY_def kRetryFlags_def BIO_FLAGS_RWS_def BIO_FLAGS_READ_def BIO_FLAGS_WRITE_def
        BIO_FLAGS_IO_SPECIAL_def BIO_FLAGS_SHOULD_RETRY_def)
  have i: "is_rdonly r = bit (bi_flags r) 9" for r
    unfolding is_rdonly_def b by (simp only: bit_iff_and_push_bit_not_eq_0)
  show "is_rdonly (BIO_clear_retry_flags r) = is_rdonly r" "is_rdonly (BIO_set_retry_read r) = is_rdonly r"
    unfolding i BIO_clear_retry_flags_def BIO_set_retry_read_def b BIO_FLAGS_READ_def BIO_FLAGS_SHOULD_RETRY_def
    by (simp_all add: bit_simps)
qed (simp_all add: is_rdonly_def)

lemma bi_num_flags [simp]: "bi_num (BIO_clear_retry_flags r) = bi_num r" "bi_num (BIO_set_retry_read r) = bi_num r"
  by (simp_all add: BIO_clear_retry_flags_def BIO_set_retry_read_def)

lemma bm_mem_length [simp]: "bm_mem (m\<lparr>bm_length := n\<rparr>) = bm_mem m"
  by (simp add: bm_mem_def)

lemma bm_mem_write: "bm_data m \<noteq> None \<Longrightarrow> bm_mem (bm_write m i bs) = mem_write (bm_mem m) i bs"
  by (auto simp: bm_mem_def bm_write_def)

lemma bm_write_simps [simp]: "bm_length (bm_write m i bs) = bm_length m" "bm_max (bm_write m i bs) = bm_max m"
  "bm_data (bm_write m i bs) = None \<longleftrightarrow> bm_data m = None"
  by (simp_all add: bm_write_def)

lemma bm_ok_write: "bm_ok m \<Longrightarrow> i + length bs \<le> bm_max m \<Longrightarrow> bm_ok (bm_write m i bs)"
  by (auto simp: bm_ok_def bm_write_def blk_ok_def split: option.splits)

lemma bm_ok_less: "bm_ok m \<Longrightarrow> n \<le> bm_length m \<Longrightarrow> bm_ok (m\<lparr>bm_length := n\<rparr>)"
  by (auto simp: bm_ok_def split: option.splits)

lemma mem_read_holds:
  assumes h: "mem_holds h a ro eof bs" and n: "0 < n" "n < 2 ^ 31"
  shows "\<exists>h'. mem_read h a False (int n) = Some (if bs = [] then eof else int (min n (length bs)), take n bs, h') \<and>
    mem_holds h' a ro eof (drop n bs)"
proof -
  obtain r m off where r: "bh_bio h a = Some r" "bi_ptr r = Mem_ptr m off" "bi_method r = Some 1" "bi_init r \<noteq> 0" "bi_num r = eof"
    "is_rdonly r = ro" "bm_length m = length bs" "off + length bs \<le> length (bm_mem m)"
    "take (length bs) (drop off (bm_mem m)) = bs" "\<not> ro \<longrightarrow> off = 0 \<and> bm_ok m"
    using h by (auto simp: mem_holds_def)
  have g: "get_mem h a = Some (m, off)" using r by (simp add: get_mem_def)
  let ?k = "min n (length bs)"
  have ret: "(if bm_length m < INT_MAX \<and> int n > int (bm_length m) then int (bm_length m) else int n) = int ?k"
    using r(7) n(2) by (auto simp: INT_MAX_def)
  show ?thesis
  proof (cases "bs = []")
    case True
    then have "mem_read h a False (int n) =
        Some (eof, [], bio_put a (if eof \<noteq> 0 then BIO_set_retry_read (BIO_clear_retry_flags r) else BIO_clear_retry_flags r) h)"
      using r(1,5,7) g ret by (simp add: mem_read_def Let_def)
    then show ?thesis using True r
      by (auto simp: mem_holds_def)
  next
    case False
    have k: "0 < ?k" "?k \<le> length bs" using False n(1) by auto
    have t: "take ?k (drop off (bm_mem m)) = take n bs"
    proof -
      have "take n bs = take ?k bs" by (simp add: min_def)
      also have "\<dots> = take ?k (take (length bs) (drop off (bm_mem m)))" by (simp only: r(9))
      also have "\<dots> = take ?k (drop off (bm_mem m))" by simp
      finally show ?thesis by simp
    qed
    have d: "take (length bs - ?k) (drop (off + ?k) (bm_mem m)) = drop n bs"
    proof -
      have "drop n bs = drop ?k bs" by (cases "n \<le> length bs") simp_all
      also have "\<dots> = drop ?k (take (length bs) (drop off (bm_mem m)))" by (simp only: r(9))
      finally show ?thesis by (simp add: drop_take add.commute)
    qed
    let ?p = "if ro then Mem_ptr (m\<lparr>bm_length := length bs - ?k\<rparr>) (off + ?k)
      else Mem_ptr (bm_write (m\<lparr>bm_length := length bs - ?k\<rparr>) off (drop n bs)) off"
    have rd: "mem_read h a False (int n) = Some (int ?k, take n bs, bio_put a ((BIO_clear_retry_flags r)\<lparr>bi_ptr := ?p\<rparr>) h)"
      unfolding mem_read_def using r(1,6,7,8) k g ret by (simp add: Let_def t d)
    have data: "bm_data m \<noteq> None" using r(8) False by (auto simp: bm_mem_def split: option.splits)
    have ld: "length bs - ?k = length (drop n bs)" by simp
    have "mem_holds (bio_put a ((BIO_clear_retry_flags r)\<lparr>bi_ptr := ?p\<rparr>) h) a ro eof (drop n bs)"
    proof (cases ro)
      case True
      then show ?thesis using r d k by (simp add: mem_holds_def ld)
    next
      case False
      then have o: "off = 0" "bm_ok m" using r(10) by auto
      have mx: "length (drop n bs) \<le> bm_max m" using o(2) r(7) by (auto simp: bm_ok_def)
      have lm: "length (bm_mem m) = bm_max m" using o(2) data by (auto simp: bm_ok_def bm_mem_def blk_ok_def)
      have "bm_ok (bm_write (m\<lparr>bm_length := length bs - ?k\<rparr>) 0 (drop n bs))"
        using mx by (intro bm_ok_write bm_ok_less o(2)) (use r(7) in simp_all)
      then show ?thesis using False r o mx data
        by (simp add: mem_holds_def bm_mem_write lm ld mem_write_def)
    qed
    moreover have "int ?k = (if bs = [] then eof else int ?k)" using False by simp
    ultimately show ?thesis using rd by (intro exI conjI) (simp only:, assumption)
  qed
qed

lemma BUF_MEM_grow_view:
  assumes "bm_ok m" "bm_length m \<le> n" "n < 2 ^ 62" "BUF_MEM_grow_clean env m n = (k, m')"
  shows "bm_ok m' \<and> (k = n \<longrightarrow> 0 < n \<longrightarrow> bm_length m' = n \<and> take (bm_length m) (bm_mem m') = take (bm_length m) (bm_mem m) \<and> bm_data m' \<noteq> None) \<and>
    (k \<noteq> n \<longrightarrow> bm_length m' = bm_length m \<and> bm_view m' = bm_view m) \<and> ((\<forall>j. malloc_ok env j) \<longrightarrow> k = n)"
proof -
  obtain ok m1 where r: "BUF_MEM_reserve env m n = (ok, m1)" by force
  note r1 = BUF_MEM_reserve_ok [OF assms(1,3) r]
  have v: "bm_view x = take (bm_length x) (bm_mem x)" for x by (simp add: bm_view_def bm_mem_def split: option.splits)
  have p: "ok" if "\<forall>j. malloc_ok env j"
  proof -
    let ?a = "(n + 3) div 3 * 4"
    have "?a < 2 ^ 64" "n + 3 < 2 ^ 64" using assms(3) by simp_all
    then have "size_wrap (n + 3) = n + 3" "size_wrap ?a = ?a" by (simp_all only: size_wrap_id)
    then show ?thesis using r that
      by (cases "bm_data m") (auto simp: BUF_MEM_reserve_def OPENSSL_realloc_def OPENSSL_malloc_def Let_def split: if_splits)
  qed
  show ?thesis
  proof (cases ok)
    case False
    then show ?thesis using assms r r1 p by (auto simp: BUF_MEM_grow_clean_def BUF_MEM_grow_def)
  next
    case True
    let ?z = "replicate (n - bm_length m) 0"
    have m: "m' = (if bm_length m < n then bm_write m1 (bm_length m) ?z else m1)\<lparr>bm_length := n\<rparr>" "k = n"
      using assms(4) r r1 True by (auto simp: BUF_MEM_grow_clean_def BUF_MEM_grow_def Let_def)
    have d: "0 < n \<Longrightarrow> bm_data m1 \<noteq> None" using r1 True by (auto simp: bm_ok_def split: option.splits)
    have r2: "take (bm_length m) (bm_mem m1) = take (bm_length m) (bm_mem m)"
      using r1 v [of m1] v [of m] by metis
    have "bm_ok m'"
    proof (cases "bm_length m < n")
      case True
      then show ?thesis using bm_write_view(1) [of m1 ?z] r1 m \<open>ok\<close> by simp
    next
      case False
      then show ?thesis using m r1 assms(2) bm_ok_less [of m1 n] by simp
    qed
    moreover have "take (bm_length m) (bm_mem m') = take (bm_length m) (bm_mem m)" if "0 < n"
    proof (cases "bm_length m < n")
      case True
      have "length (bm_mem m1) = bm_max m1" using r1 d [OF that] by (auto simp: bm_ok_def bm_mem_def blk_ok_def split: option.splits)
      then have "bm_length m \<le> length (bm_mem m1)" using r1 \<open>ok\<close> assms(2) by auto
      then have "take (bm_length m) (bm_mem m') = take (bm_length m) (bm_mem m1)"
        using True m(1) d [OF that] by (simp add: bm_mem_write take_mem_write_le)
      then show ?thesis using r2 by simp
    next
      case False
      then show ?thesis using m r1 assms(2) r2 by simp
    qed
    moreover have "0 < n \<Longrightarrow> bm_data m' \<noteq> None" using m(1) d by (simp del: not_None_eq)
    ultimately show ?thesis using m by simp
  qed
qed

lemma mem_write_holds:
  assumes h: "mem_holds h a False eof bs" and src: "src \<noteq> []" "length src < 2 ^ 31" "length bs < 2 ^ 31"
  shows "\<exists>h' ok. mem_write_bio env h a (Some src) (int (length src)) = Some (if ok then int (length src) else - 1, h') \<and>
    mem_holds h' a False eof (if ok then bs @ src else bs) \<and>
    ((\<forall>j. malloc_ok env j) \<longrightarrow> ok = (length bs + length src < 2 ^ 31))"
proof -
  obtain r m where r: "bh_bio h a = Some r" "bi_ptr r = Mem_ptr m 0" "bi_method r = Some 1" "bi_init r \<noteq> 0" "bi_num r = eof"
    "\<not> is_rdonly r" "bm_length m = length bs" "length bs \<le> length (bm_mem m)" "take (length bs) (bm_mem m) = bs" "bm_ok m"
    using h by (auto simp: mem_holds_def)
  have g: "get_mem h a = Some (m, 0)" using r by (simp add: get_mem_def)
  have l: "to_int (bm_length m) = int (length bs)" using r(7) src(3) by (simp add: to_int_small)
  show ?thesis
  proof (cases "length bs + length src < 2 ^ 31")
    case False
    then have "int INT_MAX - int (length bs) < int (length src)" by (simp add: INT_MAX_def)
    then have "mem_write_bio env h a (Some src) (int (length src)) = Some (- 1, bio_put a (BIO_clear_retry_flags r) h)"
      using r(1,6) g l by (simp add: mem_write_bio_def)
    moreover have "mem_holds (bio_put a (BIO_clear_retry_flags r) h) a False eof bs" using r by (auto simp: mem_holds_def)
    ultimately show ?thesis using False by (intro exI [of _ "bio_put a (BIO_clear_retry_flags r) h"] exI [of _ False]) simp
  next
    case True
    let ?n = "length bs + length src"
    have i: "\<not> int INT_MAX - int (length bs) < int (length src)" using True by (simp add: INT_MAX_def)
    have z: "int_size (int (length bs) + int (length src)) = ?n" using int_size_int [of ?n] True by simp
    obtain k m1 where gr: "BUF_MEM_grow_clean env m ?n = (k, m1)" by force
    have n: "bm_length m \<le> ?n" "?n < 2 ^ 62" "0 < ?n" using r(7) True src(1) by auto
    note v = BUF_MEM_grow_view [OF r(10) n(1,2) gr]
    show ?thesis
    proof (cases "k = ?n")
      case False
      let ?h = "bio_put a ((BIO_clear_retry_flags r)\<lparr>bi_ptr := Mem_ptr m1 0\<rparr>) h"
      have w: "mem_write_bio env h a (Some src) (int (length src)) = Some (- 1, ?h)"
        using r(1,6) g l i z gr False by (simp add: mem_write_bio_def)
      have m1: "bm_ok m1" "bm_length m1 = length bs" "bm_view m1 = bs" using v False r(7,9)
        by (auto simp: bm_view_def bm_mem_def split: option.splits)
      have m2: "take (length bs) (bm_mem m1) = bs"
        using m1(2,3) by (auto simp: bm_view_def bm_mem_def split: option.splits)
      have "length (take (length bs) (bm_mem m1)) = length bs" by (simp only: m2)
      then have "length bs \<le> length (bm_mem m1)" by simp
      then have "mem_holds ?h a False eof bs" using r m1 m2 by (auto simp: mem_holds_def)
      then show ?thesis using w v False by (intro exI [of _ ?h] exI [of _ False]) auto
    next
      case True
      let ?m = "bm_write m1 (length bs) src"
      let ?h = "bio_put a ((BIO_clear_retry_flags r)\<lparr>bi_ptr := Mem_ptr ?m 0\<rparr>) h"
      have w: "mem_write_bio env h a (Some src) (int (length src)) = Some (int (length src), ?h)"
        using r(1,6) g l i z gr True by (simp add: mem_write_bio_def)
      have m1: "bm_ok m1" "bm_length m1 = ?n" "take (length bs) (bm_mem m1) = bs" "bm_data m1 \<noteq> None"
        using v True n(3) r(7,9) by auto
      have lm: "length (bm_mem m1) = bm_max m1" "?n \<le> bm_max m1"
        using m1(1,2,4) by (auto simp: bm_ok_def bm_mem_def blk_ok_def)
      have "bm_ok ?m" using m1(1) lm(2) by (intro bm_ok_write) auto
      moreover have "take ?n (bm_mem ?m) = bs @ src"
        using lm m1(3,4) take_mem_write [of "length bs" src "bm_mem m1"] by (simp add: bm_mem_write)
      moreover have "length (bm_mem ?m) = bm_max m1" using lm m1(4) by (simp add: bm_mem_write)
      ultimately have "mem_holds ?h a False eof (bs @ src)" using r m1(2) lm(2) by (auto simp: mem_holds_def)
      then show ?thesis using w \<open>?n < 2 ^ 31\<close> by (intro exI [of _ ?h] exI [of _ True]) auto
    qed
  qed
qed

section \<open>Calls on a memory BIO\<close>

lemma mem_holds_at:
  assumes "mem_holds h a ro eof bs"
  obtains r where "bh_bio h a = Some r" "bi_method r = Some 1" "bi_init r \<noteq> 0"
  using assms by (auto simp: mem_holds_def)

lemma mem_holds_counts:
  assumes "bh_bio h a = Some r"
  shows "mem_holds (bio_put a (r\<lparr>bi_num_read := n\<rparr>) h) a ro eof bs = mem_holds h a ro eof bs"
    "mem_holds (bio_put a (r\<lparr>bi_num_write := n\<rparr>) h) a ro eof bs = mem_holds h a ro eof bs"
  using assms by (auto simp: mem_holds_def)

lemma BIO_read_mem:
  assumes T: "T (Suc 0) = BIO_s_mem env" and h: "mem_holds h a ro eof bs" and n: "0 < n" "n < 2 ^ 31"
  shows "\<exists>h'. BIO_read T h (Some a) False (int n) = Some (if bs = [] then eof else int (min n (length bs)), take n bs, h') \<and>
    mem_holds h' a ro eof (drop n bs)"
proof -
  obtain r where r: "bh_bio h a = Some r" "bi_method r = Some 1" "bi_init r \<noteq> 0" using mem_holds_at [OF h] by blast
  let ?v = "if bs = [] then eof else int (min n (length bs))"
  obtain h1 where m: "mem_read h a False (int n) = Some (?v, take n bs, h1)" "mem_holds h1 a ro eof (drop n bs)"
    using mem_read_holds [OF h n] by blast
  obtain r1 where r1: "bh_bio h1 a = Some r1" using mem_holds_at [OF m(2)] by blast
  let ?h = "if ?v > 0 then bio_put a (r1\<lparr>bi_num_read := size_wrap (bi_num_read r1 + nat ?v)\<rparr>) h1 else h1"
  have "BIO_read T h (Some a) False (int n) = Some (?v, take n bs, ?h)"
    using r n(1) m(1) r1 by (simp add: BIO_read_def T BIO_s_mem_def)
  moreover have "mem_holds ?h a ro eof (drop n bs)" using m(2) mem_holds_counts(1) [OF r1] by simp
  ultimately show ?thesis by blast
qed

lemma BIO_write_mem:
  assumes T: "T (Suc 0) = BIO_s_mem env" and h: "mem_holds h a False eof bs"
    and src: "src \<noteq> []" "length src < 2 ^ 31" "length bs < 2 ^ 31"
  shows "\<exists>h' ok. BIO_write T h (Some a) (Some src) (int (length src)) = Some (if ok then int (length src) else - 1, h') \<and>
    mem_holds h' a False eof (if ok then bs @ src else bs) \<and>
    ((\<forall>j. malloc_ok env j) \<longrightarrow> ok = (length bs + length src < 2 ^ 31))"
proof -
  obtain r where r: "bh_bio h a = Some r" "bi_method r = Some 1" "bi_init r \<noteq> 0" using mem_holds_at [OF h] by blast
  obtain h1 ok where m: "mem_write_bio env h a (Some src) (int (length src)) = Some (if ok then int (length src) else - 1, h1)"
    "mem_holds h1 a False eof (if ok then bs @ src else bs)" "(\<forall>j. malloc_ok env j) \<longrightarrow> ok = (length bs + length src < 2 ^ 31)"
    using mem_write_holds [OF h src] by blast
  obtain r1 where r1: "bh_bio h1 a = Some r1" using mem_holds_at [OF m(2)] by blast
  let ?h = "if ok then bio_put a (r1\<lparr>bi_num_write := size_wrap (bi_num_write r1 + length src)\<rparr>) h1 else h1"
  have "BIO_write T h (Some a) (Some src) (int (length src)) = Some (if ok then int (length src) else - 1, ?h)"
    using r src(1) m(1) r1 by (simp add: BIO_write_def T BIO_s_mem_def)
  moreover have "mem_holds ?h a False eof (if ok then bs @ src else bs)"
    using m(2) mem_holds_counts(2) [OF r1] by (cases ok) simp_all
  ultimately show ?thesis using m(3) by blast
qed

text \<open>A line: what stands before the first newline and the newline, but at most \<open>n - 1\<close> bytes.\<close>

definition first_line :: "nat \<Rightarrow> byte list \<Rightarrow> nat" where
  "first_line n bs = min (n - 1) (min (length bs) (Suc (length (takeWhile (\<lambda>c. c \<noteq> 0x0A) bs))))"

lemma gets_loop_takeWhile: "j \<le> length p \<Longrightarrow> gets_loop p j = min j (Suc (length (takeWhile (\<lambda>c. c \<noteq> 0x0A) p)))"
  by (induction p j rule: gets_loop.induct) auto

lemma gets_loop_first_line: "gets_loop bs (min (n - 1) (length bs)) = first_line n bs"
  by (simp add: gets_loop_takeWhile first_line_def min.assoc)

lemma gets_loop_bounds: "j \<le> length p \<Longrightarrow> gets_loop p j \<le> j \<and> (0 < j \<longrightarrow> 0 < gets_loop p j)"
  by (induction p j rule: gets_loop.induct) auto

lemma gets_loop_prefix: "j \<le> k \<Longrightarrow> j \<le> length p \<Longrightarrow> gets_loop (take k p) j = gets_loop p j"
  by (induction p j arbitrary: k rule: gets_loop.induct) (auto simp: take_Cons split: nat.splits)

lemma BIO_gets_mem:
  assumes T: "T (Suc 0) = BIO_s_mem env" and h: "mem_holds h a ro eof bs" and n: "1 < n" "n < 2 ^ 31" and bs: "bs \<noteq> []" "length bs < 2 ^ 31"
  shows "\<exists>h'. BIO_gets T h (Some a) False (int n) = Some (int (first_line n bs), take (first_line n bs) bs @ [0], h') \<and>
    mem_holds h' a ro eof (drop (first_line n bs) bs)"
proof -
  obtain r m off where r: "bh_bio h a = Some r" "bi_ptr r = Mem_ptr m off" "bi_method r = Some 1" "bi_init r \<noteq> 0" "bi_num r = eof"
    "is_rdonly r = ro" "bm_length m = length bs" "off + length bs \<le> length (bm_mem m)"
    "take (length bs) (drop off (bm_mem m)) = bs" "\<not> ro \<longrightarrow> off = 0 \<and> bm_ok m"
    using h by (auto simp: mem_holds_def)
  have g: "get_mem h a = Some (m, off)" using r by (simp add: get_mem_def)
  let ?h1 = "bio_put a (BIO_clear_retry_flags r) h"
  have h1: "mem_holds ?h1 a ro eof bs" using r by (auto simp: mem_holds_def)
  let ?j = "min (n - 1) (length bs)"
  have l: "to_int (bm_length m) = int (length bs)" using r(7) bs(2) by (simp add: to_int_small)
  have j: "(if int n - 1 < int (length bs) then int n - 1 else int (length bs)) = int ?j" "0 < ?j" using n(1) bs(1) by auto
  have f: "gets_loop (drop off (bm_mem m)) ?j = first_line n bs"
    using gets_loop_prefix [of ?j "length bs" "drop off (bm_mem m)"] gets_loop_first_line [of bs n] r(8,9) by simp
  have fl: "0 < first_line n bs" "first_line n bs \<le> ?j" using gets_loop_bounds [of ?j bs] gets_loop_first_line [of bs n] j(2) by auto
  then have b: "first_line n bs < 2 ^ 31" "first_line n bs \<le> length bs" using n by auto
  obtain h2 where m: "mem_read ?h1 a False (int (first_line n bs)) = Some (int (first_line n bs), take (first_line n bs) bs, h2)"
    "mem_holds h2 a ro eof (drop (first_line n bs) bs)"
    using mem_read_holds [OF h1 fl(1) b(1)] bs(1) b(2) by (auto simp: min_def)
  have gm: "mem_gets h a False (int n) = Some (int (first_line n bs), take (first_line n bs) bs @ [0], h2)"
    unfolding mem_gets_def r(1) g Option.bind.simps prod.case Let_def l j(1) nat_int f m(1)
    using r(8) j(2) fl by simp
  obtain r1 where r1: "bh_bio h2 a = Some r1" using mem_holds_at [OF m(2)] by blast
  let ?h = "bio_put a (r1\<lparr>bi_num_read := size_wrap (bi_num_read r1 + first_line n bs)\<rparr>) h2"
  have "BIO_gets T h (Some a) False (int n) = Some (int (first_line n bs), take (first_line n bs) bs @ [0], ?h)"
    using r n(1) gm r1 fl(1) by (simp add: BIO_gets_def T BIO_s_mem_def)
  moreover have "mem_holds ?h a ro eof (drop (first_line n bs) bs)" using m(2) mem_holds_counts(1) [OF r1] by simp
  ultimately show ?thesis by blast
qed

section \<open>The flags of a memory BIO\<close>

text \<open>What a BIO has besides its contents: the retry flags and the close flag.\<close>

definition mem_side :: "bio_heap \<Rightarrow> nat \<Rightarrow> (32 word \<times> int) option" where
  "mem_side h a = map_option (\<lambda>r. (BIO_get_retry_flags r, bi_shutdown r)) (bh_bio h a)"

lemma mem_side_put [simp]: "mem_side (bio_put a r h) a = Some (BIO_get_retry_flags r, bi_shutdown r)"
  by (simp add: mem_side_def)

lemma bi_shutdown_flags [simp]:
  "bi_shutdown (BIO_clear_retry_flags r) = bi_shutdown r" "bi_shutdown (BIO_set_retry_read r) = bi_shutdown r"
  by (simp_all add: BIO_clear_retry_flags_def BIO_set_retry_read_def)

lemma mem_read_side:
  assumes "mem_holds h a ro eof bs" "0 < n" "n < 2 ^ 31" "mem_read h a False (int n) = Some (v, x, h')" "mem_side h a = Some (w, c)"
  shows "mem_side h' a = Some (retry_word (if bs = [] \<and> eof \<noteq> 0 then Retry_read else No_retry), c)"
proof -
  obtain r m off where r: "bh_bio h a = Some r" "bi_ptr r = Mem_ptr m off" "bi_num r = eof" "bm_length m = length bs"
    using assms(1) by (auto simp: mem_holds_def)
  have c: "bi_shutdown r = c" using assms(5) r(1) by (simp add: mem_side_def)
  have g: "get_mem h a = Some (m, off)" using r by (simp add: get_mem_def)
  have i: "length bs = 0 \<Longrightarrow> length bs < INT_MAX" by (simp add: INT_MAX_def)
  show ?thesis using assms(2,3,4) r(3,4) c i
    by (auto simp: mem_read_def r(1) g Let_def INT_MAX_def split: if_splits)
qed

lemma mem_write_side:
  assumes "mem_holds h a False eof bs" "mem_write_bio env h a (Some src) n = Some (v, h')" "mem_side h a = Some (w, c)"
  shows "mem_side h' a = Some (retry_word No_retry, c)"
proof -
  obtain r m where r: "bh_bio h a = Some r" "bi_ptr r = Mem_ptr m 0" "\<not> is_rdonly r"
    using assms(1) by (auto simp: mem_holds_def)
  have c: "bi_shutdown r = c" using assms(3) r(1) by (simp add: mem_side_def)
  have g: "get_mem h a = Some (m, 0)" using r by (simp add: get_mem_def)
  show ?thesis using assms(2) c r(3)
    by (auto simp: mem_write_bio_def r(1) g Let_def split: if_splits prod.splits)
qed

lemma mem_gets_side:
  assumes h: "mem_holds h a ro eof bs" and n: "n < 2 ^ 31" "length bs < 2 ^ 31"
    and g: "mem_gets h a False (int n) = Some (v, x, h')" "mem_side h a = Some (w, c)"
  shows "mem_side h' a = Some (retry_word No_retry, c)"
proof -
  obtain r m off where r: "bh_bio h a = Some r" "bi_ptr r = Mem_ptr m off" "bm_length m = length bs"
    using h by (auto simp: mem_holds_def)
  have c: "bi_shutdown r = c" using g(2) r(1) by (simp add: mem_side_def)
  have gm: "get_mem h a = Some (m, off)" using r by (simp add: get_mem_def)
  have l: "to_int (bm_length m) = int (length bs)" using r(3) n(2) by (simp add: to_int_small)
  let ?h1 = "bio_put a (BIO_clear_retry_flags r) h" and ?j = "if int n - 1 < int (length bs) then int n - 1 else int (length bs)"
  have h1: "mem_holds ?h1 a ro eof bs" using h r(1) by (auto simp: mem_holds_def)
  have s1: "mem_side ?h1 a = Some (retry_word No_retry, c)" using c by simp
  show ?thesis
  proof (cases "?j \<le> 0")
    case True
    then show ?thesis using g(1) s1 by (auto simp: mem_gets_def r(1) gm l Let_def split: if_splits)
  next
    case False
    then have j: "0 < nat ?j" "nat ?j < 2 ^ 31" "bs \<noteq> []" using n by (auto split: if_splits)
    obtain i b where "mem_read ?h1 a False (int (gets_loop (drop off (bm_mem m)) (nat ?j))) = Some (i, b, h')"
      "off + nat ?j \<le> length (bm_mem m)"
      using g(1) False unfolding mem_gets_def r(1) gm Option.bind.simps prod.case Let_def l
      by (auto simp: bind_eq_Some_conv split: if_splits)
    moreover have "0 < gets_loop (drop off (bm_mem m)) (nat ?j)" "gets_loop (drop off (bm_mem m)) (nat ?j) \<le> nat ?j"
      using gets_loop_bounds [of "nat ?j" "drop off (bm_mem m)"] j(1) calculation(2) by auto
    ultimately show ?thesis using mem_read_side [OF h1 _ _ _ s1] j by auto
  qed
qed

section \<open>The queue\<close>

text \<open>The calls: every operation of the table but \<open>BIO_set_mem_buf\<close>, which puts another buffer in the place of this one.\<close>

datatype mem_op =
    M_write "byte list"
  | M_read nat
  | M_gets nat
  | M_pending
  | M_wpending
  | M_eof
  | M_reset
  | M_flush
  | M_set_eof int
  | M_data
  | M_contents
  | M_set_close int
  | M_get_close
  | M_should_read
  | M_should_write
  | M_should_retry

fun mem_op_ok :: "mem_op \<Rightarrow> bool" where
  "mem_op_ok (M_write bs) = (length bs < 2 ^ 31)"
| "mem_op_ok (M_read n) = (n < 2 ^ 31)"
| "mem_op_ok (M_gets n) = (n < 2 ^ 31)"
| "mem_op_ok (M_set_eof v) = (- (2 ^ 31) \<le> v \<and> v < 2 ^ 31)"
| "mem_op_ok (M_set_close v) = (- (2 ^ 31) \<le> v \<and> v < 2 ^ 31)"
| "mem_op_ok _ = True"

text \<open>What a caller of \<open>BIO_get_mem_data\<close> finds behind the pointer and for the length it has been given.\<close>

fun data_at :: "int \<Rightarrow> ctrl_out \<Rightarrow> byte list" where
  "data_at n (Out_data (Some p) off) = take (nat n) (drop off (blk_mem p))"
| "data_at n _ = []"

fun mem_call ::
  "(nat \<Rightarrow> bio_method_st) \<Rightarrow> nat \<Rightarrow> bio_heap \<Rightarrow> mem_op \<Rightarrow> (int \<times> byte list \<times> bio_heap) option" where
  "mem_call T a h (M_write bs) =
     map_option (\<lambda>(r, h1). (r, [], h1)) (BIO_write T h (Some a) (Some bs) (int (length bs)))"
| "mem_call T a h (M_read n) = BIO_read T h (Some a) False (int n)"
| "mem_call T a h (M_gets n) = BIO_gets T h (Some a) False (int n)"
| "mem_call T a h M_pending = map_option (\<lambda>(r, h1). (int r, [], h1)) (BIO_pending T h (Some a))"
| "mem_call T a h M_wpending = map_option (\<lambda>(r, h1). (int r, [], h1)) (BIO_wpending T h (Some a))"
| "mem_call T a h M_eof = map_option (\<lambda>(r, h1). (r, [], h1)) (BIO_eof T h (Some a))"
| "mem_call T a h M_reset = map_option (\<lambda>(r, h1). (r, [], h1)) (BIO_reset T h (Some a))"
| "mem_call T a h M_flush = map_option (\<lambda>(r, h1). (r, [], h1)) (BIO_flush T h (Some a))"
| "mem_call T a h (M_set_eof v) = map_option (\<lambda>(r, h1). (r, [], h1)) (BIO_set_mem_eof_return T h (Some a) v)"
| "mem_call T a h M_data = map_option (\<lambda>(r, p, h1). (r, data_at r p, h1)) (BIO_get_mem_data T h (Some a))"
| "mem_call T a h M_contents = map_option (\<lambda>(r, bs). (r, bs, h)) (BIO_mem_contents h a)"
| "mem_call T a h (M_set_close v) = map_option (\<lambda>(r, h1). (r, [], h1)) (BIO_set_close T h (Some a) v)"
| "mem_call T a h M_get_close = map_option (\<lambda>(r, h1). (r, [], h1)) (ctrl_int T h (Some a) BIO_CTRL_GET_CLOSE 0 No_ptr)"
| "mem_call T a h M_should_read = map_option (\<lambda>x. (uint (BIO_should_read x), [], h)) (bh_bio h a)"
| "mem_call T a h M_should_write = map_option (\<lambda>x. (uint (BIO_should_write x), [], h)) (bh_bio h a)"
| "mem_call T a h M_should_retry = map_option (\<lambda>x. (uint (BIO_should_retry x), [], h)) (bh_bio h a)"

text \<open>
  The specification: a queue of bytes, with the value that reading it gives when it is empty, what has to be
  tried again, and the close flag.
\<close>

record mem_state =
  ms_queue :: "byte list"
  ms_eof :: int
  ms_retry :: retry
  ms_close :: int

fun mem_spec :: "mem_state \<Rightarrow> mem_op \<Rightarrow> int \<times> byte list \<times> mem_state" where
  "mem_spec S (M_write bs) =
     (if bs = [] then (0, [], S)
      else if length (ms_queue S) + length bs < 2 ^ 31
      then (int (length bs), [], S\<lparr>ms_queue := ms_queue S @ bs, ms_retry := No_retry\<rparr>)
      else (- 1, [], S\<lparr>ms_retry := No_retry\<rparr>))"
| "mem_spec S (M_read n) =
     (if n = 0 then (0, [], S)
      else if ms_queue S = [] then (ms_eof S, [], S\<lparr>ms_retry := (if ms_eof S = 0 then No_retry else Retry_read)\<rparr>)
      else (int (min n (length (ms_queue S))), take n (ms_queue S), S\<lparr>ms_queue := drop n (ms_queue S), ms_retry := No_retry\<rparr>))"
| "mem_spec S (M_gets n) =
     (if n = 0 then (0, [], S)
      else if n = 1 \<or> ms_queue S = [] then (0, [0], S\<lparr>ms_retry := No_retry\<rparr>)
      else let k = first_line n (ms_queue S)
        in (int k, take k (ms_queue S) @ [0], S\<lparr>ms_queue := drop k (ms_queue S), ms_retry := No_retry\<rparr>))"
| "mem_spec S M_pending = (int (length (ms_queue S)), [], S)"
| "mem_spec S M_wpending = (0, [], S)"
| "mem_spec S M_eof = (if ms_queue S = [] then 1 else 0, [], S)"
| "mem_spec S M_reset = (1, [], S\<lparr>ms_queue := []\<rparr>)"
| "mem_spec S M_flush = (1, [], S)"
| "mem_spec S (M_set_eof v) = (1, [], S\<lparr>ms_eof := v\<rparr>)"
| "mem_spec S M_data = (int (length (ms_queue S)), ms_queue S, S)"
| "mem_spec S M_contents = (1, ms_queue S, S)"
| "mem_spec S (M_set_close v) = (1, [], S\<lparr>ms_close := v\<rparr>)"
| "mem_spec S M_get_close = (ms_close S, [], S)"
| "mem_spec S M_should_read = (if ms_retry S = Retry_read then 1 else 0, [], S)"
| "mem_spec S M_should_write = (0, [], S)"
| "mem_spec S M_should_retry = (if ms_retry S = No_retry then 0 else 8, [], S)"

definition mem_rel ::
  "(nat \<Rightarrow> bio_method_st) \<Rightarrow> heap_env \<Rightarrow> nat \<Rightarrow> bio_heap \<Rightarrow> mem_state \<Rightarrow> bool" where
  "mem_rel T env a h S \<longleftrightarrow>
     T 1 = BIO_s_mem env \<and> (\<forall>j. malloc_ok env j) \<and> mem_holds h a False (ms_eof S) (ms_queue S) \<and>
     mem_side h a = Some (retry_word (ms_retry S), ms_close S) \<and> ms_retry S \<noteq> Retry_write \<and> length (ms_queue S) < 2 ^ 31"

lemma mem_ctrl_queries:
  assumes "mem_rel T env a h S"
    and op: "op \<in> {M_pending, M_wpending, M_eof, M_flush, M_data, M_contents, M_get_close, M_should_read, M_should_write, M_should_retry}"
  shows "mem_call T a h op = Some (fst (mem_spec S op), fst (snd (mem_spec S op)), h) \<and> snd (snd (mem_spec S op)) = S"
proof -
  obtain r m where r: "bh_bio h a = Some r" "bi_ptr r = Mem_ptr m 0" "bi_method r = Some 1" "bi_init r \<noteq> 0"
    "bm_length m = length (ms_queue S)" "take (length (ms_queue S)) (bm_mem m) = ms_queue S" "BIO_get_retry_flags r = retry_word (ms_retry S)"
    "bi_shutdown r = ms_close S" "ms_retry S \<noteq> Retry_write" "T (Suc 0) = BIO_s_mem env"
    using assms(1) by (auto simp: mem_rel_def mem_holds_def mem_side_def)
  have g: "get_mem h a = Some (m, 0)" using r by (simp add: get_mem_def)
  have c: "BIO_ctrl T h (Some a) cmd v p = mem_ctrl h a cmd v p" for cmd v p
    using r(1,3,10) by (simp add: BIO_ctrl_def BIO_s_mem_def)
  have d: "data_at (int (length (ms_queue S))) (Out_data (bm_data m) 0) = ms_queue S"
    using r(6) by (cases "bm_data m") (simp_all add: bm_mem_def)
  note should = should_word [OF r(7)]
  show ?thesis using op
    by (elim insertE emptyE) (use r(1,3,5,6,8,9) g d should in \<open>simp_all add: c mem_ctrl_def bio_cmd_defs BIO_pending_def
        BIO_wpending_def BIO_eof_def BIO_flush_def BIO_get_mem_data_def BIO_mem_contents_def ctrl_int_def\<close>)
qed

lemma mem_ctrl_updates:
  assumes "mem_rel T env a h S" "mem_op_ok op" and op: "op = M_reset \<or> op = M_set_eof v \<or> op = M_set_close v"
  shows "\<exists>h'. mem_call T a h op = Some (1, [], h') \<and> mem_rel T env a h' (snd (snd (mem_spec S op)))"
proof -
  obtain r m where r: "bh_bio h a = Some r" "bi_ptr r = Mem_ptr m 0" "bi_method r = Some 1" "bi_init r \<noteq> 0"
    "bm_length m = length (ms_queue S)" "length (ms_queue S) \<le> length (bm_mem m)" "take (length (ms_queue S)) (bm_mem m) = ms_queue S"
    "\<not> is_rdonly r" "bm_ok m" "bi_num r = ms_eof S"
    using assms(1) by (auto simp: mem_rel_def mem_holds_def)
  have q: "BIO_get_retry_flags r = retry_word (ms_retry S)" "bi_shutdown r = ms_close S" "T (Suc 0) = BIO_s_mem env"
    "\<forall>j. malloc_ok env j" "ms_retry S \<noteq> Retry_write" "length (ms_queue S) < 2 ^ 31"
    using assms(1) r(1) by (auto simp: mem_rel_def mem_side_def)
  have g: "get_mem h a = Some (m, 0)" using r by (simp add: get_mem_def)
  have c: "BIO_ctrl T h (Some a) cmd v p = mem_ctrl h a cmd v p" for cmd v p
    using r(1,3) q(3) by (simp add: BIO_ctrl_def BIO_s_mem_def)
  consider "op = M_reset" | "op = M_set_eof v" | "op = M_set_close v" using op by blast
  then show ?thesis
  proof cases
    case 1
    show ?thesis
    proof (cases "bm_data m")
      case None
      then have "ms_queue S = []" using r(5,9) by (auto simp: bm_ok_def)
      then have "S\<lparr>ms_queue := []\<rparr> = S" by simp
      then show ?thesis using 1 r g None assms(1)
        by (simp add: BIO_reset_def ctrl_int_def c mem_ctrl_def bio_cmd_defs)
    next
      case (Some p)
      let ?m = "(bm_write m 0 (replicate (bm_max m) 0))\<lparr>bm_length := 0\<rparr>"
      have "bm_ok (bm_write m 0 (replicate (bm_max m) 0))" using r(9) by (intro bm_ok_write) simp_all
      then have "bm_ok ?m" by (rule bm_ok_less) simp
      then show ?thesis using 1 r g Some q
        by (auto simp: BIO_reset_def ctrl_int_def c mem_ctrl_def bio_cmd_defs mem_rel_def mem_holds_def)
    qed
  next
    case 2
    then have v: "sint (word_of_int v :: 32 word) = v" using assms(2) by (simp add: signed_of_int signed_take_bit_int_eq_self)
    show ?thesis using 2 r g q
      by (auto simp: BIO_set_mem_eof_return_def ctrl_int_def c mem_ctrl_def bio_cmd_defs mem_rel_def mem_holds_def v is_rdonly_def BIO_get_retry_flags_def)
  next
    case 3
    then have v: "sint (word_of_int v :: 32 word) = v" using assms(2) by (simp add: signed_of_int signed_take_bit_int_eq_self)
    show ?thesis using 3 r g q
      by (auto simp: BIO_set_close_def ctrl_int_def c mem_ctrl_def bio_cmd_defs mem_rel_def mem_holds_def v is_rdonly_def BIO_get_retry_flags_def)
  qed
qed

lemma mem_gets_short:
  assumes "mem_holds h a False eof q" "T (Suc 0) = BIO_s_mem env" "0 < n" "n = 1 \<or> q = []" "length q < 2 ^ 31"
  shows "\<exists>h'. BIO_gets T h (Some a) False (int n) = Some (0, [0], h') \<and> mem_holds h' a False eof q"
proof -
  obtain r m where r: "bh_bio h a = Some r" "bi_ptr r = Mem_ptr m 0" "bi_method r = Some 1" "bi_init r \<noteq> 0"
    "bm_length m = length q" using assms(1) by (auto simp: mem_holds_def)
  have g: "get_mem h a = Some (m, 0)" using r by (simp add: get_mem_def)
  have l: "to_int (bm_length m) = int (length q)" using r(5) assms(5) by (simp add: to_int_small)
  let ?h = "bio_put a (BIO_clear_retry_flags r) h"
  have "mem_gets h a False (int n) = Some (0, [0], ?h)"
    unfolding mem_gets_def r(1) g Option.bind.simps prod.case Let_def l using assms(3,4) by auto
  then have "BIO_gets T h (Some a) False (int n) = Some (0, [0], ?h)"
    using r assms(3) by (simp add: BIO_gets_def assms(2) BIO_s_mem_def)
  moreover have "mem_holds ?h a False eof q" using assms(1) r by (auto simp: mem_holds_def)
  ultimately show ?thesis by blast
qed

lemma mem_call_side:
  assumes rel: "mem_rel T env a h S" and ok: "mem_op_ok op"
    and op: "op = M_write src \<and> src \<noteq> [] \<or> (op = M_read n \<or> op = M_gets n) \<and> 0 < n"
    and call: "mem_call T a h op = Some (v, x, h')"
  shows "mem_side h' a = Some (retry_word (ms_retry (snd (snd (mem_spec S op)))), ms_close (snd (snd (mem_spec S op))))"
proof -
  have T: "T (Suc 0) = BIO_s_mem env" "mem_holds h a False (ms_eof S) (ms_queue S)" "length (ms_queue S) < 2 ^ 31"
    "mem_side h a = Some (retry_word (ms_retry S), ms_close S)"
    using rel by (simp_all add: mem_rel_def)
  obtain r where r: "bh_bio h a = Some r" "bi_method r = Some 1" "bi_init r \<noteq> 0" using mem_holds_at [OF T(2)] by blast
  have z: "n = 0 \<longleftrightarrow> \<not> 0 < n" by simp
  from op consider "op = M_write src" "src \<noteq> []" | "op = M_read n" "0 < n" | "op = M_gets n" "0 < n" by blast
  then show ?thesis
  proof cases
    case 1
    then obtain v1 h1 where h1: "mem_write_bio env h a (Some src) (int (length src)) = Some (v1, h1)" "mem_side h' a = mem_side h1 a"
      using call r by (auto simp: BIO_write_def T(1) BIO_s_mem_def bind_eq_Some_conv mem_side_def)
    show ?thesis using mem_write_side [OF T(2) h1(1) T(4)] h1(2) 1 by (simp add: Let_def)
  next
    case 2
    then obtain v1 x1 h1 where h1: "mem_read h a False (int n) = Some (v1, x1, h1)" "mem_side h' a = mem_side h1 a"
      using call r by (auto simp: BIO_read_def T(1) BIO_s_mem_def bind_eq_Some_conv mem_side_def)
    have "n < 2 ^ 31" using ok 2 by simp
    then show ?thesis using mem_read_side [OF T(2) 2(2) _ h1(1) T(4)] h1(2) 2 by simp
  next
    case 3
    then obtain v1 x1 h1 where h1: "mem_gets h a False (int n) = Some (v1, x1, h1)" "mem_side h' a = mem_side h1 a"
      using call r by (auto simp: BIO_gets_def T(1) BIO_s_mem_def bind_eq_Some_conv mem_side_def)
    have "n < 2 ^ 31" using ok 3 by simp
    then show ?thesis using mem_gets_side [OF T(2) _ T(3) h1(1) T(4)] h1(2) 3 by (simp add: Let_def)
  qed
qed

lemma mem_call_moves:
  assumes rel: "mem_rel T env a h S" and ok: "mem_op_ok op"
    and op: "op = M_write src \<and> src \<noteq> [] \<or> (op = M_read n \<or> op = M_gets n) \<and> 0 < n"
  defines "S' \<equiv> snd (snd (mem_spec S op))"
  shows "\<exists>h'. mem_call T a h op = Some (fst (mem_spec S op), fst (snd (mem_spec S op)), h') \<and>
    mem_holds h' a False (ms_eof S') (ms_queue S') \<and> length (ms_queue S') < 2 ^ 31 \<and> ms_retry S' \<noteq> Retry_write"
proof -
  have T: "T (Suc 0) = BIO_s_mem env" "\<forall>j. malloc_ok env j" "mem_holds h a False (ms_eof S) (ms_queue S)" "length (ms_queue S) < 2 ^ 31"
    using rel by (simp_all add: mem_rel_def)
  from op consider "op = M_write src" "src \<noteq> []" | "op = M_read n" "0 < n" | "op = M_gets n" "0 < n" by blast
  then show ?thesis
  proof cases
    case 1
    then obtain h' ok where "BIO_write T h (Some a) (Some src) (int (length src)) = Some (if ok then int (length src) else - 1, h')"
      "mem_holds h' a False (ms_eof S) (if ok then ms_queue S @ src else ms_queue S)" "ok = (length (ms_queue S) + length src < 2 ^ 31)"
      using BIO_write_mem [of T env h a "ms_eof S" "ms_queue S" src] T ok by auto
    then show ?thesis using T 1 by (auto simp: S'_def)
  next
    case 2
    then show ?thesis using BIO_read_mem [of T env h a False "ms_eof S" "ms_queue S" n] T ok by (auto simp: S'_def)
  next
    case 3
    show ?thesis
    proof (cases "n = 1 \<or> ms_queue S = []")
      case True
      then show ?thesis using mem_gets_short [of h a "ms_eof S" "ms_queue S" T env n] T 3 by (auto simp: S'_def)
    next
      case False
      then show ?thesis using BIO_gets_mem [of T env h a False "ms_eof S" "ms_queue S" n] T ok 3
        by (auto simp: S'_def Let_def)
    qed
  qed
qed

lemma mem_call_rel:
  assumes rel: "mem_rel T env a h S" and ok: "mem_op_ok op"
  shows "\<exists>h'. mem_call T a h op = (case mem_spec S op of (r, bs, _) \<Rightarrow> Some (r, bs, h')) \<and>
    mem_rel T env a h' (snd (snd (mem_spec S op)))"
proof -
  have T: "T (Suc 0) = BIO_s_mem env" "\<forall>j. malloc_ok env j" using rel by (simp_all add: mem_rel_def)
  obtain r where r: "bh_bio h a = Some r" "bi_method r = Some 1" "bi_init r \<noteq> 0"
    using rel mem_holds_at [of h a False "ms_eof S" "ms_queue S"] by (auto simp: mem_rel_def)
  obtain v x S' where s: "mem_spec S op = (v, x, S')" by (cases "mem_spec S op") auto
  have moves: ?thesis if m: "op = M_write src \<and> src \<noteq> [] \<or> (op = M_read n \<or> op = M_gets n) \<and> 0 < n" for src n
  proof -
    obtain h' where "mem_call T a h op = Some (v, x, h')" "mem_holds h' a False (ms_eof S') (ms_queue S')"
      "length (ms_queue S') < 2 ^ 31" "ms_retry S' \<noteq> Retry_write"
      using mem_call_moves [where src = src and n = n, OF rel ok m] s by auto
    then show ?thesis using mem_call_side [where src = src and n = n, OF rel ok m] s T by (auto simp: mem_rel_def)
  qed
  note q = mem_ctrl_queries [where op = op, OF rel] and u = mem_ctrl_updates [where op = op, OF rel ok]
  show ?thesis
  proof (cases op)
    case (M_write bs)
    then show ?thesis using moves [of bs 0] rel r by (cases "bs = []") (auto simp: BIO_write_def T(1) BIO_s_mem_def)
  next
    case (M_read n)
    then show ?thesis using moves [of "[]" n] rel r by (cases "n = 0") (auto simp: BIO_read_def T(1) BIO_s_mem_def)
  next
    case (M_gets n)
    then show ?thesis using moves [of "[]" n] rel r by (cases "n = 0") (auto simp: BIO_gets_def T(1) BIO_s_mem_def)
  next
    case M_reset
    then show ?thesis using u s by auto
  next
    case (M_set_eof w)
    then show ?thesis using u [of w] s by auto
  next
    case (M_set_close w)
    then show ?thesis using u [of w] s by auto
  qed (use q s rel in \<open>auto simp del: mem_call.simps mem_spec.simps\<close>)
qed

interpretation mem: bio_contract "mem_call T a" mem_spec "mem_rel T env a" mem_op_ok for T env a
  by unfold_locales (use mem_call_rel in blast)

definition fresh_mem :: mem_state where
  "fresh_mem = \<lparr>ms_queue = [], ms_eof = - 1, ms_retry = No_retry, ms_close = 1\<rparr>"

lemma BIO_new_mem_rel:
  assumes "T 1 = BIO_s_mem env" "\<forall>j. malloc_ok env j"
  shows "\<exists>h'. BIO_new T env h 1 = Some (Some (bh_next h), h') \<and> mem_rel T env (bh_next h) h' fresh_mem"
proof -
  have m: "OPENSSL_malloc env k \<noteq> None" for k using assms(2) by (simp add: OPENSSL_malloc_def Let_def)
  obtain p1 p2 where "OPENSSL_malloc env 64 = Some p1" "OPENSSL_malloc env 24 = Some p2" using m by blast
  then show ?thesis using assms
    by (auto simp: BIO_new_def BIO_s_mem_def mem_new_def BUF_MEM_new_def mem_rel_def mem_holds_def Let_def bm_mem_def
        is_rdonly_def bm_ok_def fresh_mem_def BIO_get_retry_flags_def)
qed

text \<open>
  C16. A memory BIO is a queue of bytes, and a line reader. Whatever is called on a fresh one, each call
  gives what the queue gives: a write appends all of its bytes (or nothing, when the contents would be
  longer than an \<open>int\<close> can say), a read takes as many as there are, \<open>BIO_gets\<close> takes what stands before the
  first newline and the newline, or as much of that as fits, and ends it with a zero, and reading an empty
  BIO gives the value set by \<open>BIO_set_mem_eof_return\<close>, at first \<open>-1\<close>, and asks for another try unless it is
  zero. \<open>BIO_pending\<close>, \<open>BIO_eof\<close>, \<open>BIO_get_mem_data\<close> and \<open>BIO_mem_contents\<close> show the queue, \<open>BIO_wpending\<close> and
  \<open>BIO_flush\<close> that nothing is held back, \<open>BIO_reset\<close> empties it, and the close flag and the retry flags are
  what they were last set to.
\<close>

theorem BIO_mem_refines:
  assumes "T 1 = BIO_s_mem env" "\<forall>j. malloc_ok env j" "list_all mem_op_ok ops"
  shows "\<exists>a h0 h'. BIO_new T env h 1 = Some (Some a, h0) \<and>
    run_calls (mem_call T a) h0 ops = Some (run_spec mem_spec fresh_mem ops, h')"
  using BIO_new_mem_rel [where T = T and h = h, OF assms(1,2)] mem.runs [where T = T, OF _ assms(3)] by blast

lemma BIO_mem_refines_witness:
  "\<exists>a h0 h'. BIO_new (\<lambda>_. BIO_s_mem plenty) plenty \<lparr>bh_bio = \<lambda>_. None, bh_next = 0\<rparr> 1 = Some (Some a, h0) \<and>
     run_calls (mem_call (\<lambda>_. BIO_s_mem plenty) a) h0 [M_write [65, 10, 66], M_pending, M_gets 100, M_write [67], M_data, M_read 1,
       M_read 5, M_read 5, M_should_retry, M_set_eof 0, M_read 5, M_should_retry] =
       Some ([(3, []), (3, []), (2, [65, 10, 0]), (1, []), (2, [66, 67]), (1, [66]), (1, [67]), (- 1, []), (8, []), (1, []), (0, []),
         (0, [])], h')"
proof -
  have p: "\<forall>j. malloc_ok plenty j" by (simp add: plenty_def)
  show ?thesis
    using BIO_mem_refines [where T = "\<lambda>_. BIO_s_mem plenty" and ops =
        "[M_write [65, 10, 66], M_pending, M_gets 100, M_write [67], M_data, M_read 1, M_read 5, M_read 5, M_should_retry, M_set_eof 0,
          M_read 5, M_should_retry]", OF refl p, of "\<lparr>bh_bio = \<lambda>_. None, bh_next = 0\<rparr>"]
    by (simp add: first_line_def fresh_mem_def)
qed

end
