(* ===== verification/Bio_Asn1.thy ===== *)
theory Bio_Asn1
  imports Bio_Mem Cbs
begin

text \<open>
Reading ASN.1 from a BIO: \<open>BIO_read_asn1\<close> on a memory BIO against the parser of \<open>Cbs\<close>, elements of
  indefinite length, and what becomes of a negative result that is not \<open>-1\<close>.
\<close>

section \<open>Reading an element\<close>

lemma read_exact_mem:
  assumes T: "T (Suc 0) = BIO_s_mem env" and h: "mem_holds h a ro eof bs" and n: "n < 2 ^ 31" and eof: "eof \<le> 0"
  shows "\<exists>h'. read_exact T h (Some a) n = Some (if n \<le> length bs then Some (take n bs) else None, h') \<and>
    mem_holds h' a ro eof (drop n bs)"
proof (cases "n = 0")
  case True
  obtain r where r: "bh_bio h a = Some r" "bi_method r = Some 1" "bi_init r \<noteq> 0" using mem_holds_at [OF h] by blast
  then have "BIO_read T h (Some a) False (to_int n) = Some (0, [], h)"
    using True by (simp add: BIO_read_def T BIO_s_mem_def to_int_def)
  then show ?thesis using True h by (simp add: read_exact_def to_int_def)
next
  case False
  have t: "to_int n = int n" using n by (rule to_int_small)
  obtain h' where r: "BIO_read T h (Some a) False (int n) = Some (if bs = [] then eof else int (min n (length bs)), take n bs, h')"
    "mem_holds h' a ro eof (drop n bs)" using BIO_read_mem [where T = T, OF T h _ n] False by blast
  show ?thesis
  proof (cases "n \<le> length bs")
    case True
    then show ?thesis using r False by (auto simp: read_exact_def t)
  next
    case s: False
    then have "(if bs = [] then eof else int (min n (length bs))) \<noteq> int n" using eof False by auto
    then show ?thesis using r s by (auto simp: read_exact_def t)
  qed
qed

lemma malloc_plenty:
  assumes "\<forall>j. malloc_ok env j" "n + 8 < 2 ^ 64"
  obtains p where "OPENSSL_malloc env n = Some p" "length (blk_mem p) = n"
proof -
  obtain p where p: "OPENSSL_malloc env n = Some p" using assms(1) by (auto simp: OPENSSL_malloc_def Let_def)
  then show ?thesis using that OPENSSL_malloc_ok [OF p assms(2)] by (simp add: blk_ok_def)
qed

lemma blk_store_all:
  assumes "i + length bs \<le> length (blk_mem p)"
  shows "blk_store p i bs = Some (p\<lparr>blk_mem := mem_write (blk_mem p) i bs\<rparr>)"
  using assms by (simp add: blk_store_def)

lemma read_asn1_body_mem:
  assumes T: "T (Suc 0) = BIO_s_mem env" and h: "mem_holds h a ro eof bs" and eof: "eof \<le> 0" and env: "\<forall>j. malloc_ok env j"
    and hdr: "length hdr + length bs < 2 ^ 31" and len: "len < 2 ^ 32"
  shows "\<exists>res h'. read_asn1_body T env h (Some a) hdr len max_len = Some (res, h') \<and>
    (if length hdr + len \<le> max_len \<and> len \<le> length bs
     then mem_holds h' a ro eof (drop len bs) \<and> (\<exists>p. res = Some (p, length hdr + len) \<and> blk_mem p = hdr @ take len bs)
     else res = None \<and> (\<exists>rest. mem_holds h' a ro eof rest))"
proof -
  have w: "size_wrap (len + length hdr) = length hdr + len" using hdr len by (simp add: size_wrap_id)
  show ?thesis
  proof (cases "length hdr + len > max_len \<or> len > INT_MAX")
    case True
    then have "read_asn1_body T env h (Some a) hdr len max_len = Some (None, h)"
      by (auto simp: read_asn1_body_def Let_def w)
    moreover have "\<not> (length hdr + len \<le> max_len \<and> len \<le> length bs)" using True hdr by (auto simp: INT_MAX_def)
    ultimately show ?thesis using h by auto
  next
    case False
    then have l: "length hdr + len \<le> max_len" "len < 2 ^ 31" by (auto simp: INT_MAX_def)
    have "length hdr + len + 8 < 2 ^ 64" using hdr l(2) by simp
    from malloc_plenty [OF env this] obtain p where p: "OPENSSL_malloc env (length hdr + len) = Some p" "length (blk_mem p) = length hdr + len" .
    let ?p1 = "p\<lparr>blk_mem := mem_write (blk_mem p) 0 hdr\<rparr>"
    have s1: "blk_store p 0 hdr = Some ?p1" using p(2) by (intro blk_store_all) simp
    obtain h' where r: "read_exact T h (Some a) len = Some (if len \<le> length bs then Some (take len bs) else None, h')"
      "mem_holds h' a ro eof (drop len bs)" using read_exact_mem [where T = T, OF T h l(2) eof] by blast
    show ?thesis
    proof (cases "len \<le> length bs")
      case True
      let ?p2 = "?p1\<lparr>blk_mem := mem_write (blk_mem ?p1) (length hdr) (take len bs)\<rparr>"
      have s2: "blk_store ?p1 (length hdr) (take len bs) = Some ?p2" using p(2) True by (intro blk_store_all) simp
      have "blk_mem ?p2 = mem_write (blk_mem p) 0 (hdr @ take len bs)"
        using mem_write_append [of 0 hdr "take len bs" "blk_mem p"] p(2) True by simp
      then have "blk_mem ?p2 = hdr @ take len bs" using p(2) True by (simp add: mem_write_def)
      moreover have "read_asn1_body T env h (Some a) hdr len max_len = Some (Some (?p2, length hdr + len), h')"
        using False p(1) s1 s2 r(1) True by (simp add: read_asn1_body_def Let_def w)
      ultimately show ?thesis using l(1) True r(2) by auto
    next
      case s: False
      then have "read_asn1_body T env h (Some a) hdr len max_len = Some (None, h')"
        using False p(1) s1 r(1) by (simp add: read_asn1_body_def Let_def w)
      then show ?thesis using s r(2) by auto
    qed
  qed
qed


lemma der_parts:
  assumes "bs = der tag body @ rest"
  shows "\<exists>t b bs2. bs = t # b # bs2"
proof -
  have "der_tag tag \<noteq> []" "der_len (length body) \<noteq> []" by (simp_all add: der_tag_def der_len_def Let_def)
  then have "2 \<le> length (der_tag tag) + length (der_len (length body))"
    unfolding length_greater_0_conv [symmetric] by linarith
  then have "2 \<le> length bs" unfolding assms der_def der_header_def by simp
  then show ?thesis by (cases bs; cases "tl bs") auto
qed

lemma element_get_der:
  assumes c: "c = CBS_init bs (length bs)" "length bs < 2 ^ 31" and e: "CBS_get_any_asn1_element c = element_get c tag n hl"
  shows "(n \<le> length bs \<longrightarrow> (\<exists>body. bs = der tag body @ drop n bs \<and> length (der tag body) = n)) \<and>
    (\<forall>tag' body rest. bs = der tag' body @ rest \<longrightarrow> n \<le> length bs \<and> length (der tag' body) = n)"
proof -
  have ok: "cbs_ok c" "cbs_view c = bs" "cbs_len c = length bs" "cbs_mem c = bs"
    by (simp_all add: c CBS_init_def cbs_ok_def cbs_view_def)
  have l: "cbs_len c < 2 ^ 63" using c(2) ok(3) by simp
  have 1: "\<exists>body. bs = der tag body @ drop n bs \<and> length (der tag body) = n" if "n \<le> length bs"
  proof -
    have "CBS_get_any_asn1_element c = (Some (CBS_init bs n, tag, hl), cbs_adv n c)"
      using that e ok by (simp add: element_get_def)
    from iffD1 [OF CBS_element_iff [OF ok(1) l] this] obtain body rest where
      b: "bs = der tag body @ rest" "CBS_init bs n = CBS_init bs (length (der tag body))" using ok by auto
    then show ?thesis by (auto simp: CBS_init_def)
  qed
  have 2: "n \<le> length bs \<and> length (der tag' body) = n" if b: "bs = der tag' body @ rest" for tag' body rest
  proof -
    have "length body \<le> length bs" unfolding b by (simp add: der_def)
    then have "length body < 2 ^ 32" using c(2) by simp
    then have "CBS_get_any_asn1_element c = (Some (CBS_init bs (length (der tag' body)), tag', length (der_header tag' (length body))), cbs_adv (length (der tag' body)) c)"
      using b ok by (intro iffD2 [OF CBS_element_iff [OF ok(1) l]]) auto
    then show ?thesis using e ok by (auto simp: element_get_def CBS_init_def split: if_splits)
  qed
  show ?thesis using 1 2 by blast
qed

lemma element_none_der:
  assumes c: "c = CBS_init bs (length bs)" "length bs < 2 ^ 31" and e: "fst (CBS_get_any_asn1_element c) = None"
  shows "bs \<noteq> der tag body @ rest"
proof
  assume b: "bs = der tag body @ rest"
  have ok: "cbs_ok c" "cbs_view c = bs" "cbs_len c = length bs" "cbs_mem c = bs"
    by (simp_all add: c CBS_init_def cbs_ok_def cbs_view_def)
  have l: "cbs_len c < 2 ^ 63" using c(2) ok(3) by simp
  have "length body \<le> length bs" unfolding b by (simp add: der_def)
  then have "length body < 2 ^ 32" using c(2) by simp
  then have "CBS_get_any_asn1_element c = (Some (CBS_init bs (length (der tag body)), tag, length (der_header tag (length body))), cbs_adv (length (der tag body)) c)"
    using b ok by (intro iffD2 [OF CBS_element_iff [OF ok(1) l]]) auto
  then show False using e by simp
qed

definition asn1_result :: "bool \<Rightarrow> bio_heap \<Rightarrow> nat \<Rightarrow> bool \<Rightarrow> int \<Rightarrow> byte list \<Rightarrow> nat \<Rightarrow> (block \<times> nat) option \<Rightarrow> bool" where
  "asn1_result dbg h' a ro eof bs max_len res \<longleftrightarrow>
     (\<exists>rest. mem_holds h' a ro eof rest \<and>
        (case res of
           None \<Rightarrow> \<forall>tag body rest. bs = der tag body @ rest \<longrightarrow> max_len < length (der tag body)
         | Some (p, n) \<Rightarrow> \<exists>tag body. bs = der tag body @ rest \<and> blk_mem p = der tag body \<and> n = length (der tag body) \<and> n \<le> max_len))"

lemma asn1_body_result:
  assumes T: "T (Suc 0) = BIO_s_mem env" and h: "mem_holds h1 a ro eof bs2" and eof: "eof \<le> 0" and env: "\<forall>j. malloc_ok env j"
    and bs: "bs = hdr @ bs2" "length bs < 2 ^ 31" and len: "len < 2 ^ 32"
    and e: "CBS_get_any_asn1_element (CBS_init bs (length bs)) = element_get (CBS_init bs (length bs)) tag (length hdr + len) hl"
  shows "\<exists>res h'. read_asn1_body T env h1 (Some a) hdr len max_len = Some (res, h') \<and> asn1_result dbg h' a ro eof bs max_len res"
proof -
  note d = element_get_der [OF refl bs(2) e]
  have "length hdr + length bs2 < 2 ^ 31" using bs by simp
  from read_asn1_body_mem [where T = T, OF T h eof env this len, of max_len]
  obtain res h' where r: "read_asn1_body T env h1 (Some a) hdr len max_len = Some (res, h')"
    "if length hdr + len \<le> max_len \<and> len \<le> length bs2
     then mem_holds h' a ro eof (drop len bs2) \<and> (\<exists>p. res = Some (p, length hdr + len) \<and> blk_mem p = hdr @ take len bs2)
     else res = None \<and> (\<exists>rest. mem_holds h' a ro eof rest)" by blast
  show ?thesis
  proof (cases "length hdr + len \<le> max_len \<and> len \<le> length bs2")
    case True
    then obtain p where p: "mem_holds h' a ro eof (drop len bs2)" "res = Some (p, length hdr + len)" "blk_mem p = hdr @ take len bs2"
      using r(2) by auto
    have "length hdr + len \<le> length bs" using True bs by simp
    then obtain body where b: "bs = der tag body @ drop (length hdr + len) bs" "length (der tag body) = length hdr + len"
      using d by blast
    have "der tag body = take (length hdr + len) bs" using b by (metis append_eq_conv_conj)
    then have "asn1_result dbg h' a ro eof bs max_len res"
      unfolding asn1_result_def using b p True bs(1)
      by (intro exI [of _ "drop len bs2"]) (simp, intro exI [of _ tag] exI [of _ body], simp)
    then show ?thesis using r(1) by blast
  next
    case False
    then have n: "res = None" "\<exists>rest. mem_holds h' a ro eof rest" using r(2) by auto
    have "max_len < length (der tag' body)" if "bs = der tag' body @ rest" for tag' body rest
    proof -
      have "length hdr + len \<le> length bs \<and> length (der tag' body) = length hdr + len" using d that by blast
      then show ?thesis using False bs(1) by auto
    qed
    then have "asn1_result dbg h' a ro eof bs max_len res" using n by (auto simp: asn1_result_def)
    then show ?thesis using r(1) by blast
  qed
qed

lemma asn1_none:
  assumes "length bs < 2 ^ 31" "fst (CBS_get_any_asn1_element (CBS_init bs (length bs))) = None" "mem_holds h' a ro eof rest"
  shows "asn1_result dbg h' a ro eof bs max_len None"
  using element_none_der [OF refl assms(1,2)] assms(3) by (auto simp: asn1_result_def)

lemma only_0x80:
  fixes b :: byte
  assumes "b AND 0x80 \<noteq> 0" "unat (b AND 0x7f) = 0"
  shows "b = 0x80"
proof (rule bit_word_eqI)
  fix n
  assume n: "n < LENGTH(8)"
  have m: "(0x7f :: byte) = mask 7" "(0x80 :: byte) = push_bit 7 1" by (simp_all add: mask_eq_exp_minus_1)
  have 7: "bit b 7" using assms(1) unfolding m bit_iff_and_push_bit_not_eq_0 .
  have "b AND mask 7 = 0" using assms(2) unfolding m by (simp add: unat_eq_zero)
  then have "\<not> bit b n" if "n < 7" using that by (metis bit_and_iff bit_mask_iff bit_0_eq bot_apply bot_bool_def m(1) possible_bit_word n)
  moreover have "bit (push_bit 7 1 :: byte) n \<longleftrightarrow> n = 7" using n by (simp only: bit_push_bit_iff bit_1_iff) auto
  ultimately show "bit b n = bit (0x80 :: byte) n" using 7 n unfolding m(2) by (cases "n = 7") auto
qed

lemma BIO_read_asn1_low:
  assumes T: "T 1 = BIO_s_mem env" and env: "\<forall>j. malloc_ok env j"
    and h: "mem_holds h a ro eof bs" "eof \<le> 0" "length bs < 2 ^ 31"
    and low: "bs \<noteq> [] \<longrightarrow> bs ! 0 AND 0x1F \<noteq> 0x1F" "\<not> (2 \<le> length bs \<and> bs ! 0 AND 0x20 \<noteq> 0 \<and> bs ! 1 = 0x80)"
  shows "\<exists>res h'. BIO_read_asn1 dbg T env h (Some a) max_len = Some (res, h') \<and> asn1_result dbg h' a ro eof bs max_len res"
proof -
  let ?c = "CBS_init bs (length bs)"
  have T1: "T (Suc 0) = BIO_s_mem env" using T by simp
  have c: "cbs_ok ?c" "cbs_view ?c = bs" "cbs_len ?c = length bs" by (simp_all add: CBS_init_def cbs_ok_def cbs_view_def)
  have l63: "cbs_len ?c < 2 ^ 63" using h(3) c(3) by simp
  obtain h1 where r2: "read_exact T h (Some a) 2 = Some (if 2 \<le> length bs then Some (take 2 bs) else None, h1)"
    "mem_holds h1 a ro eof (drop 2 bs)" using read_exact_mem [where T = T, OF T1 h(1) _ h(2), of 2] by auto
  show ?thesis
  proof (cases "2 \<le> length bs")
    case False
    have "bs \<noteq> der tag body @ rest" for tag body rest
    proof
      assume "bs = der tag body @ rest"
      then obtain x y zs where "bs = x # y # zs" using der_parts by blast
      then show False using False by simp
    qed
    then show ?thesis using r2 False by (auto simp: BIO_read_asn1_def asn1_result_def)
  next
    case True
    then obtain t b bs2 where bs: "bs = t # b # bs2" by (cases bs; cases "tl bs") auto
    let ?tag = "push_bit 24 (ucast t AND 0xe0) OR ucast (t AND 0x1f) :: 32 word"
    have t: "t AND 0x1F \<noteq> 0x1F" using low(1) bs by simp
    have u: "(ucast (t AND 0x1f) :: 32 word) \<noteq> 0x1f"
    proof
      assume "(ucast (t AND 0x1f) :: 32 word) = 0x1f"
      then have "unat (ucast (t AND 0x1f) :: 32 word) = unat (0x1f :: 32 word)" by (rule arg_cong)
      then have "unat (t AND 0x1f) = 31" by (simp add: unat_ucast_byte)
      then show False using t by (simp add: word_unat_eq_iff)
    qed
    have p: "parse_asn1_tag ?c = (Some ?tag, cbs_adv 1 ?c)"
      using parse_asn1_tag_short [OF c(1), of t "b # bs2", OF _ refl u] c(2) bs by simp
    have d1: "drop 1 (cbs_view ?c) = b # bs2" using c(2) bs by simp
    have k1: "1 < cbs_len ?c" using c(3) True by simp
    have m1: "mem_holds h1 a ro eof bs2" using r2(2) bs by simp
    show ?thesis
    proof (cases "b AND 0x80 = 0")
      case True
      have e: "CBS_get_any_asn1_element ?c = element_get ?c ?tag (length [t, b] + unat b) 2"
        using element_short [OF p c(1) d1 True k1, of False] by (simp add: CBS_get_any_asn1_element_def numeral_2_eq_2)
      have "unat b < 2 ^ 32" using unsigned_less [of b, where 'a = nat] by simp
      from asn1_body_result [where T = T, OF T1 m1 h(2) env _ h(3) this e] show ?thesis
        using r2(1) bs t True by (simp add: BIO_read_asn1_def Let_def)
    next
      case False
      let ?nb = "unat (b AND 0x7f)" and ?n = "be_nat (take (unat (b AND 0x7f)) bs2)"
      show ?thesis
      proof (cases "?nb = 0")
        case True
        have b80: "b = 0x80" using False True by (rule only_0x80)
        then have "t AND 0x20 = 0" using low(2) bs by auto
        then have "BIO_read_asn1 dbg T env h (Some a) max_len = Some (None, h1)"
          using r2(1) bs t by (simp add: BIO_read_asn1_def Let_def b80)
        moreover have "fst (CBS_get_any_asn1_element ?c) = None"
          using element_indefinite [OF p c(1) d1 b80 k1, of False] by (simp add: CBS_get_any_asn1_element_def)
        ultimately show ?thesis using asn1_none [OF h(3) _ m1] by blast
      next
        case nb: False
        then have pos: "0 < ?nb" by simp
        note el = element_long [OF p c(1) d1 False k1 refl pos l63, of False, folded CBS_get_any_asn1_element_def, unfolded Let_def]
        show ?thesis
        proof (cases "?nb > 4")
          case True
          then have "BIO_read_asn1 dbg T env h (Some a) max_len = Some (None, h1)"
            using r2(1) bs t False nb by (simp add: BIO_read_asn1_def Let_def)
          moreover have "fst (CBS_get_any_asn1_element ?c) = None" using el True by simp
          ultimately show ?thesis using asn1_none [OF h(3) _ m1] by blast
        next
          case nb4: False
          then have "?nb < 2 ^ 31" by simp
          then obtain h2 where r3: "read_exact T h1 (Some a) ?nb = Some (if ?nb \<le> length bs2 then Some (take ?nb bs2) else None, h2)"
            "mem_holds h2 a ro eof (drop ?nb bs2)" using read_exact_mem [where T = T, OF T1 m1 _ h(2)] by blast
          have R: "BIO_read_asn1 dbg T env h (Some a) max_len =
              (if length bs2 < ?nb \<or> ?n < 128 \<or> ?n < 256 ^ (?nb - 1) then Some (None, h2)
               else read_asn1_body T env h2 (Some a) ([t, b] @ take ?nb bs2) ?n max_len)"
          proof (cases "?nb \<le> length bs2")
            case True
            have "?n < 256 ^ ?nb" using be_nat_less [of "take ?nb bs2"] True by simp
            also have "\<dots> \<le> 256 ^ 4" using nb4 by (intro power_increasing) auto
            finally have n: "?n < 2 ^ 32" by simp
            have u: "unat (word_of_nat ?n :: 32 word) = ?n" using n by (rule unat_of_nat32)
            then have lt: "(word_of_nat ?n :: 32 word) < 128 \<longleftrightarrow> ?n < 128" by (simp add: word_less_nat_alt)
            show ?thesis using r2(1) bs t False nb nb4 r3(1) True drop_bit_len32 [OF n, of "?nb - 1"]
              by (simp add: BIO_read_asn1_def Let_def be_nat_foldl lt u)
          next
            case s: False
            then show ?thesis using r2(1) bs t False nb nb4 r3(1) by (simp add: BIO_read_asn1_def Let_def)
          qed
          show ?thesis
          proof (cases "length bs2 < ?nb \<or> ?n < 128 \<or> ?n < 256 ^ (?nb - 1)")
            case True
            then have "fst (CBS_get_any_asn1_element ?c) = None" using el by auto
            then show ?thesis using R True asn1_none [OF h(3) _ r3(2)] by auto
          next
            case ok: False
            have "?n < 256 ^ ?nb" using be_nat_less [of "take ?nb bs2"] ok by simp
            also have "\<dots> \<le> 256 ^ 4" using nb4 by (intro power_increasing) auto
            finally have n: "?n < 2 ^ 32" by simp
            have e: "CBS_get_any_asn1_element ?c = element_get ?c ?tag (length ([t, b] @ take ?nb bs2) + ?n) (1 + 1 + ?nb)"
              using el ok nb4 by simp
            have sp: "bs = ([t, b] @ take ?nb bs2) @ drop ?nb bs2" using bs by simp
            show ?thesis using asn1_body_result [where T = T, OF T1 r3(2) h(2) env sp h(3) n e] R ok by simp
          qed
        qed
      qed
    qed
  qed
qed

lemma BIO_read_asn1_high:
  assumes T: "T 1 = BIO_s_mem env" and h: "mem_holds h a ro eof bs" "eof \<le> 0" and high: "bs \<noteq> []" "bs ! 0 AND 0x1F = 0x1F"
  shows "\<exists>h' rest. BIO_read_asn1 dbg T env h (Some a) max_len = Some (None, h') \<and> mem_holds h' a ro eof rest"
proof -
  have T1: "T (Suc 0) = BIO_s_mem env" using T by simp
  obtain h1 where "read_exact T h (Some a) 2 = Some (if 2 \<le> length bs then Some (take 2 bs) else None, h1)"
    "mem_holds h1 a ro eof (drop 2 bs)" using read_exact_mem [where T = T, OF T1 h(1) _ h(2), of 2] by auto
  then show ?thesis using high by (auto simp: BIO_read_asn1_def Let_def)
qed

text \<open>
  C17. \<open>BIO_read_asn1\<close> on a memory BIO takes an element exactly if the contents start with the DER form of
  one whose tag has the short form, that is, with a tag number below 31, and of no more than \<open>max_len\<close>
  bytes: then it is returned, in a block of its size, and taken from the BIO. Anything else is refused, the
  elements with long-form tags among it, which the parser of CBS takes. The one case that is left out, a
  constructed tag with an indefinite length, is not refused: it is read as the next property says.
\<close>

theorem BIO_read_asn1_der:
  assumes T: "T 1 = BIO_s_mem env" and env: "\<forall>j. malloc_ok env j"
    and h: "mem_holds h a ro eof bs" "eof \<le> 0" "length bs < 2 ^ 31"
    and definite: "\<not> (2 \<le> length bs \<and> bs ! 0 AND 0x20 \<noteq> 0 \<and> bs ! 1 = 0x80 \<and> bs ! 0 AND 0x1F \<noteq> 0x1F)"
  shows "\<exists>res h' rest. BIO_read_asn1 dbg T env h (Some a) max_len = Some (res, h') \<and> mem_holds h' a ro eof rest \<and>
    (case res of
       None \<Rightarrow> \<nexists>tag body rest. bs = der tag body @ rest \<and> length (der tag body) \<le> max_len \<and> bs ! 0 AND 0x1F \<noteq> 0x1F
     | Some (p, n) \<Rightarrow> bs ! 0 AND 0x1F \<noteq> 0x1F \<and>
         (\<exists>tag body. bs = der tag body @ rest \<and> blk_mem p = der tag body \<and> n = length (der tag body) \<and> n \<le> max_len))"
proof (cases "bs \<noteq> [] \<and> bs ! 0 AND 0x1F = 0x1F")
  case True
  then show ?thesis using BIO_read_asn1_high [where T = T and dbg = dbg and max_len = max_len, OF T h(1,2)] by force
next
  case False
  then have "bs \<noteq> [] \<longrightarrow> bs ! 0 AND 0x1F \<noteq> 0x1F" "\<not> (2 \<le> length bs \<and> bs ! 0 AND 0x20 \<noteq> 0 \<and> bs ! 1 = 0x80)"
    using definite by auto
  from BIO_read_asn1_low [where T = T, OF T env h this] obtain res h' where
    r: "BIO_read_asn1 dbg T env h (Some a) max_len = Some (res, h')" "asn1_result dbg h' a ro eof bs max_len res" by blast
  obtain rest where rest: "mem_holds h' a ro eof rest"
    "case res of None \<Rightarrow> \<forall>tag body rest. bs = der tag body @ rest \<longrightarrow> max_len < length (der tag body)
     | Some (p, n) \<Rightarrow> \<exists>tag body. bs = der tag body @ rest \<and> blk_mem p = der tag body \<and> n = length (der tag body) \<and> n \<le> max_len"
    using r(2) unfolding asn1_result_def by blast
  show ?thesis
  proof (cases res)
    case None
    then show ?thesis using r(1) rest by (intro exI [of _ None] exI [of _ h'] exI [of _ rest]) (auto simp: not_le)
  next
    case (Some pn)
    then obtain p n tag body where p: "res = Some (p, n)" "bs = der tag body @ rest" "blk_mem p = der tag body"
      "n = length (der tag body)" "n \<le> max_len" using rest(2) by (cases pn) auto
    have "bs \<noteq> []" using der_parts [OF p(2)] by auto
    then show ?thesis using r(1) rest(1) p False by (intro exI [of _ res] exI [of _ h'] exI [of _ rest]) auto
  qed
qed

section \<open>Reading everything\<close>

lemma realloc_plenty:
  assumes "\<forall>j. malloc_ok env j" "n + 8 < 2 ^ 64" "blk_ok p" "blk_size p \<le> n"
  obtains q where "OPENSSL_realloc env (Some p) n = Some q" "blk_ok q" "blk_size q = n" "\<forall>k\<le>blk_size p. take k (blk_mem q) = take k (blk_mem p)"
proof -
  obtain q where q: "OPENSSL_realloc env (Some p) n = Some q"
    using assms(1) by (auto simp: OPENSSL_realloc_def OPENSSL_malloc_def Let_def)
  have "blk_ok q \<and> blk_size q = n \<and> (\<forall>k\<le>n. k \<le> blk_size p \<longrightarrow> take k (blk_mem q) = take k (blk_mem p))"
    using OPENSSL_realloc_ok [OF q assms(2)] assms(3) by auto
  then show ?thesis using that q assms(4) by auto
qed

lemma size_sub_le: "b \<le> a \<Longrightarrow> a < 2 ^ 64 \<Longrightarrow> size_sub a b = a - b"
proof -
  assume "b \<le> a" "a < 2 ^ 64"
  then have "a + 2 ^ 64 - b = (a - b) + 2 ^ 64" "a - b < 2 ^ 64" by simp_all
  then show "size_sub a b = a - b" unfolding size_sub_def size_wrap_def by (simp only: mod_add_self2 mod_less)
qed

lemma read_all_loop_mem:
  assumes T: "T (Suc 0) = BIO_s_mem env" and env: "\<forall>j. malloc_ok env j" and mx: "max_len < INT_MAX"
  shows "mem_holds h a ro 0 bs \<Longrightarrow> blk_ok out \<Longrightarrow> blk_size out = len \<Longrightarrow> take fill (blk_mem out) = pre \<Longrightarrow> fill \<le> len \<Longrightarrow>
    fill < len \<or> len = max_len \<Longrightarrow> len \<le> max_len \<Longrightarrow>
    \<exists>res h' rest. read_all_loop dbg T env h (Some a) out len fill max_len = Some (res, h') \<and> mem_holds h' a ro 0 rest \<and>
      (if fill + length bs < max_len
       then rest = [] \<and> (\<exists>p. res = Some (p, fill + length bs) \<and> take (fill + length bs) (blk_mem p) = pre @ bs)
       else res = None)"
proof (induction "length bs" arbitrary: h bs out len fill pre rule: less_induct)
  case less
  note pr = less.prems
  show ?case
  proof (cases "fill = len")
    case True
    then show ?thesis using pr by (subst read_all_loop.simps) auto
  next
    case False
    let ?todo = "len - fill"
    have todo: "size_sub len fill = ?todo" using pr(5,7) mx by (simp add: size_sub_le INT_MAX_def)
    have lt: "0 < ?todo" "?todo < 2 ^ 31" "?todo < INT_MAX" using False pr(5,7) mx by (auto simp: INT_MAX_def)
    have ti: "to_int ?todo = int ?todo" using lt(2) by (rule to_int_small)
    define k where "k = min ?todo (length bs)"
    define new where "new = take ?todo bs"
    have new: "length new = k" by (simp add: new_def k_def)
    obtain h1 where rd: "BIO_read T h (Some a) False (int ?todo) = Some (if bs = [] then 0 else int k, new, h1)"
      "mem_holds h1 a ro 0 (drop ?todo bs)" using BIO_read_mem [where T = T, OF T pr(1) lt(1,2)] unfolding k_def new_def by blast
    have lo: "length (blk_mem out) = len" using pr(2,3) by (simp add: blk_ok_def)
    have lp: "length pre = fill" using arg_cong [OF pr(4), of length] pr(5) lo by simp
    show ?thesis
    proof (cases "bs = []")
      case True
      then have "read_all_loop dbg T env h (Some a) out len fill max_len = Some (Some (out, fill), h1)"
        using False lt(3) rd(1) by (subst read_all_loop.simps) (simp add: todo ti blk_store_def new_def)
      then show ?thesis using True rd(2) pr(4,5,7) False by auto
    next
      case ne: False
      let ?out1 = "out\<lparr>blk_mem := mem_write (blk_mem out) fill (new)\<rparr>"
      have k: "0 < k" "k \<le> ?todo" "new \<noteq> []" using ne lt(1) by (auto simp: k_def new_def)
      have st: "blk_store out fill (new) = Some ?out1" using lo pr(5) k(2) new by (intro blk_store_all) simp
      have f1: "nat ((int fill + int k) mod 18446744073709551616) = fill + k"
      proof -
        have "int fill + int k < 2 ^ 64" using k(2) pr(5,7) mx by (simp add: INT_MAX_def)
        then show ?thesis by simp
      qed
      have z: "int k \<noteq> 0" "int k \<noteq> - 1" using k(1) by linarith+
      have s1: "size_sub len (fill + k) = len - (fill + k)" using k(2) pr(5,7) mx by (intro size_sub_le) (auto simp: INT_MAX_def)
      have o1: "blk_ok ?out1" "blk_size ?out1 = len" using pr(2,3,5) k(2) new by (simp_all add: blk_ok_def)
      have t1: "take (fill + k) (blk_mem ?out1) = pre @ new"
        using take_mem_write [of fill "new" "blk_mem out"] lo pr(4,5) k(2) new by simp
      have dec: "length (drop ?todo bs) < length bs" using lt(1) ne unfolding length_drop by (intro diff_less) simp_all
      have tot: "fill + k + length (drop ?todo bs) = fill + length bs" by (simp add: k_def)
      have app: "(pre @ new) @ drop ?todo bs = pre @ bs" by (simp add: new_def)
      let ?grow = "len < max_len \<and> len - (fill + k) < kChunkSize div 2"
      define len2 where "len2 = (if len + kChunkSize > max_len then max_len else len + kChunkSize)"
      have w: "size_wrap (len + kChunkSize) = len + kChunkSize" using pr(7) mx by (intro size_wrap_id) (simp add: INT_MAX_def kChunkSize_def)
      have s: "read_all_loop dbg T env h (Some a) out len fill max_len =
          (if ?grow then case OPENSSL_realloc env (Some ?out1) len2 of None \<Rightarrow> Some (None, h1)
             | Some nb \<Rightarrow> read_all_loop dbg T env h1 (Some a) nb len2 (fill + k) max_len
           else read_all_loop dbg T env h1 (Some a) ?out1 len (fill + k) max_len)"
        using False lt(3) rd(1) ne z
        by (subst read_all_loop.simps) (simp add: todo ti st f1 s1 w len2_def Let_def split: option.split)
      note ih = less.hyps [OF dec rd(2)]
      show ?thesis
      proof (cases ?grow)
        case True
        have l2: "len \<le> len2" "len2 \<le> max_len" "fill + k < len2" "len2 + 8 < 2 ^ 64"
          using True k(2) pr(5) mx by (auto simp: len2_def kChunkSize_def INT_MAX_def)
        obtain nb where nb: "OPENSSL_realloc env (Some ?out1) len2 = Some nb" "blk_ok nb" "blk_size nb = len2"
          "\<forall>k\<le>blk_size ?out1. take k (blk_mem nb) = take k (blk_mem ?out1)"
          by (rule realloc_plenty [OF env l2(4) o1(1)]) (use o1(2) l2(1) in auto)
        have "fill + k \<le> len" using k(2) pr(5) by simp
        then have "take (fill + k) (blk_mem nb) = pre @ new" using nb(4) o1(2) t1 by simp
        from ih [OF nb(2,3) this] l2 have "\<exists>res h' rest. read_all_loop dbg T env h1 (Some a) nb len2 (fill + k) max_len = Some (res, h') \<and>
            mem_holds h' a ro 0 rest \<and> (if fill + length bs < max_len
              then rest = [] \<and> (\<exists>p. res = Some (p, fill + length bs) \<and> take (fill + length bs) (blk_mem p) = pre @ bs) else res = None)"
          unfolding tot app by simp
        then show ?thesis using s True nb(1) by simp
      next
        case g: False
        have "fill + k < len \<or> len = max_len" using g pr(7) by (auto simp: kChunkSize_def)
        moreover have "fill + k \<le> len" using k(2) pr(5) by simp
        moreover have "read_all_loop dbg T env h (Some a) out len fill max_len = read_all_loop dbg T env h1 (Some a) ?out1 len (fill + k) max_len"
          unfolding s using g by (simp only: if_False)
        ultimately show ?thesis using ih [OF o1 t1] pr(7) unfolding tot app by simp
      qed
    qed
  qed
qed


text \<open>
  C18. When the element is of indefinite length, \<open>BIO_read_asn1\<close> returns all that is left in a read-only
  memory BIO, the header included, in a block that holds it, if that is less than \<open>max_len\<close>, and
  fails otherwise; the loop ends, and its buffer grows as it has to. It fails when there are exactly
  \<open>max_len\<close> bytes, as the comment of \<open>bio_read_all\<close> says; \<open>bio.h\<close> promises to fail only if there are more.
\<close>

theorem BIO_read_asn1_indefinite:
  assumes T: "T 1 = BIO_s_mem env" and env: "\<forall>j. malloc_ok env j" and mx: "max_len < INT_MAX"
    and h: "mem_holds h a ro 0 (t # 0x80 # bs)" and t: "t AND 0x1F \<noteq> 0x1F" "t AND 0x20 \<noteq> 0"
  shows "\<exists>res h' rest. BIO_read_asn1 dbg T env h (Some a) max_len = Some (res, h') \<and> mem_holds h' a ro 0 rest \<and>
    (if length bs + 2 < max_len
     then rest = [] \<and> (\<exists>p. res = Some (p, length bs + 2) \<and> take (length bs + 2) (blk_mem p) = t # 0x80 # bs)
     else res = None)"
proof -
  have T1: "T (Suc 0) = BIO_s_mem env" using T by simp
  let ?bs = "t # 0x80 # bs"
  obtain h1 where r2: "read_exact T h (Some a) 2 = Some (Some [t, 0x80], h1)" "mem_holds h1 a ro 0 bs"
    using read_exact_mem [where T = T, OF T1 h, of 2] by auto
  have b: "BIO_read_asn1 dbg T env h (Some a) max_len = bio_read_all dbg T env h1 (Some a) [t, 0x80] max_len"
    using r2(1) t by (simp add: BIO_read_asn1_def Let_def)
  define len where "len = (if 2 + kChunkSize > max_len then max_len else 2 + kChunkSize)"
  have w: "size_wrap (2 + kChunkSize) = 2 + kChunkSize" by (intro size_wrap_id) (simp add: kChunkSize_def)
  have l2: "length [t, 0x80] = 2" by simp
  show ?thesis
  proof (cases "len < 2")
    case True
    then have "bio_read_all dbg T env h1 (Some a) [t, 0x80] max_len = Some (None, h1)" "max_len < 2"
      unfolding bio_read_all_def Let_def l2 w len_def [symmetric]
      by (simp_all add: len_def kChunkSize_def split: if_splits)
    then show ?thesis using b r2(2) by auto
  next
    case False
    have lm: "len \<le> max_len" "len < 2 ^ 31" "len < max_len \<longrightarrow> 2 < len" using mx by (auto simp: len_def INT_MAX_def kChunkSize_def)
    have "len + 8 < 2 ^ 64" using lm by simp
    from malloc_plenty [OF env this] obtain p where p: "OPENSSL_malloc env len = Some p" "length (blk_mem p) = len" .
    have pok: "blk_ok p \<and> blk_size p = len" using OPENSSL_malloc_ok [OF p(1)] lm by simp
    let ?p = "p\<lparr>blk_mem := mem_write (blk_mem p) 0 [t, 0x80]\<rparr>"
    have st: "blk_store p 0 [t, 0x80] = Some ?p" using p(2) False by (intro blk_store_all) simp
    have "bio_read_all dbg T env h1 (Some a) [t, 0x80] max_len = read_all_loop dbg T env h1 (Some a) ?p len 2 max_len"
      unfolding bio_read_all_def Let_def l2 w len_def [symmetric] using False p(1) st by simp
    note all = this
    have lw: "length (mem_write (blk_mem p) 0 [t, 0x80]) = len" using p(2) False by (subst length_mem_write) auto
    have ok: "blk_ok ?p" "blk_size ?p = len" unfolding blk_ok_def using lw pok by simp_all
    have tk: "take 2 (blk_mem ?p) = [t, 0x80]" unfolding mem_write_def by simp
    have two: "2 \<le> len" "2 < len \<or> len = max_len" using False lm by auto
    have c: "2 + length bs = length bs + 2" "[t, 0x80] @ bs = t # 0x80 # bs" by simp_all
    show ?thesis
      using read_all_loop_mem [where T = T, OF T1 env mx r2(2) ok tk two lm(1), of dbg] unfolding b all c .
  qed
qed






lemma BIO_new_mem_buf_holds:
  assumes T: "T (Suc 0) = BIO_s_mem env" and env: "\<forall>j. malloc_ok env j"
  shows "\<exists>h'. BIO_new_mem_buf T env h (Some bs) (int (length bs)) = Some (Some (bh_next h), h') \<and> mem_holds h' (bh_next h) True 0 bs"
proof -
  have m: "OPENSSL_malloc env k \<noteq> None" for k using env by (simp add: OPENSSL_malloc_def Let_def)
  obtain p1 p2 where p: "OPENSSL_malloc env 64 = Some p1" "OPENSSL_malloc env 24 = Some p2" using m by blast
  have f: "BIO_FLAGS_MEM_RDONLY AND BIO_FLAGS_MEM_RDONLY \<noteq> 0" by (simp add: BIO_FLAGS_MEM_RDONLY_def)
  show ?thesis using T p f
    by (simp add: BIO_new_mem_buf_def BIO_new_def BIO_s_mem_def mem_new_def BUF_MEM_new_def mem_holds_def Let_def bm_mem_def
        is_rdonly_def get_mem_def)
qed




lemma BIO_read_asn1_indefinite_witness:
  "\<exists>a h1 h2 p. BIO_new_mem_buf (\<lambda>_. BIO_s_mem plenty) plenty \<lparr>bh_bio = \<lambda>_. None, bh_next = 0\<rparr> (Some [0x30, 0x80, 5, 0, 0, 0]) 6 = Some (Some a, h1) \<and>
     BIO_read_asn1 True (\<lambda>_. BIO_s_mem plenty) plenty h1 (Some a) 100 = Some (Some (p, 6), h2) \<and>
     take 6 (blk_mem p) = [0x30, 0x80, 5, 0, 0, 0]"
proof -
  let ?T = "\<lambda>_ :: nat. BIO_s_mem plenty" and ?h = "\<lparr>bh_bio = \<lambda>_. None, bh_next = 0\<rparr>"
  have pl: "\<forall>j. malloc_ok plenty j" by (simp add: plenty_def)
  obtain h1 where 1: "BIO_new_mem_buf ?T plenty ?h (Some [0x30, 0x80, 5, 0, 0, 0]) 6 = Some (Some (bh_next ?h), h1)"
    "mem_holds h1 (bh_next ?h) True 0 (0x30 # 0x80 # [5, 0, 0, 0])"
    using BIO_new_mem_buf_holds [where T = ?T, OF refl pl, of ?h "[0x30, 0x80, 5, 0, 0, 0]"] by auto
  have c: "(100 :: nat) < INT_MAX" "(0x30 :: byte) AND 0x1F \<noteq> 0x1F" "(0x30 :: byte) AND 0x20 \<noteq> 0"
    "length [5 :: byte, 0, 0, 0] + 2 = 6" "(6 :: nat) < 100" by (simp_all add: INT_MAX_def)
  note r = BIO_read_asn1_indefinite [where T = ?T, OF refl pl c(1) 1(2) c(2,3), of True]
  show ?thesis using r unfolding c(4) if_P [OF c(5)] using 1(1) by blast
qed

lemma BIO_read_asn1_der_witness:
  "\<exists>a h1 h2 p n tag body. BIO_new_mem_buf (\<lambda>_. BIO_s_mem plenty) plenty \<lparr>bh_bio = \<lambda>_. None, bh_next = 0\<rparr> (Some [0x30, 2, 5, 0, 9]) 5 = Some (Some a, h1) \<and>
     BIO_read_asn1 True (\<lambda>_. BIO_s_mem plenty) plenty h1 (Some a) 100 = Some (Some (p, n), h2) \<and> blk_mem p = der tag body"
proof -
  let ?T = "\<lambda>_ :: nat. BIO_s_mem plenty" and ?h = "\<lparr>bh_bio = \<lambda>_. None, bh_next = 0\<rparr>"
  have pl: "\<forall>j. malloc_ok plenty j" by (simp add: plenty_def)
  obtain h1 where 1: "BIO_new_mem_buf ?T plenty ?h (Some [0x30, 2, 5, 0, 9]) 5 = Some (Some (bh_next ?h), h1)"
    "mem_holds h1 (bh_next ?h) True 0 [0x30, 2, 5, 0, 9]"
    using BIO_new_mem_buf_holds [where T = ?T, OF refl pl, of ?h "[0x30, 2, 5, 0, 9]"] by auto
  have d: "[0x30, 2, 5, 0, 9] = der (push_bit 24 0x20 OR 0x10) [5, 0] @ [9]"
    "length (der (push_bit 24 0x20 OR 0x10) [5, 0]) = 4" by code_simp+
  obtain res h' rest where r: "BIO_read_asn1 True ?T plenty h1 (Some (bh_next ?h)) 100 = Some (res, h')"
    "case res of
       None \<Rightarrow> \<nexists>tag body rest. [0x30, 2, 5, 0, 9] = der tag body @ rest \<and> length (der tag body) \<le> 100 \<and>
         [0x30, 2, 5, 0, 9 :: byte] ! 0 AND 0x1F \<noteq> 0x1F
     | Some (p, n) \<Rightarrow> [0x30, 2, 5, 0, 9 :: byte] ! 0 AND 0x1F \<noteq> 0x1F \<and>
         (\<exists>tag body. [0x30, 2, 5, 0, 9] = der tag body @ rest \<and> blk_mem p = der tag body \<and> n = length (der tag body) \<and> n \<le> 100)"
    using BIO_read_asn1_der [where T = ?T, OF refl pl 1(2), of True 100] by auto
  have l: "length (der (push_bit 24 0x20 OR 0x10) [5, 0]) \<le> 100" "[0x30, 2, 5, 0, 9 :: byte] ! 0 AND 0x1F \<noteq> 0x1F"
    unfolding d(2) by simp_all
  have "res \<noteq> None"
  proof
    assume n: "res = None"
    show False using r(2) [unfolded n option.case] d(1) l by blast
  qed
  then obtain p n where "res = Some (p, n)" by auto
  moreover from this obtain tag body where "blk_mem p = der tag body" using r(2) by auto
  ultimately show ?thesis using 1(1) r(1) by blast
qed

end
