(* ===== verification/Spec2Isabelle.thy ===== *)
theory Spec2Isabelle
  imports Pb_Alloc Ber Base64 Stack Lhash Keystream Bio_Asn1
begin

text \<open>
  A verification library for the C code this repository ships: the application in
  \<open>src/Crawl/Crawl\<close> is Swift over UIKit, and the C code is that of its pods. The library
  models the self-contained cores of two of them, the protobuf runtime \<open>nanopb\<close>
  (\<open>src/Crawl/Pods/nanopb\<close>), which the Firestore client and the data transport use for
  every message they store or send, and the part of BoringSSL
  (\<open>src/Crawl/Pods/BoringSSL-GRPC/crypto\<close>) that reads and writes untrusted bytes and keeps
  its data structures, under gRPC.

  \<^bold>\<open>How the code is represented.\<close> A definition has the name of the C function it translates;
  a loop of a function \<open>f\<close> is a recursive function of its own next to it. A structure is a
  record, memory is a list of bytes with an offset for a pointer into it, \<open>size_t\<close> is a natural
  number with the wrap-around of 64 bits written out (\<open>size_wrap\<close>) where the code computes
  one, and other integers are words of their width. A function gives its result together with the
  objects it changes; failure is \<open>None\<close> or \<open>False\<close>, and an object a failing call has
  touched is returned as the call leaves it. What \<open>malloc\<close> does is the parameter
  \<open>heap_env\<close>: which requests succeed and what fresh memory holds. Entries in the error
  queue are not part of the model. The target has 64-bit pointers, little-endian memory and
  signed \<open>char\<close>.

  \<^bold>\<open>nanopb.\<close>
  \<^item> \<open>Pb_Stream\<close>: \<open>pb_istream_t\<close>, \<open>pb_ostream_t\<close>, \<open>pb_read\<close>,
    \<open>pb_write\<close>, buffers and caller's callbacks (\<open>pb_decode.c\<close>, \<open>pb_encode.c\<close>).
  \<^item> \<open>Pb_Varint\<close>: the variable-length integers. The 64-bit decoder is characterised on all
    inputs; the 32-bit one is exact on canonical input and on five bytes, and accepts longer numbers that
    do not fit.
  \<^item> \<open>Pb_Wire\<close>: tags, fixed-width values, strings, skipping, substreams, and the decoders of
    single values.
  \<^item> \<open>Pb_Fields\<close>: the \<open>pb_enc_*\<close> and \<open>pb_dec_*\<close> functions of the field types and
    the arrays of them.
  \<^item> \<open>Pb_Codec\<close>: the locale \<open>item_codec\<close> is what a row of the tables
    \<open>PB_ENCODERS\<close> and \<open>PB_DECODERS\<close> owes the array code. The packed array code is
    proved against it, and every packable row interprets it.
  \<^item> \<open>Pb_Iter\<close>: structures in memory and the iterator over field descriptors
    (\<open>pb_common.c\<close>). Here memory is flat, a function from addresses to bytes with the set of
    allocated blocks and a flag that the code has done what C leaves undefined.
  \<^item> \<open>Pb_Message\<close>: \<open>pb_decode\<close> and all it calls: static, pointer and callback
    fields, oneofs, extensions, default values, \<open>pb_release\<close>. The allocator (\<open>place\<close>,
    \<open>scribble\<close>), the descriptors at an address and the caller's callbacks are the fields of the
    record \<open>pb_env\<close>. Recursion over nested messages and the loops run on fuel, the first argument:
    \<open>None\<close> means it was too small.
  \<^item> \<open>Pb_Msg_Encode\<close>: \<open>pb_encode\<close> and all it calls. It only reads memory; its first argument
    bounds the depth of nesting.
  \<^item> \<open>Pb_Msg_Values\<close>, \<open>Pb_Roundtrip\<close>: encoding and then decoding a message of static fields. A
    field owns a set of addresses (\<open>field_cells\<close>), \<open>static_msg\<close> says that the descriptors of a
    type keep them apart, \<open>same_msg\<close> when two structures hold the same message, \<open>emits\<close> what an
    encoder appends, and \<open>only\<close> that nothing else is stored. Fuel beyond the number of bytes plus the
    depth of the type is enough, since every field takes at least one byte.
  \<^item> \<open>Pb_Alloc\<close>: two runs in which pointer fields are not managed the way the code means to.

  \<^bold>\<open>BoringSSL.\<close>
  \<^item> \<open>Libc\<close>: \<open>memcmp\<close>, \<open>strcmp\<close>, \<open>qsort\<close> and \<open>bsearch\<close>, the
    last two as the contracts \<open>qsort_spec\<close> and \<open>bsearch_spec\<close> with an instance each.
  \<^item> \<open>Mem_Buf\<close>: \<open>mem.c\<close>, allocation with the size in front of the block, string
    functions; \<open>buf/buf.c\<close>, growable buffers, which refine byte strings.
  \<^item> \<open>Cbs\<close>, \<open>Cbb\<close>: \<open>bytestring/cbs.c\<close> and \<open>cbb.c\<close>, the parser and the
    builder of DER. A CBB and its open children share one buffer, so the model keeps the chain of
    them with it. The invariant says which bytes belong to which child; flushing keeps it
    and turns the children into what the lengths say. The element parser is proved to accept
    exactly the definition of DER in \<open>Cbs\<close>.
  \<^item> \<open>Oid\<close>: object identifiers from and to text, inverse to each other.
  \<^item> \<open>Set_Of\<close>: \<open>CBB_flush_asn1_set_of\<close>, which sorts the elements of a SET OF, over
    any \<open>qsort\<close> that keeps its contract.
  \<^item> \<open>Ber\<close>: \<open>bytestring/ber.c\<close>. BER values are a datatype with its encodings; the
    converter is correct for values nested less deep than \<open>kMaxDepth\<close>, the limit of the code. What
    it converts is what the walk before it notices (\<open>noticed\<close>), which is not all BER: the verdict on what is
    nested in an element can be lost.
    Its recursion runs on fuel; the input length plus one is what the top level gives it and what the
    proof shows to be enough, because every call has read at least one byte more.
  \<^item> \<open>Constant_Time\<close>, \<open>Base64\<close>: the masks of \<open>internal.h\<close>, and
    \<open>base64/base64.c\<close> with its streaming encoder and decoder, against RFC 4648: no matter how
    the input is cut into chunks.
  \<^item> \<open>Stack\<close>: \<open>stack/stack.c\<close>, a list with a flag that it is sorted; what
    \<open>sk_find\<close> does with it over any \<open>qsort\<close> and \<open>bsearch\<close>.
  \<^item> \<open>Lhash\<close>: \<open>lhash/lhash.c\<close>, a set up to the client's equality (locale
    \<open>hash_keys\<close>). A callback of an iteration may change the table, so items keep their
    addresses and an access to a freed one is an error of the model; the iteration has fuel,
    one unit for each item of a chain, and the number of items is enough.
  \<^item> \<open>Ram\<close>, \<open>Modes\<close>, \<open>Stream_Modes\<close>, \<open>Keystream\<close>: \<open>fipsmodule/modes\<close>, CBC, CTR, CFB and
    OFB over any block cipher (\<open>E\<close>), with input, output and vector at addresses of one memory that may
    overlap where the code allows it. The byte-wise branches for machines without unaligned words
    (\<open>STRICT_ALIGNMENT\<close>) are left out. The locale \<open>stream_code\<close> is the shape CTR, CFB and OFB share;
    each of them interprets it. A function that counts in 32 bits enters by its contract
    \<open>ctr32_contract\<close>.
  \<^item> \<open>Bio\<close>, \<open>Bio_Pair\<close>, \<open>Bio_Mem\<close>: \<open>bio/bio.c\<close>, \<open>pair.c\<close> and \<open>bio_mem.c\<close>. BIOs live at
    addresses of a heap, with a reference count and a method; \<open>T\<close> is the table of methods, in which 0
    and 1 are the pair and the memory BIO. \<open>None\<close> is a failed assertion, a pointer that leads nowhere or
    a loop that does not end. The locale \<open>bio_contract\<close> is what a kind of BIO owes its users: to
    go on as its specification does. Pairs are two bounded queues (\<open>pair_spec\<close>), memory BIOs one
    queue with lines (\<open>mem_spec\<close>), both with what a side has to try again (\<open>retry\<close>), which is what its
    retry flags say, and the runs of a pair (\<open>pair_run\<close>) deliver what was sent. A line is specified by the
    place of the first newline (\<open>first_line\<close>), not by the loop of the code. Replacing the buffer of a memory
    BIO (\<open>BIO_set_mem_buf\<close>) is modelled but is not one of the calls of \<open>mem_spec\<close>.
  \<^item> \<open>Bio_Asn1\<close>: \<open>BIO_read_asn1\<close> from a memory BIO. It takes the elements \<open>Cbs\<close> takes, but for those with a
    tag in the long form, which it refuses, and for indefinite lengths, with which it reads everything. What
    \<open>*out\<close> holds when it fails is left out of the model.

  \<^bold>\<open>Flow between the parts.\<close> \<open>Mem_Buf\<close> allocates for everything of BoringSSL. \<open>Ber\<close>
  reads with \<open>Cbs\<close> and writes with \<open>Cbb\<close>; \<open>Set_Of\<close> and \<open>Oid\<close> do both.
  \<open>Base64\<close> works on the masks of \<open>Constant_Time\<close>. \<open>Bio_Mem\<close> keeps its bytes in the buffers of
  \<open>Mem_Buf\<close>, through \<open>BUF_MEM_grow_clean\<close>. In nanopb each layer calls the one
  before it, down to the streams.

  \<^bold>\<open>What the lemmas show.\<close> Each theory first has the operations, then an invariant or an
  abstract view (\<open>cbb_ok\<close>, the bytes of a BUF_MEM, \<open>lh_ok\<close>, the list of a stack), then what
  each operation does to it on success and on failure, and at its end the properties of the
  component: what is accepted, what is produced, round trips, what streaming in chunks computes,
  and that nothing is stored out of bounds. Where the code does not do what it means to, the theorem
  states what it does: over-long varints (\<open>Pb_Codec\<close>), nested BER overlooked
  (\<open>Ber\<close>), a search in a stack that is no longer sorted (\<open>Stack\<close>), a size that
  wraps (\<open>Mem_Buf\<close>), contents of exactly the limit refused, against \<open>bio.h\<close>, and an error taken for a
  number of bytes (\<open>Bio_Asn1\<close>).

  \<^bold>\<open>Not modelled.\<close> The Swift application and the Objective-C and C++ pods have no C code of
  their own logic or work through objects, threads and the operating system. Of BoringSSL: the ciphers themselves, hashes and
  number theory, X.509 and TLS, the generated tables, and the locks and thread-local storage of the
  platform.
\<close>

end
